(* ===== verification/Go_Prelude.thy ===== *)
theory Go_Prelude
  imports Main "HOL-Library.Sublist"
begin

text \<open>
  Shared vocabulary of the development: outcomes of a Go function that can
  return an error or panic, slices, and the functions of the standard
  package \<open>strings\<close> that the modelled code uses.  A Go \<open>string\<close> is a sequence
  of bytes; here it is an HOL \<open>string\<close>, whose characters are the 256 byte
  values.  The collections \<open>go_simps\<close> and \<open>go_splits\<close> gather the equations
  that component proofs pass to the simplifier.
\<close>

named_theorems go_simps
named_theorems list_arith

section \<open>Outcomes\<close>

text \<open>\<open>Ok\<close>: the function returned with a nil error; \<open>Err\<close>: it returned a
  non-nil error; \<open>Panic\<close>: it panicked (out-of-range slice, explicit panic).\<close>

datatype ('e, 'a) outcome = Ok 'a | Err 'e | Panic

fun bind_outcome :: "('e, 'a) outcome \<Rightarrow> ('a \<Rightarrow> ('e, 'b) outcome) \<Rightarrow> ('e, 'b) outcome" where
  "bind_outcome (Ok a) f = f a"
| "bind_outcome (Err e) f = Err e"
| "bind_outcome Panic f = Panic"

fun is_Ok :: "('e, 'a) outcome \<Rightarrow> bool" where
  "is_Ok (Ok a) = True"
| "is_Ok (Err e) = False"
| "is_Ok Panic = False"

lemma bind_outcome_Ok_iff:
  "bind_outcome r f = Ok b \<longleftrightarrow> (\<exists>a. r = Ok a \<and> f a = Ok b)"
  by (cases r) auto

section \<open>Association lists\<close>

lemma map_of_rev: "distinct (map fst xs) \<Longrightarrow> map_of (rev xs) = map_of xs"
  by (subst map_of_inject_set) (simp_all add: rev_map [symmetric])

section \<open>Slices\<close>

text \<open>\<open>xs[i:j]\<close> for in-range bounds \<open>i \<le> j \<le> len(xs)\<close>.\<close>

definition slice :: "nat \<Rightarrow> nat \<Rightarrow> 'a list \<Rightarrow> 'a list" where
  "slice i j xs = take (j - i) (drop i xs)"

lemma length_slice [simp]: "length (slice i j xs) = min (j - i) (length xs - i)"
  by (simp add: slice_def)

lemma slice_full [simp]: "slice 0 (length xs) xs = xs"
  by (simp add: slice_def)

lemma slice_to_end: "length xs \<le> j \<Longrightarrow> slice i j xs = drop i xs"
  by (simp add: slice_def)

lemma slice_empty [simp]: "j \<le> i \<Longrightarrow> slice i j xs = []"
  by (simp add: slice_def)

lemma slice_append_slice:
  "i \<le> j \<Longrightarrow> j \<le> k \<Longrightarrow> slice i j xs @ slice j k xs = slice i k xs"
proof -
  assume "i \<le> j" "j \<le> k"
  then have "k - i = (j - i) + (k - j)" and "drop j xs = drop (j - i) (drop i xs)"
    by simp_all
  then show ?thesis
    unfolding slice_def by (simp only: take_add)
qed

lemma take_append_slice: "i \<le> j \<Longrightarrow> take i xs @ slice i j xs = take j xs"
  using slice_append_slice [of 0 i j xs] by (simp add: slice_def)

lemma slice_append_drop: "i \<le> j \<Longrightarrow> slice i j xs @ drop j xs = drop i xs"
proof -
  assume "i \<le> j"
  then have "drop j xs = drop (j - i) (drop i xs)" by simp
  then show ?thesis unfolding slice_def by (metis append_take_drop_id)
qed

lemma take_slice_drop: "i \<le> j \<Longrightarrow> take i xs @ slice i j xs @ drop j xs = xs"
  by (simp add: slice_append_drop)

lemma nth_slice: "k < j - i \<Longrightarrow> i + k < length xs \<Longrightarrow> slice i j xs ! k = xs ! (i + k)"
  by (simp add: slice_def)

text \<open>The same facts for offsets of type \<open>int\<close>.\<close>

lemma int_length_slice:
  "0 \<le> i \<Longrightarrow> i \<le> j \<Longrightarrow> j \<le> int (length xs) \<Longrightarrow>
   int (length (slice (nat i) (nat j) xs)) = j - i"
  by (auto simp: min_def nat_le_iff of_nat_diff)

lemma slice_append_nat:
  "i \<le> j \<Longrightarrow> j \<le> k \<Longrightarrow>
   slice (nat i) (nat j) xs @ slice (nat j) (nat k) xs = slice (nat i) (nat k) xs"
  by (intro slice_append_slice nat_mono)

lemma slice_append_nat_drop:
  "i \<le> j \<Longrightarrow> slice (nat i) (nat j) xs @ drop (nat j) xs = drop (nat i) xs"
  by (intro slice_append_drop nat_mono)

lemma take_append_nat_slice:
  "i \<le> j \<Longrightarrow> take (nat i) xs @ slice (nat i) (nat j) xs = take (nat j) xs"
  by (intro take_append_slice nat_mono)

section \<open>Functions of package strings\<close>

abbreviation NL :: char where "NL \<equiv> CHR 0x0A"

definition has_prefix :: "'a list \<Rightarrow> 'a list \<Rightarrow> bool" where
  "has_prefix s p \<longleftrightarrow> take (length p) s = p"

definition has_suffix :: "'a list \<Rightarrow> 'a list \<Rightarrow> bool" where
  "has_suffix s p \<longleftrightarrow> length p \<le> length s \<and> drop (length s - length p) s = p"

definition trim_prefix :: "'a list \<Rightarrow> 'a list \<Rightarrow> 'a list" where
  "trim_prefix s p = (if has_prefix s p then drop (length p) s else s)"

definition trim_suffix :: "'a list \<Rightarrow> 'a list \<Rightarrow> 'a list" where
  "trim_suffix s p = (if has_suffix s p then take (length s - length p) s else s)"

text \<open>\<open>strings.Index\<close>: \<open>None\<close> for -1.\<close>

fun str_index :: "'a list \<Rightarrow> 'a list \<Rightarrow> nat option" where
  "str_index [] p = (if p = [] then Some 0 else None)"
| "str_index (x # xs) p =
     (if has_prefix (x # xs) p then Some 0 else map_option Suc (str_index xs p))"

definition str_contains :: "'a list \<Rightarrow> 'a list \<Rightarrow> bool" where
  "str_contains s p \<longleftrightarrow> str_index s p \<noteq> None"

text \<open>\<open>strings.IndexByte\<close> and \<open>strings.LastIndexByte\<close>.\<close>

fun index_byte :: "'a list \<Rightarrow> 'a \<Rightarrow> nat option" where
  "index_byte [] c = None"
| "index_byte (x # xs) c = (if x = c then Some 0 else map_option Suc (index_byte xs c))"

fun last_index_byte :: "'a list \<Rightarrow> 'a \<Rightarrow> nat option" where
  "last_index_byte [] c = None"
| "last_index_byte (x # xs) c =
     (case last_index_byte xs c of
        Some i \<Rightarrow> Some (Suc i)
      | None \<Rightarrow> (if x = c then Some 0 else None))"

text \<open>\<open>strings.Split\<close> by a one-byte separator, and \<open>strings.Join\<close>.\<close>

fun split_byte :: "'a \<Rightarrow> 'a list \<Rightarrow> 'a list list" where
  "split_byte c [] = [[]]"
| "split_byte c (x # xs) =
     (if x = c then [] # split_byte c xs
      else (case split_byte c xs of [] \<Rightarrow> [[x]] | y # ys \<Rightarrow> (x # y) # ys))"

fun str_join :: "'a list \<Rightarrow> 'a list list \<Rightarrow> 'a list" where
  "str_join sep [] = []"
| "str_join sep [x] = x"
| "str_join sep (x # y # ys) = x @ sep @ str_join sep (y # ys)"

lemma has_prefix_iff: "has_prefix s p \<longleftrightarrow> (\<exists>t. s = p @ t)"
  by (metis append_eq_conv_conj append_take_drop_id has_prefix_def)

lemma has_suffix_iff: "has_suffix s p \<longleftrightarrow> (\<exists>t. s = t @ p)"
proof
  assume "has_suffix s p"
  then have "s = take (length s - length p) s @ p"
    unfolding has_suffix_def by (metis append_take_drop_id)
  then show "\<exists>t. s = t @ p" ..
qed (auto simp: has_suffix_def)

lemma has_prefix_Nil [simp]: "has_prefix s []"
  by (simp add: has_prefix_def)

lemma has_prefix_refl [simp]: "has_prefix s s"
  by (simp add: has_prefix_def)

lemma trim_prefix_append [simp]: "trim_prefix (p @ s) p = s"
  by (simp add: trim_prefix_def has_prefix_def)

lemma trim_suffix_append [simp]: "trim_suffix (s @ p) p = s"
  by (simp add: trim_suffix_def has_suffix_def)

lemma length_trim_suffix_le: "length (trim_suffix s p) \<le> length s"
  by (simp add: trim_suffix_def)

lemma str_index_Some:
  "str_index s p = Some i \<Longrightarrow> i + length p \<le> length s \<and> has_prefix (drop i s) p"
proof (induction s arbitrary: i)
  case Nil
  then show ?case by (auto split: if_splits)
next
  case (Cons x xs)
  show ?case
  proof (cases "has_prefix (x # xs) p")
    case True
    with Cons.prems have "i = 0" by simp
    moreover from True obtain t where "x # xs = p @ t" by (auto simp: has_prefix_iff)
    then have "length p \<le> length (x # xs)" by simp
    ultimately show ?thesis using True by simp
  next
    case False
    with Cons.prems obtain j where "str_index xs p = Some j" "i = Suc j" by auto
    with Cons.IH show ?thesis by auto
  qed
qed

lemma str_index_None_iff: "str_index s p = None \<longleftrightarrow> (\<forall>a b. s \<noteq> a @ p @ b)"
proof (induction s)
  case Nil
  then show ?case by auto
next
  case (Cons x xs)
  have "(\<exists>a b. x # xs = a @ p @ b) \<longleftrightarrow> has_prefix (x # xs) p \<or> (\<exists>a b. xs = a @ p @ b)"
    unfolding has_prefix_iff by (simp add: Cons_eq_append_conv) blast
  with Cons.IH show ?case by auto
qed

lemma str_contains_iff: "str_contains s p \<longleftrightarrow> (\<exists>a b. s = a @ p @ b)"
  by (auto simp: str_contains_def str_index_None_iff)

lemma last_index_byte_None: "last_index_byte s c = None \<longleftrightarrow> c \<notin> set s"
  by (induction s) (auto split: option.splits)

lemma last_index_byte_Some:
  "last_index_byte s c = Some i \<longleftrightarrow> i < length s \<and> s ! i = c \<and> c \<notin> set (drop (Suc i) s)"
proof (induction s arbitrary: i)
  case Nil
  then show ?case by simp
next
  case (Cons x xs)
  show ?case
  proof (cases "last_index_byte xs c")
    case None
    then have c: "c \<notin> set xs" by (simp add: last_index_byte_None)
    show ?thesis
    proof (cases i)
      case 0
      with None c show ?thesis by auto
    next
      case (Suc k)
      have "k < length xs \<Longrightarrow> xs ! k \<noteq> c" using c by (metis nth_mem)
      with None Suc show ?thesis by auto
    qed
  next
    case (Some j)
    with Cons.IH [of j] have j: "j < length xs" "xs ! j = c" "c \<notin> set (drop (Suc j) xs)" by auto
    then have c: "c \<in> set xs" by (metis nth_mem)
    show ?thesis
    proof (cases i)
      case 0
      with Some c show ?thesis by simp
    next
      case (Suc k)
      with Some Cons.IH [of k] show ?thesis by simp
    qed
  qed
qed

lemma index_byte_None: "index_byte s c = None \<longleftrightarrow> c \<notin> set s"
  by (induction s) auto

lemma index_byte_Some:
  "index_byte s c = Some i \<longleftrightarrow> i < length s \<and> s ! i = c \<and> c \<notin> set (take i s)"
proof (induction s arbitrary: i)
  case Nil
  then show ?case by simp
next
  case (Cons x xs)
  then show ?case by (cases i) auto
qed

lemma split_byte_nonempty [simp]: "split_byte c s \<noteq> []"
  by (induction s) (auto split: list.splits)

lemma length_split_byte [simp]: "length (split_byte c s) = Suc (count_list s c)"
  by (induction s) (auto split: list.splits)

lemma join_split_byte: "str_join [c] (split_byte c s) = s"
proof (induction s)
  case Nil
  then show ?case by simp
next
  case (Cons x xs)
  obtain y ys where yys: "split_byte c xs = y # ys"
    by (cases "split_byte c xs") auto
  with Cons.IH show ?case by (cases ys) auto
qed

lemma split_byte_no_sep: "l \<in> set (split_byte c s) \<Longrightarrow> c \<notin> set l"
proof (induction s arbitrary: l)
  case Nil
  then show ?case by simp
next
  case (Cons x xs)
  obtain y ys where yys: "split_byte c xs = y # ys"
    by (cases "split_byte c xs") auto
  with Cons show ?case by (auto split: if_splits)
qed

lemma split_byte_single: "c \<notin> set s \<Longrightarrow> split_byte c s = [s]"
  by (induction s) auto

lemma split_byte_append: "c \<notin> set a \<Longrightarrow> split_byte c (a @ c # b) = a # split_byte c b"
  by (induction a) auto

lemma split_join_byte:
  assumes "ls \<noteq> []" and "\<forall>l \<in> set ls. c \<notin> set l"
  shows "split_byte c (str_join [c] ls) = ls"
  using assms
proof (induction ls)
  case Nil
  then show ?case by simp
next
  case (Cons l ls)
  then show ?case by (cases ls) (auto simp: split_byte_single split_byte_append)
qed

lemma str_join_append:
  "xs \<noteq> [] \<Longrightarrow> ys \<noteq> [] \<Longrightarrow> str_join sep (xs @ ys) = str_join sep xs @ sep @ str_join sep ys"
proof (induction xs)
  case (Cons x xs)
  then show ?case by (cases xs; cases ys) auto
qed simp

lemma has_prefix_str_join_take: "has_prefix (str_join sep ls) (str_join sep (take n ls))"
proof (cases "take n ls = [] \<or> drop n ls = []")
  case False
  then show ?thesis
    using str_join_append [of "take n ls" "drop n ls" sep] by (auto simp: has_prefix_iff)
qed (auto simp: has_prefix_iff)

lemma str_join_drop_suffix:
  "n < length ls \<Longrightarrow> \<exists>m. str_join sep (drop n ls) = drop m (str_join sep ls)"
proof (cases "n = 0")
  case False
  moreover assume "n < length ls"
  ultimately show ?thesis
    using str_join_append [of "take n ls" "drop n ls" sep]
    by (intro exI [of _ "length (str_join sep (take n ls) @ sep)"]) fastforce
qed (auto intro: exI [of _ 0])

lemma count_list_str_join:
  "\<forall>l \<in> set ls. c \<notin> set l \<Longrightarrow> count_list (str_join [c] ls) c = length ls - 1"
proof (induction ls)
  case (Cons l ls)
  then show ?case by (cases ls) (auto simp: count_list_0_iff)
qed simp

lemma has_prefix_trans: "has_prefix a b \<Longrightarrow> has_prefix b c \<Longrightarrow> has_prefix a c"
  by (auto simp: has_prefix_iff)

lemma has_prefix_trim_suffix: "has_prefix s (trim_suffix s p)"
  by (auto simp: trim_suffix_def has_prefix_def)

lemma has_prefix_take [simp]: "has_prefix s (take n s)"
  by (metis append_take_drop_id has_prefix_iff)

lemma count_list_has_prefix: "has_prefix s p \<Longrightarrow> count_list p c \<le> count_list s c"
  by (auto simp: has_prefix_iff)

section \<open>Decimal numbers, as fmt prints them\<close>

fun digit_char :: "nat \<Rightarrow> char" where
  "digit_char n = char_of (48 + n)"

fun itoa :: "nat \<Rightarrow> string" where
  "itoa n = (if n < 10 then [digit_char n] else itoa (n div 10) @ [digit_char (n mod 10)])"

declare itoa.simps [simp del]

definition itoa_int :: "int \<Rightarrow> string" where
  "itoa_int i = (if i < 0 then CHR 0x2D # itoa (nat (- i)) else itoa (nat i))"

lemma itoa_nonempty [simp]: "itoa n \<noteq> []"
  by (subst itoa.simps) simp

end
