(* ===== verification/Dfs.thy ===== *)
theory Dfs
  imports Go_Prelude
begin

text \<open>
  Depth-first search with a set of seen nodes, the shape of every graph traversal of
  \<open>gopls/internal/cache/metadata\<close>.  The recursion of the code may be as deep as there are nodes;
  \<open>fuel\<close> bounds its depth, and more fuel than unseen nodes is always enough.  The search keeps
  the seen nodes and the nodes in the order in which they were finished.
\<close>

fun dfs :: "nat \<Rightarrow> ('n \<Rightarrow> 'n list) \<Rightarrow> 'n \<Rightarrow> 'n list \<times> 'n list \<Rightarrow> ('n list \<times> 'n list) option"
  and dfs_all :: "nat \<Rightarrow> ('n \<Rightarrow> 'n list) \<Rightarrow> 'n list \<Rightarrow> 'n list \<times> 'n list \<Rightarrow> ('n list \<times> 'n list) option" where
  "dfs 0 succs x st = None"
| "dfs (Suc n) succs x (seen, post) =
     (if x \<in> set seen then Some (seen, post)
      else case dfs_all n succs (succs x) (x # seen, post) of
        None \<Rightarrow> None
      | Some (seen', post') \<Rightarrow> Some (seen', post' @ [x]))"
| "dfs_all n succs [] st = Some st"
| "dfs_all n succs (x # xs) st =
     (case dfs n succs x st of None \<Rightarrow> None | Some st' \<Rightarrow> dfs_all n succs xs st')"

definition edges :: "('n \<Rightarrow> 'n list) \<Rightarrow> ('n \<times> 'n) set" where
  "edges succs = {(x, y). y \<in> set (succs x)}"

text \<open>What a search from \<open>xs\<close> does to its state.  Nodes that are seen but not finished are on the
  stack of the recursion.\<close>

definition dfs_ok :: "('n \<Rightarrow> 'n list) \<Rightarrow> 'n list \<Rightarrow> 'n list \<times> 'n list \<Rightarrow> 'n list \<times> 'n list \<Rightarrow> bool" where
  "dfs_ok succs xs st st' \<longleftrightarrow>
     (case st of (seen, post) \<Rightarrow> case st' of (seen', post') \<Rightarrow>
        \<exists>new. post' = post @ new \<and> distinct new
          \<and> set seen' = set seen \<union> set new \<and> set seen \<inter> set new = {}
          \<and> set xs \<subseteq> set seen'
          \<and> (\<forall>y \<in> set new. (\<exists>x \<in> set xs. (x, y) \<in> (edges succs)\<^sup>*))
          \<and> (\<forall>y \<in> set new. set (succs y) \<subseteq> set seen')
          \<and> (acyclic (edges succs) \<longrightarrow> (\<forall>pre y suf z. new = pre @ y # suf \<longrightarrow> z \<in> set (succs y) \<longrightarrow>
                z \<in> set seen \<union> set pre)))"

lemma dfs_okE:
  assumes "dfs_ok succs xs (seen, post) (seen', post')"
  obtains new where "post' = post @ new" "distinct new" "set seen' = set seen \<union> set new"
    "set seen \<inter> set new = {}" "set xs \<subseteq> set seen'"
    "\<forall>y \<in> set new. (\<exists>x \<in> set xs. (x, y) \<in> (edges succs)\<^sup>*)"
    "\<forall>y \<in> set new. set (succs y) \<subseteq> set seen'"
    "\<And>pre y suf z. acyclic (edges succs) \<Longrightarrow> new = pre @ y # suf \<Longrightarrow> z \<in> set (succs y) \<Longrightarrow> z \<in> set seen \<union> set pre"
  using assms unfolding dfs_ok_def prod.case
  by (elim exE conjE) (rule that, assumption+, blast)

lemma dfs_ok_seq:
  assumes "dfs_ok succs [x] st st1" "dfs_ok succs xs st1 st2"
  shows "dfs_ok succs (x # xs) st st2"
proof -
  obtain seen post seen1 post1 seen2 post2
    where st: "st = (seen, post)" "st1 = (seen1, post1)" "st2 = (seen2, post2)" by (metis surj_pair)
  from assms(1) [unfolded st] obtain n1 where n1: "post1 = post @ n1" "distinct n1"
    "set seen1 = set seen \<union> set n1" "set seen \<inter> set n1 = {}" "set [x] \<subseteq> set seen1"
    "\<forall>y \<in> set n1. (\<exists>x \<in> set [x]. (x, y) \<in> (edges succs)\<^sup>*)" "\<forall>y \<in> set n1. set (succs y) \<subseteq> set seen1"
    "\<And>pre y suf z. acyclic (edges succs) \<Longrightarrow> n1 = pre @ y # suf \<Longrightarrow> z \<in> set (succs y) \<Longrightarrow> z \<in> set seen \<union> set pre"
    by (rule dfs_okE) blast
  from assms(2) [unfolded st] obtain n2 where n2: "post2 = post1 @ n2" "distinct n2"
    "set seen2 = set seen1 \<union> set n2" "set seen1 \<inter> set n2 = {}" "set xs \<subseteq> set seen2"
    "\<forall>y \<in> set n2. (\<exists>x \<in> set xs. (x, y) \<in> (edges succs)\<^sup>*)" "\<forall>y \<in> set n2. set (succs y) \<subseteq> set seen2"
    "\<And>pre y suf z. acyclic (edges succs) \<Longrightarrow> n2 = pre @ y # suf \<Longrightarrow> z \<in> set (succs y) \<Longrightarrow> z \<in> set seen1 \<union> set pre"
    by (rule dfs_okE) blast
  have topo: "z \<in> set seen \<union> set pre"
    if ac: "acyclic (edges succs)" and sp: "n1 @ n2 = pre @ y # suf" and z: "z \<in> set (succs y)" for pre y suf z
  proof (cases "length pre < length n1")
    case True
    then obtain suf' where "n1 = pre @ y # suf'"
      using sp by (auto simp: append_eq_append_conv2 append_eq_Cons_conv)
    then show ?thesis using n1(8) [OF ac _ z] by blast
  next
    case False
    then obtain pre' where p: "pre = n1 @ pre'" "n2 = pre' @ y # suf"
      using sp by (auto simp: append_eq_append_conv2 append_eq_Cons_conv)
    then show ?thesis using n2(8) [OF ac p(2) z] n1(3) by auto
  qed
  show ?thesis
    unfolding st dfs_ok_def prod.case
    using n1(1-7) n2(1-7) topo by (intro exI [of _ "n1 @ n2"]) (auto; blast)
qed

lemma dfs_correct:
  "dfs n succs x st = Some st' \<Longrightarrow> dfs_ok succs [x] st st'"
  "dfs_all n succs xs st = Some st' \<Longrightarrow> dfs_ok succs xs st st'"
proof (induction n succs x st and n succs xs st arbitrary: st' and st' rule: dfs_dfs_all.induct)
  case (2 n succs x seen post)
  show ?case
  proof (cases "x \<in> set seen")
    case True
    then show ?thesis using 2 by (auto simp: dfs_ok_def)
  next
    case False
    then obtain seen1 post1 where r: "dfs_all n succs (succs x) (x # seen, post) = Some (seen1, post1)"
      "st' = (seen1, post1 @ [x])"
      using 2(2) by (auto split: option.splits)
    from 2(1) [OF False r(1)] obtain new where new: "post1 = post @ new" "distinct new"
      "set seen1 = set (x # seen) \<union> set new" "set (x # seen) \<inter> set new = {}" "set (succs x) \<subseteq> set seen1"
      "\<forall>y \<in> set new. (\<exists>w \<in> set (succs x). (w, y) \<in> (edges succs)\<^sup>*)"
      "\<forall>y \<in> set new. set (succs y) \<subseteq> set seen1"
      "\<And>pre y suf z. acyclic (edges succs) \<Longrightarrow> new = pre @ y # suf \<Longrightarrow> z \<in> set (succs y) \<Longrightarrow>
         z \<in> set (x # seen) \<union> set pre"
      by (rule dfs_okE) blast
    have reach: "(x, y) \<in> (edges succs)\<^sup>+" if "y \<in> set new" for y
    proof -
      from new(6) that obtain w where "w \<in> set (succs x)" "(w, y) \<in> (edges succs)\<^sup>*" by blast
      then show ?thesis by (auto simp: edges_def intro: rtrancl_into_trancl2)
    qed
    have topo: "z \<in> set seen \<union> set pre"
      if ac: "acyclic (edges succs)" and sp: "new @ [x] = pre @ y # suf" and z: "z \<in> set (succs y)" for pre y suf z
    proof (cases "suf = []")
      case True
      then have yx: "y = x" "pre = new" using sp by auto
      have "z \<noteq> x" using ac z yx by (auto simp: acyclic_def edges_def)
      then show ?thesis using z yx new(3,5) by auto
    next
      case False
      then obtain suf' where sp': "new = pre @ y # suf'"
        using sp by (cases suf rule: rev_cases) auto
      have "z \<noteq> x"
      proof
        assume "z = x"
        then have "(y, x) \<in> edges succs" using z by (simp add: edges_def)
        moreover have "(x, y) \<in> (edges succs)\<^sup>+" using reach sp' by simp
        ultimately show False using ac by (meson acyclic_def trancl.trancl_into_trancl)
      qed
      then show ?thesis using new(8) [OF ac sp' z] by auto
    qed
    show ?thesis
      unfolding r(2) dfs_ok_def prod.case
    proof (intro exI [of _ "new @ [x]"] conjI ballI impI allI)
      show "post1 @ [x] = post @ new @ [x]" using new(1) by simp
      show "distinct (new @ [x])" using new(2,4) by auto
      show "set seen1 = set seen \<union> set (new @ [x])" using new(3) by auto
      show "set seen \<inter> set (new @ [x]) = {}" using new(4) False by auto
      show "set [x] \<subseteq> set seen1" using new(3) by auto
      show "\<exists>w \<in> set [x]. (w, y) \<in> (edges succs)\<^sup>*" if "y \<in> set (new @ [x])" for y
        using that reach [of y] by (auto dest: trancl_into_rtrancl)
      show "set (succs y) \<subseteq> set seen1" if "y \<in> set (new @ [x])" for y
        using that new(5,7) by auto
      show "z \<in> set seen \<union> set pre"
        if "acyclic (edges succs)" "new @ [x] = pre @ y # suf" "z \<in> set (succs y)" for pre y suf z
        using topo that by blast
    qed
  qed
next
  case (3 n succs st)
  then show ?case by (cases st) (auto simp: dfs_ok_def)
next
  case (4 n succs x xs st)
  then obtain st1 where st1: "dfs n succs x st = Some st1" "dfs_all n succs xs st1 = Some st'"
    by (auto split: option.splits)
  show ?case by (rule dfs_ok_seq [OF 4(1) [OF st1(1)] 4(2) [OF st1]])
qed auto

text \<open>Enough fuel: more than there are unseen nodes.\<close>

lemma dfs_total:
  assumes fin: "finite U" and closed: "\<forall>y \<in> U. set (succs y) \<subseteq> U"
  shows "x \<in> U \<Longrightarrow> card (U - set (fst st)) < n \<Longrightarrow> dfs n succs x st \<noteq> None"
    "set xs \<subseteq> U \<Longrightarrow> card (U - set (fst st)) < n \<Longrightarrow> dfs_all n succs xs st \<noteq> None"
proof (induction n arbitrary: x xs st)
  case (Suc n)
  have one: "dfs (Suc n) succs x st \<noteq> None" if x: "x \<in> U" and c: "card (U - set (fst st)) < Suc n" for x st
  proof -
    obtain seen post where st: "st = (seen, post)" by (cases st)
    show ?thesis
    proof (cases "x \<in> set seen")
      case False
      have "card (U - set (x # seen)) < card (U - set seen)"
        using False x fin by (intro psubset_card_mono) auto
      then have lt: "card (U - set (fst (x # seen, post))) < n" using c st by simp
      have "dfs_all n succs (succs x) (x # seen, post) \<noteq> None"
        using Suc.IH(2) [OF _ lt] closed x by blast
      then show ?thesis using False st by (auto split: option.splits)
    qed (simp add: st)
  qed
  {
    case 1
    then show ?case using one by blast
  next
    case 2
    then show ?case
    proof (induction xs arbitrary: st)
      case (Cons x xs)
      obtain st1 where st1: "dfs (Suc n) succs x st = Some st1" using one Cons.prems by fastforce
      then have "set (fst st) \<subseteq> set (fst st1)"
        using dfs_correct(1) [OF st1] by (cases st; cases st1) (auto simp: dfs_ok_def)
      then have "card (U - set (fst st1)) \<le> card (U - set (fst st))"
        using fin by (intro card_mono) auto
      then show ?case using Cons st1 by auto
    qed simp
  }
qed auto

text \<open>The search from a list of roots, with nothing seen: its post-order lists exactly the reachable
  nodes, and in an acyclic graph successors come first.\<close>

lemma dfs_roots:
  assumes "dfs_all n succs xs ([], []) = Some (seen, post)"
  shows "distinct post" "set post = (edges succs)\<^sup>* `` set xs" "set seen = set post"
    "acyclic (edges succs) \<Longrightarrow> post = pre @ y # suf \<Longrightarrow> z \<in> set (succs y) \<Longrightarrow> z \<in> set pre"
proof -
  from dfs_correct(2) [OF assms] obtain new where new: "post = [] @ new" "distinct new"
    "set seen = set [] \<union> set new" "set [] \<inter> set new = {}" "set xs \<subseteq> set seen"
    "\<forall>y \<in> set new. (\<exists>x \<in> set xs. (x, y) \<in> (edges succs)\<^sup>*)"
    "\<forall>y \<in> set new. set (succs y) \<subseteq> set seen"
    "\<And>pre y suf z. acyclic (edges succs) \<Longrightarrow> new = pre @ y # suf \<Longrightarrow> z \<in> set (succs y) \<Longrightarrow> z \<in> set [] \<union> set pre"
    by (rule dfs_okE) blast
  show "distinct post" "set seen = set post" using new by simp_all
  have "y \<in> set post" if "(x, y) \<in> (edges succs)\<^sup>*" "x \<in> set xs" for x y
    using that(1)
  proof (induction rule: rtrancl_induct)
    case base
    then show ?case using that(2) new by auto
  next
    case (step y z)
    then show ?case using new(1,3,7) by (auto simp: edges_def)
  qed
  then show "set post = (edges succs)\<^sup>* `` set xs" using new(1,6) by auto
  show "acyclic (edges succs) \<Longrightarrow> post = pre @ y # suf \<Longrightarrow> z \<in> set (succs y) \<Longrightarrow> z \<in> set pre"
    using new(1,8) by auto
qed

end
