(* ===== verification/Metadata_Graph.thy ===== *)
theory Metadata_Graph
  imports Dfs "HOL-Library.Multiset" "HOL-Library.AList" "HOL-Library.Char_ord" "HOL-Library.List_Lexorder" "HOL-Library.Product_Lexorder"
begin

text \<open>
  Package metadata and the import graph: \<open>gopls/internal/cache/metadata/metadata.go\<close> and
  \<open>graph.go\<close>.  A Go map is an association list with distinct keys in the order in which \<open>range\<close> visits
  it.  Strings are compared bytewise, which is the lexicographic order of the library.
  \<open>sort.Slice\<close> is a stable sort here; its keys end in the package ID, so that only copies of one
  package could be ordered differently.
\<close>

section \<open>Packages\<close>

type_synonym PackageID = string
type_synonym PackagePath = string

record module =
  mod_Path :: string
  mod_Version :: string

record package =
  pk_ID :: PackageID
  pk_PkgPath :: PackagePath
  pk_Name :: string
  pk_CompiledGoFiles :: "string list"
  pk_GoFiles :: "string list"
  pk_OtherFiles :: "string list"
  pk_ForTest :: PackagePath
  pk_Errors :: "string list"
  pk_DepsByImpPath :: "(string \<times> PackageID) list"
  pk_DepsByPkgPath :: "(PackagePath \<times> PackageID) list"
  pk_Module :: "module option"

definition IsIntermediateTestVariant :: "package \<Rightarrow> bool" where
  "IsIntermediateTestVariant mp \<longleftrightarrow>
     pk_ForTest mp \<noteq> [] \<and> pk_ForTest mp \<noteq> pk_PkgPath mp \<and> pk_ForTest mp @ ''_test'' \<noteq> pk_PkgPath mp"

definition IsCommandLineArguments :: "PackageID \<Rightarrow> bool" where
  "IsCommandLineArguments i = str_contains i ''command-line-arguments''"

definition RemoveIntermediateTestVariants :: "package list \<Rightarrow> package list" where
  "RemoveIntermediateTestVariants metas = filter (\<lambda>mp. \<not> IsIntermediateTestVariant mp) metas"

text \<open>\<open>strings.LastIndex\<close> of a string.\<close>

fun str_last_index :: "string \<Rightarrow> string \<Rightarrow> nat option" where
  "str_last_index [] p = (if p = [] then Some 0 else None)"
| "str_last_index (x # xs) p =
     (case str_last_index xs p of
        Some i \<Rightarrow> Some (Suc i)
      | None \<Rightarrow> if has_prefix (x # xs) p then Some 0 else None)"

definition IsValidImport :: "PackagePath \<Rightarrow> PackagePath \<Rightarrow> bool \<Rightarrow> bool" where
  "IsValidImport from to goList =
     (if \<not> goList then True
      else case str_last_index to ''/internal/'' of
        None \<Rightarrow> True
      | Some i \<Rightarrow> if IsCommandLineArguments from then True else has_prefix from (take i to))"

section \<open>The graph and its indexes\<close>

record graph =
  g_Packages :: "(PackageID \<times> package) list"
  g_ImportedBy :: "(PackageID \<times> package list) list"
  g_ForPackagePath :: "(PackagePath \<times> package list) list"
  g_ForFile :: "(string \<times> package list) list"

definition get_list :: "('k \<times> 'v list) list \<Rightarrow> 'k \<Rightarrow> 'v list" where
  "get_list m k = (case map_of m k of None \<Rightarrow> [] | Some l \<Rightarrow> l)"

text \<open>\<open>m[k] = append(m[k], v)\<close>.\<close>

definition append_to :: "'k \<Rightarrow> 'v \<Rightarrow> ('k \<times> 'v list) list \<Rightarrow> ('k \<times> 'v list) list" where
  "append_to k v m = AList.update k (get_list m k @ [v]) m"

definition index_importers :: "package list \<Rightarrow> (PackageID \<times> package list) list" where
  "index_importers mps = fold (\<lambda>mp m. fold (\<lambda>(_, depID). append_to depID mp) (pk_DepsByPkgPath mp) m) mps []"

definition index_paths :: "package list \<Rightarrow> (PackagePath \<times> package list) list" where
  "index_paths mps = fold (\<lambda>mp. append_to (pk_PkgPath mp) mp) mps []"

text \<open>The files of a package, each once.\<close>

definition package_uris :: "package \<Rightarrow> string list" where
  "package_uris mp = remdups (pk_CompiledGoFiles mp @ pk_GoFiles mp
     @ filter (\<lambda>uri. has_suffix uri ''.s'') (pk_OtherFiles mp))"

definition index_files :: "package list \<Rightarrow> (string \<times> package list) list" where
  "index_files mps = fold (\<lambda>mp m. fold (\<lambda>uri. append_to uri mp) (package_uris mp) m) mps []"

definition sort_for_file :: "package list \<Rightarrow> package list" where
  "sort_for_file = sort_key (\<lambda>mp. (IsCommandLineArguments (pk_ID mp), pk_ID mp))"

text \<open>The loop that cuts the list before the first command-line-arguments package but the first.\<close>

fun cut_command_line :: "nat \<Rightarrow> package list \<Rightarrow> package list" where
  "cut_command_line i [] = []"
| "cut_command_line i (mp # mps) =
     (if i > 0 \<and> IsCommandLineArguments (pk_ID mp) then [] else mp # cut_command_line (Suc i) mps)"

definition sort_for_path :: "package list \<Rightarrow> package list" where
  "sort_for_path = sort_key (\<lambda>mp. (pk_ForTest mp \<noteq> [], length (pk_CompiledGoFiles mp), pk_ID mp))"

definition newGraph :: "(PackageID \<times> package) list \<Rightarrow> graph" where
  "newGraph pkgs =
     (let mps = map snd pkgs in
      \<lparr>g_Packages = pkgs,
       g_ImportedBy = index_importers mps,
       g_ForPackagePath = map (\<lambda>(p, l). (p, sort_for_path l)) (index_paths mps),
       g_ForFile = map (\<lambda>(uri, l). (uri, cut_command_line 0 (sort_for_file l))) (index_files mps)\<rparr>)"

section \<open>Traversals\<close>

definition deps :: "graph \<Rightarrow> PackageID \<Rightarrow> PackageID list" where
  "deps g i = (case map_of (g_Packages g) i of None \<Rightarrow> [] | Some mp \<Rightarrow> map snd (pk_DepsByPkgPath mp))"

text \<open>All IDs that a traversal from \<open>ids\<close> can meet; more fuel than that is enough.\<close>

definition universe :: "graph \<Rightarrow> PackageID list \<Rightarrow> PackageID list" where
  "universe g ids = ids @ concat (map (\<lambda>(_, mp). map snd (pk_DepsByPkgPath mp)) (g_Packages g))"

text \<open>\<open>ForwardReflexiveTransitiveClosure\<close>: the iterator over a consumer \<open>yield\<close> with state \<open>'s\<close>, which
  may answer false to stop.  The loop over the roots does not look at the answer of \<open>visit\<close>.\<close>

fun fwd_visit :: "nat \<Rightarrow> graph \<Rightarrow> (package \<Rightarrow> 's \<Rightarrow> bool \<times> 's) \<Rightarrow> PackageID \<Rightarrow> PackageID list \<times> 's \<Rightarrow>
      (bool \<times> PackageID list \<times> 's) option"
  and fwd_visit_all :: "nat \<Rightarrow> graph \<Rightarrow> (package \<Rightarrow> 's \<Rightarrow> bool \<times> 's) \<Rightarrow> PackageID list \<Rightarrow> PackageID list \<times> 's \<Rightarrow>
      (bool \<times> PackageID list \<times> 's) option" where
  "fwd_visit 0 g yield i st = None"
| "fwd_visit (Suc n) g yield i (seen, s) =
     (if i \<in> set seen then Some (True, seen, s)
      else case map_of (g_Packages g) i of
        None \<Rightarrow> Some (True, i # seen, s)
      | Some mp \<Rightarrow>
          (case fwd_visit_all n g yield (map snd (pk_DepsByPkgPath mp)) (i # seen, s) of
             None \<Rightarrow> None
           | Some (False, seen', s') \<Rightarrow> Some (False, seen', s')
           | Some (True, seen', s') \<Rightarrow> (case yield mp s' of (go, s'') \<Rightarrow> Some (go, seen', s''))))"
| "fwd_visit_all n g yield [] st = Some (True, st)"
| "fwd_visit_all n g yield (i # ids) st =
     (case fwd_visit n g yield i st of
        None \<Rightarrow> None
      | Some (False, st') \<Rightarrow> Some (False, st')
      | Some (True, st') \<Rightarrow> fwd_visit_all n g yield ids st')"

fun fwd_roots :: "nat \<Rightarrow> graph \<Rightarrow> (package \<Rightarrow> 's \<Rightarrow> bool \<times> 's) \<Rightarrow> PackageID list \<Rightarrow> PackageID list \<times> 's \<Rightarrow>
      (PackageID list \<times> 's) option" where
  "fwd_roots n g yield [] st = Some st"
| "fwd_roots n g yield (i # ids) st =
     (case fwd_visit n g yield i st of None \<Rightarrow> None | Some (_, st') \<Rightarrow> fwd_roots n g yield ids st')"

definition ForwardReflexiveTransitiveClosure ::
  "graph \<Rightarrow> PackageID list \<Rightarrow> (package \<Rightarrow> 's \<Rightarrow> bool \<times> 's) \<Rightarrow> 's \<Rightarrow> 's option" where
  "ForwardReflexiveTransitiveClosure g ids yield s =
     map_option snd (fwd_roots (Suc (length (universe g ids))) g yield ids ([], s))"

text \<open>\<open>ReverseReflexiveTransitiveClosure\<close>: the map \<open>seen\<close> from IDs to packages, newest first.\<close>

fun rev_visitAll :: "nat \<Rightarrow> graph \<Rightarrow> package list \<Rightarrow> (PackageID \<times> package) list \<Rightarrow> (PackageID \<times> package) list option" where
  "rev_visitAll n g [] seen = Some seen"
| "rev_visitAll 0 g (pkg # pkgs) seen = None"
| "rev_visitAll (Suc n) g (pkg # pkgs) seen =
     (if map_of seen (pk_ID pkg) = None
      then (case rev_visitAll n g (get_list (g_ImportedBy g) (pk_ID pkg)) ((pk_ID pkg, pkg) # seen) of
              None \<Rightarrow> None
            | Some seen' \<Rightarrow> rev_visitAll (Suc n) g pkgs seen')
      else rev_visitAll (Suc n) g pkgs seen)"

definition ReverseReflexiveTransitiveClosure ::
  "graph \<Rightarrow> PackageID list \<Rightarrow> (PackageID \<times> package) list option" where
  "ReverseReflexiveTransitiveClosure g ids =
     rev_visitAll (Suc (length (g_Packages g))) g (List.map_filter (map_of (g_Packages g)) ids) []"

text \<open>\<open>SortPostOrder\<close>: the map \<open>postorder\<close> (-1 while a node is on the stack) and the counter.\<close>

fun post_visit :: "nat \<Rightarrow> graph \<Rightarrow> PackageID \<Rightarrow> (PackageID \<times> int) list \<times> int \<Rightarrow> ((PackageID \<times> int) list \<times> int) option"
  and post_visit_all :: "nat \<Rightarrow> graph \<Rightarrow> PackageID list \<Rightarrow> (PackageID \<times> int) list \<times> int \<Rightarrow> ((PackageID \<times> int) list \<times> int) option" where
  "post_visit 0 g i st = None"
| "post_visit (Suc n) g i (postorder, order) =
     (if map_of postorder i \<noteq> None then Some (postorder, order)
      else case post_visit_all n g (deps g i) (AList.update i (- 1) postorder, order) of
        None \<Rightarrow> None
      | Some (postorder', order') \<Rightarrow> Some (AList.update i (order' + 1) postorder', order' + 1))"
| "post_visit_all n g [] st = Some st"
| "post_visit_all n g (i # ids) st =
     (case post_visit n g i st of None \<Rightarrow> None | Some st' \<Rightarrow> post_visit_all n g ids st')"

definition SortPostOrder :: "graph \<Rightarrow> PackageID list \<Rightarrow> PackageID list option" where
  "SortPostOrder g ids =
     (case post_visit_all (Suc (length (universe g ids))) g ids ([], 0) of
        None \<Rightarrow> None
      | Some (postorder, _) \<Rightarrow>
          Some (sort_key (\<lambda>i. case map_of postorder i of None \<Rightarrow> 0 | Some k \<Rightarrow> k) ids))"

text \<open>\<open>cyclic\<close>: three colors, absent meaning unvisited.  As in the code the description of a cycle is
  a string, and the empty string means that there is none.\<close>

datatype color = visited | onstack

fun cyc_visit :: "nat \<Rightarrow> graph \<Rightarrow> PackageID \<Rightarrow> (PackageID \<times> color) list \<Rightarrow> (string \<times> (PackageID \<times> color) list) option"
  and cyc_visit_all :: "nat \<Rightarrow> graph \<Rightarrow> PackageID list \<Rightarrow> (PackageID \<times> color) list \<Rightarrow>
      (string \<times> (PackageID \<times> color) list) option" where
  "cyc_visit 0 g i colors = None"
| "cyc_visit (Suc n) g i colors =
     (case map_of colors i of
        Some onstack \<Rightarrow> Some (i, colors)
      | Some visited \<Rightarrow> Some ([], colors)
      | None \<Rightarrow>
          (case cyc_visit_all n g (deps g i) (AList.update i onstack colors) of
             None \<Rightarrow> None
           | Some (cycle, colors') \<Rightarrow>
               if cycle \<noteq> [] then Some (i @ ''->'' @ cycle, colors')
               else Some ([], AList.update i visited colors')))"
| "cyc_visit_all n g [] colors = Some ([], colors)"
| "cyc_visit_all n g (i # ids) colors =
     (case cyc_visit n g i colors of
        None \<Rightarrow> None
      | Some (cycle, colors') \<Rightarrow>
          if cycle \<noteq> [] then Some (cycle, colors') else cyc_visit_all n g ids colors')"

definition cyclic :: "graph \<Rightarrow> string option" where
  "cyclic g =
     map_option fst
       (cyc_visit_all (Suc (length (universe g (map fst (g_Packages g))))) g (map fst (g_Packages g)) [])"

section \<open>The traversals are depth-first searches\<close>

lemma universe_roots: "set ids \<subseteq> set (universe g ids)"
  by (simp add: universe_def)

lemma card_universe: "card (set (universe g ids) - X) < Suc (length (universe g ids))"
  by (meson List.finite_set card_length card_mono Diff_subset le_imp_less_Suc le_trans)

locale finite_digraph =
  fixes succs :: "'n \<Rightarrow> 'n list" and U :: "'n set"
  assumes finite_U: "finite U" and closed: "x \<in> U \<Longrightarrow> set (succs x) \<subseteq> U"
begin

lemma search_total:
  assumes "set xs \<subseteq> U" "card U < n"
  obtains seen post where "dfs_all n succs xs ([], []) = Some (seen, post)"
  using dfs_total(2) [OF finite_U, of succs xs "([], [])" n] closed assms by auto

text \<open>The nodes reachable from a list of roots, successors first when the graph has no cycle.\<close>

lemma search_post:
  assumes "set xs \<subseteq> U" "card U < n"
  obtains seen post where "dfs_all n succs xs ([], []) = Some (seen, post)"
    "distinct post" "set post = (edges succs)\<^sup>* `` set xs" "set seen = set post"
    "\<And>pre y suf z. acyclic (edges succs) \<Longrightarrow> post = pre @ y # suf \<Longrightarrow> z \<in> set (succs y) \<Longrightarrow> z \<in> set pre"
proof -
  obtain seen post where s: "dfs_all n succs xs ([], []) = Some (seen, post)"
    using search_total assms by blast
  show ?thesis using that [OF s dfs_roots(1-3) [OF s]] dfs_roots(4) [OF s] by blast
qed

end

lemma deps_in_universe: "set (deps g i) \<subseteq> set (universe g ids)"
proof (cases "map_of (g_Packages g) i")
  case (Some mp)
  have "map snd (pk_DepsByPkgPath mp) \<in> (\<lambda>(_, mp). map snd (pk_DepsByPkgPath mp)) ` set (g_Packages g)"
    using map_of_SomeD [OF Some] by (rule rev_image_eqI) simp
  then have "set (map snd (pk_DepsByPkgPath mp)) \<subseteq> set (universe g ids)"
    unfolding universe_def set_append set_concat set_map [of "case_prod _"] by (intro le_supI2 Union_upper imageI)
  then show ?thesis using Some by (simp add: deps_def)
qed (simp add: deps_def)

interpretation md: finite_digraph "deps g" "set (universe g ids)" for g ids
  by unfold_locales (simp_all add: deps_in_universe)

definition import_edges :: "graph \<Rightarrow> (PackageID \<times> PackageID) set" where
  "import_edges g = edges (deps g)"

lemma import_edges_iff: "(x, y) \<in> import_edges g \<longleftrightarrow>
    (\<exists>mp. map_of (g_Packages g) x = Some mp \<and> y \<in> snd ` set (pk_DepsByPkgPath mp))"
  by (cases "map_of (g_Packages g) x") (simp_all add: import_edges_def edges_def deps_def)

lemma search_universe:
  obtains seen post where "dfs_all (Suc (length (universe g ids))) (deps g) ids ([], []) = Some (seen, post)"
    "distinct post" "set post = (import_edges g)\<^sup>* `` set ids" "set seen = set post"
    "\<And>pre y suf z. acyclic (import_edges g) \<Longrightarrow> post = pre @ y # suf \<Longrightarrow> (y, z) \<in> import_edges g \<Longrightarrow> z \<in> set pre"
proof -
  have card: "card (set (universe g ids)) < Suc (length (universe g ids))"
    using card_universe [of g ids "{}"] by simp
  show ?thesis
  proof (rule md.search_post [OF universe_roots card])
    fix seen post
    assume a: "dfs_all (Suc (length (universe g ids))) (deps g) ids ([], []) = Some (seen, post)"
      "distinct post" "set post = (edges (deps g))\<^sup>* `` set ids" "set seen = set post"
      "\<And>pre y suf z. acyclic (edges (deps g)) \<Longrightarrow> post = pre @ y # suf \<Longrightarrow> z \<in> set (deps g y) \<Longrightarrow> z \<in> set pre"
    have "(y, z) \<in> import_edges g \<Longrightarrow> z \<in> set (deps g y)" for y z
      by (simp add: import_edges_def edges_def)
    then have "\<And>pre y suf z. acyclic (import_edges g) \<Longrightarrow> post = pre @ y # suf \<Longrightarrow> (y, z) \<in> import_edges g \<Longrightarrow> z \<in> set pre"
      using a(5) [folded import_edges_def] by metis
    then show thesis by (rule that [OF a(1,2) a(3) [folded import_edges_def] a(4)])
  qed
qed

text \<open>A consumer that never stops and collects what it is given.\<close>

definition collect :: "package \<Rightarrow> package list \<Rightarrow> bool \<times> package list" where
  "collect mp acc = (True, acc @ [mp])"

definition existing :: "graph \<Rightarrow> PackageID list \<Rightarrow> package list" where
  "existing g = List.map_filter (map_of (g_Packages g))"

lemma existing_append [simp]: "existing g (xs @ ys) = existing g xs @ existing g ys"
  by (simp add: existing_def List.map_filter_def)

lemma fwd_visit_dfs:
  "succs = deps g \<Longrightarrow> fwd_visit n g collect i (fst st, existing g (snd st)) =
     map_option (\<lambda>(seen', post'). (True, seen', existing g post')) (dfs n succs i st)"
  "succs = deps g \<Longrightarrow> fwd_visit_all n g collect ids (fst st, existing g (snd st)) =
     map_option (\<lambda>(seen', post'). (True, seen', existing g post')) (dfs_all n succs ids st)"
proof (induction n succs i st and n succs ids st rule: dfs_dfs_all.induct)
  case (2 n succs x seen post)
  show ?case
  proof (cases "x \<in> set seen")
    case False
    show ?thesis
    proof (cases "map_of (g_Packages g) x")
      case None
      then have "succs x = []" using 2(2) by (simp add: deps_def)
      then show ?thesis using False None by (simp add: existing_def List.map_filter_def)
    next
      case (Some mp)
      then have d: "succs x = map snd (pk_DepsByPkgPath mp)" using 2(2) by (simp add: deps_def)
      have e: "existing g [x] = [mp]" using Some by (simp add: existing_def map_filter_simps)
      show ?thesis
        using 2(1) [OF False 2(2)] False Some d e
        by (cases "dfs_all n succs (succs x) (x # seen, post)") (auto simp: collect_def)
    qed
  qed simp
next
  case (4 n succs x xs st)
  then show ?case
    by (cases "dfs n succs x st") (auto split: prod.splits)
qed auto

lemma fwd_roots_dfs:
  "fwd_roots n g collect ids (seen, existing g post) =
     map_option (\<lambda>(seen', post'). (seen', existing g post')) (dfs_all n (deps g) ids (seen, post))"
proof (induction ids arbitrary: seen post)
  case (Cons i ids)
  show ?case
    using fwd_visit_dfs(1) [OF refl, of n g i "(seen, post)"] Cons.IH
    by (cases "dfs n (deps g) i (seen, post)") auto
qed simp

lemma set_existing: "set (existing g ids) = {mp. \<exists>i \<in> set ids. map_of (g_Packages g) i = Some mp}"
  by (force simp: existing_def map_filter_def)

text \<open>Claim C11: \<open>ForwardReflexiveTransitiveClosure\<close> terminates on every graph, cyclic or not, and for a
  consumer that never stops yields exactly the packages that exist among the given IDs and their
  transitive dependencies; in a graph without import cycles every dependency of a package is
  yielded before the package.\<close>

theorem ForwardReflexiveTransitiveClosure_spec:
  "\<exists>post. ForwardReflexiveTransitiveClosure g ids collect [] = Some (existing g post)
    \<and> distinct post \<and> set post = (import_edges g)\<^sup>* `` set ids
    \<and> (acyclic (import_edges g) \<longrightarrow>
        (\<forall>pre y suf z. post = pre @ y # suf \<longrightarrow> (y, z) \<in> import_edges g \<longrightarrow> z \<in> set pre))"
proof -
  obtain seen post where d: "dfs_all (Suc (length (universe g ids))) (deps g) ids ([], []) = Some (seen, post)"
    "distinct post" "set post = (import_edges g)\<^sup>* `` set ids" "set seen = set post"
    "\<And>pre y suf z. acyclic (import_edges g) \<Longrightarrow> post = pre @ y # suf \<Longrightarrow> (y, z) \<in> import_edges g \<Longrightarrow> z \<in> set pre"
    by (rule search_universe [of g ids]) blast
  have "existing g [] = []" by (simp add: existing_def map_filter_simps)
  then have "ForwardReflexiveTransitiveClosure g ids collect [] = Some (existing g post)"
    using fwd_roots_dfs [of _ g ids "[]" "[]"] d(1)
    by (simp add: ForwardReflexiveTransitiveClosure_def)
  then show ?thesis using d(2,3,5) by blast
qed

section \<open>Post-order\<close>

text \<open>The map \<open>postorder\<close> against the state of the search: unfinished nodes are -1, finished ones have
  their place in the post-order.\<close>

definition post_rel :: "(PackageID \<times> int) list \<times> int \<Rightarrow> PackageID list \<times> PackageID list \<Rightarrow> bool" where
  "post_rel po st \<longleftrightarrow> snd po = int (length (snd st))
     \<and> (\<forall>i. map_of (fst po) i = None \<longleftrightarrow> i \<notin> set (fst st))
     \<and> distinct (snd st) \<and> set (snd st) \<subseteq> set (fst st)
     \<and> (\<forall>k < length (snd st). map_of (fst po) (snd st ! k) = Some (int k + 1))"

lemma post_visit_dfs:
  "succs = deps g \<Longrightarrow> post_rel po st \<Longrightarrow>
     rel_option post_rel (post_visit n g i po) (dfs n succs i st)"
  "succs = deps g \<Longrightarrow> post_rel po st \<Longrightarrow>
     rel_option post_rel (post_visit_all n g ids po) (dfs_all n succs ids st)"
proof (induction n succs i st and n succs ids st arbitrary: po and po rule: dfs_dfs_all.induct)
  case (2 n succs x seen post)
  obtain pm order where po: "po = (pm, order)" by (cases po)
  have un: "map_of pm x = None \<longleftrightarrow> x \<notin> set seen" using 2(3) by (simp add: po post_rel_def)
  show ?case
  proof (cases "x \<in> set seen")
    case True
    then show ?thesis using 2(3) un by (simp add: po)
  next
    case False
    have "post_rel (AList.update x (- 1) pm, order) (x # seen, post)"
      using 2(3) False unfolding post_rel_def po
      by (auto simp: update_conv' dest: nth_mem)
    from 2(1) [OF False 2(2) this]
    have r: "rel_option post_rel (post_visit_all n g (deps g x) (AList.update x (- 1) pm, order))
        (dfs_all n succs (succs x) (x # seen, post))" using 2(2) by simp
    show ?thesis
    proof (cases "dfs_all n succs (succs x) (x # seen, post)")
      case None
      then show ?thesis using r False un by (simp add: po)
    next
      case (Some st')
      obtain seen' post' where st': "st' = (seen', post')" by (cases st')
      obtain pm' order' where po': "post_visit_all n g (deps g x) (AList.update x (- 1) pm, order) = Some (pm', order')"
        "post_rel (pm', order') (seen', post')"
        using r Some st' by (auto simp: option_rel_Some2)
      from dfs_correct(2) [OF Some] have ok: "dfs_ok succs (succs x) (x # seen, post) (seen', post')"
        by (simp add: st')
      have x: "x \<notin> set post'" "x \<in> set seen'"
        using ok 2(3) False by (auto simp: dfs_ok_def post_rel_def)
      have "post_rel (AList.update x (order' + 1) pm', order' + 1) (seen', post' @ [x])"
        using po'(2) x unfolding post_rel_def
        by (auto simp: update_conv' nth_append less_Suc_eq dest: nth_mem)
      then show ?thesis using Some st' po'(1) False un by (simp add: po)
    qed
  qed
next
  case (4 n succs x xs st)
  from 4(1) [OF 4(3,4)] have r: "rel_option post_rel (post_visit n g x po) (dfs n succs x st)" .
  show ?case
  proof (cases "dfs n succs x st")
    case None
    then show ?thesis using r by simp
  next
    case (Some st')
    then obtain po' where "post_visit n g x po = Some po'" "post_rel po' st'"
      using r by (auto simp: option_rel_Some2)
    then show ?thesis using 4(2) [OF Some 4(3)] Some by simp
  qed
qed auto

text \<open>Claim C13: \<open>SortPostOrder\<close> terminates on every graph and permutes its argument; when the import
  graph has no cycle, no package is followed by one that it depends on, directly or not.\<close>

theorem SortPostOrder_spec:
  "\<exists>out. SortPostOrder g ids = Some out \<and> mset out = mset ids
    \<and> (acyclic (import_edges g) \<longrightarrow>
        (\<forall>pre y suf z. out = pre @ y # suf \<longrightarrow> (y, z) \<in> (import_edges g)\<^sup>+ \<longrightarrow> z \<notin> set suf))"
proof -
  obtain seen post where d: "dfs_all (Suc (length (universe g ids))) (deps g) ids ([], []) = Some (seen, post)"
    "distinct post" "set post = (import_edges g)\<^sup>* `` set ids" "set seen = set post"
    "\<And>pre y suf z. acyclic (import_edges g) \<Longrightarrow> post = pre @ y # suf \<Longrightarrow> (y, z) \<in> import_edges g \<Longrightarrow> z \<in> set pre"
    by (rule search_universe [of g ids]) blast
  have "post_rel ([], 0) ([], [])" by (simp add: post_rel_def)
  from post_visit_dfs(2) [OF refl this, of "Suc (length (universe g ids))" g ids] d(1)
  obtain po order where po: "post_visit_all (Suc (length (universe g ids))) g ids ([], 0) = Some (po, order)"
    "post_rel (po, order) (seen, post)" by (auto simp: option_rel_Some2)
  define key where "key i = (case map_of po i of None \<Rightarrow> 0 | Some k \<Rightarrow> k)" for i
  have key: "key (post ! k) = int k + 1" if "k < length post" for k
    using po(2) that by (simp add: post_rel_def key_def)
  have out: "SortPostOrder g ids = Some (sort_key key ids)"
    using po(1) by (simp add: SortPostOrder_def key_def [abs_def])
  have step: "key z < key y" if ac: "acyclic (import_edges g)" and e: "(y, z) \<in> import_edges g" and y: "y \<in> set post" for y z
  proof -
    obtain k where k: "k < length post" "post ! k = y" using y by (auto simp: in_set_conv_nth)
    then have "z \<in> set (take k post)" using d(5) [OF ac _ e] id_take_nth_drop [of k post] by metis
    then obtain j where "j < k" "post ! j = z" using k(1) by (auto simp: in_set_conv_nth)
    then show ?thesis using key [of j] key [of k] k by simp
  qed
  have "z \<notin> set suf" if ac: "acyclic (import_edges g)" and sp: "sort_key key ids = pre @ y # suf"
    and yz: "(y, z) \<in> (import_edges g)\<^sup>+" for pre y suf z
  proof
    have y: "y \<in> set post" using arg_cong [OF sp, of set] d(3) by auto
    have "z \<in> set post \<and> key z < key y" using yz
    proof (induction rule: trancl_induct)
      case (base z)
      then show ?case using step [OF ac base y] y d(3) by (auto intro: rtrancl_into_rtrancl)
    next
      case (step w z)
      then show ?case using \<open>\<And>y z. acyclic (import_edges g) \<Longrightarrow> (y, z) \<in> import_edges g \<Longrightarrow> y \<in> set post \<Longrightarrow> key z < key y\<close> [OF ac step(2)] d(3)
        by (auto intro: rtrancl_into_rtrancl)
    qed
    moreover assume "z \<in> set suf"
    then have "key y \<le> key z" using sorted_sort_key [of key ids] sp by (simp add: sorted_append)
    ultimately show False by simp
  qed
  then show ?thesis using out by (intro exI [of _ "sort_key key ids"]) simp
qed

section \<open>Import cycles\<close>

text \<open>What holds between two visits: the visited nodes are closed under imports and lie on no cycle.\<close>

definition color_inv :: "graph \<Rightarrow> (PackageID \<times> color) list \<Rightarrow> bool" where
  "color_inv g colors \<longleftrightarrow>
     (\<forall>x. map_of colors x = Some visited \<longrightarrow>
        (x, x) \<notin> (import_edges g)\<^sup>+ \<and> (\<forall>y. (x, y) \<in> import_edges g \<longrightarrow> map_of colors y = Some visited))"

lemma color_inv_reach:
  assumes "color_inv g colors" "map_of colors x = Some visited" "(x, y) \<in> (import_edges g)\<^sup>*"
  shows "map_of colors y = Some visited"
  using assms(3) by (induction rule: rtrancl_induct) (use assms(1,2) in \<open>auto simp: color_inv_def\<close>)

definition cyc_ok :: "graph \<Rightarrow> PackageID list \<Rightarrow> (PackageID \<times> color) list \<Rightarrow> string \<Rightarrow> (PackageID \<times> color) list \<Rightarrow> bool" where
  "cyc_ok g ids colors cycle colors' \<longleftrightarrow>
     (if cycle \<noteq> [] then \<not> acyclic (import_edges g)
      else color_inv g colors'
        \<and> (\<forall>x. map_of colors' x = Some onstack \<longleftrightarrow> map_of colors x = Some onstack)
        \<and> (\<forall>x. map_of colors x = Some visited \<longrightarrow> map_of colors' x = Some visited)
        \<and> (\<forall>i \<in> set ids. map_of colors' i = Some visited))"

text \<open>The nodes on the stack reach the next node to visit.\<close>

definition stack_reaches :: "graph \<Rightarrow> PackageID list \<Rightarrow> (PackageID \<times> color) list \<Rightarrow> bool" where
  "stack_reaches g ids colors \<longleftrightarrow>
     (\<forall>x. map_of colors x = Some onstack \<longrightarrow> (\<forall>i \<in> set ids. (x, i) \<in> (import_edges g)\<^sup>+))"

lemma import_edges_deps: "(x, y) \<in> import_edges g \<longleftrightarrow> y \<in> set (deps g x)"
  by (simp add: import_edges_def edges_def)

lemma map_of_not_onstack: "map_of colors x = None \<or> map_of colors x = Some visited \<or> map_of colors x = Some onstack"
  by (metis color.exhaust not_None_eq)

lemma color_inv_start:
  "color_inv g colors \<Longrightarrow> map_of colors i = None \<Longrightarrow> color_inv g (AList.update i onstack colors)"
  by (force simp: color_inv_def update_conv')

lemma stack_reaches_start:
  "stack_reaches g [i] colors \<Longrightarrow> stack_reaches g (deps g i) (AList.update i onstack colors)"
  by (auto simp: stack_reaches_def update_conv' import_edges_deps [symmetric] intro: trancl_into_trancl)

lemma cyc_ok_finish:
  assumes ok: "cyc_ok g (deps g i) (AList.update i onstack colors) [] colors'" and new: "map_of colors i = None"
  shows "cyc_ok g [i] colors [] (AList.update i visited colors')"
proof -
  have finished: "map_of colors' y = Some visited" if "(i, y) \<in> import_edges g" for y
    using ok that by (simp add: cyc_ok_def import_edges_deps)
  have stack: "map_of colors' i = Some onstack" and inv: "color_inv g colors'"
    using ok by (simp_all add: cyc_ok_def update_conv')
  have "(i, i) \<notin> (import_edges g)\<^sup>+"
  proof
    assume "(i, i) \<in> (import_edges g)\<^sup>+"
    then obtain y where "(i, y) \<in> import_edges g" "(y, i) \<in> (import_edges g)\<^sup>*" by (meson tranclD)
    then have "map_of colors' i = Some visited" using color_inv_reach [OF inv finished] by blast
    then show False using stack by simp
  qed
  then show ?thesis
    using ok new finished inv stack by (auto simp: cyc_ok_def color_inv_def update_conv')
qed

lemma cyc_visit_correct:
  "cyc_visit n g i colors = Some (cycle, colors') \<Longrightarrow> color_inv g colors \<Longrightarrow> stack_reaches g [i] colors \<Longrightarrow>
     i \<noteq> [] \<Longrightarrow> \<forall>x. [] \<notin> set (deps g x) \<Longrightarrow> cyc_ok g [i] colors cycle colors'"
  "cyc_visit_all n g ids colors = Some (cycle, colors') \<Longrightarrow> color_inv g colors \<Longrightarrow> stack_reaches g ids colors \<Longrightarrow>
     [] \<notin> set ids \<Longrightarrow> \<forall>x. [] \<notin> set (deps g x) \<Longrightarrow> cyc_ok g ids colors cycle colors'"
proof (induction n g i colors and n g ids colors arbitrary: cycle colors' and cycle colors'
    rule: cyc_visit_cyc_visit_all.induct)
  case (2 n g i colors)
  consider "map_of colors i = None" | "map_of colors i = Some visited" | "map_of colors i = Some onstack"
    using map_of_not_onstack by metis
  then show ?case
  proof cases
    case 1
    then obtain c1 cs1 where r: "cyc_visit_all n g (deps g i) (AList.update i onstack colors) = Some (c1, cs1)"
      "cycle = (if c1 \<noteq> [] then i @ ''->'' @ c1 else [])" "c1 = [] \<Longrightarrow> colors' = AList.update i visited cs1"
      using 2(2) by (auto split: option.splits prod.splits if_splits)
    have nd: "[] \<notin> set (deps g i)" using 2(6) by blast
    have ok: "cyc_ok g (deps g i) (AList.update i onstack colors) c1 cs1"
      by (rule 2(1) [OF 1 r(1) color_inv_start [OF 2(3) 1] stack_reaches_start [OF 2(4)] nd 2(6)])
    show ?thesis
    proof (cases "c1 = []")
      case True
      then show ?thesis using cyc_ok_finish [OF _ 1] ok r by simp
    next
      case False
      then show ?thesis using ok r(2) by (simp add: cyc_ok_def)
    qed
  next
    case 2
    then show ?thesis using 2(1) \<open>color_inv g colors\<close> \<open>cyc_visit (Suc n) g i colors = _\<close> by (auto simp: cyc_ok_def)
  next
    case 3
    then have "(i, i) \<in> (import_edges g)\<^sup>+" using \<open>stack_reaches g [i] colors\<close> by (simp add: stack_reaches_def)
    then show ?thesis using 3 \<open>cyc_visit (Suc n) g i colors = _\<close> \<open>i \<noteq> []\<close> by (auto simp: cyc_ok_def acyclic_def)
  qed
next
  case (3 n g colors)
  then show ?case by (auto simp: cyc_ok_def)
next
  case (4 n g i ids colors)
  obtain c1 cs1 where r: "cyc_visit n g i colors = Some (c1, cs1)"
    using 4(3) by (auto split: option.splits)
  have ok1: "cyc_ok g [i] colors c1 cs1"
    using 4(1) [OF r 4(4)] 4(5-7) by (auto simp: stack_reaches_def)
  show ?case
  proof (cases "c1 = []")
    case True
    then have c: "cyc_visit_all n g ids cs1 = Some (cycle, colors')" using 4(3) r by simp
    have ok1': "color_inv g cs1" "\<And>x. map_of cs1 x = Some onstack \<longleftrightarrow> map_of colors x = Some onstack"
      "\<And>x. map_of colors x = Some visited \<Longrightarrow> map_of cs1 x = Some visited" "map_of cs1 i = Some visited"
      using ok1 True by (simp_all add: cyc_ok_def)
    have "stack_reaches g ids cs1" using 4(5) ok1'(2) by (simp add: stack_reaches_def)
    then have "cyc_ok g ids cs1 cycle colors'" using 4(2) [OF r refl _ c ok1'(1)] 4(6,7) True by simp
    then show ?thesis using ok1' by (auto simp: cyc_ok_def)
  next
    case False
    then show ?thesis using ok1 4(3) r by (simp add: cyc_ok_def)
  qed
qed simp

lemma dom_update_conv: "dom (map_of (AList.update i v al)) = insert i (dom (map_of al))"
  by (simp add: dom_map_of_conv_image_fst dom_update)

lemma cyc_dom:
  "cyc_visit n g i colors = Some (cycle, colors') \<Longrightarrow> dom (map_of colors) \<subseteq> dom (map_of colors')"
  "cyc_visit_all n g ids colors = Some (cycle, colors') \<Longrightarrow> dom (map_of colors) \<subseteq> dom (map_of colors')"
proof (induction n g i colors and n g ids colors arbitrary: cycle colors' and cycle colors'
    rule: cyc_visit_cyc_visit_all.induct)
  case (2 n g i colors)
  consider "map_of colors i = None" | "map_of colors i = Some visited" | "map_of colors i = Some onstack"
    using map_of_not_onstack by metis
  then show ?case
  proof cases
    case 1
    then obtain c1 cs1 where r: "cyc_visit_all n g (deps g i) (AList.update i onstack colors) = Some (c1, cs1)"
      "colors' = cs1 \<or> colors' = AList.update i visited cs1"
      using 2(2) by (auto split: option.splits prod.splits if_splits)
    have "dom (map_of colors) \<subseteq> dom (map_of cs1)" using 2(1) [OF 1 r(1)] unfolding dom_update_conv by blast
    then show ?thesis using r(2) dom_update_conv [of i visited cs1] by blast
  qed (use 2(2) in auto)
next
  case (4 n g i ids colors)
  obtain c1 cs1 where r: "cyc_visit n g i colors = Some (c1, cs1)"
    using 4(3) by (auto split: option.splits)
  have d1: "dom (map_of colors) \<subseteq> dom (map_of cs1)" using 4(1) [OF r] .
  show ?case
  proof (cases "c1 = []")
    case True
    then have c: "cyc_visit_all n g ids cs1 = Some (cycle, colors')" using 4(3) r by simp
    then show ?thesis using 4(2) [OF r refl] True d1 by blast
  qed (use 4(3) r d1 in auto)
qed auto

lemma cyc_total:
  assumes fin: "finite U" and closed: "\<And>y. y \<in> U \<Longrightarrow> set (deps g y) \<subseteq> U"
  shows "i \<in> U \<Longrightarrow> card (U - dom (map_of colors)) < n \<Longrightarrow> cyc_visit n g i colors \<noteq> None"
    "set ids \<subseteq> U \<Longrightarrow> card (U - dom (map_of colors)) < n \<Longrightarrow> cyc_visit_all n g ids colors \<noteq> None"
proof (induction n arbitrary: i ids colors)
  case (Suc n)
  have one: "cyc_visit (Suc n) g i colors \<noteq> None"
    if i: "i \<in> U" and c: "card (U - dom (map_of colors)) < Suc n" for i colors
  proof (cases "map_of colors i")
    case None
    have "card (U - dom (map_of (AList.update i onstack colors))) < card (U - dom (map_of colors))"
      unfolding dom_update_conv using None i fin by (intro psubset_card_mono) auto
    then have "cyc_visit_all n g (deps g i) (AList.update i onstack colors) \<noteq> None"
      using Suc.IH(2) [OF closed [OF i]] c by simp
    then show ?thesis using None by auto
  next
    case (Some k)
    then show ?thesis by (cases k) simp_all
  qed
  {
    case 1
    then show ?case using one by blast
  next
    case 2
    then show ?case
    proof (induction ids arbitrary: colors)
      case (Cons i ids)
      obtain c1 cs1 where r: "cyc_visit (Suc n) g i colors = Some (c1, cs1)"
        using one Cons.prems by (metis list.set_intros(1) not_None_eq subsetD surj_pair)
      have "card (U - dom (map_of cs1)) \<le> card (U - dom (map_of colors))"
        using cyc_dom(1) [OF r] fin by (intro card_mono) auto
      then show ?case using Cons r by simp
    qed simp
  }
qed auto

lemma cyclic_correct:
  assumes "\<forall>(i, mp) \<in> set (g_Packages g). i \<noteq> [] \<and> [] \<notin> snd ` set (pk_DepsByPkgPath mp)"
  shows "\<exists>cycle. cyclic g = Some cycle \<and> (cycle = [] \<longleftrightarrow> acyclic (import_edges g))"
proof -
  let ?ids = "map fst (g_Packages g)"
  let ?n = "Suc (length (universe g ?ids))"
  have "cyc_visit_all ?n g ?ids [] \<noteq> None"
    using card_universe [of g ?ids "{}"]
    by (intro cyc_total(2) [of "set (universe g ?ids)", OF List.finite_set deps_in_universe universe_roots]) simp
  then obtain cycle colors where r: "cyc_visit_all ?n g ?ids [] = Some (cycle, colors)" by auto
  have nd: "[] \<notin> set ?ids" using assms by fastforce
  have dep: "\<forall>x. [] \<notin> set (deps g x)"
  proof
    show "[] \<notin> set (deps g x)" for x
    proof (cases "map_of (g_Packages g) x")
      case (Some mp)
      then show ?thesis using bspec [OF assms map_of_SomeD [OF Some]] by (simp add: deps_def)
    qed (simp add: deps_def)
  qed
  have ok: "cyc_ok g ?ids [] cycle colors"
    by (rule cyc_visit_correct(2) [OF r _ _ nd dep]) (simp_all add: color_inv_def stack_reaches_def)
  have "cycle = [] \<longleftrightarrow> acyclic (import_edges g)"
  proof (cases "cycle = []")
    case True
    have "(x, x) \<notin> (import_edges g)\<^sup>+" for x
    proof (cases "x \<in> set ?ids")
      case True
      then show ?thesis using ok \<open>cycle = []\<close> by (auto simp: cyc_ok_def color_inv_def)
    next
      case False
      then have "deps g x = []" by (simp add: deps_def map_of_eq_None_iff split: option.split) (metis map_of_eq_None_iff not_None_eq)
      then show ?thesis by (auto dest!: tranclD simp: import_edges_deps)
    qed
    then show ?thesis using True by (simp add: acyclic_def)
  qed (use ok in \<open>simp add: cyc_ok_def\<close>)
  then show ?thesis using r by (simp add: cyclic_def)
qed

text \<open>In a graph without empty package IDs \<open>cyclic\<close> terminates and returns the empty string
  exactly when no package imports itself, directly or through others.\<close>

theorem cyclic_iff:
  assumes "\<forall>(i, mp) \<in> set (g_Packages g). i \<noteq> [] \<and> [] \<notin> snd ` set (pk_DepsByPkgPath mp)"
  shows "\<exists>cycle. cyclic g = Some cycle \<and> (cycle = [] \<longleftrightarrow> acyclic (import_edges g))"
  using cyclic_correct [OF assms] .

section \<open>The indexes\<close>

lemma get_list_Nil [simp]: "get_list [] k = []"
  by (simp add: get_list_def)

lemma get_list_append_to:
  "get_list (append_to k v m) k' = (if k = k' then get_list m k @ [v] else get_list m k')"
  by (simp add: get_list_def append_to_def update_conv')

lemma get_list_map_values:
  "f [] = [] \<Longrightarrow> get_list (map (\<lambda>(k, l). (k, f l)) m) k = f (get_list m k)"
  by (induction m) (auto simp: get_list_def)

lemma get_list_fold_append_to:
  "get_list (fold (\<lambda>x. append_to (key x) (val x)) xs m) k =
     get_list m k @ map val (filter (\<lambda>x. key x = k) xs)"
  by (induction xs arbitrary: m) (auto simp: get_list_append_to)

lemma get_list_index_paths: "get_list (index_paths mps) p = filter (\<lambda>mp. pk_PkgPath mp = p) mps"
  using get_list_fold_append_to [of pk_PkgPath id mps "[]" p] by (simp add: index_paths_def)

lemma get_list_fold_fold:
  assumes "\<And>x m. get_list (f x m) k = get_list m k @ h x"
  shows "get_list (fold f xs m) k = get_list m k @ concat (map h xs)"
  by (induction xs arbitrary: m) (simp_all add: assms)

lemma get_list_index_importers:
  "get_list (index_importers mps) d =
     concat (map (\<lambda>mp. map (\<lambda>_. mp) (filter (\<lambda>(_, depID). depID = d) (pk_DepsByPkgPath mp))) mps)"
proof -
  have "get_list (fold (\<lambda>(_, depID). append_to depID mp) (pk_DepsByPkgPath mp) m) d =
      get_list m d @ map (\<lambda>_. mp) (filter (\<lambda>(_, depID). depID = d) (pk_DepsByPkgPath mp))" for mp m
    using get_list_fold_append_to [of snd "\<lambda>_. mp" "pk_DepsByPkgPath mp" m d] by (simp add: case_prod_beta')
  from get_list_fold_fold [of "\<lambda>mp. fold (\<lambda>(_, depID). append_to depID mp) (pk_DepsByPkgPath mp)", OF this, of mps "[]"]
  show ?thesis unfolding index_importers_def by simp
qed

lemma filter_eq_single: "distinct xs \<Longrightarrow> filter (\<lambda>x. x = a) xs = (if a \<in> set xs then [a] else [])"
  by (induction xs) auto

lemma get_list_index_files:
  "get_list (index_files mps) uri = filter (\<lambda>mp. uri \<in> set (package_uris mp)) mps"
proof -
  have "get_list (fold (\<lambda>uri. append_to uri mp) (package_uris mp) m) uri =
      get_list m uri @ (if uri \<in> set (package_uris mp) then [mp] else [])" for mp m
    using get_list_fold_append_to [of id "\<lambda>_. mp" "package_uris mp" m uri]
    by (simp add: filter_eq_single package_uris_def)
  from get_list_fold_fold [of "\<lambda>mp. fold (\<lambda>uri. append_to uri mp) (package_uris mp)", OF this]
  have "get_list (index_files mps) uri =
      concat (map (\<lambda>mp. if uri \<in> set (package_uris mp) then [mp] else []) mps)"
    by (simp add: index_files_def)
  also have "\<dots> = filter (\<lambda>mp. uri \<in> set (package_uris mp)) mps" by (induction mps) simp_all
  finally show ?thesis .
qed

text \<open>Two keys that order a list in the same way sort it in the same way.\<close>

lemma insort_key_cong_order:
  "(\<And>y. y \<in> set xs \<Longrightarrow> f x \<le> f y \<longleftrightarrow> g x \<le> g y) \<Longrightarrow> insort_key f x xs = insort_key g x xs"
  by (induction xs) auto

lemma sort_key_cong_order:
  "(\<And>x y. x \<in> set xs \<Longrightarrow> y \<in> set xs \<Longrightarrow> f x \<le> f y \<longleftrightarrow> g x \<le> g y) \<Longrightarrow> sort_key f xs = sort_key g xs"
proof (induction xs)
  case (Cons x xs)
  have "sort_key f xs = sort_key g xs" by (rule Cons.IH) (simp add: Cons.prems)
  moreover have "insort_key f x (sort_key g xs) = insort_key g x (sort_key g xs)"
    by (rule insort_key_cong_order) (simp add: Cons.prems)
  ultimately show ?case by simp
qed simp

lemma cut_command_line_Suc:
  "cut_command_line (Suc i) xs = takeWhile (\<lambda>mp. \<not> IsCommandLineArguments (pk_ID mp)) xs"
  by (induction xs arbitrary: i) auto

lemma sorted_bool_takeWhile:
  "sorted (map f xs) \<Longrightarrow> takeWhile (\<lambda>x. \<not> f x) xs = filter (\<lambda>x. \<not> f x) xs"
  by (induction xs) (auto simp: filter_False)

definition real_packages :: "package list \<Rightarrow> package list" where
  "real_packages = filter (\<lambda>mp. \<not> IsCommandLineArguments (pk_ID mp))"

lemma cut_sorted:
  assumes "sorted (map (\<lambda>mp. IsCommandLineArguments (pk_ID mp)) xs)"
  shows "cut_command_line 0 xs = (if real_packages xs = [] then take 1 xs else real_packages xs)"
proof (cases xs)
  case (Cons x ys)
  have t: "takeWhile (\<lambda>mp. \<not> IsCommandLineArguments (pk_ID mp)) ys = real_packages ys"
    using assms Cons sorted_bool_takeWhile [of "\<lambda>mp. IsCommandLineArguments (pk_ID mp)" ys]
    by (simp add: real_packages_def)
  then show ?thesis
    using assms Cons by (auto simp: cut_command_line_Suc real_packages_def filter_False)
qed (simp add: real_packages_def)

lemma sort_for_file_spec:
  "cut_command_line 0 (sort_for_file xs) =
     (if real_packages xs = [] then take 1 (sort_key pk_ID xs) else sort_key pk_ID (real_packages xs))"
proof -
  have s: "sorted (map (\<lambda>mp. IsCommandLineArguments (pk_ID mp)) (sort_for_file xs))"
    using sorted_sort_key [of "\<lambda>mp. (IsCommandLineArguments (pk_ID mp), pk_ID mp)" xs]
    unfolding sort_for_file_def sorted_map by (rule sorted_wrt_mono_rel [rotated]) (auto simp: less_eq_prod_def le_less)
  have f: "real_packages (sort_for_file xs) = sort_key pk_ID (real_packages xs)"
    unfolding real_packages_def sort_for_file_def filter_sort
    by (rule sort_key_cong_order) (auto simp: less_eq_prod_def)
  have c: "sort_for_file xs = sort_key pk_ID xs" if "real_packages xs = []"
    unfolding sort_for_file_def
    by (rule sort_key_cong_order) (use that in \<open>auto simp: less_eq_prod_def real_packages_def filter_empty_conv\<close>)
  have e: "sort_key pk_ID (real_packages xs) = [] \<longleftrightarrow> real_packages xs = []"
    by (metis set_sort set_empty)
  show ?thesis unfolding cut_sorted [OF s] f e using c by simp
qed

lemma newGraph_importers:
  "mp \<in> set (get_list (g_ImportedBy (newGraph pkgs)) d) \<longleftrightarrow>
     mp \<in> snd ` set pkgs \<and> d \<in> snd ` set (pk_DepsByPkgPath mp)"
proof -
  have "mp \<in> set (get_list (index_importers mps) d) \<longleftrightarrow> mp \<in> set mps \<and> d \<in> snd ` set (pk_DepsByPkgPath mp)" for mps
    unfolding get_list_index_importers by (force split: prod.splits)
  from this [of "map snd pkgs"] show ?thesis by (simp add: newGraph_def Let_def)
qed

text \<open>The first element of a list sorted by a key has the least key.\<close>

lemma take_sort_key:
  assumes "xs \<noteq> []"
  obtains m where "take 1 (sort_key f xs) = [m]" "m \<in> set xs" "\<And>x. x \<in> set xs \<Longrightarrow> f m \<le> f x"
proof -
  obtain m ms where m: "sort_key f xs = m # ms" using assms by (metis list.exhaust set_empty set_sort)
  have "sorted (map f (m # ms))" "set xs = set (m # ms)"
    by (simp only: m [symmetric] sorted_sort_key, simp only: m [symmetric] set_sort)
  then show ?thesis using that [of m] m by auto
qed

text \<open>The packages listed for a file that the packages \<open>xs\<close> name.\<close>

lemma listed_files:
  assumes "listed = (if real_packages xs = [] then take 1 (sort_key pk_ID xs) else sort_key pk_ID (real_packages xs))"
  shows "if mset (real_packages xs) \<noteq> {#}
      then mset listed = mset (real_packages xs) \<and> sorted_wrt (\<lambda>a b. pk_ID a \<le> pk_ID b) listed
    else if mset xs \<noteq> {#} then \<exists>mp. listed = [mp] \<and> mp \<in># mset xs \<and> (\<forall>mp' \<in># mset xs. pk_ID mp \<le> pk_ID mp')
    else listed = []"
proof (cases "real_packages xs = []")
  case True
  show ?thesis
  proof (cases "xs = []")
    case False
    then obtain m where "take 1 (sort_key pk_ID xs) = [m]" "m \<in> set xs" "\<And>x. x \<in> set xs \<Longrightarrow> pk_ID m \<le> pk_ID x"
      using take_sort_key [OF False, of pk_ID] by blast
    then show ?thesis using True assms False by simp
  qed (simp add: assms real_packages_def)
next
  case False
  then have "sorted_wrt (\<lambda>a b. pk_ID a \<le> pk_ID b) listed"
    using sorted_sort_key [of pk_ID "real_packages xs"] unfolding assms sorted_map by simp
  then show ?thesis using False assms by simp
qed

text \<open>The order in which the packages of one path are listed: the package \<open>a\<close> may stand before \<open>b\<close>.\<close>

definition listed_before :: "package \<Rightarrow> package \<Rightarrow> bool" where
  "listed_before a b \<longleftrightarrow>
     (if (pk_ForTest a = []) \<noteq> (pk_ForTest b = []) then pk_ForTest a = []
      else length (pk_CompiledGoFiles a) < length (pk_CompiledGoFiles b)
        \<or> length (pk_CompiledGoFiles a) = length (pk_CompiledGoFiles b) \<and> pk_ID a \<le> pk_ID b)"

lemma sort_for_path_sorted: "sorted_wrt listed_before (sort_for_path mps)"
  using sorted_sort_key [of "\<lambda>mp. (pk_ForTest mp \<noteq> [], length (pk_CompiledGoFiles mp), pk_ID mp)" mps]
  unfolding sort_for_path_def sorted_map
  by (rule sorted_wrt_mono_rel [rotated]) (auto simp: listed_before_def less_eq_prod_def)

text \<open>Claim C12: the indexes of a new graph, stated without the sort keys
  of the model.  The importers of a package are the packages with an import edge to it.  Those of a path are all its packages, each as often as the map holds it, such that
  packages without a test come first, then those with fewer compiled files, then by ID.  Those of a
  file are the packages that name it other than command-line-arguments packages, ordered by ID,
  or, when it has only the latter, the one of them with the least ID.\<close>

theorem newGraph_indexes:
  "(mp \<in> set (get_list (g_ImportedBy (newGraph pkgs)) d) \<longleftrightarrow>
       mp \<in> snd ` set pkgs \<and> d \<in> snd ` set (pk_DepsByPkgPath mp))
   \<and> mset (get_list (g_ForPackagePath (newGraph pkgs)) p) = {#mp \<in># image_mset snd (mset pkgs). pk_PkgPath mp = p#}
   \<and> sorted_wrt (\<lambda>a b.
        if (pk_ForTest a = []) \<noteq> (pk_ForTest b = []) then pk_ForTest a = []
        else length (pk_CompiledGoFiles a) < length (pk_CompiledGoFiles b)
          \<or> length (pk_CompiledGoFiles a) = length (pk_CompiledGoFiles b) \<and> pk_ID a \<le> pk_ID b)
      (get_list (g_ForPackagePath (newGraph pkgs)) p)
   \<and> (let named = {#mp \<in># image_mset snd (mset pkgs). uri \<in> set (pk_CompiledGoFiles mp) \<union> set (pk_GoFiles mp)
               \<or> uri \<in> set (pk_OtherFiles mp) \<and> has_suffix uri ''.s''#};
          real = {#mp \<in># named. \<not> str_contains (pk_ID mp) ''command-line-arguments''#};
          listed = get_list (g_ForFile (newGraph pkgs)) uri in
        if real \<noteq> {#} then mset listed = real \<and> sorted_wrt (\<lambda>a b. pk_ID a \<le> pk_ID b) listed
        else if named \<noteq> {#} then \<exists>mp. listed = [mp] \<and> mp \<in># named \<and> (\<forall>mp' \<in># named. pk_ID mp \<le> pk_ID mp')
        else listed = [])"
  (is "?importers \<and> ?path \<and> ?sorted \<and> ?file")
proof (intro conjI)
  let ?named = "filter (\<lambda>mp. uri \<in> set (package_uris mp)) (map snd pkgs)"
  show ?importers by (rule newGraph_importers)
  have path: "get_list (g_ForPackagePath (newGraph pkgs)) p =
      sort_for_path (filter (\<lambda>mp. pk_PkgPath mp = p) (map snd pkgs))"
    by (simp add: newGraph_def Let_def get_list_map_values sort_for_path_def get_list_index_paths)
  show ?path unfolding path sort_for_path_def mset_sort mset_filter mset_map by (rule refl)
  show ?sorted unfolding path listed_before_def [symmetric] by (rule sort_for_path_sorted)
  have files: "get_list (g_ForFile (newGraph pkgs)) uri =
      (if real_packages ?named = [] then take 1 (sort_key pk_ID ?named) else sort_key pk_ID (real_packages ?named))"
    unfolding newGraph_def Let_def graph.simps
    by (subst get_list_map_values [of "\<lambda>l. cut_command_line 0 (sort_for_file l)"])
      (simp add: sort_for_file_def, unfold sort_for_file_spec get_list_index_files, rule refl)
  have uris: "uri \<in> set (pk_CompiledGoFiles mp) \<union> set (pk_GoFiles mp)
      \<or> uri \<in> set (pk_OtherFiles mp) \<and> has_suffix uri ''.s'' \<longleftrightarrow> uri \<in> set (package_uris mp)" for mp
    by (auto simp: package_uris_def)
  have named: "{#mp \<in># image_mset snd (mset pkgs). uri \<in> set (package_uris mp)#} = mset ?named" by simp
  have reals: "{#mp \<in># mset ?named. \<not> str_contains (pk_ID mp) ''command-line-arguments''#} = mset (real_packages ?named)"
    by (simp add: real_packages_def IsCommandLineArguments_def filter_filter_mset conj_commute)
  show ?file
    unfolding Let_def uris named reals by (rule listed_files [OF files])
qed

section \<open>The packages that depend on some\<close>

definition importers :: "graph \<Rightarrow> PackageID \<Rightarrow> PackageID list" where
  "importers g i = map pk_ID (get_list (g_ImportedBy g) i)"

text \<open>The recursion of \<open>ReverseReflexiveTransitiveClosure\<close> is the search along the importers.\<close>

lemma rev_visitAll_dfs:
  "map_option (map fst) (rev_visitAll n g pkgs seen) =
     map_option fst (dfs_all n (importers g) (map pk_ID pkgs) (map fst seen, post))"
proof (induction n g pkgs seen arbitrary: post rule: rev_visitAll.induct)
  case (3 n g pkg pkgs seen)
  have mem: "map_of seen (pk_ID pkg) = None \<longleftrightarrow> pk_ID pkg \<notin> set (map fst seen)"
    by (simp add: map_of_eq_None_iff)
  show ?case
  proof (cases "map_of seen (pk_ID pkg) = None")
    case True
    have sub: "map_option (map fst) (rev_visitAll n g (get_list (g_ImportedBy g) (pk_ID pkg)) ((pk_ID pkg, pkg) # seen)) =
        map_option fst (dfs_all n (importers g) (importers g (pk_ID pkg)) (pk_ID pkg # map fst seen, post))"
      using 3(1) [OF True, of post] by (simp add: importers_def [of g "pk_ID pkg"])
    show ?thesis
    proof (cases "rev_visitAll n g (get_list (g_ImportedBy g) (pk_ID pkg)) ((pk_ID pkg, pkg) # seen)")
      case None
      then show ?thesis using True mem sub by simp
    next
      case (Some seen')
      then obtain post' where "dfs_all n (importers g) (importers g (pk_ID pkg)) (pk_ID pkg # map fst seen, post) =
          Some (map fst seen', post')" using sub by (auto simp: eq_commute [of "Some _"])
      then show ?thesis using 3(2) [OF True Some] True mem Some by simp
    qed
  next
    case False
    then obtain q where "map_of seen (pk_ID pkg) = Some q" by blast
    then show ?thesis using 3(3) [OF False] mem by simp
  qed
qed auto

lemma rev_visitAll_seen:
  "rev_visitAll n g pkgs seen = Some seen' \<Longrightarrow>
     (\<And>i mp. (i, mp) \<in> set seen \<Longrightarrow> pk_ID mp = i \<and> mp \<in> P) \<Longrightarrow> set pkgs \<subseteq> P \<Longrightarrow>
     (\<And>i. set (get_list (g_ImportedBy g) i) \<subseteq> P) \<Longrightarrow>
     (i, mp) \<in> set seen' \<Longrightarrow> pk_ID mp = i \<and> mp \<in> P"
proof (induction n g pkgs seen arbitrary: seen' i mp rule: rev_visitAll.induct)
  case (3 n g pkg pkgs seen)
  show ?case
  proof (cases "map_of seen (pk_ID pkg) = None")
    case True
    then obtain s1 where s1: "rev_visitAll n g (get_list (g_ImportedBy g) (pk_ID pkg)) ((pk_ID pkg, pkg) # seen) = Some s1"
      "rev_visitAll (Suc n) g pkgs s1 = Some seen'"
      using 3(4) by (auto split: option.splits)
    have P1: "pk_ID mp = i \<and> mp \<in> P" if "(i, mp) \<in> set s1" for i mp
      by (rule 3(1) [OF True s1(1) _ 3(7) 3(7) that]) (use 3(5,6) in auto)
    show ?thesis by (rule 3(2) [OF True s1(1) s1(2) P1 _ 3(7,8)]) (use 3(6) in auto)
  next
    case False
    then have "rev_visitAll (Suc n) g pkgs seen = Some seen'" using 3(4) by auto
    then show ?thesis using 3(3) [OF False _ 3(5) _ 3(7,8)] 3(6) by simp
  qed
qed auto

text \<open>The packages are keyed by their IDs.\<close>

definition keyed :: "(PackageID \<times> package) list \<Rightarrow> bool" where
  "keyed pkgs \<longleftrightarrow> distinct (map fst pkgs) \<and> (\<forall>(i, mp) \<in> set pkgs. pk_ID mp = i)"

lemma g_Packages_newGraph [simp]: "g_Packages (newGraph pkgs) = pkgs"
  by (simp add: newGraph_def Let_def)

lemma keyed_map_of: "keyed pkgs \<Longrightarrow> mp \<in> snd ` set pkgs \<Longrightarrow> map_of pkgs (pk_ID mp) = Some mp"
  by (auto simp: keyed_def)

lemma set_importers:
  assumes "keyed pkgs"
  shows "y \<in> set (importers (newGraph pkgs) x) \<longleftrightarrow> (y, x) \<in> import_edges (newGraph pkgs)"
proof
  assume "y \<in> set (importers (newGraph pkgs) x)"
  then obtain mp where mp: "mp \<in> set (get_list (g_ImportedBy (newGraph pkgs)) x)" "y = pk_ID mp"
    by (auto simp: importers_def)
  then show "(y, x) \<in> import_edges (newGraph pkgs)"
    using mp(1) [unfolded newGraph_importers] keyed_map_of [OF assms] by (auto simp: import_edges_iff)
next
  assume "(y, x) \<in> import_edges (newGraph pkgs)"
  then obtain mp where mp: "map_of pkgs y = Some mp" "x \<in> snd ` set (pk_DepsByPkgPath mp)"
    by (auto simp: import_edges_iff)
  then have "pk_ID mp = y" "mp \<in> snd ` set pkgs"
    using assms map_of_SomeD [OF mp(1)] by (auto simp: keyed_def image_iff intro: bexI [rotated])
  then show "y \<in> set (importers (newGraph pkgs) x)"
    using mp(2) by (auto simp: importers_def newGraph_importers intro!: rev_image_eqI)
qed

lemma edges_importers: "keyed pkgs \<Longrightarrow> edges (importers (newGraph pkgs)) = (import_edges (newGraph pkgs))\<inverse>"
  by (auto simp: edges_def set_importers)

text \<open>\<open>ReverseReflexiveTransitiveClosure\<close> of a graph made by \<open>newGraph\<close> terminates and returns
  exactly those packages of the graph from which one of the given packages that exist can be
  reached along imports, each under its own ID.\<close>

theorem ReverseReflexiveTransitiveClosure_spec:
  assumes "keyed pkgs"
  shows "\<exists>seen. ReverseReflexiveTransitiveClosure (newGraph pkgs) ids = Some seen
    \<and> (\<forall>i. map_of seen i =
         (if \<exists>j \<in> set ids. map_of pkgs j \<noteq> None \<and> (i, j) \<in> (import_edges (newGraph pkgs))\<^sup>*
          then map_of pkgs i else None))"
proof -
  let ?g = "newGraph pkgs" and ?U = "fst ` set pkgs"
  define init where "init = List.map_filter (map_of pkgs) ids"
  have init: "mp \<in> set init \<longleftrightarrow> (\<exists>j \<in> set ids. map_of pkgs j = Some mp)" for mp
    by (force simp: init_def List.map_filter_def)
  have init_P: "set init \<subseteq> snd ` set pkgs"
    by (force simp: init dest!: map_of_SomeD)
  have imp_P: "set (get_list (g_ImportedBy ?g) i) \<subseteq> snd ` set pkgs" for i
    using newGraph_importers by blast
  have ids_U: "pk_ID mp \<in> ?U" if "mp \<in> snd ` set pkgs" for mp
    using that assms by (force simp: keyed_def)
  have clo: "set (importers ?g y) \<subseteq> ?U" for y
    unfolding importers_def set_map by (rule image_subsetI) (rule ids_U, rule subsetD [OF imp_P])
  have "dfs_all (Suc (length pkgs)) (importers ?g) (map pk_ID init) ([], []) \<noteq> None"
  proof (rule dfs_total(2) [of ?U])
    show "card (?U - set (fst ([], []))) < Suc (length pkgs)"
      by (metis Diff_empty card_length fst_conv le_imp_less_Suc length_map list.set(1) set_map)
    show "set (map pk_ID init) \<subseteq> ?U" unfolding set_map using init_P ids_U by blast
  qed (simp_all add: clo)
  then obtain s post where d: "dfs_all (Suc (length pkgs)) (importers ?g) (map pk_ID init) ([], []) = Some (s, post)"
    by auto
  then obtain seen where seen: "rev_visitAll (Suc (length pkgs)) ?g init [] = Some seen" "map fst seen = s"
    using rev_visitAll_dfs [of "Suc (length pkgs)" ?g init "[]" "[]"] by auto
  have reach: "set s = ((import_edges ?g)\<inverse>)\<^sup>* `` (pk_ID ` set init)"
    using dfs_roots(2,3) [OF d] edges_importers [OF assms] by simp
  have dom_seen: "i \<in> fst ` set seen \<longleftrightarrow> (\<exists>j \<in> set ids. map_of pkgs j \<noteq> None \<and> (i, j) \<in> (import_edges ?g)\<^sup>*)" for i
  proof -
    have "pk_ID ` set init = {j \<in> set ids. map_of pkgs j \<noteq> None}"
      using assms map_of_SomeD by (force simp: init keyed_def image_iff)
    then show ?thesis using reach seen(2) by (auto simp: rtrancl_converse set_map [symmetric] simp del: set_map)
  qed
  have vals: "map_of pkgs i = Some mp" if "map_of seen i = Some mp" for i mp
    using rev_visitAll_seen [OF seen(1) _ init_P imp_P map_of_SomeD [OF that]] keyed_map_of [OF assms, of mp] by auto
  have "map_of seen i = (if i \<in> fst ` set seen then map_of pkgs i else None)" for i
    using vals [of i] by (cases "map_of seen i") (auto simp: map_of_eq_None_iff dest: map_of_SomeD intro: rev_image_eqI)
  then show ?thesis using seen(1)
    unfolding ReverseReflexiveTransitiveClosure_def g_Packages_newGraph init_def [symmetric] dom_seen by blast
qed

section \<open>A concrete graph\<close>

lemma acyclic_by_rank:
  assumes "\<And>x y. (x, y) \<in> import_edges g \<Longrightarrow> rank y < (rank x :: nat)"
  shows "acyclic (import_edges g)"
proof -
  have "import_edges g \<subseteq> (measure rank)\<inverse>" using assms by auto
  moreover have "acyclic ((measure rank)\<inverse>)" by (simp add: wf_acyclic)
  ultimately show ?thesis by (rule acyclic_subset [rotated])
qed

definition example_package :: "string \<Rightarrow> string list \<Rightarrow> package" where
  "example_package i ds = \<lparr>pk_ID = i, pk_PkgPath = i, pk_Name = i, pk_CompiledGoFiles = [i @ ''.go''],
     pk_GoFiles = [i @ ''.go''], pk_OtherFiles = [], pk_ForTest = [],
     pk_Errors = [], pk_DepsByImpPath = map (\<lambda>d. (d, d)) ds,
     pk_DepsByPkgPath = map (\<lambda>d. (d, d)) ds, pk_Module = None\<rparr>"

text \<open>Package \<open>a\<close> imports \<open>b\<close> and \<open>c\<close>, \<open>b\<close> imports \<open>c\<close> and the missing \<open>x\<close>.\<close>

definition example_packages :: "(PackageID \<times> package) list" where
  "example_packages = [(''a'', example_package ''a'' [''b'', ''c'']),
     (''b'', example_package ''b'' [''c'', ''x'']), (''c'', example_package ''c'' [])]"

definition example_graph :: graph where
  "example_graph = newGraph example_packages"

lemma example_acyclic: "acyclic (import_edges example_graph)"
proof (rule acyclic_by_rank [where rank = "\<lambda>i. if i = ''a'' then 2 else if i = ''b'' then 1 else 0"])
  show "(x, y) \<in> import_edges example_graph \<Longrightarrow>
      (if y = ''a'' then 2 else if y = ''b'' then 1 else 0) < (if x = ''a'' then 2 else if x = ''b'' then 1 else (0::nat))" for x y
    by (auto simp: import_edges_iff example_graph_def example_packages_def example_package_def split: if_splits)
qed

lemma least_ID:
  assumes "map pk_ID mps = is" "mp \<in> set mps" "\<forall>mp' \<in> set mps. pk_ID mp \<le> pk_ID mp'" "i \<in> set is" "\<forall>j \<in> set is. i \<le> j"
  shows "pk_ID mp = i"
  using assms by (intro order.antisym) auto

text \<open>Two packages of the path \<open>a\<close>, the test variant first in the map, and two packages made for the
  file \<open>b.go\<close> on the command line.\<close>

definition index_example :: "(PackageID \<times> package) list" where
  "index_example = map (\<lambda>mp. (pk_ID mp, mp))
     [(example_package ''a [a.test]'' [])\<lparr>pk_PkgPath := ''a'', pk_ForTest := ''a'', pk_CompiledGoFiles := [''a.go'']\<rparr>,
      (example_package ''a'' [])\<lparr>pk_CompiledGoFiles := [''a.go'', ''c.go'']\<rparr>,
      (example_package ''command-line-arguments [b.test]'' [])\<lparr>pk_CompiledGoFiles := [''b.go'']\<rparr>,
      (example_package ''command-line-arguments'' [])\<lparr>pk_CompiledGoFiles := [''a.go'', ''b.go'']\<rparr>]"

theorem newGraph_indexes_witness:
  "map pk_ID (get_list (g_ForPackagePath (newGraph index_example)) ''a'') = [''a'', ''a [a.test]'']
   \<and> map pk_ID (get_list (g_ForFile (newGraph index_example)) ''a.go'') = [''a'', ''a [a.test]'']
   \<and> (\<exists>mp. get_list (g_ForFile (newGraph index_example)) ''b.go'' = [mp] \<and> pk_ID mp = ''command-line-arguments'')"
proof (intro conjI)
  show "map pk_ID (get_list (g_ForPackagePath (newGraph index_example)) ''a'') = [''a'', ''a [a.test]'']"
    by code_simp
  show "map pk_ID (get_list (g_ForFile (newGraph index_example)) ''a.go'') = [''a'', ''a [a.test]'']"
    by code_simp
  let ?named = "filter (\<lambda>mp. ''b.go'' \<in> set (pk_CompiledGoFiles mp) \<union> set (pk_GoFiles mp)
    \<or> ''b.go'' \<in> set (pk_OtherFiles mp) \<and> has_suffix ''b.go'' ''.s'') (map snd index_example)"
  have reals: "filter (\<lambda>mp. \<not> str_contains (pk_ID mp) ''command-line-arguments'') ?named = []"
    by code_simp
  have ids: "map pk_ID ?named = [''command-line-arguments [b.test]'', ''command-line-arguments'']"
    by code_simp
  have "?named \<noteq> []"
  proof
    assume "?named = []"
    then show False using ids by (simp only: list.map list.distinct)
  qed
  then obtain mp where mp: "get_list (g_ForFile (newGraph index_example)) ''b.go'' = [mp]"
    "mp \<in> set ?named" "\<forall>mp' \<in> set ?named. pk_ID mp \<le> pk_ID mp'"
    using reals newGraph_indexes [of undefined index_example undefined undefined "''b.go''"]
    unfolding Let_def mset_map [symmetric] mset_filter [symmetric] mset_zero_iff set_mset_mset
    by (simp only: if_True if_False not_True_eq_False not_False_eq_True simp_thms) (elim conjE exE)
  have "\<forall>j \<in> set [''command-line-arguments [b.test]'', ''command-line-arguments'']. ''command-line-arguments'' \<le> j"
    by code_simp
  then have "pk_ID mp = ''command-line-arguments''"
    by (rule least_ID [OF ids mp(2,3) list.set_intros(2) [OF list.set_intros(1)]])
  then show "\<exists>mp. get_list (g_ForFile (newGraph index_example)) ''b.go'' = [mp] \<and> pk_ID mp = ''command-line-arguments''"
    using mp(1) by blast
qed

theorem ForwardReflexiveTransitiveClosure_spec_witness:
  "acyclic (import_edges example_graph)
   \<and> (\<exists>post. ForwardReflexiveTransitiveClosure example_graph [''a''] collect [] = Some (existing example_graph post)
        \<and> set post = (import_edges example_graph)\<^sup>* `` set [''a''])
   \<and> map_option (map pk_ID) (ForwardReflexiveTransitiveClosure example_graph [''a''] collect []) = Some [''c'', ''b'', ''a'']"
proof (intro conjI example_acyclic)
  show "map_option (map pk_ID) (ForwardReflexiveTransitiveClosure example_graph [''a''] collect []) = Some [''c'', ''b'', ''a'']"
    by code_simp
qed (use ForwardReflexiveTransitiveClosure_spec [of example_graph "[''a'']"] in blast)

theorem SortPostOrder_spec_witness:
  "acyclic (import_edges example_graph)
   \<and> (\<exists>out. SortPostOrder example_graph [''a'', ''b'', ''c''] = Some out \<and> mset out = mset [''a'', ''b'', ''c''])
   \<and> SortPostOrder example_graph [''a'', ''b'', ''c''] = Some [''c'', ''b'', ''a'']"
proof (intro conjI example_acyclic)
  show "SortPostOrder example_graph [''a'', ''b'', ''c''] = Some [''c'', ''b'', ''a'']"
    by code_simp
qed (use SortPostOrder_spec [of example_graph "[''a'', ''b'', ''c'']"] in blast)

theorem cyclic_iff_witness:
  "cyclic example_graph = Some [] \<and> acyclic (import_edges example_graph)"
proof -
  have h: "\<forall>(i, mp) \<in> set (g_Packages example_graph). i \<noteq> [] \<and> [] \<notin> snd ` set (pk_DepsByPkgPath mp)"
    by (simp add: example_graph_def example_packages_def example_package_def)
  have "cyclic example_graph = Some []" by code_simp
  then show ?thesis using cyclic_iff [OF h] by simp
qed

theorem ReverseReflexiveTransitiveClosure_spec_witness:
  "\<exists>seen. ReverseReflexiveTransitiveClosure (newGraph example_packages) [''b'', ''x''] = Some seen
    \<and> (\<forall>i. map_of seen i =
         (if \<exists>j \<in> set [''b'', ''x'']. map_of example_packages j \<noteq> None \<and> (i, j) \<in> (import_edges (newGraph example_packages))\<^sup>*
          then map_of example_packages i else None))
    \<and> map fst seen = [''a'', ''b'']"
proof -
  have k: "keyed example_packages"
    by (simp add: keyed_def example_packages_def example_package_def)
  have "map_option (map fst) (ReverseReflexiveTransitiveClosure (newGraph example_packages) [''b'', ''x'']) = Some [''a'', ''b'']"
    by code_simp
  then obtain seen where seen: "ReverseReflexiveTransitiveClosure (newGraph example_packages) [''b'', ''x''] = Some seen"
    "map fst seen = [''a'', ''b'']"
    by (cases "ReverseReflexiveTransitiveClosure (newGraph example_packages) [''b'', ''x'']") simp_all
  moreover obtain seen' where "ReverseReflexiveTransitiveClosure (newGraph example_packages) [''b'', ''x''] = Some seen'
    \<and> (\<forall>i. map_of seen' i =
         (if \<exists>j \<in> set [''b'', ''x'']. map_of example_packages j \<noteq> None \<and> (i, j) \<in> (import_edges (newGraph example_packages))\<^sup>*
          then map_of example_packages i else None))"
    by (rule exE [OF ReverseReflexiveTransitiveClosure_spec [OF k, of "[''b'', ''x'']"]])
  ultimately show ?thesis by (intro exI [of _ seen]) simp
qed

end
