(* ===== verification/Scc.thy ===== *)
theory Scc
  imports Dfs
begin

text \<open>
  Tarjan's search for strongly connected components, as \<open>detectImportCycles\<close> of
  \<open>gopls/internal/cache/metadata/graph.go\<close> writes it: every node has an index, a low link, a mark
  (\<open>-1\<close> on the stack, \<open>1\<close> the root of a finished component, \<open>0\<close> unvisited) and a representative in
  a disjoint-set forest.  A node that the code has not created yet has the fields of a new node.
  \<open>fuel\<close> bounds the depth of the recursion; more fuel than unvisited nodes is always enough.
\<close>

section \<open>The search\<close>

record 'n tarjan =
  t_index :: int
  t_stack :: "'n list"
  t_sccs :: "'n list list"
  t_num :: "'n \<Rightarrow> int"
  t_low :: "'n \<Rightarrow> int"
  t_scc :: "'n \<Rightarrow> int"
  t_rep :: "'n \<Rightarrow> 'n"

definition tarjan_start :: "'n tarjan" where
  "tarjan_start = \<lparr>t_index = 1, t_stack = [], t_sccs = [], t_num = (\<lambda>_. 0), t_low = (\<lambda>_. 0),
     t_scc = (\<lambda>_. 0), t_rep = (\<lambda>v. v)\<rparr>"

text \<open>\<open>find\<close> with path compression.  The forest never has a path of more than one edge, so two
  calls are enough.\<close>

fun find_rep :: "nat \<Rightarrow> 'n \<Rightarrow> ('n \<Rightarrow> 'n) \<Rightarrow> ('n \<times> ('n \<Rightarrow> 'n)) option" where
  "find_rep 0 n rep = None"
| "find_rep (Suc k) n rep =
     (if rep n = n then Some (n, rep)
      else case find_rep k (rep n) rep of
        None \<Rightarrow> None
      | Some (r, rep') \<Rightarrow> Some (r, rep'(n := r)))"

definition push :: "'n \<Rightarrow> 'n tarjan \<Rightarrow> 'n tarjan" where
  "push x s = s\<lparr>t_num := (t_num s)(x := t_index s), t_low := (t_low s)(x := t_index s),
     t_index := t_index s + 1, t_stack := x # t_stack s, t_scc := (t_scc s)(x := - 1)\<rparr>"

text \<open>The loop that pops a component; popping an empty stack would panic.\<close>

fun pop_scc :: "'n \<Rightarrow> 'n list \<Rightarrow> 'n list \<Rightarrow> ('n \<Rightarrow> 'n) \<Rightarrow> ('n list \<times> 'n list \<times> ('n \<Rightarrow> 'n)) option" where
  "pop_scc x [] scc rep = None"
| "pop_scc x (y # stack) scc rep =
     (let scc' = (if x \<noteq> y \<or> scc \<noteq> [] then scc @ [y] else scc) in
      if x = y then Some (stack, scc', rep) else pop_scc x stack scc' (rep(y := x)))"

definition finish :: "'n \<Rightarrow> 'n tarjan \<Rightarrow> 'n tarjan option" where
  "finish x s =
     (if t_low s x \<noteq> t_num s x then Some s
      else case pop_scc x (t_stack s) [] (t_rep s) of
        None \<Rightarrow> None
      | Some (stack, scc, rep) \<Rightarrow>
          Some (s\<lparr>t_stack := stack, t_rep := rep, t_scc := (t_scc s)(x := 1),
                  t_sccs := (if scc \<noteq> [] then t_sccs s @ [scc] else t_sccs s)\<rparr>))"

definition lower :: "'n \<Rightarrow> int \<Rightarrow> 'n tarjan \<Rightarrow> 'n tarjan" where
  "lower x i s = (if i < t_low s x then s\<lparr>t_low := (t_low s)(x := i)\<rparr> else s)"

fun visit :: "nat \<Rightarrow> ('n \<Rightarrow> 'n list) \<Rightarrow> 'n \<Rightarrow> 'n tarjan \<Rightarrow> 'n tarjan option"
  and visit_deps :: "nat \<Rightarrow> ('n \<Rightarrow> 'n list) \<Rightarrow> 'n \<Rightarrow> 'n list \<Rightarrow> 'n tarjan \<Rightarrow> ('n \<times> 'n tarjan) option" where
  "visit 0 succs x s = None"
| "visit (Suc fuel) succs x s =
     (case visit_deps fuel succs x (succs x) (push x s) of
        None \<Rightarrow> None
      | Some (x', s') \<Rightarrow> finish x' s')"
| "visit_deps fuel succs x [] s = Some (x, s)"
| "visit_deps fuel succs x (yid # ys) s =
     (case find_rep 2 yid (t_rep s) of
        None \<Rightarrow> None
      | Some (y, rep) \<Rightarrow>
          let s = s\<lparr>t_rep := rep\<rparr> in
          if x = y \<or> t_scc s y > 0 then visit_deps fuel succs x ys s
          else if t_scc s y < 0 then visit_deps fuel succs x ys (lower x (t_num s y) s)
          else case visit fuel succs y s of
            None \<Rightarrow> None
          | Some s' \<Rightarrow>
              (case find_rep 2 x (t_rep s') of
                 None \<Rightarrow> None
               | Some (x', rep) \<Rightarrow>
                   let s'' = s'\<lparr>t_rep := rep\<rparr> in visit_deps fuel succs x' ys (lower x' (t_low s'' y) s'')))"

section \<open>Invariants\<close>

definition visited :: "'n tarjan \<Rightarrow> 'n set" where
  "visited s = {v. t_num s v \<noteq> 0}"

text \<open>The nodes of finished components.\<close>

definition finished :: "'n tarjan \<Rightarrow> 'n set" where
  "finished s = visited s - set (t_stack s)"

text \<open>The nodes on a cycle with a node, and the node itself.\<close>

definition component :: "('n \<Rightarrow> 'n list) \<Rightarrow> 'n \<Rightarrow> 'n set" where
  "component succs v = {w. (v, w) \<in> (edges succs)\<^sup>* \<and> (w, v) \<in> (edges succs)\<^sup>*}"

text \<open>Indices, marks and the forest.\<close>

definition marks_ok :: "'n tarjan \<Rightarrow> bool" where
  "marks_ok s \<longleftrightarrow>
     0 < t_index s \<and> (\<forall>v. 0 \<le> t_num s v \<and> t_num s v < t_index s)
     \<and> (\<forall>v \<in> set (t_stack s). t_num s v \<noteq> 0 \<and> t_rep s v = v \<and> t_scc s v = - 1)
     \<and> (\<forall>v. t_num s v = 0 \<longrightarrow> t_rep s v = v \<and> t_scc s v = 0)
     \<and> (\<forall>v \<in> finished s. t_rep s v \<in> finished s \<and> t_rep s (t_rep s v) = t_rep s v \<and> t_scc s (t_rep s v) = 1)
     \<and> sorted_wrt (\<lambda>a b. t_num s a > t_num s b) (t_stack s)"

definition sccs_ok :: "('n \<Rightarrow> 'n list) \<Rightarrow> 'n tarjan \<Rightarrow> bool" where
  "sccs_ok succs s \<longleftrightarrow>
     (\<forall>v \<in> finished s. set (succs v) \<subseteq> finished s)
     \<and> (\<forall>C \<in> set (t_sccs s). distinct C \<and> length C > 1 \<and> (\<exists>v \<in> finished s. set C = component succs v))
     \<and> (\<forall>v \<in> finished s. component succs v \<noteq> {v} \<longrightarrow> component succs v \<in> set ` set (t_sccs s))"

text \<open>The nodes \<open>G\<close> being visited, and the order of the stack.\<close>

definition stack_ok :: "('n \<Rightarrow> 'n list) \<Rightarrow> 'n set \<Rightarrow> 'n tarjan \<Rightarrow> bool" where
  "stack_ok succs G s \<longleftrightarrow>
     G \<subseteq> set (t_stack s)
     \<and> (\<forall>a \<in> set (t_stack s). \<forall>b \<in> set (t_stack s). t_num s a \<le> t_num s b \<longrightarrow> (a, b) \<in> (edges succs)\<^sup>*)
     \<and> (\<forall>a \<in> set (t_stack s). \<exists>g \<in> G. t_num s g \<le> t_num s a \<and> (a, g) \<in> (edges succs)\<^sup>*)"

definition tarjan_inv :: "('n \<Rightarrow> 'n list) \<Rightarrow> 'n set \<Rightarrow> 'n tarjan \<Rightarrow> bool" where
  "tarjan_inv succs G s \<longleftrightarrow> marks_ok s \<and> sccs_ok succs s \<and> stack_ok succs G s"

text \<open>What a visit leaves alone; \<open>X\<close> are the nodes whose low links it may change.\<close>

definition frame :: "'n set \<Rightarrow> 'n tarjan \<Rightarrow> 'n tarjan \<Rightarrow> bool" where
  "frame X s s' \<longleftrightarrow>
     t_index s \<le> t_index s'
     \<and> (\<forall>v \<in> visited s. t_num s' v = t_num s v \<and> (v \<notin> X \<longrightarrow> t_low s' v = t_low s v))
     \<and> (\<forall>v \<in> visited s' - visited s. t_index s \<le> t_num s' v)
     \<and> finished s \<subseteq> finished s'"

lemma visited_frame: "frame X s s' \<Longrightarrow> visited s \<subseteq> visited s'"
  by (auto simp: frame_def visited_def)

lemma frame_refl [simp]: "frame X s s"
  by (simp add: frame_def)

lemma frame_trans:
  assumes 1: "frame X s s'" and 2: "frame X s' s''"
  shows "frame X s s''"
proof -
  have "t_index s \<le> t_num s'' v" if "v \<in> visited s'' - visited s" for v
  proof (cases "v \<in> visited s'")
    case True
    then have "t_num s'' v = t_num s' v" "t_index s \<le> t_num s' v" using 1 2 that by (simp_all add: frame_def)
    then show ?thesis by simp
  next
    case False
    then have "t_index s' \<le> t_num s'' v" "t_index s \<le> t_index s'" using 1 2 that by (simp_all add: frame_def)
    then show ?thesis by simp
  qed
  moreover have "t_index s \<le> t_index s''" "finished s \<subseteq> finished s''"
    using 1 2 unfolding frame_def by (auto intro: order_trans)
  moreover have "t_num s'' v = t_num s v \<and> (v \<notin> X \<longrightarrow> t_low s'' v = t_low s v)" if "v \<in> visited s" for v
    using 1 2 visited_frame [OF 1] that unfolding frame_def by (metis subsetD)
  ultimately show ?thesis unfolding frame_def by blast
qed

lemma frame_mono: "frame X s s' \<Longrightarrow> X \<subseteq> Y \<Longrightarrow> frame Y s s'"
  by (auto simp: frame_def)

section \<open>The forest\<close>

text \<open>In a state that satisfies the invariant, \<open>find\<close> yields the representative and changes nothing.\<close>

lemma rep_idem: "marks_ok s \<Longrightarrow> t_rep s (t_rep s v) = t_rep s v"
  by (cases "t_num s v = 0"; cases "v \<in> set (t_stack s)") (auto simp: marks_ok_def finished_def visited_def)

lemma find_rep_ok:
  assumes "marks_ok s"
  shows "find_rep 2 v (t_rep s) = Some (t_rep s v, t_rep s)"
proof -
  have "(t_rep s)(v := t_rep s v) = t_rep s" by simp
  then show ?thesis using rep_idem [OF assms, of v] by (auto simp: numeral_2_eq_2)
qed

text \<open>The three kinds of nodes, as the marks tell them apart.\<close>

lemma marks_cases:
  assumes "marks_ok s"
  obtains (fin) "v \<in> finished s" "t_rep s v \<in> finished s" "t_scc s (t_rep s v) = 1"
  | (stack) "v \<in> set (t_stack s)" "t_rep s v = v" "t_scc s v = - 1" "v \<in> visited s"
  | (new) "v \<notin> visited s" "t_rep s v = v" "t_scc s v = 0"
  using assms by (cases "v \<in> set (t_stack s)"; cases "v \<in> visited s") (auto simp: marks_ok_def finished_def visited_def)

lemma distinct_stack: "marks_ok s \<Longrightarrow> distinct (t_stack s)"
  by (auto simp: marks_ok_def distinct_conv_nth sorted_wrt_iff_nth_less) (metis less_irrefl linorder_neqE_nat)

lemma visited_stack: "marks_ok s \<Longrightarrow> set (t_stack s) \<subseteq> visited s"
  by (auto simp: marks_ok_def visited_def)

lemma finished_closed:
  assumes "sccs_ok succs s" "v \<in> finished s" "(v, w) \<in> (edges succs)\<^sup>*"
  shows "w \<in> finished s"
  using assms(3) by (induction rule: rtrancl_induct) (use assms(1,2) in \<open>auto simp: sccs_ok_def edges_def\<close>)

section \<open>Starting a visit\<close>

lemma push_simps [simp]:
  "t_index (push x s) = t_index s + 1" "t_stack (push x s) = x # t_stack s" "t_sccs (push x s) = t_sccs s"
  "t_num (push x s) = (t_num s)(x := t_index s)" "t_low (push x s) = (t_low s)(x := t_index s)"
  "t_scc (push x s) = (t_scc s)(x := - 1)" "t_rep (push x s) = t_rep s"
  by (simp_all add: push_def)

lemma visited_push: "marks_ok s \<Longrightarrow> visited (push x s) = insert x (visited s)"
  by (auto simp: visited_def marks_ok_def)

lemma finished_push: "marks_ok s \<Longrightarrow> x \<notin> visited s \<Longrightarrow> finished (push x s) = finished s"
  by (auto simp: finished_def visited_push)

lemma frame_push: "marks_ok s \<Longrightarrow> x \<notin> visited s \<Longrightarrow> frame {} s (push x s)"
  by (auto simp: frame_def visited_push finished_push)

lemma push_inv:
  assumes inv: "tarjan_inv succs G s" and new: "x \<notin> visited s" and gray: "\<forall>g \<in> G. (g, x) \<in> (edges succs)\<^sup>*"
  shows "tarjan_inv succs (insert x G) (push x s)"
proof -
  have m: "marks_ok s" and sc: "sccs_ok succs s" and st: "stack_ok succs G s"
    using inv by (simp_all add: tarjan_inv_def)
  have xs: "x \<notin> set (t_stack s)" "x \<notin> finished s" using new visited_stack [OF m] by (auto simp: finished_def)
  have low: "t_num s a < t_index s" for a using m by (simp add: marks_ok_def)
  have "sorted_wrt (\<lambda>a b. ((t_num s)(x := t_index s)) a > ((t_num s)(x := t_index s)) b) (t_stack s)"
    by (rule sorted_wrt_mono_rel [of _ "\<lambda>a b. t_num s a > t_num s b"]) (use m xs in \<open>auto simp: marks_ok_def\<close>)
  moreover have "t_num s v < t_index s + 1" for v using low [of v] by simp
  ultimately have m': "marks_ok (push x s)"
    unfolding marks_ok_def finished_push [OF m new]
    using m xs new low unfolding marks_ok_def by (auto simp: visited_def)
  have to_x: "(a, x) \<in> (edges succs)\<^sup>*" if "a \<in> set (t_stack s)" for a
  proof -
    obtain g where "g \<in> G" "(a, g) \<in> (edges succs)\<^sup>*" using st \<open>a \<in> set (t_stack s)\<close> by (auto simp: stack_ok_def)
    then show ?thesis using gray by (auto intro: rtrancl_trans)
  qed
  have st': "stack_ok succs (insert x G) (push x s)"
    unfolding stack_ok_def push_simps
  proof (intro conjI ballI impI)
    show "insert x G \<subseteq> set (x # t_stack s)" using st by (auto simp: stack_ok_def)
    show "(a, b) \<in> (edges succs)\<^sup>*"
      if "a \<in> set (x # t_stack s)" "b \<in> set (x # t_stack s)"
        "((t_num s)(x := t_index s)) a \<le> ((t_num s)(x := t_index s)) b" for a b
      using that st low [of b] to_x xs by (cases "b = x"; cases "a = x") (auto simp: stack_ok_def)
    show "\<exists>g \<in> insert x G. ((t_num s)(x := t_index s)) g \<le> ((t_num s)(x := t_index s)) a \<and> (a, g) \<in> (edges succs)\<^sup>*"
      if "a \<in> set (x # t_stack s)" for a
    proof (cases "a = x")
      case False
      then have "a \<in> set (t_stack s)" using that by simp
      then obtain g where "g \<in> G" "t_num s g \<le> t_num s a" "(a, g) \<in> (edges succs)\<^sup>*"
        using st by (auto simp: stack_ok_def)
      moreover have "g \<noteq> x" using \<open>g \<in> G\<close> st xs by (auto simp: stack_ok_def)
      ultimately show ?thesis using False by auto
    qed simp
  qed
  have "sccs_ok succs (push x s)" using sc by (simp add: sccs_ok_def finished_push [OF m new])
  then show ?thesis using m' st' by (simp add: tarjan_inv_def)
qed

section \<open>Finishing a visit\<close>

lemma pop_scc_stack:
  "x \<notin> set seg \<Longrightarrow> pop_scc x (seg @ x # old) scc rep =
     Some (old, if scc = [] \<and> seg = [] then [] else scc @ seg @ [x], \<lambda>v. if v \<in> set seg then x else rep v)"
proof (induction seg arbitrary: scc rep)
  case (Cons y seg)
  have "(\<lambda>v. if v \<in> set seg then x else (rep(y := x)) v) = (\<lambda>v. if v \<in> set (y # seg) then x else rep v)"
    by auto
  then show ?case using Cons by (simp add: Let_def)
qed simp

text \<open>The state of the loop over the imports \<open>ds\<close> of \<open>x\<close>, whose visit began in state \<open>s0\<close>.\<close>

definition loop_inv :: "('n \<Rightarrow> 'n list) \<Rightarrow> 'n set \<Rightarrow> 'n \<Rightarrow> 'n tarjan \<Rightarrow> 'n set \<Rightarrow> 'n tarjan \<Rightarrow> bool" where
  "loop_inv succs G x s0 ds s \<longleftrightarrow>
     tarjan_inv succs (insert x G) s \<and> frame {} s0 s \<and> x \<notin> visited s0 \<and> G \<subseteq> set (t_stack s0)
     \<and> (\<exists>seg. t_stack s = seg @ x # t_stack s0
          \<and> (\<forall>u \<in> set seg. set (succs u) \<subseteq> visited s
               \<and> (\<forall>w \<in> set (t_stack s0). w \<in> set (succs u) \<longrightarrow> t_low s x \<le> t_num s w)))
     \<and> ds \<subseteq> visited s \<and> (\<forall>w \<in> set (t_stack s0). w \<in> ds \<longrightarrow> t_low s x \<le> t_num s w)
     \<and> (t_low s x = t_num s x \<or> t_low s x < t_num s x
          \<and> (\<exists>z \<in> set (t_stack s0). t_low s x = t_num s z \<and> (x, z) \<in> (edges succs)\<^sup>*))"

text \<open>What the visit of \<open>x\<close> has done: the nodes it leaves on the stack are finished but for their
  component, and the low link of \<open>x\<close> is a bound for every edge from them to older nodes.\<close>

definition visit_post :: "('n \<Rightarrow> 'n list) \<Rightarrow> 'n set \<Rightarrow> 'n \<Rightarrow> 'n tarjan \<Rightarrow> 'n tarjan \<Rightarrow> bool" where
  "visit_post succs G x s s' \<longleftrightarrow>
     tarjan_inv succs G s' \<and> frame {} s s' \<and> x \<in> visited s'
     \<and> (\<exists>new. t_stack s' = new @ t_stack s
          \<and> (\<forall>u \<in> set new. set (succs u) \<subseteq> visited s'
               \<and> (\<forall>w \<in> set (t_stack s). w \<in> set (succs u) \<longrightarrow> t_low s' x \<le> t_num s' w))
          \<and> (new = [] \<and> t_index s \<le> t_low s' x
             \<or> new \<noteq> [] \<and> (\<exists>z \<in> set (t_stack s). t_low s' x = t_num s' z \<and> (x, z) \<in> (edges succs)\<^sup>*)))"

lemma stack_num_less:
  assumes "marks_ok s" "t_stack s = seg @ x # old"
  shows "u \<in> set seg \<Longrightarrow> t_num s x < t_num s u" "z \<in> set old \<Longrightarrow> t_num s z < t_num s x"
  using assms by (auto simp: marks_ok_def sorted_wrt_append)

lemma finish_open:
  assumes l: "loop_inv succs G x s0 (set (succs x)) s" and no_root: "t_low s x \<noteq> t_num s x"
  shows "finish x s = Some s \<and> visit_post succs G x s0 s"
proof -
  obtain seg where seg: "t_stack s = seg @ x # t_stack s0"
    "\<And>u. u \<in> set seg \<Longrightarrow> set (succs u) \<subseteq> visited s"
    "\<And>u w. u \<in> set seg \<Longrightarrow> w \<in> set (t_stack s0) \<Longrightarrow> w \<in> set (succs u) \<Longrightarrow> t_low s x \<le> t_num s w"
    using l unfolding loop_inv_def by blast
  obtain z where z: "z \<in> set (t_stack s0)" "t_low s x = t_num s z" "(x, z) \<in> (edges succs)\<^sup>*"
    using l no_root unfolding loop_inv_def by blast
  have inv: "marks_ok s" "sccs_ok succs s" "stack_ok succs (insert x G) s" and G: "G \<subseteq> set (t_stack s0)"
    using l by (simp_all add: loop_inv_def tarjan_inv_def)
  have zx: "t_num s z < t_num s x" using stack_num_less(2) [OF inv(1) seg(1) z(1)] .
  have "\<exists>g \<in> G. t_num s g \<le> t_num s a \<and> (a, g) \<in> (edges succs)\<^sup>*" if a: "a \<in> set (t_stack s)" for a
  proof -
    obtain g where g: "g \<in> insert x G" "t_num s g \<le> t_num s a" "(a, g) \<in> (edges succs)\<^sup>*"
      using inv(3) [unfolded stack_ok_def] a by blast
    show ?thesis
    proof (cases "g \<in> G")
      case False
      then have gx: "g = x" using g(1) by simp
      have "z \<in> set (t_stack s)" using z(1) seg(1) by simp
      then obtain h where h: "h \<in> insert x G" "t_num s h \<le> t_num s z" "(z, h) \<in> (edges succs)\<^sup>*"
        using inv(3) [unfolded stack_ok_def] by blast
      then have "h \<in> G" using zx by auto
      moreover have "(a, h) \<in> (edges succs)\<^sup>*"
        using g(3) [unfolded gx] z(3) h(3) by (meson rtrancl_trans)
      moreover have "t_num s h \<le> t_num s a" using h(2) g(2) gx zx by simp
      ultimately show ?thesis by blast
    qed (use g in blast)
  qed
  then have "stack_ok succs G s" using inv(3) G seg(1) by (auto simp: stack_ok_def)
  then have t: "tarjan_inv succs G s" using inv by (simp add: tarjan_inv_def)
  have "visit_post succs G x s0 s"
    unfolding visit_post_def
  proof (intro conjI exI [of _ "seg @ [x]"])
    show "\<forall>u \<in> set (seg @ [x]). set (succs u) \<subseteq> visited s
        \<and> (\<forall>w \<in> set (t_stack s0). w \<in> set (succs u) \<longrightarrow> t_low s x \<le> t_num s w)"
      using l seg(2,3) by (auto simp: loop_inv_def)
    show "x \<in> visited s" using visited_stack [OF inv(1)] seg(1) by auto
  qed (use t l seg(1) z in \<open>auto simp: loop_inv_def\<close>)
  then show ?thesis using no_root by (simp add: finish_def)
qed

text \<open>A root: its segment of the stack is a component.\<close>

lemma root_component:
  assumes l: "loop_inv succs G x s0 (set (succs x)) s" and root: "t_low s x = t_num s x"
    and seg: "t_stack s = seg @ x # t_stack s0"
    and seg_succs: "\<And>u. u \<in> set seg \<Longrightarrow> set (succs u) \<subseteq> visited s"
    and seg_low: "\<And>u w. u \<in> set seg \<Longrightarrow> w \<in> set (t_stack s0) \<Longrightarrow> w \<in> set (succs u) \<Longrightarrow> t_low s x \<le> t_num s w"
  shows "component succs x = insert x (set seg)"
    and "v \<in> insert x (set seg) \<union> finished s \<Longrightarrow> set (succs v) \<subseteq> insert x (set seg) \<union> finished s"
proof -
  let ?P = "insert x (set seg)"
  have inv: "marks_ok s" "sccs_ok succs s" "stack_ok succs (insert x G) s" and G: "G \<subseteq> set (t_stack s0)"
    and x_succs: "set (succs x) \<subseteq> visited s"
    and x_low: "\<And>w. w \<in> set (t_stack s0) \<Longrightarrow> w \<in> set (succs x) \<Longrightarrow> t_low s x \<le> t_num s w"
    using l by (simp_all add: loop_inv_def tarjan_inv_def)
  have old: "t_num s w < t_num s x" if "w \<in> set (t_stack s0)" for w
    using stack_num_less(2) [OF inv(1) seg that] .
  have P_old: "?P \<inter> set (t_stack s0) = {}" using distinct_stack [OF inv(1)] seg by auto
  have closed: "set (succs v) \<subseteq> ?P \<union> finished s" if v: "v \<in> ?P \<union> finished s" for v
  proof (cases "v \<in> finished s")
    case True
    then show ?thesis using inv(2) by (auto simp: sccs_ok_def)
  next
    case False
    then have "v = x \<or> v \<in> set seg" using v by auto
    then have sub: "set (succs v) \<subseteq> visited s" using x_succs seg_succs by blast
    have "w \<notin> set (t_stack s0)" if w: "w \<in> set (succs v)" for w
    proof
      assume w0: "w \<in> set (t_stack s0)"
      have "t_low s x \<le> t_num s w"
        using \<open>v = x \<or> v \<in> set seg\<close> x_low [OF w0] seg_low [OF _ w0] w by blast
      then show False using old [OF w0] root by simp
    qed
    then show ?thesis using sub seg by (auto simp: finished_def)
  qed
  then show "v \<in> ?P \<union> finished s \<Longrightarrow> set (succs v) \<subseteq> ?P \<union> finished s" for v .
  have reach: "w \<in> ?P \<union> finished s" if "(v, w) \<in> (edges succs)\<^sup>*" "v \<in> ?P" for v w
    using that by (induction rule: rtrancl_induct) (use closed in \<open>auto simp: edges_def\<close>)
  have to_x: "(u, x) \<in> (edges succs)\<^sup>*" if u: "u \<in> ?P" for u
  proof -
    have "u \<in> set (t_stack s)" using u seg by auto
    then obtain g where g: "g \<in> insert x G" "(u, g) \<in> (edges succs)\<^sup>*"
      using inv(3) [unfolded stack_ok_def] by blast
    have "g \<in> ?P \<union> finished s" using reach [OF g(2) u] .
    moreover have "g = x \<or> g \<in> set (t_stack s0)" using g(1) G by auto
    ultimately have "g = x" using P_old seg by (auto simp: finished_def)
    then show ?thesis using g(2) by simp
  qed
  have from_x: "(x, u) \<in> (edges succs)\<^sup>*" if u: "u \<in> ?P" for u
  proof -
    have "t_num s x \<le> t_num s u" using stack_num_less(1) [OF inv(1) seg, of u] u by auto
    then show ?thesis using inv(3) u seg by (auto simp: stack_ok_def)
  qed
  have x_open: "x \<notin> finished s" using seg by (simp add: finished_def)
  show "component succs x = ?P"
  proof
    show "?P \<subseteq> component succs x" using to_x from_x by (auto simp: component_def)
    show "component succs x \<subseteq> ?P"
    proof
      fix w assume w: "w \<in> component succs x"
      then have "w \<in> ?P \<union> finished s" using reach [of x w] by (simp add: component_def)
      moreover have "w \<notin> finished s"
        using w finished_closed [OF inv(2), of w x] x_open by (auto simp: component_def)
      ultimately show "w \<in> ?P" by blast
    qed
  qed
qed

lemma component_eq: "w \<in> component succs v \<Longrightarrow> component succs w = component succs v"
  by (auto simp: component_def intro: rtrancl_trans)

lemma finish_root:
  assumes l: "loop_inv succs G x s0 (set (succs x)) s" and root: "t_low s x = t_num s x"
  shows "\<exists>s'. finish x s = Some s' \<and> visit_post succs G x s0 s'"
proof -
  obtain seg where seg: "t_stack s = seg @ x # t_stack s0"
    and seg_succs: "\<And>u. u \<in> set seg \<Longrightarrow> set (succs u) \<subseteq> visited s"
    and seg_low: "\<And>u w. u \<in> set seg \<Longrightarrow> w \<in> set (t_stack s0) \<Longrightarrow> w \<in> set (succs u) \<Longrightarrow> t_low s x \<le> t_num s w"
    using l unfolding loop_inv_def by blast
  let ?P = "insert x (set seg)"
  have comp: "component succs x = ?P"
    by (rule root_component(1) [OF l root seg]) (use seg_succs seg_low in blast)+
  have closed: "set (succs v) \<subseteq> ?P \<union> finished s" if "v \<in> ?P \<union> finished s" for v
    by (rule root_component(2) [OF l root seg _ _ that]) (use seg_succs seg_low in blast)+
  have inv: "marks_ok s" "sccs_ok succs s" "stack_ok succs (insert x G) s" and G: "G \<subseteq> set (t_stack s0)"
    and fr: "frame {} s0 s" and new: "x \<notin> visited s0"
    using l by (simp_all add: loop_inv_def tarjan_inv_def)
  have dist: "distinct (seg @ x # t_stack s0)" using distinct_stack [OF inv(1)] seg by simp
  let ?scc = "if seg = [] then [] else seg @ [x]"
  define s' where "s' = s\<lparr>t_stack := t_stack s0, t_rep := \<lambda>v. if v \<in> set seg then x else t_rep s v,
      t_scc := (t_scc s)(x := 1), t_sccs := (if ?scc \<noteq> [] then t_sccs s @ [?scc] else t_sccs s)\<rparr>"
  have fin: "finish x s = Some s'"
    using pop_scc_stack [of x seg "t_stack s0" "[]" "t_rep s"] dist root seg by (simp add: finish_def s'_def)
  have vis: "visited s' = visited s" by (simp add: visited_def s'_def)
  have P_vis: "?P \<subseteq> visited s" using visited_stack [OF inv(1)] seg by auto
  have finished: "finished s' = ?P \<union> finished s"
    using dist P_vis seg unfolding finished_def vis by (auto simp: s'_def)
  have "marks_ok s'"
  proof -
    have num: "t_num s' = t_num s" "t_index s' = t_index s" "t_stack s' = t_stack s0" by (simp_all add: s'_def)
    have sorted: "sorted_wrt (\<lambda>a b. t_num s a > t_num s b) (t_stack s0)"
      using inv(1) seg by (simp add: marks_ok_def sorted_wrt_append)
    have old: "t_num s v \<noteq> 0 \<and> t_rep s' v = v \<and> t_scc s' v = - 1" if "v \<in> set (t_stack s0)" for v
      using that inv(1) dist seg by (auto simp: marks_ok_def s'_def)
    have unvisited: "t_rep s' v = v \<and> t_scc s' v = 0" if "t_num s v = 0" for v
      using that inv(1) P_vis by (auto simp: marks_ok_def s'_def visited_def)
    have done_P: "t_rep s' v = x" if "v \<in> ?P" for v
      using that inv(1) seg by (auto simp: marks_ok_def s'_def)
    have done_old: "t_rep s' v = t_rep s v \<and> t_rep s v \<in> finished s \<and> t_rep s' (t_rep s v) = t_rep s v
        \<and> t_scc s' (t_rep s v) = 1" if "v \<in> finished s" for v
      using that inv(1) seg by (auto simp: marks_ok_def s'_def finished_def)
    have "t_rep s' v \<in> finished s' \<and> t_rep s' (t_rep s' v) = t_rep s' v \<and> t_scc s' (t_rep s' v) = 1"
      if "v \<in> finished s'" for v
      using that done_P [of v] done_P [of x] done_old [of v] unfolding finished by (auto simp: s'_def)
    then show ?thesis
      using inv(1) sorted old unvisited unfolding marks_ok_def num by blast
  qed
  moreover have "sccs_ok succs s'"
  proof -
    have comp_P: "component succs v = ?P" if "v \<in> ?P" for v
      using component_eq [of v succs x] comp that by simp
    have comp_old: "component succs v \<subseteq> finished s" if "v \<in> finished s" for v
      using finished_closed [OF inv(2) that] by (auto simp: component_def)
    have sccs: "set ` set (t_sccs s') = set ` set (t_sccs s) \<union> (if seg = [] then {} else {?P})"
      by (auto simp: s'_def)
    have "distinct C \<and> length C > 1 \<and> (\<exists>v \<in> finished s'. set C = component succs v)" if "C \<in> set (t_sccs s')" for C
    proof (cases "C \<in> set (t_sccs s)")
      case True
      then show ?thesis using inv(2) unfolding sccs_ok_def finished by blast
    next
      case False
      then have "seg \<noteq> []" "C = seg @ [x]" using that by (auto simp: s'_def split: if_splits)
      then show ?thesis using dist comp_P [of x] unfolding finished by (cases seg) auto
    qed
    moreover have "component succs v \<in> set ` set (t_sccs s')"
      if "v \<in> finished s'" "component succs v \<noteq> {v}" for v
    proof (cases "v \<in> finished s")
      case True
      then show ?thesis using that(2) inv(2) unfolding sccs sccs_ok_def by blast
    next
      case False
      then have v: "v \<in> ?P" using that(1) unfolding finished by blast
      then have "seg \<noteq> []" using that(2) comp_P [OF v] by auto
      then show ?thesis using comp_P [OF v] unfolding sccs by simp
    qed
    moreover have "set (succs v) \<subseteq> finished s'" if "v \<in> finished s'" for v
      using that unfolding finished by (rule closed)
    ultimately show ?thesis unfolding sccs_ok_def by blast
  qed
  moreover have "stack_ok succs G s'"
  proof -
    have "\<exists>g \<in> G. t_num s g \<le> t_num s a \<and> (a, g) \<in> (edges succs)\<^sup>*" if a: "a \<in> set (t_stack s0)" for a
    proof -
      have "a \<in> set (t_stack s)" using a seg by simp
      then obtain g where g: "g \<in> insert x G" "t_num s g \<le> t_num s a" "(a, g) \<in> (edges succs)\<^sup>*"
        using inv(3) [unfolded stack_ok_def] by blast
      then have "g \<noteq> x" using stack_num_less(2) [OF inv(1) seg a] by auto
      then show ?thesis using g by blast
    qed
    then show ?thesis using inv(3) G seg by (auto simp: stack_ok_def s'_def)
  qed
  moreover have "frame {} s0 s'"
    using fr unfolding frame_def vis finished by (auto simp: s'_def)
  moreover have "x \<in> visited s'" using vis P_vis by simp
  moreover have "t_index s0 \<le> t_low s' x"
  proof -
    have "x \<in> visited s - visited s0" using P_vis new by auto
    then show ?thesis using fr root by (simp add: frame_def s'_def)
  qed
  moreover have "t_stack s' = [] @ t_stack s0" by (simp add: s'_def)
  ultimately have "visit_post succs G x s0 s'"
    unfolding visit_post_def tarjan_inv_def by (intro conjI exI [of _ "[]"]) simp_all
  then show ?thesis using fin by blast
qed

section \<open>The loop over the imports\<close>

lemma lower_simps [simp]:
  "t_index (lower x i s) = t_index s" "t_stack (lower x i s) = t_stack s" "t_sccs (lower x i s) = t_sccs s"
  "t_num (lower x i s) = t_num s" "t_scc (lower x i s) = t_scc s" "t_rep (lower x i s) = t_rep s"
  "t_low (lower x i s) v = (if v = x then min i (t_low s x) else t_low s v)"
  by (simp_all add: lower_def)

lemma lower_sets [simp]: "visited (lower x i s) = visited s" "finished (lower x i s) = finished s"
  by (simp_all add: visited_def finished_def)

lemma tarjan_inv_lower [simp]: "tarjan_inv succs G (lower x i s) = tarjan_inv succs G s"
  by (simp add: tarjan_inv_def marks_ok_def sccs_ok_def stack_ok_def)

lemma frame_lower: "frame {} s0 s \<Longrightarrow> x \<notin> visited s0 \<Longrightarrow> frame {} s0 (lower x i s)"
  by (auto simp: frame_def)

lemma loop_start:
  assumes "tarjan_inv succs G s" "x \<notin> visited s" "\<forall>g \<in> G. (g, x) \<in> (edges succs)\<^sup>*"
  shows "loop_inv succs G x s {} (push x s)"
  unfolding loop_inv_def
proof (intro conjI)
  have "marks_ok s" "stack_ok succs G s" using assms(1) by (simp_all add: tarjan_inv_def)
  then show "frame {} s (push x s)" "G \<subseteq> set (t_stack s)"
    using frame_push assms(2) by (auto simp: stack_ok_def)
  show "tarjan_inv succs (insert x G) (push x s)" using push_inv [OF assms] .
qed (use assms(2) in auto)

lemma loop_facts:
  assumes "loop_inv succs G x s0 ds s"
  shows "marks_ok s" "x \<in> set (t_stack s)" "x \<in> visited s" "t_rep s x = x" "t_low s x \<le> t_num s x"
proof -
  show m: "marks_ok s" and x: "x \<in> set (t_stack s)" and "t_low s x \<le> t_num s x"
    using assms by (auto simp: loop_inv_def tarjan_inv_def)
  show "x \<in> visited s" "t_rep s x = x" using x m visited_stack [OF m] by (auto simp: marks_ok_def)
qed

lemma loop_lower:
  assumes l: "loop_inv succs G x s0 ds s" and y: "y \<in> visited s"
    and bound: "y \<in> set (t_stack s0) \<Longrightarrow> min i (t_low s x) \<le> t_num s y"
    and wit: "i < t_low s x \<Longrightarrow> \<exists>z \<in> set (t_stack s0). i = t_num s z \<and> (x, z) \<in> (edges succs)\<^sup>*"
  shows "loop_inv succs G x s0 (insert y ds) (lower x i s)"
  unfolding loop_inv_def
proof (intro conjI)
  obtain seg where seg: "t_stack s = seg @ x # t_stack s0"
    "\<forall>u \<in> set seg. set (succs u) \<subseteq> visited s
        \<and> (\<forall>w \<in> set (t_stack s0). w \<in> set (succs u) \<longrightarrow> t_low s x \<le> t_num s w)"
    using l unfolding loop_inv_def by blast
  then show "\<exists>seg. t_stack (lower x i s) = seg @ x # t_stack s0
      \<and> (\<forall>u \<in> set seg. set (succs u) \<subseteq> visited (lower x i s)
        \<and> (\<forall>w \<in> set (t_stack s0). w \<in> set (succs u) \<longrightarrow> t_low (lower x i s) x \<le> t_num (lower x i s) w))"
    by (intro exI [of _ seg]) (auto simp: min.coboundedI2)
  show "t_low (lower x i s) x = t_num (lower x i s) x \<or> t_low (lower x i s) x < t_num (lower x i s) x
      \<and> (\<exists>z \<in> set (t_stack s0). t_low (lower x i s) x = t_num (lower x i s) z \<and> (x, z) \<in> (edges succs)\<^sup>*)"
  proof (cases "i < t_low s x")
    case True
    then show ?thesis using wit loop_facts(5) [OF l] by auto
  next
    case False
    then show ?thesis using l by (simp add: loop_inv_def)
  qed
qed (use l y bound in \<open>auto simp: loop_inv_def frame_lower min.coboundedI2\<close>)

text \<open>An import that has been visited before.\<close>

lemma loop_skip:
  assumes l: "loop_inv succs G x s0 ds s" and y: "y \<in> finished s \<or> y = x"
  shows "loop_inv succs G x s0 (insert y ds) s"
proof -
  obtain seg where "t_stack s = seg @ x # t_stack s0" using l unfolding loop_inv_def by blast
  then have "y \<notin> set (t_stack s0)"
    using y distinct_stack [OF loop_facts(1) [OF l]] by (auto simp: finished_def)
  moreover have "y \<in> visited s" using y loop_facts(3) [OF l] by (auto simp: finished_def)
  ultimately show ?thesis using l by (auto simp: loop_inv_def)
qed

lemma loop_stack:
  assumes l: "loop_inv succs G x s0 ds s" and y: "y \<in> set (t_stack s)" "y \<noteq> x" and edge: "y \<in> set (succs x)"
  shows "loop_inv succs G x s0 (insert y ds) (lower x (t_num s y) s)"
proof (rule loop_lower [OF l])
  show "y \<in> visited s" using visited_stack [OF loop_facts(1) [OF l]] y by blast
  obtain seg where seg: "t_stack s = seg @ x # t_stack s0" using l unfolding loop_inv_def by blast
  assume "t_num s y < t_low s x"
  then have "y \<notin> set seg"
    using stack_num_less(1) [OF loop_facts(1) [OF l] seg, of y] loop_facts(5) [OF l] by auto
  then show "\<exists>z \<in> set (t_stack s0). t_num s y = t_num s z \<and> (x, z) \<in> (edges succs)\<^sup>*"
    using y seg edge by (auto simp: edges_def)
qed simp

text \<open>An import that is visited now.\<close>

lemma loop_visit:
  assumes l: "loop_inv succs G x s0 ds s" and y: "y \<notin> visited s" and edge: "y \<in> set (succs x)"
    and post: "visit_post succs (insert x G) y s s'"
  shows "loop_inv succs G x s0 (insert y ds) (lower x (t_low s' y) s')"
proof -
  obtain seg where seg: "t_stack s = seg @ x # t_stack s0"
    "\<And>u. u \<in> set seg \<Longrightarrow> set (succs u) \<subseteq> visited s"
    "\<And>u w. u \<in> set seg \<Longrightarrow> w \<in> set (t_stack s0) \<Longrightarrow> w \<in> set (succs u) \<Longrightarrow> t_low s x \<le> t_num s w"
    using l unfolding loop_inv_def by blast
  obtain new where new: "t_stack s' = new @ t_stack s"
    "\<And>u. u \<in> set new \<Longrightarrow> set (succs u) \<subseteq> visited s'"
    "\<And>u w. u \<in> set new \<Longrightarrow> w \<in> set (t_stack s) \<Longrightarrow> w \<in> set (succs u) \<Longrightarrow> t_low s' y \<le> t_num s' w"
    and low_y: "new = [] \<and> t_index s \<le> t_low s' y
      \<or> new \<noteq> [] \<and> (\<exists>z \<in> set (t_stack s). t_low s' y = t_num s' z \<and> (y, z) \<in> (edges succs)\<^sup>*)"
    using post unfolding visit_post_def by blast
  have fr: "frame {} s s'" and inv': "tarjan_inv succs (insert x G) s'" and y': "y \<in> visited s'"
    using post by (simp_all add: visit_post_def)
  have m: "marks_ok s" and xv: "x \<in> visited s" and low_x: "t_low s x \<le> t_num s x" using loop_facts [OF l] by blast+
  have vis: "visited s \<subseteq> visited s'" using visited_frame [OF fr] .
  have num: "t_num s' v = t_num s v" and low: "t_low s' v = t_low s v" if "v \<in> visited s" for v
    using fr that by (simp_all add: frame_def)
  have old_vis: "set (t_stack s0) \<subseteq> visited s" using visited_stack [OF m] seg(1) by auto
  have num_old: "t_num s' w = t_num s w" if "w \<in> set (t_stack s0)" for w
    using that old_vis num by blast
  have xlow: "t_low s' x = t_low s x" "t_num s' x = t_num s x" using low num xv by blast+
  have wit: "\<exists>z \<in> set (t_stack s0). t_low s' y = t_num s' z \<and> (x, z) \<in> (edges succs)\<^sup>*" if less: "t_low s' y < t_low s x"
  proof -
    have "t_num s x < t_index s" using m by (simp add: marks_ok_def)
    then have "\<not> t_index s \<le> t_low s' y" using less low_x by simp
    then obtain z where z: "z \<in> set (t_stack s)" "t_low s' y = t_num s' z" "(y, z) \<in> (edges succs)\<^sup>*"
      using low_y by blast
    have "z \<in> visited s" using z(1) visited_stack [OF m] by blast
    then have "t_num s z < t_num s x" using z(2) num less low_x by simp
    then have "z \<in> set (t_stack s0)" using z(1) seg(1) stack_num_less(1) [OF m seg(1), of z] by auto
    moreover have "(x, z) \<in> (edges succs)\<^sup>*"
      using edge z(3) by (auto simp: edges_def intro: converse_rtrancl_into_rtrancl)
    ultimately show ?thesis using z(2) by blast
  qed
  show ?thesis
    unfolding loop_inv_def
  proof (intro conjI exI [of _ "new @ seg"] ballI impI)
    show "tarjan_inv succs (insert x G) (lower x (t_low s' y) s')" using inv' by simp
    have "frame {} s0 s" "x \<notin> visited s0" using l by (simp_all add: loop_inv_def)
    then show "frame {} s0 (lower x (t_low s' y) s')" using frame_lower [OF frame_trans [OF _ fr]] by blast
    show "t_stack (lower x (t_low s' y) s') = (new @ seg) @ x # t_stack s0" using new(1) seg(1) by simp
    show "set (succs u) \<subseteq> visited (lower x (t_low s' y) s')" if "u \<in> set (new @ seg)" for u
    proof (cases "u \<in> set new")
      case True
      then show ?thesis using new(2) by simp
    next
      case False
      then have "set (succs u) \<subseteq> visited s" using that seg(2) by simp
      then show ?thesis using vis by simp
    qed
    show "t_low (lower x (t_low s' y) s') x \<le> t_num (lower x (t_low s' y) s') w"
      if u: "u \<in> set (new @ seg)" and w: "w \<in> set (t_stack s0)" "w \<in> set (succs u)" for u w
    proof (cases "u \<in> set new")
      case True
      then have "t_low s' y \<le> t_num s' w" using new(3) w seg(1) by simp
      then show ?thesis by (simp add: min.coboundedI1)
    next
      case False
      then have "t_low s x \<le> t_num s w" using u seg(3) w by simp
      then show ?thesis using xlow num_old [OF w(1)] by (simp add: min.coboundedI2)
    qed
    show "insert y ds \<subseteq> visited (lower x (t_low s' y) s')" using l vis y' by (auto simp: loop_inv_def)
    show "t_low (lower x (t_low s' y) s') x \<le> t_num (lower x (t_low s' y) s') w"
      if w: "w \<in> set (t_stack s0)" "w \<in> insert y ds" for w
    proof -
      have "w \<in> ds" using w old_vis y by blast
      then have "t_low s x \<le> t_num s w" using l w(1) by (simp add: loop_inv_def)
      then show ?thesis using xlow num_old [OF w(1)] by (simp add: min.coboundedI2)
    qed
    show "t_low (lower x (t_low s' y) s') x = t_num (lower x (t_low s' y) s') x
        \<or> t_low (lower x (t_low s' y) s') x < t_num (lower x (t_low s' y) s') x
        \<and> (\<exists>z \<in> set (t_stack s0). t_low (lower x (t_low s' y) s') x = t_num (lower x (t_low s' y) s') z
             \<and> (x, z) \<in> (edges succs)\<^sup>*)"
    proof (cases "t_low s' y < t_low s x")
      case True
      then show ?thesis using wit xlow low_x by auto
    next
      case False
      then show ?thesis using l xlow num_old by (auto simp: loop_inv_def)
    qed
  qed (use l in \<open>simp_all add: loop_inv_def\<close>)
qed

section \<open>A visit is total and correct\<close>

definition visit_spec :: "('n \<Rightarrow> 'n list) \<Rightarrow> 'n set \<Rightarrow> nat \<Rightarrow> bool" where
  "visit_spec succs U fuel \<longleftrightarrow>
     (\<forall>G x s. tarjan_inv succs G s \<longrightarrow> x \<in> U \<longrightarrow> x \<notin> visited s \<longrightarrow> (\<forall>g \<in> G. (g, x) \<in> (edges succs)\<^sup>*) \<longrightarrow>
        card (U - visited s) < fuel \<longrightarrow>
        (\<exists>s'. visit fuel succs x s = Some s' \<and> visit_post succs G x s s'))"

lemma visit_deps_spec:
  assumes U: "finite U" and spec: "visit_spec succs U fuel"
  shows "loop_inv succs G x s0 ds s \<Longrightarrow> set ys \<subseteq> set (succs x) \<inter> U \<Longrightarrow> card (U - visited s) < fuel \<Longrightarrow>
    (\<forall>g \<in> G. (g, x) \<in> (edges succs)\<^sup>*) \<Longrightarrow>
    \<exists>s'. visit_deps fuel succs x ys s = Some (x, s') \<and> loop_inv succs G x s0 (ds \<union> set ys) s'"
proof (induction ys arbitrary: ds s)
  case (Cons y ys)
  note l = Cons.prems(1) and G = Cons.prems(4)
  have y: "y \<in> set (succs x)" "y \<in> U" and ys: "set ys \<subseteq> set (succs x) \<inter> U" using Cons.prems(2) by auto
  have m: "marks_ok s" using loop_facts(1) [OF l] .
  have x: "t_rep s x = x" "x \<in> set (t_stack s)" using loop_facts [OF l] by blast+
  have card_mono: "card (U - visited s') < fuel" if "visited s \<subseteq> visited s'" for s' :: "'a tarjan"
    using Cons.prems(3) by (meson Diff_mono U card_mono finite_Diff le_less_trans order_refl that)
  have step: ?case
    if s': "loop_inv succs G x s0 (insert y ds) s'" "visited s \<subseteq> visited s'"
      and eq: "visit_deps fuel succs x (y # ys) s = visit_deps fuel succs x ys s'" for s'
    using Cons.IH [OF s'(1) ys card_mono [OF s'(2)] G] eq by simp
  have eta: "s\<lparr>t_rep := t_rep s\<rparr> = s" for s :: "'a tarjan" by simp
  note unfold = visit_deps.simps(2) find_rep_ok [OF m] option.case prod.case Let_def eta
  show ?case
    using m
  proof (cases rule: marks_cases [of s y])
    case fin
    show ?thesis
      by (rule step [OF loop_skip [OF l]]) (use fin in \<open>simp_all add: find_rep_ok [OF m] Let_def\<close>)
  next
    case stack
    show ?thesis
    proof (cases "y = x")
      case True
      show ?thesis by (rule step [OF loop_skip [OF l]]) (use True x in \<open>simp_all add: find_rep_ok [OF m] Let_def\<close>)
    next
      case False
      then show ?thesis
        by (intro step [OF loop_stack [OF l stack(1) False y(1)]])
          (use False stack in \<open>simp_all add: find_rep_ok [OF m] Let_def\<close>)
    qed
  next
    case new
    have inv: "tarjan_inv succs (insert x G) s" using l by (simp add: loop_inv_def)
    have "\<forall>g \<in> insert x G. (g, y) \<in> (edges succs)\<^sup>*"
      using G y(1) by (auto simp: edges_def intro: rtrancl_into_rtrancl)
    then obtain s' where s': "visit fuel succs y s = Some s'" "visit_post succs (insert x G) y s s'"
      using spec inv y(2) new(1) Cons.prems(3) unfolding visit_spec_def by blast
    have fr: "frame {} s s'" and m': "marks_ok s'" and x': "x \<in> set (t_stack s')"
      using s'(2) x(2) unfolding visit_post_def tarjan_inv_def by auto
    have rep': "t_rep s' x = x" using m' x' by (simp add: marks_ok_def)
    have "x \<noteq> y" using new(1) loop_facts(3) [OF l] by blast
    then have "visit_deps fuel succs x (y # ys) s = visit_deps fuel succs x ys (lower x (t_low s' y) s')"
      using new s'(1) rep' by (simp add: find_rep_ok [OF m] find_rep_ok [OF m'] Let_def)
    moreover have "visited s \<subseteq> visited (lower x (t_low s' y) s')" using visited_frame [OF fr] by simp
    ultimately show ?thesis using step [OF loop_visit [OF l new(1) y(1) s'(2)]] by blast
  qed
qed simp

lemma visit_total:
  assumes U: "finite U" "\<forall>x \<in> U. set (succs x) \<subseteq> U"
  shows "visit_spec succs U fuel"
proof (induction fuel)
  case 0
  show ?case by (simp add: visit_spec_def)
next
  case (Suc fuel)
  show ?case
    unfolding visit_spec_def
  proof (intro allI impI)
    fix G x s
    assume inv: "tarjan_inv succs G s" and x: "x \<in> U" "x \<notin> visited s"
      and G: "\<forall>g \<in> G. (g, x) \<in> (edges succs)\<^sup>*" and fuel: "card (U - visited s) < Suc fuel"
    have m: "marks_ok s" using inv by (simp add: tarjan_inv_def)
    have "card (U - visited (push x s)) < card (U - visited s)"
      by (rule psubset_card_mono) (use U x visited_push [OF m] in auto)
    then have card: "card (U - visited (push x s)) < fuel" using fuel by simp
    obtain s1 where s1: "visit_deps fuel succs x (succs x) (push x s) = Some (x, s1)"
      "loop_inv succs G x s (set (succs x)) s1"
      using visit_deps_spec [OF U(1) Suc.IH loop_start [OF inv x(2) G] _ card G] U(2) x(1) by fastforce
    then show "\<exists>s'. visit (Suc fuel) succs x s = Some s' \<and> visit_post succs G x s s'"
      using finish_root [OF s1(2)] finish_open [OF s1(2)] by (cases "t_low s1 x = t_num s1 x") auto
  qed
qed

section \<open>All roots\<close>

text \<open>The loop over the roots; the stack is empty between two visits.\<close>

fun visit_roots :: "nat \<Rightarrow> ('n \<Rightarrow> 'n list) \<Rightarrow> 'n list \<Rightarrow> 'n tarjan \<Rightarrow> 'n tarjan option" where
  "visit_roots fuel succs [] s = Some s"
| "visit_roots fuel succs (x # xs) s =
     (if t_num s x = 0 then
        (case visit fuel succs x s of None \<Rightarrow> None | Some s' \<Rightarrow> visit_roots fuel succs xs s')
      else visit_roots fuel succs xs s)"

lemma tarjan_inv_start: "tarjan_inv succs {} tarjan_start"
  by (simp add: tarjan_inv_def marks_ok_def sccs_ok_def stack_ok_def finished_def visited_def tarjan_start_def)

lemma stack_empty: "tarjan_inv succs {} s \<Longrightarrow> t_stack s = []"
  by (auto simp: tarjan_inv_def stack_ok_def)

lemma visit_roots_total:
  assumes U: "finite U" "\<forall>x \<in> U. set (succs x) \<subseteq> U" and fuel: "card U < fuel"
  shows "tarjan_inv succs {} s \<Longrightarrow> set xs \<subseteq> U \<Longrightarrow>
    \<exists>s'. visit_roots fuel succs xs s = Some s' \<and> tarjan_inv succs {} s' \<and> visited s \<union> set xs \<subseteq> visited s'"
proof (induction xs arbitrary: s)
  case (Cons x xs)
  show ?case
  proof (cases "t_num s x = 0")
    case True
    then have "x \<in> U" "x \<notin> visited s" "card (U - visited s) < fuel"
      using Cons.prems(2) fuel card_mono [OF U(1), of "U - visited s"] by (auto simp: visited_def)
    then obtain s1 where s1: "visit fuel succs x s = Some s1" "visit_post succs {} x s s1"
      using visit_total [OF U, of fuel] Cons.prems(1) unfolding visit_spec_def by blast
    then obtain s' where "visit_roots fuel succs xs s1 = Some s'" "tarjan_inv succs {} s'"
      "visited s1 \<union> set xs \<subseteq> visited s'"
      using Cons.IH [of s1] Cons.prems(2) by (auto simp: visit_post_def)
    moreover have "visited s \<union> {x} \<subseteq> visited s1" using s1(2) visited_frame by (auto simp: visit_post_def)
    ultimately show ?thesis using True s1(1) by auto
  next
    case False
    then have "x \<in> visited s" by (simp add: visited_def)
    then show ?thesis using Cons.IH [OF Cons.prems(1)] Cons.prems(2) False by auto
  qed
qed simp

text \<open>The search reports exactly the nontrivial components that the roots reach, each once as a
  list without repetitions.\<close>

theorem sccs_correct:
  assumes U: "finite U" "\<forall>x \<in> U. set (succs x) \<subseteq> U" and fuel: "card U < fuel" and roots: "set xs \<subseteq> U"
  obtains s where "visit_roots fuel succs xs tarjan_start = Some s"
    "\<And>C. C \<in> set (t_sccs s) \<Longrightarrow> distinct C \<and> (\<exists>v. v \<in> set C \<and> set C = component succs v \<and> length C > 1)"
    "\<And>r v. r \<in> set xs \<Longrightarrow> (r, v) \<in> (edges succs)\<^sup>* \<Longrightarrow> component succs v \<noteq> {v} \<Longrightarrow>
       \<exists>C \<in> set (t_sccs s). set C = component succs v"
proof -
  obtain s where s: "visit_roots fuel succs xs tarjan_start = Some s" "tarjan_inv succs {} s" "set xs \<subseteq> visited s"
    using visit_roots_total [OF U fuel tarjan_inv_start roots] by blast
  have sc: "sccs_ok succs s" and fin: "finished s = visited s"
    using s(2) stack_empty [OF s(2)] by (simp_all add: tarjan_inv_def finished_def)
  show ?thesis
  proof (rule that [OF s(1)])
    show "distinct C \<and> (\<exists>v. v \<in> set C \<and> set C = component succs v \<and> length C > 1)" if "C \<in> set (t_sccs s)" for C
    proof -
      have "distinct C \<and> length C > 1 \<and> (\<exists>v \<in> finished s. set C = component succs v)"
        using sc that by (simp add: sccs_ok_def)
      then obtain v where "distinct C" "length C > 1" "set C = component succs v" by blast
      moreover have "v \<in> component succs v" by (simp add: component_def)
      ultimately show ?thesis by blast
    qed
    show "\<exists>C \<in> set (t_sccs s). set C = component succs v"
      if "r \<in> set xs" "(r, v) \<in> (edges succs)\<^sup>*" "component succs v \<noteq> {v}" for r v
    proof -
      have "r \<in> finished s" using that(1) s(3) fin by blast
      then have "v \<in> finished s" using finished_closed [OF sc _ that(2)] by blast
      then have "component succs v \<in> set ` set (t_sccs s)" using sc that(3) by (simp add: sccs_ok_def)
      then show ?thesis by (metis (no_types) imageE)
    qed
  qed
qed

end
