(* ===== verification/Graph_Update.thy ===== *)
theory Graph_Update
  imports Metadata_Graph Scc
begin

text \<open>
  \<open>Graph.Update\<close> of \<open>gopls/internal/cache/metadata/graph.go\<close>, with \<open>breakImportCycles\<close> and
  \<open>detectImportCycles\<close>.  The map of updates is the list of its entries in the order of \<open>range\<close>; \<open>None\<close>
  is the nil value that deletes a package.  The code changes the packages of the updates in place;
  here the changed packages are those of the new graph.  What \<open>bug.Reportf\<close> is told is returned
  beside the graph.  Of an error of a package only the message is kept.
\<close>

type_synonym updates = "(PackageID \<times> package option) list"

section \<open>Import cycles\<close>

text \<open>The node of an ID: its package, or an empty one for a dangling import.\<close>

definition no_package :: "PackageID \<Rightarrow> package" where
  "no_package i = \<lparr>pk_ID = i, pk_PkgPath = [], pk_Name = [], pk_CompiledGoFiles = [], pk_GoFiles = [],
     pk_OtherFiles = [], pk_ForTest = [], pk_Errors = [], pk_DepsByImpPath = [], pk_DepsByPkgPath = [],
     pk_Module = None\<rparr>"

definition nodeOf :: "(PackageID \<times> package) list \<Rightarrow> PackageID \<Rightarrow> package" where
  "nodeOf pkgs i = (case map_of pkgs i of None \<Rightarrow> no_package i | Some mp \<Rightarrow> mp)"

definition node_deps :: "(PackageID \<times> package) list \<Rightarrow> PackageID \<Rightarrow> PackageID list" where
  "node_deps pkgs i = map snd (pk_DepsByPkgPath (nodeOf pkgs i))"

text \<open>The IDs of the updates that are not deletions.\<close>

definition updated :: "updates \<Rightarrow> PackageID list" where
  "updated updates = map fst (filter (\<lambda>(i, mp). mp \<noteq> None) updates)"

text \<open>Every ID the search can meet.\<close>

definition node_universe :: "(PackageID \<times> package) list \<Rightarrow> updates \<Rightarrow> PackageID list" where
  "node_universe pkgs updates = updated updates @ concat (map (\<lambda>(_, mp). map snd (pk_DepsByPkgPath mp)) pkgs)"

definition detectImportCycles :: "(PackageID \<times> package) list \<Rightarrow> updates \<Rightarrow> package list list option" where
  "detectImportCycles pkgs updates =
     map_option (\<lambda>s. map (map (nodeOf pkgs)) (t_sccs s))
       (visit_roots (Suc (length (node_universe pkgs updates))) (node_deps pkgs) (updated updates) tarjan_start)"

definition cut_edges :: "PackageID list \<Rightarrow> package \<Rightarrow> package" where
  "cut_edges cyc mp = mp\<lparr>
     pk_DepsByImpPath := filter (\<lambda>(_, depID). depID \<notin> set cyc) (pk_DepsByImpPath mp),
     pk_DepsByPkgPath := filter (\<lambda>(_, depID). depID \<notin> set cyc) (pk_DepsByPkgPath mp),
     pk_Errors := (if pk_Errors mp = [] then [''detected import cycle''] else pk_Errors mp)\<rparr>"

definition break_cycle :: "updates \<Rightarrow> package list \<Rightarrow> (PackageID \<times> package) list \<Rightarrow> (PackageID \<times> package) list" where
  "break_cycle updates cycle pkgs =
     (let cyc = map pk_ID cycle in
      map (\<lambda>(i, mp). if i \<in> set cyc \<and> i \<in> set (updated updates) then (i, cut_edges cyc mp) else (i, mp)) pkgs)"

definition breakImportCycles :: "(PackageID \<times> package) list \<Rightarrow> updates \<Rightarrow> (PackageID \<times> package) list option" where
  "breakImportCycles pkgs updates =
     map_option (\<lambda>cycles. fold (break_cycle updates) cycles pkgs) (detectImportCycles pkgs updates)"

section \<open>Updating a graph\<close>

definition apply_update :: "PackageID \<times> package option \<Rightarrow> (PackageID \<times> package) list \<Rightarrow> (PackageID \<times> package) list" where
  "apply_update u pkgs =
     (case u of (i, None) \<Rightarrow> AList.delete i pkgs | (i, Some mp) \<Rightarrow> AList.update i mp pkgs)"

definition self_cycles :: "updates \<Rightarrow> string list" where
  "self_cycles updates =
     concat (map (\<lambda>(i, u). case u of None \<Rightarrow> []
       | Some mp \<Rightarrow> map (\<lambda>_. ''self-cycle in metadata update: '' @ i) (filter (\<lambda>(_, d). d = i) (pk_DepsByPkgPath mp))) updates)"

definition Update :: "graph \<Rightarrow> updates \<Rightarrow> (string list \<times> graph) option" where
  "Update g updates =
     (if updates = [] then Some ([], g)
      else case cyclic g of None \<Rightarrow> None
      | Some cycle \<Rightarrow>
          let reports = (if cycle \<noteq> [] then [''metadata is cyclic even before updates: '' @ cycle] else []) @ self_cycles updates;
              pkgs = fold apply_update updates (g_Packages g)
          in map_option (\<lambda>pkgs'. (reports, newGraph pkgs')) (breakImportCycles pkgs updates))"

section \<open>Breaking cycles\<close>

lemma node_deps_case:
  "node_deps pkgs i = (case map_of pkgs i of None \<Rightarrow> [] | Some mp \<Rightarrow> map snd (pk_DepsByPkgPath mp))"
  by (simp add: node_deps_def nodeOf_def no_package_def split: option.split)

lemma node_deps_iff: "d \<in> set (node_deps pkgs i) \<longleftrightarrow> (\<exists>mp. map_of pkgs i = Some mp \<and> d \<in> snd ` set (pk_DepsByPkgPath mp))"
  unfolding node_deps_case by (cases "map_of pkgs i") (simp_all only: option.case set_map list.set option.inject simp_thms, auto)

lemma import_edges_node_deps: "import_edges (newGraph pkgs) = edges (node_deps pkgs)"
proof -
  have "deps (newGraph pkgs) = node_deps pkgs"
    by (rule ext) (simp add: deps_def node_deps_case newGraph_def Let_def split: option.split)
  then show ?thesis by (simp add: import_edges_def)
qed

lemma node_deps_universe: "set (node_deps pkgs i) \<subseteq> set (node_universe pkgs updates)"
proof
  fix d assume "d \<in> set (node_deps pkgs i)"
  then obtain mp where "(i, mp) \<in> set pkgs" "d \<in> snd ` set (pk_DepsByPkgPath mp)"
    by (metis node_deps_iff map_of_SomeD)
  then show "d \<in> set (node_universe pkgs updates)" by (force simp: node_universe_def)
qed

lemma map_of_map_value: "map_of (map (\<lambda>(i, mp). (i, f i mp)) pkgs) i = map_option (f i) (map_of pkgs i)"
  by (induction pkgs) auto

lemma break_cycle_map:
  "break_cycle updates cycle pkgs =
     map (\<lambda>(i, mp). (i, if i \<in> pk_ID ` set cycle \<and> i \<in> set (updated updates)
        then cut_edges (map pk_ID cycle) mp else mp)) pkgs"
  by (auto simp: break_cycle_def Let_def)

text \<open>What all cycles together do to one package.\<close>

definition cut_all :: "updates \<Rightarrow> package list list \<Rightarrow> PackageID \<Rightarrow> package \<Rightarrow> package" where
  "cut_all updates cycles i =
     fold (\<lambda>cycle mp. if i \<in> pk_ID ` set cycle \<and> i \<in> set (updated updates) then cut_edges (map pk_ID cycle) mp else mp) cycles"

lemma fold_break_cycle: "fold (break_cycle updates) cycles pkgs = map (\<lambda>(i, mp). (i, cut_all updates cycles i mp)) pkgs"
proof (induction cycles arbitrary: pkgs)
  case (Cons c cycles)
  then show ?case by (simp add: break_cycle_map cut_all_def case_prod_unfold comp_def)
qed (simp add: cut_all_def case_prod_unfold)

text \<open>The package without its imports into a set, and with an error.\<close>

definition cut_targets :: "PackageID set \<Rightarrow> package \<Rightarrow> package" where
  "cut_targets K mp = mp\<lparr>
     pk_DepsByImpPath := filter (\<lambda>(_, d). d \<notin> K) (pk_DepsByImpPath mp),
     pk_DepsByPkgPath := filter (\<lambda>(_, d). d \<notin> K) (pk_DepsByPkgPath mp),
     pk_Errors := (if pk_Errors mp = [] then [''detected import cycle''] else pk_Errors mp)\<rparr>"

lemma cut_edges_targets: "cut_edges (map pk_ID c) = cut_targets (pk_ID ` set c)"
  by (rule ext) (simp add: cut_edges_def cut_targets_def)

lemma cut_targets_idem: "cut_targets K (cut_targets K mp) = cut_targets K mp"
  by (simp add: cut_targets_def)

lemma fold_idem:
  assumes "\<And>x. x \<in> set xs \<Longrightarrow> P x \<Longrightarrow> f x = g" "\<And>y. g (g y) = g y"
  shows "fold (\<lambda>x y. if P x then f x y else y) xs y = (if \<exists>x \<in> set xs. P x then g y else y)"
  using assms by (induction xs arbitrary: y) auto

lemma cut_all_component:
  assumes "\<And>c. c \<in> set cycles \<Longrightarrow> i \<in> pk_ID ` set c \<Longrightarrow> pk_ID ` set c = K"
  shows "cut_all updates cycles i mp =
    (if i \<in> set (updated updates) \<and> (\<exists>c \<in> set cycles. i \<in> pk_ID ` set c) then cut_targets K mp else mp)"
proof -
  have "cut_all updates cycles i mp =
      (if \<exists>c \<in> set cycles. i \<in> pk_ID ` set c \<and> i \<in> set (updated updates) then cut_targets K mp else mp)"
    unfolding cut_all_def
    by (rule fold_idem) (metis assms cut_edges_targets, rule cut_targets_idem)
  then show ?thesis by auto
qed

lemma cut_all_ID [simp]: "pk_ID (cut_all updates cycles i mp) = pk_ID mp"
  by (induction cycles arbitrary: mp) (simp_all add: cut_all_def cut_edges_def)

lemma cut_all_deps:
  "pk_DepsByPkgPath (cut_all updates cycles i mp) =
     filter (\<lambda>(_, d). \<not> (i \<in> set (updated updates) \<and> (\<exists>c \<in> set cycles. i \<in> pk_ID ` set c \<and> d \<in> pk_ID ` set c)))
       (pk_DepsByPkgPath mp)"
proof (induction cycles arbitrary: mp)
  case (Cons c cycles)
  then show ?case
    by (simp add: cut_all_def cut_edges_def case_prod_unfold) (auto intro: filter_cong)
qed (simp add: cut_all_def case_prod_unfold)

lemma nodeOf_ID: "keyed pkgs \<Longrightarrow> pk_ID (nodeOf pkgs i) = i"
  by (auto simp: nodeOf_def no_package_def keyed_def split: option.split dest!: map_of_SomeD)

lemma component_refl: "v \<in> component succs v"
  by (simp add: component_def)

text \<open>The detected cycles are the nontrivial components; each of an updated package is among them.\<close>

lemma detectImportCycles_spec:
  assumes keyed: "keyed pkgs"
  obtains cycles where "detectImportCycles pkgs updates = Some cycles"
    "\<And>c. c \<in> set cycles \<Longrightarrow> \<exists>v. pk_ID ` set c = component (node_deps pkgs) v \<and> component (node_deps pkgs) v \<noteq> {v}"
    "\<And>i. i \<in> set (updated updates) \<Longrightarrow> component (node_deps pkgs) i \<noteq> {i} \<Longrightarrow>
       \<exists>c \<in> set cycles. pk_ID ` set c = component (node_deps pkgs) i"
proof -
  let ?U = "set (node_universe pkgs updates)"
  have closed: "\<forall>x \<in> ?U. set (node_deps pkgs x) \<subseteq> ?U" using node_deps_universe by blast
  have fuel: "card ?U < Suc (length (node_universe pkgs updates))" by (simp add: card_length le_imp_less_Suc)
  have roots: "set (updated updates) \<subseteq> ?U" by (simp add: node_universe_def)
  have ids: "pk_ID ` set (map (nodeOf pkgs) C) = set C" for C
    by (simp add: image_image nodeOf_ID [OF keyed])
  obtain s where s: "visit_roots (Suc (length (node_universe pkgs updates))) (node_deps pkgs) (updated updates) tarjan_start = Some s"
    and sound: "\<And>C. C \<in> set (t_sccs s) \<Longrightarrow> distinct C \<and> (\<exists>v. v \<in> set C \<and> set C = component (node_deps pkgs) v \<and> length C > 1)"
    and complete: "\<And>r v. r \<in> set (updated updates) \<Longrightarrow> (r, v) \<in> (edges (node_deps pkgs))\<^sup>* \<Longrightarrow>
       component (node_deps pkgs) v \<noteq> {v} \<Longrightarrow> \<exists>C \<in> set (t_sccs s). set C = component (node_deps pkgs) v"
    by (rule sccs_correct [OF finite_set closed fuel roots]) blast
  show ?thesis
  proof (rule that)
    show "detectImportCycles pkgs updates = Some (map (map (nodeOf pkgs)) (t_sccs s))"
      by (simp add: detectImportCycles_def s)
    show "\<exists>v. pk_ID ` set c = component (node_deps pkgs) v \<and> component (node_deps pkgs) v \<noteq> {v}"
      if "c \<in> set (map (map (nodeOf pkgs)) (t_sccs s))" for c
    proof -
      obtain C where C: "C \<in> set (t_sccs s)" "c = map (nodeOf pkgs) C" using \<open>c \<in> _\<close> by auto
      obtain v where v: "distinct C" "set C = component (node_deps pkgs) v" "length C > 1"
        using sound [OF C(1)] by blast
      have "card (set C) > 1" using v(1,3) by (simp add: distinct_card)
      then have "component (node_deps pkgs) v \<noteq> {v}" using v(2) by auto
      moreover have "pk_ID ` set c = component (node_deps pkgs) v" using ids [of C] v(2) C(2) by simp
      ultimately show ?thesis by blast
    qed
    show "\<exists>c \<in> set (map (map (nodeOf pkgs)) (t_sccs s)). pk_ID ` set c = component (node_deps pkgs) i"
      if "i \<in> set (updated updates)" "component (node_deps pkgs) i \<noteq> {i}" for i
      using complete [OF that(1) rtrancl_refl that(2)] ids by auto
  qed
qed

text \<open>The imports that remain: all but those of an updated package into its own cycles.\<close>

definition kept_edges :: "(PackageID \<times> package) list \<Rightarrow> updates \<Rightarrow> (PackageID \<times> PackageID) set" where
  "kept_edges pkgs updates =
     {(u, v) \<in> edges (node_deps pkgs). \<not> (u \<in> set (updated updates) \<and> u \<noteq> v \<and> (v, u) \<in> (edges (node_deps pkgs))\<^sup>*)}"

lemma breakImportCycles_spec:
  assumes keyed: "keyed pkgs" and no_self: "\<forall>i \<in> set (updated updates). i \<notin> set (node_deps pkgs i)"
  obtains cycles where "breakImportCycles pkgs updates = Some (map (\<lambda>(i, mp). (i, cut_all updates cycles i mp)) pkgs)"
    "edges (node_deps (map (\<lambda>(i, mp). (i, cut_all updates cycles i mp)) pkgs)) = kept_edges pkgs updates"
    "\<And>i mp. cut_all updates cycles i mp =
       (if i \<in> set (updated updates) \<and> component (node_deps pkgs) i \<noteq> {i}
        then cut_targets (component (node_deps pkgs) i) mp else mp)"
proof -
  let ?E = "edges (node_deps pkgs)"
  obtain cycles where c: "detectImportCycles pkgs updates = Some cycles"
    and sound: "\<And>c. c \<in> set cycles \<Longrightarrow> \<exists>v. pk_ID ` set c = component (node_deps pkgs) v \<and> component (node_deps pkgs) v \<noteq> {v}"
    and complete: "\<And>i. i \<in> set (updated updates) \<Longrightarrow> component (node_deps pkgs) i \<noteq> {i} \<Longrightarrow>
       \<exists>c \<in> set cycles. pk_ID ` set c = component (node_deps pkgs) i"
    using detectImportCycles_spec [OF keyed] by blast
  have in_cycle: "component (node_deps pkgs) i = pk_ID ` set c \<and> component (node_deps pkgs) i \<noteq> {i}"
    if c: "c \<in> set cycles" "i \<in> pk_ID ` set c" for c i
  proof -
    obtain v where v: "pk_ID ` set c = component (node_deps pkgs) v" "component (node_deps pkgs) v \<noteq> {v}"
      using sound [OF c(1)] by blast
    have "component (node_deps pkgs) i = component (node_deps pkgs) v" using component_eq c(2) v(1) by metis
    moreover have "component (node_deps pkgs) v \<noteq> {i}"
      using v(2) component_refl [of v "node_deps pkgs"] by (metis singletonD)
    ultimately show ?thesis using v(1) by simp
  qed
  have cut_iff: "(\<exists>c \<in> set cycles. i \<in> pk_ID ` set c \<and> d \<in> pk_ID ` set c) \<longleftrightarrow> (d, i) \<in> ?E\<^sup>*"
    if i: "i \<in> set (updated updates)" and d: "d \<in> set (node_deps pkgs i)" for i d
  proof
    assume "\<exists>c \<in> set cycles. i \<in> pk_ID ` set c \<and> d \<in> pk_ID ` set c"
    then have "d \<in> component (node_deps pkgs) i" using in_cycle by metis
    then show "(d, i) \<in> ?E\<^sup>*" by (simp add: component_def)
  next
    assume "(d, i) \<in> ?E\<^sup>*"
    moreover have "(i, d) \<in> ?E" using d by (simp add: edges_def)
    ultimately have dc: "d \<in> component (node_deps pkgs) i" by (auto simp: component_def)
    moreover have "d \<noteq> i" using no_self i d by auto
    ultimately obtain c where "c \<in> set cycles" "pk_ID ` set c = component (node_deps pkgs) i"
      using complete [OF i] by blast
    then show "\<exists>c \<in> set cycles. i \<in> pk_ID ` set c \<and> d \<in> pk_ID ` set c" using dc component_refl by metis
  qed
  let ?new = "map (\<lambda>(i, mp). (i, cut_all updates cycles i mp)) pkgs"
  have deps: "d \<in> set (node_deps ?new i) \<longleftrightarrow>
      d \<in> set (node_deps pkgs i) \<and> \<not> (i \<in> set (updated updates) \<and> (d, i) \<in> ?E\<^sup>*)" for i d
  proof -
    have "node_deps ?new i = filter (\<lambda>d. \<not> (i \<in> set (updated updates)
        \<and> (\<exists>c \<in> set cycles. i \<in> pk_ID ` set c \<and> d \<in> pk_ID ` set c))) (node_deps pkgs i)"
      unfolding node_deps_case map_of_map_value
      by (cases "map_of pkgs i") (simp_all add: cut_all_deps filter_map comp_def case_prod_unfold)
    then have "d \<in> set (node_deps ?new i) \<longleftrightarrow> d \<in> set (node_deps pkgs i)
        \<and> \<not> (i \<in> set (updated updates) \<and> (\<exists>c \<in> set cycles. i \<in> pk_ID ` set c \<and> d \<in> pk_ID ` set c))"
      by simp
    then show ?thesis using cut_iff by blast
  qed
  show ?thesis
  proof (rule that)
    show "breakImportCycles pkgs updates = Some ?new"
      by (simp add: breakImportCycles_def c fold_break_cycle)
    show "edges (node_deps ?new) = kept_edges pkgs updates"
      using no_self by (auto simp: kept_edges_def edges_def deps)
    show "cut_all updates cycles i mp = (if i \<in> set (updated updates) \<and> component (node_deps pkgs) i \<noteq> {i}
        then cut_targets (component (node_deps pkgs) i) mp else mp)" for i mp
    proof -
      have "i \<in> set (updated updates) \<and> (\<exists>c \<in> set cycles. i \<in> pk_ID ` set c)
          \<longleftrightarrow> i \<in> set (updated updates) \<and> component (node_deps pkgs) i \<noteq> {i}"
        using complete [of i] in_cycle component_refl [of i "node_deps pkgs"] by metis
      then show ?thesis
        using cut_all_component [of cycles i "component (node_deps pkgs) i" updates mp] in_cycle by metis
    qed
  qed
qed

section \<open>No cycle survives\<close>

text \<open>A cycle of the new graph would have to lie in the part that was not updated.\<close>

lemma kept_edges_acyclic:
  assumes old: "acyclic {(u, v) \<in> edges (node_deps pkgs). u \<notin> set (updated updates)}"
    and no_self: "\<forall>i \<in> set (updated updates). i \<notin> set (node_deps pkgs i)"
  shows "acyclic (kept_edges pkgs updates)"
proof (rule acyclicI, intro allI notI)
  let ?K = "kept_edges pkgs updates" and ?R = "{(u, v) \<in> edges (node_deps pkgs). u \<notin> set (updated updates)}"
  have sub: "?K \<subseteq> edges (node_deps pkgs)" by (auto simp: kept_edges_def)
  have edge: "(y, z) \<in> ?R" if "(y, z) \<in> ?K" "(z, y) \<in> ?K\<^sup>*" for y z
  proof -
    have "(z, y) \<in> (edges (node_deps pkgs))\<^sup>*" using that(2) rtrancl_mono [OF sub] by blast
    then show ?thesis using that(1) no_self by (auto simp: kept_edges_def edges_def)
  qed
  fix x
  assume cycle: "(x, x) \<in> ?K\<^sup>+"
  have "(x, y) \<in> ?R\<^sup>+" if "(x, y) \<in> ?K\<^sup>+" "(y, x) \<in> ?K\<^sup>*" for y
    using that
  proof (induction rule: trancl_induct)
    case (base y)
    then show ?case using edge by blast
  next
    case (step y z)
    have yx: "(y, x) \<in> ?K\<^sup>*" using step.hyps(2) step.prems by (rule converse_rtrancl_into_rtrancl)
    have "(z, y) \<in> ?K\<^sup>*" using step.prems trancl_into_rtrancl [OF step.hyps(1)] by (rule rtrancl_trans)
    then have "(y, z) \<in> ?R" using edge step.hyps(2) by blast
    then show ?case using step.IH [OF yx] by (rule trancl_into_trancl [rotated])
  qed
  then have "(x, x) \<in> ?R\<^sup>+" using cycle by blast
  then show False using old by (simp add: acyclic_def)
qed

section \<open>Applying the updates\<close>

lemma keyed_iff: "keyed pkgs \<longleftrightarrow> distinct (map fst pkgs) \<and> (\<forall>i mp. map_of pkgs i = Some mp \<longrightarrow> pk_ID mp = i)"
  by (auto simp: keyed_def dest: map_of_SomeD)

lemma apply_update_distinct: "distinct (map fst pkgs) \<Longrightarrow> distinct (map fst (apply_update u pkgs))"
  by (auto simp: apply_update_def distinct_update distinct_delete split: prod.split option.split)

lemma apply_update_lookup:
  "distinct (map fst pkgs) \<Longrightarrow> map_of (apply_update u pkgs) i = (if fst u = i then snd u else map_of pkgs i)"
  by (auto simp: apply_update_def update_conv' delete_conv' split: prod.split option.split)

lemma fold_apply_update:
  assumes "distinct (map fst pkgs)" "distinct (map fst updates)"
  shows "distinct (map fst (fold apply_update updates pkgs))"
    and "map_of (fold apply_update updates pkgs) i = (case map_of updates i of None \<Rightarrow> map_of pkgs i | Some u \<Rightarrow> u)"
proof -
  have "distinct (map fst (fold apply_update updates pkgs))
      \<and> map_of (fold apply_update updates pkgs) i = (case map_of updates i of None \<Rightarrow> map_of pkgs i | Some u \<Rightarrow> u)"
    using assms
  proof (induction updates arbitrary: pkgs)
    case (Cons u updates)
    have ih: "distinct (map fst (fold apply_update updates (apply_update u pkgs)))
        \<and> map_of (fold apply_update updates (apply_update u pkgs)) i =
          (case map_of updates i of None \<Rightarrow> map_of (apply_update u pkgs) i | Some u \<Rightarrow> u)"
      by (rule Cons.IH) (use Cons.prems in \<open>simp_all add: apply_update_distinct\<close>)
    have "i = fst u \<Longrightarrow> map_of updates i = None" using Cons.prems(2) by (auto simp: map_of_eq_None_iff)
    then show ?case
      using ih apply_update_lookup [OF Cons.prems(1), of u i] by (cases u) (auto split: option.split)
  qed simp
  then show "distinct (map fst (fold apply_update updates pkgs))"
    "map_of (fold apply_update updates pkgs) i = (case map_of updates i of None \<Rightarrow> map_of pkgs i | Some u \<Rightarrow> u)"
    by blast+
qed

text \<open>Updates that \<open>Update\<close> accepts silently: one entry for each ID, under its ID, no package that
  imports itself.\<close>

definition proper_updates :: "updates \<Rightarrow> bool" where
  "proper_updates updates \<longleftrightarrow> distinct (map fst updates)
     \<and> (\<forall>i mp. (i, Some mp) \<in> set updates \<longrightarrow> pk_ID mp = i \<and> i \<notin> snd ` set (pk_DepsByPkgPath mp))"

lemma set_updated: "distinct (map fst updates) \<Longrightarrow> i \<in> set (updated updates) \<longleftrightarrow> (\<exists>mp. map_of updates i = Some (Some mp))"
  by (force simp: updated_def)

lemma fold_keyed:
  assumes "keyed pkgs" "proper_updates updates"
  shows "keyed (fold apply_update updates pkgs)"
proof -
  have "pk_ID mp = i" if "map_of updates i = Some (Some mp)" for i mp
    using assms(2) map_of_SomeD [OF that] by (auto simp: proper_updates_def)
  then show ?thesis
    using assms fold_apply_update [of pkgs updates]
    by (auto simp: keyed_iff proper_updates_def split: option.splits)
qed

text \<open>The part of the new graph that was not updated belongs to the old one.\<close>

lemma not_updated_edges:
  assumes "keyed (g_Packages g)" "proper_updates updates"
  shows "{(u, v) \<in> edges (node_deps (fold apply_update updates (g_Packages g))). u \<notin> set (updated updates)}
    \<subseteq> import_edges g"
proof clarify
  fix u v
  assume e: "(u, v) \<in> edges (node_deps (fold apply_update updates (g_Packages g)))" and u: "u \<notin> set (updated updates)"
  have d: "distinct (map fst (g_Packages g))" "distinct (map fst updates)"
    using assms by (simp_all add: keyed_def proper_updates_def)
  obtain mp where mp: "map_of (fold apply_update updates (g_Packages g)) u = Some mp" "v \<in> snd ` set (pk_DepsByPkgPath mp)"
    using e by (auto simp: edges_def node_deps_iff simp del: set_map)
  then have "map_of (g_Packages g) u = Some mp"
    using u set_updated [OF d(2)] fold_apply_update(2) [OF d, of u] by (auto split: option.splits)
  then show "(u, v) \<in> import_edges g" using mp(2) by (auto simp: import_edges_iff)
qed

text \<open>With no package that imports itself, a nontrivial component is that of a package on a cycle.\<close>

lemma component_cycle:
  assumes "i \<notin> set (succs i)"
  shows "component succs i \<noteq> {i} \<longleftrightarrow> (i, i) \<in> (edges succs)\<^sup>+"
proof
  assume "component succs i \<noteq> {i}"
  then obtain d where "d \<noteq> i" "(i, d) \<in> (edges succs)\<^sup>*" "(d, i) \<in> (edges succs)\<^sup>*"
    using component_refl [of i succs] by (auto simp: component_def)
  then show "(i, i) \<in> (edges succs)\<^sup>+" by (metis rtranclD trancl_rtrancl_trancl)
next
  assume "(i, i) \<in> (edges succs)\<^sup>+"
  then obtain d where d: "(i, d) \<in> edges succs" "(d, i) \<in> (edges succs)\<^sup>*" by (meson tranclD)
  then have "d \<in> component succs i" "d \<noteq> i" using assms by (auto simp: component_def edges_def)
  then show "component succs i \<noteq> {i}" by blast
qed

text \<open>The packages after the updates, before cycles are broken.\<close>

lemma merged_edges:
  assumes "\<And>i. map_of pkgs i = merged i"
  shows "edges (node_deps pkgs) = {(i, d). \<exists>mp. merged i = Some mp \<and> d \<in> snd ` set (pk_DepsByPkgPath mp)}"
  by (auto simp: edges_def node_deps_iff assms simp del: set_map)

text \<open>Claim C14: when the old graph has no import cycle and no updated package imports itself, \<open>Update\<close>
  returns a graph without import cycles, indexed anew, and reports nothing.  A package of the new
  graph is looked up in the updates first (a nil value deletes it), then in the old graph.  It is
  unchanged unless it is updated and, in the graph so merged, on an import cycle; then it loses
  exactly its imports into the packages strongly connected with it, in both maps of imports, and
  is marked with the error of an import cycle if it had no error.\<close>

theorem Update_spec:
  assumes "keyed (g_Packages g)" "\<forall>(i, mp) \<in> set (g_Packages g). i \<noteq> [] \<and> [] \<notin> snd ` set (pk_DepsByPkgPath mp)"
    "acyclic (import_edges g)" "proper_updates updates" "updates \<noteq> []"
  shows "\<exists>g'. Update g updates = Some ([], g') \<and> acyclic (import_edges g') \<and> g' = newGraph (g_Packages g')
    \<and> distinct (map fst (g_Packages g'))
    \<and> (let merged = (\<lambda>i. case map_of updates i of Some u \<Rightarrow> u | None \<Rightarrow> map_of (g_Packages g) i);
          E = {(i, d). \<exists>mp. merged i = Some mp \<and> d \<in> snd ` set (pk_DepsByPkgPath mp)};
          outside = (\<lambda>i (_, d). \<not> ((i, d) \<in> E\<^sup>* \<and> (d, i) \<in> E\<^sup>*)) in
        \<forall>i. map_of (g_Packages g') i = (case merged i of
            None \<Rightarrow> None
          | Some mp \<Rightarrow> Some (
              if (\<exists>u. map_of updates i = Some (Some u)) \<and> (i, i) \<in> E\<^sup>+
              then mp\<lparr>pk_DepsByImpPath := filter (outside i) (pk_DepsByImpPath mp),
                      pk_DepsByPkgPath := filter (outside i) (pk_DepsByPkgPath mp),
                      pk_Errors := if pk_Errors mp = [] then [''detected import cycle''] else pk_Errors mp\<rparr>
              else mp)))"
proof -
  let ?pkgs = "fold apply_update updates (g_Packages g)"
  have d: "distinct (map fst (g_Packages g))" "distinct (map fst updates)"
    using assms by (simp_all add: keyed_def proper_updates_def)
  have self: "self_cycles updates = []"
    unfolding self_cycles_def concat_eq_Nil_conv set_map
  proof clarify
    fix i u
    assume u: "(i, u) \<in> set updates"
    show "(case u of None \<Rightarrow> []
        | Some mp \<Rightarrow> map (\<lambda>_. ''self-cycle in metadata update: '' @ i) (filter (\<lambda>(_, d). d = i) (pk_DepsByPkgPath mp))) = []"
    proof (cases u)
      case (Some mp)
      then have "i \<notin> snd ` set (pk_DepsByPkgPath mp)" 
        using assms(4) u unfolding proper_updates_def by blast
      then show ?thesis using Some by (auto simp: filter_empty_conv rev_image_eqI)
    qed simp
  qed
  have no_self: "\<forall>i \<in> set (updated updates). i \<notin> set (node_deps ?pkgs i)"
  proof
    fix i assume "i \<in> set (updated updates)"
    then obtain mp where mp: "map_of updates i = Some (Some mp)" using set_updated [OF d(2)] by blast
    then have "i \<notin> snd ` set (pk_DepsByPkgPath mp)"
      using assms(4) map_of_SomeD [OF mp] unfolding proper_updates_def by blast
    moreover have "node_deps ?pkgs i = map snd (pk_DepsByPkgPath mp)"
      using fold_apply_update(2) [OF d, of i] mp by (simp add: node_deps_case)
    ultimately show "i \<notin> set (node_deps ?pkgs i)" by simp
  qed
  obtain cycles where c: "breakImportCycles ?pkgs updates = Some (map (\<lambda>(i, mp). (i, cut_all updates cycles i mp)) ?pkgs)"
    "edges (node_deps (map (\<lambda>(i, mp). (i, cut_all updates cycles i mp)) ?pkgs)) = kept_edges ?pkgs updates"
    "\<And>i mp. cut_all updates cycles i mp = (if i \<in> set (updated updates) \<and> component (node_deps ?pkgs) i \<noteq> {i}
        then cut_targets (component (node_deps ?pkgs) i) mp else mp)"
    using breakImportCycles_spec [OF fold_keyed [OF assms(1,4)] no_self] by blast
  let ?new = "map (\<lambda>(i, mp). (i, cut_all updates cycles i mp)) ?pkgs"
  let ?g' = "newGraph ?new"
  have "cyclic g = Some []" using cyclic_correct [OF assms(2)] assms(3) by blast
  then have run: "Update g updates = Some ([], ?g')" using assms(5) c(1) self by (simp add: Update_def Let_def)
  have acyc: "acyclic (import_edges ?g')"
    unfolding import_edges_node_deps c(2)
    by (rule kept_edges_acyclic [OF acyclic_subset [OF assms(3) not_updated_edges [OF assms(1,4)]] no_self])
  have keys: "distinct (map fst (g_Packages ?g'))"
    using fold_apply_update(1) [OF d] by (simp add: case_prod_unfold comp_def)
  define merged where "merged = (\<lambda>i. case map_of updates i of Some u \<Rightarrow> u | None \<Rightarrow> map_of (g_Packages g) i)"
  have lookup: "map_of ?pkgs i = merged i" for i
    by (simp add: fold_apply_update(2) [OF d] merged_def split: option.split)
  define E where "E = {(i, d). \<exists>mp. merged i = Some mp \<and> d \<in> snd ` set (pk_DepsByPkgPath mp)}"
  have E: "edges (node_deps ?pkgs) = E" unfolding E_def by (rule merged_edges [OF lookup])
  have target: "cut_targets (component (node_deps ?pkgs) i) mp =
      mp\<lparr>pk_DepsByImpPath := filter (\<lambda>(_, d). \<not> ((i, d) \<in> E\<^sup>* \<and> (d, i) \<in> E\<^sup>*)) (pk_DepsByImpPath mp),
         pk_DepsByPkgPath := filter (\<lambda>(_, d). \<not> ((i, d) \<in> E\<^sup>* \<and> (d, i) \<in> E\<^sup>*)) (pk_DepsByPkgPath mp),
         pk_Errors := if pk_Errors mp = [] then [''detected import cycle''] else pk_Errors mp\<rparr>" for i mp
    by (simp add: cut_targets_def component_def E)
  have cut: "i \<in> set (updated updates) \<and> component (node_deps ?pkgs) i \<noteq> {i}
      \<longleftrightarrow> (\<exists>u. map_of updates i = Some (Some u)) \<and> (i, i) \<in> E\<^sup>+" for i
    using component_cycle [of i "node_deps ?pkgs"] no_self set_updated [OF d(2), of i] unfolding E by blast
  have "map_of (g_Packages ?g') i = (case merged i of None \<Rightarrow> None | Some mp \<Rightarrow> Some (
      if (\<exists>u. map_of updates i = Some (Some u)) \<and> (i, i) \<in> E\<^sup>+
      then mp\<lparr>pk_DepsByImpPath := filter (\<lambda>(_, d). \<not> ((i, d) \<in> E\<^sup>* \<and> (d, i) \<in> E\<^sup>*)) (pk_DepsByImpPath mp),
         pk_DepsByPkgPath := filter (\<lambda>(_, d). \<not> ((i, d) \<in> E\<^sup>* \<and> (d, i) \<in> E\<^sup>*)) (pk_DepsByPkgPath mp),
         pk_Errors := if pk_Errors mp = [] then [''detected import cycle''] else pk_Errors mp\<rparr>
      else mp))" for i
    unfolding g_Packages_newGraph map_of_map_value lookup c(3) cut target by (simp split: option.split)
  then show ?thesis
    using run acyc keys unfolding Let_def merged_def [symmetric] E_def [symmetric]
    by (intro exI [of _ ?g'] conjI allI) (simp_all only: g_Packages_newGraph)
qed

text \<open>In the example graph \<open>c\<close> now imports \<open>a\<close>: the cycle is broken at \<open>c\<close>, which keeps its other import.\<close>

definition example_updates :: updates where
  "example_updates = [(''c'', Some (example_package ''c'' [''a'', ''y'']))]"

theorem Update_spec_witness:
  "\<exists>g'. Update example_graph example_updates = Some ([], g') \<and> acyclic (import_edges g')
    \<and> map_option (\<lambda>mp. (map fst (pk_DepsByPkgPath mp), pk_Errors mp)) (map_of (g_Packages g') ''c'')
        = Some ([''y''], [''detected import cycle''])"
proof -
  have h: "keyed (g_Packages example_graph)"
    "\<forall>(i, mp) \<in> set (g_Packages example_graph). i \<noteq> [] \<and> [] \<notin> snd ` set (pk_DepsByPkgPath mp)"
    "proper_updates example_updates" "example_updates \<noteq> []"
    by (simp_all add: keyed_def example_graph_def example_packages_def example_package_def example_updates_def
        proper_updates_def)
  have "map_option (\<lambda>(_, g'). map_option (\<lambda>mp. (map fst (pk_DepsByPkgPath mp), pk_Errors mp)) (map_of (g_Packages g') ''c''))
      (Update example_graph example_updates) = Some (Some ([''y''], [''detected import cycle'']))"
    by code_simp
  then show ?thesis using Update_spec [OF h(1,2) example_acyclic h(3,4)] by auto
qed

end
