(* ===== verification/Paths.thy ===== *)
theory Paths
  imports Go_Prelude
begin

text \<open>
  The lexical path functions of the standard package \<open>path/filepath\<close> on Unix, which the views, the tools
  and the file watcher use.
\<close>

abbreviation SLASH :: char where "SLASH \<equiv> CHR 0x2F"

text \<open>The elements of a cleaned path; \<open>st\<close> holds those kept so far, the last one first.\<close>

fun clean_parts :: "bool \<Rightarrow> string list \<Rightarrow> string list \<Rightarrow> string list" where
  "clean_parts rooted [] st = rev st"
| "clean_parts rooted (p # ps) st =
     (if p = [] \<or> p = ''.'' then clean_parts rooted ps st
      else if p = ''..'' then
        (case st of
           [] \<Rightarrow> clean_parts rooted ps (if rooted then [] else [p])
         | q # qs \<Rightarrow> clean_parts rooted ps (if q = ''..'' then p # st else qs))
      else clean_parts rooted ps (p # st))"

definition filepath_Clean :: "string \<Rightarrow> string" where
  "filepath_Clean path =
     (if path = [] then ''.''
      else
        let rooted = has_prefix path [SLASH];
            out = str_join [SLASH] (clean_parts rooted (split_byte SLASH path) [])
        in if rooted then SLASH # out else if out = [] then ''.'' else out)"

definition filepath_Dir :: "string \<Rightarrow> string" where
  "filepath_Dir path =
     filepath_Clean (case last_index_byte path SLASH of None \<Rightarrow> [] | Some i \<Rightarrow> take (Suc i) path)"

definition filepath_Join :: "string \<Rightarrow> string \<Rightarrow> string" where
  "filepath_Join a b =
     (if a \<noteq> [] then filepath_Clean (a @ [SLASH] @ b) else if b \<noteq> [] then filepath_Clean b else [])"

text \<open>\<open>filepath.Base\<close> and \<open>filepath.Ext\<close>.\<close>

definition last_element :: "string \<Rightarrow> string" where
  "last_element path = (case last_index_byte path SLASH of None \<Rightarrow> path | Some i \<Rightarrow> drop (Suc i) path)"

definition filepath_Base :: "string \<Rightarrow> string" where
  "filepath_Base path =
     (if path = [] then ''.''
      else
        let stripped = rev (dropWhile (\<lambda>c. c = SLASH) (rev path)); base = last_element stripped
        in if base = [] then [SLASH] else base)"

definition filepath_Ext :: "string \<Rightarrow> string" where
  "filepath_Ext path =
     (let name = last_element path in
      case last_index_byte name CHR 0x2E of None \<Rightarrow> [] | Some i \<Rightarrow> drop i name)"

end
