(* ===== verification/File_Watcher.thy ===== *)
theory File_Watcher
  imports Paths
begin

text \<open>
  The file watcher of \<open>gopls/internal/filewatcher/filewatcher.go\<close>: how it turns one event of \<open>fsnotify\<close>
  into file events, which files and directories it skips, and how it walks a new directory.  What the
  file system answers is an argument: \<open>os.Stat\<close>, the directory tree that \<open>os.Lstat\<close> and \<open>os.ReadDir\<close> show
  (after their retries), and the results of the attempts of \<open>fsnotify.Watcher.Add\<close>.  The goroutines that
  call these functions are in theory \<open>Watch_Pipeline\<close>.
\<close>

section \<open>Events\<close>

datatype change_type = Created | Changed | Deleted

record FileEvent =
  fe_URI :: string
  fe_Type :: change_type

text \<open>The operations of an \<open>fsnotify.Event\<close>, a bit set.\<close>

datatype fs_op = Op_Create | Op_Write | Op_Remove | Op_Rename | Op_Chmod

record raw_event =
  re_Name :: string
  re_Op :: "fs_op list"

datatype fs_stat = Stat bool | NotExist | StatFailed

text \<open>A file or directory as a walk meets it; the last two are directories that cannot be read, with
  the error of \<open>os.ReadDir\<close>, and whose reading the closing of the watcher interrupts.\<close>

datatype fs_tree = FsFile | FsDir "(string \<times> fs_tree) list" | FsFailed string | FsClosed

definition is_dir :: "fs_tree \<Rightarrow> bool" where
  "is_dir t \<longleftrightarrow> t \<noteq> FsFile"

record fs_env =
  env_stat :: "string \<Rightarrow> fs_stat"
  env_tree :: "string \<Rightarrow> (string option, fs_tree) outcome"
  env_skipDirFunc :: "(string \<Rightarrow> bool) option"
  env_add :: "string \<Rightarrow> nat \<Rightarrow> string option"
  env_closed :: "string \<Rightarrow> nat \<Rightarrow> bool"
  env_uri :: "string \<Rightarrow> string"

section \<open>What is skipped\<close>

definition skipDir :: "string \<Rightarrow> bool" where
  "skipDir dirName \<longleftrightarrow> has_prefix dirName ''.'' \<or> has_prefix dirName ''_'' \<or> dirName = ''testdata''"

definition skipFile :: "string \<Rightarrow> bool" where
  "skipFile fileName \<longleftrightarrow> trim_prefix (filepath_Ext fileName) ''.'' \<notin> {''go'', ''mod'', ''sum'', ''work'', ''s''}"

definition skipped_dir :: "fs_env \<Rightarrow> string \<Rightarrow> bool" where
  "skipped_dir env path \<longleftrightarrow> (case env_skipDirFunc env of None \<Rightarrow> False | Some f \<Rightarrow> f path)"

section \<open>Retries\<close>

text \<open>\<open>tryFSOperation\<close>: \<open>op i\<close> is the result of attempt \<open>i\<close>, and \<open>closed i\<close> says that the watcher is closed
  during the wait before it.  \<open>None\<close> is \<open>ErrClosed\<close>.\<close>

fun try_loop :: "(string \<Rightarrow> bool) \<Rightarrow> (nat \<Rightarrow> bool) \<Rightarrow> (nat \<Rightarrow> string + 'r) \<Rightarrow> nat \<Rightarrow> nat \<Rightarrow> string \<Rightarrow> (string + 'r) option" where
  "try_loop ephemeral closed op i 0 err = Some (Inl err)"
| "try_loop ephemeral closed op i (Suc k) err =
     (if i > 0 \<and> closed i then None
      else case op i of
        Inl e \<Rightarrow> if ephemeral e then try_loop ephemeral closed op (Suc i) k e else Some (Inl e)
      | Inr r \<Rightarrow> Some (Inr r))"

definition tryFSOperation :: "(string \<Rightarrow> bool) \<Rightarrow> (nat \<Rightarrow> bool) \<Rightarrow> (nat \<Rightarrow> string + 'r) \<Rightarrow> (string + 'r) option" where
  "tryFSOperation ephemeral closed op = try_loop ephemeral closed op 0 5 []"

text \<open>The loop of \<open>watchDir\<close>: the error of the last attempt, none after a success or when the watcher
  is closed during a wait.\<close>

fun add_loop :: "(nat \<Rightarrow> bool) \<Rightarrow> (nat \<Rightarrow> string option) \<Rightarrow> nat \<Rightarrow> nat \<Rightarrow> string option \<Rightarrow> string option" where
  "add_loop closed add i 0 err = err"
| "add_loop closed add i (Suc k) err =
     (if i > 0 \<and> closed i then None
      else case add i of None \<Rightarrow> None | Some e \<Rightarrow> add_loop closed add (Suc i) k (Some e))"

text \<open>The directory is known from here on, whether or not it can be watched.\<close>

definition watchDir :: "fs_env \<Rightarrow> string \<Rightarrow> string list \<Rightarrow> string option \<times> string list" where
  "watchDir env path knownDirs =
     (add_loop (env_closed env path) (env_add env path) 0 5 None, List.insert path knownDirs)"

section \<open>Walking a new directory\<close>

record walk_state =
  ws_synthesized :: "FileEvent list"
  ws_knownDirs :: "string list"
  ws_errors :: "string list"

definition created :: "fs_env \<Rightarrow> string \<Rightarrow> FileEvent" where
  "created env path = \<lparr>fe_URI = env_uri env path, fe_Type = Created\<rparr>"

definition walk_error :: "string \<Rightarrow> walk_state \<Rightarrow> walk_state" where
  "walk_error e st = st\<lparr>ws_errors := ws_errors st @ [e]\<rparr>"

text \<open>The function that \<open>process\<close> hands to the walk.\<close>

definition visit_path :: "fs_env \<Rightarrow> string \<Rightarrow> string \<Rightarrow> bool \<Rightarrow> walk_state \<Rightarrow> string option \<times> walk_state" where
  "visit_path env root path isDir st =
     (let st' = (if path \<noteq> root then st\<lparr>ws_synthesized := ws_synthesized st @ [created env path]\<rparr> else st)
      in if isDir then
           (case watchDir env path (ws_knownDirs st') of (err, known) \<Rightarrow> (err, st'\<lparr>ws_knownDirs := known\<rparr>))
         else (None, st'))"

definition skip_entry :: "fs_env \<Rightarrow> string \<Rightarrow> string \<times> fs_tree \<Rightarrow> bool" where
  "skip_entry env path e =
     (case e of (name, t) \<Rightarrow>
        if is_dir t then skipDir name \<or> skipped_dir env (filepath_Join path name) else skipFile name)"

fun walkDir :: "fs_env \<Rightarrow> string \<Rightarrow> string \<Rightarrow> fs_tree \<Rightarrow> walk_state \<Rightarrow> walk_state"
  and walk_entries :: "fs_env \<Rightarrow> string \<Rightarrow> string \<Rightarrow> (string \<times> fs_tree) list \<Rightarrow> walk_state \<Rightarrow> walk_state" where
  "walkDir env root path t st =
     (case visit_path env root path (is_dir t) st of
        (Some err, st') \<Rightarrow> walk_error err st'
      | (None, st') \<Rightarrow>
          (case t of
             FsFile \<Rightarrow> st'
           | FsFailed err \<Rightarrow> walk_error err st'
           | FsClosed \<Rightarrow> st'
           | FsDir entries \<Rightarrow> walk_entries env root path entries st'))"
| "walk_entries env root path [] st = st"
| "walk_entries env root path ((name, t) # es) st =
     walk_entries env root path es
       (if skip_entry env path (name, t) then st else walkDir env root (filepath_Join path name) t st)"

text \<open>The error of \<open>os.Lstat\<close> is reported unless it is \<open>ErrClosed\<close>, here \<open>Err None\<close>.\<close>

definition walkDirWithRetry :: "fs_env \<Rightarrow> string \<Rightarrow> walk_state \<Rightarrow> walk_state" where
  "walkDirWithRetry env root st =
     (case env_tree env root of
        Ok t \<Rightarrow> walkDir env root root t st
      | Err (Some e) \<Rightarrow> walk_error e st
      | _ \<Rightarrow> st)"

section \<open>One event\<close>

definition isWatchedDir :: "string list \<Rightarrow> string \<Rightarrow> bool" where
  "isWatchedDir knownDirs path \<longleftrightarrow> path \<in> set knownDirs"

definition change_of :: "fs_op list \<Rightarrow> bool \<Rightarrow> change_type option" where
  "change_of op isDir =
     (if Op_Rename \<in> set op then Some Deleted
      else if Op_Remove \<in> set op then Some Deleted
      else if Op_Create \<in> set op then Some Created
      else if Op_Write \<in> set op then (if isDir then None else Some Changed)
      else None)"

text \<open>\<open>None\<close> stands for the empty event.\<close>

definition convertEvent :: "fs_env \<Rightarrow> string list \<Rightarrow> raw_event \<Rightarrow> FileEvent option \<times> bool" where
  "convertEvent env knownDirs event =
     (case (case env_stat env (re_Name event) of
              Stat d \<Rightarrow> Some d
            | NotExist \<Rightarrow> Some (isWatchedDir knownDirs (re_Name event))
            | StatFailed \<Rightarrow> None) of
        None \<Rightarrow> (None, False)
      | Some isDir \<Rightarrow>
          if isDir \<and> skipDir (filepath_Base (re_Name event)) then (None, True)
          else if isDir \<and> skipped_dir env (re_Name event) then (None, True)
          else if \<not> isDir \<and> skipFile (filepath_Base (re_Name event)) then (None, False)
          else (map_option (\<lambda>t. \<lparr>fe_URI = env_uri env (re_Name event), fe_Type = t\<rparr>) (change_of (re_Op event) isDir), isDir))"

text \<open>One round of the loop of \<open>process\<close>: the batch \<open>out\<close>, the known directories, and what is reported to
  the error handler.  A directory event is \<open>Created\<close> or \<open>Deleted\<close>; anything else would panic.\<close>

definition append_events :: "FileEvent list \<Rightarrow> FileEvent \<Rightarrow> FileEvent list \<Rightarrow> FileEvent list" where
  "append_events out e synthesized =
     (if out = [] \<or> last out \<noteq> e then out @ [e] else out) @ synthesized"

definition process_event :: "fs_env \<Rightarrow> raw_event \<Rightarrow> FileEvent list \<times> string list \<Rightarrow>
    (string, (FileEvent list \<times> string list) \<times> string list) outcome" where
  "process_event env event0 st =
     (case st of (out, knownDirs) \<Rightarrow>
        let event = event0\<lparr>re_Name := filepath_Clean (re_Name event0)\<rparr> in
        case convertEvent env knownDirs event of
          (None, _) \<Rightarrow> Ok ((out, knownDirs), [])
        | (Some e, isDir) \<Rightarrow>
            if \<not> isDir then Ok ((append_events out e [], knownDirs), [])
            else case fe_Type e of
              Created \<Rightarrow>
                (let w = walkDirWithRetry env (re_Name event)
                     \<lparr>ws_synthesized = [], ws_knownDirs = knownDirs, ws_errors = []\<rparr>
                 in Ok ((append_events out e (ws_synthesized w), ws_knownDirs w), ws_errors w))
            | Deleted \<Rightarrow> Ok ((append_events out e [], removeAll (re_Name event) knownDirs), [])
            | Changed \<Rightarrow> Panic)"

section \<open>Watching a tree\<close>

text \<open>\<open>WatchDir\<close> over \<open>filepath.WalkDir\<close>.  Its function is called again for a directory that cannot be
  read, and ignores the error.  For a root that \<open>os.Lstat\<close> fails on it is called with a nil entry, whose
  method \<open>IsDir\<close> it calls nevertheless.\<close>

fun watch_tree :: "fs_env \<Rightarrow> string \<Rightarrow> string \<Rightarrow> fs_tree \<Rightarrow> string list \<Rightarrow> string option \<times> string list"
  and watch_children :: "fs_env \<Rightarrow> string \<Rightarrow> (string \<times> fs_tree) list \<Rightarrow> string list \<Rightarrow> string option \<times> string list" where
  "watch_tree env path name t known =
     (if \<not> is_dir t then (None, known)
      else if skipDir name then (None, known)
      else if skipped_dir env path then (None, known)
      else case watchDir env path known of
        (Some err, known') \<Rightarrow> (Some err, known')
      | (None, known') \<Rightarrow>
          (case t of
             FsDir entries \<Rightarrow> watch_children env path entries known'
           | _ \<Rightarrow> watchDir env path known'))"
| "watch_children env path [] known = (None, known)"
| "watch_children env path ((name, t) # es) known =
     (case watch_tree env (filepath_Join path name) name t known of
        (Some err, known') \<Rightarrow> (Some err, known')
      | (None, known') \<Rightarrow> watch_children env path es known')"

definition WatchDir :: "fs_env \<Rightarrow> string \<Rightarrow> string list \<Rightarrow> (string, unit) outcome \<times> string list" where
  "WatchDir env path0 known =
     (let path = filepath_Clean path0 in
      case env_tree env path of
        Ok t \<Rightarrow> (case watch_tree env path (filepath_Base path) t known of
                   (None, known') \<Rightarrow> (Ok (), known') | (Some err, known') \<Rightarrow> (Err err, known'))
      | _ \<Rightarrow> (Panic, known))"

section \<open>The retries end\<close>

definition failed_before :: "(string \<Rightarrow> bool) \<Rightarrow> (nat \<Rightarrow> bool) \<Rightarrow> (nat \<Rightarrow> string + 'r) \<Rightarrow> nat \<Rightarrow> bool" where
  "failed_before ephemeral closed op i \<longleftrightarrow>
     (\<forall>j < i. (\<exists>e. op j = Inl e \<and> ephemeral e) \<and> (j > 0 \<longrightarrow> \<not> closed j))"

lemma failed_before_Suc:
  "failed_before ephemeral closed op (Suc i) \<longleftrightarrow>
     failed_before ephemeral closed op i \<and> (\<exists>e. op i = Inl e \<and> ephemeral e) \<and> (i > 0 \<longrightarrow> \<not> closed i)"
  by (auto simp: failed_before_def less_Suc_eq)

text \<open>What a result of at most \<open>n\<close> attempts says about them.\<close>

definition attempts_ok :: "(string \<Rightarrow> bool) \<Rightarrow> (nat \<Rightarrow> bool) \<Rightarrow> (nat \<Rightarrow> string + 'r) \<Rightarrow> nat \<Rightarrow> (string + 'r) option \<Rightarrow> bool" where
  "attempts_ok ephemeral closed op n result \<longleftrightarrow>
     (\<exists>j < n. failed_before ephemeral closed op j \<and>
        (case result of
           None \<Rightarrow> 0 < j \<and> closed j
         | Some (Inr r) \<Rightarrow> op j = Inr r
         | Some (Inl e) \<Rightarrow> op j = Inl e \<and> (ephemeral e \<longrightarrow> Suc j = n)))"

lemma try_loop_ok:
  "failed_before ephemeral closed op i \<Longrightarrow> i > 0 \<longrightarrow> op (i - 1) = Inl err \<Longrightarrow> i + k > 0 \<Longrightarrow>
     attempts_ok ephemeral closed op (i + k) (try_loop ephemeral closed op i k err)"
proof (induction ephemeral closed op i k err rule: try_loop.induct)
  case (1 ephemeral closed op i err)
  then obtain j where j: "i = Suc j" by (cases i) auto
  then show ?case using 1 by (auto simp: attempts_ok_def failed_before_Suc intro!: exI [of _ j])
next
  case (2 ephemeral closed op i k err)
  show ?case
  proof (cases "i > 0 \<and> closed i")
    case True
    then show ?thesis using 2(2) by (auto simp: attempts_ok_def intro!: exI [of _ i])
  next
    case open_: False
    show ?thesis
    proof (cases "\<exists>e. op i = Inl e \<and> ephemeral e")
      case True
      then obtain e where e: "op i = Inl e" "ephemeral e" by blast
      have "failed_before ephemeral closed op (Suc i)" using 2(2) e open_ by (auto simp: failed_before_Suc)
      then have "attempts_ok ephemeral closed op (Suc i + k) (try_loop ephemeral closed op (Suc i) k e)"
        using 2(1) [OF open_ e] e by simp
      then show ?thesis using open_ e by auto
    next
      case False
      then show ?thesis using open_ 2(2) by (cases "op i") (auto simp: attempts_ok_def intro!: exI [of _ i])
    qed
  qed
qed

text \<open>\<open>tryFSOperation\<close> makes at most five attempts.  It returns the first attempt that is not
  an ephemeral error; an ephemeral error only when all five attempts ended in one, and then the last;
  and \<open>ErrClosed\<close> only when the watcher was closed during a wait after ephemeral errors.\<close>

theorem tryFSOperation_spec:
  "\<exists>j < 5. failed_before ephemeral closed op j \<and>
     (case tryFSOperation ephemeral closed op of
        None \<Rightarrow> 0 < j \<and> closed j
      | Some (Inr r) \<Rightarrow> op j = Inr r
      | Some (Inl e) \<Rightarrow> op j = Inl e \<and> (ephemeral e \<longrightarrow> j = 4))"
proof -
  have "attempts_ok ephemeral closed op (0 + 5) (try_loop ephemeral closed op 0 5 [])"
    by (rule try_loop_ok) (simp_all add: failed_before_def)
  then obtain j where "j < 5" "failed_before ephemeral closed op j"
    "case tryFSOperation ephemeral closed op of None \<Rightarrow> 0 < j \<and> closed j | Some (Inr r) \<Rightarrow> op j = Inr r
      | Some (Inl e) \<Rightarrow> op j = Inl e \<and> (ephemeral e \<longrightarrow> Suc j = 5)"
    by (auto simp: attempts_ok_def tryFSOperation_def)
  then show ?thesis by (intro exI [of _ j]) (auto split: option.splits sum.splits)
qed

text \<open>Two attempts that find the file busy, then one that answers.\<close>

theorem tryFSOperation_spec_witness:
  "tryFSOperation (\<lambda>e. e = ''EBUSY'') (\<lambda>i. False) (\<lambda>i. if i < 2 then Inl ''EBUSY'' else Inr i) = Some (Inr 2)
   \<and> (\<exists>j < 5. failed_before (\<lambda>e. e = ''EBUSY'') (\<lambda>i. False) (\<lambda>i. if i < 2 then Inl ''EBUSY'' else Inr i) j
        \<and> (if j < 2 then Inl ''EBUSY'' else Inr j) = Inr (2::nat))"
proof (rule conjI)
  show run: "tryFSOperation (\<lambda>e. e = ''EBUSY'') (\<lambda>i. False) (\<lambda>i. if i < 2 then Inl ''EBUSY'' else Inr i) = Some (Inr 2)"
    by (simp add: tryFSOperation_def numeral_eq_Suc)
  show "\<exists>j < 5. failed_before (\<lambda>e. e = ''EBUSY'') (\<lambda>i. False) (\<lambda>i. if i < 2 then Inl ''EBUSY'' else Inr i) j
        \<and> (if j < 2 then Inl ''EBUSY'' else Inr j) = Inr (2::nat)"
    using tryFSOperation_spec [of "\<lambda>e. e = ''EBUSY''" "\<lambda>i. False" "\<lambda>i. if i < 2 then Inl ''EBUSY'' else Inr i"]
    unfolding run by simp
qed

section \<open>What a walk reports\<close>

definition watch_error :: "fs_env \<Rightarrow> string \<Rightarrow> string option" where
  "watch_error env path = add_loop (env_closed env path) (env_add env path) 0 5 None"

text \<open>The paths of a walk in the order of their visits, each with whether it is a directory.\<close>

fun visits :: "fs_env \<Rightarrow> string \<Rightarrow> fs_tree \<Rightarrow> (string \<times> bool) list"
  and entry_visits :: "fs_env \<Rightarrow> string \<Rightarrow> (string \<times> fs_tree) list \<Rightarrow> (string \<times> bool) list" where
  "visits env path t =
     (path, is_dir t) #
     (if is_dir t \<and> watch_error env path \<noteq> None then []
      else case t of FsDir entries \<Rightarrow> entry_visits env path entries | _ \<Rightarrow> [])"
| "entry_visits env path [] = []"
| "entry_visits env path ((name, t) # es) =
     (if skip_entry env path (name, t) then [] else visits env (filepath_Join path name) t) @ entry_visits env path es"

definition report :: "fs_env \<Rightarrow> string \<Rightarrow> (string \<times> bool) list \<Rightarrow> FileEvent list" where
  "report env root ps = map (\<lambda>(p, _). created env p) (filter (\<lambda>(p, _). p \<noteq> root) ps)"

lemma report_simps [simp]:
  "report env root [] = []" "report env root (ps @ qs) = report env root ps @ report env root qs"
  "report env root ((p, d) # ps) = (if p \<noteq> root then [created env p] else []) @ report env root ps"
  by (simp_all add: report_def)

definition dirs_of :: "(string \<times> bool) list \<Rightarrow> string set" where
  "dirs_of ps = {p. (p, True) \<in> set ps}"

lemma visit_path_eq:
  "fst (visit_path env root path d st) = (if d then watch_error env path else None)"
  "ws_synthesized (snd (visit_path env root path d st)) = ws_synthesized st @ report env root [(path, d)]"
  "set (ws_knownDirs (snd (visit_path env root path d st))) = set (ws_knownDirs st) \<union> dirs_of [(path, d)]"
  by (auto simp: visit_path_def watchDir_def watch_error_def dirs_of_def Let_def split: prod.splits)

lemma walk_error_simps [simp]:
  "ws_synthesized (walk_error e st) = ws_synthesized st" "ws_knownDirs (walk_error e st) = ws_knownDirs st"
  by (simp_all add: walk_error_def)

lemma walk_visits:
  "ws_synthesized (walkDir env root path t st) = ws_synthesized st @ report env root (visits env path t)
   \<and> set (ws_knownDirs (walkDir env root path t st)) = set (ws_knownDirs st) \<union> dirs_of (visits env path t)"
  "ws_synthesized (walk_entries env root path es st) = ws_synthesized st @ report env root (entry_visits env path es)
   \<and> set (ws_knownDirs (walk_entries env root path es st)) = set (ws_knownDirs st) \<union> dirs_of (entry_visits env path es)"
proof (induction env root path t st and env root path es st rule: walkDir_walk_entries.induct)
  case (1 env root path t st)
  obtain err st' where v: "visit_path env root path (is_dir t) st = (err, st')" by (cases "visit_path env root path (is_dir t) st")
  note eqs = visit_path_eq [of env root path "is_dir t" st, unfolded v fst_conv snd_conv]
  show ?case
  proof (cases err)
    case (Some e)
    then have "is_dir t" "watch_error env path \<noteq> None" using eqs(1) by (auto split: if_splits)
    then show ?thesis using v Some eqs by (simp add: dirs_of_def)
  next
    case None
    then have "\<not> (is_dir t \<and> watch_error env path \<noteq> None)" using eqs(1) by auto
    then show ?thesis
      using v None eqs 1(1) [OF v [unfolded None, symmetric] refl] by (cases t) (auto simp: dirs_of_def is_dir_def)
  qed
next
  case (2 env root path st)
  then show ?case by (simp add: dirs_of_def)
next
  case (3 env root path name t es st)
  then show ?case by (auto simp: dirs_of_def)
qed

text \<open>The parent of a path, a directory, is visited before it.\<close>

lemma visits_parent:
  "visits env path t = pre @ (p, d) # post \<Longrightarrow> pre \<noteq> [] \<Longrightarrow>
     \<exists>q name. (q, True) \<in> set pre \<and> p = filepath_Join q name"
  "entry_visits env path es = pre @ (p, d) # post \<Longrightarrow>
     (\<exists>name. p = filepath_Join path name) \<or> (\<exists>q name. (q, True) \<in> set pre \<and> p = filepath_Join q name)"
proof (induction env path t and env path es arbitrary: pre p d post and pre p d post rule: visits_entry_visits.induct)
  case (1 env path t)
  obtain pre' where pre: "pre = (path, is_dir t) # pre'" using 1(2,3) by (cases pre) auto
  then obtain entries where t: "t = FsDir entries" "entry_visits env path entries = pre' @ (p, d) # post"
    "\<not> (is_dir t \<and> watch_error env path \<noteq> None)"
    using 1(2) by (cases t) (auto split: if_splits)
  have "(path, True) \<in> set pre" using pre t(1) by (simp add: is_dir_def)
  then show ?case using 1(1) [OF t(3,1,2)] pre by (metis list.set_intros(2))
next
  case (3 env path name t es)
  let ?v = "if skip_entry env path (name, t) then [] else visits env (filepath_Join path name) t"
  have sp: "?v @ entry_visits env path es = pre @ (p, d) # post" using 3(3) by simp
  show ?case
  proof (cases "length pre < length ?v")
    case True
    then obtain post' where v: "?v = pre @ (p, d) # post'"
      using sp by (auto simp: append_eq_append_conv2 append_eq_Cons_conv)
    then have ns: "\<not> skip_entry env path (name, t)" by (auto split: if_splits)
    show ?thesis
    proof (cases "pre = []")
      case True
      then show ?thesis using v ns by auto
    next
      case False
      then show ?thesis using 3(1) [OF ns _ False] v ns by auto
    qed
  next
    case False
    then obtain pre' where "pre = ?v @ pre'" "entry_visits env path es = pre' @ (p, d) # post"
      using sp by (auto simp: append_eq_append_conv2 append_eq_Cons_conv)
    then show ?thesis using 3(2) [of pre' p d post] by (metis UnCI set_append)
  qed
qed simp

section \<open>What an event does\<close>

lemma convertEvent_dir: "convertEvent env known ev = (Some e, True) \<Longrightarrow> fe_Type e \<noteq> Changed"
  by (auto simp: convertEvent_def change_of_def split: option.splits if_splits fs_stat.splits)

lemma walkDirWithRetry_visits:
  obtains ps where "ws_synthesized (walkDirWithRetry env root st) = ws_synthesized st @ report env root ps"
    "set (ws_knownDirs (walkDirWithRetry env root st)) = set (ws_knownDirs st) \<union> dirs_of ps"
    "ps = (case env_tree env root of Ok t \<Rightarrow> visits env root t | _ \<Rightarrow> [])"
proof (cases "env_tree env root")
  case (Ok t)
  then show ?thesis using walk_visits(1) [of env root root t st] that by (simp add: walkDirWithRetry_def)
next
  case (Err e)
  then show ?thesis using that [of "[]"] by (cases e) (simp_all add: walkDirWithRetry_def dirs_of_def)
qed (use that [of "[]"] in \<open>simp add: walkDirWithRetry_def dirs_of_def\<close>)

lemma append_events_eq:
  "append_events out e syn = out @ (if out \<noteq> [] \<and> last out = e then [] else [e]) @ syn"
  by (simp add: append_events_def)

text \<open>The paths that a new directory at \<open>path\<close> makes known.\<close>

definition new_paths :: "fs_env \<Rightarrow> string \<Rightarrow> FileEvent \<Rightarrow> bool \<Rightarrow> (string \<times> bool) list" where
  "new_paths env path e isDir =
     (if isDir \<and> fe_Type e = Created then (case env_tree env path of Ok t \<Rightarrow> visits env path t | _ \<Rightarrow> []) else [])"

lemma process_event_eq:
  fixes ev env
  defines "path \<equiv> filepath_Clean (re_Name ev)"
  assumes c: "convertEvent env known (ev\<lparr>re_Name := path\<rparr>) = (Some e, isDir)"
  obtains known' errs where
    "process_event env ev (out, known) =
       Ok ((out @ (if out \<noteq> [] \<and> last out = e then [] else [e]) @ report env path (new_paths env path e isDir), known'), errs)"
    "set known' = (set known - (if isDir \<and> fe_Type e = Deleted then {path} else {})) \<union> dirs_of (new_paths env path e isDir)"
proof (cases isDir)
  case False
  then show ?thesis using that c unfolding path_def
    by (simp add: process_event_def Let_def append_events_eq new_paths_def dirs_of_def)
next
  case True
  have nc: "fe_Type e \<noteq> Changed" by (rule convertEvent_dir [OF c [unfolded eqTrueI [OF True]]])
  obtain ps where w: "ws_synthesized (walkDirWithRetry env path \<lparr>ws_synthesized = [], ws_knownDirs = known, ws_errors = []\<rparr>) = report env path ps"
    "set (ws_knownDirs (walkDirWithRetry env path \<lparr>ws_synthesized = [], ws_knownDirs = known, ws_errors = []\<rparr>)) = set known \<union> dirs_of ps"
    "ps = (case env_tree env path of Ok t \<Rightarrow> visits env path t | _ \<Rightarrow> [])"
    using walkDirWithRetry_visits [of env path "\<lparr>ws_synthesized = [], ws_knownDirs = known, ws_errors = []\<rparr>"] by auto
  show ?thesis
  proof (cases "fe_Type e")
    case Created
    then have "new_paths env path e isDir = ps" using True w(3) by (simp add: new_paths_def)
    then show ?thesis
      using that True Created c w(1,2) unfolding path_def
      by (simp add: process_event_def Let_def append_events_eq)
  next
    case Deleted
    then show ?thesis using that True c unfolding path_def
      by (simp add: process_event_def Let_def append_events_eq new_paths_def dirs_of_def)
  qed (use nc in simp)
qed

lemma process_event_skip:
  "convertEvent env known (ev\<lparr>re_Name := filepath_Clean (re_Name ev)\<rparr>) = (None, d) \<Longrightarrow>
     process_event env ev (out, known) = Ok ((out, known), [])"
  by (simp add: process_event_def Let_def)

text \<open>An event only appends to the batch.\<close>

lemma process_event_appends:
  obtains new known' errs where "process_event env ev (out, known) = Ok ((out @ new, known'), errs)"
proof (cases "fst (convertEvent env known (ev\<lparr>re_Name := filepath_Clean (re_Name ev)\<rparr>))")
  case None
  then show ?thesis using that [of "[]"] process_event_skip by (metis append_Nil2 prod.collapse)
next
  case (Some e)
  then obtain d where "convertEvent env known (ev\<lparr>re_Name := filepath_Clean (re_Name ev)\<rparr>) = (Some e, d)"
    by (metis prod.collapse)
  then show ?thesis using that by (rule process_event_eq)
qed

text \<open>Claim C17: an event that is not skipped never makes the watcher panic.  It appends its file event
  unless that repeats the last one of the batch, and for a new directory one creation for every file
  and directory below it that is not skipped, each after its parent directory.  All these
  directories are known afterwards, a deleted directory is not.\<close>

theorem process_event_spec:
  fixes ev env
  defines "path \<equiv> filepath_Clean (re_Name ev)"
  assumes c: "convertEvent env known (ev\<lparr>re_Name := path\<rparr>) = (Some e, isDir)"
  shows "\<exists>known' errs. let ps = new_paths env path e isDir in
    process_event env ev (out, known) =
       Ok ((out @ (if out \<noteq> [] \<and> last out = e then [] else [e]) @ report env path ps, known'), errs)
    \<and> set known' = (set known - (if isDir \<and> fe_Type e = Deleted then {path} else {})) \<union> dirs_of ps
    \<and> (\<forall>pre p d post. ps = pre @ (p, d) # post \<longrightarrow> pre = [] \<and> p = path
         \<or> (\<exists>q name. (q, True) \<in> set pre \<and> p = filepath_Join q name))"
proof -
  let ?ps = "new_paths env path e isDir"
  have parents: "pre = [] \<and> p = path \<or> (\<exists>q name. (q, True) \<in> set pre \<and> p = filepath_Join q name)"
    if ps: "?ps = pre @ (p, d) # post" for pre p d post
  proof -
    obtain t where t: "visits env path t = pre @ (p, d) # post"
      using ps by (cases "env_tree env path") (auto simp: new_paths_def split: if_splits)
    show ?thesis
    proof (cases "pre = []")
      case True
      then show ?thesis using t by simp
    next
      case False
      then show ?thesis using visits_parent(1) [OF t] by blast
    qed
  qed
  obtain known' errs where
    "process_event env ev (out, known) =
       Ok ((out @ (if out \<noteq> [] \<and> last out = e then [] else [e]) @ report env path ?ps, known'), errs)"
    "set known' = (set known - (if isDir \<and> fe_Type e = Deleted then {path} else {})) \<union> dirs_of ?ps"
    using process_event_eq [OF c [unfolded path_def]] unfolding path_def by metis
  then show ?thesis unfolding Let_def using parents by blast
qed

text \<open>Directory \<open>/w/a\<close> appears with a file, a skipped file and a subdirectory.\<close>

definition example_env :: fs_env where
  "example_env = \<lparr>env_stat = (\<lambda>_. Stat True),
     env_tree = (\<lambda>_. Ok (FsDir [(''b'', FsDir [(''c.go'', FsFile)]), (''.git'', FsDir []), (''x.txt'', FsFile), (''y.mod'', FsFile)])),
     env_skipDirFunc = None, env_add = (\<lambda>_ i. if i = 0 then Some ''busy'' else None), env_closed = (\<lambda>_ _. False),
     env_uri = (\<lambda>p. ''file://'' @ p)\<rparr>"

theorem process_event_spec_witness:
  "convertEvent example_env [] \<lparr>re_Name = ''/w/a'', re_Op = [Op_Create]\<rparr> = (Some (created example_env ''/w/a''), True)
   \<and> (\<exists>known'. process_event example_env \<lparr>re_Name = ''/w//a/'', re_Op = [Op_Create]\<rparr> ([], []) =
        Ok ((map (created example_env) [''/w/a'', ''/w/a/b'', ''/w/a/b/c.go'', ''/w/a/y.mod''], known'), [])
      \<and> set known' = {''/w/a'', ''/w/a/b''})"
proof
  let ?ev = "\<lparr>re_Name = ''/w//a/'', re_Op = [Op_Create]\<rparr>"
  show conv: "convertEvent example_env [] \<lparr>re_Name = ''/w/a'', re_Op = [Op_Create]\<rparr> = (Some (created example_env ''/w/a''), True)"
    by code_simp
  have path: "filepath_Clean (re_Name ?ev) = ''/w/a''" by code_simp
  then have "convertEvent example_env [] (?ev\<lparr>re_Name := filepath_Clean (re_Name ?ev)\<rparr>) = (Some (created example_env ''/w/a''), True)"
    using conv by simp
  from process_event_spec [OF this, of "[]"]
  obtain known' errs where r: "process_event example_env ?ev ([], []) = Ok (([created example_env ''/w/a'']
        @ report example_env ''/w/a'' (new_paths example_env ''/w/a'' (created example_env ''/w/a'') True), known'), errs)"
    "set known' = dirs_of (new_paths example_env ''/w/a'' (created example_env ''/w/a'') True)"
    unfolding path Let_def by (auto simp: created_def)
  have n: "new_paths example_env ''/w/a'' (created example_env ''/w/a'') True =
      [(''/w/a'', True), (''/w/a/b'', True), (''/w/a/b/c.go'', False), (''/w/a/y.mod'', False)]" by code_simp
  have "map_option snd (case process_event example_env ?ev ([], []) of Ok r \<Rightarrow> Some r | _ \<Rightarrow> None) = Some []"
    by code_simp
  then have "errs = []" using r(1) by simp
  then show "\<exists>known'. process_event example_env ?ev ([], []) =
        Ok ((map (created example_env) [''/w/a'', ''/w/a/b'', ''/w/a/b/c.go'', ''/w/a/y.mod''], known'), [])
      \<and> set known' = {''/w/a'', ''/w/a/b''}"
    using r unfolding n by (auto simp: report_def dirs_of_def)
qed

section \<open>What is watched\<close>

text \<open>The directories of a tree that are not skipped: those \<open>WatchDir\<close> should watch.\<close>

fun wanted_dirs :: "fs_env \<Rightarrow> string \<Rightarrow> string \<Rightarrow> fs_tree \<Rightarrow> string set"
  and wanted_children :: "fs_env \<Rightarrow> string \<Rightarrow> (string \<times> fs_tree) list \<Rightarrow> string set" where
  "wanted_dirs env path name t =
     (if \<not> is_dir t \<or> skipDir name \<or> skipped_dir env path then {}
      else insert path (case t of FsDir entries \<Rightarrow> wanted_children env path entries | _ \<Rightarrow> {}))"
| "wanted_children env path [] = {}"
| "wanted_children env path ((name, t) # es) =
     wanted_dirs env (filepath_Join path name) name t \<union> wanted_children env path es"

lemma watchDir_eq: "watchDir env path known = (watch_error env path, List.insert path known)"
  by (simp add: watchDir_def watch_error_def)

lemma watch_tree_spec:
  "\<exists>err known'. watch_tree env path name t known = (err, known')
    \<and> set known \<subseteq> set known' \<and> set known' \<subseteq> set known \<union> wanted_dirs env path name t
    \<and> (err = None \<longrightarrow> set known' = set known \<union> wanted_dirs env path name t
         \<and> (\<forall>d \<in> wanted_dirs env path name t. watch_error env d = None))
    \<and> (err \<noteq> None \<longrightarrow> (\<exists>d \<in> wanted_dirs env path name t. watch_error env d = err))"
  "\<exists>err known'. watch_children env path es known = (err, known')
    \<and> set known \<subseteq> set known' \<and> set known' \<subseteq> set known \<union> wanted_children env path es
    \<and> (err = None \<longrightarrow> set known' = set known \<union> wanted_children env path es
         \<and> (\<forall>d \<in> wanted_children env path es. watch_error env d = None))
    \<and> (err \<noteq> None \<longrightarrow> (\<exists>d \<in> wanted_children env path es. watch_error env d = err))"
proof (induction env path name t known and env path es known rule: watch_tree_watch_children.induct)
  case (1 env path name t known)
  show ?case
  proof (cases "\<not> is_dir t \<or> skipDir name \<or> skipped_dir env path")
    case True
    then show ?thesis by auto
  next
    case False
    then have f: "\<not> \<not> is_dir t" "\<not> skipDir name" "\<not> skipped_dir env path" by simp_all
    show ?thesis
    proof (cases "watch_error env path")
      case (Some e)
      then show ?thesis using False by (auto simp: watchDir_eq)
    next
      case None
      show ?thesis
      proof (cases t)
        case (FsDir entries)
        have ih: "\<exists>err known'. watch_children env path entries (List.insert path known) = (err, known')
            \<and> set (List.insert path known) \<subseteq> set known' \<and> set known' \<subseteq> set (List.insert path known) \<union> wanted_children env path entries
            \<and> (err = None \<longrightarrow> set known' = set (List.insert path known) \<union> wanted_children env path entries
                 \<and> (\<forall>d \<in> wanted_children env path entries. watch_error env d = None))
            \<and> (err \<noteq> None \<longrightarrow> (\<exists>d \<in> wanted_children env path entries. watch_error env d = err))"
          using 1(1) [OF f, of None "List.insert path known"] None FsDir by (simp add: watchDir_eq)
        have w: "wanted_dirs env path name t = insert path (wanted_children env path entries)" using f FsDir by simp
        have e: "watch_tree env path name t known = watch_children env path entries (List.insert path known)"
          using f FsDir None by (simp add: watchDir_eq)
        show ?thesis unfolding w e using ih None by auto
      qed (use f None in \<open>auto simp: watchDir_eq\<close>)
    qed
  qed
next
  case (2 env path known)
  then show ?case by simp
next
  case (3 env path name t es known)
  obtain err known1 where t: "watch_tree env (filepath_Join path name) name t known = (err, known1)"
    "set known \<subseteq> set known1" "set known1 \<subseteq> set known \<union> wanted_dirs env (filepath_Join path name) name t"
    "err = None \<longrightarrow> set known1 = set known \<union> wanted_dirs env (filepath_Join path name) name t
         \<and> (\<forall>d \<in> wanted_dirs env (filepath_Join path name) name t. watch_error env d = None)"
    "err \<noteq> None \<longrightarrow> (\<exists>d \<in> wanted_dirs env (filepath_Join path name) name t. watch_error env d = err)"
    using 3(1) by blast
  show ?case
  proof (cases err)
    case None
    obtain err' known2 where es: "watch_children env path es known1 = (err', known2)"
      "set known1 \<subseteq> set known2" "set known2 \<subseteq> set known1 \<union> wanted_children env path es"
      "err' = None \<longrightarrow> set known2 = set known1 \<union> wanted_children env path es
         \<and> (\<forall>d \<in> wanted_children env path es. watch_error env d = None)"
      "err' \<noteq> None \<longrightarrow> (\<exists>d \<in> wanted_children env path es. watch_error env d = err')"
      using 3(2) [OF t(1) [symmetric] None] by (elim exE conjE) (rule that)
    have "watch_children env path ((name, t) # es) known = (err', known2)"
      using t(1) es(1) None by (simp del: watch_tree.simps)
    then show ?thesis using t(2-5) es(2-5) None
      by (intro exI [of _ err'] exI [of _ known2]) (auto simp del: wanted_dirs.simps)
  next
    case (Some e)
    have "watch_children env path ((name, t) # es) known = (Some e, known1)"
      using t(1) Some by (simp del: watch_tree.simps)
    then show ?thesis using t(2-5) Some
      by (intro exI [of _ "Some e"] exI [of _ known1]) (auto simp del: wanted_dirs.simps)
  qed
qed

text \<open>\<open>WatchDir\<close> panics exactly when the root cannot be examined.  Otherwise it succeeds exactly
  when every directory of the tree that is not skipped can be watched, and then these are the
  directories it adds to the known ones; a root whose own name is skipped is not watched at all.\<close>

theorem WatchDir_spec:
  fixes env root known
  defines "path \<equiv> filepath_Clean root"
  shows "((\<exists>known'. WatchDir env root known = (Panic, known')) \<longleftrightarrow> (\<forall>t. env_tree env path \<noteq> Ok t))
    \<and> (\<forall>t. env_tree env path = Ok t \<longrightarrow>
        (let dirs = wanted_dirs env path (filepath_Base path) t in
         (\<exists>known'. WatchDir env root known = (Ok (), known') \<and> set known' = set known \<union> dirs) \<longleftrightarrow>
           (\<forall>d \<in> dirs. watch_error env d = None))
        \<and> (skipDir (filepath_Base path) \<longrightarrow> WatchDir env root known = (Ok (), known)))"
proof (intro conjI allI impI)
  show "(\<exists>known'. WatchDir env root known = (Panic, known')) \<longleftrightarrow> (\<forall>t. env_tree env path \<noteq> Ok t)"
    by (cases "env_tree env path") (auto simp: WatchDir_def path_def Let_def split: prod.splits option.splits)
  show "let dirs = wanted_dirs env path (filepath_Base path) t in
      (\<exists>known'. WatchDir env root known = (Ok (), known') \<and> set known' = set known \<union> dirs) \<longleftrightarrow>
        (\<forall>d \<in> dirs. watch_error env d = None)" if t: "env_tree env path = Ok t" for t
  proof -
    obtain err known' where w: "watch_tree env path (filepath_Base path) t known = (err, known')"
      "err = None \<longrightarrow> set known' = set known \<union> wanted_dirs env path (filepath_Base path) t
         \<and> (\<forall>d \<in> wanted_dirs env path (filepath_Base path) t. watch_error env d = None)"
      "err \<noteq> None \<longrightarrow> (\<exists>d \<in> wanted_dirs env path (filepath_Base path) t. watch_error env d = err)"
      using watch_tree_spec(1) [of env path "filepath_Base path" t known] by blast
    have "WatchDir env root known = (case err of None \<Rightarrow> (Ok (), known') | Some e \<Rightarrow> (Err e, known'))"
      using t w(1) by (simp add: WatchDir_def path_def Let_def)
    then show ?thesis using w(2,3) unfolding Let_def by (cases err) (auto simp del: wanted_dirs.simps)
  qed
  show "WatchDir env root known = (Ok (), known)" if "env_tree env path = Ok t" "skipDir (filepath_Base path)" for t
    using that by (simp add: WatchDir_def path_def Let_def)
qed

theorem WatchDir_spec_witness:
  "(\<exists>known'. WatchDir example_env ''/w/a'' [] = (Ok (), known') \<and> set known' = {''/w/a'', ''/w/a/b''})
   \<and> WatchDir example_env ''.'' [] = (Ok (), [])
   \<and> (\<exists>known'. WatchDir (example_env\<lparr>env_tree := \<lambda>_. Err (Some ''no such file'')\<rparr>) ''/w/z'' [] = (Panic, known'))"
proof (intro conjI)
  let ?t = "FsDir [(''b'', FsDir [(''c.go'', FsFile)]), (''.git'', FsDir []), (''x.txt'', FsFile), (''y.mod'', FsFile)]"
  have p: "filepath_Clean ''/w/a'' = ''/w/a''" "filepath_Base ''/w/a'' = ''a''" "filepath_Clean ''.'' = ''.''"
    "filepath_Base ''.'' = ''.''" by code_simp+
  have t: "env_tree example_env q = Ok ?t" for q by (simp add: example_env_def)
  have d: "wanted_dirs example_env ''/w/a'' ''a'' ?t = {''/w/a'', ''/w/a/b''}" by code_simp
  have "\<forall>d \<in> {''/w/a'', ''/w/a/b''}. watch_error example_env d = None" by code_simp
  then show "\<exists>known'. WatchDir example_env ''/w/a'' [] = (Ok (), known') \<and> set known' = {''/w/a'', ''/w/a/b''}"
    using WatchDir_spec [of example_env "''/w/a''" "[]", unfolded p Let_def] t d by auto
  have "skipDir ''.''" by code_simp
  then show "WatchDir example_env ''.'' [] = (Ok (), [])"
    using WatchDir_spec [of example_env "''.''" "[]", unfolded p] t by simp
  show "\<exists>known'. WatchDir (example_env\<lparr>env_tree := \<lambda>_. Err (Some ''no such file'')\<rparr>) ''/w/z'' [] = (Panic, known')"
    using WatchDir_spec [of "example_env\<lparr>env_tree := \<lambda>_. Err (Some ''no such file'')\<rparr>" "''/w/z''" "[]"] by simp
qed

end
