(* ===== verification/Watch_Pipeline.thy ===== *)
theory Watch_Pipeline
  imports File_Watcher
begin

text \<open>
  The goroutines between \<open>fsnotify\<close> and the cache of gopls: \<open>run\<close> and \<open>process\<close> of
  \<open>gopls/internal/filewatcher/filewatcher.go\<close> and the notifier of \<open>gopls/mcpbridge/watcher/watcher.go\<close>,
  with the server of \<open>gopls/mcpbridge/pkg/lsp_wrapper.go\<close> at the end.  A state holds the shared variables,
  the channels of capacity one, and the place where each goroutine stands; a step is one atomic
  action of one goroutine.  The lock of the watcher makes the actions on the queues atomic; only
  \<open>process\<close> touches the known directories, so that one round of its loop takes effect when it
  appends to the batch.  A timer may fire whenever \<open>run\<close> waits; firing with an empty batch changes
  nothing and is left out.  The fields \<open>p_received\<close>, \<open>p_processed\<close>, \<open>p_appended\<close> and \<open>p_delivered\<close> record
  the history.  The error path of \<open>New\<close>, after which its goroutines go on, and the time during which
  \<open>WatchDir\<close>, called once by \<open>New\<close>, is still adding directories while events of the first ones are already
  processed are not modelled.
\<close>

section \<open>The server\<close>

datatype file_action = Act_Create | Act_Change | Act_Delete

record modification =
  m_URI :: string
  m_Action :: file_action
  m_OnDisk :: bool

text \<open>The type of an event is one of the three constants here.\<close>

fun changeTypeToFileAction :: "change_type \<Rightarrow> file_action" where
  "changeTypeToFileAction Created = Act_Create"
| "changeTypeToFileAction Changed = Act_Change"
| "changeTypeToFileAction Deleted = Act_Delete"

definition fileEventsToModifications :: "FileEvent list \<Rightarrow> modification list" where
  "fileEventsToModifications events =
     map (\<lambda>e. \<lparr>m_URI = fe_URI e, m_Action = changeTypeToFileAction (fe_Type e), m_OnDisk = True\<rparr>) events"

text \<open>\<open>DidModifyFiles\<close>, a parameter, is the method of the session: its error and its new state.\<close>

definition DidChangeWatchedFiles :: "(modification list \<Rightarrow> 's \<Rightarrow> string option \<times> 's) \<Rightarrow> FileEvent list \<Rightarrow> 's \<Rightarrow> string option \<times> 's" where
  "DidChangeWatchedFiles DidModifyFiles changes s =
     (if changes = [] then (None, s)
      else case DidModifyFiles (fileEventsToModifications changes) s of
        (None, s') \<Rightarrow> (None, s')
      | (Some err, s') \<Rightarrow> (Some (''failed to process file changes: '' @ err), s'))"

text \<open>\<open>notifyServer\<close> logs the error and goes on; \<open>notifyAll\<close> is the session after a series of batches.\<close>

definition notifyServer :: "(modification list \<Rightarrow> 's \<Rightarrow> string option \<times> 's) \<Rightarrow> FileEvent list \<Rightarrow> 's \<Rightarrow> 's" where
  "notifyServer DidModifyFiles events s = (case DidChangeWatchedFiles DidModifyFiles events s of (err, s') \<Rightarrow> s')"

definition notifyAll :: "(modification list \<Rightarrow> 's \<Rightarrow> string option \<times> 's) \<Rightarrow> FileEvent list list \<Rightarrow> 's \<Rightarrow> 's" where
  "notifyAll DidModifyFiles batches s = foldl (\<lambda>st b. notifyServer DidModifyFiles b st) s batches"

lemma notifyServer_eq:
  "events \<noteq> [] \<Longrightarrow> notifyServer DidModifyFiles events s = snd (DidModifyFiles (fileEventsToModifications events) s)"
  by (simp add: notifyServer_def DidChangeWatchedFiles_def split: prod.splits option.splits)

lemma notifyAll_eq:
  "[] \<notin> set batches \<Longrightarrow>
     notifyAll DidModifyFiles batches s = foldl (\<lambda>st b. snd (DidModifyFiles (fileEventsToModifications b) st)) s batches"
  unfolding notifyAll_def by (induction batches arbitrary: s) (simp_all add: notifyServer_eq not_sym)

lemma concat_modifications:
  "concat (map fileEventsToModifications batches) = fileEventsToModifications (concat batches)"
  by (induction batches) (simp_all add: fileEventsToModifications_def)

section \<open>The goroutines\<close>

datatype run_pc = RunSelect | RunSignal | RunFlushed "FileEvent list" | RunQueued | RunExited
datatype process_pc = ProcSelect | ProcTook | ProcWork "raw_event list" | ProcExited
datatype notifier_pc = NotSelect | NotTook | NotNotify "FileEvent list" | NotExited

record pipeline =
  p_in :: "raw_event list"
  p_ready :: bool
  p_out :: "FileEvent list"
  p_knownDirs :: "string list"
  p_run :: run_pc
  p_process :: process_pc
  p_stop :: bool
  p_queue :: "FileEvent list"
  p_nonempty :: bool
  p_notifier :: notifier_pc
  p_stopCh :: bool
  p_received :: "raw_event list"
  p_processed :: "raw_event list"
  p_appended :: "FileEvent list"
  p_delivered :: "FileEvent list list"

definition pipeline_start :: "string list \<Rightarrow> pipeline" where
  "pipeline_start known = \<lparr>p_in = [], p_ready = False, p_out = [], p_knownDirs = known, p_run = RunSelect,
     p_process = ProcSelect, p_stop = False, p_queue = [], p_nonempty = False, p_notifier = NotSelect,
     p_stopCh = False, p_received = [], p_processed = [], p_appended = [], p_delivered = []\<rparr>"

text \<open>The steps that need nothing from outside.  Each event may find another file system \<open>env\<close>.\<close>

inductive internal :: "pipeline \<Rightarrow> pipeline \<Rightarrow> bool" where
  signal: "p_run s = RunSignal \<Longrightarrow> internal s (s\<lparr>p_ready := True, p_run := RunSelect\<rparr>)"
| flush: "p_run s = RunSelect \<Longrightarrow> p_out s \<noteq> [] \<Longrightarrow> internal s (s\<lparr>p_out := [], p_run := RunFlushed (p_out s)\<rparr>)"
| enqueue: "p_run s = RunFlushed events \<Longrightarrow> internal s (s\<lparr>p_queue := p_queue s @ events, p_run := RunQueued\<rparr>)"
| wake: "p_run s = RunQueued \<Longrightarrow> internal s (s\<lparr>p_nonempty := True, p_run := RunSelect\<rparr>)"
| take_ready: "p_process s = ProcSelect \<Longrightarrow> p_ready s \<Longrightarrow> internal s (s\<lparr>p_ready := False, p_process := ProcTook\<rparr>)"
| grab: "p_process s = ProcTook \<Longrightarrow> internal s (s\<lparr>p_in := [], p_process := ProcWork (p_in s)\<rparr>)"
| process: "p_process s = ProcWork (ev # evs) \<Longrightarrow>
    process_event env ev (p_out s, p_knownDirs s) = Ok ((out', known'), errs) \<Longrightarrow>
    internal s (s\<lparr>p_out := out', p_knownDirs := known', p_process := ProcWork evs,
      p_processed := p_processed s @ [ev], p_appended := p_appended s @ drop (length (p_out s)) out'\<rparr>)"
| all_processed: "p_process s = ProcWork [] \<Longrightarrow> internal s (s\<lparr>p_process := ProcSelect\<rparr>)"
| take_nonempty: "p_notifier s = NotSelect \<Longrightarrow> p_nonempty s \<Longrightarrow> internal s (s\<lparr>p_nonempty := False, p_notifier := NotTook\<rparr>)"
| swap: "p_notifier s = NotTook \<Longrightarrow>
    internal s (s\<lparr>p_queue := [], p_notifier := (if p_queue s = [] then NotSelect else NotNotify (p_queue s))\<rparr>)"
| notify: "p_notifier s = NotNotify events \<Longrightarrow>
    internal s (s\<lparr>p_notifier := NotSelect, p_delivered := p_delivered s @ [events]\<rparr>)"

text \<open>The steps from outside: an event of \<open>fsnotify\<close>, \<open>Close\<close> of the outer watcher, and what follows it.\<close>

inductive external :: "pipeline \<Rightarrow> pipeline \<Rightarrow> bool" where
  receive: "p_run s = RunSelect \<Longrightarrow>
    external s (s\<lparr>p_in := p_in s @ [ev], p_received := p_received s @ [ev], p_run := RunSignal\<rparr>)"
| close_notifier: "external s (s\<lparr>p_stopCh := True\<rparr>)"
| close_watcher: "p_stopCh s \<Longrightarrow> external s (s\<lparr>p_stop := True\<rparr>)"
| exit_run: "p_run s = RunSelect \<Longrightarrow> p_stop s \<Longrightarrow> external s (s\<lparr>p_run := RunExited\<rparr>)"
| exit_process: "p_process s = ProcSelect \<or> p_process s = ProcWork (ev # evs) \<Longrightarrow> p_stop s \<Longrightarrow>
    external s (s\<lparr>p_process := ProcExited\<rparr>)"
| exit_notifier: "p_notifier s = NotSelect \<Longrightarrow> p_stopCh s \<Longrightarrow> external s (s\<lparr>p_notifier := NotExited\<rparr>)"

inductive reachable :: "string list \<Rightarrow> pipeline \<Rightarrow> bool" for known where
  start: "reachable known (pipeline_start known)"
| internal_step: "reachable known s \<Longrightarrow> internal s s' \<Longrightarrow> reachable known s'"
| external_step: "reachable known s \<Longrightarrow> external s s' \<Longrightarrow> reachable known s'"

section \<open>Nothing is lost\<close>

fun working :: "process_pc \<Rightarrow> raw_event list" where
  "working (ProcWork evs) = evs"
| "working _ = []"

fun flushed :: "run_pc \<Rightarrow> FileEvent list" where
  "flushed (RunFlushed es) = es"
| "flushed _ = []"

fun notifying :: "notifier_pc \<Rightarrow> FileEvent list" where
  "notifying (NotNotify es) = es"
| "notifying _ = []"

definition pipeline_inv :: "pipeline \<Rightarrow> bool" where
  "pipeline_inv s \<longleftrightarrow>
     (\<exists>rest. p_received s = p_processed s @ rest)
     \<and> (p_process s \<noteq> ProcExited \<longrightarrow> p_received s = p_processed s @ working (p_process s) @ p_in s)
     \<and> p_appended s = concat (p_delivered s) @ notifying (p_notifier s) @ p_queue s @ flushed (p_run s) @ p_out s
     \<and> [] \<notin> set (p_delivered s) \<and> p_notifier s \<noteq> NotNotify []
     \<and> (p_in s \<noteq> [] \<longrightarrow> p_ready s \<or> p_run s = RunSignal \<or> p_process s = ProcTook \<or> p_process s = ProcExited)
     \<and> (p_queue s \<noteq> [] \<longrightarrow> p_nonempty s \<or> p_run s = RunQueued \<or> p_notifier s = NotTook \<or> p_notifier s = NotExited)
     \<and> (p_stop s \<longrightarrow> p_stopCh s)
     \<and> (p_run s = RunExited \<or> p_process s = ProcExited \<longrightarrow> p_stop s) \<and> (p_notifier s = NotExited \<longrightarrow> p_stopCh s)"

lemma pipeline_inv_start: "pipeline_inv (pipeline_start known)"
  by (simp add: pipeline_inv_def pipeline_start_def)

lemma pipeline_inv_internal:
  assumes "pipeline_inv s" "internal s s'"
  shows "pipeline_inv s'"
  using assms(2,1)
proof (cases rule: internal.cases)
  case (process ev evs env out' known' errs)
  obtain new where "out' = p_out s @ new"
    using process_event_appends [of env ev "p_out s" "p_knownDirs s"] process(3) by (metis (no_types) Pair_inject outcome.inject(1))
  then show ?thesis using assms(1) process by (auto simp: pipeline_inv_def)
qed (use assms(1) in \<open>auto simp: pipeline_inv_def split: if_splits\<close>)

lemma pipeline_inv_external:
  assumes "pipeline_inv s" "external s s'"
  shows "pipeline_inv s'"
  using assms(2)
proof (cases rule: external.cases)
  case (receive ev)
  then show ?thesis using assms(1)
    by (cases "p_process s") (simp_all add: pipeline_inv_def, metis append_assoc)
next
  case close_notifier
  then show ?thesis using assms(1) by (simp add: pipeline_inv_def)
next
  case close_watcher
  then show ?thesis using assms(1) by (simp add: pipeline_inv_def)
next
  case exit_run
  then show ?thesis using assms(1) by (simp add: pipeline_inv_def)
next
  case (exit_process ev evs)
  then show ?thesis using assms(1) by (simp add: pipeline_inv_def)
next
  case exit_notifier
  then show ?thesis using assms(1) by (simp add: pipeline_inv_def)
qed

lemma reachable_inv: "reachable known s \<Longrightarrow> pipeline_inv s"
  by (induction rule: reachable.induct) (blast intro: pipeline_inv_start pipeline_inv_internal pipeline_inv_external)+

section \<open>The pipeline empties\<close>

inductive_cases internal_cases: "internal s s'"
inductive_cases external_cases: "external s s'"

text \<open>What is left to do: for the raw events, then for the events of files.\<close>

fun process_work :: "process_pc \<Rightarrow> nat" where
  "process_work ProcTook = 2"
| "process_work (ProcWork evs) = Suc (length evs)"
| "process_work _ = 0"

fun run_work :: "run_pc \<Rightarrow> nat" where
  "run_work (RunFlushed es) = 6"
| "run_work RunQueued = 5"
| "run_work _ = 0"

fun notifier_work :: "notifier_pc \<Rightarrow> nat" where
  "notifier_work NotTook = 3"
| "notifier_work (NotNotify es) = 2"
| "notifier_work _ = 0"

definition raw_work :: "pipeline \<Rightarrow> nat" where
  "raw_work s = (if p_run s = RunSignal then 4 else 0) + (if p_ready s then 3 else 0) + process_work (p_process s) + length (p_in s)"

definition file_work :: "pipeline \<Rightarrow> nat" where
  "file_work s = (if p_out s \<noteq> [] then 7 else 0) + run_work (p_run s) + (if p_nonempty s then 4 else 0)
     + notifier_work (p_notifier s)"

definition work_order :: "(pipeline \<times> pipeline) set" where
  "work_order = measures [raw_work, file_work]"

lemma internal_decreases: "internal s s' \<Longrightarrow> (s', s) \<in> work_order"
  by (erule internal_cases) (simp_all add: work_order_def raw_work_def file_work_def)

lemma wf_internal: "wf {(s', s). internal s s'}"
  by (rule wf_subset [of work_order]) (simp add: work_order_def, use internal_decreases in blast)

lemma internal_runs_end:
  obtains s' where "internal\<^sup>*\<^sup>* s s'" "\<nexists>s''. internal s' s''"
  using wf_internal
proof (induction s arbitrary: thesis rule: wf_induct_rule)
  case (less s)
  show ?case
  proof (cases "\<exists>t. internal s t")
    case True
    then obtain t where t: "internal s t" by blast
    obtain s' where "internal\<^sup>*\<^sup>* t s'" "\<nexists>s''. internal s' s''" using less.IH [of t] t by blast
    then show ?thesis using less.prems t by (meson converse_rtranclp_into_rtranclp)
  qed (use less.prems in blast)
qed

text \<open>A step from within leaves what was received, and does not stop anything.\<close>

lemma internal_frame:
  "internal s s' \<Longrightarrow> p_received s' = p_received s \<and> p_stopCh s' = p_stopCh s \<and> p_stop s' = p_stop s"
  by (erule internal_cases) simp_all

lemma internal_run_frame:
  "internal\<^sup>*\<^sup>* s s' \<Longrightarrow> p_received s' = p_received s \<and> p_stopCh s' = p_stopCh s \<and> p_stop s' = p_stop s"
  by (induction rule: rtranclp_induct) (auto dest: internal_frame)

lemma internal_run_inv: "internal\<^sup>*\<^sup>* s s' \<Longrightarrow> pipeline_inv s \<Longrightarrow> pipeline_inv s'"
  by (induction rule: rtranclp_induct) (blast intro: pipeline_inv_internal)+

text \<open>A goroutine that has something to do and is not stopped can take its step.\<close>

lemma run_idle:
  assumes "\<nexists>s'. internal s s'" "p_run s \<noteq> RunExited"
  shows "p_run s = RunSelect \<and> p_out s = []"
proof (cases "p_run s")
  case RunSelect
  then show ?thesis using assms(1) internal.flush by blast
qed (use assms internal.signal internal.enqueue internal.wake in blast)+

lemma process_idle:
  assumes "\<nexists>s'. internal s s'" "p_process s \<noteq> ProcExited"
  shows "p_process s = ProcSelect \<and> \<not> p_ready s"
proof (cases "p_process s")
  case ProcSelect
  then show ?thesis using assms(1) internal.take_ready by blast
next
  case (ProcWork evs)
  show ?thesis
  proof (cases evs)
    case (Cons ev evs')
    obtain new known' errs where "process_event undefined ev (p_out s, p_knownDirs s) = Ok ((p_out s @ new, known'), errs)"
      by (rule process_event_appends [of undefined ev])
    then show ?thesis using assms(1) internal.process ProcWork Cons by blast
  qed (use ProcWork assms(1) internal.all_processed in blast)
qed (use assms internal.grab in blast)+

lemma notifier_idle:
  assumes "\<nexists>s'. internal s s'" "p_notifier s \<noteq> NotExited"
  shows "p_notifier s = NotSelect \<and> \<not> p_nonempty s"
proof (cases "p_notifier s")
  case NotSelect
  then show ?thesis using assms(1) internal.take_nonempty by blast
qed (use assms internal.swap internal.notify in blast)+

lemma idle_delivered:
  assumes inv: "pipeline_inv s" and stuck: "\<nexists>s'. internal s s'" and run: "\<not> p_stopCh s"
  shows "p_processed s = p_received s \<and> concat (p_delivered s) = p_appended s"
proof -
  have "p_run s \<noteq> RunExited" "p_process s \<noteq> ProcExited" "p_notifier s \<noteq> NotExited"
    using inv run by (simp_all add: pipeline_inv_def) blast+
  then have idle: "p_run s = RunSelect" "p_out s = []" "p_process s = ProcSelect" "\<not> p_ready s"
    "p_notifier s = NotSelect" "\<not> p_nonempty s"
    using run_idle [OF stuck] process_idle [OF stuck] notifier_idle [OF stuck] by simp_all
  then have "p_in s = []" "p_queue s = []" using inv by (simp_all add: pipeline_inv_def)
  then show ?thesis using inv idle by (simp add: pipeline_inv_def)
qed

section \<open>Properties\<close>

text \<open>Claim C15: in every reachable state of the pipeline, however its goroutines interleave and whether or
  not it is being closed: the raw events are processed in the order \<open>fsnotify\<close> sent them, and while
  \<open>process\<close> runs the ones it has not processed are the rest of its round and its queue; the batches
  given to the server are, in order, the file events appended so far except those still on their way,
  which are, in order, with the notifier, in its queue, with \<open>run\<close> and in the batch; no batch is empty;
  and no wakeup is lost: raw events that wait have a signal, pending or about to be sent, or a worker
  that has taken it, and so have the file events that wait for the notifier.\<close>

theorem pipeline_safety:
  assumes "reachable known s"
  shows "(\<exists>rest. p_received s = p_processed s @ rest)
     \<and> (p_process s \<noteq> ProcExited \<longrightarrow> p_received s = p_processed s @ working (p_process s) @ p_in s)
     \<and> p_appended s = concat (p_delivered s) @ notifying (p_notifier s) @ p_queue s @ flushed (p_run s) @ p_out s
     \<and> [] \<notin> set (p_delivered s)
     \<and> (p_in s \<noteq> [] \<longrightarrow> p_ready s \<or> p_run s = RunSignal \<or> p_process s = ProcTook \<or> p_process s = ProcExited)
     \<and> (p_queue s \<noteq> [] \<longrightarrow> p_nonempty s \<or> p_run s = RunQueued \<or> p_notifier s = NotTook \<or> p_notifier s = NotExited)
     \<and> (p_process s = ProcExited \<or> p_notifier s = NotExited \<longrightarrow> p_stopCh s)"
  using reachable_inv [OF assms] by (simp add: pipeline_inv_def)

text \<open>The state after one event, \<open>CREATE /a.go\<close>.\<close>

definition example_event :: raw_event where
  "example_event = \<lparr>re_Name = ''/a.go'', re_Op = [Op_Create]\<rparr>"

definition example_state :: pipeline where
  "example_state = (pipeline_start [''/''])\<lparr>p_in := [example_event], p_received := [example_event], p_run := RunSignal\<rparr>"

lemma example_reachable: "reachable [''/''] example_state"
proof -
  have "external (pipeline_start [''/'']) example_state"
    using external.receive [of "pipeline_start [''/'']" example_event] by (simp add: example_state_def pipeline_start_def)
  then show ?thesis using reachable.start reachable.external_step by blast
qed

theorem pipeline_safety_witness:
  "reachable [''/''] example_state
   \<and> p_received example_state = p_processed example_state @ working (p_process example_state) @ p_in example_state"
  using pipeline_safety [OF example_reachable] example_reachable by (simp add: example_state_def pipeline_start_def)

text \<open>Claim C16: when no more events come, the pipeline empties: from a reachable state that nobody closes,
  the steps of the goroutines and of the timer end, in whatever order they are taken, and where they end
  every raw event received has been processed and every file event has been given to the server, once
  and in order; and the server has called \<open>DidModifyFiles\<close> of the session on each batch, with one
  modification for every event, errors of earlier batches notwithstanding.\<close>

theorem pipeline_liveness:
  assumes "reachable known s" "\<not> p_stopCh s"
  shows "wf {(t', t). internal t t'}
     \<and> (\<exists>s'. internal\<^sup>*\<^sup>* s s' \<and> (\<nexists>s''. internal s' s''))
     \<and> (\<forall>s'. internal\<^sup>*\<^sup>* s s' \<and> (\<nexists>s''. internal s' s'') \<longrightarrow>
          p_received s' = p_received s \<and> p_processed s' = p_received s' \<and> concat (p_delivered s') = p_appended s'
          \<and> concat (map fileEventsToModifications (p_delivered s')) = fileEventsToModifications (p_appended s')
          \<and> (\<forall>DidModifyFiles session. notifyAll DidModifyFiles (p_delivered s') session =
                foldl (\<lambda>st b. snd (DidModifyFiles (fileEventsToModifications b) st)) session (p_delivered s')))"
proof (intro conjI allI impI)
  fix s' assume s': "internal\<^sup>*\<^sup>* s s' \<and> (\<nexists>s''. internal s' s'')"
  have inv: "pipeline_inv s'" using internal_run_inv [OF conjunct1 [OF s'] reachable_inv [OF assms(1)]] .
  have frame: "p_received s' = p_received s" "\<not> p_stopCh s'" using internal_run_frame [OF conjunct1 [OF s']] assms(2) by simp_all
  show "p_received s' = p_received s" by (rule frame)
  show "p_processed s' = p_received s'" and all: "concat (p_delivered s') = p_appended s'"
    using idle_delivered [OF inv conjunct2 [OF s'] frame(2)] by simp_all
  show "concat (map fileEventsToModifications (p_delivered s')) = fileEventsToModifications (p_appended s')"
    by (simp add: concat_modifications all)
  fix DidModifyFiles session
  show "notifyAll DidModifyFiles (p_delivered s') session =
      foldl (\<lambda>st b. snd (DidModifyFiles (fileEventsToModifications b) st)) session (p_delivered s')"
    by (rule notifyAll_eq) (use inv in \<open>simp add: pipeline_inv_def\<close>)
qed (use wf_internal internal_runs_end in blast)+

theorem pipeline_liveness_witness:
  "\<exists>s'. internal\<^sup>*\<^sup>* example_state s' \<and> p_processed s' = [example_event] \<and> concat (p_delivered s') = p_appended s'"
proof -
  have "\<not> p_stopCh example_state" "p_received example_state = [example_event]"
    by (simp_all add: example_state_def pipeline_start_def)
  then show ?thesis using pipeline_liveness [OF example_reachable] by metis
qed

end
