(* ===== verification/Diff_Edits.thy ===== *)
theory Diff_Edits
  imports Go_Prelude "HOL-Library.Product_Lexorder"
begin

text \<open>
  Package \<open>diff\<close> (\<open>tools/internal/diff/diff.go\<close>): edits, their validation,
  stable sorting and application.  Offsets are Go \<open>int\<close>s and may be negative in
  an invalid edit, so they are \<open>int\<close> here and the bounds check of
  \<open>validate\<close> is a real branch.  \<open>patch\<close> is the abstract meaning of a list of
  ordered edits, which every other theory about edits refers to.
\<close>

section \<open>Edits\<close>

record edit =
  e_Start :: int
  e_End :: int
  e_New :: string

datatype diff_error = OutOfBounds | Overlapping

definition mk_edit :: "int \<Rightarrow> int \<Rightarrow> string \<Rightarrow> edit" where
  "mk_edit s t n = \<lparr>e_Start = s, e_End = t, e_New = n\<rparr>"

lemma mk_edit_sel [simp]:
  "e_Start (mk_edit s t n) = s" "e_End (mk_edit s t n) = t" "e_New (mk_edit s t n) = n"
  by (simp_all add: mk_edit_def)

text \<open>\<open>editsSort.Less\<close> and \<open>sort.IsSorted\<close>, which compares adjacent elements.\<close>

definition edit_less :: "edit \<Rightarrow> edit \<Rightarrow> bool" where
  "edit_less a b =
     (if e_Start a - e_Start b \<noteq> 0 then e_Start a - e_Start b < 0 else e_End a < e_End b)"

fun is_sorted_edits :: "edit list \<Rightarrow> bool" where
  "is_sorted_edits [] = True"
| "is_sorted_edits [a] = True"
| "is_sorted_edits (a # b # es) = (\<not> edit_less b a \<and> is_sorted_edits (b # es))"

text \<open>\<open>SortEdits\<close> is \<open>sort.Stable\<close> with that order.\<close>

definition edit_key :: "edit \<Rightarrow> int \<times> int" where
  "edit_key e = (e_Start e, e_End e)"

definition SortEdits :: "edit list \<Rightarrow> edit list" where
  "SortEdits es = sort_key edit_key es"

lemma edit_less_key: "edit_less a b \<longleftrightarrow> edit_key a < edit_key b"
  by (auto simp: edit_less_def edit_key_def less_prod_def)

lemma is_sorted_edits_iff: "is_sorted_edits es \<longleftrightarrow> sorted (map edit_key es)"
  by (induction es rule: is_sorted_edits.induct)
     (auto simp: edit_less_key not_less dest: order_trans)

lemma SortEdits_sorted: "is_sorted_edits es \<Longrightarrow> SortEdits es = es"
  by (simp add: is_sorted_edits_iff SortEdits_def sort_key_id_if_sorted)

section \<open>Validation and application\<close>

text \<open>The checking loop of \<open>validate\<close>: \<open>n\<close> is the length of the source.\<close>

fun check_edits :: "int \<Rightarrow> int \<Rightarrow> int \<Rightarrow> edit list \<Rightarrow> (diff_error, int) outcome" where
  "check_edits n sz lastEnd [] = Ok sz"
| "check_edits n sz lastEnd (e # es) =
     (if \<not> (0 \<le> e_Start e \<and> e_Start e \<le> e_End e \<and> e_End e \<le> n) then Err OutOfBounds
      else if e_Start e < lastEnd then Err Overlapping
      else check_edits n (sz + int (length (e_New e)) + e_Start e - e_End e) (e_End e) es)"

definition validate :: "string \<Rightarrow> edit list \<Rightarrow> (diff_error, edit list \<times> int) outcome" where
  "validate src edits =
     (let edits' = (if \<not> is_sorted_edits edits then SortEdits edits else edits)
      in bind_outcome (check_edits (int (length src)) (int (length src)) 0 edits')
           (\<lambda>sz. Ok (edits', sz)))"

fun apply_loop :: "string \<Rightarrow> int \<Rightarrow> string \<Rightarrow> edit list \<Rightarrow> string" where
  "apply_loop src lastEnd out [] = out @ drop (nat lastEnd) src"
| "apply_loop src lastEnd out (e # es) =
     (let out1 = (if lastEnd < e_Start e
                  then out @ slice (nat lastEnd) (nat (e_Start e)) src else out)
      in apply_loop src (e_End e) (out1 @ e_New e) es)"

definition Apply :: "string \<Rightarrow> edit list \<Rightarrow> (diff_error, string) outcome" where
  "Apply src edits =
     bind_outcome (validate src edits) (\<lambda>(edits', sz).
       let out = apply_loop src 0 [] edits'
       in if int (length out) \<noteq> sz then Panic else Ok out)"

section \<open>The meaning of ordered edits\<close>

text \<open>\<open>ok_edits n l es\<close>: the edits of \<open>es\<close> are within \<open>[l, n]\<close>, in order and do not
  overlap.\<close>

fun ok_edits :: "int \<Rightarrow> int \<Rightarrow> edit list \<Rightarrow> bool" where
  "ok_edits n l [] = True"
| "ok_edits n l (e # es) =
     (0 \<le> e_Start e \<and> l \<le> e_Start e \<and> e_Start e \<le> e_End e \<and> e_End e \<le> n
      \<and> ok_edits n (e_End e) es)"

text \<open>\<open>patch src l es\<close>: the text from offset \<open>l\<close> on, with \<open>es\<close> applied.\<close>

fun patch :: "string \<Rightarrow> int \<Rightarrow> edit list \<Rightarrow> string" where
  "patch src l [] = drop (nat l) src"
| "patch src l (e # es) =
     slice (nat l) (nat (e_Start e)) src @ e_New e @ patch src (e_End e) es"

text \<open>The reference: one edit replaces one region, and a list is applied from its
  last edit to its first, so that earlier offsets stay valid.\<close>

definition replace_region :: "edit \<Rightarrow> string \<Rightarrow> string" where
  "replace_region e s = take (nat (e_Start e)) s @ e_New e @ drop (nat (e_End e)) s"

definition apply_backwards :: "edit list \<Rightarrow> string \<Rightarrow> string" where
  "apply_backwards es src = foldr replace_region es src"

lemma ok_edits_mono: "ok_edits n l es \<Longrightarrow> l' \<le> l \<Longrightarrow> ok_edits n l' es"
  by (cases es) auto

lemma apply_loop_patch:
  "ok_edits n l es \<Longrightarrow> 0 \<le> l \<Longrightarrow> apply_loop src l out es = out @ patch src l es"
proof (induction es arbitrary: l out)
  case Nil
  then show ?case by simp
next
  case (Cons e es)
  then show ?case by (cases "l < e_Start e") (auto simp: Let_def)
qed

lemma length_patch:
  "ok_edits (int (length src)) l es \<Longrightarrow> 0 \<le> l \<Longrightarrow> l \<le> int (length src) \<Longrightarrow>
   check_edits (int (length src)) (int (length src) + d) l es
     = Ok (int (length (patch src l es)) + l + d)"
proof (induction es arbitrary: l d)
  case Nil
  then show ?case by simp
next
  case (Cons e es)
  let ?d = "d + int (length (e_New e)) + e_Start e - e_End e"
  have "check_edits (int (length src)) (int (length src) + ?d) (e_End e) es
        = Ok (int (length (patch src (e_End e) es)) + e_End e + ?d)"
    using Cons.prems by (intro Cons.IH) auto
  moreover have "int (length (slice (nat l) (nat (e_Start e)) src)) = e_Start e - l"
    using Cons.prems by (intro int_length_slice) auto
  ultimately show ?case using Cons.prems by (simp add: algebra_simps del: length_slice)
qed

lemma check_edits_Ok_iff:
  "is_Ok (check_edits n sz l es) \<longleftrightarrow> ok_edits n l es" if "0 \<le> l"
  using that by (induction es arbitrary: sz l) auto

lemma check_edits_not_Panic: "check_edits n sz l es \<noteq> Panic"
  by (induction es arbitrary: sz l) auto

lemma validate_eq:
  "validate src es = bind_outcome
     (check_edits (int (length src)) (int (length src)) 0 (SortEdits es)) (\<lambda>z. Ok (SortEdits es, z))"
  by (auto simp: validate_def Let_def SortEdits_sorted)

lemma validate_ok:
  assumes "ok_edits (int (length src)) 0 (SortEdits es)"
  shows "validate src es = Ok (SortEdits es, int (length (patch src 0 (SortEdits es))))"
  using length_patch [of src 0 "SortEdits es" 0] assms by (simp add: validate_eq)

lemma validate_Ok_iff:
  "validate src es = Ok (es', z) \<longleftrightarrow>
     ok_edits (int (length src)) 0 (SortEdits es) \<and> es' = SortEdits es
     \<and> z = int (length (patch src 0 (SortEdits es)))"
proof (cases "ok_edits (int (length src)) 0 (SortEdits es)")
  case True
  then show ?thesis by (auto simp: validate_ok)
next
  case False
  then have "\<not> is_Ok (check_edits (int (length src)) (int (length src)) 0 (SortEdits es))"
    by (simp add: check_edits_Ok_iff)
  with False show ?thesis
    by (cases "check_edits (int (length src)) (int (length src)) 0 (SortEdits es)")
       (auto simp: validate_eq)
qed

lemma Apply_patch:
  "Apply src es = Ok out \<longleftrightarrow>
     ok_edits (int (length src)) 0 (SortEdits es) \<and> out = patch src 0 (SortEdits es)"
  by (cases "validate src es"; cases "ok_edits (int (length src)) 0 (SortEdits es)")
     (auto simp: Apply_def validate_Ok_iff validate_ok Let_def apply_loop_patch split: prod.splits)

lemma Apply_ok:
  "ok_edits (int (length src)) 0 (SortEdits es) \<Longrightarrow> Apply src es = Ok (patch src 0 (SortEdits es))"
  by (simp add: Apply_patch)

lemma ok_edits_sorted:
  "ok_edits n l es \<Longrightarrow> is_sorted_edits es"
proof (induction es arbitrary: l rule: is_sorted_edits.induct)
  case (3 a b es)
  then show ?case by (auto simp: edit_less_def)
qed auto

lemma ok_edits_SortEdits: "ok_edits n l es \<Longrightarrow> SortEdits es = es"
  by (simp add: ok_edits_sorted SortEdits_sorted)

lemma patch_prefix:
  "ok_edits (int (length src)) l es \<Longrightarrow> 0 \<le> k \<Longrightarrow> k \<le> l \<Longrightarrow> l \<le> int (length src) \<Longrightarrow>
   patch src k es = slice (nat k) (nat l) src @ patch src l es"
proof (induction es)
  case Nil
  then show ?case by (simp add: slice_append_drop)
next
  case (Cons e es)
  then show ?case
    using slice_append_nat [of k l "e_Start e" src] by simp
qed

lemma apply_backwards_patch:
  "ok_edits (int (length src)) l es \<Longrightarrow> 0 \<le> l \<Longrightarrow> l \<le> int (length src) \<Longrightarrow>
   apply_backwards es src = take (nat l) src @ patch src l es"
proof (induction es arbitrary: l)
  case Nil
  then show ?case by (simp add: apply_backwards_def)
next
  case (Cons e es)
  let ?i = "nat (e_Start e)" and ?j = "nat (e_End e)"
  have IH: "apply_backwards es src = take ?j src @ patch src (e_End e) es"
    using Cons.prems by (intro Cons.IH) auto
  have ij: "?i \<le> ?j" "?j \<le> length src" "nat l \<le> ?i" using Cons.prems by auto
  have "apply_backwards (e # es) src = replace_region e (take ?j src @ patch src (e_End e) es)"
    using IH by (simp add: apply_backwards_def)
  also have "\<dots> = take ?i src @ e_New e @ patch src (e_End e) es"
    using ij by (simp add: replace_region_def min_absorb2)
  also have "\<dots> = take (nat l) src @ patch src l (e # es)"
    using take_append_slice [OF ij(3), of src] by simp
  finally show ?case .
qed

section \<open>Errors\<close>

definition in_bounds :: "string \<Rightarrow> edit \<Rightarrow> bool" where
  "in_bounds src e \<longleftrightarrow> 0 \<le> e_Start e \<and> e_Start e \<le> e_End e \<and> e_End e \<le> int (length src)"

text \<open>Some two neighbours of the list overlap.\<close>

fun overlapping :: "edit list \<Rightarrow> bool" where
  "overlapping (a # b # es) = (e_Start b < e_End a \<or> overlapping (b # es))"
| "overlapping _ = False"

lemma check_edits_OutOfBounds:
  "check_edits (int (length src)) sz l es = Err OutOfBounds \<Longrightarrow> \<exists>e \<in> set es. \<not> in_bounds src e"
  by (induction es arbitrary: sz l) (auto simp: in_bounds_def split: if_splits)

lemma check_edits_Overlapping:
  "check_edits n sz l es = Err Overlapping \<Longrightarrow>
   overlapping es \<or> (es \<noteq> [] \<and> e_Start (hd es) < l)"
proof (induction es arbitrary: sz l)
  case Nil
  then show ?case by simp
next
  case (Cons e es)
  show ?case
  proof (cases "e_Start e < l")
    case False
    with Cons.prems have "check_edits n (sz + int (length (e_New e)) + e_Start e - e_End e) (e_End e) es
        = Err Overlapping" by (auto split: if_splits)
    then have "overlapping es \<or> (es \<noteq> [] \<and> e_Start (hd es) < e_End e)" by (rule Cons.IH)
    then show ?thesis by (cases es) auto
  qed simp
qed

lemma check_edits_Overlapping_0:
  "check_edits n sz 0 es = Err Overlapping \<Longrightarrow> overlapping es"
  using check_edits_Overlapping [of n sz 0 es]
  by (cases es) (auto split: if_splits)

lemma set_SortEdits [simp]: "set (SortEdits es) = set es"
  by (simp add: SortEdits_def)

text \<open>Claim C1: for every source and every list of edits, \<open>Apply\<close> either succeeds, exactly
  when the stably sorted edits are in bounds and do not overlap, and then the result is
  the source with the sorted edits carried out one by one from the last to the first; or it
  reports the out-of-bounds or the overlap error, and some edit is out of bounds or two
  neighbouring edits overlap; the internal \<open>panic("wrong size")\<close> is never reached.\<close>

theorem Apply_spec:
  "case Apply src es of
     Ok out \<Rightarrow> ok_edits (int (length src)) 0 (SortEdits es)
               \<and> out = apply_backwards (SortEdits es) src
   | Err OutOfBounds \<Rightarrow> \<not> (\<forall>e \<in> set es. in_bounds src e)
   | Err Overlapping \<Rightarrow> overlapping (SortEdits es)
   | Panic \<Rightarrow> False"
proof (cases "ok_edits (int (length src)) 0 (SortEdits es)")
  case True
  then have "Apply src es = Ok (patch src 0 (SortEdits es))" by (rule Apply_ok)
  with True apply_backwards_patch [OF True] show ?thesis by simp
next
  case False
  let ?c = "check_edits (int (length src)) (int (length src)) 0 (SortEdits es)"
  have "\<not> is_Ok ?c" using False by (simp add: check_edits_Ok_iff)
  then obtain err where err: "?c = Err err"
    using check_edits_not_Panic [of "int (length src)" "int (length src)" 0 "SortEdits es"]
    by (cases ?c) auto
  then have "Apply src es = Err err" by (simp add: Apply_def validate_eq)
  then show ?thesis
    using check_edits_OutOfBounds [of src "int (length src)" 0 "SortEdits es"]
      check_edits_Overlapping_0 [of "int (length src)" "int (length src)" "SortEdits es"] err
    by (cases err) auto
qed

theorem Apply_spec_witness:
  "Apply ''abcdef'' [mk_edit 4 5 ''Y'', mk_edit 1 3 ''X''] = Ok ''aXdYf''
   \<and> apply_backwards (SortEdits [mk_edit 4 5 ''Y'', mk_edit 1 3 ''X'']) ''abcdef'' = ''aXdYf''
   \<and> Apply ''abc'' [mk_edit 1 7 ''Y''] = Err OutOfBounds \<and> \<not> in_bounds ''abc'' (mk_edit 1 7 ''Y'')"
proof -
  have a: "Apply ''abcdef'' [mk_edit 4 5 ''Y'', mk_edit 1 3 ''X''] = Ok ''aXdYf''" by code_simp
  have b: "Apply ''abc'' [mk_edit 1 7 ''Y''] = Err OutOfBounds" by code_simp
  show ?thesis
    using Apply_spec [of "''abcdef''" "[mk_edit 4 5 ''Y'', mk_edit 1 3 ''X'']"]
      Apply_spec [of "''abc''" "[mk_edit 1 7 ''Y'']"]
    unfolding a b by simp
qed

end
