(* ===== verification/Diff_Merge.thy ===== *)
theory Diff_Merge
  imports Diff_Edits
begin

text \<open>
  \<open>Merge\<close> (\<open>tools/internal/diff/merge.go\<close>): the three-way merge of two ordered
  edit lists.  The loop advances two cursors and narrows the edit under a cursor in
  place; here the cursors are the two remaining lists, and narrowing replaces the head.
  \<open>None\<close> is the conflict result.
\<close>

section \<open>The merge loop\<close>

function merge_loop :: "edit list \<Rightarrow> edit list \<Rightarrow> edit list \<Rightarrow> edit list option" where
  "merge_loop [] y merged = Some (merged @ y)"
| "merge_loop (px # x) [] merged = Some (merged @ px # x)"
| "merge_loop (px # x) (py # y) merged =
     (if px = py then merge_loop x y (merged @ [px])
      else if e_End px \<le> e_Start py then merge_loop x (py # y) (merged @ [px])
      else if e_End py \<le> e_Start px then merge_loop (px # x) y (merged @ [py])
      else if e_Start px < e_Start py then
        merge_loop (px\<lparr>e_Start := e_Start py\<rparr> # x) (py # y)
          (merged @ [mk_edit (e_Start px) (e_Start py) ''''])
      else if e_Start py < e_Start px then
        merge_loop (px # x) (py\<lparr>e_Start := e_Start px\<rparr> # y)
          (merged @ [mk_edit (e_Start py) (e_Start px) ''''])
      else None)"
  by pat_completeness auto
termination
  by (relation "measures [\<lambda>(x, y, m). length x + length y,
        \<lambda>(x, y, m). if e_Start (hd x) = e_Start (hd y) then 0 else 1]") auto

declare merge_loop.simps(3) [simp del]

definition Merge :: "edit list \<Rightarrow> edit list \<Rightarrow> edit list option" where
  "Merge x y = merge_loop x y []"

section \<open>What a merge deletes and inserts\<close>

text \<open>The offsets of the source that a list of edits deletes, and the text it inserts.\<close>

definition deleted :: "edit list \<Rightarrow> int set" where
  "deleted es = (\<Union>e \<in> set es. {e_Start e ..< e_End e})"

definition insertions :: "edit list \<Rightarrow> string set" where
  "insertions es = {e_New e | e. e \<in> set es \<and> e_New e \<noteq> ''''}"

lemma deleted_simps [simp]:
  "deleted [] = {}"
  "deleted (e # es) = {e_Start e ..< e_End e} \<union> deleted es"
  "deleted (xs @ ys) = deleted xs \<union> deleted ys"
  by (auto simp: deleted_def)

lemma insertions_simps [simp]:
  "insertions [] = {}"
  "insertions (e # es) = (if e_New e = '''' then {} else {e_New e}) \<union> insertions es"
  "insertions (xs @ ys) = insertions xs \<union> insertions ys"
  by (auto simp: insertions_def)

section \<open>The merge as a relation\<close>

text \<open>One rule for each way the loop adds an edit: the edits still to be read from the two
  sides, and the edits that remain to be emitted.\<close>

inductive merged :: "edit list \<Rightarrow> edit list \<Rightarrow> edit list \<Rightarrow> bool" where
  x_done: "merged [] y y"
| y_done: "merged x [] x"
| coalesce: "merged x y m \<Longrightarrow> merged (p # x) (p # y) (p # m)"
| x_before: "px \<noteq> py \<Longrightarrow> e_End px \<le> e_Start py \<Longrightarrow> merged x (py # y) m \<Longrightarrow>
    merged (px # x) (py # y) (px # m)"
| y_before: "px \<noteq> py \<Longrightarrow> e_End py \<le> e_Start px \<Longrightarrow> merged (px # x) y m \<Longrightarrow>
    merged (px # x) (py # y) (py # m)"
| x_split: "\<not> e_End px \<le> e_Start py \<Longrightarrow> e_Start px < e_Start py \<Longrightarrow>
    merged (px\<lparr>e_Start := e_Start py\<rparr> # x) (py # y) m \<Longrightarrow>
    merged (px # x) (py # y) (mk_edit (e_Start px) (e_Start py) '''' # m)"
| y_split: "\<not> e_End py \<le> e_Start px \<Longrightarrow> e_Start py < e_Start px \<Longrightarrow>
    merged (px # x) (py\<lparr>e_Start := e_Start px\<rparr> # y) m \<Longrightarrow>
    merged (px # x) (py # y) (mk_edit (e_Start py) (e_Start px) '''' # m)"

lemma merge_loop_merged:
  "merge_loop x y acc = Some r \<Longrightarrow> \<exists>m. r = acc @ m \<and> merged x y m"
proof (induction x y acc arbitrary: r rule: merge_loop.induct)
  case (3 px x py y acc)
  consider (eq) "px = py" "merge_loop x y (acc @ [px]) = Some r"
    | (xb) "px \<noteq> py" "e_End px \<le> e_Start py" "merge_loop x (py # y) (acc @ [px]) = Some r"
    | (yb) "px \<noteq> py" "\<not> e_End px \<le> e_Start py" "e_End py \<le> e_Start px"
        "merge_loop (px # x) y (acc @ [py]) = Some r"
    | (xs) "px \<noteq> py" "\<not> e_End px \<le> e_Start py" "\<not> e_End py \<le> e_Start px"
        "e_Start px < e_Start py"
        "merge_loop (px\<lparr>e_Start := e_Start py\<rparr> # x) (py # y)
          (acc @ [mk_edit (e_Start px) (e_Start py) '''']) = Some r"
    | (ys) "px \<noteq> py" "\<not> e_End px \<le> e_Start py" "\<not> e_End py \<le> e_Start px"
        "\<not> e_Start px < e_Start py" "e_Start py < e_Start px"
        "merge_loop (px # x) (py\<lparr>e_Start := e_Start px\<rparr> # y)
          (acc @ [mk_edit (e_Start py) (e_Start px) '''']) = Some r"
    using "3.prems" by (auto simp: merge_loop.simps(3) split: if_splits)
  then show ?case
  proof cases
    case eq
    from "3.IH"(1) [OF eq] eq(1) show ?thesis by (auto intro: merged.coalesce)
  next
    case xb
    from "3.IH"(2) [OF xb] xb show ?thesis by (auto intro: merged.x_before)
  next
    case yb
    from "3.IH"(3) [OF yb] yb show ?thesis by (auto intro: merged.y_before)
  next
    case xs
    from "3.IH"(4) [OF xs] xs show ?thesis by (auto intro: merged.x_split)
  next
    case ys
    from "3.IH"(5) [OF ys] ys show ?thesis by (auto intro: merged.y_split)
  qed
qed (auto intro: merged.intros)

lemma Merge_merged: "Merge x y = Some m \<Longrightarrow> merged x y m"
  using merge_loop_merged [of x y "[]" m] by (simp add: Merge_def)

lemma narrowed_deleted:
  "e_Start p \<le> k \<Longrightarrow> k \<le> e_End p \<Longrightarrow>
   {e_Start p ..< k} \<union> deleted (p\<lparr>e_Start := k\<rparr> # x) = deleted (p # x)"
  using ivl_disj_un_two(3) [of "e_Start p" k "e_End p"] by auto

lemma narrowed_subset:
  "e_Start p \<le> k \<Longrightarrow> deleted (p\<lparr>e_Start := k\<rparr> # x) \<subseteq> deleted (p # x)"
  by auto

lemma merged_deleted:
  "merged x y m \<Longrightarrow> ok_edits n l x \<Longrightarrow> ok_edits n l y \<Longrightarrow>
   deleted m = deleted x \<union> deleted y"
proof (induction arbitrary: l rule: merged.induct)
  case (coalesce x y m p)
  then have "deleted m = deleted x \<union> deleted y"
    by (intro coalesce.IH [of "e_End p"]) auto
  then show ?case by auto
next
  case (x_before px py x y m)
  then have "deleted m = deleted x \<union> deleted (py # y)"
    by (intro x_before.IH [of "e_End px"]) auto
  then show ?case by auto
next
  case (y_before px py x y m)
  then have "deleted m = deleted (px # x) \<union> deleted y"
    by (intro y_before.IH [of "e_End py"]) auto
  then show ?case by auto
next
  case (x_split px py x y m)
  then have "deleted m = deleted (px\<lparr>e_Start := e_Start py\<rparr> # x) \<union> deleted (py # y)"
    by (intro x_split.IH [of "e_Start py"]) auto
  with x_split narrowed_deleted [of px "e_Start py" x] show ?case
    by (simp del: deleted_simps(2) add: deleted_simps(2) [of "mk_edit _ _ _"] Un_assoc [symmetric])
next
  case (y_split py px x y m)
  then have "deleted m = deleted (px # x) \<union> deleted (py\<lparr>e_Start := e_Start px\<rparr> # y)"
    by (intro y_split.IH [of "e_Start px"]) auto
  with y_split narrowed_deleted [of py "e_Start px" y] show ?case
    by (simp del: deleted_simps(2) add: deleted_simps(2) [of "mk_edit _ _ _"] Un_left_commute)
qed auto

lemma merged_insertions: "merged x y m \<Longrightarrow> insertions m = insertions x \<union> insertions y"
  by (induction rule: merged.induct) auto

lemma merged_ok:
  "merged x y m \<Longrightarrow> ok_edits n l x \<Longrightarrow> ok_edits n l y \<Longrightarrow> ok_edits n l m"
proof (induction arbitrary: l rule: merged.induct)
  case (x_split px py x y m)
  then show ?case using x_split.IH [of "e_Start py"] by auto
next
  case (y_split py px x y m)
  then show ?case using y_split.IH [of "e_Start px"] by auto
qed auto

lemma merge_loop_conflict:
  "merge_loop x y acc = None \<Longrightarrow> ok_edits n l x \<Longrightarrow> ok_edits n l y \<Longrightarrow>
   deleted x \<inter> deleted y \<noteq> {}"
proof (induction x y acc arbitrary: l rule: merge_loop.induct)
  case (3 px x py y acc)
  note ok = "3.prems"(2,3)
  consider (eq) "px = py" "merge_loop x y (acc @ [px]) = None"
    | (xb) "px \<noteq> py" "e_End px \<le> e_Start py" "merge_loop x (py # y) (acc @ [px]) = None"
    | (yb) "px \<noteq> py" "\<not> e_End px \<le> e_Start py" "e_End py \<le> e_Start px"
        "merge_loop (px # x) y (acc @ [py]) = None"
    | (xs) "px \<noteq> py" "\<not> e_End px \<le> e_Start py" "\<not> e_End py \<le> e_Start px"
        "e_Start px < e_Start py"
        "merge_loop (px\<lparr>e_Start := e_Start py\<rparr> # x) (py # y)
          (acc @ [mk_edit (e_Start px) (e_Start py) '''']) = None"
    | (ys) "px \<noteq> py" "\<not> e_End px \<le> e_Start py" "\<not> e_End py \<le> e_Start px"
        "\<not> e_Start px < e_Start py" "e_Start py < e_Start px"
        "merge_loop (px # x) (py\<lparr>e_Start := e_Start px\<rparr> # y)
          (acc @ [mk_edit (e_Start py) (e_Start px) '''']) = None"
    | (conflict) "\<not> e_End px \<le> e_Start py" "\<not> e_End py \<le> e_Start px" "e_Start px = e_Start py"
    using "3.prems"(1) by (auto simp: merge_loop.simps(3) split: if_splits)
  then show ?case
  proof cases
    case eq
    then show ?thesis using "3.IH"(1) [OF eq, of "e_End px"] ok by auto
  next
    case xb
    then show ?thesis using "3.IH"(2) [OF xb, of "e_End px"] ok by auto
  next
    case yb
    then show ?thesis using "3.IH"(3) [OF yb, of "e_End py"] ok by auto
  next
    case xs
    then have "deleted (px\<lparr>e_Start := e_Start py\<rparr> # x) \<inter> deleted (py # y) \<noteq> {}"
      using ok by (intro "3.IH"(4) [OF xs, of "e_Start py"]) auto
    then show ?thesis using narrowed_subset [of px "e_Start py" x] xs by fastforce
  next
    case ys
    then have "deleted (px # x) \<inter> deleted (py\<lparr>e_Start := e_Start px\<rparr> # y) \<noteq> {}"
      using ok by (intro "3.IH"(5) [OF ys, of "e_Start px"]) auto
    then show ?thesis using narrowed_subset [of py "e_Start px" y] ys by fastforce
  next
    case conflict
    then have "e_Start px \<in> deleted (px # x)" "e_Start px \<in> deleted (py # y)" using ok by auto
    then show ?thesis by blast
  qed
qed auto

section \<open>Properties\<close>

text \<open>Claim C3: merging two valid ordered edit lists of one source either yields a valid
  ordered list that deletes exactly the offsets deleted by either side and inserts exactly the
  texts inserted by either side, or reports a conflict, and then some offset is deleted by
  both sides.\<close>

theorem Merge_spec:
  assumes "ok_edits n 0 x" and "ok_edits n 0 y"
  shows "case Merge x y of
      Some m \<Rightarrow> ok_edits n 0 m \<and> deleted m = deleted x \<union> deleted y
                \<and> insertions m = insertions x \<union> insertions y
    | None \<Rightarrow> deleted x \<inter> deleted y \<noteq> {}"
proof (cases "Merge x y")
  case None
  then show ?thesis
    using merge_loop_conflict [of x y "[]" n 0] assms by (simp add: Merge_def)
next
  case (Some m)
  then have "merged x y m" by (rule Merge_merged)
  with assms Some show ?thesis
    by (simp add: merged_ok merged_deleted [of x y m n 0] merged_insertions)
qed

definition merge_example_x :: "edit list" where
  "merge_example_x = [mk_edit 0 4 ''one'', mk_edit 6 6 ''two'']"

definition merge_example_y :: "edit list" where
  "merge_example_y = [mk_edit 2 5 ''three'', mk_edit 6 6 ''two'']"

theorem Merge_spec_witness:
  "ok_edits 7 0 merge_example_x \<and> ok_edits 7 0 merge_example_y \<and>
   (case Merge merge_example_x merge_example_y of
      Some m \<Rightarrow> ok_edits 7 0 m
        \<and> deleted m = deleted merge_example_x \<union> deleted merge_example_y
        \<and> insertions m = insertions merge_example_x \<union> insertions merge_example_y
    | None \<Rightarrow> deleted merge_example_x \<inter> deleted merge_example_y \<noteq> {})"
proof -
  have x: "ok_edits 7 0 merge_example_x" and y: "ok_edits 7 0 merge_example_y"
    by (simp_all add: merge_example_x_def merge_example_y_def)
  show ?thesis using x y Merge_spec [OF x y] by (intro conjI)
qed

text \<open>A list merged with itself is unchanged: equal edits are coalesced.\<close>

lemma merge_loop_self: "merge_loop x x acc = Some (acc @ x)"
  by (induction x arbitrary: acc) (simp_all add: merge_loop.simps(3))

lemma Merge_self: "Merge x x = Some x"
  by (simp add: Merge_def merge_loop_self)

end
