(* ===== verification/Diff_Lines.thy ===== *)
theory Diff_Lines
  imports Diff_Edits
begin

text \<open>
  Whole-line edits: \<open>lineEdits\<close> and \<open>expandEdit\<close> of \<open>tools/internal/diff/diff.go\<close>, which
  widen and merge edits until each replaces complete lines, and \<open>splitLines\<close> of
  \<open>unified.go\<close>.  The lemmas show that widening keeps the patched text and reaches line
  boundaries.
\<close>

section \<open>Expanding one edit\<close>

definition expandEdit :: "edit \<Rightarrow> string \<Rightarrow> edit" where
  "expandEdit e src =
     (let start = e_Start e;
          lastNL = (case last_index_byte (take (nat start) src) NL of None \<Rightarrow> -1 | Some i \<Rightarrow> int i);
          delta = start - 1 - lastNL;
          e1 = (if delta > 0
                then e\<lparr>e_Start := start - delta,
                       e_New := slice (nat (start - delta)) (nat start) src @ e_New e\<rparr>
                else e);
          end = e_End e1;
          e2 = (if (end > 0 \<and> src ! (nat end - 1) \<noteq> NL)
                  \<or> (e_New e1 \<noteq> [] \<and> last (e_New e1) \<noteq> NL)
                then (case index_byte (drop (nat end) src) NL of
                        None \<Rightarrow> e1\<lparr>e_End := int (length src)\<rparr>
                      | Some nl \<Rightarrow> e1\<lparr>e_End := end + int nl + 1\<rparr>)
                else e1)
      in e2\<lparr>e_New := e_New e2 @ slice (nat end) (nat (e_End e2)) src\<rparr>)"

text \<open>The loop of \<open>lineEdits\<close> over \<open>edits[1:]\<close> with the pending edit \<open>prev\<close>.\<close>

fun line_loop :: "string \<Rightarrow> edit \<Rightarrow> edit list \<Rightarrow> edit list \<Rightarrow> edit list" where
  "line_loop src prev [] expanded = expanded @ [expandEdit prev src]"
| "line_loop src prev (e # es) expanded =
     (let between = slice (nat (e_End prev)) (nat (e_Start e)) src
      in if \<not> str_contains between [NL] then
           line_loop src (prev\<lparr>e_New := e_New prev @ between @ e_New e, e_End := e_End e\<rparr>) es expanded
         else line_loop src e es (expanded @ [expandEdit prev src]))"

definition misaligned :: "string \<Rightarrow> edit \<Rightarrow> bool" where
  "misaligned src e \<longleftrightarrow>
     e_Start e \<ge> int (length src) \<or>
     (e_Start e > 0 \<and> src ! (nat (e_Start e) - 1) \<noteq> NL) \<or>
     (e_End e > 0 \<and> src ! (nat (e_End e) - 1) \<noteq> NL) \<or>
     (e_New e \<noteq> [] \<and> last (e_New e) \<noteq> NL)"

definition lineEdits :: "string \<Rightarrow> edit list \<Rightarrow> (diff_error, edit list) outcome" where
  "lineEdits src edits =
     bind_outcome (validate src edits) (\<lambda>(edits, _).
       if \<forall>e \<in> set edits. \<not> misaligned src e then Ok edits
       else (case edits of
               [] \<Rightarrow> Ok edits
             | prev # rest \<Rightarrow> Ok (line_loop src prev rest [])))"

section \<open>Line boundaries\<close>

definition line_start :: "string \<Rightarrow> int \<Rightarrow> bool" where
  "line_start src k \<longleftrightarrow> k = 0 \<or> (0 < k \<and> k \<le> int (length src) \<and> src ! (nat k - 1) = NL)"

definition whole_lines :: "string \<Rightarrow> edit \<Rightarrow> bool" where
  "whole_lines src e \<longleftrightarrow>
     line_start src (e_Start e)
     \<and> (line_start src (e_End e) \<or> e_End e = int (length src))
     \<and> (e_New e = [] \<or> last (e_New e) = NL \<or> e_End e = int (length src))"

lemma str_contains_NL: "str_contains s [c] \<longleftrightarrow> c \<in> set s"
  by (auto simp: str_contains_iff in_set_conv_decomp)

lemma aligned_whole_lines:
  "in_bounds src e \<Longrightarrow> \<not> misaligned src e \<Longrightarrow> whole_lines src e"
  by (auto simp: misaligned_def whole_lines_def line_start_def in_bounds_def)

text \<open>Widening to the left stops right after the last newline before the edit.\<close>

lemma expand_left:
  fixes e src
  defines "start \<equiv> e_Start e"
  defines "s \<equiv> (case last_index_byte (take (nat start) src) NL of None \<Rightarrow> 0 | Some i \<Rightarrow> int i + 1)"
  assumes "in_bounds src e"
  shows "0 \<le> s" "s \<le> start" "line_start src s"
    and "\<And>p. p < nat start \<Longrightarrow> src ! p = NL \<Longrightarrow> int p + 1 \<le> s"
proof -
  have b: "0 \<le> start" "start \<le> int (length src)"
    using assms(3) by (auto simp: in_bounds_def start_def)
  have "0 \<le> s \<and> s \<le> start \<and> line_start src s \<and> (\<forall>p. p < nat start \<longrightarrow> src ! p = NL \<longrightarrow> int p + 1 \<le> s)"
  proof (cases "last_index_byte (take (nat start) src) NL")
    case None
    then have no: "NL \<notin> set (take (nat start) src)" by (simp add: last_index_byte_None)
    have "src ! p \<noteq> NL" if "p < nat start" for p
    proof
      assume "src ! p = NL"
      then have "NL \<in> set (take (nat start) src)"
        using that b by (auto simp: in_set_conv_nth intro!: exI [of _ p])
      with no show False by simp
    qed
    with None b show ?thesis by (auto simp: s_def line_start_def)
  next
    case (Some i)
    then have i: "i < length (take (nat start) src)" "take (nat start) src ! i = NL"
      and no: "NL \<notin> set (drop (Suc i) (take (nat start) src))"
      by (auto simp: last_index_byte_Some)
    have "p \<le> i" if "p < nat start" "src ! p = NL" for p
    proof (rule ccontr)
      assume "\<not> p \<le> i"
      then have "drop (Suc i) (take (nat start) src) ! (p - Suc i) = NL"
        "p - Suc i < length (drop (Suc i) (take (nat start) src))"
        using that b by auto
      then show False using no by (metis nth_mem)
    qed
    moreover have "nat (int i + 1) - 1 = i" by simp
    ultimately show ?thesis using Some i b by (auto simp: s_def line_start_def)
  qed
  then show "0 \<le> s" "s \<le> start" "line_start src s"
    and "\<And>p. p < nat start \<Longrightarrow> src ! p = NL \<Longrightarrow> int p + 1 \<le> s" by auto
qed

text \<open>Widening to the right stops right after the next newline, or at the end of the source.\<close>

definition line_end_after :: "string \<Rightarrow> int \<Rightarrow> int" where
  "line_end_after src k =
     (case index_byte (drop (nat k) src) NL of None \<Rightarrow> int (length src) | Some nl \<Rightarrow> k + int nl + 1)"

lemma line_end_after:
  assumes "0 \<le> k" "k \<le> int (length src)"
  shows "k \<le> line_end_after src k" "line_end_after src k \<le> int (length src)"
    and "line_end_after src k = int (length src)
         \<or> (line_start src (line_end_after src k) \<and> k < line_end_after src k)"
    and "\<And>p. nat k \<le> p \<Longrightarrow> p < length src \<Longrightarrow> src ! p = NL \<Longrightarrow> line_end_after src k \<le> int p + 1"
proof -
  let ?t = "line_end_after src k"
  have "k \<le> ?t \<and> ?t \<le> int (length src) \<and> (?t = int (length src) \<or> (line_start src ?t \<and> k < ?t))
    \<and> (\<forall>p. nat k \<le> p \<longrightarrow> p < length src \<longrightarrow> src ! p = NL \<longrightarrow> ?t \<le> int p + 1)"
  proof (cases "index_byte (drop (nat k) src) NL")
    case None
    then have no: "NL \<notin> set (drop (nat k) src)" by (simp add: index_byte_None)
    have "src ! p \<noteq> NL" if "nat k \<le> p" "p < length src" for p
    proof
      assume "src ! p = NL"
      then have "drop (nat k) src ! (p - nat k) = NL" "p - nat k < length (drop (nat k) src)"
        using that by auto
      then show False using no by (metis nth_mem)
    qed
    with None assms show ?thesis by (auto simp: line_end_after_def)
  next
    case (Some i)
    then have i: "i < length (drop (nat k) src)" "drop (nat k) src ! i = NL"
      and no: "NL \<notin> set (take i (drop (nat k) src))"
      by (auto simp: index_byte_Some)
    have "k + int i \<le> int p" if "nat k \<le> p" "p < length src" "src ! p = NL" for p
    proof (rule ccontr)
      assume "\<not> k + int i \<le> int p"
      then have "take i (drop (nat k) src) ! (p - nat k) = NL"
        "p - nat k < length (take i (drop (nat k) src))"
        using that i by auto
      then show False using no by (metis nth_mem)
    qed
    moreover have "nat (k + int i + 1) - 1 = nat k + i" using assms by simp
    ultimately show ?thesis using Some i assms
      by (auto simp: line_end_after_def line_start_def)
  qed
  then show "k \<le> ?t" "?t \<le> int (length src)"
    "?t = int (length src) \<or> (line_start src ?t \<and> k < ?t)"
    "\<And>p. nat k \<le> p \<Longrightarrow> p < length src \<Longrightarrow> src ! p = NL \<Longrightarrow> ?t \<le> int p + 1" by auto
qed


lemma expandEdit_eq:
  assumes "in_bounds src e"
  defines "s \<equiv> (case last_index_byte (take (nat (e_Start e)) src) NL of None \<Rightarrow> 0 | Some i \<Rightarrow> int i + 1)"
  defines "pre \<equiv> slice (nat s) (nat (e_Start e)) src"
  defines "t \<equiv> (if (e_End e > 0 \<and> src ! (nat (e_End e) - 1) \<noteq> NL)
       \<or> (pre @ e_New e \<noteq> [] \<and> last (pre @ e_New e) \<noteq> NL)
     then line_end_after src (e_End e) else e_End e)"
  shows "expandEdit e src =
    \<lparr>e_Start = s, e_End = t, e_New = pre @ e_New e @ slice (nat (e_End e)) (nat t) src\<rparr>"
proof -
  have s: "0 \<le> s" "s \<le> e_Start e"
    using expand_left(1,2) [OF assms(1)] by (simp_all add: s_def)
  let ?d = "e_Start e - 1 - (case last_index_byte (take (nat (e_Start e)) src) NL of
      None \<Rightarrow> -1 | Some i \<Rightarrow> int i)"
  let ?e1 = "if ?d > 0 then e\<lparr>e_Start := e_Start e - ?d,
       e_New := slice (nat (e_Start e - ?d)) (nat (e_Start e)) src @ e_New e\<rparr> else e"
  have d: "e_Start e - ?d = s" by (auto simp: s_def split: option.splits)
  have e1: "?e1 = \<lparr>e_Start = s, e_End = e_End e, e_New = pre @ e_New e\<rparr>"
  proof (cases "?d > 0")
    case True
    then show ?thesis unfolding d by (simp add: pre_def)
  next
    case False
    with s d have "s = e_Start e" by linarith
    with False show ?thesis by (simp add: pre_def)
  qed
  show ?thesis
    unfolding expandEdit_def Let_def e1 t_def line_end_after_def
    by (auto split: option.splits)
qed

text \<open>What widening one edit guarantees: it covers the edit, stops at line boundaries on both
  sides, crosses no other newline, and keeps the text around the edit.\<close>

lemma expandEdit_props:
  assumes "in_bounds src e"
  defines "e' \<equiv> expandEdit e src"
  shows "in_bounds src e'" "e_Start e' \<le> e_Start e" "e_End e \<le> e_End e'"
    and "whole_lines src e'"
    and "e_New e' = slice (nat (e_Start e')) (nat (e_Start e)) src @ e_New e
           @ slice (nat (e_End e)) (nat (e_End e')) src"
    and "\<And>p. p < nat (e_Start e) \<Longrightarrow> src ! p = NL \<Longrightarrow> int p + 1 \<le> e_Start e'"
    and "\<And>p. nat (e_End e) \<le> p \<Longrightarrow> p < length src \<Longrightarrow> src ! p = NL \<Longrightarrow> e_End e' \<le> int p + 1"
proof -
  define s where "s = (case last_index_byte (take (nat (e_Start e)) src) NL of
     None \<Rightarrow> 0 | Some i \<Rightarrow> int i + 1)"
  define pre where "pre = slice (nat s) (nat (e_Start e)) src"
  define cond where "cond \<longleftrightarrow> (e_End e > 0 \<and> src ! (nat (e_End e) - 1) \<noteq> NL)
       \<or> (pre @ e_New e \<noteq> [] \<and> last (pre @ e_New e) \<noteq> NL)"
  define t where "t = (if cond then line_end_after src (e_End e) else e_End e)"
  define post where "post = slice (nat (e_End e)) (nat t) src"
  have e': "e' = \<lparr>e_Start = s, e_End = t, e_New = pre @ e_New e @ post\<rparr>"
    unfolding e'_def expandEdit_eq [OF assms(1)] post_def t_def cond_def pre_def s_def by simp
  have b: "0 \<le> e_Start e" "e_Start e \<le> e_End e" "e_End e \<le> int (length src)"
    using assms(1) by (auto simp: in_bounds_def)
  note left = expand_left [OF assms(1), folded s_def]
  note right = line_end_after [of "e_End e" src]
  have t: "e_End e \<le> t" "t \<le> int (length src)"
    using right(1,2) b by (auto simp: t_def)
  show "in_bounds src e'" "e_Start e' \<le> e_Start e" "e_End e \<le> e_End e'"
    using left(1,2) t b by (auto simp: e' in_bounds_def)
  show "e_New e' = slice (nat (e_Start e')) (nat (e_Start e)) src @ e_New e
           @ slice (nat (e_End e)) (nat (e_End e')) src"
    by (simp add: e' pre_def post_def)
  show "int p + 1 \<le> e_Start e'" if "p < nat (e_Start e)" "src ! p = NL" for p
    using left(4) [OF that] by (simp add: e')
  show "e_End e' \<le> int p + 1" if p: "nat (e_End e) \<le> p" "p < length src" "src ! p = NL" for p
    using right(4) [OF _ _ p] p b by (auto simp: e' t_def)
  have ends: "line_start src t \<or> t = int (length src)"
    using right(3) b by (auto simp: t_def cond_def line_start_def)
  have "pre @ e_New e @ post = [] \<or> last (pre @ e_New e @ post) = NL \<or> t = int (length src)"
  proof (cases cond)
    case False
    then show ?thesis by (auto simp: cond_def post_def t_def)
  next
    case cond: True
    show ?thesis
    proof (cases "t = int (length src)")
      case False
      with cond right(3) b have ls: "line_start src t" "e_End e < t" by (auto simp: t_def)
      then have "src ! (nat t - 1) = NL" using b by (auto simp: line_start_def)
      moreover have len: "length post = nat t - nat (e_End e)" "0 < nat t - nat (e_End e)"
        using t b ls by (simp_all add: post_def)
      then have ne: "post \<noteq> []" by auto
      moreover have "post ! (length post - 1) = src ! (nat (e_End e) + (length post - 1))"
        unfolding post_def using len t b by (intro nth_slice) (auto simp: post_def)
      then have "last post = src ! (nat t - 1)" using len ne by (simp add: last_conv_nth)
      ultimately show ?thesis by simp
    qed simp
  qed
  with left(3) ends show "whole_lines src e'" by (simp add: e' whole_lines_def)
qed

section \<open>The loop\<close>

fun line_list :: "string \<Rightarrow> edit \<Rightarrow> edit list \<Rightarrow> edit list" where
  "line_list src prev [] = [expandEdit prev src]"
| "line_list src prev (e # es) =
     (let between = slice (nat (e_End prev)) (nat (e_Start e)) src
      in if NL \<notin> set between then
           line_list src (prev\<lparr>e_New := e_New prev @ between @ e_New e, e_End := e_End e\<rparr>) es
         else expandEdit prev src # line_list src e es)"

lemma line_loop_list: "line_loop src prev es acc = acc @ line_list src prev es"
  by (induction src prev es acc rule: line_loop.induct) (auto simp: Let_def str_contains_NL)

lemma patch_expand:
  assumes "in_bounds src e" "0 \<le> l" "l \<le> e_Start (expandEdit e src)"
    and "ok_edits (int (length src)) (e_End (expandEdit e src)) es"
  shows "patch src l (expandEdit e src # es) =
    slice (nat l) (nat (e_Start e)) src @ e_New e @ patch src (e_End e) es"
proof -
  note x = expandEdit_props [OF assms(1)]
  have "patch src (e_End e) es = slice (nat (e_End e)) (nat (e_End (expandEdit e src))) src
     @ patch src (e_End (expandEdit e src)) es"
    using x(1,3) assms(1,4) by (intro patch_prefix) (auto simp: in_bounds_def)
  then show ?thesis
    using slice_append_nat [of l "e_Start (expandEdit e src)" "e_Start e" src] x(2) assms(3)
    by (simp add: x(5))
qed

lemma ok_edits_in_bounds: "ok_edits (int (length src)) l (e # es) \<Longrightarrow> in_bounds src e"
  by (simp add: in_bounds_def)

lemma line_list_props:
  "ok_edits (int (length src)) l (prev # es) \<Longrightarrow> 0 \<le> l \<Longrightarrow> l \<le> e_Start (expandEdit prev src) \<Longrightarrow>
   ok_edits (int (length src)) l (line_list src prev es)
   \<and> patch src l (line_list src prev es) = patch src l (prev # es)
   \<and> (\<forall>e \<in> set (line_list src prev es). whole_lines src e)"
proof (induction src prev es arbitrary: l rule: line_list.induct)
  case (1 src prev)
  note ib = ok_edits_in_bounds [OF "1.prems"(1)]
  note x = expandEdit_props [OF ib]
  show ?case
    using "1.prems" x(1,4) patch_expand [OF ib, of l "[]"] by (auto simp: in_bounds_def)
next
  case (2 src prev e es)
  note ib = ok_edits_in_bounds [OF "2.prems"(1)]
  have ok: "0 \<le> e_Start prev" "l \<le> e_Start prev" "e_Start prev \<le> e_End prev"
    "e_End prev \<le> e_Start e" "e_Start e \<le> e_End e" "e_End e \<le> int (length src)"
    "ok_edits (int (length src)) (e_End e) es"
    using "2.prems"(1) by auto
  define between where "between = slice (nat (e_End prev)) (nat (e_Start e)) src"
  show ?case
  proof (cases "NL \<in> set between")
    case False
    define p' where "p' = prev\<lparr>e_New := e_New prev @ between @ e_New e, e_End := e_End e\<rparr>"
    have ok': "ok_edits (int (length src)) l (p' # es)" using ok by (simp add: p'_def)
    have ib': "in_bounds src p'" using ok by (simp add: p'_def in_bounds_def)
    have st: "e_Start (expandEdit p' src) = e_Start (expandEdit prev src)"
      by (simp add: expandEdit_eq [OF ib] expandEdit_eq [OF ib']) (simp add: p'_def)
    have IH: "ok_edits (int (length src)) l (line_list src p' es)
      \<and> patch src l (line_list src p' es) = patch src l (p' # es)
      \<and> (\<forall>e \<in> set (line_list src p' es). whole_lines src e)"
      unfolding p'_def using False "2.prems"(2,3) ok' st
      by (intro "2.IH"(1)) (simp_all add: between_def p'_def)
    have "patch src l (p' # es) = patch src l (prev # e # es)"
      by (simp add: p'_def between_def)
    moreover have "line_list src prev (e # es) = line_list src p' es"
      using False by (simp add: Let_def p'_def between_def)
    ultimately show ?thesis using IH by simp
  next
    case True
    then obtain k where k: "k < length between" "between ! k = NL" by (auto simp: in_set_conv_nth)
    define p where "p = nat (e_End prev) + k"
    have p: "nat (e_End prev) \<le> p" "p < nat (e_Start e)" "p < length src" "src ! p = NL"
      using k ok by (auto simp: p_def between_def nth_slice)
    have ok_e: "ok_edits (int (length src)) (e_End prev) (e # es)" using ok by simp
    note ib_e = ok_edits_in_bounds [OF ok_e]
    note x = expandEdit_props [OF ib] and y = expandEdit_props [OF ib_e]
    let ?l = "e_End (expandEdit prev src)"
    have le: "?l \<le> e_Start (expandEdit e src)"
      using x(7) [OF p(1,3,4)] y(6) [OF p(2,4)] by simp
    have ok_l: "ok_edits (int (length src)) ?l (e # es)"
      using ok le y(2) by auto
    have IH: "ok_edits (int (length src)) ?l (line_list src e es)
      \<and> patch src ?l (line_list src e es) = patch src ?l (e # es)
      \<and> (\<forall>e' \<in> set (line_list src e es). whole_lines src e')"
      using True ok_l le x(1) by (intro "2.IH"(2)) (auto simp: between_def in_bounds_def)
    then have okl: "ok_edits (int (length src)) ?l (line_list src e es)"
      and pat: "patch src ?l (line_list src e es) = patch src ?l (e # es)" by auto
    have "patch src l (line_list src prev (e # es)) = patch src l (expandEdit prev src # line_list src e es)"
      using True by (simp add: Let_def between_def)
    also have "\<dots> = patch src l (expandEdit prev src # e # es)" using pat by simp
    also have "\<dots> = patch src l (prev # e # es)"
      using patch_expand [OF ib "2.prems"(2,3) ok_l] by simp
    finally have "patch src l (line_list src prev (e # es)) = patch src l (prev # e # es)" .
    moreover have "line_list src prev (e # es) = expandEdit prev src # line_list src e es"
      using True by (simp add: Let_def between_def)
    ultimately show ?thesis
      using IH okl x(1,4) "2.prems"(3) by (auto simp: in_bounds_def)
  qed
qed

lemma line_list_whole:
  assumes "ok_edits (int (length src)) 0 (e # es)"
  shows "ok_edits (int (length src)) 0 (line_list src e es)"
    and "patch src 0 (line_list src e es) = patch src 0 (e # es)"
    and "\<forall>e' \<in> set (line_list src e es). whole_lines src e'"
proof -
  note ib = ok_edits_in_bounds [OF assms]
  have "0 \<le> e_Start (expandEdit e src)"
    using expandEdit_props(1) [OF ib] by (simp add: in_bounds_def)
  from line_list_props [OF assms order_refl this]
  show "ok_edits (int (length src)) 0 (line_list src e es)"
    and "patch src 0 (line_list src e es) = patch src 0 (e # es)"
    and "\<forall>e' \<in> set (line_list src e es). whole_lines src e'" by simp_all
qed

lemma ok_edits_all_in_bounds:
  "ok_edits (int (length src)) l es \<Longrightarrow> 0 \<le> l \<Longrightarrow> e \<in> set es \<Longrightarrow> in_bounds src e"
  by (induction es arbitrary: l) (auto simp: in_bounds_def)

lemma lineEdits_Ok:
  assumes "lineEdits src es = Ok es'"
  shows "ok_edits (int (length src)) 0 (SortEdits es)"
    and "ok_edits (int (length src)) 0 es'"
    and "patch src 0 es' = patch src 0 (SortEdits es)"
    and "\<forall>e \<in> set es'. whole_lines src e"
proof -
  from assms obtain es1 z where v: "validate src es = Ok (es1, z)"
    unfolding lineEdits_def bind_outcome_Ok_iff by auto
  then have es1: "es1 = SortEdits es" and ok: "ok_edits (int (length src)) 0 es1"
    by (simp_all add: validate_Ok_iff)
  then show "ok_edits (int (length src)) 0 (SortEdits es)" by simp
  have "ok_edits (int (length src)) 0 es' \<and> patch src 0 es' = patch src 0 es1
      \<and> (\<forall>e \<in> set es'. whole_lines src e)"
  proof (cases "\<forall>e \<in> set es1. \<not> misaligned src e")
    case True
    with assms v have "es' = es1" by (simp add: lineEdits_def)
    moreover have "\<forall>e \<in> set es1. whole_lines src e"
      using True ok_edits_all_in_bounds [OF ok] by (auto intro: aligned_whole_lines)
    ultimately show ?thesis using ok by simp
  next
    case False
    then obtain e rest where er: "es1 = e # rest" by (cases es1) auto
    have "lineEdits src es = Ok (line_loop src e rest [])"
      unfolding lineEdits_def v er bind_outcome.simps prod.case list.case
      using False er by (simp only: if_False)
    with assms have "es' = line_list src e rest" by (simp add: line_loop_list)
    then show ?thesis using line_list_whole [of src e rest] ok er by simp
  qed
  then show "ok_edits (int (length src)) 0 es'" "patch src 0 es' = patch src 0 (SortEdits es)"
    "\<forall>e \<in> set es'. whole_lines src e" by (simp_all add: es1)
qed

section \<open>Property\<close>

lemma lineEdits_total:
  "case lineEdits src es of
     Ok es' \<Rightarrow> ok_edits (int (length src)) 0 es' \<and> is_Ok (Apply src es)
              \<and> Apply src es' = Apply src es \<and> (\<forall>e \<in> set es'. whole_lines src e)
   | Err err \<Rightarrow> Apply src es = Err err
   | Panic \<Rightarrow> False"
proof (cases "lineEdits src es")
  case (Ok es')
  note le = lineEdits_Ok [OF Ok]
  then show ?thesis
    using Ok by (simp add: Apply_ok [OF le(1)] Apply_ok ok_edits_SortEdits [OF le(2)])
next
  case (Err err)
  then have "validate src es = Err err"
    unfolding lineEdits_def
    by (cases "validate src es") (auto split: if_splits list.splits prod.splits)
  with Err show ?thesis by (simp add: Apply_def)
next
  case Panic
  then have "validate src es = Panic"
    unfolding lineEdits_def
    by (cases "validate src es") (auto split: if_splits list.splits prod.splits)
  then show ?thesis
    using check_edits_not_Panic [of "int (length src)" "int (length src)" 0 "SortEdits es"]
    by (cases "check_edits (int (length src)) (int (length src)) 0 (SortEdits es)")
       (auto simp: validate_eq)
qed

text \<open>Claim C7: \<open>lineEdits\<close> fails exactly with the error \<open>Apply\<close> reports for the same edits;
  otherwise its result is valid, patches the source to the same text as the given edits, and
  every resulting edit replaces whole lines: it starts at the start of a line, ends at one or
  at the end of the file, and its replacement is empty or ends with a newline unless it
  reaches the end of the file.\<close>

theorem lineEdits_spec:
  "case lineEdits src es of
     Ok es' \<Rightarrow> ok_edits (int (length src)) 0 es' \<and> is_Ok (Apply src es)
              \<and> Apply src es' = Apply src es \<and> (\<forall>e \<in> set es'. whole_lines src e)
   | Err err \<Rightarrow> Apply src es = Err err
   | Panic \<Rightarrow> False"
  by (rule lineEdits_total)

theorem lineEdits_spec_witness:
  "lineEdits (''ab'' @ NL # ''cd'') [mk_edit 1 2 ''X''] = Ok [mk_edit 0 3 (''aX'' @ [NL])]
   \<and> Apply (''ab'' @ NL # ''cd'') [mk_edit 0 3 (''aX'' @ [NL])] = Apply (''ab'' @ NL # ''cd'') [mk_edit 1 2 ''X'']
   \<and> whole_lines (''ab'' @ NL # ''cd'') (mk_edit 0 3 (''aX'' @ [NL]))"
proof -
  have a: "lineEdits (''ab'' @ NL # ''cd'') [mk_edit 1 2 ''X''] = Ok [mk_edit 0 3 (''aX'' @ [NL])]"
    by code_simp
  show ?thesis
    using lineEdits_spec [of "''ab'' @ NL # ''cd''" "[mk_edit 1 2 ''X'']"] unfolding a by simp
qed

end
