(* ===== verification/Diff_Unified.thy ===== *)
theory Diff_Unified
  imports Diff_Lines
begin

text \<open>
  Unified diffs (\<open>tools/internal/diff/unified.go\<close>): \<open>splitLines\<close>, the hunk builder
  \<open>toUnified\<close> and the textual form \<open>String\<close>.  \<open>run_hunks\<close> is the meaning of a list of
  hunks: what a patch program makes of the old lines.  The main result is that the hunks of
  \<open>toUnified\<close>, run on the old lines, yield exactly the edited text.
\<close>

section \<open>Lines\<close>

text \<open>\<open>splitLines\<close>: the lines, each with its newline, without a final empty line; and the
  offsets of the line beginnings.\<close>

fun split_lines :: "string \<Rightarrow> string list" where
  "split_lines [] = []"
| "split_lines (c # cs) =
     (if c = NL then [c] # split_lines cs
      else (case split_lines cs of [] \<Rightarrow> [[c]] | l # ls \<Rightarrow> (c # l) # ls))"

fun line_offsets :: "nat \<Rightarrow> string list \<Rightarrow> nat list" where
  "line_offsets off [] = [off]"
| "line_offsets off (l # ls) = off # line_offsets (off + length l) ls"

definition splitLines :: "string \<Rightarrow> string list \<times> nat list" where
  "splitLines text = (split_lines text, line_offsets 0 (split_lines text))"

lemma concat_split_lines [simp]: "concat (split_lines s) = s"
  by (induction s) (auto split: list.splits)

lemma split_lines_Nil_iff [simp]: "split_lines s = [] \<longleftrightarrow> s = []"
  by (cases s) (auto split: list.splits)

lemma split_lines_append_NL: "split_lines (a @ NL # b) = split_lines (a @ [NL]) @ split_lines b"
proof (induction a)
  case Nil
  then show ?case by simp
next
  case (Cons x xs)
  have "split_lines (xs @ [NL]) \<noteq> []" by simp
  then obtain l ls where "split_lines (xs @ [NL]) = l # ls" by (cases "split_lines (xs @ [NL])") auto
  with Cons show ?case by auto
qed

lemma split_lines_append:
  assumes "a = [] \<or> last a = NL"
  shows "split_lines (a @ b) = split_lines a @ split_lines b"
proof (cases "a = []")
  case False
  with assms have "a = butlast a @ [NL]" by (metis append_butlast_last_id)
  then obtain a' where "a = a' @ [NL]" by blast
  then show ?thesis using split_lines_append_NL [of a' b] by simp
qed simp

lemma length_split_lines:
  "s = [] \<or> last s = NL \<Longrightarrow> length (split_lines s) = count_list s NL"
proof (induction s)
  case Nil
  then show ?case by simp
next
  case (Cons c s)
  show ?case
  proof (cases "s = []")
    case True
    with Cons.prems show ?thesis by simp
  next
    case False
    with Cons have "length (split_lines s) = count_list s NL" by simp
    with False show ?thesis by (cases "split_lines s") auto
  qed
qed

lemma length_split_lines_unterminated:
  "s \<noteq> [] \<Longrightarrow> last s \<noteq> NL \<Longrightarrow> length (split_lines s) = Suc (count_list s NL)"
proof (induction s)
  case Nil
  then show ?case by simp
next
  case (Cons c s)
  show ?case
  proof (cases "s = []")
    case True
    with Cons.prems show ?thesis by simp
  next
    case False
    with Cons have "length (split_lines s) = Suc (count_list s NL)" by simp
    with False show ?thesis by (cases "split_lines s") auto
  qed
qed

section \<open>Hunks\<close>

datatype opKind = opDelete | opInsert | opEqual

record hunk =
  fromLine :: int
  toLine :: int
  h_lines :: "(opKind \<times> string) list"

record unified =
  u_from :: string
  u_to :: string
  u_hunks :: "hunk list"

text \<open>\<open>addEqualLines\<close>: negative indices are skipped, and the loop stops at the last line.  The
  lines to append; their number is the returned \<open>delta\<close>.\<close>

function equal_lines :: "string list \<Rightarrow> int \<Rightarrow> int \<Rightarrow> (opKind \<times> string) list" where
  "equal_lines lines i end =
     (if i < end then
        if i < 0 then equal_lines lines (i + 1) end
        else if i \<ge> int (length lines) then []
        else (opEqual, lines ! nat i) # equal_lines lines (i + 1) end
      else [])"
  by pat_completeness auto
termination by (relation "measure (\<lambda>(lines, i, end). nat (end - i))") auto

declare equal_lines.simps [simp del]

definition addEqualLines :: "hunk \<Rightarrow> string list \<Rightarrow> int \<Rightarrow> int \<Rightarrow> hunk \<times> int" where
  "addEqualLines h lines start end =
     (let eq = equal_lines lines start end
      in (h\<lparr>h_lines := h_lines h @ eq\<rparr>, int (length eq)))"

text \<open>The line numbers of an edit: newlines before its offsets, where the end of an
  unterminated file counts as a line end.\<close>

definition edit_line_start :: "string \<Rightarrow> edit \<Rightarrow> int" where
  "edit_line_start content e = int (count_list (take (nat (e_Start e)) content) NL)"

definition edit_line_end :: "string \<Rightarrow> edit \<Rightarrow> int" where
  "edit_line_end content e =
     int (count_list (take (nat (e_End e)) content) NL)
     + (if e_End e = int (length content) \<and> length content > 0 \<and> last content \<noteq> NL then 1 else 0)"

text \<open>The variables of the loop of \<open>toUnified\<close>: the finished hunks, the current hunk, the line
  after the last edit, and the running line number in the new file.\<close>

record ustate =
  s_hunks :: "hunk list"
  s_h :: "hunk option"
  s_last :: int
  s_toLine :: int

text \<open>The \<open>switch\<close>: extend the current hunk, join it, or start a new one.\<close>

definition open_hunk :: "int \<Rightarrow> string list \<Rightarrow> int \<Rightarrow> ustate \<Rightarrow> ustate \<times> hunk" where
  "open_hunk contextLines lines start st =
     (let gap = contextLines * 2; last = s_last st;
          fresh = (\<lambda>hunks.
            let tl = s_toLine st + (start - last);
                (h, delta) = addEqualLines \<lparr>fromLine = start + 1, toLine = tl + 1, h_lines = []\<rparr>
                               lines (start - contextLines) start
            in (st\<lparr>s_hunks := hunks, s_toLine := tl\<rparr>,
                h\<lparr>fromLine := fromLine h - delta, toLine := toLine h - delta\<rparr>))
      in case s_h st of
           Some h \<Rightarrow>
             if start = last then (st, h)
             else if start \<le> last + gap then (st, fst (addEqualLines h lines last start))
             else fresh (s_hunks st @ [fst (addEqualLines h lines last (last + contextLines))])
         | None \<Rightarrow> fresh (s_hunks st))"

text \<open>One iteration: the deleted lines \<open>lines[start:end]\<close>, then the lines of the
  replacement.\<close>

definition unified_step :: "int \<Rightarrow> string list \<Rightarrow> string \<Rightarrow> ustate \<Rightarrow> edit \<Rightarrow> ustate" where
  "unified_step contextLines lines content st e =
     (let start = edit_line_start content e;
          end = edit_line_end content e;
          (st1, h) = open_hunk contextLines lines start st;
          dels = map (\<lambda>l. (opDelete, l)) (slice (nat start) (nat end) lines);
          ins = (if e_New e \<noteq> [] then map (\<lambda>l. (opInsert, l)) (fst (splitLines (e_New e))) else [])
      in st1\<lparr>s_h := Some (h\<lparr>h_lines := h_lines h @ dels @ ins\<rparr>),
             s_last := max start end,
             s_toLine := s_toLine st1 + int (length ins)\<rparr>)"

definition finish_hunks :: "int \<Rightarrow> string list \<Rightarrow> ustate \<Rightarrow> hunk list" where
  "finish_hunks contextLines lines st =
     (case s_h st of
        None \<Rightarrow> s_hunks st
      | Some h \<Rightarrow> s_hunks st @ [fst (addEqualLines h lines (s_last st) (s_last st + contextLines))])"

definition toUnified ::
    "string \<Rightarrow> string \<Rightarrow> string \<Rightarrow> edit list \<Rightarrow> int \<Rightarrow> (diff_error, unified) outcome" where
  "toUnified fromName toName content edits contextLines =
     (let u = \<lparr>u_from = fromName, u_to = toName, u_hunks = []\<rparr>
      in if edits = [] then Ok u
         else bind_outcome (lineEdits content edits) (\<lambda>edits.
           let lines = fst (splitLines content);
               st = foldl (unified_step contextLines lines content)
                      \<lparr>s_hunks = [], s_h = None, s_last = 0, s_toLine = 0\<rparr> edits
           in Ok (u\<lparr>u_hunks := finish_hunks contextLines lines st\<rparr>)))"

section \<open>The textual form\<close>

definition op_prefix :: "opKind \<Rightarrow> string" where
  "op_prefix k = (case k of opDelete \<Rightarrow> ''-'' | opInsert \<Rightarrow> ''+'' | opEqual \<Rightarrow> '' '')"

definition from_count :: "hunk \<Rightarrow> nat" where
  "from_count h = length (filter (\<lambda>(k, l). k \<noteq> opInsert) (h_lines h))"

definition to_count :: "hunk \<Rightarrow> nat" where
  "to_count h = length (filter (\<lambda>(k, l). k \<noteq> opDelete) (h_lines h))"

definition range_string :: "char \<Rightarrow> int \<Rightarrow> nat \<Rightarrow> string" where
  "range_string sign line count =
     (if count > 1 then '' '' @ [sign] @ itoa_int line @ '','' @ itoa count
      else if line = 1 \<and> count = 0 then '' '' @ [sign] @ ''0,0''
      else '' '' @ [sign] @ itoa_int line)"

definition line_string :: "opKind \<times> string \<Rightarrow> string" where
  "line_string kl =
     op_prefix (fst kl) @ snd kl
     @ (if has_suffix (snd kl) [NL] then [] else NL # CHR 0x5C # '' No newline at end of file'' @ [NL])"

definition hunk_string :: "hunk \<Rightarrow> string" where
  "hunk_string h =
     ''@@'' @ range_string CHR ''-'' (fromLine h) (from_count h)
     @ range_string CHR ''+'' (toLine h) (to_count h) @ '' @@'' @ [NL]
     @ concat (map line_string (h_lines h))"

definition unified_String :: "unified \<Rightarrow> string" where
  "unified_String u =
     (if u_hunks u = [] then []
      else ''--- '' @ u_from u @ [NL] @ ''+++ '' @ u_to u @ [NL]
           @ concat (map hunk_string (u_hunks u)))"

definition ToUnified ::
    "string \<Rightarrow> string \<Rightarrow> string \<Rightarrow> edit list \<Rightarrow> int \<Rightarrow> (diff_error, string) outcome" where
  "ToUnified oldLabel newLabel content edits contextLines =
     bind_outcome (toUnified oldLabel newLabel content edits contextLines) (\<lambda>u. Ok (unified_String u))"

section \<open>Running hunks\<close>

definition hunk_old :: "hunk \<Rightarrow> string list" where
  "hunk_old h = map snd (filter (\<lambda>(k, l). k \<noteq> opInsert) (h_lines h))"

definition hunk_new :: "hunk \<Rightarrow> string list" where
  "hunk_new h = map snd (filter (\<lambda>(k, l). k \<noteq> opDelete) (h_lines h))"

text \<open>One hunk: the lines up to \<open>fromLine\<close> are copied, the old lines of the hunk must be the
  next lines of the file, and they are replaced by its new lines.  The state is the output and
  the number of old lines consumed.\<close>

definition run_hunk :: "string list \<Rightarrow> hunk \<Rightarrow> string list \<times> nat \<Rightarrow> (string list \<times> nat) option" where
  "run_hunk lines h oq =
     (let (out, q) = oq; s = nat (fromLine h - 1); n = length (hunk_old h)
      in if 1 \<le> fromLine h \<and> q \<le> s \<and> s + n \<le> length lines \<and> slice s (s + n) lines = hunk_old h
         then Some (out @ slice q s lines @ hunk_new h, s + n) else None)"

fun run_hunks :: "string list \<Rightarrow> hunk list \<Rightarrow> string list \<times> nat \<Rightarrow> (string list \<times> nat) option" where
  "run_hunks lines [] oq = Some oq"
| "run_hunks lines (h # hs) oq = Option.bind (run_hunk lines h oq) (run_hunks lines hs)"

definition patch_lines :: "string list \<Rightarrow> hunk list \<Rightarrow> string list option" where
  "patch_lines lines hs = map_option (\<lambda>(out, q). out @ drop q lines) (run_hunks lines hs ([], 0))"

lemma run_hunks_snoc:
  "run_hunks lines (hs @ [h]) oq = Option.bind (run_hunks lines hs oq) (run_hunk lines h)"
  by (induction hs arbitrary: oq) (auto split: Option.bind_splits)

lemma equal_lines_slice:
  "equal_lines lines i e =
     map (\<lambda>l. (opEqual, l)) (slice (nat (max 0 i)) (nat (min e (int (length lines)))) lines)"
proof (induction lines i e rule: equal_lines.induct)
  case (1 lines i e)
  consider "\<not> i < e" | "i < e" "i < 0" | "i < e" "\<not> i < 0" "i \<ge> int (length lines)"
    | "i < e" "\<not> i < 0" "i < int (length lines)" by linarith
  then show ?case
  proof cases
    case 1
    then show ?thesis by (simp add: equal_lines.simps [of lines i e])
  next
    case 2
    with "1.IH"(1) show ?thesis by (simp add: equal_lines.simps [of lines i e])
  next
    case 3
    then show ?thesis by (simp add: equal_lines.simps [of lines i e])
  next
    case 4
    let ?k = "nat (min e (int (length lines)))"
    have i: "nat i < length lines" "nat i < ?k" "nat (i + 1) = Suc (nat i)" using 4 by linarith+
    then have "slice (nat i) ?k lines = lines ! nat i # slice (Suc (nat i)) ?k lines"
      unfolding slice_def by (metis Cons_nth_drop_Suc Suc_diff_Suc take_Suc_Cons)
    with 4 i "1.IH"(2) show ?thesis by (simp add: equal_lines.simps [of lines i e])
  qed
qed

lemma equal_lines_between:
  "0 \<le> i \<Longrightarrow> e \<le> int (length lines) \<Longrightarrow>
   equal_lines lines i e = map (\<lambda>l. (opEqual, l)) (slice (nat i) (nat e) lines)"
  by (simp add: equal_lines_slice)

lemma hunk_old_map [simp]:
  "hunk_old (h\<lparr>h_lines := ls @ map (\<lambda>l. (opEqual, l)) xs\<rparr>) = hunk_old (h\<lparr>h_lines := ls\<rparr>) @ xs"
  "hunk_old (h\<lparr>h_lines := ls @ map (\<lambda>l. (opDelete, l)) xs\<rparr>) = hunk_old (h\<lparr>h_lines := ls\<rparr>) @ xs"
  "hunk_old (h\<lparr>h_lines := ls @ map (\<lambda>l. (opInsert, l)) xs\<rparr>) = hunk_old (h\<lparr>h_lines := ls\<rparr>)"
  "hunk_new (h\<lparr>h_lines := ls @ map (\<lambda>l. (opEqual, l)) xs\<rparr>) = hunk_new (h\<lparr>h_lines := ls\<rparr>) @ xs"
  "hunk_new (h\<lparr>h_lines := ls @ map (\<lambda>l. (opDelete, l)) xs\<rparr>) = hunk_new (h\<lparr>h_lines := ls\<rparr>)"
  "hunk_new (h\<lparr>h_lines := ls @ map (\<lambda>l. (opInsert, l)) xs\<rparr>) = hunk_new (h\<lparr>h_lines := ls\<rparr>) @ xs"
  by (auto simp: hunk_old_def hunk_new_def comp_def)

text \<open>Appending context, deleted and inserted lines to a hunk.\<close>

lemma slice_extend:
  "slice s (s + n) lines = old \<Longrightarrow> s + n \<le> r \<Longrightarrow> slice s r lines = old @ slice (s + n) r lines"
  using slice_append_slice [of s "s + n" r lines] by simp

lemma run_hunk_extend:
  assumes "run_hunk lines h oq = Some (out, q)" and "q \<le> r" and "r \<le> length lines"
  shows run_hunk_equal: "run_hunk lines (h\<lparr>h_lines := h_lines h @ map (\<lambda>l. (opEqual, l)) (slice q r lines)\<rparr>) oq
           = Some (out @ slice q r lines, r)"
    and run_hunk_delete: "run_hunk lines (h\<lparr>h_lines := h_lines h @ map (\<lambda>l. (opDelete, l)) (slice q r lines)\<rparr>) oq
           = Some (out, r)"
proof -
  obtain out0 q0 where oq: "oq = (out0, q0)" by (cases oq)
  let ?s = "nat (fromLine h - 1)" and ?n = "length (hunk_old h)"
  from assms(1) have run: "1 \<le> fromLine h" "q0 \<le> ?s" "?s + ?n \<le> length lines"
    "slice ?s (?s + ?n) lines = hunk_old h" "out = out0 @ slice q0 ?s lines @ hunk_new h" "q = ?s + ?n"
    by (auto simp: run_hunk_def oq Let_def split: if_splits)
  have "slice ?s r lines = hunk_old h @ slice q r lines"
    using slice_extend [OF run(4), of r] assms(2) run(6) by simp
  moreover have "length (slice q r lines) = r - q" using assms(2,3) by simp
  ultimately show
    "run_hunk lines (h\<lparr>h_lines := h_lines h @ map (\<lambda>l. (opEqual, l)) (slice q r lines)\<rparr>) oq
           = Some (out @ slice q r lines, r)"
    "run_hunk lines (h\<lparr>h_lines := h_lines h @ map (\<lambda>l. (opDelete, l)) (slice q r lines)\<rparr>) oq
           = Some (out, r)"
    using run assms(2,3) by (auto simp: run_hunk_def oq Let_def)
qed

lemma run_hunk_insert:
  "run_hunk lines h oq = Some (out, q) \<Longrightarrow>
   run_hunk lines (h\<lparr>h_lines := h_lines h @ map (\<lambda>l. (opInsert, l)) xs\<rparr>) oq = Some (out @ xs, q)"
  by (cases oq) (auto simp: run_hunk_def Let_def split: if_splits)

lemma run_hunk_fresh:
  assumes "q \<le> s" "s \<le> r" "r \<le> length lines"
  shows "run_hunk lines \<lparr>fromLine = int s + 1, toLine = t,
           h_lines = map (\<lambda>l. (opEqual, l)) (slice s r lines)\<rparr> (out, q)
         = Some (out @ slice q r lines, r)"
  using assms slice_append_slice [of q s r lines]
  by (simp add: run_hunk_def Let_def hunk_old_def hunk_new_def comp_def)

section \<open>The hunk builder keeps a runnable list of hunks\<close>

definition st_ok :: "string list \<Rightarrow> ustate \<Rightarrow> string list \<Rightarrow> nat \<Rightarrow> bool" where
  "st_ok lines st out q \<longleftrightarrow>
     s_last st = int q \<and> q \<le> length lines \<and>
     (case s_h st of
        None \<Rightarrow> s_hunks st = [] \<and> q = 0 \<and> out = []
      | Some h \<Rightarrow> run_hunks lines (s_hunks st @ [h]) ([], 0) = Some (out, q))"

lemma run_hunks_snocE:
  assumes "run_hunks lines (hs @ [h]) oq = Some r"
  obtains oq' where "run_hunks lines hs oq = Some oq'" "run_hunk lines h oq' = Some r"
  using assms by (auto simp: run_hunks_snoc Option.bind_eq_Some_conv)

lemma run_hunks_equal:
  assumes "run_hunks lines (hs @ [h]) ([], 0) = Some (out, q)" "q \<le> r" "r \<le> length lines"
  shows "run_hunks lines (hs @ [h\<lparr>h_lines := h_lines h @ equal_lines lines (int q) (int r)\<rparr>]) ([], 0)
         = Some (out @ slice q r lines, r)"
  using assms
  by (auto simp: equal_lines_between run_hunks_snoc Option.bind_eq_Some_conv
           dest: run_hunk_equal elim!: run_hunks_snocE)

lemma fresh_hunk:
  assumes "run_hunks lines hs ([], 0) = Some (out, q)"
    and "0 \<le> ctx" "int q \<le> max 0 (start - ctx)" "0 \<le> start" "start \<le> int (length lines)"
  defines "eq \<equiv> equal_lines lines (start - ctx) start"
  shows "run_hunks lines (hs @ [\<lparr>fromLine = start + 1 - int (length eq), toLine = t, h_lines = eq\<rparr>]) ([], 0)
         = Some (out @ slice q (nat start) lines, nat start)"
proof -
  define s where "s = nat (max 0 (start - ctx))"
  have s: "q \<le> s" "s \<le> nat start" "nat start \<le> length lines"
    using assms(2,3,5) by (auto simp: s_def)
  have eq: "eq = map (\<lambda>l. (opEqual, l)) (slice s (nat start) lines)"
    using assms(5) by (simp add: eq_def equal_lines_slice s_def min_absorb1)
  moreover have "length (slice s (nat start) lines) = nat start - s" using s by simp
  ultimately have "start + 1 - int (length eq) = int s + 1"
    using s assms(4) by simp
  then show ?thesis
    using run_hunk_fresh [OF s, of t out] assms(1) eq by (simp add: run_hunks_snoc add.commute)
qed

lemma open_hunk_run:
  assumes "st_ok lines st out q" "0 \<le> ctx" "int q \<le> start" "start \<le> int (length lines)"
    and "open_hunk ctx lines start st = (st1, h)"
  shows "run_hunks lines (s_hunks st1 @ [h]) ([], 0)
         = Some (out @ slice q (nat start) lines, nat start)"
proof (cases "s_h st")
  case None
  then have "q = 0" "out = []" "s_hunks st = []" using assms(1) by (auto simp: st_ok_def)
  then show ?thesis
    using fresh_hunk [of lines "[]" "[]" 0 ctx start] assms None
    by (auto simp: open_hunk_def Let_def addEqualLines_def)
next
  case (Some g)
  then have g: "run_hunks lines (s_hunks st @ [g]) ([], 0) = Some (out, q)"
    and last: "s_last st = int q" and q: "q \<le> length lines"
    using assms(1) by (auto simp: st_ok_def)
  consider "start = int q" | "start \<noteq> int q" "start \<le> int q + ctx * 2" | "start > int q + ctx * 2"
    using assms(3) by linarith
  then show ?thesis
  proof cases
    case 1
    then show ?thesis using assms(5) Some last g by (auto simp: open_hunk_def Let_def)
  next
    case 2
    have "run_hunks lines (s_hunks st @ [g\<lparr>h_lines := h_lines g @ equal_lines lines (int q) start\<rparr>]) ([], 0)
         = Some (out @ slice q (nat start) lines, nat start)"
      using run_hunks_equal [OF g, of "nat start"] assms(3,4) by (simp add: nat_le_iff)
    then show ?thesis
      using assms(5) Some last 2 by (auto simp: open_hunk_def Let_def addEqualLines_def)
  next
    case 3
    let ?r = "q + nat ctx"
    let ?hs = "s_hunks st @ [g\<lparr>h_lines := h_lines g @ equal_lines lines (int q) (int q + ctx)\<rparr>]"
    have r: "?r \<le> nat start" "int ?r = int q + ctx" "int ?r \<le> max 0 (start - ctx)" "?r \<le> length lines"
      using 3 assms(2,4) by auto
    have "run_hunks lines ?hs ([], 0) = Some (out @ slice q ?r lines, ?r)"
      using run_hunks_equal [OF g, of ?r] r by simp
    from fresh_hunk [OF this assms(2) r(3) _ assms(4)]
    have "run_hunks lines (?hs @ [\<lparr>fromLine = start + 1 - int (length (equal_lines lines (start - ctx) start)),
        toLine = t, h_lines = equal_lines lines (start - ctx) start\<rparr>]) ([], 0)
      = Some (out @ slice q (nat start) lines, nat start)" for t
      using slice_append_slice [of q ?r "nat start" lines] assms(3) r(1) by simp
    then show ?thesis
      using assms(5) Some last 3 assms(2) by (auto simp: open_hunk_def Let_def addEqualLines_def)
  qed
qed

lemma unified_step_ok:
  assumes "st_ok lines st out q" "0 \<le> ctx"
    and "int q \<le> edit_line_start content e" "edit_line_start content e \<le> edit_line_end content e"
    and "edit_line_end content e \<le> int (length lines)"
  shows "st_ok lines (unified_step ctx lines content st e)
     (out @ slice q (nat (edit_line_start content e)) lines @ split_lines (e_New e))
     (nat (edit_line_end content e))"
proof -
  let ?s = "nat (edit_line_start content e)" and ?t = "nat (edit_line_end content e)"
  obtain st1 h where oh: "open_hunk ctx lines (edit_line_start content e) st = (st1, h)"
    by (cases "open_hunk ctx lines (edit_line_start content e) st")
  have "run_hunks lines (s_hunks st1 @ [h]) ([], 0) = Some (out @ slice q ?s lines, ?s)"
    using open_hunk_run [OF assms(1,2,3) _ oh] assms(4,5) by simp
  then obtain oq where oq: "run_hunks lines (s_hunks st1) ([], 0) = Some oq"
    "run_hunk lines h oq = Some (out @ slice q ?s lines, ?s)" by (rule run_hunks_snocE)
  have "run_hunk lines (h\<lparr>h_lines := h_lines h @ map (\<lambda>l. (opDelete, l)) (slice ?s ?t lines)\<rparr>) oq
      = Some (out @ slice q ?s lines, ?t)"
    using run_hunk_delete [OF oq(2), of ?t] assms(3,4,5) by (simp add: nat_mono)
  from run_hunk_insert [OF this, of "split_lines (e_New e)"]
  have "run_hunk lines (h\<lparr>h_lines := h_lines h @ map (\<lambda>l. (opDelete, l)) (slice ?s ?t lines)
        @ map (\<lambda>l. (opInsert, l)) (split_lines (e_New e))\<rparr>) oq
      = Some (out @ slice q ?s lines @ split_lines (e_New e), ?t)" by simp
  moreover have "max (edit_line_start content e) (edit_line_end content e) = int ?t"
    using assms(3,4) by simp
  moreover have "(if e_New e \<noteq> [] then map (\<lambda>l. (opInsert, l)) (fst (splitLines (e_New e))) else [])
      = map (\<lambda>l. (opInsert, l)) (split_lines (e_New e))" by (simp add: splitLines_def)
  ultimately show ?thesis
    using oh oq(1) assms(5)
    by (simp add: unified_step_def st_ok_def run_hunks_snoc Let_def nat_le_iff)
qed

lemma finish_hunks_ok:
  assumes "st_ok lines st out q" "0 \<le> ctx"
  shows "patch_lines lines (finish_hunks ctx lines st) = Some (out @ drop q lines)"
proof (cases "s_h st")
  case None
  then show ?thesis using assms by (auto simp: st_ok_def finish_hunks_def patch_lines_def)
next
  case (Some h)
  let ?r = "min (q + nat ctx) (length lines)"
  have g: "run_hunks lines (s_hunks st @ [h]) ([], 0) = Some (out, q)"
    and last: "s_last st = int q" and q: "q \<le> length lines"
    using assms(1) Some by (auto simp: st_ok_def)
  have "equal_lines lines (int q) (int q + ctx) = equal_lines lines (int q) (int ?r)"
    using assms(2) by (auto simp: equal_lines_slice min_def nat_add_distrib)
  then have "run_hunks lines (finish_hunks ctx lines st) ([], 0) = Some (out @ slice q ?r lines, ?r)"
    using run_hunks_equal [OF g, of ?r] q Some last by (simp add: finish_hunks_def addEqualLines_def Let_def)
  then show ?thesis
    using slice_append_drop [of q ?r lines] q by (simp add: patch_lines_def)
qed

section \<open>Offsets and line numbers\<close>

definition boundary :: "string \<Rightarrow> int \<Rightarrow> bool" where
  "boundary content k \<longleftrightarrow> 0 \<le> k \<and> (line_start content k \<or> k = int (length content))"

definition line_no :: "string \<Rightarrow> int \<Rightarrow> nat" where
  "line_no content k = count_list (take (nat k) content) NL
     + (if k = int (length content) \<and> length content > 0 \<and> last content \<noteq> NL then 1 else 0)"

lemma edit_line_end_no: "edit_line_end content e = int (line_no content (e_End e))"
  by (simp add: edit_line_end_def line_no_def)

lemma edit_line_start_no:
  "line_start content (e_Start e) \<Longrightarrow> edit_line_start content e = int (line_no content (e_Start e))"
  by (auto simp: edit_line_start_def line_no_def line_start_def last_conv_nth)

lemma count_list_take_mono: "i \<le> j \<Longrightarrow> count_list (take i xs) c \<le> count_list (take j xs) c"
  by (metis append_take_drop_id count_list_append le_add1 min.absorb1 take_take)

lemma line_no_mono: "k \<le> k' \<Longrightarrow> k' \<le> int (length content) \<Longrightarrow> line_no content k \<le> line_no content k'"
  using count_list_take_mono [of "nat k" "nat k'" content NL] by (auto simp: line_no_def nat_le_iff)

lemma line_no_take:
  assumes "boundary content k" "k \<le> int (length content)"
  shows "line_no content k \<le> length (split_lines content)"
    and "concat (take (line_no content k) (split_lines content)) = take (nat k) content"
proof -
  have "line_no content k \<le> length (split_lines content)
    \<and> concat (take (line_no content k) (split_lines content)) = take (nat k) content"
  proof (cases "k = int (length content) \<and> length content > 0 \<and> last content \<noteq> NL")
    case True
    then have "line_no content k = length (split_lines content)"
      using length_split_lines_unterminated [of content] by (simp add: line_no_def)
    with True show ?thesis by simp
  next
    case False
    let ?a = "take (nat k) content" and ?b = "drop (nat k) content"
    have a: "?a = [] \<or> last ?a = NL"
    proof (cases "0 < k \<and> content \<noteq> []")
      case True
      then have "last ?a = content ! (nat k - 1)"
        using assms(2) by (simp add: last_conv_nth min_absorb2)
      moreover have "content ! (nat k - 1) = NL"
        using assms(1) False True by (auto simp: boundary_def line_start_def last_conv_nth)
      ultimately show ?thesis by simp
    qed auto
    have "split_lines content = split_lines ?a @ split_lines ?b"
      using split_lines_append [OF a, of ?b] by simp
    moreover have "line_no content k = length (split_lines ?a)"
      using length_split_lines [OF a] False by (simp add: line_no_def)
    ultimately show ?thesis by simp
  qed
  then show "line_no content k \<le> length (split_lines content)"
    "concat (take (line_no content k) (split_lines content)) = take (nat k) content" by simp_all
qed

lemma concat_slice_lines:
  assumes "boundary content k" "boundary content k'" "k \<le> k'" "k' \<le> int (length content)"
  shows "concat (slice (line_no content k) (line_no content k') (split_lines content))
         = slice (nat k) (nat k') content"
proof -
  let ?ls = "split_lines content"
  have "concat (take (line_no content k) ?ls) @ concat (slice (line_no content k) (line_no content k') ?ls)
      = concat (take (line_no content k') ?ls)"
    using take_append_slice [OF line_no_mono [OF assms(3,4)], of ?ls] by (metis concat_append)
  moreover have "take (nat k) content @ slice (nat k) (nat k') content = take (nat k') content"
    by (rule take_append_nat_slice [OF assms(3)])
  ultimately show ?thesis
    using line_no_take(2) [OF assms(1)] line_no_take(2) [OF assms(2,4)] assms(3,4)
    by (metis append_same_eq order_trans same_append_eq)
qed

section \<open>The hunks patch the old lines to the new text\<close>

lemma whole_lines_boundary:
  assumes "whole_lines content e" "in_bounds content e"
  shows "boundary content (e_Start e)" "boundary content (e_End e)"
  using assms by (auto simp: whole_lines_def boundary_def in_bounds_def)

lemma unified_fold:
  assumes "ok_edits (int (length content)) l es" "\<forall>e \<in> set es. whole_lines content e"
    and "0 \<le> ctx" "boundary content l" "l \<le> int (length content)"
    and "st_ok (split_lines content) st out (line_no content l)"
  shows "\<exists>out' q'. st_ok (split_lines content)
             (foldl (unified_step ctx (split_lines content) content) st es) out' q'
           \<and> concat out' @ concat (drop q' (split_lines content)) = concat out @ patch content l es"
  using assms
proof (induction es arbitrary: l st out)
  case Nil
  let ?ls = "split_lines content"
  have "concat (take (line_no content l) ?ls) @ concat (drop (line_no content l) ?ls) = content"
    by (metis append_take_drop_id concat_append concat_split_lines)
  then have "take (nat l) content @ concat (drop (line_no content l) ?ls)
      = take (nat l) content @ drop (nat l) content"
    using line_no_take(2) [OF Nil.prems(4,5)] by simp
  then have "concat (drop (line_no content l) ?ls) = drop (nat l) content" by blast
  with Nil.prems(6) show ?case by auto
next
  case (Cons e es)
  let ?ls = "split_lines content"
  have b: "0 \<le> e_Start e" "l \<le> e_Start e" "e_Start e \<le> e_End e" "e_End e \<le> int (length content)"
    "ok_edits (int (length content)) (e_End e) es" using Cons.prems(1) by auto
  have wl: "whole_lines content e" using Cons.prems(2) by simp
  then have ls: "line_start content (e_Start e)" by (simp add: whole_lines_def)
  note bd = whole_lines_boundary [OF wl ok_edits_in_bounds [OF Cons.prems(1)]]
  have st: "st_ok ?ls (unified_step ctx ?ls content st e)
     (out @ slice (line_no content l) (line_no content (e_Start e)) ?ls @ split_lines (e_New e))
     (line_no content (e_End e))"
    using unified_step_ok [OF Cons.prems(6,3), of content e]
      line_no_mono [of l "e_Start e" content] line_no_mono [of "e_Start e" "e_End e" content]
      line_no_take(1) [OF bd(2)] b
    by (simp add: edit_line_start_no [OF ls] edit_line_end_no)
  obtain out' q' where o: "st_ok ?ls (foldl (unified_step ctx ?ls content) (unified_step ctx ?ls content st e) es) out' q'"
    "concat out' @ concat (drop q' ?ls) =
     concat (out @ slice (line_no content l) (line_no content (e_Start e)) ?ls @ split_lines (e_New e))
       @ patch content (e_End e) es"
    using Cons.IH [OF b(5) _ Cons.prems(3) bd(2) b(4) st] Cons.prems(2) by auto
  have "concat (slice (line_no content l) (line_no content (e_Start e)) ?ls)
      = slice (nat l) (nat (e_Start e)) content"
    using concat_slice_lines [OF Cons.prems(4) bd(1) b(2)] b(3,4) by simp
  with o show ?case by auto
qed

lemma toUnified_Ok:
  assumes "toUnified fromName toName content es ctx = Ok u" "0 \<le> ctx" "es \<noteq> []"
  shows "ok_edits (int (length content)) 0 (SortEdits es)"
    and "map_option concat (patch_lines (split_lines content) (u_hunks u))
         = Some (patch content 0 (SortEdits es))"
proof -
  from assms(1,3) obtain es' where es': "lineEdits content es = Ok es'"
    and u: "u_hunks u = finish_hunks ctx (split_lines content)
       (foldl (unified_step ctx (split_lines content) content)
          \<lparr>s_hunks = [], s_h = None, s_last = 0, s_toLine = 0\<rparr> es')"
    by (auto simp: toUnified_def Let_def bind_outcome_Ok_iff splitLines_def)
  note le = lineEdits_Ok [OF es']
  show "ok_edits (int (length content)) 0 (SortEdits es)" by (rule le(1))
  have no0: "line_no content 0 = 0" by (auto simp: line_no_def)
  have "st_ok (split_lines content) \<lparr>s_hunks = [], s_h = None, s_last = 0, s_toLine = 0\<rparr> []
      (line_no content 0)" by (simp add: st_ok_def no0)
  from unified_fold [OF le(2,4) assms(2) _ _ this]
  obtain out q where o: "st_ok (split_lines content)
       (foldl (unified_step ctx (split_lines content) content)
          \<lparr>s_hunks = [], s_h = None, s_last = 0, s_toLine = 0\<rparr> es') out q"
    "concat out @ concat (drop q (split_lines content)) = patch content 0 es'"
    by (auto simp: boundary_def line_start_def)
  show "map_option concat (patch_lines (split_lines content) (u_hunks u))
         = Some (patch content 0 (SortEdits es))"
    using finish_hunks_ok [OF o(1) assms(2)] o(2) le(3) by (simp add: u)
qed

text \<open>Claim C2: for a nonempty list of edits and a nonnegative number of context lines,
  \<open>toUnified\<close> succeeds exactly when \<open>Apply\<close> does (and never panics), and then running its hunks
  on the lines of the old text --- each hunk's copied and deleted lines must match the old
  lines at \<open>fromLine\<close> --- gives exactly the text \<open>Apply\<close> produces.\<close>

theorem toUnified_patches:
  assumes "0 \<le> contextLines" and "edits \<noteq> []"
  shows "case toUnified fromName toName content edits contextLines of
      Ok u \<Rightarrow> Apply content edits
               = Ok (concat (the (patch_lines (split_lines content) (u_hunks u))))
             \<and> patch_lines (split_lines content) (u_hunks u) \<noteq> None
    | Err e \<Rightarrow> Apply content edits = Err e
    | Panic \<Rightarrow> False"
proof (cases "toUnified fromName toName content edits contextLines")
  case (Ok u)
  note t = toUnified_Ok [OF Ok assms]
  then show ?thesis using Ok by (auto simp: Apply_ok)
next
  case (Err e)
  then have "lineEdits content edits = Err e"
    using assms(2) by (cases "lineEdits content edits") (auto simp: toUnified_def Let_def)
  then show ?thesis using Err lineEdits_total [of content edits] by simp
next
  case Panic
  then have "lineEdits content edits = Panic"
    using assms(2) by (cases "lineEdits content edits") (auto simp: toUnified_def Let_def)
  then show ?thesis using lineEdits_total [of content edits] by simp
qed

theorem toUnified_patches_witness:
  "(0::int) \<le> 3 \<and> [mk_edit 1 3 ''xy''] \<noteq> [] \<and>
   (case toUnified ''old'' ''new'' ''abc'' [mk_edit 1 3 ''xy''] 3 of
      Ok u \<Rightarrow> Apply ''abc'' [mk_edit 1 3 ''xy'']
               = Ok (concat (the (patch_lines (split_lines ''abc'') (u_hunks u))))
             \<and> patch_lines (split_lines ''abc'') (u_hunks u) \<noteq> None
    | Err e \<Rightarrow> Apply ''abc'' [mk_edit 1 3 ''xy''] = Err e
    | Panic \<Rightarrow> False)"
  by (intro conjI toUnified_patches) simp_all

section \<open>The line numbers of the new file\<close>

text \<open>\<open>new_start lines hs k\<close>: the number of lines of the new file before the \<open>k\<close>-th hunk, as running the
  hunks produces them; the header of that hunk should say one more.\<close>

definition new_start :: "string list \<Rightarrow> hunk list \<Rightarrow> nat \<Rightarrow> int option" where
  "new_start lines hs k =
     map_option (\<lambda>(out, q). int (length out) + (fromLine (hs ! k) - 1 - int q))
       (run_hunks lines (take k hs) ([], 0))"

definition unified_example :: "(diff_error, unified) outcome" where
  "unified_example = toUnified ''old'' ''new'' (concat (map (\<lambda>c. [c, NL]) ''abcdefghi''))
     [mk_edit 0 1 ''A'', mk_edit 4 5 ''C'', mk_edit 16 17 ''I''] 1"

text \<open>When two edits are joined in one hunk, the unchanged lines between them are not counted in
  \<open>toLine\<close>, so the header of the next hunk is too small.  Here three lines are replaced one for
  one, so every hunk should have \<open>toLine = fromLine\<close>; the second has 7 instead of 8.\<close>

lemma toUnified_toLine_wrong:
  "case unified_example of
     Ok u \<Rightarrow> map fromLine (u_hunks u) = [1, 8] \<and> map toLine (u_hunks u) = [1, 7]
            \<and> new_start (split_lines (concat (map (\<lambda>c. [c, NL]) ''abcdefghi''))) (u_hunks u) 1 = Some 7
   | _ \<Rightarrow> False"
  by code_simp

end
