(* ===== verification/Edit_Paths.thy ===== *)
theory Edit_Paths
  imports Go_Prelude
begin

text \<open>
  Paths through the edit graph of two sequences \<open>a\<close> and \<open>b\<close>: a step to the right deletes an element of
  \<open>a\<close>, a step down inserts one of \<open>b\<close>, a diagonal step keeps an element that both have.  Paths may leave
  the rectangle of the two sequences, as the labels of the algorithm do; diagonal steps may not.
  \<open>furthest\<close> is the label of Myers: how far \<open>d\<close> edits lead on a diagonal.  The theorems are about paths and
  know nothing of the code.
\<close>

section \<open>Paths\<close>

text \<open>\<open>path a b x0 y0 d x y\<close>: from \<open>(x0, y0)\<close> to \<open>(x, y)\<close> with \<open>d\<close> edits.\<close>

inductive path :: "'a list \<Rightarrow> 'a list \<Rightarrow> nat \<Rightarrow> nat \<Rightarrow> nat \<Rightarrow> nat \<Rightarrow> nat \<Rightarrow> bool" for a b x0 y0 where
  start: "path a b x0 y0 0 x0 y0"
| right: "path a b x0 y0 d x y \<Longrightarrow> path a b x0 y0 (Suc d) (Suc x) y"
| down: "path a b x0 y0 d x y \<Longrightarrow> path a b x0 y0 (Suc d) x (Suc y)"
| diagonal: "path a b x0 y0 d x y \<Longrightarrow> x < length a \<Longrightarrow> y < length b \<Longrightarrow> a ! x = b ! y \<Longrightarrow>
    path a b x0 y0 d (Suc x) (Suc y)"

abbreviation reach :: "'a list \<Rightarrow> 'a list \<Rightarrow> nat \<Rightarrow> nat \<Rightarrow> nat \<Rightarrow> bool" where
  "reach a b d x y \<equiv> path a b 0 0 d x y"

abbreviation connects :: "'a list \<Rightarrow> 'a list \<Rightarrow> nat \<Rightarrow> bool" where
  "connects a b d \<equiv> reach a b d (length a) (length b)"

lemma path_le: "path a b x0 y0 d x y \<Longrightarrow> x0 \<le> x \<and> y0 \<le> y"
  by (induction rule: path.induct) auto

lemma path_trans: "path a b x1 y1 d' x2 y2 \<Longrightarrow> path a b x0 y0 d x1 y1 \<Longrightarrow> path a b x0 y0 (d + d') x2 y2"
  by (induction rule: path.induct) (auto intro: path.intros)

lemma path_right: "path a b x0 y0 d x y \<Longrightarrow> path a b x0 y0 (d + n) (x + n) y"
  by (induction n) (auto intro: path.right)

lemma path_down: "path a b x0 y0 d x y \<Longrightarrow> path a b x0 y0 (d + n) x (y + n)"
  by (induction n) (auto intro: path.down)

lemma path_edits: "path a b x0 y0 d x y \<Longrightarrow> even (d + (x - x0) + (y - y0)) \<and> d \<le> (x - x0) + (y - y0)"
  by (induction rule: path.induct) (auto dest: path_le simp: Suc_diff_le)

text \<open>There is always a path that deletes everything and inserts everything.\<close>

lemma connects_all: "connects a b (length a + length b)"
  using path_down [OF path_right [OF path.start, of a b 0 0 "length a"], of "length b"] by simp

text \<open>A path that ends in a smaller rectangle is a path in it.\<close>

lemma path_take: "path a b x0 y0 d x y \<Longrightarrow> x \<le> u \<Longrightarrow> y \<le> v \<Longrightarrow> path (take u a) (take v b) x0 y0 d x y"
  by (induction rule: path.induct) (auto intro: path.intros)

text \<open>A path backwards is a path through the reversed sequences.\<close>

lemma path_rev:
  assumes "path a b x0 y0 d x y" "x \<le> length a" "y \<le> length b"
  shows "path (rev a) (rev b) (length a - x) (length b - y) d (length a - x0) (length b - y0)"
  using assms
proof (induction rule: path.induct)
  case (right d x y)
  have "path (rev a) (rev b) (length a - Suc x) (length b - y) (Suc 0) (length a - x) (length b - y)"
    using path.right [OF path.start, of "rev a" "rev b" "length a - Suc x" "length b - y"] right.prems by (simp add: Suc_diff_Suc)
  then show ?case using path_trans [OF right.IH] right.prems by fastforce
next
  case (down d x y)
  have "path (rev a) (rev b) (length a - x) (length b - Suc y) (Suc 0) (length a - x) (length b - y)"
    using path.down [OF path.start, of "rev a" "rev b" "length a - x" "length b - Suc y"] down.prems by (simp add: Suc_diff_Suc)
  then show ?case using path_trans [OF down.IH] down.prems by fastforce
next
  case (diagonal d x y)
  have "path (rev a) (rev b) (length a - Suc x) (length b - Suc y) 0 (length a - x) (length b - y)"
    using path.diagonal [OF path.start, of "length a - Suc x" "rev a" "length b - Suc y" "rev b"] diagonal.prems diagonal.hyps
    by (simp add: Suc_diff_Suc rev_nth)
  then show ?case using path_trans [OF diagonal.IH] diagonal.prems by fastforce
qed (rule path.start)

lemma connects_rev: "connects (rev a) (rev b) d \<longleftrightarrow> connects a b d"
  using path_rev [of a b 0 0 d "length a" "length b"] path_rev [of "rev a" "rev b" 0 0 d "length a" "length b"] by auto

text \<open>A path has a point after every number of its edits.\<close>

lemma path_split:
  assumes "path a b x0 y0 d x y" "s \<le> d"
  obtains x1 y1 where "path a b x0 y0 s x1 y1" "path a b x1 y1 (d - s) x y"
  using assms
proof (induction arbitrary: thesis rule: path.induct)
  case start
  then show ?case using path.start [of a b x0 y0] by (metis diff_0_eq_0 le_zero_eq)
next
  case (right d x y)
  show ?case
  proof (cases "s = Suc d")
    case True
    then show ?thesis using right.prems(1) path.right [OF right.hyps] path.start by fastforce
  next
    case False
    then obtain x1 y1 where "path a b x0 y0 s x1 y1" "path a b x1 y1 (d - s) x y"
      using right.IH [of thesis] right.IH right.prems(2) by (metis le_SucE)
    then show ?thesis using right.prems False path.right by (metis Suc_diff_le le_SucE)
  qed
next
  case (down d x y)
  show ?case
  proof (cases "s = Suc d")
    case True
    then show ?thesis using down.prems(1) path.down [OF down.hyps] path.start by fastforce
  next
    case False
    then obtain x1 y1 where "path a b x0 y0 s x1 y1" "path a b x1 y1 (d - s) x y"
      using down.IH down.prems(2) by (metis le_SucE)
    then show ?thesis using down.prems False path.down by (metis Suc_diff_le le_SucE)
  qed
next
  case (diagonal d x y)
  obtain x1 y1 where "path a b x0 y0 s x1 y1" "path a b x1 y1 (d - s) x y" using diagonal.IH diagonal.prems(2) by blast
  then show ?case using diagonal.prems(1) path.diagonal diagonal.hyps by metis
qed

section \<open>Distances\<close>

text \<open>On a diagonal the number of edits does not decrease.\<close>

lemma reach_before:
  "path a b 0 0 d x y \<Longrightarrow> (\<forall>x'. x = Suc x' \<longrightarrow> (\<exists>d' \<le> Suc d. reach a b d' x' y)) \<and>
     (\<forall>y'. y = Suc y' \<longrightarrow> (\<exists>d' \<le> Suc d. reach a b d' x y'))"
proof (induction rule: path.induct)
  case (right d x y)
  have "\<exists>d' \<le> Suc (Suc d). reach a b d' (Suc x) y'" if "y = Suc y'" for y'
  proof -
    obtain d' where "d' \<le> Suc d" "reach a b d' x y'" using right.IH \<open>y = Suc y'\<close> by blast
    then show ?thesis by (meson Suc_le_mono path.right)
  qed
  then show ?case using right.hyps by (auto intro!: exI [of _ d])
next
  case (down d x y)
  have "\<exists>d' \<le> Suc (Suc d). reach a b d' x' (Suc y)" if "x = Suc x'" for x'
  proof -
    obtain d' where "d' \<le> Suc d" "reach a b d' x' y" using down.IH \<open>x = Suc x'\<close> by blast
    then show ?thesis by (meson Suc_le_mono path.down)
  qed
  then show ?case using down.hyps by (auto intro!: exI [of _ d])
next
  case (diagonal d x y)
  then show ?case using path.right [OF diagonal.hyps(1)] path.down [OF diagonal.hyps(1)] by blast
qed simp

lemma reach_diagonal_step:
  assumes "reach a b d (Suc x') (Suc y')"
  shows "\<exists>d' \<le> d. reach a b d' x' y'"
  using assms
proof (cases rule: path.cases)
  case (right d1)
  then show ?thesis using reach_before [OF right(2)] by auto
next
  case (down d1)
  then show ?thesis using reach_before [OF down(2)] by auto
qed auto

lemma reach_diagonal: "reach a b d (x + n) (y + n) \<Longrightarrow> \<exists>d' \<le> d. reach a b d' x y"
proof (induction n arbitrary: d)
  case (Suc n)
  then obtain d' where "d' \<le> d" "reach a b d' (x + n) (y + n)" using reach_diagonal_step [of a b d "x + n" "y + n"] by auto
  then show ?case using Suc.IH by (meson order_trans)
qed auto

text \<open>A path that reaches the border has a short way to the corner.\<close>

lemma reach_border:
  assumes "path a b 0 0 d x y" "length a \<le> x \<or> length b \<le> y"
  shows "\<exists>l. connects a b l \<and> int l \<le> int d + (int (length a) - int x) + (int (length b) - int y)"
  using assms
proof (induction rule: path.induct)
  case start
  then consider "length a = 0" | "length b = 0" by auto
  then show ?case
    using path_down [OF path.start, of a b 0 0 "length b"] path_right [OF path.start, of a b 0 0 "length a"] by cases auto
next
  case (right d x y)
  show ?case
  proof (cases "length a \<le> x \<or> length b \<le> y")
    case True
    then show ?thesis using right.IH by auto
  next
    case False
    then have "length a = Suc x" using right.prems by linarith
    then have "connects a b (Suc d + (length b - y))"
      using path_down [OF path.right [OF right.hyps], of "length b - y"] False by simp
    then show ?thesis using False \<open>length a = Suc x\<close> by (intro exI [of _ "Suc d + (length b - y)"]) auto
  qed
next
  case (down d x y)
  show ?case
  proof (cases "length a \<le> x \<or> length b \<le> y")
    case True
    then show ?thesis using down.IH by auto
  next
    case False
    then have "length b = Suc y" using down.prems by linarith
    then have "connects a b (Suc d + (length a - x))"
      using path_right [OF path.down [OF down.hyps], of "length a - x"] False by simp
    then show ?thesis using False \<open>length b = Suc y\<close> by (intro exI [of _ "Suc d + (length a - x)"]) auto
  qed
next
  case (diagonal d x y)
  consider "length a = Suc x" | "length b = Suc y" using diagonal.prems diagonal.hyps by linarith
  then show ?case
  proof cases
    case 1
    have "Suc y + (length b - Suc y) = length b" using diagonal.hyps by simp
    then have "connects a b (d + (length b - Suc y))"
      using path_down [OF path.diagonal [OF diagonal.hyps], of "length b - Suc y"] 1 by metis
    then show ?thesis using 1 diagonal.hyps by (intro exI [of _ "d + (length b - Suc y)"]) auto
  next
    case 2
    have "Suc x + (length a - Suc x) = length a" using diagonal.hyps by simp
    then have "connects a b (d + (length a - Suc x))"
      using path_right [OF path.diagonal [OF diagonal.hyps], of "length a - Suc x"] 2 by metis
    then show ?thesis using 2 diagonal.hyps by (intro exI [of _ "d + (length a - Suc x)"]) auto
  qed
qed

text \<open>A step outside can be traded for a step along the border.\<close>

lemma reach_right_border: "path a b 0 0 d x y \<Longrightarrow> length a \<le> x \<Longrightarrow> reach a b d (length a) (y + (x - length a))"
proof (induction rule: path.induct)
  case (right d x y)
  show ?case
  proof (cases "length a \<le> x")
    case True
    then show ?thesis using path.down [OF right.IH [OF True]] by (simp add: Suc_diff_le)
  next
    case False
    then show ?thesis using path.right [OF right.hyps] right.prems by (simp add: le_Suc_eq)
  qed
next
  case (down d x y)
  then show ?case using path.down [OF down.IH [OF down.prems]] by simp
next
  case (diagonal d x y)
  then show ?case using path.diagonal [OF diagonal.hyps] by (simp add: le_Suc_eq)
qed (simp add: path.start)

lemma reach_lower_border: "path a b 0 0 d x y \<Longrightarrow> length b \<le> y \<Longrightarrow> reach a b d (x + (y - length b)) (length b)"
proof (induction rule: path.induct)
  case (down d x y)
  show ?case
  proof (cases "length b \<le> y")
    case True
    then show ?thesis using path.right [OF down.IH [OF True]] by (simp add: Suc_diff_le)
  next
    case False
    then show ?thesis using path.down [OF down.hyps] down.prems by (simp add: le_Suc_eq)
  qed
next
  case (right d x y)
  then show ?case using path.right [OF right.IH [OF right.prems]] by simp
next
  case (diagonal d x y)
  then show ?case using path.diagonal [OF diagonal.hyps] by (simp add: le_Suc_eq)
qed (simp add: path.start)

section \<open>Labels\<close>

fun common_prefix :: "'a list \<Rightarrow> 'a list \<Rightarrow> nat" where
  "common_prefix (x # xs) (y # ys) = (if x = y then Suc (common_prefix xs ys) else 0)"
| "common_prefix xs ys = 0"

lemma common_prefix_le: "common_prefix xs ys \<le> length xs \<and> common_prefix xs ys \<le> length ys"
  by (induction xs ys rule: common_prefix.induct) auto

lemma common_prefix_nth: "i < common_prefix xs ys \<Longrightarrow> xs ! i = ys ! i"
  by (induction xs ys arbitrary: i rule: common_prefix.induct) (auto simp: nth_Cons split: if_splits nat.splits)

lemma common_prefix_stop:
  "common_prefix xs ys < length xs \<Longrightarrow> common_prefix xs ys < length ys \<Longrightarrow>
     xs ! common_prefix xs ys \<noteq> ys ! common_prefix xs ys"
  by (induction xs ys rule: common_prefix.induct) auto

text \<open>\<open>slide a b k x\<close>: from \<open>x\<close> on diagonal \<open>k\<close> along equal elements.\<close>

definition slide :: "'a list \<Rightarrow> 'a list \<Rightarrow> int \<Rightarrow> int \<Rightarrow> int" where
  "slide a b k x =
     (if x < int (length a) \<and> x - k < int (length b)
      then x + int (common_prefix (drop (nat x) a) (drop (nat (x - k)) b)) else x)"

text \<open>\<open>matches a b k x x'\<close>: the elements between \<open>x\<close> and \<open>x'\<close> on diagonal \<open>k\<close> are equal and in the rectangle.\<close>

definition matches :: "'a list \<Rightarrow> 'a list \<Rightarrow> int \<Rightarrow> int \<Rightarrow> int \<Rightarrow> bool" where
  "matches a b k x x' \<longleftrightarrow>
     (\<forall>i. x \<le> i \<and> i < x' \<longrightarrow> i < int (length a) \<and> i - k < int (length b) \<and> a ! nat i = b ! nat (i - k))"

lemma slide_ge: "x \<le> slide a b k x"
  by (simp add: slide_def)

lemma slide_nat:
  "slide a b (int p - int q) (int p) =
     (if p < length a \<and> q < length b then int (p + common_prefix (drop p a) (drop q b)) else int p)"
  by (simp add: slide_def)

lemma matches_nat:
  "matches a b (int p - int q) (int p) (int (p + n)) \<longleftrightarrow>
     (\<forall>i < n. p + i < length a \<and> q + i < length b \<and> a ! (p + i) = b ! (q + i))" (is "?l \<longleftrightarrow> ?r")
proof
  assume l: ?l
  show ?r
  proof (intro allI impI)
    fix i assume "i < n"
    then have "int (p + i) < int (length a) \<and> int (p + i) - (int p - int q) < int (length b)
      \<and> a ! nat (int (p + i)) = b ! nat (int (p + i) - (int p - int q))"
      using l unfolding matches_def by (metis le_add1 nat_add_left_cancel_less of_nat_le_iff of_nat_less_iff)
    moreover have "int (p + i) - (int p - int q) = int (q + i)" by simp
    ultimately show "p + i < length a \<and> q + i < length b \<and> a ! (p + i) = b ! (q + i)" by (metis nat_int of_nat_less_iff)
  qed
next
  assume r: ?r
  show ?l unfolding matches_def
  proof (intro allI impI)
    fix i assume i: "int p \<le> i \<and> i < int (p + n)"
    then obtain m where m: "i = int (p + m)" by (metis le_Suc_ex nonneg_int_cases of_nat_0_le_iff of_nat_le_iff order_trans)
    then have "m < n" using i by simp
    moreover have "i - (int p - int q) = int (q + m)" using m by simp
    ultimately show "i < int (length a) \<and> i - (int p - int q) < int (length b) \<and> a ! nat i = b ! nat (i - (int p - int q))"
      using r m by (metis nat_int of_nat_less_iff)
  qed
qed

lemma nonneg_point:
  fixes x k :: int
  assumes "0 \<le> x" "0 \<le> x - k"
  obtains p q where "x = int p" "k = int p - int q"
  using assms by (metis diff_diff_eq2 diff_add_cancel add_diff_cancel_left' nonneg_int_cases)

lemma slide_matches:
  assumes "0 \<le> x" "0 \<le> x - k"
  shows "matches a b k x (slide a b k x)"
proof -
  obtain p q where pq: "x = int p" "k = int p - int q" using nonneg_point [OF assms] .
  show ?thesis
  proof (cases "p < length a \<and> q < length b")
    case True
    let ?n = "common_prefix (drop p a) (drop q b)"
    have "p + i < length a \<and> q + i < length b \<and> a ! (p + i) = b ! (q + i)" if "i < ?n" for i
      using that common_prefix_le [of "drop p a" "drop q b"] common_prefix_nth [OF that] by auto
    moreover have "slide a b k x = int (p + ?n)" using True by (simp add: pq slide_nat)
    ultimately show ?thesis unfolding pq(2) by (simp only: pq(1) matches_nat) blast
  next
    case False
    then have "slide a b k x = x" using pq slide_nat by metis
    then show ?thesis unfolding matches_def by (metis linorder_not_less)
  qed
qed

lemma slide_stop:
  assumes "0 \<le> x" "0 \<le> x - k" "slide a b k x < int (length a)" "slide a b k x - k < int (length b)"
  shows "a ! nat (slide a b k x) \<noteq> b ! nat (slide a b k x - k)"
proof -
  obtain p q where pq: "x = int p" "k = int p - int q" using nonneg_point [OF assms(1,2)] .
  let ?n = "common_prefix (drop p a) (drop q b)"
  have inside: "p < length a \<and> q < length b"
    using assms(3,4) slide_ge [of x a b k] pq by linarith
  then have s: "slide a b k x = int (p + ?n)" "slide a b k x - k = int (q + ?n)" by (simp_all add: pq slide_nat)
  then have "?n < length (drop p a)" "?n < length (drop q b)" using assms(3,4) by auto
  from common_prefix_stop [OF this] have "a ! (p + ?n) \<noteq> b ! (q + ?n)" using inside by simp
  then show ?thesis using s by (metis nat_int)
qed

lemma slide_unique:
  assumes "0 \<le> x" "0 \<le> x - k" "x \<le> z" "matches a b k x z"
    "z < int (length a) \<Longrightarrow> z - k < int (length b) \<Longrightarrow> a ! nat z \<noteq> b ! nat (z - k)"
  shows "slide a b k x = z"
proof (rule antisym)
  show "slide a b k x \<le> z"
  proof (rule ccontr)
    assume "\<not> slide a b k x \<le> z"
    then show False using slide_matches [OF assms(1,2), of a b] assms(3,5) unfolding matches_def by (metis linorder_not_less)
  qed
  show "z \<le> slide a b k x"
  proof (rule ccontr)
    assume "\<not> z \<le> slide a b k x"
    then show False using slide_stop [OF assms(1,2), of a b] slide_ge [of x a b k] assms(4) unfolding matches_def by (metis linorder_not_less)
  qed
qed

lemma slide_absorb:
  assumes "0 \<le> x" "0 \<le> x - k" "x \<le> z" "z \<le> slide a b k x"
  shows "slide a b k z = slide a b k x"
proof (rule slide_unique)
  show "matches a b k z (slide a b k x)"
    using slide_matches [OF assms(1,2), of a b] assms(3) unfolding matches_def by (metis order_trans)
qed (use assms slide_stop [OF assms(1,2), of a b] in auto)

lemma slide_max:
  assumes "0 \<le> x" "0 \<le> x - k" "0 \<le> z" "0 \<le> z - k"
  shows "slide a b k (max (slide a b k x) (slide a b k z)) = slide a b k (max x z)"
proof -
  have mono: "max (slide a b k p) (slide a b k q) = slide a b k q" if "p \<le> q" "0 \<le> p" "0 \<le> p - k" for p q
    using slide_absorb [OF that(2,3) that(1), of a b] slide_ge [of q a b k] by (cases "q \<le> slide a b k p") auto
  have idem: "slide a b k (slide a b k p) = slide a b k p" if "0 \<le> p" "0 \<le> p - k" for p
    using slide_absorb [OF that slide_ge order_refl] .
  show ?thesis
  proof (cases "x \<le> z")
    case True
    then show ?thesis using mono [OF True assms(1,2)] idem [OF assms(3,4)] by (simp add: max_def)
  next
    case False
    then show ?thesis using mono [of z x] idem [OF assms(1,2)] assms by (simp add: max.commute max_def)
  qed
qed

text \<open>\<open>entry\<close> is where the label \<open>furthest a b d k\<close> enters its diagonal.\<close>

fun furthest :: "'a list \<Rightarrow> 'a list \<Rightarrow> nat \<Rightarrow> int \<Rightarrow> int" where
  "furthest a b 0 k = slide a b k 0"
| "furthest a b (Suc d) k = slide a b k
     (if k = - int (Suc d) then furthest a b d (k + 1)
      else if k = int (Suc d) then furthest a b d (k - 1) + 1
      else max (furthest a b d (k - 1) + 1) (furthest a b d (k + 1)))"

definition entry :: "'a list \<Rightarrow> 'a list \<Rightarrow> nat \<Rightarrow> int \<Rightarrow> int" where
  "entry a b d k =
     (case d of 0 \<Rightarrow> 0
      | Suc d' \<Rightarrow> if k = - int d then furthest a b d' (k + 1)
         else if k = int d then furthest a b d' (k - 1) + 1
         else max (furthest a b d' (k - 1) + 1) (furthest a b d' (k + 1)))"

lemma furthest_entry: "furthest a b d k = slide a b k (entry a b d k)"
  by (cases d) (simp_all add: entry_def)

text \<open>The diagonals that \<open>d\<close> edits can end on.\<close>

definition on_diag :: "nat \<Rightarrow> int \<Rightarrow> bool" where
  "on_diag d k \<longleftrightarrow> - int d \<le> k \<and> k \<le> int d \<and> even (int d + k)"

lemma on_diag_0 [simp]: "on_diag 0 k \<longleftrightarrow> k = 0"
  by (auto simp: on_diag_def)

lemma on_diag_Suc:
  assumes "on_diag (Suc d) k"
  shows "k \<noteq> - int (Suc d) \<Longrightarrow> on_diag d (k - 1)" "k \<noteq> int (Suc d) \<Longrightarrow> on_diag d (k + 1)"
proof -
  have "k \<noteq> int d" "k \<noteq> - int d" using assms unfolding on_diag_def by presburger+
  then show "k \<noteq> - int (Suc d) \<Longrightarrow> on_diag d (k - 1)" "k \<noteq> int (Suc d) \<Longrightarrow> on_diag d (k + 1)"
    using assms unfolding on_diag_def by presburger+
qed

lemma entry_cases:
  assumes "on_diag d k"
  shows "d = 0 \<and> k = 0 \<and> entry a b d k = 0
     \<or> 0 < d \<and> on_diag (d - 1) (k - 1) \<and> entry a b d k = furthest a b (d - 1) (k - 1) + 1
     \<or> 0 < d \<and> on_diag (d - 1) (k + 1) \<and> entry a b d k = furthest a b (d - 1) (k + 1)"
proof (cases d)
  case (Suc d')
  have "k = - int (Suc d') \<Longrightarrow> k \<noteq> int (Suc d') \<and> entry a b (Suc d') k = furthest a b d' (k + 1)"
    "k = int (Suc d') \<Longrightarrow> k \<noteq> - int (Suc d') \<and> entry a b (Suc d') k = furthest a b d' (k - 1) + 1"
    "k \<noteq> - int (Suc d') \<Longrightarrow> k \<noteq> int (Suc d') \<Longrightarrow>
      entry a b (Suc d') k = max (furthest a b d' (k - 1) + 1) (furthest a b d' (k + 1))"
    by (simp_all add: entry_def)
  then show ?thesis using on_diag_Suc [of d' k] assms unfolding Suc by (metis diff_Suc_1 max_def zero_less_Suc)
qed (use assms in \<open>simp add: entry_def\<close>)

lemma on_diag_neg: "on_diag d (- k) \<longleftrightarrow> on_diag d k"
  unfolding on_diag_def by presburger

lemma furthest_nonneg: "on_diag d k \<Longrightarrow> 0 \<le> entry a b d k \<and> k \<le> entry a b d k \<and> entry a b d k \<le> furthest a b d k"
proof (induction d arbitrary: k)
  case 0
  then show ?case using slide_ge [of "entry a b 0 k" a b k] by (simp add: furthest_entry entry_def)
next
  case (Suc d)
  have "k \<noteq> - int (Suc d) \<Longrightarrow> 0 \<le> furthest a b d (k - 1) \<and> k - 1 \<le> furthest a b d (k - 1)"
    "k \<noteq> int (Suc d) \<Longrightarrow> 0 \<le> furthest a b d (k + 1) \<and> k + 1 \<le> furthest a b d (k + 1)"
    using Suc.IH [OF on_diag_Suc(1) [OF Suc.prems]] Suc.IH [OF on_diag_Suc(2) [OF Suc.prems]] by force+
  then have "0 \<le> entry a b (Suc d) k \<and> k \<le> entry a b (Suc d) k" by (auto simp: entry_def)
  then show ?case by (simp add: furthest_entry slide_ge)
qed

lemma furthest_matches: "on_diag d k \<Longrightarrow> matches a b k (entry a b d k) (furthest a b d k)"
  unfolding furthest_entry using furthest_nonneg [of d k a b] by (intro slide_matches) auto

lemma furthest_stop:
  "on_diag d k \<Longrightarrow> furthest a b d k < int (length a) \<Longrightarrow> furthest a b d k - k < int (length b) \<Longrightarrow>
     a ! nat (furthest a b d k) \<noteq> b ! nat (furthest a b d k - k)"
  unfolding furthest_entry using furthest_nonneg [of d k a b] by (intro slide_stop) auto

text \<open>A label is reached, and it is the furthest point of its diagonal.\<close>

lemma reach_along:
  assumes "reach a b d x y"
  shows "matches a b (int x - int y) (int x) (int (x + n)) \<Longrightarrow> reach a b d (x + n) (y + n)"
proof (induction n)
  case (Suc n)
  have m: "\<forall>i < Suc n. x + i < length a \<and> y + i < length b \<and> a ! (x + i) = b ! (y + i)"
    using Suc.prems unfolding matches_nat .
  then have "reach a b d (x + n) (y + n)" using Suc.IH unfolding matches_nat by simp
  then show ?case using path.diagonal m by fastforce
qed (simp add: assms)

lemma entry_reach_furthest:
  assumes "reach a b d x y" "int x = entry a b d k" "int x - int y = k" "on_diag d k"
  shows "\<exists>x y. reach a b d x y \<and> int x = furthest a b d k \<and> int x - int y = k"
proof -
  have "entry a b d k \<le> furthest a b d k" using furthest_nonneg [OF assms(4)] by blast
  then obtain n where n: "furthest a b d k = int (x + n)" using assms(2) by (metis zle_iff_zadd of_nat_add)
  have "matches a b (int x - int y) (int x) (int (x + n))"
    using furthest_matches [OF assms(4), of a b] n assms(2,3) by simp
  from reach_along [OF assms(1) this] show ?thesis
    using n assms(3) by (intro exI [of _ "x + n"] exI [of _ "y + n"]) auto
qed

lemma furthest_reach: "on_diag d k \<Longrightarrow> \<exists>x y. reach a b d x y \<and> int x = furthest a b d k \<and> int x - int y = k"
proof (induction d arbitrary: k)
  case 0
  then show ?case using entry_reach_furthest [OF path.start, of a b] by (simp add: entry_def)
next
  case (Suc d)
  consider "on_diag d (k - 1)" "entry a b (Suc d) k = furthest a b d (k - 1) + 1"
    | "on_diag d (k + 1)" "entry a b (Suc d) k = furthest a b d (k + 1)"
    using entry_cases [OF Suc.prems, of a b] by auto
  then show ?case
  proof cases
    case 1
    obtain x y where "reach a b d x y" "int x = furthest a b d (k - 1)" "int x - int y = k - 1" using Suc.IH [OF 1(1)] by blast
    then show ?thesis using entry_reach_furthest [OF path.right _ _ Suc.prems, of a b x y] 1(2) by simp
  next
    case 2
    obtain x y where "reach a b d x y" "int x = furthest a b d (k + 1)" "int x - int y = k + 1" using Suc.IH [OF 2(1)] by blast
    then show ?thesis using entry_reach_furthest [OF path.down _ _ Suc.prems, of a b x y] 2(2) by simp
  qed
qed

lemma reach_on_diag: "reach a b d x y \<Longrightarrow> on_diag d (int x - int y)"
proof (induction rule: path.induct)
  case (right d x y)
  then show ?case unfolding on_diag_def by simp
next
  case (down d x y)
  then show ?case unfolding on_diag_def by simp
qed (simp_all add: on_diag_def)

lemma furthest_max: "reach a b d x y \<Longrightarrow> int x \<le> furthest a b d (int x - int y)"
proof (induction rule: path.induct)
  case start
  then show ?case using slide_ge [of 0 a b 0] by simp
next
  case (right d x y)
  let ?k = "int (Suc x) - int y"
  have "furthest a b d (int x - int y) + 1 \<le> entry a b (Suc d) ?k"
    using reach_on_diag [OF right.hyps] by (auto simp: entry_def on_diag_def algebra_simps)
  then show ?case using right.IH slide_ge [of "entry a b (Suc d) ?k" a b ?k] unfolding furthest_entry [of a b "Suc d"] by simp
next
  case (down d x y)
  let ?k = "int x - int (Suc y)"
  have "furthest a b d (int x - int y) \<le> entry a b (Suc d) ?k"
    using reach_on_diag [OF down.hyps] by (auto simp: entry_def on_diag_def algebra_simps)
  then show ?case using down.IH slide_ge [of "entry a b (Suc d) ?k" a b ?k] unfolding furthest_entry [of a b "Suc d"] by simp
next
  case (diagonal d x y)
  have "int x \<noteq> furthest a b d (int x - int y)"
    using furthest_stop [OF reach_on_diag [OF diagonal.hyps(1)], of a b] diagonal.hyps(2-4) by auto
  then show ?case using diagonal.IH by simp
qed

text \<open>With two more edits a path gets one further.\<close>

lemma reach_more: "reach a b d x y \<Longrightarrow> d \<le> d' \<Longrightarrow> even (d' - d) \<Longrightarrow> \<exists>n. reach a b d' (x + n) (y + n)"
proof -
  assume *: "reach a b d x y" "d \<le> d'" "even (d' - d)"
  then obtain n where n: "d' = d + n + n" by (metis add.assoc dvdE le_add_diff_inverse mult_2)
  then show ?thesis using path_down [OF path_right [OF *(1), of n], of n] by blast
qed

lemma furthest_max_less:
  assumes "reach a b d x y" "d \<le> d'" "even (int d' - int d)"
  shows "int x \<le> furthest a b d' (int x - int y)"
proof -
  have "even (d' - d)" using assms(2,3) by presburger
  then obtain n where "reach a b d' (x + n) (y + n)" using reach_more [OF assms(1,2)] by blast
  from furthest_max [OF this] show ?thesis by simp
qed

section \<open>The rectangle\<close>

text \<open>While the corner is further away than \<open>d\<close> edits, some label is inside the rectangle.\<close>

lemma furthest_inside:
  assumes far: "\<forall>l. connects a b l \<longrightarrow> d < l"
  shows "\<exists>k. on_diag d k \<and> furthest a b d k \<le> int (length a) \<and> furthest a b d k - k \<le> int (length b)"
proof -
  define P where "P = (\<lambda>(x, y). reach a b d x y \<and> x \<le> length a \<and> y \<le> length b)"
  have "d \<le> length a + length b" using far connects_all [of a b] by fastforce
  then obtain x1 y1 where "reach a b d x1 y1" "path a b x1 y1 (length a + length b - d) (length a) (length b)"
    using path_split [OF connects_all] by blast
  then have "P (x1, y1)" using path_le unfolding P_def by fastforce
  moreover have "\<forall>p. P p \<longrightarrow> fst p + snd p < Suc (length a + length b)" by (auto simp: P_def)
  ultimately obtain p where p: "P p" "\<forall>q. P q \<longrightarrow> fst q + snd q \<le> fst p + snd p"
    using ex_has_greatest_nat [of P "(x1, y1)" "\<lambda>p. fst p + snd p"] by (metis (no_types, lifting))
  obtain x y where xy: "p = (x, y)" by (cases p)
  have r: "reach a b d x y" "x \<le> length a" "y \<le> length b" using p(1) by (simp_all add: P_def xy)
  have best: "x' + y' \<le> x + y" if "reach a b d x' y'" "x' \<le> length a" "y' \<le> length b" for x' y'
    using p(2) that by (auto simp: P_def xy)
  let ?k = "int x - int y"
  have k: "on_diag d ?k" using reach_on_diag [OF r(1)] .
  obtain x' y' where r': "reach a b d x' y'" "int x' = furthest a b d ?k" "int x' - int y' = ?k"
    using furthest_reach [OF k] by blast
  have grow: "x \<le> x'" "x' + y = x + y'" using furthest_max [OF r(1)] r'(2,3) by linarith+
  have "x' \<le> length a"
  proof (rule ccontr)
    assume out: "\<not> x' \<le> length a"
    have b: "reach a b d (length a) (y' + (x' - length a))" using reach_right_border [OF r'(1)] out by simp
    show False
    proof (cases "y' + (x' - length a) < length b")
      case True
      then show False using best [OF b] out grow r(2) by simp
    next
      case False
      then show False using reach_border [OF b] far by fastforce
    qed
  qed
  moreover have "y' \<le> length b"
  proof (rule ccontr)
    assume out: "\<not> y' \<le> length b"
    have b: "reach a b d (x' + (y' - length b)) (length b)" using reach_lower_border [OF r'(1)] out by simp
    show False
    proof (cases "x' + (y' - length b) < length a")
      case True
      then show False using best [OF b] out grow r(3) by simp
    next
      case False
      then show False using reach_border [OF b] far by fastforce
    qed
  qed
  ultimately show ?thesis using k r' by (intro exI [of _ ?k]) auto
qed

text \<open>Where forward and backward labels overlap nowhere, the corner is further than their edits together.\<close>

definition back_label :: "'a list \<Rightarrow> 'a list \<Rightarrow> nat \<Rightarrow> int \<Rightarrow> int" where
  "back_label a b d k = int (length a) - furthest (rev a) (rev b) d (int (length a) - int (length b) - k)"

lemma connects_parity: "connects a b l \<Longrightarrow> even (int l + (int (length a) - int (length b)))"
  using reach_on_diag [of a b l] unfolding on_diag_def by blast

lemma labels_overlap:
  assumes "connects a b (df + db)"
  shows "\<exists>k. on_diag df k \<and> on_diag db (int (length a) - int (length b) - k) \<and> back_label a b db k \<le> furthest a b df k"
proof -
  obtain x y where xy: "reach a b df x y" "path a b x y db (length a) (length b)"
    using path_split [OF assms, of df] by auto
  have rev_path: "reach (rev a) (rev b) db (length a - x) (length b - y)" using path_rev [OF xy(2)] by simp
  have le: "x \<le> length a" "y \<le> length b" using path_le [OF xy(2)] by simp_all
  have eq: "int (length a - x) - int (length b - y) = int (length a) - int (length b) - (int x - int y)" using le by simp
  have "on_diag db (int (length a) - int (length b) - (int x - int y))" using reach_on_diag [OF rev_path] unfolding eq .
  moreover have "back_label a b db (int x - int y) \<le> int x"
    using furthest_max [OF rev_path] le unfolding eq back_label_def by simp
  ultimately show ?thesis using reach_on_diag [OF xy(1)] furthest_max [OF xy(1)] by (intro exI [of _ "int x - int y"]) simp
qed

text \<open>A label outside shows a shorter way to the corner.\<close>

lemma back_label_reach:
  assumes "on_diag d (int (length a) - int (length b) - k)"
  obtains x y where "reach (rev a) (rev b) d x y" "back_label a b d k = int (length a) - int x"
    "back_label a b d k - k = int (length b) - int y"
  using furthest_reach [OF assms, of "rev a" "rev b"] unfolding back_label_def by auto

lemma back_label_le:
  assumes "on_diag d (int (length a) - int (length b) - k)"
  shows "back_label a b d k \<le> int (length a) \<and> back_label a b d k - k \<le> int (length b)"
  using back_label_reach [OF assms] by (metis diff_ge_0_iff_ge diff_diff_eq2 add_diff_cancel_left' of_nat_0_le_iff)

lemma back_label_border:
  assumes "on_diag d (int (length a) - int (length b) - k)" "back_label a b d k \<le> 0 \<or> back_label a b d k - k \<le> 0"
  shows "\<exists>l. connects a b l \<and> int l \<le> int d + back_label a b d k + (back_label a b d k - k)"
proof -
  obtain x y where xy: "reach (rev a) (rev b) d x y" "back_label a b d k = int (length a) - int x"
    "back_label a b d k - k = int (length b) - int y" using back_label_reach [OF assms(1)] .
  then have "length (rev a) \<le> x \<or> length (rev b) \<le> y" using assms(2) by auto
  from reach_border [OF xy(1) this] show ?thesis using xy(2,3) connects_rev [of a b] by auto
qed

lemma furthest_border:
  assumes "on_diag d k" "int (length a) \<le> furthest a b d k \<or> int (length b) \<le> furthest a b d k - k"
  shows "\<exists>l. connects a b l \<and> int l \<le> int d + (int (length a) - furthest a b d k) + (int (length b) - (furthest a b d k - k))"
proof -
  obtain x y where xy: "reach a b d x y" "int x = furthest a b d k" "int x - int y = k" using furthest_reach [OF assms(1)] by blast
  then have y: "furthest a b d k - k = int y" by linarith
  have "length a \<le> x \<or> length b \<le> y" using assms(2) unfolding y unfolding xy(2) [symmetric] by simp
  from reach_border [OF xy(1) this] show ?thesis unfolding y unfolding xy(2) [symmetric] .
qed

text \<open>The corner of a smaller rectangle that a label has passed is no further away.\<close>

lemma furthest_passed:
  assumes "on_diag d (int u - int v)" "int u \<le> furthest a b d (int u - int v)" "u \<le> length a" "v \<le> length b"
  shows "\<exists>l \<le> d. connects (take u a) (take v b) l"
proof -
  obtain x y where xy: "reach a b d x y" "int x = furthest a b d (int u - int v)" "int x - int y = int u - int v"
    using furthest_reach [OF assms(1)] by blast
  then obtain n where "x = u + n" "y = v + n" using assms(2) by (metis add_diff_cancel_left' add.commute diff_add_cancel le_Suc_ex of_nat_add of_nat_eq_iff of_nat_le_iff diff_diff_eq2)
  then obtain l where l: "l \<le> d" "reach a b l u v" using reach_diagonal [of a b d u n v] xy(1) by auto
  then show ?thesis using path_take [OF l(2)] assms(3,4) by (auto simp: min_absorb2 intro!: exI [of _ l])
qed

end
