(* ===== verification/Lcs.thy ===== *)
theory Lcs
  imports Edit_Paths "HOL-Library.Product_Lexorder" "HOL-Library.Signed_Division" "HOL-Library.Monad_Syntax"
begin

text \<open>
  The search for a longest common subsequence in \<open>tools/internal/diff/lcs\<close>: \<open>common.go\<close> (diagonals and
  their repair), \<open>labels.go\<close>, \<open>sequence.go\<close> and, from \<open>old.go\<close>, the forward and the two-sided search, the
  recovery of diagonals from labels, and \<open>diff\<close>.  An operation that panics (an index out of range) or
  does not return is \<open>None\<close>.  The search mutates its graph, which is passed as a state.  \<open>sort.Slice\<close> is a
  stable sort here.  The one-sided backward search is used only by tests and left out; the debug checks
  are switched off in the code.
\<close>

section \<open>Diagonals\<close>

record diag =
  d_X :: int
  d_Y :: int
  d_Len :: int

type_synonym lcs = "diag list"

definition lcs_sort :: "lcs \<Rightarrow> lcs" where
  "lcs_sort l = sort_key (\<lambda>d. (d_X d, - d_Len d)) l"

fun valid :: "lcs \<Rightarrow> bool" where
  "valid (p # q # l) = (\<not> d_X p + d_Len p > d_X q \<and> \<not> d_Y p + d_Len p > d_Y q \<and> valid (q # l))"
| "valid l = True"

datatype direction = Empty | Leftdown | Rightup | Bad

text \<open>The four trimming steps of \<open>overlap\<close>: the end of \<open>prop\<close> that meets \<open>exist\<close>, or its beginning.\<close>

definition trim_end :: "(diag \<Rightarrow> int) \<Rightarrow> diag \<Rightarrow> diag \<Rightarrow> diag option" where
  "trim_end at exist prop =
     (if at prop \<le> at exist \<and> at exist < at prop + d_Len prop
      then let prop' = prop\<lparr>d_Len := d_Len prop - (at prop + d_Len prop - at exist)\<rparr>
           in if d_Len prop' \<le> 0 then None else Some prop'
      else Some prop)"

definition trim_begin :: "(diag \<Rightarrow> int) \<Rightarrow> diag \<Rightarrow> diag \<Rightarrow> diag option" where
  "trim_begin at exist prop =
     (if at exist \<le> at prop \<and> at prop < at exist + d_Len exist
      then let delta = at exist + d_Len exist - at prop;
               prop' = prop\<lparr>d_Len := d_Len prop - delta\<rparr>
           in if d_Len prop' \<le> 0 then None
              else Some (prop'\<lparr>d_X := d_X prop + delta, d_Y := d_Y prop + delta\<rparr>)
      else Some prop)"

text \<open>The diagonal that comes with \<open>empty\<close> is not used.\<close>

definition overlap :: "diag \<Rightarrow> diag \<Rightarrow> direction \<times> diag" where
  "overlap exist prop0 =
     (case do { p1 \<leftarrow> trim_end d_X exist prop0; p2 \<leftarrow> trim_begin d_X exist p1;
                p3 \<leftarrow> trim_end d_Y exist p2; trim_begin d_Y exist p3 } of
        None \<Rightarrow> (Empty, prop0)
      | Some prop \<Rightarrow>
          if d_X prop + d_Len prop \<le> d_X exist \<and> d_Y prop + d_Len prop \<le> d_Y exist then (Leftdown, prop)
          else if d_X exist + d_Len exist \<le> d_X prop \<and> d_Y exist + d_Len exist \<le> d_Y prop then (Rightup, prop)
          else (Bad, prop))"

text \<open>The inner loop of \<open>fix\<close>: \<open>nxt\<close> against every diagonal kept so far.\<close>

fun fit :: "lcs \<Rightarrow> diag \<Rightarrow> diag option" where
  "fit [] nxt = Some nxt"
| "fit (ex # tmp) nxt = (case overlap ex nxt of
      (Empty, _) \<Rightarrow> None | (Bad, _) \<Rightarrow> None | (_, nxt') \<Rightarrow> fit tmp nxt')"

fun fix_loop :: "lcs \<Rightarrow> lcs \<Rightarrow> lcs" where
  "fix_loop tmp [] = tmp"
| "fix_loop tmp (d # l) = fix_loop (case fit tmp d of Some nxt \<Rightarrow> if d_Len nxt > 0 then tmp @ [nxt] else tmp | None \<Rightarrow> tmp) l"

definition lcs_fix :: "lcs \<Rightarrow> lcs" where
  "lcs_fix l =
     (case sort_key (\<lambda>d. - d_Len d) l of [] \<Rightarrow> [] | d # l' \<Rightarrow> lcs_sort (fix_loop [d] l'))"

definition lcs_prepend :: "lcs \<Rightarrow> int \<Rightarrow> int \<Rightarrow> lcs" where
  "lcs_prepend l x y =
     (case l of
        d # l' \<Rightarrow> if d_X d = x + 1 \<and> d_Y d = y + 1
                 then d\<lparr>d_X := x, d_Y := y, d_Len := d_Len d + 1\<rparr> # l'
                 else \<lparr>d_X = x, d_Y = y, d_Len = 1\<rparr> # l
      | [] \<Rightarrow> [\<lparr>d_X = x, d_Y = y, d_Len = 1\<rparr>])"

definition lcs_append :: "lcs \<Rightarrow> int \<Rightarrow> int \<Rightarrow> lcs" where
  "lcs_append l x y =
     (if l \<noteq> [] \<and> d_X (last l) + d_Len (last l) = x \<and> d_Y (last l) + d_Len (last l) = y
      then butlast l @ [(last l)\<lparr>d_Len := d_Len (last l) + 1\<rparr>]
      else l @ [\<lparr>d_X = x, d_Y = y, d_Len = 1\<rparr>])"

definition ok :: "int \<Rightarrow> int \<Rightarrow> bool" where
  "ok d k \<longleftrightarrow> d \<ge> 0 \<and> - d \<le> k \<and> k \<le> d"

section \<open>Labels\<close>

text \<open>\<open>vec[D]\<close> is nil, here the empty list, until the first label for \<open>D\<close> is set.\<close>

type_synonym label = "int list list"

definition label_set :: "label \<Rightarrow> int \<Rightarrow> int \<Rightarrow> int \<Rightarrow> label option" where
  "label_set t D k x =
     (if D < 0 then None
      else let t' = t @ replicate (Suc (nat D) - length t) [];
               row = (if t' ! nat D = [] then replicate (Suc (nat D)) 0 else t' ! nat D);
               i = (D + k) sdiv 2
           in if 0 \<le> i \<and> i < int (length row) then Some (t'[nat D := row[nat i := x]]) else None)"

definition label_get :: "label \<Rightarrow> int \<Rightarrow> int \<Rightarrow> int option" where
  "label_get t d k =
     (if 0 \<le> d \<and> d < int (length t)
      then let row = t ! nat d; i = (d + k) sdiv 2
           in if 0 \<le> i \<and> i < int (length row) then Some (row ! nat i) else None
      else None)"

definition newtriang :: "int \<Rightarrow> label" where
  "newtriang limit = (if limit < 100 then replicate (nat limit) [] else [])"

section \<open>The edit graph\<close>

record 'a editGraph =
  eg_a :: "'a list"
  eg_b :: "'a list"
  eg_vf :: label
  eg_vb :: label
  eg_limit :: int
  eg_lx :: int
  eg_ly :: int
  eg_ux :: int
  eg_uy :: int
  eg_delta :: int

definition commonPrefixLen :: "'a editGraph \<Rightarrow> int \<Rightarrow> int \<Rightarrow> int \<Rightarrow> int \<Rightarrow> int option" where
  "commonPrefixLen e ai aj bi bj =
     (if 0 \<le> ai \<and> ai \<le> aj \<and> aj \<le> int (length (eg_a e)) \<and> 0 \<le> bi \<and> bi \<le> bj \<and> bj \<le> int (length (eg_b e))
      then Some (int (common_prefix (slice (nat ai) (nat aj) (eg_a e)) (slice (nat bi) (nat bj) (eg_b e))))
      else None)"

definition commonSuffixLen :: "'a editGraph \<Rightarrow> int \<Rightarrow> int \<Rightarrow> int \<Rightarrow> int \<Rightarrow> int option" where
  "commonSuffixLen e ai aj bi bj =
     (if 0 \<le> ai \<and> ai \<le> aj \<and> aj \<le> int (length (eg_a e)) \<and> 0 \<le> bi \<and> bi \<le> bj \<and> bj \<le> int (length (eg_b e))
      then Some (int (common_prefix (rev (slice (nat ai) (nat aj) (eg_a e))) (rev (slice (nat bi) (nat bj) (eg_b e)))))
      else None)"

text \<open>\<open>for k := lo; k <= hi; k += 2\<close>\<close>

definition diagonals :: "int \<Rightarrow> int \<Rightarrow> int list" where
  "diagonals lo hi = map (\<lambda>i. lo + 2 * int i) [0..<nat ((hi - lo) div 2 + 1)]"

subsection \<open>Forward\<close>

definition lookForward :: "'a editGraph \<Rightarrow> int \<Rightarrow> int \<Rightarrow> int option" where
  "lookForward e k relx =
     (let rely = relx - k; x = relx + eg_lx e; y = rely + eg_ly e
      in if x < eg_ux e \<and> y < eg_uy e
         then do { n \<leftarrow> commonPrefixLen e x (eg_ux e) y (eg_uy e); Some (x + n) }
         else Some x)"

definition setForward :: "'a editGraph \<Rightarrow> int \<Rightarrow> int \<Rightarrow> int \<Rightarrow> 'a editGraph option" where
  "setForward e d k relx =
     do { x \<leftarrow> lookForward e k relx; vf \<leftarrow> label_set (eg_vf e) d k (x - eg_lx e); Some (e\<lparr>eg_vf := vf\<rparr>) }"

definition getForward :: "'a editGraph \<Rightarrow> int \<Rightarrow> int \<Rightarrow> int option" where
  "getForward e d k = label_get (eg_vf e) d k"

text \<open>The condition \<open>ok(d, k) && v == label(d, k)\<close> of the backtracking loops.\<close>

definition labelled :: "label \<Rightarrow> int \<Rightarrow> int \<Rightarrow> int \<Rightarrow> bool option" where
  "labelled t d k v = (if ok d k then do { x \<leftarrow> label_get t d k; Some (v = x) } else Some False)"

partial_function (option) forward_loop :: "'a editGraph \<Rightarrow> int \<Rightarrow> int \<Rightarrow> int \<Rightarrow> lcs \<Rightarrow> lcs option" where
  "forward_loop e D k x ans =
     (if x \<noteq> 0 \<or> x - k \<noteq> 0 then do {
        right \<leftarrow> labelled (eg_vf e) (D - 1) (k - 1) (x - 1);
        if right then forward_loop e (D - 1) (k - 1) (x - 1) ans
        else do {
          down \<leftarrow> labelled (eg_vf e) (D - 1) (k + 1) x;
          if down then forward_loop e (D - 1) (k + 1) x ans
          else forward_loop e D k (x - 1) (lcs_prepend ans (x + eg_lx e - 1) (x - k + eg_ly e - 1)) } }
      else Some ans)"

declare forward_loop.simps [code]

definition forwardlcs :: "'a editGraph \<Rightarrow> int \<Rightarrow> int \<Rightarrow> lcs option" where
  "forwardlcs e D k = do { x \<leftarrow> getForward e D k; forward_loop e D k x [] }"

definition fdone :: "'a editGraph \<Rightarrow> int \<Rightarrow> int \<Rightarrow> lcs option option" where
  "fdone e D k = do {
     x \<leftarrow> label_get (eg_vf e) D k;
     let y = x - k in
     if x = eg_ux e \<and> y = eg_uy e then do { l \<leftarrow> forwardlcs e D k; Some (Some l) } else Some None }"

text \<open>The label for \<open>D + 1\<close> on an inner diagonal; the search sets it or sets and tests it.\<close>

definition next_forward :: "'a editGraph \<Rightarrow> int \<Rightarrow> int \<Rightarrow> int option" where
  "next_forward e D k = do {
     v \<leftarrow> getForward e D (k - 1); lookv \<leftarrow> lookForward e k (v + 1);
     h \<leftarrow> getForward e D (k + 1); lookh \<leftarrow> lookForward e k h;
     Some (if lookv > lookh then lookv else lookh) }"

definition set_done :: "'a editGraph \<Rightarrow> int \<Rightarrow> int \<Rightarrow> int \<Rightarrow> (lcs option \<times> 'a editGraph) option" where
  "set_done e d k relx = do { e' \<leftarrow> setForward e d k relx; r \<leftarrow> fdone e' d k; Some (r, e') }"

text \<open>\<open>if ok, ans := ...; ok { return ans }\<close>\<close>

definition unless_done ::
    "(lcs option \<times> 'a editGraph) option \<Rightarrow> ('a editGraph \<Rightarrow> (lcs option \<times> 'a editGraph) option) \<Rightarrow> (lcs option \<times> 'a editGraph) option" where
  "unless_done m f = do { (r, e) \<leftarrow> m; case r of Some ans \<Rightarrow> Some (Some ans, e) | None \<Rightarrow> f e }"

fun forward_inner :: "'a editGraph \<Rightarrow> int \<Rightarrow> int list \<Rightarrow> (lcs option \<times> 'a editGraph) option" where
  "forward_inner e D [] = Some (None, e)"
| "forward_inner e D (k # ks) =
     do { x \<leftarrow> next_forward e D k; unless_done (set_done e (D + 1) k x) (\<lambda>e'. forward_inner e' D ks) }"

fun forward_rounds :: "nat \<Rightarrow> int \<Rightarrow> 'a editGraph \<Rightarrow> (lcs option \<times> 'a editGraph) option" where
  "forward_rounds 0 D e = Some (None, e)"
| "forward_rounds (Suc n) D e = do {
     x \<leftarrow> getForward e D (- D);
     unless_done (set_done e (D + 1) (- (D + 1)) x) (\<lambda>e1. do {
       x \<leftarrow> getForward e1 D D;
       unless_done (set_done e1 (D + 1) (D + 1) (x + 1)) (\<lambda>e2.
         unless_done (forward_inner e2 D (diagonals (- D + 1) (D - 1))) (\<lambda>e3. forward_rounds n (D + 1) e3)) }) }"

fun forward_best :: "'a editGraph \<Rightarrow> int list \<Rightarrow> int \<Rightarrow> int \<Rightarrow> int option" where
  "forward_best e [] diagmax kmax = Some kmax"
| "forward_best e (k # ks) diagmax kmax = do {
     x \<leftarrow> getForward e (eg_limit e) k;
     let y = x - k in
     if x + y > diagmax \<and> x \<le> eg_ux e \<and> y \<le> eg_uy e then forward_best e ks (x + y) k
     else forward_best e ks diagmax kmax }"

definition forward :: "'a editGraph \<Rightarrow> (lcs \<times> 'a editGraph) option" where
  "forward e = do {
     (r, e') \<leftarrow> unless_done (set_done e 0 0 (eg_lx e)) (forward_rounds (nat (eg_limit e)) 0);
     case r of Some ans \<Rightarrow> Some (ans, e')
     | None \<Rightarrow> do {
         kmax \<leftarrow> forward_best e' (diagonals (- eg_limit e') (eg_limit e')) (- 1) (- eg_limit e' - 1);
         l \<leftarrow> forwardlcs e' (eg_limit e') kmax;
         Some (l, e') } }"

subsection \<open>Backward\<close>

definition lookBackward :: "'a editGraph \<Rightarrow> int \<Rightarrow> int \<Rightarrow> int option" where
  "lookBackward e k relx =
     (let rely = relx - (k + eg_delta e); x = relx + eg_lx e; y = rely + eg_ly e
      in if x > 0 \<and> y > 0
         then do { n \<leftarrow> commonSuffixLen e 0 x 0 y; Some (x - n) }
         else Some x)"

definition setBackward :: "'a editGraph \<Rightarrow> int \<Rightarrow> int \<Rightarrow> int \<Rightarrow> 'a editGraph option" where
  "setBackward e d k relx =
     do { x \<leftarrow> lookBackward e k relx; vb \<leftarrow> label_set (eg_vb e) d k (x - eg_lx e); Some (e\<lparr>eg_vb := vb\<rparr>) }"

definition getBackward :: "'a editGraph \<Rightarrow> int \<Rightarrow> int \<Rightarrow> int option" where
  "getBackward e d k = label_get (eg_vb e) d k"

partial_function (option) backward_loop :: "'a editGraph \<Rightarrow> int \<Rightarrow> int \<Rightarrow> int \<Rightarrow> lcs \<Rightarrow> lcs option" where
  "backward_loop e D k x ans =
     (if x \<noteq> eg_ux e \<or> x - (k + eg_delta e) \<noteq> eg_uy e then do {
        left \<leftarrow> labelled (eg_vb e) (D - 1) (k - 1) x;
        if left then backward_loop e (D - 1) (k - 1) x ans
        else do {
          up \<leftarrow> labelled (eg_vb e) (D - 1) (k + 1) (x + 1);
          if up then backward_loop e (D - 1) (k + 1) (x + 1) ans
          else backward_loop e D k (x + 1) (lcs_append ans (x + eg_lx e) (x - (k + eg_delta e) + eg_ly e)) } }
      else Some ans)"

declare backward_loop.simps [code]

definition backwardlcs :: "'a editGraph \<Rightarrow> int \<Rightarrow> int \<Rightarrow> lcs option" where
  "backwardlcs e D k = do { x \<leftarrow> getBackward e D k; backward_loop e D k x [] }"

definition next_backward :: "'a editGraph \<Rightarrow> int \<Rightarrow> int \<Rightarrow> int option" where
  "next_backward e D k = do {
     v \<leftarrow> getBackward e D (k - 1); lookv \<leftarrow> lookBackward e k v;
     h \<leftarrow> getBackward e D (k + 1); lookh \<leftarrow> lookBackward e k (h - 1);
     Some (if lookv < lookh then lookv else lookh) }"

fun backward_best :: "'a editGraph \<Rightarrow> int list \<Rightarrow> int \<Rightarrow> int \<Rightarrow> int option" where
  "backward_best e [] diagmin kmax = Some kmax"
| "backward_best e (k # ks) diagmin kmax = do {
     x \<leftarrow> getBackward e (eg_limit e) k;
     let y = x - (k + eg_delta e) in
     if x + y < diagmin \<and> x \<ge> 0 \<and> y \<ge> 0 then backward_best e ks (x + y) k
     else backward_best e ks diagmin kmax }"

subsection \<open>Two-sided\<close>

fun forward_fill :: "'a editGraph \<Rightarrow> int \<Rightarrow> int list \<Rightarrow> 'a editGraph option" where
  "forward_fill e D [] = Some e"
| "forward_fill e D (k # ks) = do { x \<leftarrow> next_forward e D k; e' \<leftarrow> setForward e (D + 1) k x; forward_fill e' D ks }"

fun backward_fill :: "'a editGraph \<Rightarrow> int \<Rightarrow> int list \<Rightarrow> 'a editGraph option" where
  "backward_fill e D [] = Some e"
| "backward_fill e D (k # ks) = do { x \<leftarrow> next_backward e D k; e' \<leftarrow> setBackward e (D + 1) k x; backward_fill e' D ks }"

definition forward_pass :: "'a editGraph \<Rightarrow> int \<Rightarrow> 'a editGraph option" where
  "forward_pass e D = do {
     x \<leftarrow> getForward e D (- D); e1 \<leftarrow> setForward e (D + 1) (- (D + 1)) x;
     x \<leftarrow> getForward e1 D D; e2 \<leftarrow> setForward e1 (D + 1) (D + 1) (x + 1);
     forward_fill e2 D (diagonals (- D + 1) (D - 1)) }"

definition backward_pass :: "'a editGraph \<Rightarrow> int \<Rightarrow> 'a editGraph option" where
  "backward_pass e D = do {
     x \<leftarrow> getBackward e D (- D); e1 \<leftarrow> setBackward e (D + 1) (- (D + 1)) (x - 1);
     x \<leftarrow> getBackward e1 D D; e2 \<leftarrow> setBackward e1 (D + 1) (D + 1) x;
     backward_fill e2 D (diagonals (- D + 1) (D - 1)) }"

fun find_special :: "'a editGraph \<Rightarrow> int \<Rightarrow> int \<Rightarrow> int list \<Rightarrow> int option option" where
  "find_special e df db [] = Some None"
| "find_special e df db (l # ls) = do {
     x \<leftarrow> label_get (eg_vf e) df l;
     let y = x - l in do {
     u \<leftarrow> label_get (eg_vb e) db (l - eg_delta e);
     let v = u - l in
     if x = u \<or> u = 0 \<or> v = 0 \<or> y = eg_uy e \<or> x = eg_ux e then Some (Some l)
     else find_special e df db ls } }"

fun find_overlap :: "'a editGraph \<Rightarrow> int \<Rightarrow> int \<Rightarrow> int list \<Rightarrow> int option option" where
  "find_overlap e df db [] = Some None"
| "find_overlap e df db (k # ks) = do {
     x \<leftarrow> label_get (eg_vf e) df k;
     u \<leftarrow> label_get (eg_vb e) db (k - eg_delta e);
     if u \<le> x then do {
       l \<leftarrow> find_special e df db (k # ks);
       Some (Some (case l of Some l' \<Rightarrow> l' | None \<Rightarrow> k)) }
     else find_overlap e df db ks }"

definition twoDone :: "'a editGraph \<Rightarrow> int \<Rightarrow> int \<Rightarrow> int option option" where
  "twoDone e df db =
     (if odd (df + db + eg_delta e) then Some None
      else find_overlap e df db (diagonals (max (- df) (- db + eg_delta e)) (min df (db + eg_delta e))))"

definition twolcs :: "'a editGraph \<Rightarrow> int \<Rightarrow> int \<Rightarrow> int \<Rightarrow> (lcs \<times> 'a editGraph) option" where
  "twolcs e df db kf = do {
     x \<leftarrow> label_get (eg_vf e) df kf;
     let y = x - kf; kb = kf - eg_delta e in do {
     u \<leftarrow> label_get (eg_vb e) db kb;
     let v = u - kf in
     if x = u then do {
       f \<leftarrow> forwardlcs e df kf; b \<leftarrow> backwardlcs e db kb; Some (lcs_sort (f @ b), e) }
     else do {
     left \<leftarrow> (if u > 0 then labelled (eg_vf e) (df - 1) (u - 1 - v) (u - 1) else Some False);
     if left then do {
       f \<leftarrow> forwardlcs e (df - 1) (u - 1 - v); b \<leftarrow> backwardlcs e db kb; Some (lcs_sort (f @ b), e) }
     else do {
     below \<leftarrow> (if v > 0 then labelled (eg_vf e) (df - 1) (u - (v - 1)) u else Some False);
     if below then do {
       f \<leftarrow> forwardlcs e (df - 1) (u - (v - 1)); b \<leftarrow> backwardlcs e db kb; Some (lcs_sort (f @ b), e) }
     else if u = 0 \<or> v = 0 \<or> x = eg_ux e \<or> y = eg_uy e then
       (if u = 0 \<or> v = 0 then do { b \<leftarrow> backwardlcs e db kb; Some (b, e) }
        else do { f \<leftarrow> forwardlcs e df kf; Some (f, e) })
     else do {
     right \<leftarrow> (if x + 1 \<le> eg_ux e then labelled (eg_vb e) (db - 1) (x + 1 - y - eg_delta e) (x + 1) else Some False);
     if right then do {
       b \<leftarrow> backwardlcs e (db - 1) (kb + 1); f \<leftarrow> forwardlcs e df kf; Some (lcs_sort (b @ f), e) }
     else do {
     above \<leftarrow> (if y + 1 \<le> eg_uy e then labelled (eg_vb e) (db - 1) (x - (y + 1) - eg_delta e) x else Some False);
     if above then do {
       b \<leftarrow> backwardlcs e (db - 1) (kb - 1); f \<leftarrow> forwardlcs e df kf; Some (lcs_sort (b @ f), e) }
     else do {
       b \<leftarrow> backwardlcs e db kb;
       (f, e') \<leftarrow> forward (e\<lparr>eg_ux := u, eg_uy := v\<rparr>);
       Some (lcs_sort (b @ f), e'\<lparr>eg_ux := eg_ux e, eg_uy := eg_uy e\<rparr>) } } } } } } }"

fun two_rounds :: "nat \<Rightarrow> int \<Rightarrow> 'a editGraph \<Rightarrow> (lcs option \<times> 'a editGraph) option" where
  "two_rounds 0 D e = Some (None, e)"
| "two_rounds (Suc n) D e = do {
     got \<leftarrow> twoDone e D D;
     case got of Some k \<Rightarrow> do { (l, e') \<leftarrow> twolcs e D D k; Some (Some l, e') }
     | None \<Rightarrow> do {
     e1 \<leftarrow> forward_pass e D;
     got \<leftarrow> twoDone e1 (D + 1) D;
     case got of Some k \<Rightarrow> do { (l, e') \<leftarrow> twolcs e1 (D + 1) D k; Some (Some l, e') }
     | None \<Rightarrow> do { e2 \<leftarrow> backward_pass e1 D; two_rounds n (D + 1) e2 } } }"

text \<open>When the search reaches its limit, a forward and a backward part are combined.  The code does not
  reset \<open>kmax\<close> in between.\<close>

definition two_partial :: "'a editGraph \<Rightarrow> lcs option" where
  "two_partial e = (let ks = diagonals (- eg_limit e) (eg_limit e) in do {
     kmax \<leftarrow> forward_best e ks (- 1) (- eg_limit e - 1);
     if kmax < - eg_limit e then None
     else do {
     f \<leftarrow> forwardlcs e (eg_limit e) kmax;
     kmax' \<leftarrow> backward_best e ks (2 ^ 25) kmax;
     if kmax' < - eg_limit e then None
     else do {
     b \<leftarrow> backwardlcs e (eg_limit e) kmax';
     Some (lcs_fix (f @ b)) } } })"

definition twosided :: "'a editGraph \<Rightarrow> lcs option" where
  "twosided e = do {
     e0 \<leftarrow> setForward e 0 0 (eg_lx e); e1 \<leftarrow> setBackward e0 0 0 (eg_ux e0);
     (r, e2) \<leftarrow> two_rounds (nat (eg_limit e1)) 0 e1;
     case r of Some ans \<Rightarrow> Some ans | None \<Rightarrow> two_partial e2 }"

section \<open>Differences\<close>

record Diff =
  df_Start :: int
  df_End :: int
  df_ReplStart :: int
  df_ReplEnd :: int

fun diffs_loop :: "int \<Rightarrow> int \<Rightarrow> int \<Rightarrow> int \<Rightarrow> lcs \<Rightarrow> Diff list" where
  "diffs_loop alen blen pa pb [] =
     (if pa < alen \<or> pb < blen then [\<lparr>df_Start = pa, df_End = alen, df_ReplStart = pb, df_ReplEnd = blen\<rparr>] else [])"
| "diffs_loop alen blen pa pb (l # ls) =
     (if pa < d_X l \<or> pb < d_Y l then [\<lparr>df_Start = pa, df_End = d_X l, df_ReplStart = pb, df_ReplEnd = d_Y l\<rparr>] else [])
     @ diffs_loop alen blen (d_X l + d_Len l) (d_Y l + d_Len l) ls"

definition toDiffs :: "lcs \<Rightarrow> int \<Rightarrow> int \<Rightarrow> Diff list" where
  "toDiffs l alen blen = diffs_loop alen blen 0 0 l"

definition maxDiffs :: int where "maxDiffs = 100"

definition edit_graph :: "'a list \<Rightarrow> 'a list \<Rightarrow> int \<Rightarrow> 'a editGraph" where
  "edit_graph a b limit = \<lparr>eg_a = a, eg_b = b, eg_vf = newtriang limit, eg_vb = newtriang limit, eg_limit = limit,
     eg_lx = 0, eg_ly = 0, eg_ux = int (length a), eg_uy = int (length b), eg_delta = int (length a) - int (length b)\<rparr>"

definition compute :: "'a list \<Rightarrow> 'a list \<Rightarrow> int \<Rightarrow> (Diff list \<times> lcs) option" where
  "compute a b limit = (let limit' = (if limit \<le> 0 then 2 ^ 25 else limit) in do {
     l \<leftarrow> twosided (edit_graph a b limit');
     Some (toDiffs l (int (length a)) (int (length b)), l) })"

definition lcs_diff :: "'a list \<Rightarrow> 'a list \<Rightarrow> Diff list option" where
  "lcs_diff a b = do { (diff, _) \<leftarrow> compute a b (maxDiffs div 2); Some diff }"

end
