(* ===== verification/Lcs_Chains.thy ===== *)
theory Lcs_Chains
  imports Lcs "HOL-Library.Multiset"
begin

text \<open>
  What the diagonals of \<open>tools/internal/diff/lcs\<close> mean.  \<open>chain a b x y l x1 y1\<close>: the diagonals of \<open>l\<close> are
  runs of equal elements of \<open>a\<close> and \<open>b\<close>, one after the other between the points \<open>(x, y)\<close> and \<open>(x1, y1)\<close>.
  The lists built by \<open>prepend\<close>, \<open>append\<close>, \<open>sort\<close> and \<open>fix\<close> are chains, and \<open>toDiffs\<close> turns a chain into
  differences that rewrite \<open>a\<close> to \<open>b\<close>.
\<close>

section \<open>Chains\<close>

definition diag_ok :: "'a list \<Rightarrow> 'a list \<Rightarrow> diag \<Rightarrow> bool" where
  "diag_ok a b d \<longleftrightarrow> 0 \<le> d_X d \<and> 0 \<le> d_Y d \<and> 0 < d_Len d \<and> matches a b (d_X d - d_Y d) (d_X d) (d_X d + d_Len d)"

fun chain :: "'a list \<Rightarrow> 'a list \<Rightarrow> int \<Rightarrow> int \<Rightarrow> lcs \<Rightarrow> int \<Rightarrow> int \<Rightarrow> bool" where
  "chain a b x y [] x1 y1 \<longleftrightarrow> x \<le> x1 \<and> y \<le> y1"
| "chain a b x y (d # l) x1 y1 \<longleftrightarrow>
     x \<le> d_X d \<and> y \<le> d_Y d \<and> diag_ok a b d \<and> chain a b (d_X d + d_Len d) (d_Y d + d_Len d) l x1 y1"

definition kept :: "lcs \<Rightarrow> int" where
  "kept l = sum_list (map d_Len l)"

lemma kept_simps [simp]: "kept [] = 0" "kept (d # l) = d_Len d + kept l" "kept (l @ l') = kept l + kept l'"
  by (simp_all add: kept_def)

lemma chain_weaken: "chain a b x y l x1 y1 \<Longrightarrow> x' \<le> x \<Longrightarrow> y' \<le> y \<Longrightarrow> x1 \<le> x1' \<Longrightarrow> y1 \<le> y1' \<Longrightarrow> chain a b x' y' l x1' y1'"
  by (induction l arbitrary: x y x' y') auto

lemma chain_append: "chain a b x y l x1 y1 \<Longrightarrow> chain a b x1 y1 l' x2 y2 \<Longrightarrow> chain a b x y (l @ l') x2 y2"
proof (induction l arbitrary: x y)
  case Nil
  then show ?case using chain_weaken by fastforce
qed auto

lemma chain_le: "chain a b x y l x1 y1 \<Longrightarrow> x \<le> x1 \<and> y \<le> y1"
  by (induction l arbitrary: x y) (fastforce simp: diag_ok_def)+

lemma chain_kept: "chain a b x y l x1 y1 \<Longrightarrow> 0 \<le> kept l \<and> kept l \<le> x1 - x \<and> kept l \<le> y1 - y"
  by (induction l arbitrary: x y) (fastforce simp: diag_ok_def)+

lemma chain_diag_ok: "chain a b x y l x1 y1 \<Longrightarrow> \<forall>d \<in> set l. diag_ok a b d"
  by (induction l arbitrary: x y) auto

lemma matches_refl: "matches a b k x x"
  unfolding matches_def by (metis linorder_not_less)

lemma matches_one: "matches a b k x (x + 1) \<longleftrightarrow> x < int (length a) \<and> x - k < int (length b) \<and> a ! nat x = b ! nat (x - k)"
proof -
  have "x \<le> i \<and> i < x + 1 \<longleftrightarrow> i = x" for i :: int by linarith
  then show ?thesis by (simp add: matches_def)
qed

lemma matches_join: "matches a b k x z \<Longrightarrow> matches a b k z w \<Longrightarrow> matches a b k x w"
  unfolding matches_def by (metis linorder_not_less)

lemma matches_mono: "matches a b k x z \<Longrightarrow> x \<le> x' \<Longrightarrow> z' \<le> z \<Longrightarrow> matches a b k x' z'"
  unfolding matches_def by (metis order_trans order_less_le_trans)

lemma chain_prepend:
  assumes "chain a b x y l x1 y1" "0 < x" "0 < y" "matches a b (x - y) (x - 1) x"
  shows "chain a b (x - 1) (y - 1) (lcs_prepend l (x - 1) (y - 1)) x1 y1"
    "kept (lcs_prepend l (x - 1) (y - 1)) = kept l + 1"
proof -
  have one: "diag_ok a b \<lparr>d_X = x - 1, d_Y = y - 1, d_Len = 1\<rparr>" using assms(2-4) by (simp add: diag_ok_def)
  show "kept (lcs_prepend l (x - 1) (y - 1)) = kept l + 1" by (simp add: lcs_prepend_def split: list.splits)
  show "chain a b (x - 1) (y - 1) (lcs_prepend l (x - 1) (y - 1)) x1 y1"
  proof (cases l)
    case Nil
    then show ?thesis using assms(1) one by (simp add: lcs_prepend_def)
  next
    case (Cons d l')
    show ?thesis
    proof (cases "d_X d = x \<and> d_Y d = y")
      case True
      have "matches a b (x - y) (x - 1) (x + d_Len d)"
        using matches_join [OF assms(4)] assms(1) True by (simp add: Cons diag_ok_def)
      then show ?thesis using True assms(1-3) by (simp add: Cons lcs_prepend_def diag_ok_def add.commute add.left_commute)
    next
      case False
      then have "lcs_prepend l (x - 1) (y - 1) = \<lparr>d_X = x - 1, d_Y = y - 1, d_Len = 1\<rparr> # l"
        by (auto simp: Cons lcs_prepend_def)
      then show ?thesis using assms(1) one by (simp add: Cons)
    qed
  qed
qed

lemma chain_snoc: "chain a b x y (l @ [d]) x1 y1 \<longleftrightarrow>
    chain a b x y l (d_X d) (d_Y d) \<and> diag_ok a b d \<and> d_X d + d_Len d \<le> x1 \<and> d_Y d + d_Len d \<le> y1"
  by (induction l arbitrary: x y) auto

lemma chain_append_one:
  assumes "chain a b x y l x1 y1" "0 \<le> x1" "0 \<le> y1" "matches a b (x1 - y1) x1 (x1 + 1)"
  shows "chain a b x y (lcs_append l x1 y1) (x1 + 1) (y1 + 1)" "kept (lcs_append l x1 y1) = kept l + 1"
proof -
  have one: "diag_ok a b \<lparr>d_X = x1, d_Y = y1, d_Len = 1\<rparr>" using assms(2-4) by (simp add: diag_ok_def)
  let ?join = "l \<noteq> [] \<and> d_X (last l) + d_Len (last l) = x1 \<and> d_Y (last l) + d_Len (last l) = y1"
  show "kept (lcs_append l x1 y1) = kept l + 1"
    by (cases l rule: rev_cases) (simp_all add: lcs_append_def)
  show "chain a b x y (lcs_append l x1 y1) (x1 + 1) (y1 + 1)"
  proof (cases ?join)
    case True
    then obtain l' d where l: "l = l' @ [d]" by (meson rev_exhaust)
    then have d: "d_X d + d_Len d = x1" "d_Y d + d_Len d = y1" using True by simp_all
    then have k: "d_X d - d_Y d = x1 - y1" by linarith
    have "diag_ok a b d" using assms(1) by (simp add: l chain_snoc)
    then have "matches a b (x1 - y1) (d_X d) x1" unfolding diag_ok_def k d(1) by simp
    from matches_join [OF this assms(4)] have "matches a b (d_X d - d_Y d) (d_X d) (x1 + 1)" unfolding k .
    then have "matches a b (d_X d - d_Y d) (d_X d) (d_X d + (d_Len d + 1))" using d(1) by (simp add: add.assoc [symmetric])
    then show ?thesis using assms(1) d by (simp add: l lcs_append_def chain_snoc diag_ok_def)
  next
    case False
    then have "lcs_append l x1 y1 = l @ [\<lparr>d_X = x1, d_Y = y1, d_Len = 1\<rparr>]" by (auto simp: lcs_append_def)
    then show ?thesis using assms(1) one by (simp add: chain_snoc)
  qed
qed

section \<open>Sorting and repair\<close>

text \<open>\<open>precedes p q\<close>: \<open>q\<close> comes after \<open>p\<close> in both sequences.\<close>

definition precedes :: "diag \<Rightarrow> diag \<Rightarrow> bool" where
  "precedes p q \<longleftrightarrow> d_X p + d_Len p \<le> d_X q \<and> d_Y p + d_Len p \<le> d_Y q"

lemma chain_precedes: "chain a b x y l x1 y1 \<Longrightarrow> sorted_wrt precedes l \<and> (\<forall>d \<in> set l. x \<le> d_X d \<and> y \<le> d_Y d)"
proof (induction l arbitrary: x y)
  case (Cons d l)
  then have "chain a b (d_X d + d_Len d) (d_Y d + d_Len d) l x1 y1" by simp
  from Cons.IH [OF this] have "sorted_wrt precedes l \<and> (\<forall>q \<in> set l. d_X d + d_Len d \<le> d_X q \<and> d_Y d + d_Len d \<le> d_Y q)" .
  moreover have pos: "0 < d_Len d" "x \<le> d_X d" "y \<le> d_Y d" using Cons.prems by (simp_all add: diag_ok_def)
  ultimately have "\<forall>q \<in> set l. precedes d q" "\<forall>q \<in> set l. x \<le> d_X q \<and> y \<le> d_Y q" "sorted_wrt precedes l"
    by (simp_all add: precedes_def) (meson add_increasing2 less_imp_le order_trans)+
  then show ?case using pos by simp
qed simp

lemma before_chain:
  assumes "sorted_wrt precedes l" "\<forall>d \<in> set l. diag_ok a b d \<and> x \<le> d_X d \<and> y \<le> d_Y d \<and> d_X d + d_Len d \<le> x1 \<and> d_Y d + d_Len d \<le> y1"
    "x \<le> x1" "y \<le> y1"
  shows "chain a b x y l x1 y1"
  using assms by (induction l arbitrary: x y) (auto simp: precedes_def)

lemma before_sorted:
  assumes "sorted_wrt precedes l" "\<forall>d \<in> set l. 0 < d_Len d"
  shows "sorted (map (\<lambda>d. (d_X d, - d_Len d)) l)" "inj_on (\<lambda>d. (d_X d, - d_Len d)) (set l)"
proof -
  show "sorted (map (\<lambda>d. (d_X d, - d_Len d)) l)"
    using assms by (induction l) (fastforce simp: precedes_def less_eq_prod_def)+
  have "p = q \<or> precedes p q \<or> precedes q p" if "p \<in> set l" "q \<in> set l" for p q
    using assms(1) that by (induction l) auto
  then show "inj_on (\<lambda>d. (d_X d, - d_Len d)) (set l)"
    using assms(2) unfolding inj_on_def precedes_def by (metis Pair_inject add_le_same_cancel1 linorder_not_less)
qed

lemma lcs_sort_chain:
  assumes "chain a b x y l x1 y1" "mset l' = mset l"
  shows "lcs_sort l' = l"
proof -
  have pos: "\<forall>d \<in> set l. 0 < d_Len d" using chain_diag_ok [OF assms(1)] by (simp add: diag_ok_def)
  have "set l' = set l" using assms(2) by (metis mset_eq_setD)
  then show ?thesis
    using sort_key_inj_key_eq [OF assms(2), of "\<lambda>d. (d_X d, - d_Len d)"] before_sorted [OF conjunct1 [OF chain_precedes [OF assms(1)]] pos]
    unfolding lcs_sort_def by simp
qed

text \<open>Trimming keeps a part of a diagonal.\<close>

definition part_of :: "diag \<Rightarrow> diag \<Rightarrow> bool" where
  "part_of p q \<longleftrightarrow> d_X p - d_Y p = d_X q - d_Y q \<and> d_X q \<le> d_X p \<and> d_X p + d_Len p \<le> d_X q + d_Len q \<and> 0 < d_Len p"

lemma part_of_trans: "part_of p q \<Longrightarrow> part_of q r \<Longrightarrow> part_of p r"
  unfolding part_of_def by linarith

lemma part_of_ok: "part_of p q \<Longrightarrow> diag_ok a b q \<Longrightarrow> diag_ok a b p"
  unfolding diag_ok_def part_of_def using matches_mono [of a b "d_X q - d_Y q" "d_X q" "d_X q + d_Len q" "d_X p" "d_X p + d_Len p"]
  by auto

lemma part_of_precedes: "part_of p q \<Longrightarrow> precedes q r \<Longrightarrow> precedes p r" "part_of p q \<Longrightarrow> precedes r q \<Longrightarrow> precedes r p"
  unfolding part_of_def precedes_def by linarith+

lemma trim_end_part: "trim_end at ex p = Some q \<Longrightarrow> 0 < d_Len p \<Longrightarrow> at p = d_X p \<or> at p = d_Y p \<Longrightarrow> part_of q p"
  by (auto simp: trim_end_def part_of_def Let_def split: if_splits)

lemma trim_begin_part: "trim_begin at ex p = Some q \<Longrightarrow> 0 < d_Len p \<Longrightarrow> part_of q p"
  by (auto simp: trim_begin_def part_of_def Let_def split: if_splits)

lemma overlap_part:
  assumes "overlap ex p = (dir, q)" "dir \<noteq> Empty" "dir \<noteq> Bad" "0 < d_Len p"
  shows "part_of q p \<and> (precedes q ex \<or> precedes ex q)"
proof -
  obtain p1 p2 p3 p4 where p: "trim_end d_X ex p = Some p1" "trim_begin d_X ex p1 = Some p2"
    "trim_end d_Y ex p2 = Some p3" "trim_begin d_Y ex p3 = Some p4"
    using assms(1,2) by (auto simp: overlap_def bind_eq_Some_conv split: option.splits)
  have "part_of p1 p" using trim_end_part [OF p(1) assms(4)] by simp
  moreover have "part_of p2 p1" using trim_begin_part [OF p(2)] \<open>part_of p1 p\<close> by (simp add: part_of_def)
  moreover have "part_of p3 p2" using trim_end_part [OF p(3)] \<open>part_of p2 p1\<close> by (simp add: part_of_def)
  moreover have "part_of p4 p3" using trim_begin_part [OF p(4)] \<open>part_of p3 p2\<close> by (simp add: part_of_def)
  ultimately have "part_of p4 p" using part_of_trans by blast
  moreover have "q = p4" "precedes q ex \<or> precedes ex q"
    using assms(1-3) p by (auto simp: overlap_def precedes_def split: if_splits)
  ultimately show ?thesis by simp
qed

lemma fit_part:
  "fit tmp p = Some q \<Longrightarrow> 0 < d_Len p \<Longrightarrow> part_of q p \<and> (\<forall>e \<in> set tmp. precedes q e \<or> precedes e q)"
proof (induction tmp arbitrary: p)
  case Nil
  then show ?case by (simp add: part_of_def)
next
  case (Cons e tmp)
  obtain dir p' where o: "overlap e p = (dir, p')" by (cases "overlap e p")
  have dir: "dir \<noteq> Empty" "dir \<noteq> Bad" "fit tmp p' = Some q" using Cons.prems(1) o by (auto split: direction.splits)
  have p': "part_of p' p" "precedes p' e \<or> precedes e p'" using overlap_part [OF o dir(1,2) Cons.prems(2)] by simp_all
  have "part_of q p' \<and> (\<forall>e \<in> set tmp. precedes q e \<or> precedes e q)"
    using Cons.IH [OF dir(3)] p'(1) by (simp add: part_of_def)
  then show ?case using p' part_of_trans part_of_precedes by (metis set_ConsD)
qed

definition consistent :: "'a list \<Rightarrow> 'a list \<Rightarrow> lcs \<Rightarrow> bool" where
  "consistent a b l \<longleftrightarrow> (\<forall>d \<in> set l. diag_ok a b d) \<and> pairwise (\<lambda>p q. precedes p q \<or> precedes q p) (set l) \<and> distinct l"

lemma fix_loop_consistent:
  "consistent a b tmp \<Longrightarrow> \<forall>d \<in> set l. diag_ok a b d \<Longrightarrow> consistent a b (fix_loop tmp l)"
proof (induction tmp l rule: fix_loop.induct)
  case (2 tmp d l)
  show ?case
  proof (cases "fit tmp d")
    case None
    then show ?thesis using 2 by simp
  next
    case (Some q)
    have d: "diag_ok a b d" using 2(3) by simp
    then have q: "part_of q d" "\<forall>e \<in> set tmp. precedes q e \<or> precedes e q"
      using fit_part [OF Some] by (simp_all add: diag_ok_def)
    have "q \<notin> set tmp" using q by (auto simp: precedes_def part_of_def)
    moreover have "0 < d_Len q" using q(1) by (simp add: part_of_def)
    ultimately have "consistent a b (tmp @ [q])"
      using 2(2) q part_of_ok [OF q(1) d] by (auto simp: consistent_def pairwise_insert)
    then show ?thesis using 2(1,3) Some \<open>0 < d_Len q\<close> by simp
  qed
qed simp

lemma consistent_sorted:
  assumes "consistent a b l"
  shows "sorted_wrt precedes (lcs_sort l)"
proof -
  let ?s = "lcs_sort l"
  have s: "sorted (map (\<lambda>d. (d_X d, - d_Len d)) ?s)" "set ?s = set l" "distinct ?s"
    using assms by (simp_all add: lcs_sort_def consistent_def)
  show ?thesis unfolding sorted_wrt_iff_nth_less
  proof (intro allI impI)
    fix i j assume ij: "i < j" "j < length ?s"
    then have "?s ! i \<noteq> ?s ! j" "?s ! i \<in> set l" "?s ! j \<in> set l"
      using s(2,3) nth_eq_iff_index_eq nth_mem by (metis order_less_trans less_irrefl)+
    then have "precedes (?s ! i) (?s ! j) \<or> precedes (?s ! j) (?s ! i)" "0 < d_Len (?s ! j)"
      using assms by (auto simp: consistent_def pairwise_def diag_ok_def)
    moreover have "d_X (?s ! i) \<le> d_X (?s ! j)"
      using sorted_nth_mono [OF s(1), of i j] ij by (simp add: less_eq_prod_def) linarith
    ultimately show "precedes (?s ! i) (?s ! j)" by (auto simp: precedes_def)
  qed
qed

lemma diag_ok_bounds: "diag_ok a b d \<Longrightarrow> d_X d + d_Len d \<le> int (length a) \<and> d_Y d + d_Len d \<le> int (length b)"
  unfolding diag_ok_def matches_def by (elim conjE allE [where x = "d_X d + d_Len d - 1"]) simp

lemma lcs_fix_chain:
  assumes "\<forall>d \<in> set l. diag_ok a b d"
  shows "chain a b 0 0 (lcs_fix l) (int (length a)) (int (length b))"
proof -
  let ?l = "sort_key (\<lambda>d. - d_Len d) l"
  show ?thesis
  proof (cases ?l)
    case Nil
    then show ?thesis by (simp add: lcs_fix_def)
  next
    case (Cons d l')
    have "\<forall>d \<in> set ?l. diag_ok a b d" using assms by simp
    then have all: "diag_ok a b d" "\<forall>d \<in> set l'. diag_ok a b d" by (simp_all add: Cons)
    then have c: "consistent a b (fix_loop [d] l')" by (intro fix_loop_consistent) (simp_all add: consistent_def)
    have "\<forall>d \<in> set (lcs_sort (fix_loop [d] l')). diag_ok a b d" using c by (simp add: consistent_def lcs_sort_def)
    then show ?thesis
      using before_chain [OF consistent_sorted [OF c], of a b 0 0 "int (length a)" "int (length b)"] diag_ok_bounds
      by (fastforce simp: lcs_fix_def Cons diag_ok_def)
  qed
qed

section \<open>Differences\<close>

text \<open>\<open>rewritten a b pa pb ds\<close>: the differences are in order and in range, and what they leave of \<open>a\<close> from
  \<open>pa\<close> on, with the replacements from \<open>b\<close> in between, is \<open>b\<close> from \<open>pb\<close> on.\<close>

fun rewritten :: "'a list \<Rightarrow> 'a list \<Rightarrow> int \<Rightarrow> int \<Rightarrow> Diff list \<Rightarrow> bool" where
  "rewritten a b pa pb [] \<longleftrightarrow> pa \<le> int (length a) \<and> pb \<le> int (length b) \<and> drop (nat pa) a = drop (nat pb) b"
| "rewritten a b pa pb (d # ds) \<longleftrightarrow>
     pa \<le> df_Start d \<and> df_Start d \<le> df_End d \<and> df_End d \<le> int (length a)
     \<and> pb \<le> df_ReplStart d \<and> df_ReplStart d \<le> df_ReplEnd d \<and> df_ReplEnd d \<le> int (length b)
     \<and> slice (nat pa) (nat (df_Start d)) a = slice (nat pb) (nat (df_ReplStart d)) b
     \<and> rewritten a b (df_End d) (df_ReplEnd d) ds"

text \<open>How many elements are deleted and inserted.\<close>

definition edit_count :: "Diff list \<Rightarrow> int" where
  "edit_count ds = sum_list (map (\<lambda>d. (df_End d - df_Start d) + (df_ReplEnd d - df_ReplStart d)) ds)"

lemma edit_count_simps [simp]:
  "edit_count [] = 0" "edit_count (d # ds) = (df_End d - df_Start d) + (df_ReplEnd d - df_ReplStart d) + edit_count ds"
  by (simp_all add: edit_count_def)

lemma matches_slice:
  assumes "0 \<le> x" "0 \<le> y" "matches a b (x - y) x (x + n)" "0 < n"
  shows "slice (nat x) (nat (x + n)) a = slice (nat y) (nat (y + n)) b \<and> x + n \<le> int (length a) \<and> y + n \<le> int (length b)"
proof -
  obtain p q m where n: "x = int p" "y = int q" "n = int m" using assms(1,2,4) by (metis nonneg_int_cases less_imp_le)
  have m: "\<forall>i < m. p + i < length a \<and> q + i < length b \<and> a ! (p + i) = b ! (q + i)"
    using assms(3) unfolding n by (metis matches_nat of_nat_add)
  have "0 < m" using assms(4) n by simp
  then obtain m' where m': "m = Suc m'" by (cases m) auto
  have len: "p + m \<le> length a" "q + m \<le> length b" using m [unfolded m', rule_format, of m'] by (simp_all add: m')
  have "slice p (p + m) a = slice q (q + m) b"
    using len m by (intro nth_equalityI) (simp_all add: nth_slice)
  moreover have "nat (x + n) = p + m" "nat (y + n) = q + m" by (simp_all add: n nat_add_distrib)
  ultimately show ?thesis using len n by simp
qed

lemma rewritten_back:
  assumes "0 \<le> pa" "0 \<le> pb" "0 < n" "slice (nat pa) (nat (pa + n)) a = slice (nat pb) (nat (pb + n)) b"
    "pa + n \<le> int (length a)" "pb + n \<le> int (length b)" "rewritten a b (pa + n) (pb + n) ds"
  shows "rewritten a b pa pb ds"
proof (cases ds)
  case Nil
  have "drop (nat pa) a = drop (nat pb) b"
    using slice_append_nat_drop [of pa "pa + n" a] slice_append_nat_drop [of pb "pb + n" b] assms Nil by simp
  then show ?thesis using assms Nil by simp
next
  case (Cons d ds')
  have le: "pa + n \<le> df_Start d" "pb + n \<le> df_ReplStart d" using assms(7) Cons by simp_all
  have "slice (nat pa) (nat (df_Start d)) a = slice (nat pb) (nat (df_ReplStart d)) b"
    using slice_append_nat [of pa "pa + n" "df_Start d" a] slice_append_nat [of pb "pb + n" "df_ReplStart d" b] le assms Cons by simp
  then show ?thesis using assms Cons by simp
qed

lemma rewritten_bounds:
  "rewritten a b pa pb ds \<Longrightarrow> 0 \<le> pa \<Longrightarrow> 0 \<le> pb \<Longrightarrow> d \<in> set ds \<Longrightarrow>
     pa \<le> df_Start d \<and> df_Start d \<le> df_End d \<and> df_End d \<le> int (length a)
     \<and> pb \<le> df_ReplStart d \<and> df_ReplStart d \<le> df_ReplEnd d \<and> df_ReplEnd d \<le> int (length b)"
proof (induction ds arbitrary: pa pb)
  case (Cons e ds)
  from Cons.prems have e: "pa \<le> df_Start e" "df_Start e \<le> df_End e" "pb \<le> df_ReplStart e" "df_ReplStart e \<le> df_ReplEnd e"
    "rewritten a b (df_End e) (df_ReplEnd e) ds" by simp_all
  show ?case
  proof (cases "d = e")
    case False
    then show ?thesis using Cons.IH [OF e(5)] Cons.prems(2-4) e(1-4) by auto
  qed (use Cons.prems(1) in simp)
qed simp

lemma diffs_loop_rewritten:
  assumes "chain a b pa pb l (int (length a)) (int (length b))" "0 \<le> pa" "0 \<le> pb"
  shows "rewritten a b pa pb (diffs_loop (int (length a)) (int (length b)) pa pb l)
     \<and> edit_count (diffs_loop (int (length a)) (int (length b)) pa pb l) = (int (length a) - pa) + (int (length b) - pb) - 2 * kept l"
  using assms
proof (induction l arbitrary: pa pb)
  case (Cons d l)
  let ?x = "d_X d" and ?y = "d_Y d" and ?n = "d_Len d"
  let ?rest = "diffs_loop (int (length a)) (int (length b)) (?x + ?n) (?y + ?n) l"
  have d: "pa \<le> ?x" "pb \<le> ?y" "0 \<le> ?x" "0 \<le> ?y" "0 < ?n" "matches a b (?x - ?y) ?x (?x + ?n)"
    "chain a b (?x + ?n) (?y + ?n) l (int (length a)) (int (length b))"
    using Cons.prems(1) by (simp_all add: diag_ok_def)
  have IH: "rewritten a b (?x + ?n) (?y + ?n) ?rest"
    "edit_count ?rest = (int (length a) - (?x + ?n)) + (int (length b) - (?y + ?n)) - 2 * kept l"
    using Cons.IH [OF d(7)] d(3-5) by simp_all
  have s: "slice (nat ?x) (nat (?x + ?n)) a = slice (nat ?y) (nat (?y + ?n)) b" "?x + ?n \<le> int (length a)" "?y + ?n \<le> int (length b)"
    using matches_slice [OF d(3,4,6,5)] by simp_all
  have rest: "rewritten a b ?x ?y ?rest" using rewritten_back [OF d(3,4,5) s IH(1)] .
  show ?case
  proof (cases "pa < ?x \<or> pb < ?y")
    case True
    then show ?thesis using rest IH(2) d s Cons.prems(2,3) by simp
  next
    case False
    then have "pa = ?x" "pb = ?y" using d by simp_all
    then show ?thesis using rest IH(2) by simp
  qed
qed auto

end
