(* ===== verification/Lcs_Search.thy ===== *)
theory Lcs_Search
  imports Lcs_Chains
begin

text \<open>
  The forward and the backward search of \<open>tools/internal/diff/lcs/old.go\<close> compute the labels of
  \<open>Edit_Paths\<close>, no access to the label arrays is out of range, and the diagonals recovered from a label
  form a chain that needs no more edits than the label says.
\<close>

section \<open>The label arrays\<close>

definition shaped :: "label \<Rightarrow> bool" where
  "shaped t \<longleftrightarrow> (\<forall>d < length t. t ! d = [] \<or> length (t ! d) = Suc d)"

text \<open>\<open>labels t F S\<close>: the array holds \<open>F d k\<close> for the pairs of \<open>S\<close> that are labels at all.\<close>

definition labels :: "label \<Rightarrow> (nat \<Rightarrow> int \<Rightarrow> int) \<Rightarrow> (nat \<times> int) set \<Rightarrow> bool" where
  "labels t F S \<longleftrightarrow> shaped t \<and> (\<forall>(d, k) \<in> S. on_diag d k \<longrightarrow> label_get t (int d) k = Some (F d k))"

lemma labels_get: "labels t F S \<Longrightarrow> (d, k) \<in> S \<Longrightarrow> on_diag d k \<Longrightarrow> label_get t (int d) k = Some (F d k)"
  by (auto simp: labels_def)

lemma labels_mono: "labels t F S \<Longrightarrow> S' \<subseteq> S \<Longrightarrow> labels t F S'"
  by (auto simp: labels_def)

lemma shaped_new: "shaped (newtriang limit)"
  by (simp add: shaped_def newtriang_def)

lemma slot:
  assumes "on_diag d k"
  obtains i where "(int d + k) sdiv 2 = int i" "i \<le> d" "int d + k = 2 * int i"
proof -
  obtain j where j: "int d + k = 2 * j" using assms unfolding on_diag_def by (metis evenE)
  then have "0 \<le> j" "j \<le> int d" using assms unfolding on_diag_def by linarith+
  moreover have "(int d + k) sdiv 2 = j" using j \<open>0 \<le> j\<close> by (simp add: signed_divide_int_def sgn_if)
  ultimately show ?thesis using that [of "nat j"] j by simp
qed

lemma label_set_get:
  assumes "shaped t" "on_diag d k"
  obtains t' where "label_set t (int d) k x = Some t'" "shaped t'" "label_get t' (int d) k = Some x"
    "\<And>d' k' y. on_diag d' k' \<Longrightarrow> (d', k') \<noteq> (d, k) \<Longrightarrow> label_get t (int d') k' = Some y \<Longrightarrow> label_get t' (int d') k' = Some y"
proof -
  obtain i where i: "(int d + k) sdiv 2 = int i" "i \<le> d" "int d + k = 2 * int i" using slot [OF assms(2)] .
  define t0 where "t0 = t @ replicate (Suc d - length t) []"
  define row where "row = (if t0 ! d = [] then replicate (Suc d) 0 else t0 ! d)"
  define t' where "t' = t0[d := row[i := x]]"
  have len: "d < length t0" by (simp add: t0_def)
  have t0: "t0 ! j = t ! j" if "j < length t" for j using that by (simp add: t0_def nth_append)
  have row: "length row = Suc d"
    using assms(1) unfolding shaped_def row_def t0_def by (cases "d < length t") (auto simp: nth_append)
  have "label_set t (int d) k x = (if 0 \<le> int i \<and> int i < int (length row) then Some t' else None)"
    by (simp only: label_set_def Let_def i(1) t'_def row_def t0_def nat_int of_nat_less_0_iff if_False)
  then have set: "label_set t (int d) k x = Some t'" using row i(2) by simp
  have "shaped t'"
    unfolding shaped_def
  proof (intro allI impI)
    fix j assume j: "j < length t'"
    show "t' ! j = [] \<or> length (t' ! j) = Suc j"
    proof (cases "j = d")
      case True
      then show ?thesis using row len by (simp add: t'_def)
    next
      case False
      then show ?thesis using assms(1) j by (cases "j < length t") (auto simp: shaped_def t'_def t0 t0_def nth_append)
    qed
  qed
  moreover have "label_get t' (int d) k = Some x"
    using i(2) row len by (simp add: label_get_def i(1) Let_def t'_def)
  moreover have "label_get t' (int d') k' = Some y"
    if k': "on_diag d' k'" "(d', k') \<noteq> (d, k)" and get: "label_get t (int d') k' = Some y" for d' k' y
  proof -
    obtain i' where i': "(int d' + k') sdiv 2 = int i'" "i' \<le> d'" "int d' + k' = 2 * int i'" using slot [OF k'(1)] .
    have old: "d' < length t" "i' < length (t ! d')" "t ! d' ! i' = y"
      using get i' by (auto simp: label_get_def Let_def split: if_splits)
    show ?thesis
    proof (cases "d' = d")
      case True
      then have "i' \<noteq> i" using k' i i' by auto
      moreover have "row = t ! d" using old True by (auto simp: row_def t0)
      ultimately show ?thesis using old i' True len by (simp add: label_get_def Let_def t'_def)
    next
      case False
      then show ?thesis using old i' by (simp add: label_get_def Let_def t'_def t0) (simp add: t0_def)
    qed
  qed
  ultimately show ?thesis using that set by blast
qed

lemma labels_set:
  assumes "labels t F S" "on_diag d k"
  obtains t' where "label_set t (int d) k (F d k) = Some t'" "labels t' F (insert (d, k) S)"
proof -
  obtain t' where t': "label_set t (int d) k (F d k) = Some t'" "shaped t'" "label_get t' (int d) k = Some (F d k)"
    "\<And>d' k' y. on_diag d' k' \<Longrightarrow> (d', k') \<noteq> (d, k) \<Longrightarrow> label_get t (int d') k' = Some y \<Longrightarrow> label_get t' (int d') k' = Some y"
    using label_set_get [of t d k "F d k"] assms(1,2) by (auto simp: labels_def)
  have "labels t' F (insert (d, k) S)"
    unfolding labels_def
  proof (intro conjI t'(2) ballI, clarify)
    fix d' k' assume *: "(d', k') \<in> insert (d, k) S" "on_diag d' k'"
    then show "label_get t' (int d') k' = Some (F d' k')"
      using t'(3,4) labels_get [OF assms(1)] by (cases "(d', k') = (d, k)") auto
  qed
  then show ?thesis using that t'(1) by blast
qed

text \<open>The test of the backtracking loops.\<close>

lemma ok_on_diag: "even (int d + k) \<Longrightarrow> ok (int d) k \<longleftrightarrow> on_diag d k"
  by (auto simp: ok_def on_diag_def)

lemma labelled_eq:
  assumes "labels t F S" "even (int d + k)" "(d, k) \<in> S"
  shows "labelled t (int d) k v = Some (on_diag d k \<and> v = F d k)"
  using labels_get [OF assms(1,3)] by (simp add: labelled_def ok_on_diag [OF assms(2)])

lemma labelled_neg: "labelled t (-1) k v = Some False"
  by (simp add: labelled_def ok_def)

definition rows :: "nat \<Rightarrow> (nat \<times> int) set" where
  "rows n = {(d, k). d < n}"

lemma rows_mem [simp]: "(d, k) \<in> rows n \<longleftrightarrow> d < n"
  by (simp add: rows_def)

lemma labels_row: "labels t F S \<Longrightarrow> rows n \<subseteq> S \<Longrightarrow> d < n \<Longrightarrow> on_diag d k \<Longrightarrow> label_get t (int d) k = Some (F d k)"
  by (rule labels_get) (auto simp: rows_def)

section \<open>Forward\<close>

text \<open>The rectangle of the graph is that of \<open>a\<close> and \<open>b\<close>, which may be prefixes of the two sequences.\<close>

definition fgraph :: "'a editGraph \<Rightarrow> 'a list \<Rightarrow> 'a list \<Rightarrow> bool" where
  "fgraph e a b \<longleftrightarrow> eg_lx e = 0 \<and> eg_ly e = 0 \<and> eg_ux e = int (length a) \<and> eg_uy e = int (length b)
     \<and> a = take (length a) (eg_a e) \<and> b = take (length b) (eg_b e)"

lemma fgraph_update [simp]: "fgraph (e\<lparr>eg_vf := t\<rparr>) a b = fgraph e a b" "fgraph (e\<lparr>eg_vb := t\<rparr>) a b = fgraph e a b"
  by (simp_all add: fgraph_def)

lemma slice_take: "slice i j xs = drop i (take j xs)"
  by (simp add: slice_def drop_take)

lemma lookForward_slide:
  assumes "fgraph e a b" "0 \<le> x" "0 \<le> x - k"
  shows "lookForward e k x = Some (slide a b k x)"
proof -
  have e: "eg_lx e = 0" "eg_ly e = 0" "eg_ux e = int (length a)" "eg_uy e = int (length b)"
    "take (length a) (eg_a e) = a" "take (length b) (eg_b e) = b"
    using assms(1) by (simp_all add: fgraph_def)
  have "length a \<le> length (eg_a e)" "length b \<le> length (eg_b e)"
    using e(5,6) by (metis length_take min.cobounded1)+
  then show ?thesis using assms(2,3) e by (simp add: lookForward_def commonPrefixLen_def slide_def slice_take Let_def)
qed

lemma setForward_label:
  assumes "fgraph e a b" "labels (eg_vf e) (furthest a b) S" "on_diag d k" "0 \<le> x" "0 \<le> x - k" "slide a b k x = furthest a b d k"
  obtains t where "setForward e (int d) k x = Some (e\<lparr>eg_vf := t\<rparr>)" "labels t (furthest a b) (insert (d, k) S)"
proof -
  obtain t where t: "label_set (eg_vf e) (int d) k (furthest a b d k) = Some t" "labels t (furthest a b) (insert (d, k) S)"
    using labels_set [OF assms(2,3)] .
  have "eg_lx e = 0" using assms(1) by (simp add: fgraph_def)
  then show ?thesis using that t assms(6) lookForward_slide [OF assms(1,4,5)] by (simp add: setForward_def)
qed

text \<open>The three kinds of diagonals of the next row.\<close>

lemma lower_diag: "on_diag d (- int d)" "on_diag d (int d)"
  by (simp_all add: on_diag_def)

lemma furthest_point: "on_diag d k \<Longrightarrow> 0 \<le> furthest a b d k" "on_diag d k \<Longrightarrow> k \<le> furthest a b d k"
  using furthest_nonneg [of d k a b] by auto

lemma next_forward_label:
  assumes "fgraph e a b" "labels (eg_vf e) (furthest a b) S" "rows (Suc d) \<subseteq> S"
    "on_diag (Suc d) k" "k \<noteq> - int (Suc d)" "k \<noteq> int (Suc d)"
  obtains x where "next_forward e (int d) k = Some x" "0 \<le> x" "0 \<le> x - k" "slide a b k x = furthest a b (Suc d) k"
proof -
  have l: "on_diag d (k - 1)" "on_diag d (k + 1)" using on_diag_Suc [OF assms(4)] assms(5,6) by simp_all
  let ?v = "furthest a b d (k - 1) + 1" and ?h = "furthest a b d (k + 1)"
  have get: "getForward e (int d) (k - 1) = Some (?v - 1)" "getForward e (int d) (k + 1) = Some ?h"
    using labels_row [OF assms(2,3)] l by (simp_all add: getForward_def)
  have pos: "0 \<le> ?v" "0 \<le> ?v - k" "0 \<le> ?h" "0 \<le> ?h - k" using furthest_point [OF l(1), of a b] furthest_point [OF l(2), of a b] by simp_all
  have "next_forward e (int d) k = Some (max (slide a b k ?v) (slide a b k ?h))"
    using get lookForward_slide [OF assms(1) pos(1,2)] lookForward_slide [OF assms(1) pos(3,4)] by (simp add: next_forward_def max_def)
  moreover have "slide a b k (max (slide a b k ?v) (slide a b k ?h)) = furthest a b (Suc d) k"
    using slide_max [OF pos, of a b] assms(5,6) by simp
  moreover have "0 \<le> max (slide a b k ?v) (slide a b k ?h)" "0 \<le> max (slide a b k ?v) (slide a b k ?h) - k"
    using pos slide_ge [of ?v a b k] by linarith+
  ultimately show ?thesis using that by blast
qed

lemma set_first:
  assumes "fgraph e a b" "labels (eg_vf e) (furthest a b) S"
  obtains t where "setForward e 0 0 (eg_lx e) = Some (e\<lparr>eg_vf := t\<rparr>)" "labels t (furthest a b) (insert (0, 0) S)"
  using setForward_label [OF assms, of 0 0 0] assms(1) by (auto simp: fgraph_def)

lemma set_lowest:
  assumes "fgraph e a b" "labels (eg_vf e) (furthest a b) S" "rows (Suc d) \<subseteq> S"
  obtains x t where "getForward e (int d) (- int d) = Some x" "setForward e (int (Suc d)) (- int (Suc d)) x = Some (e\<lparr>eg_vf := t\<rparr>)"
    "labels t (furthest a b) (insert (Suc d, - int (Suc d)) S)"
proof -
  let ?x = "furthest a b d (- int d)"
  have x: "getForward e (int d) (- int d) = Some ?x"
    using labels_row [OF assms(2,3)] lower_diag by (simp add: getForward_def)
  have s: "slide a b (- int (Suc d)) ?x = furthest a b (Suc d) (- int (Suc d))" by simp
  have "0 \<le> ?x" "0 \<le> ?x - (- int (Suc d))" using furthest_point [OF lower_diag(1) [of d], of a b] by simp_all
  then show ?thesis using setForward_label [OF assms(1,2) lower_diag(1) _ _ s] that [OF x] by blast
qed

lemma set_highest:
  assumes "fgraph e a b" "labels (eg_vf e) (furthest a b) S" "rows (Suc d) \<subseteq> S"
  obtains x t where "getForward e (int d) (int d) = Some x" "setForward e (int (Suc d)) (int (Suc d)) (x + 1) = Some (e\<lparr>eg_vf := t\<rparr>)"
    "labels t (furthest a b) (insert (Suc d, int (Suc d)) S)"
proof -
  let ?x = "furthest a b d (int d)"
  have x: "getForward e (int d) (int d) = Some ?x"
    using labels_row [OF assms(2,3)] lower_diag by (simp add: getForward_def)
  have s: "slide a b (int (Suc d)) (?x + 1) = furthest a b (Suc d) (int (Suc d))" by simp
  have "0 \<le> ?x + 1" "0 \<le> ?x + 1 - int (Suc d)" using furthest_point [OF lower_diag(2) [of d], of a b] by simp_all
  then show ?thesis using setForward_label [OF assms(1,2) lower_diag(2) _ _ s] that [OF x] by blast
qed

lemma int_Suc: "int (Suc d) = int d + 1"
  by simp

definition inner :: "nat \<Rightarrow> int \<Rightarrow> bool" where
  "inner d k \<longleftrightarrow> on_diag (Suc d) k \<and> k \<noteq> - int (Suc d) \<and> k \<noteq> int (Suc d)"

lemma set_diagonals: "set (diagonals lo hi) = {k. lo \<le> k \<and> k \<le> hi \<and> even (k - lo)}"
proof -
  have "k \<in> set (diagonals lo hi)" if k: "lo \<le> k" "k \<le> hi" "even (k - lo)" for k
  proof -
    obtain j where j: "k - lo = 2 * j" using k(3) by (metis evenE)
    then have "nat j < nat ((hi - lo) div 2 + 1)" "k = lo + 2 * int (nat j)" using k(1,2) by linarith+
    then show ?thesis unfolding diagonals_def set_map set_upt by (intro image_eqI [of _ _ "nat j"]) simp_all
  qed
  moreover have "lo \<le> k \<and> k \<le> hi \<and> even (k - lo)" if "k \<in> set (diagonals lo hi)" for k
  proof -
    have "\<exists>i. i < nat ((hi - lo) div 2 + 1) \<and> k = lo + 2 * int i"
      using \<open>k \<in> set (diagonals lo hi)\<close> unfolding diagonals_def set_map set_upt by (elim imageE) auto
    then obtain i where "i < nat ((hi - lo) div 2 + 1)" "k = lo + 2 * int i" by blast
    then show ?thesis by (intro conjI) (linarith, linarith, simp)
  qed
  ultimately show ?thesis by blast
qed

lemma inner_diagonals: "set (diagonals (- int d + 1) (int d - 1)) = {k. inner d k}"
  unfolding set_diagonals inner_def on_diag_def by auto presburger+

lemma all_diagonals: "set (diagonals (- int d) (int d)) = {k. on_diag d k}"
  unfolding set_diagonals on_diag_def by auto

lemma rows_Suc:
  assumes "labels t F S" "rows (Suc d) \<subseteq> S" "(Suc d, - int (Suc d)) \<in> S" "(Suc d, int (Suc d)) \<in> S" "\<forall>k. inner d k \<longrightarrow> (Suc d, k) \<in> S"
  shows "labels t F (rows (Suc (Suc d)))"
  unfolding labels_def
proof (intro conjI ballI, use assms(1) in \<open>simp add: labels_def\<close>, clarify)
  fix d' k assume *: "(d', k) \<in> rows (Suc (Suc d))" "on_diag d' k"
  have "(d', k) \<in> S"
  proof (cases "d' = Suc d")
    case True
    then show ?thesis using assms(3-5) *(2) by (cases "inner d k") (auto simp: inner_def)
  next
    case False
    then show ?thesis using assms(2) *(1) by auto
  qed
  then show "label_get t (int d') k = Some (F d' k)" using labels_get [OF assms(1)] *(2) by blast
qed

lemma forward_fill_labels:
  assumes "fgraph e a b" "labels (eg_vf e) (furthest a b) S" "rows (Suc d) \<subseteq> S" "\<forall>k \<in> set ks. inner d k"
  shows "\<exists>t. forward_fill e (int d) ks = Some (e\<lparr>eg_vf := t\<rparr>) \<and> labels t (furthest a b) (S \<union> Pair (Suc d) ` set ks)"
  using assms
proof (induction ks arbitrary: e S)
  case Nil
  then show ?case by (intro exI [of _ "eg_vf e"]) simp
next
  case (Cons k ks)
  have k: "on_diag (Suc d) k" "k \<noteq> - int (Suc d)" "k \<noteq> int (Suc d)" using Cons.prems(4) by (simp_all add: inner_def)
  obtain x where x: "next_forward e (int d) k = Some x" "0 \<le> x" "0 \<le> x - k" "slide a b k x = furthest a b (Suc d) k"
    using next_forward_label [OF Cons.prems(1-3) k] .
  obtain t where t: "setForward e (int (Suc d)) k x = Some (e\<lparr>eg_vf := t\<rparr>)" "labels t (furthest a b) (insert (Suc d, k) S)"
    using setForward_label [OF Cons.prems(1,2) k(1) x(2-4)] .
  obtain t' where t': "forward_fill (e\<lparr>eg_vf := t\<rparr>) (int d) ks = Some (e\<lparr>eg_vf := t'\<rparr>)"
    "labels t' (furthest a b) (insert (Suc d, k) S \<union> Pair (Suc d) ` set ks)"
    using Cons.IH [of "e\<lparr>eg_vf := t\<rparr>" "insert (Suc d, k) S"] Cons.prems t(2) by auto
  then show ?case using x(1) t(1) by (intro exI [of _ t']) (simp add: add.commute)
qed

lemma forward_pass_labels:
  assumes "fgraph e a b" "labels (eg_vf e) (furthest a b) (rows (Suc d))"
  obtains t where "forward_pass e (int d) = Some (e\<lparr>eg_vf := t\<rparr>)" "labels t (furthest a b) (rows (Suc (Suc d)))"
proof -
  obtain x t1 where 1: "getForward e (int d) (- int d) = Some x" "setForward e (int (Suc d)) (- int (Suc d)) x = Some (e\<lparr>eg_vf := t1\<rparr>)"
    "labels t1 (furthest a b) (insert (Suc d, - int (Suc d)) (rows (Suc d)))"
    using set_lowest [OF assms subset_refl] .
  let ?e1 = "e\<lparr>eg_vf := t1\<rparr>"
  have e1: "fgraph ?e1 a b" "labels (eg_vf ?e1) (furthest a b) (insert (Suc d, - int (Suc d)) (rows (Suc d)))" using assms(1) 1(3) by simp_all
  obtain y t2 where 2: "getForward ?e1 (int d) (int d) = Some y" "setForward ?e1 (int (Suc d)) (int (Suc d)) (y + 1) = Some (?e1\<lparr>eg_vf := t2\<rparr>)"
    "labels t2 (furthest a b) (insert (Suc d, int (Suc d)) (insert (Suc d, - int (Suc d)) (rows (Suc d))))"
    using set_highest [OF e1 subset_insertI] .
  let ?e2 = "e\<lparr>eg_vf := t2\<rparr>" and ?S = "insert (Suc d, int (Suc d)) (insert (Suc d, - int (Suc d)) (rows (Suc d)))"
  have "fgraph ?e2 a b" "labels (eg_vf ?e2) (furthest a b) ?S" "rows (Suc d) \<subseteq> ?S" using assms(1) 2(3) by auto
  moreover have "\<forall>k \<in> set (diagonals (- int d + 1) (int d - 1)). inner d k" unfolding inner_diagonals by simp
  ultimately obtain t where t: "forward_fill ?e2 (int d) (diagonals (- int d + 1) (int d - 1)) = Some (?e2\<lparr>eg_vf := t\<rparr>)"
    "labels t (furthest a b) (?S \<union> Pair (Suc d) ` {k. inner d k})"
    using forward_fill_labels [of ?e2 a b ?S d] unfolding inner_diagonals [symmetric] by blast
  have "labels t (furthest a b) (rows (Suc (Suc d)))" by (rule rows_Suc [OF t(2)]) auto
  moreover have "forward_pass e (int d) = Some (e\<lparr>eg_vf := t\<rparr>)"
    using 1(1,2) 2(1,2) t(1) by (simp add: forward_pass_def int_Suc [symmetric] del: of_nat_Suc)
  ultimately show ?thesis using that by blast
qed

text \<open>The diagonals recovered from a label.\<close>

lemma forward_loop_chain:
  assumes g: "fgraph e a b" and l: "labels (eg_vf e) (furthest a b) S" "rows d \<subseteq> S"
    and k: "on_diag d k" and x: "entry a b d k \<le> x" "x \<le> furthest a b d k"
    and c: "chain a b x (x - k) ans x1 y1"
  shows "\<exists>r. forward_loop e (int d) k x ans = Some r \<and> chain a b 0 0 r x1 y1 \<and> x + (x - k) - int d \<le> 2 * (kept r - kept ans)"
  using l(2) k x c
proof (induction "d + nat x" arbitrary: d k x ans rule: less_induct)
  case less
  note unfold = forward_loop.simps [of e "int d" k x ans]
  have nonneg: "0 \<le> entry a b d k" "k \<le> entry a b d k" using furthest_nonneg [OF less.prems(2), of a b] by simp_all
  have e0: "eg_lx e = 0" "eg_ly e = 0" using g by (simp_all add: fgraph_def)
  show ?case
  proof (cases "x = 0 \<and> x - k = 0")
    case True
    then have "x = 0" "k = 0" by simp_all
    then show ?thesis using less.prems(5) by (subst unfold) simp
  next
    case False
    let ?d = "d - 1"
    have tests: "labelled (eg_vf e) (int d - 1) (k - 1) (x - 1) = Some (0 < d \<and> on_diag ?d (k - 1) \<and> x - 1 = furthest a b ?d (k - 1))"
      "labelled (eg_vf e) (int d - 1) (k + 1) x = Some (0 < d \<and> on_diag ?d (k + 1) \<and> x = furthest a b ?d (k + 1))"
    proof (atomize (full), cases d)
      case 0
      then show "labelled (eg_vf e) (int d - 1) (k - 1) (x - 1) = Some (0 < d \<and> on_diag ?d (k - 1) \<and> x - 1 = furthest a b ?d (k - 1)) \<and>
        labelled (eg_vf e) (int d - 1) (k + 1) x = Some (0 < d \<and> on_diag ?d (k + 1) \<and> x = furthest a b ?d (k + 1))"
        using labelled_neg by simp
    next
      case (Suc d')
      have "even (int d' + (k - 1))" "even (int d' + (k + 1))" using less.prems(2) unfolding Suc on_diag_def by presburger+
      moreover have "(d', j) \<in> S" for j using less.prems(1) Suc by auto
      ultimately show "labelled (eg_vf e) (int d - 1) (k - 1) (x - 1) = Some (0 < d \<and> on_diag ?d (k - 1) \<and> x - 1 = furthest a b ?d (k - 1)) \<and>
        labelled (eg_vf e) (int d - 1) (k + 1) x = Some (0 < d \<and> on_diag ?d (k + 1) \<and> x = furthest a b ?d (k + 1))"
        using labelled_eq [OF l(1), of d'] Suc by simp
    qed
    show ?thesis
    proof (cases "0 < d \<and> on_diag ?d (k - 1) \<and> x - 1 = furthest a b ?d (k - 1)")
      case right: True
      have measure: "?d + nat (x - 1) < d + nat x" using right nat_mono [of "x - 1" x] by linarith
      have "rows ?d \<subseteq> S" using less.prems(1) by (auto simp: rows_def)
      moreover have "chain a b (x - 1) (x - 1 - (k - 1)) ans x1 y1" using chain_weaken [OF less.prems(5)] by simp
      moreover have "entry a b ?d (k - 1) \<le> x - 1" using right furthest_nonneg by metis
      ultimately obtain r where "forward_loop e (int ?d) (k - 1) (x - 1) ans = Some r" "chain a b 0 0 r x1 y1"
        "(x - 1) + (x - 1 - (k - 1)) - int ?d \<le> 2 * (kept r - kept ans)"
        using less.hyps [of ?d "x - 1" "k - 1" ans] right measure by auto
      then show ?thesis using right False tests(1) by (subst unfold) auto
    next
      case not_right: False
      show ?thesis
      proof (cases "0 < d \<and> on_diag ?d (k + 1) \<and> x = furthest a b ?d (k + 1)")
        case down: True
        have measure: "?d + nat x < d + nat x" using down by simp
        have "rows ?d \<subseteq> S" using less.prems(1) by (auto simp: rows_def)
        moreover have "chain a b x (x - (k + 1)) ans x1 y1" using chain_weaken [OF less.prems(5)] by simp
        moreover have "entry a b ?d (k + 1) \<le> x" using down furthest_nonneg by metis
        ultimately obtain r where "forward_loop e (int ?d) (k + 1) x ans = Some r" "chain a b 0 0 r x1 y1"
          "x + (x - (k + 1)) - int ?d \<le> 2 * (kept r - kept ans)"
          using less.hyps [of ?d x "k + 1" ans] down measure by auto
        then show ?thesis using down not_right False tests by (subst unfold) auto
      next
        case not_down: False
        have "x \<noteq> entry a b d k"
          using entry_cases [OF less.prems(2), of a b] False not_right not_down less.prems(2) by auto
        then have lt: "entry a b d k \<le> x - 1" using less.prems(3) by simp
        have pos: "0 < x" "0 < x - k" using lt nonneg by linarith+
        have "matches a b k (x - 1) x" using matches_mono [OF furthest_matches [OF less.prems(2)] lt less.prems(4)] .
        then have m: "matches a b (x - (x - k)) (x - 1) x" by simp
        note c = chain_prepend [OF less.prems(5) pos m]
        have "chain a b (x - 1) (x - 1 - k) (lcs_prepend ans (x - 1) (x - k - 1)) x1 y1" using c(1) by (simp add: algebra_simps)
        then obtain r where "forward_loop e (int d) k (x - 1) (lcs_prepend ans (x - 1) (x - k - 1)) = Some r" "chain a b 0 0 r x1 y1"
          "(x - 1) + (x - 1 - k) - int d \<le> 2 * (kept r - kept (lcs_prepend ans (x - 1) (x - k - 1)))"
          using less.hyps [of d "x - 1" k "lcs_prepend ans (x - 1) (x - k - 1)"] less.prems(1,2,4) lt pos by auto
        then show ?thesis using not_down not_right False tests e0 c(2) by (subst unfold) auto
      qed
    qed
  qed
qed

lemma forwardlcs_chain:
  assumes "fgraph e a b" "labels (eg_vf e) (furthest a b) S" "rows d \<subseteq> S" "(d, k) \<in> S" "on_diag d k"
  shows "\<exists>r. forwardlcs e (int d) k = Some r \<and> chain a b 0 0 r (furthest a b d k) (furthest a b d k - k)
    \<and> furthest a b d k + (furthest a b d k - k) - int d \<le> 2 * kept r"
proof -
  let ?x = "furthest a b d k"
  have "chain a b ?x (?x - k) [] ?x (?x - k)" by simp
  from forward_loop_chain [OF assms(1,2,3,5) conjunct2 [OF conjunct2 [OF furthest_nonneg [OF assms(5)]]] order_refl this]
  show ?thesis using labels_get [OF assms(2,4,5)] by (simp add: forwardlcs_def getForward_def)
qed

text \<open>A shortest connection has been found: the diagonals leave no more than \<open>l\<close> elements to edit.\<close>

definition good :: "'a list \<Rightarrow> 'a list \<Rightarrow> nat \<Rightarrow> lcs \<Rightarrow> bool" where
  "good a b l r \<longleftrightarrow> chain a b 0 0 r (int (length a)) (int (length b)) \<and> int (length a) + int (length b) - int l \<le> 2 * kept r"

definition shortest :: "'a list \<Rightarrow> 'a list \<Rightarrow> nat \<Rightarrow> bool" where
  "shortest a b l \<longleftrightarrow> connects a b l \<and> (\<forall>l'. connects a b l' \<longrightarrow> l \<le> l')"

lemma shortest_exists: "\<exists>l. shortest a b l"
proof -
  define P where "P = (\<lambda>l. connects a b l)"
  have "P (Least P)" by (rule LeastI [of P "length a + length b"]) (simp add: P_def connects_all)
  moreover have "\<forall>l'. P l' \<longrightarrow> Least P \<le> l'" by (simp add: Least_le)
  ultimately show ?thesis unfolding shortest_def P_def by blast
qed

lemma furthest_corner:
  assumes "shortest a b l"
  shows "on_diag l (int (length a) - int (length b)) \<and> furthest a b l (int (length a) - int (length b)) = int (length a)"
proof -
  let ?k = "int (length a) - int (length b)"
  have c: "connects a b l" using assms by (simp add: shortest_def)
  have k: "on_diag l ?k" by (rule reach_on_diag [OF c])
  have "furthest a b l ?k \<le> int (length a)"
  proof (rule ccontr)
    assume "\<not> furthest a b l ?k \<le> int (length a)"
    then obtain l' where "connects a b l'" "int l' < int l" using furthest_border [OF k, of a b] by force
    then show False using assms unfolding shortest_def by fastforce
  qed
  then show ?thesis using furthest_max [OF c] k by simp
qed

lemma furthest_not_corner:
  assumes "shortest a b l" "on_diag d k" "d \<le> l" "furthest a b d k = int (length a)" "furthest a b d k - k = int (length b)"
  shows "d = l \<and> k = int (length a) - int (length b)"
proof -
  obtain x y where "reach a b d x y" "int x = furthest a b d k" "int x - int y = k" using furthest_reach [OF assms(2)] by blast
  then have "connects a b d" using assms(4,5) by (metis add_diff_cancel_left' diff_diff_eq2 add.commute diff_add_cancel of_nat_eq_iff)
  then show ?thesis using assms by (auto simp: shortest_def)
qed

lemma fdone_cases:
  assumes g: "fgraph e a b" and l: "labels (eg_vf e) (furthest a b) S" "rows d \<subseteq> S" "(d, k) \<in> S"
    and k: "on_diag d k" and s: "shortest a b l" "d \<le> l"
  shows "\<exists>r. fdone e (int d) k = Some r \<and>
    (case r of None \<Rightarrow> \<not> (d = l \<and> k = int (length a) - int (length b)) | Some ans \<Rightarrow> good a b l ans)"
proof -
  have get: "label_get (eg_vf e) (int d) k = Some (furthest a b d k)" using labels_get [OF l(1,3) k] .
  have u: "eg_ux e = int (length a)" "eg_uy e = int (length b)" using g by (simp_all add: fgraph_def)
  obtain r where r: "forwardlcs e (int d) k = Some r" "chain a b 0 0 r (furthest a b d k) (furthest a b d k - k)"
    "furthest a b d k + (furthest a b d k - k) - int d \<le> 2 * kept r"
    using forwardlcs_chain [OF g l k] by blast
  show ?thesis
  proof (cases "furthest a b d k = int (length a) \<and> furthest a b d k - k = int (length b)")
    case True
    then have "fdone e (int d) k = Some (Some r)" using get u r(1) by (simp add: fdone_def Let_def)
    moreover have "chain a b 0 0 r (int (length a)) (int (length b))" using r(2) True by metis
    then have "good a b l r" using r(3) True s(2) by (simp add: good_def)
    ultimately show ?thesis by simp
  next
    case False
    then have "fdone e (int d) k = Some None" using get u by (simp add: fdone_def Let_def) auto
    moreover have "\<not> (d = l \<and> k = int (length a) - int (length b))" using furthest_corner [OF s(1)] False by auto
    ultimately show ?thesis by simp
  qed
qed

text \<open>What a part of the search has done when it ends with \<open>(r, e')\<close>: it has found the connection, or it
  has set the labels \<open>S\<close> and none of them is the corner.\<close>

definition searched :: "'a editGraph \<Rightarrow> 'a list \<Rightarrow> 'a list \<Rightarrow> nat \<Rightarrow> (nat \<times> int) set \<Rightarrow> (lcs option \<times> 'a editGraph) option \<Rightarrow> bool" where
  "searched e a b l S m \<longleftrightarrow> (\<exists>r t. m = Some (r, e\<lparr>eg_vf := t\<rparr>) \<and>
     (case r of Some ans \<Rightarrow> good a b l ans
      | None \<Rightarrow> labels t (furthest a b) S \<and> (l, int (length a) - int (length b)) \<notin> S))"

lemma searched_unless:
  assumes "searched e a b l S m" "\<And>t. labels t (furthest a b) S \<Longrightarrow> (l, int (length a) - int (length b)) \<notin> S \<Longrightarrow> searched (e\<lparr>eg_vf := t\<rparr>) a b l S' (f (e\<lparr>eg_vf := t\<rparr>))"
  shows "searched e a b l S' (unless_done m f)"
proof -
  obtain r t where m: "m = Some (r, e\<lparr>eg_vf := t\<rparr>)"
    "case r of Some ans \<Rightarrow> good a b l ans | None \<Rightarrow> labels t (furthest a b) S \<and> (l, int (length a) - int (length b)) \<notin> S"
    using assms(1) by (auto simp: searched_def)
  show ?thesis
  proof (cases r)
    case None
    then have "searched (e\<lparr>eg_vf := t\<rparr>) a b l S' (f (e\<lparr>eg_vf := t\<rparr>))" using m(2) assms(2) by simp
    then show ?thesis using None m(1) by (auto simp: searched_def unless_done_def)
  next
    case (Some ans)
    then show ?thesis using m by (auto simp: searched_def unless_done_def)
  qed
qed

lemma set_done_searched:
  assumes g: "fgraph e a b" and l: "labels (eg_vf e) (furthest a b) S" "rows d \<subseteq> S" "(l, int (length a) - int (length b)) \<notin> S"
    and set: "setForward e (int d) k x = Some (e\<lparr>eg_vf := t\<rparr>)" "labels t (furthest a b) (insert (d, k) S)"
    and k: "on_diag d k" and s: "shortest a b l" "d \<le> l"
  shows "searched e a b l (insert (d, k) S) (set_done e (int d) k x)"
proof -
  have "fgraph (e\<lparr>eg_vf := t\<rparr>) a b" "labels (eg_vf (e\<lparr>eg_vf := t\<rparr>)) (furthest a b) (insert (d, k) S)" "rows d \<subseteq> insert (d, k) S"
    using g set(2) l(2) by auto
  then obtain r where r: "fdone (e\<lparr>eg_vf := t\<rparr>) (int d) k = Some r"
    "case r of None \<Rightarrow> \<not> (d = l \<and> k = int (length a) - int (length b)) | Some ans \<Rightarrow> good a b l ans"
    using fdone_cases [of _ a b "insert (d, k) S" d k l] k s by blast
  then have "set_done e (int d) k x = Some (r, e\<lparr>eg_vf := t\<rparr>)" using set(1) by (simp add: set_done_def)
  then show ?thesis using r(2) l(3) set(2) by (auto simp: searched_def split: option.splits)
qed

lemma searched_none: "labels (eg_vf e) (furthest a b) S \<Longrightarrow> (l, int (length a) - int (length b)) \<notin> S \<Longrightarrow> searched e a b l S (Some (None, e))"
  by (auto simp: searched_def intro!: exI [of _ "eg_vf e"])

lemma forward_inner_searched:
  assumes "fgraph e a b" "labels (eg_vf e) (furthest a b) S" "rows (Suc d) \<subseteq> S" "(l, int (length a) - int (length b)) \<notin> S"
    "\<forall>k \<in> set ks. inner d k" "shortest a b l" "Suc d \<le> l"
  shows "searched e a b l (S \<union> Pair (Suc d) ` set ks) (forward_inner e (int d) ks)"
  using assms(1-5)
proof (induction ks arbitrary: e S)
  case Nil
  then show ?case using searched_none by simp
next
  case (Cons k ks)
  have k: "on_diag (Suc d) k" "k \<noteq> - int (Suc d)" "k \<noteq> int (Suc d)" using Cons.prems(5) by (simp_all add: inner_def)
  obtain x where x: "next_forward e (int d) k = Some x" "0 \<le> x" "0 \<le> x - k" "slide a b k x = furthest a b (Suc d) k"
    using next_forward_label [OF Cons.prems(1-3) k] .
  obtain t where t: "setForward e (int (Suc d)) k x = Some (e\<lparr>eg_vf := t\<rparr>)" "labels t (furthest a b) (insert (Suc d, k) S)"
    using setForward_label [OF Cons.prems(1,2) k(1) x(2-4)] .
  have step: "searched e a b l (insert (Suc d, k) S) (set_done e (int (Suc d)) k x)"
    using set_done_searched [OF Cons.prems(1-4) t k(1) assms(6,7)] .
  have "searched e a b l (insert (Suc d, k) S \<union> Pair (Suc d) ` set ks)
      (unless_done (set_done e (int (Suc d)) k x) (\<lambda>e'. forward_inner e' (int d) ks))"
  proof (rule searched_unless [OF step])
    fix t' assume t': "labels t' (furthest a b) (insert (Suc d, k) S)" "(l, int (length a) - int (length b)) \<notin> insert (Suc d, k) S"
    show "searched (e\<lparr>eg_vf := t'\<rparr>) a b l (insert (Suc d, k) S \<union> Pair (Suc d) ` set ks) (forward_inner (e\<lparr>eg_vf := t'\<rparr>) (int d) ks)"
      using Cons.prems(1,3,5) t' by (intro Cons.IH) auto
  qed
  then show ?case using x(1) by (simp add: add.commute)
qed

lemma forward_rounds_searched:
  assumes "fgraph e a b" "labels (eg_vf e) (furthest a b) (rows (Suc d))" "d < l" "l \<le> d + n" "shortest a b l"
  shows "searched e a b l {(l, int (length a) - int (length b))} (forward_rounds n (int d) e)"
  using assms(1-4)
proof (induction n arbitrary: d e)
  case (Suc n)
  let ?k = "int (length a) - int (length b)"
  let ?S0 = "rows (Suc d)" and ?S1 = "insert (Suc d, - int (Suc d)) (rows (Suc d))"
  let ?S2 = "insert (Suc d, int (Suc d)) (insert (Suc d, - int (Suc d)) (rows (Suc d)))"
  let ?S3 = "?S2 \<union> Pair (Suc d) ` {k. inner d k}"
  have s: "Suc d \<le> l" "(l, ?k) \<notin> ?S0" using Suc.prems(3) by simp_all
  obtain x t1 where 1: "getForward e (int d) (- int d) = Some x" "setForward e (int (Suc d)) (- int (Suc d)) x = Some (e\<lparr>eg_vf := t1\<rparr>)"
    "labels t1 (furthest a b) ?S1"
    using set_lowest [OF Suc.prems(1,2) subset_refl] .
  have step1: "searched e a b l ?S1 (set_done e (int (Suc d)) (- int (Suc d)) x)"
    using set_done_searched [OF Suc.prems(1,2) subset_refl s(2) 1(2,3) lower_diag(1) assms(5) s(1)] .
  let ?inner = "\<lambda>e2. unless_done (forward_inner e2 (int d) (diagonals (- int d + 1) (int d - 1))) (\<lambda>e3. forward_rounds n (int (Suc d)) e3)"
  let ?high = "\<lambda>e1. do { x \<leftarrow> getForward e1 (int d) (int d); unless_done (set_done e1 (int (Suc d)) (int (Suc d)) (x + 1)) ?inner }"
  have inner: "searched e2 a b l {(l, ?k)} (?inner e2)"
    if "fgraph e2 a b" "labels (eg_vf e2) (furthest a b) ?S2" "(l, ?k) \<notin> ?S2" for e2
  proof -
    have step3: "searched e2 a b l ?S3 (forward_inner e2 (int d) (diagonals (- int d + 1) (int d - 1)))"
      using forward_inner_searched [OF that(1,2) _ that(3) _ assms(5) s(1), of "diagonals (- int d + 1) (int d - 1)"]
      unfolding inner_diagonals by blast
    show ?thesis
    proof (rule searched_unless [OF step3])
      fix t assume t: "labels t (furthest a b) ?S3" "(l, ?k) \<notin> ?S3"
      have all: "labels t (furthest a b) (rows (Suc (Suc d)))" by (rule rows_Suc [OF t(1)]) auto
      have "Suc d \<noteq> l"
      proof
        assume "Suc d = l"
        then have "on_diag (Suc d) ?k" using furthest_corner [OF assms(5)] by simp
        then show False using t(2) \<open>Suc d = l\<close> by (auto simp: inner_def)
      qed
      then show "searched (e2\<lparr>eg_vf := t\<rparr>) a b l {(l, ?k)} (forward_rounds n (int (Suc d)) (e2\<lparr>eg_vf := t\<rparr>))"
        using Suc.IH [of "e2\<lparr>eg_vf := t\<rparr>" "Suc d"] that(1) all s(1) Suc.prems(4) by simp
    qed
  qed
  have high: "searched e1 a b l {(l, ?k)} (?high e1)"
    if "fgraph e1 a b" "labels (eg_vf e1) (furthest a b) ?S1" "(l, ?k) \<notin> ?S1" for e1
  proof -
    note prem = that
    obtain x t2 where 2: "getForward e1 (int d) (int d) = Some x" "setForward e1 (int (Suc d)) (int (Suc d)) (x + 1) = Some (e1\<lparr>eg_vf := t2\<rparr>)"
      "labels t2 (furthest a b) ?S2"
      using set_highest [OF prem(1,2) subset_insertI] .
    have "searched e1 a b l ?S2 (set_done e1 (int (Suc d)) (int (Suc d)) (x + 1))"
      using set_done_searched [OF that(1,2) subset_insertI that(3) 2(2,3) lower_diag(2) assms(5) s(1)] .
    then have "searched e1 a b l {(l, ?k)} (unless_done (set_done e1 (int (Suc d)) (int (Suc d)) (x + 1)) ?inner)"
      by (rule searched_unless) (use that(1) inner in simp)
    then show ?thesis using 2(1) by simp
  qed
  have "searched e a b l {(l, ?k)} (unless_done (set_done e (int (Suc d)) (- int (Suc d)) x) ?high)"
    using step1 by (rule searched_unless) (use Suc.prems(1) high in simp)
  then show ?case using 1(1) by (simp add: int_Suc [symmetric] del: of_nat_Suc)
qed simp

text \<open>A graph for which a connection within the limit exists: the forward search finds a shortest one.\<close>

lemma forward_finds:
  assumes "fgraph e a b" "shaped (eg_vf e)" "shortest a b l" "int l \<le> eg_limit e"
  shows "\<exists>ans t. forward e = Some (ans, e\<lparr>eg_vf := t\<rparr>) \<and> good a b l ans"
proof -
  let ?k = "int (length a) - int (length b)"
  have empty: "labels (eg_vf e) (furthest a b) {}" using assms(2) by (simp add: labels_def)
  obtain t where t: "setForward e 0 0 (eg_lx e) = Some (e\<lparr>eg_vf := t\<rparr>)" "labels t (furthest a b) {(0, 0)}"
    using set_first [OF assms(1) empty] by auto
  have "setForward e (int 0) 0 (eg_lx e) = Some (e\<lparr>eg_vf := t\<rparr>)" using t(1) by simp
  then have step: "searched e a b l {(0, 0)} (set_done e (int 0) 0 (eg_lx e))"
    using set_done_searched [OF assms(1) empty _ _ _ t(2) _ assms(3)] by (simp add: rows_def)
  have "searched e a b l {(l, ?k)} (unless_done (set_done e (int 0) 0 (eg_lx e)) (forward_rounds (nat (eg_limit e)) 0))"
  proof (rule searched_unless [OF step])
    fix t' assume t': "labels t' (furthest a b) {(0, 0)}" "(l, ?k) \<notin> {(0, 0)}"
    have "l \<noteq> 0"
    proof
      assume "l = 0"
      then show False using t'(2) furthest_corner [OF assms(3)] by simp
    qed
    moreover have "labels t' (furthest a b) (rows (Suc 0))" using t'(1) by (auto simp: labels_def rows_def)
    ultimately show "searched (e\<lparr>eg_vf := t'\<rparr>) a b l {(l, ?k)} (forward_rounds (nat (eg_limit e)) 0 (e\<lparr>eg_vf := t'\<rparr>))"
      using forward_rounds_searched [of "e\<lparr>eg_vf := t'\<rparr>" a b 0 l "nat (eg_limit e)"] assms(1,3,4) by simp
  qed
  then obtain ans t where "unless_done (set_done e 0 0 (eg_lx e)) (forward_rounds (nat (eg_limit e)) 0) = Some (Some ans, e\<lparr>eg_vf := t\<rparr>)"
    "good a b l ans"
    by (auto simp: searched_def split: option.splits)
  then show ?thesis by (simp add: forward_def) blast
qed

end
