(* ===== verification/Lcs_Back.thy ===== *)
theory Lcs_Back
  imports Lcs_Search
begin

text \<open>
  The backward half of \<open>tools/internal/diff/lcs/old.go\<close>: its labels are those of the reversed sequences,
  counted from the other end, and the diagonals recovered from one form a chain up to the upper corner.
\<close>

section \<open>Labels\<close>

definition backmost :: "'a list \<Rightarrow> 'a list \<Rightarrow> nat \<Rightarrow> int \<Rightarrow> int" where
  "backmost a b d k = int (length a) - furthest (rev a) (rev b) d (- k)"

lemma backmost_back_label: "backmost a b d (k - (int (length a) - int (length b))) = back_label a b d k"
  by (simp add: backmost_def back_label_def)

definition bgraph :: "'a editGraph \<Rightarrow> 'a list \<Rightarrow> 'a list \<Rightarrow> bool" where
  "bgraph e a b \<longleftrightarrow> eg_lx e = 0 \<and> eg_ly e = 0 \<and> eg_ux e = int (length a) \<and> eg_uy e = int (length b)
     \<and> eg_delta e = int (length a) - int (length b) \<and> eg_a e = a \<and> eg_b e = b"

lemma bgraph_update [simp]: "bgraph (e\<lparr>eg_vf := t\<rparr>) a b = bgraph e a b" "bgraph (e\<lparr>eg_vb := t\<rparr>) a b = bgraph e a b"
  by (simp_all add: bgraph_def)

lemma bgraph_fgraph: "bgraph e a b \<Longrightarrow> fgraph e a b"
  by (simp add: bgraph_def fgraph_def)

lemma lookBackward_slide:
  assumes "bgraph e a b" "x \<le> int (length a)" "x - (k + eg_delta e) \<le> int (length b)"
  shows "lookBackward e k x = Some (int (length a) - slide (rev a) (rev b) (- k) (int (length a) - x))"
proof -
  let ?y = "x - (k + eg_delta e)"
  have e: "eg_lx e = 0" "eg_ly e = 0" "eg_delta e = int (length a) - int (length b)" "eg_a e = a" "eg_b e = b"
    using assms(1) by (simp_all add: bgraph_def)
  have y: "int (length a) - x - - k = int (length b) - ?y" using e(3) by simp
  show ?thesis
  proof (cases "0 < x \<and> 0 < ?y")
    case True
    have cut: "rev (slice 0 (nat z) xs) = drop (nat (int (length xs) - z)) (rev xs)" if "0 < z" "z \<le> int (length xs)" for z and xs :: "'a list"
      using that by (simp add: slice_def rev_take nat_diff_distrib')
    have "lookBackward e k x = Some (x - int (common_prefix (drop (nat (int (length a) - x)) (rev a)) (drop (nat (int (length b) - ?y)) (rev b))))"
      using True assms(2,3) e cut [of x a] cut [of ?y b] by (simp add: lookBackward_def commonSuffixLen_def Let_def)
    moreover have "slide (rev a) (rev b) (- k) (int (length a) - x)
        = int (length a) - x + int (common_prefix (drop (nat (int (length a) - x)) (rev a)) (drop (nat (int (length b) - ?y)) (rev b)))"
      unfolding slide_def y using True by simp
    ultimately show ?thesis by simp
  next
    case False
    then have "slide (rev a) (rev b) (- k) (int (length a) - x) = int (length a) - x"
      unfolding slide_def y by auto
    moreover have "lookBackward e k x = Some x" using False e(1,2) by (simp add: lookBackward_def Let_def) auto
    ultimately show ?thesis by simp
  qed
qed

lemma setBackward_label:
  assumes "bgraph e a b" "labels (eg_vb e) (backmost a b) S" "on_diag d k"
    "x \<le> int (length a)" "x - (k + eg_delta e) \<le> int (length b)"
    "slide (rev a) (rev b) (- k) (int (length a) - x) = furthest (rev a) (rev b) d (- k)"
  obtains t where "setBackward e (int d) k x = Some (e\<lparr>eg_vb := t\<rparr>)" "labels t (backmost a b) (insert (d, k) S)"
proof -
  obtain t where t: "label_set (eg_vb e) (int d) k (backmost a b d k) = Some t" "labels t (backmost a b) (insert (d, k) S)"
    using labels_set [OF assms(2,3)] .
  have "eg_lx e = 0" using assms(1) by (simp add: bgraph_def)
  then show ?thesis using that t assms(6) lookBackward_slide [OF assms(1,4,5)] by (simp add: setBackward_def backmost_def)
qed

lemma backmost_point:
  assumes "on_diag d k"
  shows "backmost a b d k \<le> int (length a)" "backmost a b d k - (k + (int (length a) - int (length b))) \<le> int (length b)"
  using furthest_point [of d "- k" "rev a" "rev b"] assms by (simp_all add: backmost_def on_diag_neg)

lemma next_backward_label:
  assumes "bgraph e a b" "labels (eg_vb e) (backmost a b) S" "rows (Suc d) \<subseteq> S" "inner d k"
  obtains x where "next_backward e (int d) k = Some x" "x \<le> int (length a)" "x - (k + eg_delta e) \<le> int (length b)"
    "slide (rev a) (rev b) (- k) (int (length a) - x) = furthest (rev a) (rev b) (Suc d) (- k)"
proof -
  let ?N = "int (length a)"
  have delta: "eg_delta e = ?N - int (length b)" using assms(1) by (simp add: bgraph_def)
  have l: "on_diag d (k - 1)" "on_diag d (k + 1)" using on_diag_Suc [of d k] assms(4) by (simp_all add: inner_def)
  let ?v = "furthest (rev a) (rev b) d (- k + 1)" and ?h = "furthest (rev a) (rev b) d (- k - 1) + 1"
  have get: "getBackward e (int d) (k - 1) = Some (?N - ?v)" "getBackward e (int d) (k + 1) = Some (?N - furthest (rev a) (rev b) d (- k - 1))"
    using labels_row [OF assms(2,3)] l by (simp_all add: getBackward_def backmost_def)
  have pos: "0 \<le> ?h" "0 \<le> ?h - - k" "0 \<le> ?v" "0 \<le> ?v - - k"
  proof -
    have "on_diag d (- k + 1)" "on_diag d (- k - 1)" using l unfolding on_diag_def by presburger+
    then show "0 \<le> ?h" "0 \<le> ?h - - k" "0 \<le> ?v" "0 \<le> ?v - - k"
      using furthest_point [of d "- k + 1" "rev a" "rev b"] furthest_point [of d "- k - 1" "rev a" "rev b"] by simp_all
  qed
  let ?sv = "slide (rev a) (rev b) (- k) ?v" and ?sh = "slide (rev a) (rev b) (- k) ?h"
  have look: "lookBackward e k (?N - ?v) = Some (?N - ?sv)" "lookBackward e k (?N - furthest (rev a) (rev b) d (- k - 1) - 1) = Some (?N - ?sh)"
    using lookBackward_slide [OF assms(1), of "?N - ?v" k] lookBackward_slide [OF assms(1), of "?N - furthest (rev a) (rev b) d (- k - 1) - 1" k] pos delta
    by simp_all
  have "next_backward e (int d) k = Some (?N - max ?sh ?sv)"
    using get look by (simp add: next_backward_def max_def)
  moreover have "slide (rev a) (rev b) (- k) (max ?sh ?sv) = furthest (rev a) (rev b) (Suc d) (- k)"
    using slide_max [OF pos, of "rev a" "rev b"] assms(4) by (simp add: inner_def)
  moreover have "0 \<le> max ?sh ?sv" "0 \<le> max ?sh ?sv - - k"
    using pos slide_ge [of ?h "rev a" "rev b" "- k"] by linarith+
  ultimately show ?thesis using that [of "?N - max ?sh ?sv"] delta by simp
qed

lemma set_first_back:
  assumes "bgraph e a b" "labels (eg_vb e) (backmost a b) S"
  obtains t where "setBackward e 0 0 (eg_ux e) = Some (e\<lparr>eg_vb := t\<rparr>)" "labels t (backmost a b) (insert (0, 0) S)"
  using setBackward_label [OF assms, of 0 0 "eg_ux e"] assms(1) by (auto simp: bgraph_def)

lemma set_lowest_back:
  assumes "bgraph e a b" "labels (eg_vb e) (backmost a b) S" "rows (Suc d) \<subseteq> S"
  obtains x t where "getBackward e (int d) (- int d) = Some x" "setBackward e (int (Suc d)) (- int (Suc d)) (x - 1) = Some (e\<lparr>eg_vb := t\<rparr>)"
    "labels t (backmost a b) (insert (Suc d, - int (Suc d)) S)"
proof -
  let ?x = "backmost a b d (- int d)"
  have x: "getBackward e (int d) (- int d) = Some ?x"
    using labels_row [OF assms(2,3)] lower_diag by (simp add: getBackward_def)
  have s: "slide (rev a) (rev b) (- (- int (Suc d))) (int (length a) - (?x - 1)) = furthest (rev a) (rev b) (Suc d) (- (- int (Suc d)))"
    by (simp add: backmost_def add.commute)
  have "eg_delta e = int (length a) - int (length b)" using assms(1) by (simp add: bgraph_def)
  then have "?x - 1 \<le> int (length a)" "?x - 1 - (- int (Suc d) + eg_delta e) \<le> int (length b)"
    using backmost_point [OF lower_diag(1) [of d], of a b] by simp_all
  then show ?thesis using setBackward_label [OF assms(1,2) lower_diag(1) _ _ s] that [OF x] by blast
qed

lemma set_highest_back:
  assumes "bgraph e a b" "labels (eg_vb e) (backmost a b) S" "rows (Suc d) \<subseteq> S"
  obtains x t where "getBackward e (int d) (int d) = Some x" "setBackward e (int (Suc d)) (int (Suc d)) x = Some (e\<lparr>eg_vb := t\<rparr>)"
    "labels t (backmost a b) (insert (Suc d, int (Suc d)) S)"
proof -
  let ?x = "backmost a b d (int d)"
  have x: "getBackward e (int d) (int d) = Some ?x"
    using labels_row [OF assms(2,3)] lower_diag by (simp add: getBackward_def)
  have s: "slide (rev a) (rev b) (- int (Suc d)) (int (length a) - ?x) = furthest (rev a) (rev b) (Suc d) (- int (Suc d))"
    by (simp add: backmost_def)
  have "eg_delta e = int (length a) - int (length b)" using assms(1) by (simp add: bgraph_def)
  then have "?x \<le> int (length a)" "?x - (int (Suc d) + eg_delta e) \<le> int (length b)"
    using backmost_point [OF lower_diag(2) [of d], of a b] by simp_all
  then show ?thesis using setBackward_label [OF assms(1,2) lower_diag(2) _ _ s] that [OF x] by blast
qed

lemma backward_fill_labels:
  assumes "bgraph e a b" "labels (eg_vb e) (backmost a b) S" "rows (Suc d) \<subseteq> S" "\<forall>k \<in> set ks. inner d k"
  shows "\<exists>t. backward_fill e (int d) ks = Some (e\<lparr>eg_vb := t\<rparr>) \<and> labels t (backmost a b) (S \<union> Pair (Suc d) ` set ks)"
  using assms
proof (induction ks arbitrary: e S)
  case Nil
  then show ?case by (intro exI [of _ "eg_vb e"]) simp
next
  case (Cons k ks)
  have k: "inner d k" "on_diag (Suc d) k" using Cons.prems(4) by (simp_all add: inner_def)
  obtain x where x: "next_backward e (int d) k = Some x" "x \<le> int (length a)" "x - (k + eg_delta e) \<le> int (length b)"
    "slide (rev a) (rev b) (- k) (int (length a) - x) = furthest (rev a) (rev b) (Suc d) (- k)"
    using next_backward_label [OF Cons.prems(1-3) k(1)] .
  obtain t where t: "setBackward e (int (Suc d)) k x = Some (e\<lparr>eg_vb := t\<rparr>)" "labels t (backmost a b) (insert (Suc d, k) S)"
    using setBackward_label [OF Cons.prems(1,2) k(2) x(2-4)] .
  obtain t' where t': "backward_fill (e\<lparr>eg_vb := t\<rparr>) (int d) ks = Some (e\<lparr>eg_vb := t'\<rparr>)"
    "labels t' (backmost a b) (insert (Suc d, k) S \<union> Pair (Suc d) ` set ks)"
    using Cons.IH [of "e\<lparr>eg_vb := t\<rparr>" "insert (Suc d, k) S"] Cons.prems t(2) by auto
  then show ?case using x(1) t(1) by (intro exI [of _ t']) (simp add: add.commute)
qed

lemma backward_pass_labels:
  assumes "bgraph e a b" "labels (eg_vb e) (backmost a b) (rows (Suc d))"
  obtains t where "backward_pass e (int d) = Some (e\<lparr>eg_vb := t\<rparr>)" "labels t (backmost a b) (rows (Suc (Suc d)))"
proof -
  obtain x t1 where 1: "getBackward e (int d) (- int d) = Some x" "setBackward e (int (Suc d)) (- int (Suc d)) (x - 1) = Some (e\<lparr>eg_vb := t1\<rparr>)"
    "labels t1 (backmost a b) (insert (Suc d, - int (Suc d)) (rows (Suc d)))"
    using set_lowest_back [OF assms subset_refl] .
  let ?e1 = "e\<lparr>eg_vb := t1\<rparr>"
  have e1: "bgraph ?e1 a b" "labels (eg_vb ?e1) (backmost a b) (insert (Suc d, - int (Suc d)) (rows (Suc d)))" using assms(1) 1(3) by simp_all
  obtain y t2 where 2: "getBackward ?e1 (int d) (int d) = Some y" "setBackward ?e1 (int (Suc d)) (int (Suc d)) y = Some (?e1\<lparr>eg_vb := t2\<rparr>)"
    "labels t2 (backmost a b) (insert (Suc d, int (Suc d)) (insert (Suc d, - int (Suc d)) (rows (Suc d))))"
    using set_highest_back [OF e1 subset_insertI] .
  let ?e2 = "e\<lparr>eg_vb := t2\<rparr>" and ?S = "insert (Suc d, int (Suc d)) (insert (Suc d, - int (Suc d)) (rows (Suc d)))"
  have "bgraph ?e2 a b" "labels (eg_vb ?e2) (backmost a b) ?S" "rows (Suc d) \<subseteq> ?S" using assms(1) 2(3) by auto
  moreover have "\<forall>k \<in> set (diagonals (- int d + 1) (int d - 1)). inner d k" unfolding inner_diagonals by simp
  ultimately obtain t where t: "backward_fill ?e2 (int d) (diagonals (- int d + 1) (int d - 1)) = Some (?e2\<lparr>eg_vb := t\<rparr>)"
    "labels t (backmost a b) (?S \<union> Pair (Suc d) ` {k. inner d k})"
    using backward_fill_labels [of ?e2 a b ?S d] unfolding inner_diagonals [symmetric] by blast
  have "labels t (backmost a b) (rows (Suc (Suc d)))" by (rule rows_Suc [OF t(2)]) auto
  moreover have "backward_pass e (int d) = Some (e\<lparr>eg_vb := t\<rparr>)"
    using 1(1,2) 2(1,2) t(1) by (simp add: backward_pass_def int_Suc [symmetric] del: of_nat_Suc)
  ultimately show ?thesis using that by blast
qed

section \<open>Diagonals\<close>

text \<open>One step of equal elements, seen from the other end.\<close>

lemma matches_rev:
  assumes "matches (rev a) (rev b) (- k) z (z + 1)" "0 \<le> z" "0 \<le> z + k"
  shows "matches a b (k + (int (length a) - int (length b))) (int (length a) - z - 1) (int (length a) - z)"
    "z < int (length a)" "z + k < int (length b)"
proof -
  have z: "z < int (length a)" "z + k < int (length b)" "rev a ! nat z = rev b ! nat (z + k)"
    using assms(1) by (simp_all add: matches_one)
  show "z < int (length a)" "z + k < int (length b)" by (fact z(1), fact z(2))
  have "rev xs ! nat w = xs ! nat (int (length xs) - w - 1)" if "0 \<le> w" "w < int (length xs)" for w and xs :: "'a list"
  proof -
    obtain m where m: "w = int m" using \<open>0 \<le> w\<close> nonneg_int_cases by blast
    then have "int (length xs) - w - 1 = int (length xs - Suc m)" "m < length xs" using that by simp_all
    then show ?thesis unfolding m by (metis nat_int rev_nth)
  qed
  then have "rev a ! nat z = a ! nat (int (length a) - z - 1)" "rev b ! nat (z + k) = b ! nat (int (length b) - (z + k) - 1)"
    using z(1,2) assms(2,3) by simp_all
  then have eq: "a ! nat (int (length a) - z - 1) = b ! nat (int (length b) - (z + k) - 1)" using z(3) by simp
  have idx: "int (length a) - z - 1 - (k + (int (length a) - int (length b))) = int (length b) - (z + k) - 1" by simp
  have "matches a b (k + (int (length a) - int (length b))) (int (length a) - z - 1) (int (length a) - z - 1 + 1)"
    unfolding matches_one idx using eq assms(2,3) by simp
  then show "matches a b (k + (int (length a) - int (length b))) (int (length a) - z - 1) (int (length a) - z)" by simp
qed

lemma backward_loop_chain:
  assumes g: "bgraph e a b" and l: "labels (eg_vb e) (backmost a b) S" "rows d \<subseteq> S"
    and k: "on_diag d k" and x: "backmost a b d k \<le> x" "x \<le> int (length a) - entry (rev a) (rev b) d (- k)"
    and c: "chain a b x0 y0 ans x (x - (k + eg_delta e))"
  shows "\<exists>r. backward_loop e (int d) k x ans = Some r \<and> chain a b x0 y0 r (int (length a)) (int (length b))
    \<and> (int (length a) - x) + (int (length b) - (x - (k + eg_delta e))) - int d \<le> 2 * (kept r - kept ans)"
  using l(2) k x c
proof (induction "d + nat (int (length a) - x)" arbitrary: d k x ans rule: less_induct)
  case less
  let ?N = "int (length a)" and ?M = "int (length b)" and ?y = "x - (k + eg_delta e)"
  note unfold = backward_loop.simps [of e "int d" k x ans]
  have e: "eg_lx e = 0" "eg_ly e = 0" "eg_delta e = ?N - ?M" "eg_ux e = ?N" "eg_uy e = ?M" using g by (simp_all add: bgraph_def)
  have rk: "on_diag d (- k)" using less.prems(2) by (simp add: on_diag_neg)
  have nonneg: "0 \<le> entry (rev a) (rev b) d (- k)" "- k \<le> entry (rev a) (rev b) d (- k)" using furthest_nonneg [OF rk, of "rev a" "rev b"] by simp_all
  show ?case
  proof (cases "x = ?N \<and> ?y = ?M")
    case True
    then have "x = ?N" "k = 0" using e(3) by simp_all
    then show ?thesis using less.prems(5) e by (subst unfold) simp
  next
    case False
    let ?d = "d - 1"
    have tests: "labelled (eg_vb e) (int d - 1) (k - 1) x = Some (0 < d \<and> on_diag ?d (k - 1) \<and> x = backmost a b ?d (k - 1)) \<and>
      labelled (eg_vb e) (int d - 1) (k + 1) (x + 1) = Some (0 < d \<and> on_diag ?d (k + 1) \<and> x + 1 = backmost a b ?d (k + 1))"
    proof (cases d)
      case 0
      then show ?thesis using labelled_neg by simp
    next
      case (Suc d')
      have "even (int d' + (k - 1))" "even (int d' + (k + 1))" using less.prems(2) unfolding Suc on_diag_def by presburger+
      moreover have "(d', j) \<in> S" for j using less.prems(1) Suc by auto
      ultimately show ?thesis using labelled_eq [OF l(1), of d'] Suc by simp
    qed
    show ?thesis
    proof (cases "0 < d \<and> on_diag ?d (k - 1) \<and> x = backmost a b ?d (k - 1)")
      case left: True
      have "rows ?d \<subseteq> S" using less.prems(1) by (auto simp: rows_def)
      moreover have "chain a b x0 y0 ans x (x - (k - 1 + eg_delta e))" using chain_weaken [OF less.prems(5)] by simp
      moreover have "x \<le> ?N - entry (rev a) (rev b) ?d (- (k - 1))"
        using left furthest_nonneg [of ?d "- (k - 1)" "rev a" "rev b"] on_diag_neg [of ?d "k - 1"] by (simp add: backmost_def)
      moreover have "?d + nat (?N - x) < d + nat (?N - x)" using left by simp
      ultimately obtain r where "backward_loop e (int ?d) (k - 1) x ans = Some r" "chain a b x0 y0 r ?N ?M"
        "(?N - x) + (?M - (x - (k - 1 + eg_delta e))) - int ?d \<le> 2 * (kept r - kept ans)"
        using less.hyps [of ?d x "k - 1" ans] left by auto
      then show ?thesis using left False tests e(4,5) by (subst unfold) auto
    next
      case not_left: False
      show ?thesis
      proof (cases "0 < d \<and> on_diag ?d (k + 1) \<and> x + 1 = backmost a b ?d (k + 1)")
        case up: True
        have "rows ?d \<subseteq> S" using less.prems(1) by (auto simp: rows_def)
        moreover have "chain a b x0 y0 ans (x + 1) (x + 1 - (k + 1 + eg_delta e))" using chain_weaken [OF less.prems(5)] by simp
        moreover have ent: "x + 1 \<le> ?N - entry (rev a) (rev b) ?d (- (k + 1))" "0 \<le> entry (rev a) (rev b) ?d (- (k + 1))"
          using up furthest_nonneg [of ?d "- (k + 1)" "rev a" "rev b"] on_diag_neg [of ?d "k + 1"] by (simp_all add: backmost_def)
        moreover have "?d + nat (?N - (x + 1)) < d + nat (?N - x)" using up ent by linarith
        ultimately obtain r where "backward_loop e (int ?d) (k + 1) (x + 1) ans = Some r" "chain a b x0 y0 r ?N ?M"
          "(?N - (x + 1)) + (?M - (x + 1 - (k + 1 + eg_delta e))) - int ?d \<le> 2 * (kept r - kept ans)"
          using less.hyps [of ?d "x + 1" "k + 1" ans] up by auto
        then show ?thesis using up not_left False tests e(4,5) by (subst unfold) auto
      next
        case not_up: False
        have "x \<noteq> ?N - entry (rev a) (rev b) d (- k)"
          using entry_cases [OF rk, of "rev a" "rev b"] False not_left not_up less.prems(2) on_diag_neg [of ?d "k - 1"] on_diag_neg [of ?d "k + 1"] e(3)
          by (auto simp: backmost_def)
        then have lt: "entry (rev a) (rev b) d (- k) \<le> ?N - x - 1" using less.prems(4) by simp
        have "matches (rev a) (rev b) (- k) (?N - x - 1) (?N - x - 1 + 1)"
          using matches_mono [OF furthest_matches [OF rk, of "rev a" "rev b"] lt] less.prems(3) by (simp add: backmost_def)
        then have m: "matches a b (k + (?N - ?M)) x (x + 1)" "?N - x - 1 < ?N" "?N - x - 1 + k < ?M"
          using matches_rev [of a b k "?N - x - 1"] lt nonneg by simp_all
        have pos: "0 \<le> x" "0 \<le> ?y" using m(2,3) e(3) by linarith+
        have "matches a b (x - ?y) x (x + 1)" using m(1) e(3) by simp
        note c = chain_append_one [OF less.prems(5) pos this]
        have "chain a b x0 y0 (lcs_append ans x ?y) (x + 1) (x + 1 - (k + eg_delta e))" using c(1) by (simp add: algebra_simps)
        moreover have "backmost a b d k \<le> x + 1" "x + 1 \<le> ?N - entry (rev a) (rev b) d (- k)" using less.prems(3) lt by linarith+
        moreover have "d + nat (?N - (x + 1)) < d + nat (?N - x)" using lt nonneg by linarith
        ultimately obtain r where "backward_loop e (int d) k (x + 1) (lcs_append ans x ?y) = Some r" "chain a b x0 y0 r ?N ?M"
          "(?N - (x + 1)) + (?M - (x + 1 - (k + eg_delta e))) - int d \<le> 2 * (kept r - kept (lcs_append ans x ?y))"
          using less.hyps [of d "x + 1" k "lcs_append ans x ?y"] less.prems(1,2) by auto
        then show ?thesis using not_up not_left False tests e c(2) by (subst unfold) auto
      qed
    qed
  qed
qed

lemma backwardlcs_chain:
  assumes "bgraph e a b" "labels (eg_vb e) (backmost a b) S" "rows d \<subseteq> S" "(d, k) \<in> S" "on_diag d k"
  shows "\<exists>r. backwardlcs e (int d) k = Some r \<and>
    chain a b (backmost a b d k) (backmost a b d k - (k + eg_delta e)) r (int (length a)) (int (length b))
    \<and> (int (length a) - backmost a b d k) + (int (length b) - (backmost a b d k - (k + eg_delta e))) - int d \<le> 2 * kept r"
proof -
  let ?x = "backmost a b d k"
  have "chain a b ?x (?x - (k + eg_delta e)) [] ?x (?x - (k + eg_delta e))" by simp
  moreover have "?x \<le> int (length a) - entry (rev a) (rev b) d (- k)"
    using furthest_nonneg [of d "- k" "rev a" "rev b"] assms(5) by (simp add: backmost_def on_diag_neg)
  ultimately show ?thesis
    using backward_loop_chain [OF assms(1,2,3,5) order_refl] labels_get [OF assms(2,4,5)] by (fastforce simp: backwardlcs_def getBackward_def)
qed

end
