(* ===== verification/Lcs_Two.thy ===== *)
theory Lcs_Two
  imports Lcs_Back
begin

text \<open>
  The two-sided search of \<open>tools/internal/diff/lcs/old.go\<close> and the differences made from it.  While no
  labels overlap the sequences are further apart than the edits used so far (the lemma of Myers); at the
  first overlap \<open>twolcs\<close> puts together a path with exactly as many edits; at the limit a forward and a
  backward part are repaired into one chain.  Nothing panics, and every loop ends.
\<close>

section \<open>Overlaps\<close>

definition two_ok :: "'a editGraph \<Rightarrow> 'a list \<Rightarrow> 'a list \<Rightarrow> nat \<Rightarrow> nat \<Rightarrow> bool" where
  "two_ok e a b df db \<longleftrightarrow> bgraph e a b \<and> labels (eg_vf e) (furthest a b) (rows (Suc df)) \<and> labels (eg_vb e) (backmost a b) (rows (Suc db))"

definition both :: "'a list \<Rightarrow> 'a list \<Rightarrow> nat \<Rightarrow> nat \<Rightarrow> int \<Rightarrow> bool" where
  "both a b df db k \<longleftrightarrow> on_diag df k \<and> on_diag db (k - (int (length a) - int (length b)))"

definition special :: "'a list \<Rightarrow> 'a list \<Rightarrow> nat \<Rightarrow> nat \<Rightarrow> int \<Rightarrow> bool" where
  "special a b df db k \<longleftrightarrow> (let x = furthest a b df k; u = back_label a b db k in
     x = u \<or> u = 0 \<or> u - k = 0 \<or> x - k = int (length b) \<or> x = int (length a))"

definition far :: "'a list \<Rightarrow> 'a list \<Rightarrow> nat \<Rightarrow> bool" where
  "far a b d \<longleftrightarrow> (\<forall>l. connects a b l \<longrightarrow> d \<le> l)"

lemma two_get:
  assumes "two_ok e a b df db" "both a b df db k"
  shows "label_get (eg_vf e) (int df) k = Some (furthest a b df k)"
    "label_get (eg_vb e) (int db) (k - eg_delta e) = Some (back_label a b db k)"
proof -
  have "eg_delta e = int (length a) - int (length b)" using assms(1) by (simp add: two_ok_def bgraph_def)
  then show "label_get (eg_vf e) (int df) k = Some (furthest a b df k)"
    "label_get (eg_vb e) (int db) (k - eg_delta e) = Some (back_label a b db k)"
    using assms labels_row [OF _ subset_refl lessI, of _ _ df k] labels_row [OF _ subset_refl lessI, of _ _ db "k - eg_delta e"]
    by (simp_all add: two_ok_def both_def backmost_back_label [symmetric])
qed

lemma two_graph:
  assumes "two_ok e a b df db"
  shows "eg_delta e = int (length a) - int (length b)" "eg_ux e = int (length a)" "eg_uy e = int (length b)"
  using assms by (simp_all add: two_ok_def bgraph_def)

lemma find_special_cases:
  assumes "two_ok e a b df db" "\<forall>l \<in> set ls. both a b df db l"
  shows "\<exists>g. find_special e (int df) (int db) ls = Some g \<and>
    (case g of None \<Rightarrow> \<forall>l \<in> set ls. \<not> special a b df db l | Some l \<Rightarrow> l \<in> set ls \<and> special a b df db l)"
  using assms(2)
proof (induction ls)
  case (Cons l ls)
  obtain g where g: "find_special e (int df) (int db) ls = Some g"
    "case g of None \<Rightarrow> \<forall>l \<in> set ls. \<not> special a b df db l | Some l \<Rightarrow> l \<in> set ls \<and> special a b df db l"
    using Cons by auto
  have get: "label_get (eg_vf e) (int df) l = Some (furthest a b df l)"
    "label_get (eg_vb e) (int db) (l - eg_delta e) = Some (back_label a b db l)"
    using two_get [OF assms(1)] Cons.prems by simp_all
  have "find_special e (int df) (int db) (l # ls) = (if special a b df db l then Some (Some l) else Some g)"
    using get g(1) two_graph [OF assms(1)] by (simp add: special_def Let_def)
  then show ?case using g(2) by (cases "special a b df db l") (auto split: option.splits)
qed simp

lemma find_overlap_cases:
  assumes "two_ok e a b df db" "\<forall>k \<in> set ks. both a b df db k"
  shows "\<exists>g. find_overlap e (int df) (int db) ks = Some g \<and>
    (case g of None \<Rightarrow> \<forall>k \<in> set ks. furthest a b df k < back_label a b db k
     | Some l \<Rightarrow> both a b df db l \<and> (special a b df db l \<or> back_label a b db l \<le> furthest a b df l))"
  using assms(2)
proof (induction ks)
  case (Cons k ks)
  have get: "label_get (eg_vf e) (int df) k = Some (furthest a b df k)"
    "label_get (eg_vb e) (int db) (k - eg_delta e) = Some (back_label a b db k)"
    using two_get [OF assms(1)] Cons.prems by simp_all
  show ?case
  proof (cases "back_label a b db k \<le> furthest a b df k")
    case True
    obtain g where g: "find_special e (int df) (int db) (k # ks) = Some g"
      "case g of None \<Rightarrow> \<forall>l \<in> set (k # ks). \<not> special a b df db l | Some l \<Rightarrow> l \<in> set (k # ks) \<and> special a b df db l"
      using find_special_cases [OF assms(1) Cons.prems] by blast
    have "find_overlap e (int df) (int db) (k # ks) = Some (Some (case g of Some l' \<Rightarrow> l' | None \<Rightarrow> k))"
      using get g(1) True by simp
    then show ?thesis using g(2) True Cons.prems by (auto split: option.splits)
  next
    case False
    obtain g where g: "find_overlap e (int df) (int db) ks = Some g"
      "case g of None \<Rightarrow> \<forall>k \<in> set ks. furthest a b df k < back_label a b db k
       | Some l \<Rightarrow> both a b df db l \<and> (special a b df db l \<or> back_label a b db l \<le> furthest a b df l)"
      using Cons by auto
    have "find_overlap e (int df) (int db) (k # ks) = Some g" using get g(1) False by simp
    then show ?thesis using g(2) False by (auto split: option.splits)
  qed
qed simp

lemma step_parity:
  fixes p q d k :: int
  assumes "even (p + q + d)"
  shows "even (k - max (- p) (- q + d)) \<longleftrightarrow> even (p + k)" "even (p + k) \<longleftrightarrow> even (q + (k - d))"
proof -
  have "even (k - (- q + d)) \<longleftrightarrow> even (p + k)" "even (k - (- p)) \<longleftrightarrow> even (p + k)" using assms by presburger+
  then show "even (k - max (- p) (- q + d)) \<longleftrightarrow> even (p + k)" unfolding max_def by metis
  show "even (p + k) \<longleftrightarrow> even (q + (k - d))" using assms by presburger
qed

lemma both_diagonals:
  assumes "even (int df + int db + (int (length a) - int (length b)))"
  shows "set (diagonals (max (- int df) (- int db + (int (length a) - int (length b)))) (min (int df) (int db + (int (length a) - int (length b)))))
    = {k. both a b df db k}"
proof (rule set_eqI)
  fix k
  let ?d = "int (length a) - int (length b)"
  have "max (- int df) (- int db + ?d) \<le> k \<longleftrightarrow> - int df \<le> k \<and> - int db \<le> k - ?d"
    "k \<le> min (int df) (int db + ?d) \<longleftrightarrow> k \<le> int df \<and> k - ?d \<le> int db" by linarith+
  then show "k \<in> set (diagonals (max (- int df) (- int db + ?d)) (min (int df) (int db + ?d))) \<longleftrightarrow> k \<in> {k. both a b df db k}"
    unfolding set_diagonals both_def on_diag_def mem_Collect_eq step_parity [OF assms] using step_parity(2) [OF assms] by blast
qed

lemma twoDone_cases:
  assumes ok: "two_ok e a b df db" and far: "far a b (df + db)"
  shows "\<exists>g. twoDone e (int df) (int db) = Some g \<and>
    (case g of None \<Rightarrow> far a b (Suc (df + db))
     | Some k \<Rightarrow> both a b df db k \<and> (special a b df db k \<or> back_label a b db k \<le> furthest a b df k))"
proof (cases "even (int df + int db + (int (length a) - int (length b)))")
  case False
  have "far a b (Suc (df + db))"
    unfolding far_def
  proof (intro allI impI)
    fix l assume l: "connects a b l"
    then have "l \<noteq> df + db" using connects_parity [OF l] False by auto
    then show "Suc (df + db) \<le> l" using far l by (auto simp: far_def)
  qed
  then show ?thesis using False two_graph(1) [OF ok] by (simp add: twoDone_def)
next
  case True
  let ?ks = "diagonals (max (- int df) (- int db + (int (length a) - int (length b)))) (min (int df) (int db + (int (length a) - int (length b))))"
  note ks = both_diagonals [OF True]
  obtain g where g: "find_overlap e (int df) (int db) ?ks = Some g"
    "case g of None \<Rightarrow> \<forall>k \<in> set ?ks. furthest a b df k < back_label a b db k
     | Some l \<Rightarrow> both a b df db l \<and> (special a b df db l \<or> back_label a b db l \<le> furthest a b df l)"
    using find_overlap_cases [OF ok, of ?ks] unfolding ks by auto
  have "twoDone e (int df) (int db) = Some g" using g(1) True two_graph(1) [OF ok] by (simp add: twoDone_def)
  moreover have "far a b (Suc (df + db))" if "g = None"
    unfolding far_def
  proof (intro allI impI)
    fix l assume l: "connects a b l"
    have "l \<noteq> df + db"
    proof
      assume "l = df + db"
      then obtain k where "on_diag df k" "on_diag db (int (length a) - int (length b) - k)" "back_label a b db k \<le> furthest a b df k"
        using labels_overlap [of a b df db] l by auto
      moreover from this(2) have "on_diag db (k - (int (length a) - int (length b)))" using on_diag_neg [of db "k - (int (length a) - int (length b))"] by simp
      ultimately have "k \<in> set ?ks" "back_label a b db k \<le> furthest a b df k" unfolding ks by (simp_all add: both_def)
      then show False using g(2) \<open>g = None\<close> by fastforce
    qed
    then show "Suc (df + db) \<le> l" using far l by (auto simp: far_def)
  qed
  ultimately show ?thesis using g(2) by (auto split: option.splits)
qed

section \<open>Putting two parts together\<close>

lemma sort_parts:
  assumes "chain a b 0 0 (f @ r) x y"
  shows "lcs_sort (f @ r) = f @ r" "lcs_sort (r @ f) = f @ r"
  using lcs_sort_chain [OF assms, of "f @ r"] lcs_sort_chain [OF assms, of "r @ f"] by (simp_all add: union_commute)

lemma combine:
  assumes f: "chain a b 0 0 f x y" "x + y - int d1 \<le> 2 * kept f"
    and r: "chain a b u v r (int (length a)) (int (length b))" "(int (length a) - u) + (int (length b) - v) - int d2 \<le> 2 * kept r"
    and le: "x \<le> u" "y \<le> v" "int d1 + int d2 + (u - x) + (v - y) \<le> int l"
  shows "good a b l (lcs_sort (f @ r))" "good a b l (lcs_sort (r @ f))"
proof -
  have c: "chain a b 0 0 (f @ r) (int (length a)) (int (length b))"
    using chain_append [OF f(1) chain_weaken [OF r(1) le(1,2) order_refl order_refl]] .
  have "good a b l (f @ r)" using c f(2) r(2) le(3) by (simp add: good_def)
  then show "good a b l (lcs_sort (f @ r))" "good a b l (lcs_sort (r @ f))" unfolding sort_parts [OF c] by simp_all
qed

lemma good_mono: "good a b l r \<Longrightarrow> l \<le> l' \<Longrightarrow> good a b l' r"
  by (auto simp: good_def)

lemma matches_take: "matches (take u a) (take v b) k x x' \<Longrightarrow> k \<le> x \<Longrightarrow> 0 \<le> x \<Longrightarrow> matches a b k x x'"
  unfolding matches_def by (fastforce simp: nat_less_iff)

lemma chain_take: "chain (take u a) (take v b) x y l x1 y1 \<Longrightarrow> chain a b x y l x1 y1"
  by (induction l arbitrary: x y) (auto simp: diag_ok_def intro: matches_take)

lemma labelled_row:
  assumes "labels t F (rows (Suc n))" "d \<le> n" "even (int d + k)" "k' = k - 1 \<or> k' = k + 1"
  shows "labelled t (int d - 1) k' v = Some (0 < d \<and> on_diag (d - 1) k' \<and> v = F (d - 1) k')"
proof (cases d)
  case 0
  then show ?thesis using labelled_neg by simp
next
  case (Suc d')
  have "even (int d' + k')" using assms(3,4) unfolding Suc by auto
  then show ?thesis using labelled_eq [OF assms(1), of d' k' v] assms(2) Suc by simp
qed

lemma rows_mono: "d \<le> n \<Longrightarrow> rows d \<subseteq> rows n"
  by (auto simp: rows_def)

lemma forward_part:
  assumes "two_ok e a b df db" "d \<le> df" "on_diag d k"
  obtains f where "forwardlcs e (int d) k = Some f" "chain a b 0 0 f (furthest a b d k) (furthest a b d k - k)"
    "furthest a b d k + (furthest a b d k - k) - int d \<le> 2 * kept f"
proof -
  have "fgraph e a b" "labels (eg_vf e) (furthest a b) (rows (Suc df))" using assms(1) bgraph_fgraph by (auto simp: two_ok_def)
  then show ?thesis using forwardlcs_chain [of e a b "rows (Suc df)" d k] assms(2,3) rows_mono [of d "Suc df"] that by auto
qed

lemma backward_part:
  assumes "two_ok e a b df db" "d \<le> db" "on_diag d (k - (int (length a) - int (length b)))"
  obtains r where "backwardlcs e (int d) (k - eg_delta e) = Some r"
    "chain a b (back_label a b d k) (back_label a b d k - k) r (int (length a)) (int (length b))"
    "(int (length a) - back_label a b d k) + (int (length b) - (back_label a b d k - k)) - int d \<le> 2 * kept r"
proof -
  have delta: "eg_delta e = int (length a) - int (length b)" by (rule two_graph(1) [OF assms(1)])
  have "bgraph e a b" "labels (eg_vb e) (backmost a b) (rows (Suc db))" using assms(1) by (auto simp: two_ok_def)
  then show ?thesis
    using backwardlcs_chain [of e a b "rows (Suc db)" d "k - eg_delta e"] assms(2,3) rows_mono [of d "Suc db"] that delta backmost_back_label [of a b d k]
    by auto
qed

lemma both_bounds: "both a b df db k \<Longrightarrow> - int df \<le> k \<and> k \<le> int df \<and> - int db \<le> k - (int (length a) - int (length b)) \<and> k - (int (length a) - int (length b)) \<le> int db"
  by (simp add: both_def on_diag_def)

lemma overlap_inside:
  assumes "both a b df db k" "far a b (df + db)" "back_label a b db k < 0 \<or> back_label a b db k - k < 0"
  shows False
proof -
  have "on_diag db (int (length a) - int (length b) - k)"
    using assms(1) on_diag_neg [of db "k - (int (length a) - int (length b))"] by (simp add: both_def)
  then obtain l where "connects a b l" "int l \<le> int db + back_label a b db k + (back_label a b db k - k)"
    using back_label_border assms(3) by (metis less_imp_le)
  moreover have "df + db \<le> l" using assms(2) calculation(1) by (simp add: far_def)
  ultimately show False using assms(3) both_bounds [OF assms(1)] by linarith
qed

lemma overlap_back_le:
  assumes "both a b df db k"
  shows "back_label a b db k \<le> int (length a)" "back_label a b db k - k \<le> int (length b)"
  using back_label_le [of db a b k] assms on_diag_neg [of db "k - (int (length a) - int (length b))"] by (simp_all add: both_def)

lemma overlap_border:
  assumes "both a b df db k" "far a b (df + db)" "furthest a b df k = int (length a) \<or> furthest a b df k - k = int (length b)"
  shows "furthest a b df k \<le> int (length a)" "furthest a b df k - k \<le> int (length b)"
proof -
  obtain l where "connects a b l" "int l \<le> int df + (int (length a) - furthest a b df k) + (int (length b) - (furthest a b df k - k))"
    using furthest_border [of df k a b] assms(1,3) by (auto simp: both_def)
  moreover have "df + db \<le> l" using assms(2) calculation(1) by (simp add: far_def)
  ultimately show "furthest a b df k \<le> int (length a)" "furthest a b df k - k \<le> int (length b)" using assms(3) by linarith+
qed

text \<open>The last case of \<open>twolcs\<close>: the rest is searched for again in the rectangle below \<open>(u, v)\<close>.\<close>

lemma search_below:
  assumes ok: "two_ok e a b df db" and k: "both a b df db k" and far: "far a b (df + db)" and limit: "int df \<le> eg_limit e"
    and over: "back_label a b db k \<le> furthest a b df k"
  obtains f t where "forward (e\<lparr>eg_ux := back_label a b db k, eg_uy := back_label a b db k - k\<rparr>)
      = Some (f, e\<lparr>eg_ux := back_label a b db k, eg_uy := back_label a b db k - k, eg_vf := t\<rparr>)"
    "chain a b 0 0 f (back_label a b db k) (back_label a b db k - k)"
    "back_label a b db k + (back_label a b db k - k) - int df \<le> 2 * kept f"
proof -
  have "0 \<le> back_label a b db k" "0 \<le> back_label a b db k - k" using overlap_inside [OF k far] by (meson linorder_not_le)+
  then obtain u v where uv: "back_label a b db k = int u" "k = int u - int v" using nonneg_point by blast
  have le: "u \<le> length a" "v \<le> length b" using overlap_back_le [OF k] uv by simp_all
  have len: "length (take u a) = u" "length (take v b) = v" using le by simp_all
  let ?e = "e\<lparr>eg_ux := int u, eg_uy := int v\<rparr>"
  obtain l where l: "l \<le> df" "connects (take u a) (take v b) l"
    using furthest_passed [of df u v a b] k over le uv by (auto simp: both_def)
  obtain l' where l': "shortest (take u a) (take v b) l'" using shortest_exists by blast
  then have "l' \<le> df" using l by (meson shortest_def order_trans)
  have "bgraph e a b" "shaped (eg_vf e)" using ok by (simp_all add: two_ok_def labels_def)
  then have "fgraph ?e (take u a) (take v b)" "shaped (eg_vf ?e)" using le by (simp_all add: fgraph_def bgraph_def)
  then obtain f t where f: "forward ?e = Some (f, ?e\<lparr>eg_vf := t\<rparr>)" "good (take u a) (take v b) l' f"
    using forward_finds [of ?e "take u a" "take v b" l'] l' \<open>l' \<le> df\<close> limit by auto
  have "chain a b 0 0 f (int u) (int v)" "int u + int v - int df \<le> 2 * kept f"
    using f(2) \<open>l' \<le> df\<close> chain_take [of u a v b 0 0 f] unfolding good_def len by simp_all
  moreover have "back_label a b db k - k = int v" using uv by simp
  ultimately show ?thesis using that f(1) uv(1) by simp
qed

text \<open>The cases of \<open>twolcs\<close>, in its order.\<close>

lemma twolcs_good:
  assumes ok: "two_ok e a b df db" and k: "both a b df db k" and far: "far a b (df + db)" and limit: "int df \<le> eg_limit e"
    and over: "special a b df db k \<or> back_label a b db k \<le> furthest a b df k"
  shows "\<exists>l e'. twolcs e (int df) (int db) k = Some (l, e') \<and> good a b (df + db) l"
proof -
  let ?N = "int (length a)" and ?M = "int (length b)"
  define x u where "x = furthest a b df k" and "u = back_label a b db k"
  note delta = two_graph [OF ok]
  have kd: "on_diag df k" "on_diag db (k - (?N - ?M))" using k by (simp_all add: both_def)
  have get: "label_get (eg_vf e) (int df) k = Some x" "label_get (eg_vb e) (int db) (k - eg_delta e) = Some u"
    using two_get [OF ok k] by (simp_all add: x_def u_def)
  have lf: "labels (eg_vf e) (furthest a b) (rows (Suc df))" and lb: "labels (eg_vb e) (backmost a b) (rows (Suc db))"
    using ok by (simp_all add: two_ok_def)
  have par: "even (int df + k)" "even (int db + (k - (?N - ?M)))" using kd by (simp_all add: on_diag_def)
  obtain f where f: "forwardlcs e (int df) k = Some f" "chain a b 0 0 f x (x - k)" "x + (x - k) - int df \<le> 2 * kept f"
    using forward_part [OF ok order_refl kd(1)] unfolding x_def .
  obtain r where r: "backwardlcs e (int db) (k - eg_delta e) = Some r" "chain a b u (u - k) r ?N ?M"
    "(?N - u) + (?M - (u - k)) - int db \<le> 2 * kept r"
    using backward_part [OF ok order_refl kd(2)] unfolding u_def .
  let ?left = "0 < u \<and> 0 < df \<and> on_diag (df - 1) (k - 1) \<and> u - 1 = furthest a b (df - 1) (k - 1)"
  let ?below = "0 < u - k \<and> 0 < df \<and> on_diag (df - 1) (k + 1) \<and> u = furthest a b (df - 1) (k + 1)"
  let ?right = "x + 1 \<le> ?N \<and> 0 < db \<and> on_diag (db - 1) (k - (?N - ?M) + 1) \<and> x + 1 = backmost a b (db - 1) (k - (?N - ?M) + 1)"
  let ?above = "x - k + 1 \<le> ?M \<and> 0 < db \<and> on_diag (db - 1) (k - (?N - ?M) - 1) \<and> x = backmost a b (db - 1) (k - (?N - ?M) - 1)"
  have idx: "u - 1 - (u - k) = k - 1" "u - (u - k - 1) = k + 1" "x + 1 - (x - k) - eg_delta e = k - (?N - ?M) + 1"
    "x - (x - k + 1) - eg_delta e = k - (?N - ?M) - 1" using delta by simp_all
  have left: "(if u > 0 then labelled (eg_vf e) (int df - 1) (k - 1) (u - 1) else Some False) = Some ?left"
    using labelled_row [OF lf order_refl par(1), of "k - 1" "u - 1"] by simp
  have below: "(if u - k > 0 then labelled (eg_vf e) (int df - 1) (k + 1) u else Some False) = Some ?below"
    using labelled_row [OF lf order_refl par(1), of "k + 1" u] by simp
  have right: "(if x + 1 \<le> eg_ux e then labelled (eg_vb e) (int db - 1) (k - (?N - ?M) + 1) (x + 1) else Some False) = Some ?right"
    using labelled_row [OF lb order_refl par(2), of "k - (?N - ?M) + 1" "x + 1"] delta by simp
  have above: "(if x - k + 1 \<le> eg_uy e then labelled (eg_vb e) (int db - 1) (k - (?N - ?M) - 1) x else Some False) = Some ?above"
    using labelled_row [OF lb order_refl par(2), of "k - (?N - ?M) - 1" x] delta by simp
  let ?join = "\<lambda>p q. do { f \<leftarrow> p; b \<leftarrow> q; Some (lcs_sort (f @ b), e) }"
  have step: "twolcs e (int df) (int db) k =
    (if x = u then ?join (forwardlcs e (int df) k) (backwardlcs e (int db) (k - eg_delta e))
     else if ?left then ?join (forwardlcs e (int df - 1) (k - 1)) (backwardlcs e (int db) (k - eg_delta e))
     else if ?below then ?join (forwardlcs e (int df - 1) (k + 1)) (backwardlcs e (int db) (k - eg_delta e))
     else if u = 0 \<or> u - k = 0 \<or> x = eg_ux e \<or> x - k = eg_uy e then
       (if u = 0 \<or> u - k = 0 then do { b \<leftarrow> backwardlcs e (int db) (k - eg_delta e); Some (b, e) }
        else do { f \<leftarrow> forwardlcs e (int df) k; Some (f, e) })
     else if ?right then ?join (backwardlcs e (int db - 1) (k - eg_delta e + 1)) (forwardlcs e (int df) k)
     else if ?above then ?join (backwardlcs e (int db - 1) (k - eg_delta e - 1)) (forwardlcs e (int df) k)
     else do {
       b \<leftarrow> backwardlcs e (int db) (k - eg_delta e);
       (f, e') \<leftarrow> forward (e\<lparr>eg_ux := u, eg_uy := u - k\<rparr>);
       Some (lcs_sort (b @ f), e'\<lparr>eg_ux := eg_ux e, eg_uy := eg_uy e\<rparr>) })"
    by (simp only: twolcs_def Let_def get bind.bind_lunit idx left below right above)
  have pred: "0 < n \<Longrightarrow> int (n - 1) = int n - 1" for n by simp
  consider "x = u" | "x \<noteq> u" ?left | "x \<noteq> u" "\<not> ?left" ?below
    | "x \<noteq> u" "\<not> ?left" "\<not> ?below" "u = 0 \<or> u - k = 0"
    | "x \<noteq> u" "\<not> ?left" "\<not> ?below" "\<not> (u = 0 \<or> u - k = 0)" "x = ?N \<or> x - k = ?M"
    | "\<not> (x = u \<or> u = 0 \<or> u - k = 0 \<or> x - k = ?M \<or> x = ?N)" "\<not> ?left" "\<not> ?below" ?right
    | "\<not> (x = u \<or> u = 0 \<or> u - k = 0 \<or> x - k = ?M \<or> x = ?N)" "\<not> ?left" "\<not> ?below" "\<not> ?right" ?above
    | "\<not> (x = u \<or> u = 0 \<or> u - k = 0 \<or> x - k = ?M \<or> x = ?N)" "\<not> ?left" "\<not> ?below" "\<not> ?right" "\<not> ?above"
    by argo
  then show ?thesis
  proof cases
    case 1
    then have "good a b (df + db) (lcs_sort (f @ r))" using combine(1) [OF f(2,3) r(2,3)] by simp
    then show ?thesis using f(1) r(1) unfolding step if_P [OF 1] by simp
  next
    case 2
    then obtain f' where f': "forwardlcs e (int (df - 1)) (k - 1) = Some f'" "chain a b 0 0 f' (u - 1) (u - 1 - (k - 1))"
      "(u - 1) + (u - 1 - (k - 1)) - int (df - 1) \<le> 2 * kept f'"
      using forward_part [OF ok, of "df - 1" "k - 1"] by (metis diff_le_self)
    have "good a b (df + db) (lcs_sort (f' @ r))" using combine(1) [OF f'(2,3) r(2,3)] 2 by simp
    then show ?thesis using f'(1) r(1) pred [of df] 2(2) unfolding step if_not_P [OF 2(1)] if_P [OF 2(2)] by simp
  next
    case 3
    then obtain f' where f': "forwardlcs e (int (df - 1)) (k + 1) = Some f'" "chain a b 0 0 f' u (u - (k + 1))"
      "u + (u - (k + 1)) - int (df - 1) \<le> 2 * kept f'"
      using forward_part [OF ok, of "df - 1" "k + 1"] by (metis diff_le_self)
    have "good a b (df + db) (lcs_sort (f' @ r))" using combine(1) [OF f'(2,3) r(2,3)] 3 by simp
    then show ?thesis using f'(1) r(1) pred [of df] 3(3) unfolding step if_not_P [OF 3(1)] if_not_P [OF 3(2)] if_P [OF 3(3)] by simp
  next
    case 4
    have "0 \<le> u" "0 \<le> u - k" using overlap_inside [OF k far] unfolding u_def by (meson linorder_not_le)+
    then have "chain a b 0 0 r ?N ?M" using chain_weaken [OF r(2)] by simp
    then have "good a b (df + db) r" using r(3) 4(4) both_bounds [OF k] by (auto simp: good_def)
    then show ?thesis using r(1) 4(4) unfolding step if_not_P [OF 4(1)] if_not_P [OF 4(2)] if_not_P [OF 4(3)] by auto
  next
    case 5
    have "x \<le> ?N" "x - k \<le> ?M" using overlap_border [OF k far] 5(5) unfolding x_def by blast+
    then have "chain a b 0 0 f ?N ?M" using chain_weaken [OF f(2)] by simp
    then have "good a b (df + db) f" using f(3) 5(5) both_bounds [OF k] by (auto simp: good_def)
    then show ?thesis using f(1) 5(4,5) delta unfolding step if_not_P [OF 5(1)] if_not_P [OF 5(2)] if_not_P [OF 5(3)] by auto
  next
    case 6
    have "k + 1 - (?N - ?M) = k - (?N - ?M) + 1" by simp
    then obtain r' where r': "backwardlcs e (int (db - 1)) (k + 1 - eg_delta e) = Some r'" "chain a b (x + 1) (x + 1 - (k + 1)) r' ?N ?M"
      "(?N - (x + 1)) + (?M - (x + 1 - (k + 1))) - int (db - 1) \<le> 2 * kept r'"
      using backward_part [OF ok, of "db - 1" "k + 1"] 6(4) backmost_back_label [of a b "db - 1" "k + 1"] by (metis diff_le_self)
    have "good a b (df + db) (lcs_sort (r' @ f))" using combine(2) [OF f(2,3) r'(2,3)] 6(4) by simp
    moreover have "backwardlcs e (int db - 1) (k - eg_delta e + 1) = Some r'" using r'(1) pred [of db] 6(4) by (simp add: algebra_simps)
    moreover have ne: "x \<noteq> u" "\<not> (u = 0 \<or> u - k = 0 \<or> x = eg_ux e \<or> x - k = eg_uy e)" using 6(1) delta by simp_all
    ultimately show ?thesis using f(1) unfolding step if_not_P [OF ne(1)] if_not_P [OF 6(2)] if_not_P [OF 6(3)] if_not_P [OF ne(2)] if_P [OF 6(4)] by simp
  next
    case 7
    have "k - 1 - (?N - ?M) = k - (?N - ?M) - 1" by simp
    then obtain r' where r': "backwardlcs e (int (db - 1)) (k - 1 - eg_delta e) = Some r'" "chain a b x (x - (k - 1)) r' ?N ?M"
      "(?N - x) + (?M - (x - (k - 1))) - int (db - 1) \<le> 2 * kept r'"
      using backward_part [OF ok, of "db - 1" "k - 1"] 7(5) backmost_back_label [of a b "db - 1" "k - 1"] by (metis diff_le_self)
    have "good a b (df + db) (lcs_sort (r' @ f))" using combine(2) [OF f(2,3) r'(2,3)] 7(5) by simp
    moreover have "backwardlcs e (int db - 1) (k - eg_delta e - 1) = Some r'" using r'(1) pred [of db] 7(5) by (simp add: algebra_simps)
    moreover have ne: "x \<noteq> u" "\<not> (u = 0 \<or> u - k = 0 \<or> x = eg_ux e \<or> x - k = eg_uy e)" using 7(1) delta by simp_all
    ultimately show ?thesis using f(1) unfolding step if_not_P [OF ne(1)] if_not_P [OF 7(2)] if_not_P [OF 7(3)] if_not_P [OF ne(2)] if_not_P [OF 7(4)] if_P [OF 7(5)] by simp
  next
    case 8
    have "\<not> special a b df db k" using 8(1) by (simp add: special_def Let_def x_def u_def)
    then have "u \<le> x" using over by (simp add: x_def u_def)
    then obtain f' t where f': "forward (e\<lparr>eg_ux := u, eg_uy := u - k\<rparr>) = Some (f', e\<lparr>eg_ux := u, eg_uy := u - k, eg_vf := t\<rparr>)"
      "chain a b 0 0 f' u (u - k)" "u + (u - k) - int df \<le> 2 * kept f'"
      using search_below [OF ok k far limit] unfolding x_def u_def by blast
    have "good a b (df + db) (lcs_sort (r @ f'))" using combine(2) [OF f'(2,3) r(2,3)] by simp
    moreover have ne: "x \<noteq> u" "\<not> (u = 0 \<or> u - k = 0 \<or> x = eg_ux e \<or> x - k = eg_uy e)" using 8(1) delta by simp_all
    ultimately show ?thesis using f'(1) r(1)
      unfolding step if_not_P [OF ne(1)] if_not_P [OF 8(2)] if_not_P [OF 8(3)] if_not_P [OF ne(2)] if_not_P [OF 8(4)] if_not_P [OF 8(5)] by simp
  qed
qed

section \<open>The search\<close>

text \<open>One round: test, forward pass, test, backward pass.\<close>

lemma far_parity: "far a b n \<Longrightarrow> \<forall>l. connects a b l \<longrightarrow> n \<le> l"
  by (simp add: far_def)

lemma two_rounds_cases:
  assumes "two_ok e a b d d" "far a b (d + d)" "int (d + n) \<le> eg_limit e"
  shows "\<exists>r e'. two_rounds n (int d) e = Some (r, e') \<and>
    (case r of Some l \<Rightarrow> \<exists>m. far a b m \<and> good a b m l
     | None \<Rightarrow> two_ok e' a b (d + n) (d + n) \<and> far a b (d + n + (d + n)) \<and> eg_limit e' = eg_limit e)"
  using assms
proof (induction n arbitrary: d e)
  case 0
  then show ?case by simp
next
  case (Suc n)
  have limit: "int d \<le> eg_limit e" "int (Suc d) \<le> eg_limit e" using Suc.prems(3) by simp_all
  obtain g where g: "twoDone e (int d) (int d) = Some g"
    "case g of None \<Rightarrow> far a b (Suc (d + d)) | Some k \<Rightarrow> both a b d d k \<and> (special a b d d k \<or> back_label a b d k \<le> furthest a b d k)"
    using twoDone_cases [OF Suc.prems(1,2)] by blast
  show ?case
  proof (cases g)
    case (Some k)
    then obtain l e' where "twolcs e (int d) (int d) k = Some (l, e')" "good a b (d + d) l"
      using twolcs_good [OF Suc.prems(1) _ Suc.prems(2) limit(1), of k] g(2) by auto
    then have "two_rounds (Suc n) (int d) e = Some (Some l, e')" "far a b (d + d) \<and> good a b (d + d) l"
      using g(1) Some Suc.prems(2) by simp_all
    then show ?thesis by (intro exI [of _ "Some l"] exI [of _ e']) auto
  next
    case None
    have e: "bgraph e a b" "labels (eg_vf e) (furthest a b) (rows (Suc d))" "labels (eg_vb e) (backmost a b) (rows (Suc d))"
      using Suc.prems(1) by (simp_all add: two_ok_def)
    obtain t where t: "forward_pass e (int d) = Some (e\<lparr>eg_vf := t\<rparr>)" "labels t (furthest a b) (rows (Suc (Suc d)))"
      using forward_pass_labels [OF bgraph_fgraph [OF e(1)] e(2)] .
    let ?e1 = "e\<lparr>eg_vf := t\<rparr>"
    have ok1: "two_ok ?e1 a b (Suc d) d" using e t(2) by (simp add: two_ok_def)
    have far1: "far a b (Suc d + d)" using g(2) None by simp
    obtain g' where g': "twoDone ?e1 (int (Suc d)) (int d) = Some g'"
      "case g' of None \<Rightarrow> far a b (Suc (Suc d + d))
       | Some k \<Rightarrow> both a b (Suc d) d k \<and> (special a b (Suc d) d k \<or> back_label a b d k \<le> furthest a b (Suc d) k)"
      using twoDone_cases [OF ok1 far1] by blast
    show ?thesis
    proof (cases g')
      case (Some k)
      have "int (Suc d) \<le> eg_limit ?e1" using limit(2) by simp
      then obtain l e' where "twolcs ?e1 (int (Suc d)) (int d) k = Some (l, e')" "good a b (Suc d + d) l"
        using twolcs_good [OF ok1 _ far1, of k] g'(2) Some by auto
      then have "two_rounds (Suc n) (int d) e = Some (Some l, e')" "far a b (Suc d + d) \<and> good a b (Suc d + d) l"
        using g(1) None t(1) g'(1) Some far1 by (simp_all add: int_Suc [symmetric] del: of_nat_Suc)
      then show ?thesis by (intro exI [of _ "Some l"] exI [of _ e']) auto
    next
      case none: None
      have "bgraph ?e1 a b" "labels (eg_vb ?e1) (backmost a b) (rows (Suc d))" using e by simp_all
      then obtain t' where t': "backward_pass ?e1 (int d) = Some (?e1\<lparr>eg_vb := t'\<rparr>)" "labels t' (backmost a b) (rows (Suc (Suc d)))"
        by (rule backward_pass_labels)
      let ?e2 = "?e1\<lparr>eg_vb := t'\<rparr>"
      have "two_ok ?e2 a b (Suc d) (Suc d)" using e(1) t(2) t'(2) by (simp add: two_ok_def)
      moreover have "far a b (Suc d + Suc d)" using g'(2) none by simp
      ultimately obtain r e' where "two_rounds n (int (Suc d)) ?e2 = Some (r, e')"
        "case r of Some l \<Rightarrow> \<exists>m. far a b m \<and> good a b m l
         | None \<Rightarrow> two_ok e' a b (Suc d + n) (Suc d + n) \<and> far a b (Suc d + n + (Suc d + n)) \<and> eg_limit e' = eg_limit ?e2"
        using Suc.IH [of ?e2 "Suc d"] Suc.prems(3) by auto
      moreover from this(1) have "two_rounds (Suc n) (int d) e = Some (r, e')"
        using g(1) None t(1) g'(1) none t'(1) by (simp add: int_Suc [symmetric] del: of_nat_Suc)
      ultimately show ?thesis by (intro exI [of _ r] exI [of _ e']) (auto split: option.splits)
    qed
  qed
qed

lemma forward_best_cases:
  assumes "\<forall>k \<in> set ks. label_get (eg_vf e) (eg_limit e) k = Some (F k)"
  shows "\<exists>k'. forward_best e ks m k0 = Some k' \<and>
    (k' \<in> set ks \<or> k' = k0 \<and> (\<forall>k \<in> set ks. \<not> (F k + (F k - k) > m \<and> F k \<le> eg_ux e \<and> F k - k \<le> eg_uy e)))"
  using assms
proof (induction ks arbitrary: m k0)
  case (Cons k ks)
  have get: "getForward e (eg_limit e) k = Some (F k)" using Cons.prems by (simp add: getForward_def)
  show ?case
  proof (cases "F k + (F k - k) > m \<and> F k \<le> eg_ux e \<and> F k - k \<le> eg_uy e")
    case True
    then have "forward_best e (k # ks) m k0 = forward_best e ks (F k + (F k - k)) k" using get by (simp add: Let_def)
    then show ?thesis using Cons.IH [of "F k + (F k - k)" k] Cons.prems by (metis list.set_intros)
  next
    case False
    then have "forward_best e (k # ks) m k0 = forward_best e ks m k0" using get by (simp add: Let_def) auto
    then show ?thesis using Cons.IH [of m k0] Cons.prems False by (metis list.set_intros set_ConsD)
  qed
qed simp

lemma backward_best_cases:
  assumes "\<forall>k \<in> set ks. label_get (eg_vb e) (eg_limit e) k = Some (F k)"
  shows "\<exists>k'. backward_best e ks m k0 = Some k' \<and> (k' \<in> set ks \<or> k' = k0)"
  using assms
proof (induction ks arbitrary: m k0)
  case (Cons k ks)
  have "getBackward e (eg_limit e) k = Some (F k)" using Cons.prems by (simp add: getBackward_def)
  then have "\<exists>m' k1. backward_best e (k # ks) m k0 = backward_best e ks m' k1 \<and> (k1 = k \<or> k1 = k0)" by (auto simp: Let_def)
  then obtain m' k1 where "backward_best e (k # ks) m k0 = backward_best e ks m' k1" "k1 = k \<or> k1 = k0" by blast
  then show ?case using Cons.IH [of m' k1] Cons.prems by auto
qed simp

lemma two_partial_chain:
  assumes ok: "two_ok e a b d d" and limit: "eg_limit e = int d" "0 < d" and far: "far a b (d + d)"
  shows "\<exists>l. two_partial e = Some l \<and> chain a b 0 0 l (int (length a)) (int (length b))"
proof -
  let ?ks = "diagonals (- eg_limit e) (eg_limit e)"
  have ks: "set ?ks = {k. on_diag d k}" unfolding limit(1) by (rule all_diagonals)
  have g: "bgraph e a b" "fgraph e a b" using ok bgraph_fgraph by (auto simp: two_ok_def)
  have lf: "labels (eg_vf e) (furthest a b) (rows (Suc d))" and lb: "labels (eg_vb e) (backmost a b) (rows (Suc d))"
    using ok by (simp_all add: two_ok_def)
  have "label_get (eg_vf e) (eg_limit e) k = Some (furthest a b d k)" if "k \<in> set ?ks" for k
    using that [unfolded ks] labels_row [OF lf subset_refl lessI, of k] by (simp add: limit(1))
  then obtain k where k: "forward_best e ?ks (- 1) (- eg_limit e - 1) = Some k"
    "k \<in> set ?ks \<or> k = - eg_limit e - 1 \<and> (\<forall>k \<in> set ?ks.
       \<not> (furthest a b d k + (furthest a b d k - k) > - 1 \<and> furthest a b d k \<le> eg_ux e \<and> furthest a b d k - k \<le> eg_uy e))"
    using forward_best_cases by blast
  have "\<forall>l. connects a b l \<longrightarrow> d < l" using far limit(2) by (fastforce simp: far_def)
  then obtain k1 where k1: "on_diag d k1" "furthest a b d k1 \<le> int (length a)" "furthest a b d k1 - k1 \<le> int (length b)"
    using furthest_inside by blast
  have "furthest a b d k1 + (furthest a b d k1 - k1) > - 1" using furthest_point [OF k1(1), of a b] by linarith
  then have "k \<in> set ?ks" using k(2) k1 two_graph [OF ok] unfolding ks by auto
  then have kd: "on_diag d k" unfolding ks by simp
  obtain f where f: "forwardlcs e (int d) k = Some f" "chain a b 0 0 f (furthest a b d k) (furthest a b d k - k)"
    using forward_part [OF ok order_refl kd] .
  have "label_get (eg_vb e) (eg_limit e) k = Some (backmost a b d k)" if "k \<in> set ?ks" for k
    using that [unfolded ks] labels_row [OF lb subset_refl lessI, of k] by (simp add: limit(1))
  then obtain k' where k': "backward_best e ?ks (2 ^ 25) k = Some k'" "k' \<in> set ?ks \<or> k' = k" using backward_best_cases by blast
  then have kd': "on_diag d k'" using kd unfolding ks by auto
  obtain r where r: "backwardlcs e (int d) k' = Some r"
    "chain a b (backmost a b d k') (backmost a b d k' - (k' + eg_delta e)) r (int (length a)) (int (length b))"
    using backwardlcs_chain [OF g(1) lb rows_mono _ kd'] by auto
  have "two_partial e = Some (lcs_fix (f @ r))"
    using k(1) k'(1) f(1) r(1) kd kd' limit(1) by (simp add: two_partial_def on_diag_def)
  moreover have "\<forall>p \<in> set (f @ r). diag_ok a b p" using chain_diag_ok [OF f(2)] chain_diag_ok [OF r(2)] by auto
  ultimately show ?thesis using lcs_fix_chain by blast
qed

text \<open>A new graph.\<close>

lemma twosided_chain:
  assumes "0 < n"
  shows "\<exists>l. twosided (edit_graph a b (int n)) = Some l \<and> chain a b 0 0 l (int (length a)) (int (length b))
    \<and> (\<forall>m. connects a b m \<and> m < 2 * n \<longrightarrow> good a b m l)"
proof -
  let ?e = "edit_graph a b (int n)"
  have g: "bgraph ?e a b" by (simp add: bgraph_def edit_graph_def)
  have empty: "labels (eg_vf ?e) (furthest a b) {}" "labels (eg_vb ?e) (backmost a b) {}"
    by (simp_all add: labels_def edit_graph_def shaped_new)
  obtain t where t: "setForward ?e 0 0 (eg_lx ?e) = Some (?e\<lparr>eg_vf := t\<rparr>)" "labels t (furthest a b) {(0, 0)}"
    using set_first [OF bgraph_fgraph [OF g] empty(1)] by auto
  let ?p = "?e\<lparr>eg_vf := t\<rparr>"
  have "bgraph ?p a b" "labels (eg_vb ?p) (backmost a b) {}" using g empty(2) by simp_all
  then obtain t' where t': "setBackward ?p 0 0 (eg_ux ?p) = Some (?p\<lparr>eg_vb := t'\<rparr>)" "labels t' (backmost a b) {(0, 0)}"
    using set_first_back by blast
  let ?q = "?p\<lparr>eg_vb := t'\<rparr>"
  have row: "labels s F (rows (Suc 0))" if "labels s F {(0, 0)}" for s F using that by (auto simp: labels_def rows_def)
  have ok: "two_ok ?q a b 0 0" using g row [OF t(2)] row [OF t'(2)] by (simp add: two_ok_def)
  have far0: "far a b (0 + 0)" by (simp add: far_def)
  have limit: "eg_limit ?q = int n" "int (0 + n) \<le> eg_limit ?q" by (simp_all add: edit_graph_def)
  obtain r e' where r: "two_rounds n 0 ?q = Some (r, e')"
    "case r of Some l \<Rightarrow> \<exists>m. far a b m \<and> good a b m l | None \<Rightarrow> two_ok e' a b n n \<and> far a b (n + n) \<and> eg_limit e' = eg_limit ?q"
    using two_rounds_cases [OF ok far0 limit(2)] unfolding add_0 of_nat_0 by blast
  have run: "twosided ?e = (case r of Some ans \<Rightarrow> Some ans | None \<Rightarrow> two_partial e')"
    unfolding twosided_def t(1) bind.bind_lunit t'(1) using r(1) limit(1) by simp
  show ?thesis
  proof (cases r)
    case (Some l)
    then obtain m where m: "far a b m" "good a b m l" using r(2) by auto
    then have "\<forall>m'. connects a b m' \<longrightarrow> good a b m' l" using good_mono [OF m(2)] unfolding far_def by blast
    then show ?thesis using run Some m(2) by (auto simp: good_def)
  next
    case None
    then have "two_ok e' a b n n" "far a b (n + n)" "eg_limit e' = int n" using r(2) limit(1) by simp_all
    then obtain l where "two_partial e' = Some l" "chain a b 0 0 l (int (length a)) (int (length b))"
      using two_partial_chain assms by blast
    then show ?thesis using run None \<open>far a b (n + n)\<close> by (auto simp: far_def)
  qed
qed

section \<open>Differences\<close>

text \<open>A chain is a path, so that no chain does with fewer edits than a shortest path.\<close>

lemma diag_path:
  assumes "diag_ok a b p" "reach a b d (nat (d_X p)) (nat (d_Y p))"
  shows "reach a b d (nat (d_X p + d_Len p)) (nat (d_Y p + d_Len p))"
proof -
  obtain x y n where n: "d_X p = int x" "d_Y p = int y" "d_Len p = int n" using assms(1) unfolding diag_ok_def by (metis nonneg_int_cases less_imp_le)
  have "matches a b (int x - int y) (int x) (int (x + n))" using assms(1) n by (simp add: diag_ok_def)
  from reach_along [OF _ this] show ?thesis using assms(2) n by (simp add: nat_add_distrib)
qed

lemma chain_path:
  "chain a b (int x) (int y) l (int x1) (int y1) \<Longrightarrow> reach a b d x y \<Longrightarrow>
     \<exists>d'. reach a b d' x1 y1 \<and> int d' = int d + (int x1 - int x) + (int y1 - int y) - 2 * kept l"
proof (induction l arbitrary: x y d)
  case Nil
  then obtain i j where "x1 = x + i" "y1 = y + j" by (auto simp: le_iff_add)
  then show ?case using path_down [OF path_right [OF Nil.prems(2), of i], of j] by (intro exI [of _ "d + i + j"]) simp
next
  case (Cons p l)
  have p: "int x \<le> d_X p" "int y \<le> d_Y p" "diag_ok a b p" "0 < d_Len p"
    "chain a b (d_X p + d_Len p) (d_Y p + d_Len p) l (int x1) (int y1)"
    using Cons.prems(1) by (simp_all add: diag_ok_def)
  define i j where "i = nat (d_X p) - x" and "j = nat (d_Y p) - y"
  have ij: "x + i = nat (d_X p)" "y + j = nat (d_Y p)" using p(1,2) by (simp_all add: i_def j_def)
  have "reach a b (d + i + j) (nat (d_X p)) (nat (d_Y p))"
    using path_down [OF path_right [OF Cons.prems(2), of i], of j] ij by simp
  from diag_path [OF p(3) this] obtain d' where "reach a b d' x1 y1"
    "int d' = int (d + i + j) + (int x1 - int (nat (d_X p + d_Len p))) + (int y1 - int (nat (d_Y p + d_Len p))) - 2 * kept l"
    using Cons.IH [of "nat (d_X p + d_Len p)" "nat (d_Y p + d_Len p)" "d + i + j"] p(3,5) by (auto simp: diag_ok_def)
  then show ?case using p(1-4) by (intro exI [of _ d']) (simp add: i_def j_def diag_ok_def)
qed

lemma chain_connects:
  assumes "chain a b 0 0 l (int (length a)) (int (length b))"
  obtains d where "connects a b d" "int d = int (length a) + int (length b) - 2 * kept l"
  using chain_path [of a b 0 0 l "length a" "length b" 0] assms path.start [of a b 0 0] by auto

lemma lcs_diff_minimal:
  "\<exists>ds. lcs_diff a b = Some ds \<and> rewritten a b 0 0 ds
     \<and> (\<forall>m. shortest a b m \<and> m < 100 \<longrightarrow> edit_count ds = int m)"
proof -
  obtain l where l: "twosided (edit_graph a b (int 50)) = Some l" "chain a b 0 0 l (int (length a)) (int (length b))"
    "\<forall>m. connects a b m \<and> m < 2 * 50 \<longrightarrow> good a b m l"
    using twosided_chain [of 50 a b] by auto
  let ?ds = "toDiffs l (int (length a)) (int (length b))"
  have "lcs_diff a b = Some ?ds" using l(1) by (simp add: lcs_diff_def compute_def maxDiffs_def)
  moreover have ds: "rewritten a b 0 0 ?ds" "edit_count ?ds = int (length a) + int (length b) - 2 * kept l"
    using diffs_loop_rewritten [OF l(2)] by (simp_all add: toDiffs_def)
  moreover have "edit_count ?ds = int m" if m: "shortest a b m" "m < 100" for m
  proof (rule antisym)
    show "edit_count ?ds \<le> int m" using l(3) [rule_format, of m] m ds(2) by (simp add: shortest_def good_def)
    obtain d where "connects a b d" "int d = int (length a) + int (length b) - 2 * kept l" using chain_connects [OF l(2)] .
    then show "int m \<le> edit_count ?ds" using m(1) ds(2) unfolding shortest_def by force
  qed
  ultimately show ?thesis by blast
qed

text \<open>Claim C4: \<open>diff\<close> of two sequences of bytes, runes or lines never panics and always returns.  Its
  differences are in order, do not overlap, are within both sequences and turn the first into the
  second.  When 99 deletions and insertions are enough, it makes as few as possible: as many as a
  shortest path through the edit graph has.\<close>

theorem lcs_diff_spec:
  "\<exists>ds. lcs_diff a b = Some ds \<and> rewritten a b 0 0 ds
     \<and> (\<forall>m. shortest a b m \<and> m < 100 \<longrightarrow> edit_count ds = int m)"
  by (rule lcs_diff_minimal)

theorem lcs_diff_spec_witness:
  "\<exists>ds m. lcs_diff ''ab'' ''cb'' = Some ds \<and> rewritten ''ab'' ''cb'' 0 0 ds
     \<and> shortest ''ab'' ''cb'' m \<and> m < 100 \<and> edit_count ds = int m"
proof -
  obtain m where m: "shortest ''ab'' ''cb'' m" using shortest_exists by blast
  then have "m < 100" using connects_all [of "''ab''" "''cb''"] by (force simp: shortest_def)
  then show ?thesis using lcs_diff_spec [of "''ab''" "''cb''"] m by blast
qed

end
