(* ===== verification/Utf8.thy ===== *)
theory Utf8
  imports Go_Prelude
begin

text \<open>
  The functions of the standard package \<open>unicode/utf8\<close> that the position mapper uses: decoding
  one rune from a byte string, with the replacement rune for invalid input.  Runes and bytes are
  integers.  \<open>valid_utf8\<close> is \<open>utf8.Valid\<close>.
\<close>

abbreviation byte :: "char \<Rightarrow> int" where "byte c \<equiv> of_char c"

definition RuneError :: int where "RuneError = 0xFFFD"

text \<open>The continuation bytes, with the range that the first byte allows for the second.\<close>

definition cont :: "char \<Rightarrow> bool" where
  "cont c \<longleftrightarrow> 0x80 \<le> byte c \<and> byte c \<le> 0xBF"

definition second_ok :: "int \<Rightarrow> char \<Rightarrow> bool" where
  "second_ok b0 c \<longleftrightarrow> cont c
     \<and> (b0 = 0xE0 \<longrightarrow> 0xA0 \<le> byte c) \<and> (b0 = 0xED \<longrightarrow> byte c \<le> 0x9F)
     \<and> (b0 = 0xF0 \<longrightarrow> 0x90 \<le> byte c) \<and> (b0 = 0xF4 \<longrightarrow> byte c \<le> 0x8F)"

text \<open>The number of bytes that a first byte announces; 0 for a byte that cannot come first.\<close>

definition rune_size :: "int \<Rightarrow> nat" where
  "rune_size b0 =
     (if b0 < 0x80 then 1 else if b0 < 0xC2 then 0 else if b0 < 0xE0 then 2
      else if b0 < 0xF0 then 3 else if b0 < 0xF5 then 4 else 0)"

fun well_formed :: "string \<Rightarrow> bool" where
  "well_formed [c0] = True"
| "well_formed [c0, c1] = second_ok (byte c0) c1"
| "well_formed [c0, c1, c2] = (second_ok (byte c0) c1 \<and> cont c2)"
| "well_formed [c0, c1, c2, c3] = (second_ok (byte c0) c1 \<and> cont c2 \<and> cont c3)"
| "well_formed _ = False"

fun rune_value :: "string \<Rightarrow> int" where
  "rune_value [c0] = byte c0"
| "rune_value [c0, c1] = (byte c0 - 0xC0) * 64 + (byte c1 - 0x80)"
| "rune_value [c0, c1, c2] = (byte c0 - 0xE0) * 4096 + (byte c1 - 0x80) * 64 + (byte c2 - 0x80)"
| "rune_value [c0, c1, c2, c3] =
     (byte c0 - 0xF0) * 262144 + (byte c1 - 0x80) * 4096 + (byte c2 - 0x80) * 64 + (byte c3 - 0x80)"
| "rune_value _ = RuneError"

text \<open>The rune at the front and its size: \<open>(RuneError, 0)\<close> for the empty string, \<open>(RuneError, 1)\<close>
  for a malformed encoding.\<close>

definition DecodeRune :: "string \<Rightarrow> int \<times> nat" where
  "DecodeRune s =
     (case s of
        [] \<Rightarrow> (RuneError, 0)
      | c0 # _ \<Rightarrow>
          let n = rune_size (byte c0) in
          if n = 0 \<or> length s < n \<or> \<not> well_formed (take n s) then (RuneError, 1)
          else (rune_value (take n s), n))"

text \<open>A well-formed rune at the front of a string.\<close>

definition good_rune :: "string \<Rightarrow> bool" where
  "good_rune s \<longleftrightarrow> s \<noteq> [] \<and> DecodeRune s \<noteq> (RuneError, 1)"

lemma rune_size_cases:
  "rune_size b = 0 \<or> rune_size b = 1 \<or> rune_size b = 2 \<or> rune_size b = 3 \<or> rune_size b = 4"
  "rune_size b = 1 \<longleftrightarrow> b < 0x80" "rune_size b = Suc 0 \<longleftrightarrow> b < 0x80"
  by (simp_all add: rune_size_def)

lemma DecodeRune_size:
  "s \<noteq> [] \<Longrightarrow> 0 < snd (DecodeRune s) \<and> snd (DecodeRune s) \<le> length s \<and> snd (DecodeRune s) \<le> 4"
  by (cases s) (auto simp: DecodeRune_def Let_def rune_size_def)

lemma DecodeRune_ascii: "byte c < 0x80 \<Longrightarrow> DecodeRune (c # s) = (byte c, 1)"
  by (simp add: DecodeRune_def rune_size_def Let_def)

lemma good_rune_iff:
  "good_rune (c # s) \<longleftrightarrow> rune_size (byte c) \<noteq> 0 \<and> rune_size (byte c) \<le> Suc (length s)
     \<and> well_formed (take (rune_size (byte c)) (c # s))"
  using rune_size_cases(3) [of "byte c"]
  by (cases "rune_size (byte c) = Suc 0") (auto simp: good_rune_def DecodeRune_def Let_def RuneError_def)

lemma good_rune_DecodeRune:
  "good_rune (c # s) \<Longrightarrow> DecodeRune (c # s) = (rune_value (take (rune_size (byte c)) (c # s)), rune_size (byte c))"
  by (auto simp: good_rune_iff DecodeRune_def Let_def)

text \<open>Decoding a good rune only looks at its own bytes.\<close>

lemma DecodeRune_append:
  assumes "good_rune p" shows "DecodeRune (p @ q) = DecodeRune p" "good_rune (p @ q)"
proof -
  obtain c t where p: "p = c # t" using assms by (cases p) (auto simp: good_rune_def)
  then have "take (rune_size (byte c)) (p @ q) = take (rune_size (byte c)) p"
    using assms by (cases "rune_size (byte c)") (auto simp: good_rune_iff)
  then show "good_rune (p @ q)" using assms by (simp add: p good_rune_iff)
  with \<open>take _ (p @ q) = _\<close> show "DecodeRune (p @ q) = DecodeRune p"
    using assms by (simp add: p good_rune_DecodeRune)
qed

text \<open>No byte of a longer rune is ASCII; in particular none is a newline.\<close>

lemma well_formed_bytes:
  "well_formed (c0 # t) \<Longrightarrow> t \<noteq> [] \<Longrightarrow> c \<in> set t \<Longrightarrow> 0x80 \<le> byte c"
  by (cases "c0 # t" rule: well_formed.cases) (auto simp: second_ok_def cont_def)

lemma good_rune_bytes:
  assumes "good_rune s" "1 < snd (DecodeRune s)" "c \<in> set (take (snd (DecodeRune s)) s)"
  shows "0x80 \<le> byte c"
proof -
  obtain c0 t where s: "s = c0 # t" using assms by (cases s) (auto simp: good_rune_def)
  let ?n = "rune_size (byte c0)"
  have n: "snd (DecodeRune s) = ?n" using good_rune_DecodeRune assms(1) s by simp
  with assms(2) have b0: "0x80 \<le> byte c0" and "1 < ?n"
    using rune_size_cases(2) [of "byte c0"] by auto
  then obtain m where "?n = Suc m" "m \<noteq> 0" by (cases ?n) auto
  then show ?thesis
    using assms(1,3) n b0 well_formed_bytes [of c0 "take m t" c]
    by (cases t) (auto simp: s good_rune_iff)
qed

function valid_utf8 :: "string \<Rightarrow> bool" where
  "valid_utf8 s =
     (if s = [] then True
      else if DecodeRune s = (RuneError, 1) then False
      else valid_utf8 (drop (snd (DecodeRune s)) s))"
  by pat_completeness auto
termination
  by (relation "measure length") (auto simp: DecodeRune_size)

declare valid_utf8.simps [simp del]

lemma valid_utf8_Nil [simp]: "valid_utf8 []"
  by (simp add: valid_utf8.simps)

lemma valid_utf8_step:
  "s \<noteq> [] \<Longrightarrow> valid_utf8 s \<longleftrightarrow> good_rune s \<and> valid_utf8 (drop (snd (DecodeRune s)) s)"
  by (subst valid_utf8.simps) (simp add: good_rune_def)

text \<open>Induction over the runes of a valid string.\<close>

lemma valid_utf8_induct [consumes 1, case_names Nil rune]:
  assumes "valid_utf8 s"
    and "P []"
    and "\<And>u s. good_rune u \<Longrightarrow> snd (DecodeRune u) = length u \<Longrightarrow> valid_utf8 s \<Longrightarrow> P s \<Longrightarrow> P (u @ s)"
  shows "P s"
  using assms(1)
proof (induction "length s" arbitrary: s rule: less_induct)
  case less
  show ?case
  proof (cases "s = []")
    case False
    let ?n = "snd (DecodeRune s)"
    have n: "0 < ?n" "?n \<le> length s" using DecodeRune_size [OF False] by auto
    have v: "good_rune s" "valid_utf8 (drop ?n s)" using valid_utf8_step [OF False] less.prems by auto
    have u: "DecodeRune (take ?n s) = DecodeRune s"
    proof -
      obtain c t where s: "s = c # t" using False by (cases s) auto
      have eq: "?n = rune_size (byte c)" using good_rune_DecodeRune v(1) s by simp
      have "rune_size (byte c) \<noteq> 0" using v(1) s by (simp add: good_rune_iff)
      then show ?thesis using v(1) n(2) unfolding eq s
        by (cases "rune_size (byte c)") (auto simp: DecodeRune_def Let_def good_rune_iff)
    qed
    have "good_rune (take ?n s)" using u v(1) n by (simp add: good_rune_def)
    moreover have "P (drop ?n s)" using less.hyps [of "drop ?n s"] v n by simp
    ultimately have "P (take ?n s @ drop ?n s)"
      using u v(2) n by (intro assms(3)) (simp_all del: append_take_drop_id)
    then show ?thesis by simp
  qed (simp add: assms(2))
qed

lemma valid_utf8_rune_append:
  "good_rune u \<Longrightarrow> snd (DecodeRune u) = length u \<Longrightarrow> valid_utf8 (u @ s) \<longleftrightarrow> valid_utf8 s"
  using DecodeRune_append [of u s] valid_utf8_step [of "u @ s"] by (auto simp: good_rune_def)

lemma valid_utf8_append: "valid_utf8 p \<Longrightarrow> valid_utf8 (p @ q) \<longleftrightarrow> valid_utf8 q"
  by (induction p rule: valid_utf8_induct) (simp_all add: valid_utf8_rune_append)

lemma good_rune_ascii: "byte c < 0x80 \<Longrightarrow> good_rune [c] \<and> DecodeRune [c] = (byte c, 1)"
  by (simp add: good_rune_def DecodeRune_ascii RuneError_def)

text \<open>An ASCII byte is always a rune of its own: a valid string splits around it.\<close>

lemma valid_utf8_split_ascii:
  assumes "valid_utf8 s" "s = a @ c # b" "byte c < 0x80"
  shows "valid_utf8 a \<and> valid_utf8 b"
  using assms(1,2)
proof (induction s arbitrary: a rule: valid_utf8_induct)
  case (rune u s)
  have lenu: "u \<noteq> []" using rune.hyps(1) by (simp add: good_rune_def)
  show ?case
  proof (cases "length u \<le> length a")
    case True
    then obtain a' where a: "a = u @ a'" "s = a' @ c # b"
      using rune.prems by (auto simp: append_eq_append_conv2)
    then show ?thesis using rune.IH rune.hyps by (simp add: valid_utf8_rune_append)
  next
    case False
    then obtain r where r: "u = a @ c # r" "b = r @ s"
      using rune.prems by (auto simp: append_eq_append_conv2 append_eq_Cons_conv)
    have "\<not> 1 < length u"
      using good_rune_bytes [OF rune.hyps(1), of c] rune.hyps(2) r assms(3) by fastforce
    then have "a = []" "r = []" using r(1) by auto
    then show ?thesis using r rune.hyps by simp
  qed
qed simp

section \<open>White space (\<open>unicode.IsSpace\<close>, \<open>strings.TrimSpace\<close>)\<close>

definition IsSpace :: "int \<Rightarrow> bool" where
  "IsSpace r \<longleftrightarrow> (9 \<le> r \<and> r \<le> 13) \<or> r = 0x20 \<or> r = 0x85 \<or> r = 0xA0 \<or> r = 0x1680
     \<or> (0x2000 \<le> r \<and> r \<le> 0x200A) \<or> r = 0x2028 \<or> r = 0x2029 \<or> r = 0x202F \<or> r = 0x205F \<or> r = 0x3000"

text \<open>The length of the longest prefix of white space runes.\<close>

function space_prefix :: "string \<Rightarrow> nat" where
  "space_prefix s =
     (if s = [] then 0
      else if IsSpace (fst (DecodeRune s))
      then snd (DecodeRune s) + space_prefix (drop (snd (DecodeRune s)) s)
      else 0)"
  by pat_completeness auto
termination
  by (relation "measure length") (auto simp: DecodeRune_size)

declare space_prefix.simps [simp del]

text \<open>\<open>utf8.DecodeLastRune\<close>: the search for the start of the last rune goes back at most four bytes.\<close>

fun last_rune_start :: "nat \<Rightarrow> string \<Rightarrow> nat \<Rightarrow> nat option" where
  "last_rune_start 0 s i = None"
| "last_rune_start (Suc n) s i =
     (if \<not> (0x80 \<le> byte (s ! i) \<and> byte (s ! i) \<le> 0xBF) then Some i
      else if i = 0 then None else last_rune_start n s (i - 1))"

definition DecodeLastRune :: "string \<Rightarrow> int \<times> nat" where
  "DecodeLastRune s =
     (if s = [] then (RuneError, 0)
      else if byte (last s) < 0x80 then (byte (last s), 1)
      else case last_rune_start 4 s (length s - 1) of
        None \<Rightarrow> (RuneError, 1)
      | Some i \<Rightarrow>
          if i + snd (DecodeRune (drop i s)) \<noteq> length s then (RuneError, 1) else DecodeRune (drop i s))"

lemma DecodeLastRune_size:
  "s \<noteq> [] \<Longrightarrow> 0 < snd (DecodeLastRune s)"
proof -
  assume ne: "s \<noteq> []"
  have lt: "last_rune_start n s i = Some j \<Longrightarrow> i < length s \<Longrightarrow> j < length s" for n i j
    by (induction n s i rule: last_rune_start.induct) (auto split: if_splits)
  show ?thesis
    using ne lt [of 4 "length s - 1"] DecodeRune_size [of "drop _ s"]
    by (auto simp: DecodeLastRune_def split: option.splits)
qed

function trim_space_right :: "string \<Rightarrow> string" where
  "trim_space_right s =
     (if s \<noteq> [] \<and> IsSpace (fst (DecodeLastRune s))
      then trim_space_right (take (length s - snd (DecodeLastRune s)) s)
      else s)"
  by pat_completeness auto
termination
  by (relation "measure length") (use DecodeLastRune_size in fastforce)+

declare trim_space_right.simps [simp del]

definition TrimSpace :: "string \<Rightarrow> string" where
  "TrimSpace s = trim_space_right (drop (space_prefix s) s)"

end
