(* ===== verification/Diff_Strings.thy ===== *)
theory Diff_Strings
  imports Lcs_Two Diff_Unified Utf8
begin

text \<open>
  The entry points of package \<open>diff\<close> (\<open>tools/internal/diff/ndiff.go\<close> and \<open>Unified\<close> of
  \<open>unified.go\<close>): two texts are compared as lines, as bytes or as runes with the algorithm of package
  \<open>lcs\<close>, and its differences become edits of the first text, at byte offsets.  A result is \<open>None\<close>
  where the comparison would not return; \<open>lcs_diff_minimal\<close> shows that it always does, with indices in
  range.  The theorems say that applying the edits gives the second text.
\<close>

section \<open>Runes\<close>

text \<open>\<open>utf8.RuneLen\<close> and the encoding of one rune.\<close>

definition RuneLen :: "int \<Rightarrow> int" where
  "RuneLen r =
     (if r < 0 then -1 else if r \<le> 0x7F then 1 else if r \<le> 0x7FF then 2
      else if 0xD800 \<le> r \<and> r \<le> 0xDFFF then -1 else if r \<le> 0xFFFF then 3
      else if r \<le> 0x10FFFF then 4 else -1)"

definition encode_rune :: "int \<Rightarrow> string" where
  "encode_rune r0 = (let r = (if RuneLen r0 = -1 then RuneError else r0) in
     if r \<le> 0x7F then [char_of r]
     else if r \<le> 0x7FF then [char_of (0xC0 + r div 64), char_of (0x80 + r mod 64)]
     else if r \<le> 0xFFFF then
       [char_of (0xE0 + r div 4096), char_of (0x80 + r div 64 mod 64), char_of (0x80 + r mod 64)]
     else [char_of (0xF0 + r div 262144), char_of (0x80 + r div 4096 mod 64),
           char_of (0x80 + r div 64 mod 64), char_of (0x80 + r mod 64)])"

text \<open>The conversions \<open>[]rune(s)\<close> and \<open>string(rs)\<close>.\<close>

function to_runes :: "string \<Rightarrow> int list" where
  "to_runes s =
     (if s = [] then []
      else let (r, sz) = DecodeRune s in r # to_runes (drop sz s))"
  by pat_completeness auto
termination
proof (relation "measure length", simp)
  fix s p r sz
  assume "s \<noteq> []" "p = DecodeRune s" "(r, sz) = p"
  then have "0 < sz" "s \<noteq> []" using DecodeRune_size [of s] by (metis snd_conv)+
  then show "(drop sz s, s) \<in> measure length" by simp
qed

declare to_runes.simps [simp del]

definition of_runes :: "int list \<Rightarrow> string" where
  "of_runes rs = concat (map encode_rune rs)"

text \<open>A byte is determined by its number.\<close>

lemma byte_inject: "byte c = byte d \<longleftrightarrow> c = d"
  by (metis of_char_eq_iff)

lemma char_of_byte: "char_of (k :: int) = c \<longleftrightarrow> byte c = k mod 256"
  by (metis byte_inject of_char_of)

lemma byte_bounds: "0 \<le> byte c" "byte c < 256"
proof -
  have "byte c = byte c mod 256" by (simp add: of_char_mod_256)
  then show "0 \<le> byte c" "byte c < 256" by presburger+
qed

text \<open>The six bits of a continuation byte.\<close>

lemma six_bits:
  assumes "0 \<le> q" "q < 64"
  shows "(p * 64 + q) div 64 = p" "(p * 64 + q) mod 64 = (q :: int)"
  using assms by simp_all

lemma div_64: "r div 4096 = r div 64 div 64" "r div 262144 = r div 64 div 64 div (64 :: int)"
  by (simp_all flip: zdiv_zmult2_eq)

lemma encode_two:
  assumes "0xC2 \<le> byte c0" "byte c0 < 0xE0" "cont c1"
  shows "encode_rune (rune_value [c0, c1]) = [c0, c1] \<and> RuneLen (rune_value [c0, c1]) = 2"
proof -
  define p q where "p = byte c0 - 0xC0" and "q = byte c1 - 0x80"
  have b: "byte c0 = p + 0xC0" "byte c1 = q + 0x80" "2 \<le> p" "p < 32" "0 \<le> q" "q < 64"
    using assms by (simp_all add: p_def q_def cont_def)
  have r: "rune_value [c0, c1] = p * 64 + q" by (simp add: b)
  have "(p * 64 + q) div 64 = p" "(p * 64 + q) mod 64 = q" using b by simp_all
  then show ?thesis using b unfolding r by (simp add: encode_rune_def RuneLen_def char_of_byte)
qed

lemma encode_three:
  assumes "0xE0 \<le> byte c0" "byte c0 < 0xF0" "second_ok (byte c0) c1" "cont c2"
  shows "encode_rune (rune_value [c0, c1, c2]) = [c0, c1, c2] \<and> RuneLen (rune_value [c0, c1, c2]) = 3"
proof -
  define p q s where "p = byte c0 - 0xE0" and "q = byte c1 - 0x80" and "s = byte c2 - 0x80"
  have b: "byte c0 = p + 0xE0" "byte c1 = q + 0x80" "byte c2 = s + 0x80" "0 \<le> p" "p < 16" "0 \<le> q" "q < 64" "0 \<le> s" "s < 64"
    "p = 0 \<longrightarrow> 32 \<le> q" "p = 13 \<longrightarrow> q < 32"
    using assms by (auto simp: p_def q_def s_def cont_def second_ok_def)
  let ?r = "(p * 64 + q) * 64 + s"
  have r: "rune_value [c0, c1, c2] = ?r" by (simp add: b)
  have d: "?r div 4096 = p" "?r div 64 mod 64 = q" "?r mod 64 = s"
    using b(6-9) by (simp_all only: div_64 six_bits)
  consider "p = 0" | "1 \<le> p" "p < 13" | "p = 13" | "14 \<le> p" using b(4) by linarith
  then have "0x7FF < ?r" "?r \<le> 0xFFFF" "\<not> (0xD800 \<le> ?r \<and> ?r \<le> 0xDFFF)"
    using b(4-11) by (cases; simp)+
  then show ?thesis using b d unfolding r encode_rune_def RuneLen_def Let_def by (simp del: distrib_right_numeral add: char_of_byte)
qed

lemma encode_four:
  assumes "0xF0 \<le> byte c0" "byte c0 < 0xF5" "second_ok (byte c0) c1" "cont c2" "cont c3"
  shows "encode_rune (rune_value [c0, c1, c2, c3]) = [c0, c1, c2, c3] \<and> RuneLen (rune_value [c0, c1, c2, c3]) = 4"
proof -
  define p q s t where "p = byte c0 - 0xF0" and "q = byte c1 - 0x80" and "s = byte c2 - 0x80" and "t = byte c3 - 0x80"
  have b: "byte c0 = p + 0xF0" "byte c1 = q + 0x80" "byte c2 = s + 0x80" "byte c3 = t + 0x80"
    "0 \<le> p" "p < 5" "0 \<le> q" "q < 64" "0 \<le> s" "s < 64" "0 \<le> t" "t < 64"
    "p = 0 \<longrightarrow> 16 \<le> q" "p = 4 \<longrightarrow> q < 16"
    using assms by (auto simp: p_def q_def s_def t_def cont_def second_ok_def)
  let ?r = "((p * 64 + q) * 64 + s) * 64 + t"
  have r: "rune_value [c0, c1, c2, c3] = ?r" by (simp add: b)
  have d: "?r div 262144 = p" "?r div 4096 mod 64 = q" "?r div 64 mod 64 = s" "?r mod 64 = t"
    using b(7-12) by (simp_all only: div_64 six_bits)
  consider "p = 0" | "1 \<le> p" "p < 4" | "p = 4" using b(5,6) by linarith
  then have "0xFFFF < ?r" "?r \<le> 0x10FFFF" using b(5-14) by (cases; simp)+
  then show ?thesis using b d unfolding r encode_rune_def RuneLen_def Let_def by (simp del: distrib_right_numeral add: char_of_byte)
qed

text \<open>Encoding the rune at the front of a string gives its bytes back.\<close>

lemma encode_decode:
  assumes "good_rune u" "snd (DecodeRune u) = length u"
  shows "encode_rune (fst (DecodeRune u)) = u \<and> RuneLen (fst (DecodeRune u)) = int (length u)"
proof -
  obtain c0 t where u: "u = c0 # t" using assms(1) by (cases u) (auto simp: good_rune_def)
  have n: "rune_size (byte c0) = length u" "well_formed u" "fst (DecodeRune u) = rune_value u"
    using assms good_rune_DecodeRune [of c0 t] unfolding u by (auto simp: good_rune_iff)
  consider "t = []" "byte c0 < 0x80" | c1 where "t = [c1]" | c1 c2 where "t = [c1, c2]" | c1 c2 c3 where "t = [c1, c2, c3]"
    using n(1,2) u by (cases u rule: well_formed.cases) (auto simp: rune_size_def split: if_splits)
  then show ?thesis
  proof cases
    case 1
    then show ?thesis using n(3) byte_bounds [of c0] by (simp add: u encode_rune_def RuneLen_def char_of_byte)
  next
    case (2 c1)
    then show ?thesis using n encode_two [of c0 c1] by (auto simp: u rune_size_def second_ok_def split: if_splits)
  next
    case (3 c1 c2)
    then show ?thesis using n encode_three [of c0 c1 c2] by (auto simp: u rune_size_def split: if_splits)
  next
    case (4 c1 c2 c3)
    then show ?thesis using n encode_four [of c0 c1 c2 c3] by (auto simp: u rune_size_def split: if_splits)
  qed
qed

lemma to_runes_Nil [simp]: "to_runes [] = []"
  by (simp add: to_runes.simps)

lemma to_runes_rune:
  "good_rune u \<Longrightarrow> snd (DecodeRune u) = length u \<Longrightarrow> to_runes (u @ s) = fst (DecodeRune u) # to_runes s"
  using DecodeRune_append [of u s] by (subst to_runes.simps) (auto simp: good_rune_def split: prod.splits)

text \<open>The runes of valid text encode to the text, each to as many bytes as \<open>RuneLen\<close> says.\<close>

lemma to_runes_valid:
  "valid_utf8 s \<Longrightarrow> of_runes (to_runes s) = s \<and> (\<forall>r \<in> set (to_runes s). RuneLen r = int (length (encode_rune r))
     \<and> valid_utf8 (encode_rune r))"
  by (induction s rule: valid_utf8_induct)
    (auto simp: of_runes_def to_runes_rune encode_decode valid_utf8_rune_append [of _ "[]", simplified])

section \<open>Edits from differences\<close>

definition isASCII :: "string \<Rightarrow> bool" where
  "isASCII s \<longleftrightarrow> (\<forall>c \<in> set s. byte c < 0x80)"

definition diffASCII :: "string \<Rightarrow> string \<Rightarrow> edit list option" where
  "diffASCII before after = do {
     diffs \<leftarrow> lcs_diff before after;
     Some (map (\<lambda>d. mk_edit (df_Start d) (df_End d) (slice (nat (df_ReplStart d)) (nat (df_ReplEnd d)) after)) diffs) }"

definition runesLen :: "int list \<Rightarrow> int" where
  "runesLen rs = foldl (\<lambda>n r. n + RuneLen r) 0 rs"

fun rune_edits :: "int list \<Rightarrow> int list \<Rightarrow> int \<Rightarrow> int \<Rightarrow> Diff list \<Rightarrow> edit list" where
  "rune_edits before after lastEnd utf8Len [] = []"
| "rune_edits before after lastEnd utf8Len (d # diffs) =
     (let start = utf8Len + runesLen (slice (nat lastEnd) (nat (df_Start d)) before);
          end = start + runesLen (slice (nat (df_Start d)) (nat (df_End d)) before)
      in mk_edit start end (of_runes (slice (nat (df_ReplStart d)) (nat (df_ReplEnd d)) after))
         # rune_edits before after (df_End d) end diffs)"

definition diffRunes :: "int list \<Rightarrow> int list \<Rightarrow> edit list option" where
  "diffRunes before after = do {
     diffs \<leftarrow> lcs_diff before after;
     Some (rune_edits before after 0 0 diffs) }"

definition Strings :: "string \<Rightarrow> string \<Rightarrow> edit list option" where
  "Strings before after =
     (if before = after then Some []
      else if isASCII before \<and> isASCII after then diffASCII before after
      else diffRunes (to_runes before) (to_runes after))"

text \<open>\<open>runes\<close> calls \<open>utf8.DecodeRune\<close> as often as \<open>utf8.RuneCount\<close> says.\<close>

fun runes_loop :: "nat \<Rightarrow> string \<Rightarrow> int list" where
  "runes_loop 0 bytes = []"
| "runes_loop (Suc n) bytes = (let (r, sz) = DecodeRune bytes in r # runes_loop n (drop sz bytes))"

function RuneCount :: "string \<Rightarrow> nat" where
  "RuneCount s = (if s = [] then 0 else Suc (RuneCount (drop (snd (DecodeRune s)) s)))"
  by pat_completeness auto
termination
  by (relation "measure length") (auto simp: DecodeRune_size)

declare RuneCount.simps [simp del]

definition runes :: "string \<Rightarrow> int list" where
  "runes bytes = runes_loop (RuneCount bytes) bytes"

definition Bytes :: "string \<Rightarrow> string \<Rightarrow> edit list option" where
  "Bytes before after =
     (if before = after then Some []
      else if isASCII before \<and> isASCII after then diffASCII before after
      else diffRunes (runes before) (runes after))"

definition Lines :: "string \<Rightarrow> string \<Rightarrow> edit list option" where
  "Lines before after =
     (let (beforeLines, bOffsets) = splitLines before; (afterLines, _) = splitLines after in do {
        diffs \<leftarrow> lcs_diff beforeLines afterLines;
        Some (map (\<lambda>d. mk_edit (int (bOffsets ! nat (df_Start d))) (int (bOffsets ! nat (df_End d)))
                     (concat (slice (nat (df_ReplStart d)) (nat (df_ReplEnd d)) afterLines))) diffs) })"

definition DefaultContextLines :: int where "DefaultContextLines = 3"

text \<open>\<open>Unified\<close> ends the process with \<open>log.Fatalf\<close> where \<open>ToUnified\<close> fails.\<close>

definition Unified :: "string \<Rightarrow> string \<Rightarrow> string \<Rightarrow> string \<Rightarrow> (diff_error, string) outcome option" where
  "Unified oldLabel newLabel old new = do {
     edits \<leftarrow> Strings old new;
     Some (case ToUnified oldLabel newLabel old edits DefaultContextLines of
             Ok unified \<Rightarrow> Ok unified
           | _ \<Rightarrow> Panic) }"

section \<open>The edits are right\<close>

text \<open>All three conversions are instances of one: the elements of the compared sequences stand for pieces of
  text, and \<open>offset\<close> is the number of bytes before an element.\<close>

definition offset :: "('a \<Rightarrow> string) \<Rightarrow> 'a list \<Rightarrow> int \<Rightarrow> int" where
  "offset f a i = int (length (concat (map f (take (nat i) a))))"

definition piece_edit :: "('a \<Rightarrow> string) \<Rightarrow> 'a list \<Rightarrow> 'a list \<Rightarrow> Diff \<Rightarrow> edit" where
  "piece_edit f a b d = mk_edit (offset f a (df_Start d)) (offset f a (df_End d))
     (concat (map f (slice (nat (df_ReplStart d)) (nat (df_ReplEnd d)) b)))"

lemma offset_0 [simp]: "offset f a 0 = 0"
  by (simp add: offset_def)

lemma offset_nonneg [simp]: "0 \<le> offset f a i"
  by (simp add: offset_def)

lemma offset_add:
  assumes "i \<le> j"
  shows "offset f a j = offset f a i + int (length (concat (map f (slice (nat i) (nat j) a))))"
proof -
  have "concat (map f (take (nat j) a)) = concat (map f (take (nat i) a)) @ concat (map f (slice (nat i) (nat j) a))"
    using take_append_nat_slice [OF assms, of a] by (metis concat_append map_append)
  then show ?thesis by (simp add: offset_def)
qed

lemma offset_mono: "i \<le> j \<Longrightarrow> offset f a i \<le> offset f a j"
  using offset_add [of i j f a] by simp

lemma offset_le: "offset f a i \<le> int (length (concat (map f a)))"
proof -
  have "concat (map f a) = concat (map f (take (nat i) a)) @ concat (map f (drop (nat i) a))"
    by (metis append_take_drop_id concat_append map_append)
  then show ?thesis by (simp add: offset_def)
qed

lemma take_offset: "take (nat (offset f a i)) (concat (map f a)) = concat (map f (take (nat i) a))"
proof -
  have "concat (map f a) = concat (map f (take (nat i) a)) @ concat (map f (drop (nat i) a))"
    by (metis append_take_drop_id concat_append map_append)
  then show ?thesis by (simp add: offset_def)
qed

lemma drop_offset: "drop (nat (offset f a i)) (concat (map f a)) = concat (map f (drop (nat i) a))"
proof -
  have "concat (map f a) = concat (map f (take (nat i) a)) @ concat (map f (drop (nat i) a))"
    by (metis append_take_drop_id concat_append map_append)
  then show ?thesis by (simp add: offset_def)
qed

lemma slice_offset:
  assumes "i \<le> j"
  shows "slice (nat (offset f a i)) (nat (offset f a j)) (concat (map f a)) = concat (map f (slice (nat i) (nat j) a))"
proof -
  have "take (nat (offset f a i)) (concat (map f a)) @ slice (nat (offset f a i)) (nat (offset f a j)) (concat (map f a))
      = concat (map f (take (nat i) a)) @ concat (map f (slice (nat i) (nat j) a))"
    using take_append_nat_slice [OF offset_mono [OF assms], of f a "concat (map f a)"]
      take_append_nat_slice [OF assms, of a] by (metis concat_append map_append take_offset)
  then show ?thesis by (simp add: take_offset)
qed

lemma piece_edits_patch:
  assumes "rewritten a b pa pb ds"
  shows "ok_edits (int (length (concat (map f a)))) (offset f a pa) (map (piece_edit f a b) ds)
    \<and> patch (concat (map f a)) (offset f a pa) (map (piece_edit f a b) ds) = concat (map f (drop (nat pb) b))"
  using assms
proof (induction ds arbitrary: pa pb)
  case Nil
  then show ?case by (simp add: drop_offset)
next
  case (Cons d ds)
  let ?s = "df_Start d" and ?e = "df_End d" and ?rs = "df_ReplStart d" and ?re = "df_ReplEnd d"
  have d: "pa \<le> ?s" "?s \<le> ?e" "pb \<le> ?rs" "?rs \<le> ?re"
    "slice (nat pa) (nat ?s) a = slice (nat pb) (nat ?rs) b" "rewritten a b ?e ?re ds"
    using Cons.prems by simp_all
  note IH = Cons.IH [OF d(6)]
  have "drop (nat pb) b = slice (nat pb) (nat ?rs) b @ slice (nat ?rs) (nat ?re) b @ drop (nat ?re) b"
    using slice_append_nat_drop [OF d(3), of b] slice_append_nat_drop [OF d(4), of b] by simp
  then have "concat (map f (drop (nat pb) b)) = concat (map f (slice (nat pa) (nat ?s) a))
      @ concat (map f (slice (nat ?rs) (nat ?re) b)) @ concat (map f (drop (nat ?re) b))"
    using d(5) by simp
  then show ?case
    using IH offset_mono [OF d(1), of f a] offset_mono [OF d(2), of f a] offset_le [of f a ?e]
    by (simp add: piece_edit_def slice_offset [OF d(1)])
qed

lemma piece_edits_Apply:
  assumes "rewritten a b 0 0 ds"
  shows "Apply (concat (map f a)) (map (piece_edit f a b) ds) = Ok (concat (map f b))"
proof -
  note p = piece_edits_patch [OF assms, of f, simplified]
  then show ?thesis using ok_edits_SortEdits [OF conjunct1 [OF p]] by (simp add: Apply_patch)
qed

lemma slice_map: "slice i j (map f xs) = map f (slice i j xs)"
  by (simp add: slice_def take_map drop_map)

lemma concat_singles [simp]: "concat (map (\<lambda>c. [c]) s) = s"
  by (induction s) simp_all

lemma diffASCII_edits:
  assumes "lcs_diff a b = Some ds" "rewritten a b 0 0 ds"
  shows "diffASCII a b = Some (map (piece_edit (\<lambda>c. [c]) a b) ds)"
proof -
  have "offset (\<lambda>c. [c]) a i = i" if "0 \<le> i" "i \<le> int (length a)" for i
    using that by (simp add: offset_def)
  moreover have "0 \<le> df_Start d \<and> df_Start d \<le> df_End d \<and> df_End d \<le> int (length a)" if "d \<in> set ds" for d
    using rewritten_bounds [OF assms(2) _ _ that] by simp
  ultimately have "piece_edit (\<lambda>c. [c]) a b d
      = mk_edit (df_Start d) (df_End d) (slice (nat (df_ReplStart d)) (nat (df_ReplEnd d)) b)" if "d \<in> set ds" for d
    using that by (force simp: piece_edit_def)
  then show ?thesis using assms(1) by (simp add: diffASCII_def)
qed

lemma runesLen_sum:
  assumes "\<forall>r \<in> set rs. RuneLen r = int (length (encode_rune r))"
  shows "runesLen rs = int (length (of_runes rs))"
proof -
  have "(\<forall>r \<in> set rs. RuneLen r = int (length (encode_rune r))) \<Longrightarrow>
      foldl (\<lambda>n r. n + RuneLen r) n rs = n + int (length (of_runes rs))" for n
    by (induction rs arbitrary: n) (simp_all add: of_runes_def)
  then show ?thesis using assms by (simp add: runesLen_def)
qed

lemma rune_edits_pieces:
  assumes "\<forall>r \<in> set a. RuneLen r = int (length (encode_rune r))" "rewritten a b pa pb ds"
  shows "rune_edits a b pa (offset encode_rune a pa) ds = map (piece_edit encode_rune a b) ds"
  using assms(2)
proof (induction ds arbitrary: pa pb)
  case (Cons d ds)
  have len: "runesLen (slice i j a) = int (length (concat (map encode_rune (slice i j a))))" for i j
    using runesLen_sum [of "slice i j a"] assms(1) unfolding of_runes_def slice_def
    by (meson in_set_dropD in_set_takeD)
  have d: "pa \<le> df_Start d" "df_Start d \<le> df_End d" "rewritten a b (df_End d) (df_ReplEnd d) ds" using Cons.prems by simp_all
  show ?case
    using Cons.IH [OF d(3)]
    by (simp add: len piece_edit_def of_runes_def offset_add [OF d(1), of encode_rune a] offset_add [OF d(2), of encode_rune a] Let_def)
qed simp

text \<open>A text is split after a rune: both halves are valid.\<close>

lemma valid_of_runes:
  "\<forall>r \<in> set rs. valid_utf8 (encode_rune r) \<Longrightarrow> valid_utf8 (of_runes rs)"
  by (induction rs) (simp_all add: of_runes_def valid_utf8_append)

definition rune_edit :: "string \<Rightarrow> edit \<Rightarrow> bool" where
  "rune_edit src e \<longleftrightarrow> valid_utf8 (take (nat (e_Start e)) src) \<and> valid_utf8 (take (nat (e_End e)) src) \<and> valid_utf8 (e_New e)"

lemma isASCII_valid: "isASCII s \<Longrightarrow> valid_utf8 s"
proof (induction s)
  case (Cons c s)
  then show ?case using good_rune_ascii [of c] valid_utf8_rune_append [of "[c]" s] by (simp add: isASCII_def)
qed simp

lemma isASCII_take: "isASCII s \<Longrightarrow> isASCII (take n s)" "isASCII s \<Longrightarrow> isASCII (slice i j s)"
  by (auto simp: isASCII_def slice_def dest: in_set_takeD in_set_dropD)

lemma diffASCII_Apply:
  assumes "isASCII a" "isASCII b"
  shows "\<exists>es. diffASCII a b = Some es \<and> Apply a es = Ok b \<and> (\<forall>e \<in> set es. rune_edit a e)"
proof -
  obtain ds where ds: "lcs_diff a b = Some ds" "rewritten a b 0 0 ds" using lcs_diff_minimal [of a b] by blast
  have "rune_edit a (piece_edit (\<lambda>c. [c]) a b d)" for d
    using assms by (simp add: rune_edit_def piece_edit_def isASCII_valid isASCII_take)
  then show ?thesis using diffASCII_edits [OF ds] piece_edits_Apply [OF ds(2), of "\<lambda>c. [c]"] by auto
qed

lemma diffRunes_Apply:
  assumes "valid_utf8 a" "valid_utf8 b"
  shows "\<exists>es. diffRunes (to_runes a) (to_runes b) = Some es \<and> Apply a es = Ok b \<and> (\<forall>e \<in> set es. rune_edit a e)"
proof -
  let ?a = "to_runes a" and ?b = "to_runes b"
  obtain ds where ds: "lcs_diff ?a ?b = Some ds" "rewritten ?a ?b 0 0 ds" using lcs_diff_minimal by blast
  note va = to_runes_valid [OF assms(1)] and vb = to_runes_valid [OF assms(2)]
  have a: "concat (map encode_rune ?a) = a" and b: "concat (map encode_rune ?b) = b" using va vb by (simp_all add: of_runes_def)
  have t: "take (nat (offset encode_rune ?a i)) a = of_runes (take (nat i) ?a)" for i
    using take_offset [of encode_rune ?a i] unfolding a of_runes_def .
  have "rune_edit a (piece_edit encode_rune ?a ?b d)" for d
  proof -
    have "valid_utf8 (of_runes (take n ?a))" "valid_utf8 (of_runes (slice i j ?b))" for n i j
      using va vb by (auto intro!: valid_of_runes simp: slice_def dest: in_set_takeD in_set_dropD)
    then show ?thesis by (simp add: rune_edit_def piece_edit_def t flip: of_runes_def)
  qed
  moreover have "diffRunes ?a ?b = Some (map (piece_edit encode_rune ?a ?b) ds)"
    using rune_edits_pieces [OF _ ds(2)] va ds(1) by (simp add: diffRunes_def)
  moreover have "Apply a (map (piece_edit encode_rune ?a ?b) ds) = Ok b"
    using piece_edits_Apply [OF ds(2), of encode_rune] unfolding a b .
  ultimately show ?thesis by auto
qed

lemma runes_to_runes: "runes s = to_runes s"
proof -
  have "runes_loop (RuneCount s) s = to_runes s"
  proof (induction s rule: RuneCount.induct)
    case (1 s)
    then show ?case
      by (cases "s = []") (simp_all add: RuneCount.simps [of s] RuneCount.simps [of "[]"] to_runes.simps [of s] split_beta)
  qed
  then show ?thesis by (simp add: runes_def)
qed

lemma Strings_Apply:
  assumes "valid_utf8 a" "valid_utf8 b"
  shows "\<exists>es. Strings a b = Some es \<and> Apply a es = Ok b \<and> (\<forall>e \<in> set es. rune_edit a e)"
proof -
  have "Apply a [] = Ok a" by (simp add: Apply_patch SortEdits_def)
  then show ?thesis using diffASCII_Apply [of a b] diffRunes_Apply [OF assms] by (auto simp: Strings_def)
qed

section \<open>Whole lines\<close>

lemma line_offsets_nth:
  "i \<le> length ls \<Longrightarrow> line_offsets n ls ! i = n + length (concat (take i ls))"
  by (induction ls arbitrary: n i) (auto simp: nth_Cons' take_Cons')

lemma offset_line:
  assumes "0 \<le> i" "i \<le> int (length (split_lines s))"
  shows "int (line_offsets 0 (split_lines s) ! nat i) = offset id (split_lines s) i"
  using assms by (simp add: line_offsets_nth offset_def)

lemma split_lines_terminated:
  "i < length (split_lines s) \<Longrightarrow> split_lines s ! i \<noteq> [] \<and> (Suc i < length (split_lines s) \<longrightarrow> last (split_lines s ! i) = NL)"
proof (induction s arbitrary: i)
  case (Cons c s)
  show ?case
  proof (cases "c = NL")
    case True
    then show ?thesis using Cons by (cases i) auto
  next
    case False
    then show ?thesis using Cons.prems Cons.IH [of i] by (cases "split_lines s"; cases i) auto
  qed
qed simp

lemma boundary_offset: "boundary s (offset id (split_lines s) i)"
proof -
  let ?ls = "split_lines s" and ?k = "length (concat (take (nat i) (split_lines s)))"
  consider "nat i = 0" | "length ?ls \<le> nat i" | j where "nat i = Suc j" "Suc j < length ?ls"
    by (metis not_less old.nat.exhaust)
  then show ?thesis
  proof cases
    case (3 j)
    then have l: "?ls ! j \<noteq> []" "last (?ls ! j) = NL" using split_lines_terminated [of j s] by auto
    have t: "take ?k s = concat (take j ?ls) @ ?ls ! j"
      using take_offset [of id ?ls i] 3 by (simp add: offset_def take_Suc_conv_app_nth flip: of_nat_add)
    then have "take ?k s \<noteq> []" "last (take ?k s) = NL" using l by auto
    moreover have "?k \<le> length s" using offset_le [of id ?ls i] by (simp add: offset_def)
    ultimately have "0 < ?k" "s ! (?k - 1) = NL" by (auto simp: last_conv_nth min_absorb2)
    then show ?thesis using \<open>?k \<le> length s\<close> by (simp add: boundary_def line_start_def offset_def)
  qed (auto simp: boundary_def line_start_def offset_def)
qed

lemma Lines_Apply:
  "\<exists>es. Lines a b = Some es \<and> Apply a es = Ok b \<and> (\<forall>e \<in> set es. boundary a (e_Start e) \<and> boundary a (e_End e))"
proof -
  let ?a = "split_lines a" and ?b = "split_lines b"
  obtain ds where ds: "lcs_diff ?a ?b = Some ds" "rewritten ?a ?b 0 0 ds" using lcs_diff_minimal by blast
  have "mk_edit (int (line_offsets 0 ?a ! nat (df_Start d))) (int (line_offsets 0 ?a ! nat (df_End d)))
      (concat (slice (nat (df_ReplStart d)) (nat (df_ReplEnd d)) ?b)) = piece_edit id ?a ?b d" if "d \<in> set ds" for d
    using rewritten_bounds [OF ds(2) _ _ that] by (simp add: piece_edit_def offset_line)
  then have "Lines a b = Some (map (piece_edit id ?a ?b) ds)" using ds(1) by (simp add: Lines_def splitLines_def)
  moreover have "Apply a (map (piece_edit id ?a ?b) ds) = Ok b" using piece_edits_Apply [OF ds(2), of id] by simp
  ultimately show ?thesis by (auto simp: piece_edit_def boundary_offset)
qed

section \<open>What callers rely on\<close>

text \<open>Claim C5: for valid UTF-8 texts, \<open>Strings\<close> returns edits that \<open>Apply\<close> turns the first text into the
  second with; each edit begins and ends at a rune boundary and inserts whole runes.  \<open>Bytes\<close> gives the same
  edits.\<close>

theorem Strings_roundtrip:
  assumes "valid_utf8 a" "valid_utf8 b"
  shows "\<exists>es. Strings a b = Some es \<and> Bytes a b = Some es \<and> Apply a es = Ok b \<and> (\<forall>e \<in> set es. rune_edit a e)"
proof -
  have "Bytes a b = Strings a b" by (simp add: Bytes_def Strings_def runes_to_runes)
  then show ?thesis using Strings_Apply [OF assms] by auto
qed

text \<open>The two bytes of an e with an acute accent.\<close>

definition e_acute :: string where "e_acute = [char_of (0xC3 :: nat), char_of (0xA9 :: nat)]"

theorem Strings_roundtrip_witness:
  "valid_utf8 (e_acute @ ''t'') \<and> valid_utf8 (e_acute @ ''s'')
   \<and> Strings (e_acute @ ''t'') (e_acute @ ''s'') = Some [mk_edit 2 3 ''s'']
   \<and> Apply (e_acute @ ''t'') [mk_edit 2 3 ''s''] = Ok (e_acute @ ''s'')"
proof -
  have v: "valid_utf8 (e_acute @ ''t'')" "valid_utf8 (e_acute @ ''s'')" by code_simp+
  have s: "Strings (e_acute @ ''t'') (e_acute @ ''s'') = Some [mk_edit 2 3 ''s'']" by code_simp
  show ?thesis using Strings_roundtrip [OF v] v s by auto
qed

text \<open>For all texts, valid or not, \<open>Lines\<close> returns edits that \<open>Apply\<close> turns the first text into
  the second with, and that begin and end at line boundaries.\<close>

theorem Lines_roundtrip:
  "\<exists>es. Lines a b = Some es \<and> Apply a es = Ok b \<and> (\<forall>e \<in> set es. boundary a (e_Start e) \<and> boundary a (e_End e))"
  by (rule Lines_Apply)

theorem Lines_roundtrip_witness:
  "Lines (''a'' @ NL # ''b'') (''a'' @ NL # ''c'') = Some [mk_edit 2 3 ''c'']
   \<and> Apply (''a'' @ NL # ''b'') [mk_edit 2 3 ''c''] = Ok (''a'' @ NL # ''c'') \<and> boundary (''a'' @ NL # ''b'') 2"
proof -
  have l: "Lines (''a'' @ NL # ''b'') (''a'' @ NL # ''c'') = Some [mk_edit 2 3 ''c'']" by code_simp
  show ?thesis using Lines_roundtrip [of "''a'' @ NL # ''b''" "''a'' @ NL # ''c''"] l by auto
qed

text \<open>Claim C6: for valid UTF-8 texts, \<open>Unified\<close> returns a diff; it is empty for equal texts, and otherwise
  it is the printed form of hunks that, run on the lines of the old text, give the new one.\<close>

theorem Unified_patches:
  assumes "valid_utf8 old" "valid_utf8 new"
  shows "\<exists>u. Unified oldLabel newLabel old new = Some (Ok (unified_String u))
     \<and> map_option concat (patch_lines (split_lines old) (u_hunks u)) = Some new
     \<and> (old = new \<longrightarrow> unified_String u = [])"
proof (cases "old = new")
  case True
  then have "Unified oldLabel newLabel old new = Some (Ok (unified_String \<lparr>u_from = oldLabel, u_to = newLabel, u_hunks = []\<rparr>))"
    by (simp add: Unified_def Strings_def ToUnified_def toUnified_def)
  then show ?thesis using True
    by (intro exI [of _ "\<lparr>u_from = oldLabel, u_to = newLabel, u_hunks = []\<rparr>"]) (simp add: patch_lines_def unified_String_def)
next
  case False
  obtain es where es: "Strings old new = Some es" "Apply old es = Ok new" using Strings_Apply [OF assms] by blast
  have ne: "es \<noteq> []" using es(2) False by (auto simp: Apply_patch SortEdits_def)
  obtain es' where "lineEdits old es = Ok es'"
    using lineEdits_total [of old es] es(2) by (cases "lineEdits old es") auto
  then obtain u where u: "toUnified oldLabel newLabel old es DefaultContextLines = Ok u"
    using ne by (simp add: toUnified_def Let_def)
  have "map_option concat (patch_lines (split_lines old) (u_hunks u)) = Some new"
    using toUnified_Ok(2) [OF u _ ne] es(2) by (simp add: DefaultContextLines_def Apply_patch)
  moreover have "Unified oldLabel newLabel old new = Some (Ok (unified_String u))"
    using es(1) u by (simp add: Unified_def ToUnified_def)
  ultimately show ?thesis using False by blast
qed

theorem Unified_patches_witness:
  "Unified ''a'' ''b'' (''x'' @ [NL]) (''y'' @ [NL])
     = Some (Ok (''--- a'' @ NL # ''+++ b'' @ NL # ''@@ -1 +1 @@'' @ NL # ''-x'' @ NL # ''+y'' @ [NL]))
   \<and> (\<exists>u :: unified. map_option concat (patch_lines (split_lines (''x'' @ [NL])) (u_hunks u)) = Some (''y'' @ [NL]))"
proof -
  have v: "valid_utf8 (''x'' @ [NL])" "valid_utf8 (''y'' @ [NL])" by code_simp+
  have e: "Unified ''a'' ''b'' (''x'' @ [NL]) (''y'' @ [NL])
     = Some (Ok (''--- a'' @ NL # ''+++ b'' @ NL # ''@@ -1 +1 @@'' @ NL # ''-x'' @ NL # ''+y'' @ [NL]))" by code_simp
  from Unified_patches [OF v, of "''a''" "''b''"] obtain u :: unified where
    "map_option concat (patch_lines (split_lines (''x'' @ [NL])) (u_hunks u)) = Some (''y'' @ [NL])" by (elim exE conjE)
  with e show ?thesis by (intro conjI exI)
qed

text \<open>For text that is not valid UTF-8 the offsets are wrong: \<open>runesLen\<close> counts three bytes for the
  replacement rune that stands for one invalid byte.  The edit ends beyond the text, and \<open>Unified\<close> ends the
  process.\<close>

lemma Strings_invalid_utf8:
  "Strings [char_of (255 :: nat)] ''a'' = Some [mk_edit 0 3 ''a'']
   \<and> Apply [char_of (255 :: nat)] [mk_edit 0 3 ''a''] = Err OutOfBounds
   \<and> Unified ''a'' ''b'' [char_of (255 :: nat)] ''a'' = Some Panic"
  by code_simp

end
