(* ===== verification/Persistent_Map.thy ===== *)
theory Persistent_Map
  imports Go_Prelude "HOL-Library.Word"
begin

text \<open>
  The persistent treap of \<open>gopls/internal/util/persistent/map.go\<close>: \<open>Get\<close>, \<open>Set\<close>, \<open>SetAll\<close>,
  \<open>Delete\<close>, \<open>Clone\<close>, \<open>Clear\<close>, \<open>Keys\<close> and \<open>All\<close> over \<open>union\<close>, \<open>split\<close> and \<open>merge\<close>.  A node
  keeps its key, value and random 64-bit weight; the \<open>rand.Uint64()\<close> of \<open>newNodeWithRef\<close> is an
  argument of \<open>Set\<close>.  Nodes are never changed once an operation has returned them, so a tree value
  stands for a node and everything below it.  The reference counts, which only decide when a
  value's \<open>release\<close> function is called, are not part of this theory.
\<close>

section \<open>Nodes\<close>

type_synonym weight = "64 word"

datatype ('k, 'v) mapNode =
    NilNode
  | Node (n_left: "('k, 'v) mapNode") (n_key: 'k) (n_value: 'v) (n_weight: weight)
      (n_right: "('k, 'v) mapNode")

text \<open>\<open>newNodeWithRef\<close> and \<open>shallowCloneWithRef\<close>, whose result has no children.\<close>

definition newNodeWithRef :: "'k \<Rightarrow> 'v \<Rightarrow> weight \<Rightarrow> ('k, 'v) mapNode" where
  "newNodeWithRef key v w = Node NilNode key v w NilNode"

fun shallowCloneWithRef :: "('k, 'v) mapNode \<Rightarrow> ('k, 'v) mapNode" where
  "shallowCloneWithRef (Node l k v w r) = Node NilNode k v w NilNode"
| "shallowCloneWithRef NilNode = NilNode"

section \<open>Operations on nodes\<close>

text \<open>\<open>split\<close>: the nodes below the key, the node with the key, the nodes above it.  With
  \<open>requireMid\<close>, all three are nil when the key is missing.\<close>

fun split :: "('k::linorder, 'v) mapNode \<Rightarrow> 'k \<Rightarrow> bool \<Rightarrow>
    ('k, 'v) mapNode \<times> ('k, 'v) mapNode \<times> ('k, 'v) mapNode" where
  "split NilNode key requireMid = (NilNode, NilNode, NilNode)"
| "split (Node l k v w r) key requireMid =
     (if k < key then
        (case split r key requireMid of (lt, mid, rt) \<Rightarrow>
           if requireMid \<and> mid = NilNode then (NilNode, NilNode, NilNode)
           else (Node l k v w lt, mid, rt))
      else if key < k then
        (case split l key requireMid of (lt, mid, rt) \<Rightarrow>
           if requireMid \<and> mid = NilNode then (NilNode, NilNode, NilNode)
           else (lt, mid, Node rt k v w r))
      else (l, shallowCloneWithRef (Node l k v w r), r))"

lemma size_split:
  "split n key rm = (l, m, r) \<Longrightarrow> size l \<le> size n \<and> size r \<le> size n"
  by (induction n key rm arbitrary: l m r rule: split.induct)
     (fastforce split: if_splits prod.splits)+

lemma size_children: "t \<noteq> NilNode \<Longrightarrow> size (n_left t) < size t \<and> size (n_right t) < size t"
  by (cases t) auto

text \<open>\<open>union\<close>: the heavier root stays on top and the other tree is split at its key.  When the
  trees are swapped, \<open>overwrite\<close> is negated.\<close>

function union :: "('k::linorder, 'v) mapNode \<Rightarrow> ('k, 'v) mapNode \<Rightarrow> bool \<Rightarrow> ('k, 'v) mapNode" where
  "union first second overwrite =
     (if first = NilNode then second
      else if second = NilNode then first
      else
        let (first, second, overwrite) =
              (if n_weight first < n_weight second then (second, first, \<not> overwrite)
               else (first, second, overwrite));
            (lt, mid, rt) = split second (n_key first) False;
            result = (if overwrite \<and> mid \<noteq> NilNode then mid else first)
        in Node (union (n_left first) lt overwrite) (n_key result) (n_value result)
             (n_weight first) (union (n_right first) rt overwrite))"
  by pat_completeness auto

termination
  by (relation "measure (\<lambda>(a, b, ow). size a + size b)")
     (auto split: if_splits dest!: size_children dest: size_split [OF sym])

declare union.simps [simp del]

text \<open>\<open>merge\<close>: joins two trees whose keys do not interleave.\<close>

fun merge :: "('k, 'v) mapNode \<Rightarrow> ('k, 'v) mapNode \<Rightarrow> ('k, 'v) mapNode" where
  "merge NilNode right = right"
| "merge left NilNode = left"
| "merge (Node l1 k1 v1 w1 r1) (Node l2 k2 v2 w2 r2) =
     (if w1 > w2 then Node l1 k1 v1 w1 (merge r1 (Node l2 k2 v2 w2 r2))
      else Node (merge (Node l1 k1 v1 w1 r1) l2) k2 v2 w2 r2)"

text \<open>\<open>forEach\<close> visits left, root, right; \<open>yield\<close> may stop the iteration.  The visited entries.\<close>

fun forEach :: "('k, 'v) mapNode \<Rightarrow> ('k \<Rightarrow> 'v \<Rightarrow> 's \<Rightarrow> bool \<times> 's) \<Rightarrow> 's \<Rightarrow> bool \<times> 's" where
  "forEach NilNode yield s = (True, s)"
| "forEach (Node l k v w r) yield s =
     (case forEach l yield s of
        (False, s1) \<Rightarrow> (False, s1)
      | (True, s1) \<Rightarrow>
          (case yield k v s1 of
             (False, s2) \<Rightarrow> (False, s2)
           | (True, s2) \<Rightarrow> forEach r yield s2))"

section \<open>The map\<close>

record ('k, 'v) pmap =
  root :: "('k, 'v) mapNode"

definition empty_map :: "('k, 'v) pmap" where
  "empty_map = \<lparr>root = NilNode\<rparr>"

definition Clone :: "('k, 'v) pmap \<Rightarrow> ('k, 'v) pmap" where
  "Clone pm = \<lparr>root = root pm\<rparr>"

definition Clear :: "('k, 'v) pmap \<Rightarrow> ('k, 'v) pmap" where
  "Clear pm = pm\<lparr>root := NilNode\<rparr>"

definition Destroy :: "('k, 'v) pmap \<Rightarrow> ('k, 'v) pmap" where
  "Destroy pm = Clear pm"

fun get_node :: "('k::linorder, 'v) mapNode \<Rightarrow> 'k \<Rightarrow> 'v option" where
  "get_node NilNode key = None"
| "get_node (Node l k v w r) key =
     (if key < k then get_node l key else if k < key then get_node r key else Some v)"

definition Get :: "('k::linorder, 'v) pmap \<Rightarrow> 'k \<Rightarrow> 'v option" where
  "Get pm key = get_node (root pm) key"

definition All :: "('k, 'v) pmap \<Rightarrow> ('k \<Rightarrow> 'v \<Rightarrow> 's \<Rightarrow> bool \<times> 's) \<Rightarrow> 's \<Rightarrow> 's" where
  "All pm yield s = snd (forEach (root pm) yield s)"

definition Keys :: "('k, 'v) pmap \<Rightarrow> ('k \<Rightarrow> 's \<Rightarrow> bool \<times> 's) \<Rightarrow> 's \<Rightarrow> 's" where
  "Keys pm yield s = snd (forEach (root pm) (\<lambda>k v. yield k) s)"

definition SetAll :: "('k::linorder, 'v) pmap \<Rightarrow> ('k, 'v) pmap \<Rightarrow> ('k, 'v) pmap" where
  "SetAll pm other = pm\<lparr>root := union (root pm) (root other) True\<rparr>"

definition Set :: "('k::linorder, 'v) pmap \<Rightarrow> 'k \<Rightarrow> 'v \<Rightarrow> weight \<Rightarrow> ('k, 'v) pmap" where
  "Set pm key v w = pm\<lparr>root := union (root pm) (newNodeWithRef key v w) True\<rparr>"

definition Delete :: "('k::linorder, 'v) pmap \<Rightarrow> 'k \<Rightarrow> ('k, 'v) pmap \<times> bool" where
  "Delete pm key =
     (case split (root pm) key True of (lt, mid, rt) \<Rightarrow>
        if mid = NilNode then (pm, False) else (pm\<lparr>root := merge lt rt\<rparr>, True))"

section \<open>Entries, search-tree and heap order\<close>

fun entries :: "('k, 'v) mapNode \<Rightarrow> ('k \<times> 'v) list" where
  "entries NilNode = []"
| "entries (Node l k v w r) = entries l @ (k, v) # entries r"

definition keys :: "('k, 'v) mapNode \<Rightarrow> 'k set" where
  "keys t = fst ` set (entries t)"

fun bst :: "('k::linorder, 'v) mapNode \<Rightarrow> bool" where
  "bst NilNode = True"
| "bst (Node l k v w r) = (bst l \<and> bst r \<and> (\<forall>x \<in> keys l. x < k) \<and> (\<forall>x \<in> keys r. k < x))"

text \<open>No node is heavier than its parent.\<close>

fun heap_le :: "weight \<Rightarrow> ('k, 'v) mapNode \<Rightarrow> bool" where
  "heap_le b NilNode = True"
| "heap_le b (Node l k v w r) = (w \<le> b \<and> heap_le w l \<and> heap_le w r)"

definition heap :: "('k, 'v) mapNode \<Rightarrow> bool" where
  "heap t \<longleftrightarrow> t = NilNode \<or> heap_le (n_weight t) t"

lemma keys_simps [simp]:
  "keys NilNode = {}" "keys (Node l k v w r) = insert k (keys l \<union> keys r)"
  by (auto simp: keys_def image_Un)

lemma keys_get: "bst t \<Longrightarrow> get_node t k = None \<longleftrightarrow> k \<notin> keys t"
  by (induction t) auto

lemma get_entries: "bst t \<Longrightarrow> get_node t k = map_of (entries t) k"
proof (induction t)
  case (Node l k' v w r)
  have "map_of (entries l) k = None" if "k' \<le> k"
    using that Node.prems by (force simp: map_of_eq_None_iff keys_def)
  moreover have "map_of (entries r) k = None" if "k \<le> k'"
    using that Node.prems by (force simp: map_of_eq_None_iff keys_def)
  ultimately show ?case
    using Node by (auto simp: map_add_def split: option.splits)
qed simp

lemma sorted_entries: "bst t \<Longrightarrow> sorted_wrt (<) (map fst (entries t))"
  by (induction t) (fastforce simp: sorted_wrt_append keys_def)+

lemma heap_le_mono: "heap_le b t \<Longrightarrow> b \<le> b' \<Longrightarrow> heap_le b' t"
  by (cases t) auto

lemma heap_Node [simp]: "heap (Node l k v w r) \<longleftrightarrow> heap_le w l \<and> heap_le w r"
  by (simp add: heap_def)

lemma heap_Nil [simp]: "heap NilNode"
  by (simp add: heap_def)

lemma heap_le_heap: "heap_le b t \<Longrightarrow> heap t"
  by (cases t) auto

lemma heap_le_iff: "heap_le b t \<longleftrightarrow> heap t \<and> (t = NilNode \<or> n_weight t \<le> b)"
  by (cases t) auto

section \<open>Correctness of split\<close>

text \<open>\<open>split_at t key l m r\<close>: what \<open>split\<close> promises of its results.\<close>

definition split_at :: "('k::linorder, 'v) mapNode \<Rightarrow> 'k \<Rightarrow>
    ('k, 'v) mapNode \<Rightarrow> ('k, 'v) mapNode \<Rightarrow> ('k, 'v) mapNode \<Rightarrow> bool" where
  "split_at t key l m r \<longleftrightarrow>
     bst l \<and> bst r \<and> keys l = {x \<in> keys t. x < key} \<and> keys r = {x \<in> keys t. key < x}
     \<and> (\<forall>x. x < key \<longrightarrow> get_node l x = get_node t x)
     \<and> (\<forall>x. key < x \<longrightarrow> get_node r x = get_node t x)
     \<and> (if key \<in> keys t then m \<noteq> NilNode \<and> n_key m = key \<and> get_node t key = Some (n_value m)
        else m = NilNode)
     \<and> (\<forall>b. heap_le b t \<longrightarrow> heap_le b l \<and> heap_le b r)"

text \<open>How the two recursive branches build their results.\<close>

lemma split_at_right:
  assumes "k < key" and "bst (Node t1 k v w t2)" and at: "split_at t2 key l m r"
  shows "split_at (Node t1 k v w t2) key (Node t1 k v w l) m r"
  unfolding split_at_def
proof (intro conjI allI impI)
  note at = at [unfolded split_at_def]
  show "bst (Node t1 k v w l)" "bst r" using assms(1,2) at by auto
  show "keys (Node t1 k v w l) = {x \<in> keys (Node t1 k v w t2). x < key}"
    "keys r = {x \<in> keys (Node t1 k v w t2). key < x}"
    using assms(1,2) at by (auto dest: less_trans)
  show "get_node (Node t1 k v w l) x = get_node (Node t1 k v w t2) x" if "x < key" for x
    using that at by auto
  show "get_node r x = get_node (Node t1 k v w t2) x" if "key < x" for x
    using that at assms(1) by auto
  show "if key \<in> keys (Node t1 k v w t2)
    then m \<noteq> NilNode \<and> n_key m = key \<and> get_node (Node t1 k v w t2) key = Some (n_value m)
    else m = NilNode"
    using assms(1,2) at by auto
  show "heap_le b (Node t1 k v w l)" "heap_le b r" if "heap_le b (Node t1 k v w t2)" for b
    using that at heap_le_mono [of w r b] by auto
qed

lemma split_at_left:
  assumes "key < k" and "bst (Node t1 k v w t2)" and at: "split_at t1 key l m r"
  shows "split_at (Node t1 k v w t2) key l m (Node r k v w t2)"
  unfolding split_at_def
proof (intro conjI allI impI)
  note at = at [unfolded split_at_def]
  show "bst l" "bst (Node r k v w t2)" using assms(1,2) at by auto
  show "keys l = {x \<in> keys (Node t1 k v w t2). x < key}"
    "keys (Node r k v w t2) = {x \<in> keys (Node t1 k v w t2). key < x}"
    using assms(1,2) at by (auto dest: less_trans)
  show "get_node l x = get_node (Node t1 k v w t2) x" if "x < key" for x
    using that at assms(1) by auto
  show "get_node (Node r k v w t2) x = get_node (Node t1 k v w t2) x" if "key < x" for x
    using that at by auto
  show "if key \<in> keys (Node t1 k v w t2)
    then m \<noteq> NilNode \<and> n_key m = key \<and> get_node (Node t1 k v w t2) key = Some (n_value m)
    else m = NilNode"
    using assms(1,2) at by auto
  show "heap_le b l" "heap_le b (Node r k v w t2)" if "heap_le b (Node t1 k v w t2)" for b
    using that at heap_le_mono [of w l b] by auto
qed

lemma split_at_here:
  assumes "bst (Node t1 key v w t2)"
  shows "split_at (Node t1 key v w t2) key t1 (Node NilNode key v w NilNode) t2"
  unfolding split_at_def
proof (intro conjI allI impI)
  have less: "\<forall>x \<in> keys t1. x < key" "\<forall>x \<in> keys t2. key < x" using assms by auto
  then show "keys t1 = {x \<in> keys (Node t1 key v w t2). x < key}"
    "keys t2 = {x \<in> keys (Node t1 key v w t2). key < x}"
    using less_not_sym by (simp_all, blast+)
  show "get_node t1 x = get_node (Node t1 key v w t2) x" if "x < key" for x
    using that by simp
  show "get_node t2 x = get_node (Node t1 key v w t2) x" if "key < x" for x
    using that by auto
  show "heap_le b t1" "heap_le b t2" if "heap_le b (Node t1 key v w t2)" for b
    using that heap_le_mono [of w t1 b] heap_le_mono [of w t2 b] by auto
qed (use assms in simp_all)

lemma split_correct: "bst t \<Longrightarrow> split t key False = (l, m, r) \<Longrightarrow> split_at t key l m r"
proof (induction t arbitrary: l m r)
  case NilNode
  then show ?case by (simp add: split_at_def)
next
  case (Node t1 k v w t2)
  consider "k < key" | "key < k" | "k = key" by fastforce
  then show ?case
  proof cases
    case 1
    obtain l' m' r' where s: "split t2 key False = (l', m', r')" by (cases "split t2 key False") auto
    then have res: "l = Node t1 k v w l'" "m = m'" "r = r'" using Node.prems 1 by auto
    show ?thesis
      unfolding res by (rule split_at_right) (use 1 Node.IH(2) [OF _ s] Node.prems in simp_all)
  next
    case 2
    obtain l' m' r' where s: "split t1 key False = (l', m', r')" by (cases "split t1 key False") auto
    then have res: "l = l'" "m = m'" "r = Node r' k v w t2"
      using Node.prems(2) 2 less_not_sym [OF 2] by simp_all
    show ?thesis
      unfolding res by (rule split_at_left) (use 2 Node.IH(1) [OF _ s] Node.prems in simp_all)
  next
    case 3
    then have res: "l = t1" "m = Node NilNode key v w NilNode" "r = t2" using Node.prems by auto
    show ?thesis
      unfolding res 3 by (rule split_at_here) (use 3 Node.prems in simp)
  qed
qed

lemma split_False_mid: "bst t \<Longrightarrow> split t key False = (l, m, r) \<Longrightarrow> m = NilNode \<longleftrightarrow> key \<notin> keys t"
  using split_correct [of t key l m r] by (auto simp: split_at_def split: if_splits)

lemma split_requireMid:
  "bst t \<Longrightarrow> split t key True =
     (if key \<in> keys t then split t key False else (NilNode, NilNode, NilNode))"
proof (induction t)
  case NilNode
  then show ?case by simp
next
  case (Node l k v w r)
  consider "k < key" | "key < k" | "k = key" by fastforce
  then show ?case
  proof cases
    case 1
    have "key \<notin> keys l" using 1 Node.prems by (auto dest: less_not_sym)
    then show ?thesis
      using 1 Node split_False_mid [of r key] by (auto split: prod.splits)
  next
    case 2
    have "key \<notin> keys r" using 2 Node.prems by (auto dest: less_not_sym)
    then show ?thesis
      using 2 Node split_False_mid [of l key] by (auto split: prod.splits)
  next
    case 3
    then show ?thesis by simp
  qed
qed

section \<open>Correctness of union and merge\<close>

definition node_map :: "('k::linorder, 'v) mapNode \<Rightarrow> 'k \<Rightarrow> 'v option" where
  "node_map t = get_node t"

lemma union_Nil [simp]: "union NilNode t ow = t" "union t NilNode ow = t"
  by (subst union.simps, simp)+

text \<open>One step of \<open>union\<close> on nonempty trees, after the swap.\<close>

lemma union_step:
  assumes "first \<noteq> NilNode" "second \<noteq> NilNode" "\<not> n_weight first < n_weight second"
    and "split second (n_key first) False = (lt, mid, rt)"
  shows "union first second ow =
    Node (union (n_left first) lt ow) (n_key (if ow \<and> mid \<noteq> NilNode then mid else first))
      (n_value (if ow \<and> mid \<noteq> NilNode then mid else first)) (n_weight first)
      (union (n_right first) rt ow)"
  using assms by (subst union.simps) (simp add: Let_def)

lemma union_swap:
  assumes "first \<noteq> NilNode" "second \<noteq> NilNode" "n_weight first < n_weight second"
  shows "union first second ow = union second first (\<not> ow)"
  using assms by (subst (1 2) union.simps) (simp add: Let_def less_not_sym)

definition pick :: "bool \<Rightarrow> ('k \<rightharpoonup> 'v) \<Rightarrow> ('k \<rightharpoonup> 'v) \<Rightarrow> ('k \<rightharpoonup> 'v)" where
  "pick ow m1 m2 = (if ow then m1 ++ m2 else m2 ++ m1)"

definition union_ok :: "('k::linorder, 'v) mapNode \<Rightarrow> ('k, 'v) mapNode \<Rightarrow> bool \<Rightarrow>
    ('k, 'v) mapNode \<Rightarrow> bool" where
  "union_ok t1 t2 ow t \<longleftrightarrow>
     bst t \<and> keys t = keys t1 \<union> keys t2 \<and> get_node t = pick ow (get_node t1) (get_node t2)
     \<and> (\<forall>b. heap_le b t1 \<longrightarrow> heap_le b t2 \<longrightarrow> heap_le b t)"

lemma union_ok_swap: "union_ok t1 t2 (\<not> ow) t \<longleftrightarrow> union_ok t2 t1 ow t"
  by (auto simp: union_ok_def pick_def)

lemma union_ok_Node:
  assumes bst: "bst (Node l k v w r)" "bst second"
    and w: "second \<noteq> NilNode" "n_weight second \<le> w"
    and sp: "split second k False = (lt, mid, rt)"
    and L: "union_ok l lt ow L" and R: "union_ok r rt ow R"
    and val: "value = (if ow \<and> mid \<noteq> NilNode then n_value mid else v)"
  shows "union_ok (Node l k v w r) second ow (Node L k value w R)"
proof -
  note s = split_correct [OF bst(2) sp, unfolded split_at_def]
  have keysL: "keys L = keys l \<union> {x \<in> keys second. x < k}"
    and keysR: "keys R = keys r \<union> {x \<in> keys second. k < x}"
    using s L R by (auto simp: union_ok_def)
  have bstN: "bst (Node L k value w R)"
    using L R bst(1) keysL keysR by (auto simp: union_ok_def)
  moreover have "keys (Node L k value w R) = keys (Node l k v w r) \<union> keys second"
    using keysL keysR by auto
  moreover have "get_node (Node L k value w R) x
      = pick ow (get_node (Node l k v w r)) (get_node second) x" for x
  proof -
    consider "x < k" | "k < x" | "x = k" by fastforce
    then show ?thesis
    proof cases
      case 1
      then have "get_node L x = pick ow (get_node l) (get_node lt) x" "get_node lt x = get_node second x"
        using L s by (auto simp: union_ok_def)
      moreover have "get_node (Node l k v w r) x = get_node l x" using 1 by simp
      moreover have "get_node (Node L k value w R) x = get_node L x" using 1 by simp
      ultimately show ?thesis by (simp add: pick_def map_add_def split: option.splits del: get_node.simps(2))
    next
      case 2
      then have "get_node R x = pick ow (get_node r) (get_node rt) x" "get_node rt x = get_node second x"
        using R s by (auto simp: union_ok_def)
      moreover have "get_node (Node l k v w r) x = get_node r x" using 2 by auto
      moreover have "get_node (Node L k value w R) x = get_node R x" using 2 by auto
      ultimately show ?thesis by (simp add: pick_def map_add_def split: option.splits del: get_node.simps(2))
    next
      case 3
      show ?thesis
      proof (cases "k \<in> keys second")
        case True
        with s have "mid \<noteq> NilNode" "get_node second k = Some (n_value mid)" by auto
        with 3 val show ?thesis by (auto simp: pick_def map_add_def)
      next
        case False
        with s bst(2) have "mid = NilNode" "get_node second k = None" by (auto simp: keys_get)
        with 3 val show ?thesis by (auto simp: pick_def map_add_def)
      qed
    qed
  qed
  moreover have "heap_le b (Node L k value w R)"
    if "heap_le b (Node l k v w r)" "heap_le b second" for b
  proof -
    have "heap_le w second" using that(2) w by (auto simp: heap_le_iff)
    then have "heap_le w lt" "heap_le w rt" using s by auto
    with that(1) L R show ?thesis by (auto simp: union_ok_def)
  qed
  ultimately show ?thesis by (auto simp: union_ok_def)
qed

lemma union_heavy:
  fixes first second :: "('k::linorder, 'v) mapNode"
  assumes "bst first" "bst second" "first \<noteq> NilNode" "second \<noteq> NilNode"
    and "\<not> n_weight first < n_weight second"
    and IH: "\<And>a b :: ('k, 'v) mapNode. size a + size b < size first + size second \<Longrightarrow> bst a \<Longrightarrow> bst b \<Longrightarrow>
               union_ok a b ow (union a b ow)"
  shows "union_ok first second ow (union first second ow)"
proof -
  obtain l k v w r where first: "first = Node l k v w r" using assms(3) by (cases first) auto
  obtain lt mid rt where sp: "split second k False = (lt, mid, rt)"
    by (cases "split second k False") auto
  note s = split_correct [OF assms(2) sp, unfolded split_at_def]
  have "size lt \<le> size second" "size rt \<le> size second" using size_split [OF sp] by auto
  then have L: "union_ok l lt ow (union l lt ow)" and R: "union_ok r rt ow (union r rt ow)"
    using s assms(1) first IH [of l lt] IH [of r rt] by simp_all
  have key: "n_key (if ow \<and> mid \<noteq> NilNode then mid else first) = k"
    using s first by (auto split: if_splits)
  have "union first second ow = Node (union l lt ow) k
      (if ow \<and> mid \<noteq> NilNode then n_value mid else v) w (union r rt ow)"
    using union_step [of first second lt mid rt ow] assms(3-5) sp first key by auto
  then show ?thesis
    using union_ok_Node [OF _ assms(2) assms(4) _ sp L R refl] assms(1,5) first by simp
qed

lemma union_correct:
  fixes t1 t2 :: "('k::linorder, 'v) mapNode"
  shows "bst t1 \<Longrightarrow> bst t2 \<Longrightarrow> union_ok t1 t2 ow (union t1 t2 ow)"
proof (induction "size t1 + size t2" arbitrary: t1 t2 ow rule: less_induct)
  case less
  show ?case
  proof (cases "t1 = NilNode \<or> t2 = NilNode")
    case True
    have "get_node (NilNode :: ('k, 'v) mapNode) = Map.empty" by (simp add: fun_eq_iff)
    with True less.prems show ?thesis by (auto simp: union_ok_def pick_def)
  next
    case False
    show ?thesis
    proof (cases "n_weight t1 < n_weight t2")
      case True
      have "union_ok t2 t1 (\<not> ow) (union t2 t1 (\<not> ow))"
      proof (rule union_heavy)
        show "union_ok a b (\<not> ow) (union a b (\<not> ow))"
          if "size a + size b < size t2 + size t1" "bst a" "bst b" for a b :: "('k, 'v) mapNode"
          using less.hyps [of a b "\<not> ow"] that by (simp add: add.commute)
      qed (use False True less.prems in \<open>simp_all add: less_not_sym\<close>)
      then show ?thesis using False True by (simp add: union_swap union_ok_swap)
    next
      case w: False
      show ?thesis
      proof (rule union_heavy)
        show "union_ok a b ow (union a b ow)"
          if "size a + size b < size t1 + size t2" "bst a" "bst b" for a b :: "('k, 'v) mapNode"
          using less.hyps [of a b ow] that by simp
      qed (use False w less.prems in simp_all)
    qed
  qed
qed

text \<open>\<open>merge\<close> concatenates the entries of its arguments.\<close>

lemma entries_merge: "entries (merge l r) = entries l @ entries r"
  by (induction l r rule: merge.induct) auto

lemma keys_merge [simp]: "keys (merge l r) = keys l \<union> keys r"
  by (auto simp: keys_def entries_merge)

lemma bst_merge:
  "bst l \<Longrightarrow> bst r \<Longrightarrow> (\<forall>x \<in> keys l. \<forall>y \<in> keys r. x < y) \<Longrightarrow> bst (merge l r)"
  by (induction l r rule: merge.induct) auto

lemma heap_le_merge: "heap_le b l \<Longrightarrow> heap_le b r \<Longrightarrow> heap_le b (merge l r)"
  by (induction l r arbitrary: b rule: merge.induct) auto

lemma get_merge:
  assumes "bst l" "bst r" "\<forall>x \<in> keys l. \<forall>y \<in> keys r. x < y"
  shows "get_node (merge l r) = get_node r ++ get_node l"
proof
  fix x
  show "get_node (merge l r) x = (get_node r ++ get_node l) x"
    using get_entries [OF bst_merge [OF assms], of x] get_entries [OF assms(1)] get_entries [OF assms(2)]
      keys_get [OF assms(1), of x] keys_get [OF assms(2), of x] assms(3)
    by (fastforce simp: entries_merge map_add_def map_of_append split: option.splits)
qed

section \<open>The operations of the map\<close>

text \<open>The invariant of a map: a search tree that is a heap on the weights.\<close>

definition wf_map :: "('k::linorder, 'v) pmap \<Rightarrow> bool" where
  "wf_map pm \<longleftrightarrow> bst (root pm) \<and> heap (root pm)"

lemma heap_le_max: "heap t \<Longrightarrow> heap_le (- 1 :: weight) t"
  by (cases t) simp_all

lemma union_ok_wf:
  assumes "wf_map a" "wf_map b" "root c = union (root a) (root b) ow"
  shows "wf_map c"
proof -
  note u = union_correct [of "root a" "root b" ow]
  have "heap_le (-1) (root c)"
    using assms u by (simp add: wf_map_def union_ok_def heap_le_max)
  then show ?thesis
    using assms u by (simp add: wf_map_def union_ok_def heap_le_iff)
qed

lemma wf_singleton: "wf_map \<lparr>root = newNodeWithRef k v w\<rparr>"
  by (simp add: wf_map_def newNodeWithRef_def)

lemma wf_empty: "wf_map empty_map"
  by (simp add: wf_map_def empty_map_def)

lemma wf_SetAll: "wf_map a \<Longrightarrow> wf_map b \<Longrightarrow> wf_map (SetAll a b)"
  by (rule union_ok_wf [of a b _ True]) (simp_all add: SetAll_def)

lemma wf_Set: "wf_map a \<Longrightarrow> wf_map (Set a k v w)"
  by (rule union_ok_wf [OF _ wf_singleton, of _ _ k v w True]) (simp_all add: Set_def)

lemma Get_SetAll: "wf_map a \<Longrightarrow> wf_map b \<Longrightarrow> Get (SetAll a b) = Get a ++ Get b"
  using union_correct [of "root a" "root b" True]
  by (auto simp: Get_def [abs_def] SetAll_def wf_map_def union_ok_def pick_def)

lemma Get_Set: "wf_map a \<Longrightarrow> Get (Set a k v w) = (Get a)(k \<mapsto> v)"
proof -
  assume "wf_map a"
  moreover have "bst (newNodeWithRef k v w)" by (simp add: newNodeWithRef_def)
  moreover have "get_node (newNodeWithRef k v w) = [k \<mapsto> v]"
    by (auto simp: newNodeWithRef_def fun_eq_iff)
  ultimately show ?thesis
    using union_correct [of "root a" "newNodeWithRef k v w" True]
    by (auto simp: Get_def [abs_def] Set_def wf_map_def union_ok_def pick_def)
qed

text \<open>What \<open>Delete\<close> does to the tree when the key is present.\<close>

lemma Delete_present:
  assumes "wf_map pm" "key \<in> keys (root pm)"
  obtains l m r where "split_at (root pm) key l m r"
    "Delete pm key = (pm\<lparr>root := merge l r\<rparr>, True)"
proof -
  obtain l m r where s: "split (root pm) key False = (l, m, r)"
    by (cases "split (root pm) key False") auto
  have b: "bst (root pm)" using assms by (simp add: wf_map_def)
  have "split (root pm) key True = (l, m, r)" using split_requireMid [OF b, of key] assms(2) s by simp
  moreover have "split_at (root pm) key l m r" using split_correct [OF b s] .
  moreover have "m \<noteq> NilNode" using split_False_mid [OF b s] assms(2) by simp
  ultimately show ?thesis using that by (simp add: Delete_def)
qed

lemma Delete_absent:
  "wf_map pm \<Longrightarrow> key \<notin> keys (root pm) \<Longrightarrow> Delete pm key = (pm, False)"
  by (simp add: Delete_def split_requireMid wf_map_def)

lemma wf_Delete: "wf_map pm \<Longrightarrow> wf_map (fst (Delete pm key))"
proof (cases "key \<in> keys (root pm)")
  case True
  assume wf: "wf_map pm"
  then obtain l m r where s: "split_at (root pm) key l m r"
      and d: "Delete pm key = (pm\<lparr>root := merge l r\<rparr>, True)"
    using Delete_present True by blast
  have "heap_le (-1) (merge l r)"
    using s wf heap_le_max [of "root pm"]
    by (auto simp: split_at_def wf_map_def intro!: heap_le_merge)
  moreover have "bst (merge l r)"
    using s by (auto simp: split_at_def intro!: bst_merge dest: less_trans)
  ultimately show ?thesis using d by (simp add: wf_map_def heap_le_iff)
qed (simp add: Delete_absent)

lemma Get_Delete:
  assumes wf: "wf_map pm"
  shows "Get (fst (Delete pm key)) = (Get pm)(key := None)"
    "snd (Delete pm key) \<longleftrightarrow> Get pm key \<noteq> None"
proof -
  have b: "bst (root pm)" using wf by (simp add: wf_map_def)
  have "Get (fst (Delete pm key)) = (Get pm)(key := None)
      \<and> (snd (Delete pm key) \<longleftrightarrow> Get pm key \<noteq> None)"
  proof (cases "key \<in> keys (root pm)")
    case True
    then obtain l m r where s: "split_at (root pm) key l m r"
      and d: "Delete pm key = (pm\<lparr>root := merge l r\<rparr>, True)"
      using Delete_present wf by blast
    note s' = s [unfolded split_at_def]
    have less: "\<forall>x \<in> keys l. \<forall>y \<in> keys r. x < y" using s' by (auto dest: less_trans)
    have "get_node (merge l r) x = (if x = key then None else get_node (root pm) x)" for x
    proof -
      have g: "get_node (merge l r) = get_node r ++ get_node l"
        using get_merge less s' by blast
      have "get_node l x = None" if "key \<le> x" using s' that keys_get [of l x] by auto
      moreover have "get_node r x = None" if "x \<le> key" using s' that keys_get [of r x] by auto
      ultimately show ?thesis
        using s' by (cases x key rule: linorder_cases) (simp_all add: g map_add_def less_imp_neq split: option.splits)
    qed
    then show ?thesis using d keys_get [OF b, of key] True by (auto simp: Get_def)
  next
    case False
    then show ?thesis using wf keys_get [OF b, of key]
      by (auto simp: Delete_absent Get_def fun_eq_iff)
  qed
  then show "Get (fst (Delete pm key)) = (Get pm)(key := None)"
    "snd (Delete pm key) \<longleftrightarrow> Get pm key \<noteq> None" by simp_all
qed

text \<open>\<open>forEach\<close> folds over the entries until \<open>yield\<close> answers false.\<close>

fun fold_until :: "('k \<Rightarrow> 'v \<Rightarrow> 's \<Rightarrow> bool \<times> 's) \<Rightarrow> ('k \<times> 'v) list \<Rightarrow> 's \<Rightarrow> bool \<times> 's" where
  "fold_until yield [] s = (True, s)"
| "fold_until yield ((k, v) # es) s =
     (case yield k v s of (False, s') \<Rightarrow> (False, s') | (True, s') \<Rightarrow> fold_until yield es s')"

lemma fold_until_append:
  "fold_until f (xs @ ys) s =
     (case fold_until f xs s of (False, s') \<Rightarrow> (False, s') | (True, s') \<Rightarrow> fold_until f ys s')"
  by (induction f xs s rule: fold_until.induct) (auto split: prod.splits bool.splits)

lemma forEach_fold: "forEach t f s = fold_until f (entries t) s"
  by (induction t arbitrary: s) (auto simp: fold_until_append split: prod.splits bool.splits)

lemma fold_until_all: "fold_until (\<lambda>k v acc. (True, acc @ [(k, v)])) es acc = (True, acc @ es)"
  by (induction es arbitrary: acc) auto

text \<open>Claim C8: on every well-formed map, \<open>Set\<close>, \<open>SetAll\<close> and \<open>Delete\<close> are the map operations
  they document, whatever the random weights: \<open>Set\<close> updates exactly its key, \<open>SetAll\<close> overwrites
  the receiver's entries with the argument's, \<open>Delete\<close> removes exactly its key and reports whether
  it was present; and each result is again a search tree in heap order.\<close>

theorem map_operations:
  assumes "wf_map pm" "wf_map other"
  shows "Get (Set pm k v w) = (Get pm)(k \<mapsto> v) \<and> wf_map (Set pm k v w)
    \<and> Get (SetAll pm other) = Get pm ++ Get other \<and> wf_map (SetAll pm other)
    \<and> Get (fst (Delete pm k)) = (Get pm)(k := None) \<and> wf_map (fst (Delete pm k))
    \<and> (snd (Delete pm k) \<longleftrightarrow> Get pm k \<noteq> None)"
  using assms by (simp add: Get_Set wf_Set Get_SetAll wf_SetAll Get_Delete wf_Delete)

lemma map_operations_witness:
  "Get (Set (Set empty_map (1::nat) True 5) 2 False 9) 2 = Some False
   \<and> snd (Delete (Set (Set empty_map 1 True 5) 2 False 9) (1::nat)) = True"
proof -
  have "wf_map (Set empty_map (1::nat) True 5)" "wf_map (empty_map :: (nat, bool) pmap)"
    by (simp_all add: wf_Set wf_empty)
  note m = map_operations [OF this, of 2 False 9]
  have "wf_map (Set (Set empty_map (1::nat) True 5) 2 False 9)" by (simp add: wf_Set wf_empty)
  note d = map_operations [OF this wf_empty, of 1 True 5]
  show ?thesis using m d by (simp add: Get_Set wf_empty)
qed

text \<open>\<open>All\<close> and \<open>Keys\<close> visit the entries of a well-formed map in strictly ascending key
  order, each entry once and none left out: collected, they are a list sorted by key whose
  association is \<open>Get\<close>; and \<open>All\<close> stops at the first entry for which \<open>yield\<close> is false.\<close>

theorem All_ascending:
  assumes "wf_map pm"
  defines "es \<equiv> All pm (\<lambda>k v acc. (True, acc @ [(k, v)])) []"
  shows "sorted_wrt (<) (map fst es) \<and> map_of es = Get pm
    \<and> Keys pm (\<lambda>k acc. (True, acc @ [k])) [] = map fst es
    \<and> All pm yield s = snd (fold_until yield es s)"
proof -
  have b: "bst (root pm)" using assms by (simp add: wf_map_def)
  have es: "es = entries (root pm)" by (simp add: es_def All_def forEach_fold fold_until_all)
  have "snd (fold_until (\<lambda>k v acc. (True, acc @ [k])) xs acc) = acc @ map fst xs"
    for xs :: "('a \<times> 'b) list" and acc by (induction xs arbitrary: acc) auto
  then show ?thesis
    using es sorted_entries [OF b] get_entries [OF b]
    by (simp add: All_def Keys_def forEach_fold Get_def [abs_def] fun_eq_iff)
qed

lemma All_ascending_witness:
  "sorted_wrt (<) (map fst (All (Set (Set empty_map (7::nat) True 5) 2 False 9)
     (\<lambda>k v acc. (True, acc @ [(k, v)])) []))
   \<and> All (Set (Set empty_map (7::nat) True 5) 2 False 9)
     (\<lambda>k v acc. (True, acc @ [(k, v)])) [] = [(2, False), (7, True)]"
proof
  have "wf_map (Set (Set empty_map (7::nat) True 5) 2 False 9)" by (simp add: wf_Set wf_empty)
  from All_ascending [OF this, THEN conjunct1]
  show "sorted_wrt (<) (map fst (All (Set (Set empty_map (7::nat) True 5) 2 False 9)
     (\<lambda>k v acc. (True, acc @ [(k, v)])) []))" .
qed code_simp

end
