(* ===== verification/Containers.thy ===== *)
theory Containers
  imports Go_Prelude
begin

text \<open>
  The contracts that the containers of \<open>gopls/internal/util/persistent\<close>,
  \<open>gopls/internal/cache/typerefs\<close> and \<open>gopls/internal/bloom\<close> offer their clients, as locales:
  a mutable map with bulk update, a set with bulk union, and an approximate membership filter.
  What a client may conclude from a contract alone is proved here once; every container
  theory discharges the laws for the code's own operations.
\<close>

section \<open>Maps\<close>

text \<open>\<open>upd\<close> takes the entropy its implementation draws (the node weight).\<close>

locale map_contract =
  fixes inv :: "'m \<Rightarrow> bool"
    and new :: "'m"
    and lookup :: "'m \<Rightarrow> 'k \<Rightarrow> 'v option"
    and upd :: "'m \<Rightarrow> 'k \<Rightarrow> 'v \<Rightarrow> 'w \<Rightarrow> 'm"
    and upd_all :: "'m \<Rightarrow> 'm \<Rightarrow> 'm"
    and del :: "'m \<Rightarrow> 'k \<Rightarrow> 'm"
    and items :: "'m \<Rightarrow> ('k \<times> 'v) list"
  assumes inv_new: "inv new" and lookup_new: "lookup new = Map.empty"
    and inv_upd: "inv m \<Longrightarrow> inv (upd m k v w)"
    and lookup_upd: "inv m \<Longrightarrow> lookup (upd m k v w) = (lookup m)(k \<mapsto> v)"
    and inv_upd_all: "inv m \<Longrightarrow> inv n \<Longrightarrow> inv (upd_all m n)"
    and lookup_upd_all: "inv m \<Longrightarrow> inv n \<Longrightarrow> lookup (upd_all m n) = lookup m ++ lookup n"
    and inv_del: "inv m \<Longrightarrow> inv (del m k)"
    and lookup_del: "inv m \<Longrightarrow> lookup (del m k) = (lookup m)(k := None)"
    and items: "inv m \<Longrightarrow> map_of (items m) = lookup m" "inv m \<Longrightarrow> distinct (map fst (items m))"
begin

text \<open>Setting a list of entries one after the other.\<close>

definition upd_list :: "'m \<Rightarrow> (('k \<times> 'v) \<times> 'w) list \<Rightarrow> 'm" where
  "upd_list m es = fold (\<lambda>((k, v), w) m. upd m k v w) es m"

lemma upd_list_correct:
  "inv m \<Longrightarrow> inv (upd_list m es) \<and> lookup (upd_list m es) = lookup m ++ map_of (rev (map fst es))"
proof (induction es arbitrary: m)
  case (Cons e es)
  obtain k v w where e: "e = ((k, v), w)" by (metis surj_pair)
  have "inv (upd m k v w)" "lookup (upd m k v w) = (lookup m)(k \<mapsto> v)"
    using Cons.prems by (simp_all add: inv_upd lookup_upd)
  with Cons.IH [of "upd m k v w"] show ?case
    by (auto simp: e upd_list_def fun_eq_iff map_add_def split: option.splits)
qed (simp add: upd_list_def)

lemma map_of_rev_items: "inv m \<Longrightarrow> map_of (rev (items m)) = lookup m"
  using items [of m] by (simp add: map_of_rev)

text \<open>Bulk update is entry-wise update, whatever entropy the latter draws.\<close>

lemma upd_all_eq_upd_list:
  assumes "inv m" "inv n" "map fst es = items n"
  shows "lookup (upd_all m n) = lookup (upd_list m es)"
  using assms upd_list_correct [of m es] by (simp add: lookup_upd_all map_of_rev_items)

lemma lookup_from_list:
  "distinct (map fst (map fst es)) \<Longrightarrow> lookup (upd_list new es) = map_of (map fst es)"
  using upd_list_correct [OF inv_new, of es]
  by (simp add: lookup_new map_of_rev)

end

section \<open>Sets\<close>

locale set_contract =
  fixes inv :: "'s \<Rightarrow> bool"
    and new :: "'s"
    and add :: "'s \<Rightarrow> 'a \<Rightarrow> 'w \<Rightarrow> 's"
    and add_all :: "'s \<Rightarrow> 's \<Rightarrow> 's"
    and member :: "'s \<Rightarrow> 'a \<Rightarrow> bool"
    and elems :: "'s \<Rightarrow> 'a list"
  assumes inv_new: "inv new" and member_new: "\<not> member new x"
    and inv_add: "inv s \<Longrightarrow> inv (add s x w)"
    and member_add: "inv s \<Longrightarrow> member (add s x w) y \<longleftrightarrow> y = x \<or> member s y"
    and inv_add_all: "inv s \<Longrightarrow> inv t \<Longrightarrow> inv (add_all s t)"
    and member_add_all: "inv s \<Longrightarrow> inv t \<Longrightarrow> member (add_all s t) y \<longleftrightarrow> member s y \<or> member t y"
    and elems: "inv s \<Longrightarrow> set (elems s) = {x. member s x}" "inv s \<Longrightarrow> distinct (elems s)"
begin

definition add_list :: "'s \<Rightarrow> ('a \<times> 'w) list \<Rightarrow> 's" where
  "add_list s xs = fold (\<lambda>(x, w) s. add s x w) xs s"

lemma add_list_correct:
  "inv s \<Longrightarrow> inv (add_list s xs) \<and> (member (add_list s xs) y \<longleftrightarrow> y \<in> fst ` set xs \<or> member s y)"
  by (induction xs arbitrary: s) (force simp: add_list_def inv_add member_add)+

lemma from_list: "inv (add_list new xs)" "set (elems (add_list new xs)) = fst ` set xs"
  using add_list_correct [OF inv_new, of xs] by (auto simp: elems member_new)

lemma add_all_eq_add_list:
  assumes "inv s" "inv t" "map fst xs = elems t"
  shows "member (add_all s t) y \<longleftrightarrow> member (add_list s xs) y"
proof -
  have "fst ` set xs = {x. member t x}" using elems(1) [OF assms(2)] assms(3) by (metis list.set_map)
  then show ?thesis using assms add_list_correct [of s xs y] by (auto simp: member_add_all)
qed

text \<open>Order and repetition of additions do not matter.\<close>

lemma add_list_cong:
  "fst ` set xs = fst ` set ys \<Longrightarrow> set (elems (add_list new xs)) = set (elems (add_list new ys))"
  by (simp add: from_list)

text \<open>A union of many sets, as a loop over \<open>add_all\<close>.\<close>

lemma fold_add_all:
  "inv s \<Longrightarrow> \<forall>t \<in> set ts. inv t \<Longrightarrow>
     inv (fold (\<lambda>t s. add_all s t) ts s)
     \<and> (member (fold (\<lambda>t s. add_all s t) ts s) y \<longleftrightarrow> member s y \<or> (\<exists>t \<in> set ts. member t y))"
  by (induction ts arbitrary: s) (auto simp: inv_add_all member_add_all)

end

section \<open>Approximate filters\<close>

text \<open>A filter built from a list never denies one of its elements.\<close>

locale filter_contract =
  fixes build :: "'a list \<Rightarrow> 'f" and may_contain :: "'f \<Rightarrow> 'a \<Rightarrow> bool"
  assumes no_false_negative: "x \<in> set xs \<Longrightarrow> may_contain (build xs) x"
begin

lemma denied_is_absent: "\<not> may_contain (build xs) x \<Longrightarrow> x \<notin> set xs"
  using no_false_negative by blast

lemma build_filter_keeps: "set xs \<subseteq> set ys \<Longrightarrow> filter (may_contain (build ys)) xs = xs"
  using no_false_negative by (auto simp: filter_id_conv)

text \<open>Searching only the buckets whose filter admits the key finds what searching all would.\<close>

lemma prefilter_complete:
  "filter (\<lambda>b. x \<in> set b) (filter (\<lambda>b. may_contain (build b) x) bs) = filter (\<lambda>b. x \<in> set b) bs"
  by (induction bs) (auto simp: no_false_negative)

end

end
