(* ===== verification/Persistent_Set.thy ===== *)
theory Persistent_Set
  imports Persistent_Map Containers
begin

text \<open>
  The ordered set of \<open>gopls/internal/util/persistent/set.go\<close>, a nil-able pointer to a persistent
  map with unit values, and the two contracts of \<^theory_text>\<open>Containers\<close> for the map and the set.
\<close>

text \<open>The entries that \<open>All\<close> hands to its consumer, as a list.\<close>

definition map_items :: "('k, 'v) pmap \<Rightarrow> ('k \<times> 'v) list" where
  "map_items pm = All pm (\<lambda>k v acc. (True, acc @ [(k, v)])) []"

lemma map_items_entries: "map_items pm = entries (root pm)"
  by (simp add: map_items_def All_def forEach_fold fold_until_all)

interpretation pm: map_contract wf_map empty_map Get Set SetAll
  "\<lambda>pm k. fst (Delete pm k)" map_items
proof
  fix m :: "('a::linorder, 'b) pmap"
  assume "wf_map m"
  then have "bst (root m)" by (simp add: wf_map_def)
  then show "map_of (map_items m) = Get m" "distinct (map fst (map_items m))"
    using strict_sorted_iff [of "map fst (map_items m)"]
    by (simp_all add: map_items_entries Get_def [abs_def] get_entries fun_eq_iff sorted_entries)
qed (simp_all add: wf_empty [unfolded empty_map_def] wf_empty wf_Set wf_SetAll wf_Delete Get_Set Get_SetAll Get_Delete Get_def empty_map_def
      fun_eq_iff)

section \<open>The set\<close>

record 'k pset =
  impl :: "('k, unit) pmap option"

definition new_set :: "'k pset" where
  "new_set = \<lparr>impl = None\<rparr>"

definition set_Clone :: "'k pset \<Rightarrow> 'k pset" where
  "set_Clone s = \<lparr>impl = (case impl s of None \<Rightarrow> None | Some m \<Rightarrow> Some (Clone m))\<rparr>"

definition set_Destroy :: "'k pset \<Rightarrow> 'k pset" where
  "set_Destroy s = (case impl s of None \<Rightarrow> s | Some m \<Rightarrow> s\<lparr>impl := Some (Destroy m)\<rparr>)"

definition set_Contains :: "('k::linorder) pset \<Rightarrow> 'k \<Rightarrow> bool" where
  "set_Contains s key = (case impl s of None \<Rightarrow> False | Some m \<Rightarrow> Get m key \<noteq> None)"

definition set_All :: "'k pset \<Rightarrow> ('k \<Rightarrow> 's \<Rightarrow> bool \<times> 's) \<Rightarrow> 's \<Rightarrow> 's" where
  "set_All s yield st =
     (case impl s of None \<Rightarrow> st | Some m \<Rightarrow> snd (forEach (root m) (\<lambda>k _. yield k) st))"

definition set_AddAll :: "('k::linorder) pset \<Rightarrow> 'k pset \<Rightarrow> 'k pset" where
  "set_AddAll s other =
     (case impl other of
        None \<Rightarrow> s
      | Some om \<Rightarrow>
          let m = (case impl s of None \<Rightarrow> empty_map | Some m \<Rightarrow> m)
          in s\<lparr>impl := Some (SetAll m om)\<rparr>)"

definition set_Add :: "('k::linorder) pset \<Rightarrow> 'k \<Rightarrow> weight \<Rightarrow> 'k pset" where
  "set_Add s key w =
     (let m = (case impl s of None \<Rightarrow> empty_map | Some m \<Rightarrow> m)
      in s\<lparr>impl := Some (Set m key () w)\<rparr>)"

definition set_Remove :: "('k::linorder) pset \<Rightarrow> 'k \<Rightarrow> 'k pset" where
  "set_Remove s key =
     (case impl s of None \<Rightarrow> s | Some m \<Rightarrow> s\<lparr>impl := Some (fst (Delete m key))\<rparr>)"

section \<open>Correctness\<close>

definition wf_set :: "('k::linorder) pset \<Rightarrow> bool" where
  "wf_set s \<longleftrightarrow> (case impl s of None \<Rightarrow> True | Some m \<Rightarrow> wf_map m)"

definition set_items :: "'k pset \<Rightarrow> 'k list" where
  "set_items s = set_All s (\<lambda>k acc. (True, acc @ [k])) []"

lemma set_items_keys:
  "set_items s = (case impl s of None \<Rightarrow> [] | Some m \<Rightarrow> map fst (entries (root m)))"
proof -
  have "snd (fold_until (\<lambda>k _ acc. (True, acc @ [k])) xs acc) = acc @ map fst xs"
    for xs :: "('a \<times> unit) list" and acc by (induction xs arbitrary: acc) auto
  then show ?thesis
    by (auto simp: set_items_def set_All_def forEach_fold split: option.splits)
qed

lemmas set_op_defs = new_set_def set_Add_def set_AddAll_def set_Remove_def set_Contains_def
  wf_set_def Let_def

lemma set_items_member:
  assumes "wf_set s"
  shows "set (set_items s) = {x. set_Contains s x}" "sorted_wrt (<) (set_items s)"
proof -
  have "Get m x \<noteq> None \<longleftrightarrow> x \<in> fst ` set (entries (root m))" if "impl s = Some m" for m x
    using that assms keys_get [of "root m" x] by (simp add: wf_set_def wf_map_def Get_def keys_def)
  then show "set (set_items s) = {x. set_Contains s x}"
    by (cases "impl s") (auto simp: set_items_keys set_Contains_def)
  show "sorted_wrt (<) (set_items s)"
    using assms by (auto simp: set_items_keys wf_set_def wf_map_def sorted_entries split: option.splits)
qed

interpretation ps: set_contract wf_set new_set set_Add set_AddAll set_Contains set_items
proof
  fix s t :: "'a::linorder pset" and x y w
  assume s: "wf_set s"
  show "wf_set (set_Add s x w)" "set_Contains (set_Add s x w) y \<longleftrightarrow> y = x \<or> set_Contains s y"
    using s by (auto simp: set_op_defs pm.inv_upd pm.inv_new pm.lookup_upd pm.lookup_new split: option.splits)
  show "set (set_items s) = {x. set_Contains s x}" "distinct (set_items s)"
    using set_items_member [OF s] by (simp_all add: strict_sorted_iff)
  assume t: "wf_set t"
  show "wf_set (set_AddAll s t)"
    "set_Contains (set_AddAll s t) y \<longleftrightarrow> set_Contains s y \<or> set_Contains t y"
    using s t by (auto simp: set_op_defs pm.inv_upd_all pm.inv_new pm.lookup_upd_all pm.lookup_new
        map_add_def split: option.splits)
qed (simp_all add: set_op_defs)

lemma set_Remove_correct:
  assumes "wf_set s"
  shows "wf_set (set_Remove s x)" "set_Contains (set_Remove s x) y \<longleftrightarrow> y \<noteq> x \<and> set_Contains s y"
  using assms by (auto simp: set_op_defs pm.inv_del pm.lookup_del split: option.splits)

text \<open>\<open>SetAll\<close> is what its documentation says, equivalent to calling \<open>Set\<close> for each entry
  of the other map (in the order \<open>All\<close> visits them): both maps give the same answer to every
  \<open>Get\<close>, whatever weights the single \<open>Set\<close> calls draw.\<close>

theorem SetAll_is_Set_each:
  assumes "wf_map pm" "wf_map other" "length ws = length (map_items other)"
  shows "Get (SetAll pm other) = Get (fold (\<lambda>((k, v), w) m. Set m k v w) (zip (map_items other) ws) pm)"
  using pm.upd_all_eq_upd_list [of pm other "zip (map_items other) ws"] assms
  by (simp add: pm.upd_list_def)

lemma SetAll_is_Set_each_witness:
  "Get (SetAll (Set empty_map (1::nat) True 5) (Set (Set empty_map 1 False 3) 2 True 8)) =
   Get (fold (\<lambda>((k, v), w) m. Set m k v w)
          (zip (map_items (Set (Set empty_map 1 False 3) 2 True 8)) [6, 7]) (Set empty_map (1::nat) True 5))"
proof (rule SetAll_is_Set_each)
  show "length [6, 7 :: weight] = length (map_items (Set (Set empty_map (1::nat) False 3) 2 True 8))"
    by code_simp
qed (simp_all add: wf_Set wf_empty)

text \<open>A set behaves as a finite mathematical set whether or not its map has been allocated:
  \<open>Add\<close>, \<open>AddAll\<close> and \<open>Remove\<close> insert, unite and delete, \<open>All\<close> enumerates the elements in strictly
  ascending order, and building a set by adding a list of elements in any order and with any
  weights yields exactly those elements.\<close>

theorem set_operations:
  assumes "wf_set s" "wf_set t"
  shows "(set_Contains (set_Add s x w) y \<longleftrightarrow> y = x \<or> set_Contains s y)
    \<and> (set_Contains (set_AddAll s t) y \<longleftrightarrow> set_Contains s y \<or> set_Contains t y)
    \<and> (set_Contains (set_Remove s x) y \<longleftrightarrow> y \<noteq> x \<and> set_Contains s y)
    \<and> wf_set (set_Add s x w) \<and> wf_set (set_AddAll s t) \<and> wf_set (set_Remove s x)
    \<and> set (set_items s) = {z. set_Contains s z} \<and> sorted_wrt (<) (set_items s)
    \<and> set (set_items (fold (\<lambda>(z, u) s. set_Add s z u) zs new_set)) = fst ` set zs"
  using assms ps.from_list(2) [of zs]
  by (simp add: ps.member_add ps.member_add_all ps.inv_add ps.inv_add_all set_Remove_correct
      set_items_member ps.add_list_def)

lemma set_operations_witness:
  "set_Contains (set_AddAll (set_Add new_set (3::nat) 4) (set_Add new_set 5 1)) 5
   \<and> set_items (set_AddAll (set_Add new_set (3::nat) 4) (set_Add new_set 5 1)) = [3, 5]"
proof
  have "wf_set (set_Add new_set (3::nat) 4)" "wf_set (set_Add new_set (5::nat) 1)"
    by (simp_all add: ps.inv_add ps.inv_new)
  note s = set_operations [OF this]
  have "set_Contains (set_Add new_set (5::nat) 1) 5" by code_simp
  then show "set_Contains (set_AddAll (set_Add new_set (3::nat) 4) (set_Add new_set 5 1)) 5" using s by blast
qed code_simp

end
