(* ===== verification/Package_Set.thy ===== *)
theory Package_Set
  imports Containers "HOL-Library.AList" "HOL-Library.Word"
begin

unbundle bit_operations_syntax

text \<open>
  The compact package sets of \<open>gopls/internal/cache/typerefs/packageset.go\<close>: a \<open>PackageIndex\<close>
  numbers package ids in order of first use, and a \<open>PackageSet\<close> is a sparse bit vector over
  those numbers, a map from block number to a 64-bit word.  A Go map is an association list with
  distinct keys, whose order is the order in which \<open>range\<close> visits it.  An \<open>IndexID\<close> is a natural
  number: the code creates them only as slice lengths.  The pointer \<open>parent\<close> is the address of
  the index, and the index is passed along explicitly because \<open>Contains\<close> may extend it.
\<close>

section \<open>Maps in key order (\<open>gopls/internal/util/moremaps\<close>)\<close>

definition KeySlice :: "('k \<times> 'v) list \<Rightarrow> 'k list" where
  "KeySlice m = map fst m"

definition ValueSlice :: "('k \<times> 'v) list \<Rightarrow> 'v list" where
  "ValueSlice m = map snd m"

text \<open>The entries that the iterator of \<open>Sorted\<close> yields.\<close>

definition Sorted :: "('k::linorder \<times> 'v) list \<Rightarrow> ('k \<times> 'v) list" where
  "Sorted m = map (\<lambda>k. (k, the (map_of m k))) (sort (KeySlice m))"

definition Group :: "('v \<Rightarrow> 'k) \<Rightarrow> 'v list \<Rightarrow> ('k \<times> 'v list) list" where
  "Group key s = fold (\<lambda>v m. let k = key v in
     AList.update k ((case map_of m k of None \<Rightarrow> [] | Some l \<Rightarrow> l) @ [v]) m) s []"

definition SameKeys :: "('k \<times> 'v1) list \<Rightarrow> ('k \<times> 'v2) list \<Rightarrow> bool" where
  "SameKeys x y \<longleftrightarrow> length x = length y \<and> list_all (\<lambda>(k, v). map_of y k \<noteq> None) x"

section \<open>The index\<close>

type_synonym PackageID = string
type_synonym IndexID = nat

record PackageIndex =
  ids :: "PackageID list"
  index_m :: "(PackageID \<times> IndexID) list"

definition NewPackageIndex :: PackageIndex where
  "NewPackageIndex = \<lparr>ids = [], index_m = []\<rparr>"

definition getIndexID :: "PackageIndex \<Rightarrow> PackageID \<Rightarrow> IndexID \<times> PackageIndex" where
  "getIndexID index p =
     (case map_of (index_m index) p of
        Some i \<Rightarrow> (i, index)
      | None \<Rightarrow>
          let i = length (ids index)
          in (i, index\<lparr>index_m := AList.update p i (index_m index), ids := ids index @ [p]\<rparr>))"

definition getPackageID :: "PackageIndex \<Rightarrow> IndexID \<Rightarrow> (unit, PackageID) outcome" where
  "getPackageID index idx = (if idx < length (ids index) then Ok (ids index ! idx) else Panic)"

section \<open>The sets\<close>

type_synonym blockType = "64 word"

definition blockSize :: nat where "blockSize = 64"

record PackageSet =
  parent :: nat
  sparse :: "(nat \<times> blockType) list"

definition NewSet :: "nat \<Rightarrow> PackageSet" where
  "NewSet addr = \<lparr>parent = addr, sparse = []\<rparr>"

text \<open>Reading a missing key of a Go map gives the zero block.\<close>

definition block_at :: "(nat \<times> blockType) list \<Rightarrow> nat \<Rightarrow> blockType" where
  "block_at m k = (case map_of m k of None \<Rightarrow> 0 | Some v \<Rightarrow> v)"

definition pkg_Add :: "PackageSet \<Rightarrow> IndexID \<Rightarrow> PackageSet" where
  "pkg_Add s idx =
     s\<lparr>sparse := AList.update (idx div blockSize)
         (block_at (sparse s) (idx div blockSize) OR push_bit (idx mod blockSize) 1) (sparse s)\<rparr>"

definition AddPackage :: "PackageIndex \<Rightarrow> PackageSet \<Rightarrow> PackageID \<Rightarrow> PackageSet \<times> PackageIndex" where
  "AddPackage index s p = (case getIndexID index p of (i, index') \<Rightarrow> (pkg_Add s i, index'))"

fun union_loop :: "(nat \<times> blockType) list \<Rightarrow> (nat \<times> blockType) list \<Rightarrow> (nat \<times> blockType) list" where
  "union_loop m [] = m"
| "union_loop m ((k, v) # rest) =
     (let v0 = block_at m k
      in union_loop (if v0 \<noteq> v then AList.update k (v0 OR v) m else m) rest)"

definition pkg_Union :: "PackageSet \<Rightarrow> PackageSet option \<Rightarrow> (unit, PackageSet) outcome" where
  "pkg_Union s other =
     (case other of
        None \<Rightarrow> Ok s
      | Some other \<Rightarrow>
          if parent other \<noteq> parent s then Panic
          else Ok (s\<lparr>sparse := union_loop (sparse s) (sparse other)\<rparr>))"

definition pkg_Contains :: "PackageIndex \<Rightarrow> PackageSet \<Rightarrow> PackageID \<Rightarrow> bool \<times> PackageIndex" where
  "pkg_Contains index s p =
     (case getIndexID index p of (i, index') \<Rightarrow>
        (block_at (sparse s) (i div blockSize) AND push_bit (i mod blockSize) 1 \<noteq> 0, index'))"

definition Elems :: "PackageSet \<Rightarrow> (IndexID \<Rightarrow> 's \<Rightarrow> 's) \<Rightarrow> 's \<Rightarrow> 's" where
  "Elems s f st =
     fold (\<lambda>(i, v) st.
       fold (\<lambda>b st. if v AND push_bit b 1 \<noteq> 0 then f (i * blockSize + b) st else st)
         [0..<blockSize] st)
       (Sorted (sparse s)) st"

definition pkg_String :: "PackageIndex \<Rightarrow> PackageSet \<Rightarrow> (unit, string) outcome" where
  "pkg_String index s =
     bind_outcome
       (Elems s (\<lambda>idx acc. bind_outcome acc (\<lambda>ps.
          bind_outcome (getPackageID index idx) (\<lambda>p. Ok (ps @ [p])))) (Ok []))
       (\<lambda>ps. Ok (''{'' @ str_join '', '' ps @ ''}''))"

section \<open>Correctness of the index\<close>

definition wf_index :: "PackageIndex \<Rightarrow> bool" where
  "wf_index ix \<longleftrightarrow> (\<forall>p i. map_of (index_m ix) p = Some i \<longleftrightarrow> i < length (ids ix) \<and> ids ix ! i = p)"

lemma wf_NewPackageIndex: "wf_index NewPackageIndex"
  by (simp add: wf_index_def NewPackageIndex_def)

lemma getIndexID_correct:
  assumes "wf_index ix" "getIndexID ix p = (i, ix')"
  shows "wf_index ix'" "getPackageID ix' i = Ok p"
    "\<And>j q. getPackageID ix j = Ok q \<Longrightarrow> getPackageID ix' j = Ok q"
    "getIndexID ix' p = (i, ix')" "i < length (ids ix')"
proof -
  note wf = assms(1) [unfolded wf_index_def]
  have all: "wf_index ix' \<and> getPackageID ix' i = Ok p \<and> i < length (ids ix')
    \<and> (\<forall>j q. getPackageID ix j = Ok q \<longrightarrow> getPackageID ix' j = Ok q)"
  proof (cases "map_of (index_m ix) p")
    case None
    then have r: "i = length (ids ix)"
      "ix' = ix\<lparr>index_m := AList.update p i (index_m ix), ids := ids ix @ [p]\<rparr>"
      using assms(2) by (auto simp: getIndexID_def Let_def)
    have new: "ids ix ! j \<noteq> p" if "j < length (ids ix)" for j
      using wf None that by (metis option.distinct(1))
    have "wf_index ix'"
      unfolding wf_index_def r using wf new
      by (auto simp: update_conv' nth_append less_Suc_eq)
    then show ?thesis by (auto simp: r getPackageID_def nth_append split: if_splits)
  next
    case (Some k)
    then have "i = k" "ix' = ix" using assms(2) by (simp_all add: getIndexID_def)
    then show ?thesis using Some assms(1) wf by (simp add: getPackageID_def)
  qed
  then show "wf_index ix'" "getPackageID ix' i = Ok p" "i < length (ids ix')"
    "\<And>j q. getPackageID ix j = Ok q \<Longrightarrow> getPackageID ix' j = Ok q" by blast+
  with all have "map_of (index_m ix') p = Some i"
    by (auto simp: wf_index_def getPackageID_def split: if_splits)
  then show "getIndexID ix' p = (i, ix')" by (simp add: getIndexID_def)
qed

section \<open>Correctness of the sets\<close>

text \<open>The set of indexes that a sparse vector stands for.\<close>

definition pkg_member :: "PackageSet \<Rightarrow> IndexID \<Rightarrow> bool" where
  "pkg_member s i \<longleftrightarrow> bit (block_at (sparse s) (i div blockSize)) (i mod blockSize)"

definition wf_pkgset :: "PackageSet \<Rightarrow> bool" where
  "wf_pkgset s \<longleftrightarrow> distinct (map fst (sparse s))"

lemma blockSize_pos [simp]: "0 < blockSize" by (simp add: blockSize_def)

lemma block_at_update: "block_at (AList.update k v m) j = (if j = k then v else block_at m j)"
  by (simp add: block_at_def update_conv')

lemma bit_push_one: "b < 64 \<Longrightarrow> bit ((2 :: blockType) ^ b) n \<longleftrightarrow> n = b"
  by (auto simp: bit_simps)

lemma test_bit: "(v :: blockType) AND 2 ^ b = 0 \<longleftrightarrow> \<not> bit v b"
  using bit_iff_and_push_bit_not_eq_0 [of v b] by simp

lemma pkg_member_Add: "pkg_member (pkg_Add s i) j \<longleftrightarrow> j = i \<or> pkg_member s j"
proof -
  have "j div blockSize = i div blockSize \<and> j mod blockSize = i mod blockSize \<longleftrightarrow> j = i"
    by (metis div_mult_mod_eq)
  moreover have "i mod blockSize < 64" by (simp add: blockSize_def)
  ultimately show ?thesis
    by (auto simp: pkg_member_def pkg_Add_def block_at_update bit_or_iff bit_push_one)
qed

lemma block_at_union_loop:
  "distinct (map fst other) \<Longrightarrow> block_at (union_loop m other) k = block_at m k OR block_at other k"
proof (induction m other rule: union_loop.induct)
  case (1 m)
  then show ?case by (simp add: block_at_def)
next
  case (2 m k' v rest)
  have "block_at rest k' = 0"
    using 2(2) by (force simp: block_at_def map_of_eq_None_iff split: option.splits)
  moreover have "block_at ((k', v) # rest) k = (if k = k' then v else block_at rest k)"
    by (simp add: block_at_def)
  ultimately show ?case using 2 by (simp add: Let_def block_at_update)
qed

lemma distinct_union_loop: "distinct (map fst m) \<Longrightarrow> distinct (map fst (union_loop m other))"
  by (induction m other rule: union_loop.induct) (simp_all add: Let_def distinct_update)

text \<open>The union as a total operation on sets of one index.\<close>

definition pkg_union_same :: "PackageSet \<Rightarrow> PackageSet \<Rightarrow> PackageSet" where
  "pkg_union_same s t = (case pkg_Union s (Some (t\<lparr>parent := parent s\<rparr>)) of Ok u \<Rightarrow> u | _ \<Rightarrow> s)"

lemma pkg_Union_same: "parent t = parent s \<Longrightarrow> pkg_Union s (Some t) = Ok (pkg_union_same s t)"
  by (simp add: pkg_union_same_def pkg_Union_def)

lemma Sorted_props:
  assumes "distinct (map fst m)"
  shows "sorted_wrt (<) (map fst (Sorted m))" "set (Sorted m) = set m"
proof -
  have keys: "map fst (Sorted m) = sort (map fst m)" by (simp add: Sorted_def KeySlice_def comp_def)
  then show "sorted_wrt (<) (map fst (Sorted m))" using assms by (simp add: strict_sorted_iff)
  have "the (map_of m k) = v" if "(k, v) \<in> set m" for k v using that assms by simp
  then show "set (Sorted m) = set m" by (force simp: Sorted_def KeySlice_def)
qed

text \<open>The elements in the order of the two loops of \<open>Elems\<close>.\<close>

definition block_elems :: "nat \<times> blockType \<Rightarrow> IndexID list" where
  "block_elems e = (case e of (i, v) \<Rightarrow>
     map (\<lambda>b. i * blockSize + b) (filter (\<lambda>b. bit v b) [0..<blockSize]))"

definition elem_list :: "PackageSet \<Rightarrow> IndexID list" where
  "elem_list s = concat (map block_elems (Sorted (sparse s)))"

lemma Elems_fold: "Elems s f st = fold f (elem_list s) st"
proof -
  have blk: "fold (\<lambda>b st. if bit v b then f (i * blockSize + b) st else st) bs st
      = fold f (map (\<lambda>b. i * blockSize + b) (filter (\<lambda>b. bit v b) bs)) st" for i v bs st
    by (induction bs arbitrary: st) auto
  have "fold (\<lambda>(i, v) st. fold (\<lambda>b st. if bit v b then f (i * blockSize + b) st else st)
          [0..<blockSize] st) es st
      = fold f (concat (map block_elems es)) st" for es st
    by (induction es arbitrary: st) (auto simp: block_elems_def blk)
  then show ?thesis by (simp add: Elems_def elem_list_def test_bit)
qed

lemma block_elems_bounds:
  "x \<in> set (block_elems (i, v)) \<longleftrightarrow> x div blockSize = i \<and> bit v (x mod blockSize)"
proof
  assume "x \<in> set (block_elems (i, v))"
  then obtain b where "x = i * blockSize + b" "b < blockSize" "bit v b"
    by (auto simp: block_elems_def)
  then show "x div blockSize = i \<and> bit v (x mod blockSize)" by simp
next
  assume x: "x div blockSize = i \<and> bit v (x mod blockSize)"
  then have "x = i * blockSize + x mod blockSize" by (metis div_mult_mod_eq)
  moreover have "x mod blockSize < blockSize" by simp
  ultimately show "x \<in> set (block_elems (i, v))" using x
    unfolding block_elems_def prod.case set_map set_filter by (intro image_eqI) auto
qed

lemma elem_list_correct:
  assumes "wf_pkgset s"
  shows "set (elem_list s) = {i. pkg_member s i}" "sorted_wrt (<) (elem_list s)"
proof -
  note d = assms [unfolded wf_pkgset_def]
  have "x \<in> set (elem_list s) \<longleftrightarrow> pkg_member s x" for x
  proof -
    have "x \<in> set (elem_list s) \<longleftrightarrow> (\<exists>v. (x div blockSize, v) \<in> set (sparse s) \<and> bit v (x mod blockSize))"
      by (simp add: elem_list_def Sorted_props(2) [OF d] Bex_def split_paired_Ex block_elems_bounds)
    also have "\<dots> \<longleftrightarrow> pkg_member s x"
    proof -
      have "(k, v) \<in> set (sparse s) \<longleftrightarrow> map_of (sparse s) k = Some v" for k v using d by simp
      then show ?thesis by (auto simp: pkg_member_def block_at_def simp del: map_of_eq_Some_iff split: option.splits)
    qed
    finally show ?thesis .
  qed
  then show "set (elem_list s) = {i. pkg_member s i}" by blast
  have "sorted_wrt (<) (concat (map block_elems es))" if "sorted_wrt (<) (map fst es)" for es
    using that
  proof (induction es)
    case (Cons e es)
    have "sorted_wrt (<) (block_elems e)"
      by (cases e) (simp add: block_elems_def sorted_wrt_map sorted_wrt_filter)
    moreover have "x < y" if "x \<in> set (block_elems e)" "e' \<in> set es" "y \<in> set (block_elems e')" for x e' y
    proof -
      have "x div blockSize < y div blockSize"
        using that Cons.prems by (cases e; cases e') (auto simp: block_elems_bounds)
      then show ?thesis by (metis div_le_mono not_less)
    qed
    ultimately show ?case using Cons by (auto simp: sorted_wrt_append)
  qed simp
  then show "sorted_wrt (<) (elem_list s)" using Sorted_props(1) [OF d] by (simp add: elem_list_def)
qed

interpretation pkgset: set_contract wf_pkgset "NewSet addr" "\<lambda>s i (_::unit). pkg_Add s i"
  pkg_union_same pkg_member elem_list
proof
  fix s t :: PackageSet and x y :: IndexID
  assume s: "wf_pkgset s"
  show "wf_pkgset (pkg_Add s x)" using s by (simp add: wf_pkgset_def pkg_Add_def distinct_update)
  show "set (elem_list s) = {x. pkg_member s x}" "distinct (elem_list s)"
    using elem_list_correct [OF s] by (simp_all add: strict_sorted_iff)
  assume t: "wf_pkgset t"
  show "wf_pkgset (pkg_union_same s t)"
    "pkg_member (pkg_union_same s t) y \<longleftrightarrow> pkg_member s y \<or> pkg_member t y"
    using s t by (simp_all add: wf_pkgset_def pkg_union_same_def pkg_Union_def pkg_member_def
        distinct_union_loop block_at_union_loop bit_or_iff)
qed (simp_all add: pkg_member_Add, simp_all add: wf_pkgset_def NewSet_def pkg_member_def block_at_def)

lemma pkg_String_eq:
  "Elems s (\<lambda>idx acc. bind_outcome acc (\<lambda>ps.
      bind_outcome (getPackageID ix idx) (\<lambda>p. Ok (ps @ [p])))) (Ok [])
    = (if \<forall>i \<in> set (elem_list s). i < length (ids ix) then Ok (map ((!) (ids ix)) (elem_list s)) else Panic)"
proof -
  have "fold (\<lambda>idx acc. bind_outcome acc (\<lambda>ps.
      bind_outcome (getPackageID ix idx) (\<lambda>p. Ok (ps @ [p])))) is acc
    = (case acc of Ok ps \<Rightarrow> if \<forall>i \<in> set is. i < length (ids ix) then Ok (ps @ map ((!) (ids ix)) is) else Panic
       | x \<Rightarrow> x)" for "is" acc
    by (induction "is" arbitrary: acc) (auto simp: getPackageID_def split: outcome.splits)
  then show ?thesis by (simp add: Elems_fold)
qed

text \<open>A package index is a bijection in the making: an id keeps the number it was first
  given, whatever further ids are numbered, the number leads back to the id, and \<open>IndexID\<close> is
  idempotent; the invariant behind it is kept.\<close>

theorem index_roundtrip:
  assumes "wf_index ix" "getIndexID ix p = (i, ix')"
  shows "wf_index ix' \<and> getPackageID ix' i = Ok p \<and> getIndexID ix' p = (i, ix')
    \<and> (\<forall>j q. getPackageID ix j = Ok q \<longrightarrow> getPackageID ix' j = Ok q)
    \<and> (\<forall>j q. getPackageID ix' j = Ok q \<longrightarrow> getIndexID ix' q = (j, ix'))"
proof -
  have "getIndexID ix' q = (j, ix')" if "getPackageID ix' j = Ok q" for j q
  proof -
    have "map_of (index_m ix') q = Some j"
      using that getIndexID_correct(1) [OF assms]
      by (auto simp: wf_index_def getPackageID_def split: if_splits)
    then show ?thesis by (simp add: getIndexID_def)
  qed
  then show ?thesis using getIndexID_correct [OF assms] by blast
qed

lemma index_roundtrip_witness:
  "getIndexID NewPackageIndex ''fmt'' = (0, \<lparr>ids = [''fmt''], index_m = [(''fmt'', 0)]\<rparr>)
   \<and> getPackageID \<lparr>ids = [''fmt''], index_m = [(''fmt'', 0)]\<rparr> 0 = Ok ''fmt''"
proof -
  have g: "getIndexID NewPackageIndex ''fmt'' = (0, \<lparr>ids = [''fmt''], index_m = [(''fmt'', 0)]\<rparr>)"
    by code_simp
  show ?thesis using index_roundtrip [OF wf_NewPackageIndex g] g by simp
qed

text \<open>Claim C19: \<open>PackageSet\<close> implements finite sets of package numbers on 64-bit blocks: a set built
  by any sequence of \<open>Add\<close> contains exactly the added numbers, \<open>Union\<close> of sets with one parent is
  set union (a nil argument changes nothing, another parent panics), \<open>Contains\<close> decides membership
  of the id's number, and \<open>Elems\<close> calls its function on each member once, in ascending order.\<close>

theorem PackageSet_operations:
  assumes "wf_pkgset s" "wf_pkgset t"
  shows "set (elem_list (fold (\<lambda>i s. pkg_Add s i) is (NewSet addr))) = set is
    \<and> pkg_Union s None = Ok s
    \<and> (parent t \<noteq> parent s \<longrightarrow> pkg_Union s (Some t) = Panic)
    \<and> (parent t = parent s \<longrightarrow> (\<exists>u. pkg_Union s (Some t) = Ok u \<and> wf_pkgset u
          \<and> set (elem_list u) = set (elem_list s) \<union> set (elem_list t)))
    \<and> (fst (pkg_Contains ix s p) \<longleftrightarrow> fst (getIndexID ix p) \<in> set (elem_list s))
    \<and> Elems s f st = fold f (elem_list s) st \<and> sorted_wrt (<) (elem_list s)"
proof -
  have "fold (\<lambda>(x, w) s. pkg_Add s x) (map (\<lambda>i. (i, ())) is) s = fold (\<lambda>i s. pkg_Add s i) is s" for s
    by (simp add: fold_map comp_def)
  then have "set (elem_list (fold (\<lambda>i s. pkg_Add s i) is (NewSet addr))) = set is"
    using pkgset.from_list(2) [of addr "map (\<lambda>i. (i, ())) is"]
    by (simp add: pkgset.add_list_def image_image)
  moreover have "fst (pkg_Contains ix s p) \<longleftrightarrow> pkg_member s (fst (getIndexID ix p))"
    by (simp add: pkg_Contains_def pkg_member_def test_bit split: prod.splits)
  moreover have "parent t = parent s \<longrightarrow> (\<exists>u. pkg_Union s (Some t) = Ok u \<and> wf_pkgset u
          \<and> set (elem_list u) = set (elem_list s) \<union> set (elem_list t))"
    using assms pkgset.inv_add_all [OF assms] pkgset.elems(1)
    by (auto simp: pkg_Union_same pkgset.member_add_all)
  ultimately show ?thesis
    using assms pkgset.elems(1) [OF assms(1)]
    by (intro conjI) (simp_all add: Elems_fold elem_list_correct(2), simp_all add: pkg_Union_def)
qed

lemma PackageSet_operations_witness:
  "set (elem_list (fold (\<lambda>i s. pkg_Add s i) [130, 3, 64, 3] (NewSet 7))) = {3, 64, 130}
   \<and> elem_list (fold (\<lambda>i s. pkg_Add s i) [130, 3, 64, 3] (NewSet 7)) = [3, 64, 130]"
proof
  have "wf_pkgset (NewSet 7)" by (simp add: wf_pkgset_def NewSet_def)
  from PackageSet_operations [OF this this, THEN conjunct1, of "[130, 3, 64, 3]" 7]
  show "set (elem_list (fold (\<lambda>i s. pkg_Add s i) [130, 3, 64, 3] (NewSet 7))) = {3, 64, 130}" by auto
qed code_simp

end
