(* ===== verification/Bloom_Filter.thy ===== *)
theory Bloom_Filter
  imports Containers "HOL-Library.Word"
begin

unbundle bit_operations_syntax

text \<open>
  The bloom filter of \<open>gopls/internal/bloom/filter.go\<close>.  The hash function of \<open>hash/maphash\<close> is the
  parameter \<open>hash\<close>, from a seed and a string to a 64-bit word, and the seeds that
  \<open>maphash.MakeSeed\<close> draws are an argument of \<open>NewFilter\<close>.  The two sizes come from \<open>calibrate\<close>,
  floating-point estimation of which only the positivity of the results matters here; they are
  the number of blocks and the length of the seed list.
\<close>

type_synonym block = "8 word"
type_synonym 's hash = "'s \<Rightarrow> string \<Rightarrow> 64 word"

definition blockBits :: nat where "blockBits = 8"

record 's bloom =
  seeds :: "'s list"
  blocks :: "block list"

text \<open>\<open>locate\<close>: the block index and the bit.  With no blocks the modulus is zero and Go panics.\<close>

definition locate :: "'s hash \<Rightarrow> 's bloom \<Rightarrow> 's \<Rightarrow> string \<Rightarrow> (unit, nat \<times> block) outcome" where
  "locate hash f seed s =
     (let h = unat (hash seed s) in
      if blocks f = [] then Panic
      else Ok (h div blockBits mod length (blocks f), push_bit (h mod blockBits) 1))"

fun add_seeds :: "'s hash \<Rightarrow> 's list \<Rightarrow> string \<Rightarrow> 's bloom \<Rightarrow> (unit, 's bloom) outcome" where
  "add_seeds hash [] elem f = Ok f"
| "add_seeds hash (seed # ss) elem f =
     bind_outcome (locate hash f seed elem) (\<lambda>(index, b).
       add_seeds hash ss elem (f\<lparr>blocks := (blocks f)[index := blocks f ! index OR b]\<rparr>))"

fun add_elems :: "'s hash \<Rightarrow> string list \<Rightarrow> 's bloom \<Rightarrow> (unit, 's bloom) outcome" where
  "add_elems hash [] f = Ok f"
| "add_elems hash (elem # elems) f =
     bind_outcome (add_seeds hash (seeds f) elem f) (add_elems hash elems)"

definition NewFilter :: "'s hash \<Rightarrow> nat \<Rightarrow> 's list \<Rightarrow> string list \<Rightarrow> (unit, 's bloom) outcome" where
  "NewFilter hash nblocks ss elems = add_elems hash elems \<lparr>seeds = ss, blocks = replicate nblocks 0\<rparr>"

fun may_contain_loop :: "'s hash \<Rightarrow> 's bloom \<Rightarrow> 's list \<Rightarrow> string \<Rightarrow> (unit, bool) outcome" where
  "may_contain_loop hash f [] s = Ok True"
| "may_contain_loop hash f (seed # ss) s =
     bind_outcome (locate hash f seed s) (\<lambda>(index, b).
       if blocks f ! index AND b = 0 then Ok False else may_contain_loop hash f ss s)"

definition MayContain :: "'s hash \<Rightarrow> 's bloom \<Rightarrow> string \<Rightarrow> (unit, bool) outcome" where
  "MayContain hash f s = may_contain_loop hash f (seeds f) s"

section \<open>Correctness\<close>

text \<open>The position of a seed's bit, and whether it is set.\<close>

definition bit_pos :: "'s hash \<Rightarrow> nat \<Rightarrow> 's \<Rightarrow> string \<Rightarrow> nat \<times> nat" where
  "bit_pos hash n seed s = (unat (hash seed s) div 8 mod n, unat (hash seed s) mod 8)"

definition bit_set :: "'s bloom \<Rightarrow> nat \<times> nat \<Rightarrow> bool" where
  "bit_set f p \<longleftrightarrow> bit (blocks f ! fst p) (snd p)"

lemma locate_Ok:
  "blocks f \<noteq> [] \<Longrightarrow> locate hash f seed s =
     (case bit_pos hash (length (blocks f)) seed s of (i, b) \<Rightarrow> Ok (i, push_bit b 1))"
  by (simp add: locate_def bit_pos_def blockBits_def Let_def)

lemma bit_pos_less: "0 < n \<Longrightarrow> fst (bit_pos hash n seed s) < n" "snd (bit_pos hash n seed s) < 8"
  by (simp_all add: bit_pos_def)

lemma test_block: "(v :: block) AND push_bit b 1 = 0 \<longleftrightarrow> \<not> bit v b"
  using bit_iff_and_push_bit_not_eq_0 [of v b] by simp

lemma bit_set_update:
  assumes "i < length (blocks f)" "b < 8" "fst q < length (blocks f)"
  shows "bit_set (f\<lparr>blocks := (blocks f)[i := blocks f ! i OR push_bit b 1]\<rparr>) q
    \<longleftrightarrow> bit_set f q \<or> q = (i, b)"
proof -
  have "bit ((2 :: block) ^ b) n \<longleftrightarrow> n = b" for n using assms(2) by (auto simp: bit_simps)
  then show ?thesis using assms by (cases q) (auto simp: bit_set_def nth_list_update bit_or_iff)
qed

lemma add_seeds_Ok:
  assumes "blocks f \<noteq> []"
  shows "\<exists>f'. add_seeds hash ss elem f = Ok f' \<and> seeds f' = seeds f
    \<and> length (blocks f') = length (blocks f)
    \<and> (\<forall>q. fst q < length (blocks f) \<longrightarrow>
         (bit_set f' q \<longleftrightarrow> bit_set f q \<or> (\<exists>seed \<in> set ss. q = bit_pos hash (length (blocks f)) seed elem)))"
  using assms
proof (induction ss arbitrary: f)
  case (Cons seed ss)
  let ?n = "length (blocks f)"
  obtain i b where p: "bit_pos hash ?n seed elem = (i, b)" by (cases "bit_pos hash ?n seed elem")
  then have ib: "i < ?n" "b < 8"
    using bit_pos_less(1) [of ?n hash seed elem] bit_pos_less(2) [of hash ?n seed elem] Cons.prems by auto
  let ?f = "f\<lparr>blocks := (blocks f)[i := blocks f ! i OR push_bit b 1]\<rparr>"
  have "add_seeds hash (seed # ss) elem f = add_seeds hash ss elem ?f"
    using Cons.prems p by (simp add: locate_Ok)
  moreover have "blocks ?f \<noteq> []" using Cons.prems by simp
  note ih = Cons.IH [OF this]
  ultimately show ?case using ih p bit_set_update [OF ib] by fastforce
qed simp

lemma add_elems_Ok:
  assumes "blocks f \<noteq> []"
  shows "\<exists>f'. add_elems hash elems f = Ok f' \<and> seeds f' = seeds f
    \<and> length (blocks f') = length (blocks f)
    \<and> (\<forall>q. fst q < length (blocks f) \<longrightarrow>
         (bit_set f' q \<longleftrightarrow> bit_set f q
            \<or> (\<exists>e \<in> set elems. \<exists>seed \<in> set (seeds f). q = bit_pos hash (length (blocks f)) seed e)))"
  using assms
proof (induction elems arbitrary: f)
  case (Cons e elems)
  from add_seeds_Ok [OF Cons.prems, of hash "seeds f" e]
  obtain g where g: "add_seeds hash (seeds f) e f = Ok g" "seeds g = seeds f"
      "length (blocks g) = length (blocks f)"
    and q: "\<forall>q. fst q < length (blocks f) \<longrightarrow> (bit_set g q \<longleftrightarrow> bit_set f q
      \<or> (\<exists>seed \<in> set (seeds f). q = bit_pos hash (length (blocks f)) seed e))" by blast
  have "blocks g \<noteq> []" using g(3) Cons.prems by auto
  from Cons.IH [OF this] g q show ?case by fastforce
qed simp

lemma may_contain_loop_Ok:
  "blocks f \<noteq> [] \<Longrightarrow> may_contain_loop hash f ss s =
     Ok (\<forall>seed \<in> set ss. bit_set f (bit_pos hash (length (blocks f)) seed s))"
  by (induction ss) (auto simp: locate_Ok bit_set_def test_block simp del: push_bit_of_1 split: prod.splits)

text \<open>The filter as a total function of its elements, for a positive number of blocks.\<close>

definition build_filter :: "'s hash \<Rightarrow> nat \<Rightarrow> 's list \<Rightarrow> string list \<Rightarrow> 's bloom" where
  "build_filter hash n ss elems = (case NewFilter hash (Suc n) ss elems of Ok f \<Rightarrow> f
     | _ \<Rightarrow> \<lparr>seeds = ss, blocks = []\<rparr>)"

lemma NewFilter_MayContain:
  assumes "0 < n"
  obtains f where "NewFilter hash n ss elems = Ok f" "length (blocks f) = n"
    "\<And>s. MayContain hash f s = Ok (\<forall>seed \<in> set ss. \<exists>e \<in> set elems. \<exists>seed' \<in> set ss.
       bit_pos hash n seed s = bit_pos hash n seed' e)"
    "\<And>s. s \<in> set elems \<Longrightarrow> MayContain hash f s = Ok True"
proof -
  let ?f0 = "\<lparr>seeds = ss, blocks = replicate n 0\<rparr> :: 'a bloom"
  have "blocks ?f0 \<noteq> []" using assms by simp
  from add_elems_Ok [OF this, of hash elems]
  obtain f where f: "NewFilter hash n ss elems = Ok f" "seeds f = ss" "length (blocks f) = n"
    and q: "\<forall>q. fst q < n \<longrightarrow> (bit_set f q \<longleftrightarrow> bit_set ?f0 q
      \<or> (\<exists>e \<in> set elems. \<exists>seed \<in> set ss. q = bit_pos hash n seed e))"
    by (auto simp: NewFilter_def)
  have "blocks f \<noteq> []" using f(3) assms by auto
  moreover have "\<not> bit_set ?f0 (bit_pos hash n seed s)" for seed s
    using bit_pos_less(1) [OF assms, of hash seed s] by (simp add: bit_set_def)
  moreover have "fst (bit_pos hash n seed s) < n" for seed s
    using bit_pos_less(1) [OF assms, of hash seed s] .
  ultimately have set: "bit_set f (bit_pos hash n seed s)
      \<longleftrightarrow> (\<exists>e \<in> set elems. \<exists>seed' \<in> set ss. bit_pos hash n seed s = bit_pos hash n seed' e)" for seed s
    using q [rule_format, of "bit_pos hash n seed s"] by simp
  have "MayContain hash f s = Ok (\<forall>seed \<in> set ss. bit_set f (bit_pos hash n seed s))" for s
    using f \<open>blocks f \<noteq> []\<close> by (simp add: MayContain_def may_contain_loop_Ok)
  then show ?thesis by (intro that [OF f(1,3)]) (auto simp: set)
qed

interpretation bloom: filter_contract "build_filter hash n ss" "\<lambda>f s. MayContain hash f s = Ok True"
proof
  fix x :: string and xs
  assume "x \<in> set xs"
  note x = this
  show "MayContain hash (build_filter hash n ss xs) x = Ok True"
    by (rule NewFilter_MayContain [of "Suc n" hash ss xs]) (use x in \<open>simp_all add: build_filter_def\<close>)
qed

text \<open>Claim C20: for every hash function, seeds and positive number of blocks, \<open>NewFilter\<close> returns and
  \<open>MayContain\<close> never panics; its answer is exact about the bits: true if and only if every seed's
  bit of the string is some element's bit.  So an element is never denied, and buckets can be
  skipped on a denial without losing a match.\<close>

theorem bloom_no_false_negatives:
  assumes "0 < n"
  shows "\<exists>f. NewFilter hash n ss elems = Ok f
    \<and> (\<forall>s. MayContain hash f s = Ok (\<forall>seed \<in> set ss. \<exists>e \<in> set elems. \<exists>seed' \<in> set ss.
             bit_pos hash n seed s = bit_pos hash n seed' e))
    \<and> (\<forall>s \<in> set elems. MayContain hash f s = Ok True)"
  by (rule NewFilter_MayContain [OF assms, of hash ss elems]) blast

lemma bloom_no_false_negatives_witness:
  "\<exists>f. NewFilter (\<lambda>(k :: nat) s. of_nat (k * length s)) 2 [3, 5] [''a'', ''bcd''] = Ok f
    \<and> MayContain (\<lambda>(k :: nat) s. of_nat (k * length s)) f ''bcd'' = Ok True
    \<and> blocks f = [40, 130]"
proof -
  obtain f where f: "NewFilter (\<lambda>(k :: nat) s. of_nat (k * length s)) 2 [3, 5] [''a'', ''bcd''] = Ok f"
    "\<forall>s \<in> set [''a'', ''bcd'']. MayContain (\<lambda>(k :: nat) s. of_nat (k * length s)) f s = Ok True"
    using bloom_no_false_negatives [of 2 "\<lambda>(k :: nat) s. of_nat (k * length s)" "[3, 5]" "[''a'', ''bcd'']"]
    by auto
  moreover have "(case NewFilter (\<lambda>(k :: nat) s. of_nat (k * length s)) 2 [3, 5] [''a'', ''bcd''] of
      Ok f \<Rightarrow> blocks f = [40, 130] | _ \<Rightarrow> False)" by code_simp
  ultimately show ?thesis by auto
qed

end
