(* ===== verification/Truncation.thy ===== *)
theory Truncation
  imports Go_Prelude
begin

text \<open>
  Truncation of file contents in \<open>gopls/mcpbridge/core/truncation.go\<close> and the tool
  \<open>go_read_file\<close> of \<open>gopls/mcpbridge/core/gopls_wrappers.go\<close> that uses it.  A content is a
  sequence of bytes.  What \<open>snapshot.ReadFile\<close> and \<open>fh.Content\<close> answer for the file is an
  argument of the handler.
\<close>

section \<open>Byte limit\<close>

definition TruncationIndicator :: string where
  "TruncationIndicator = NL # NL # ''[TRUNCATED]''"

text \<open>\<open>utf8.RuneStart\<close>: every byte but the continuation bytes \<open>0b10xxxxxx\<close>.\<close>

definition RuneStart :: "char \<Rightarrow> bool" where
  "RuneStart c \<longleftrightarrow> (of_char c :: nat) div 64 \<noteq> 2"

text \<open>The loop \<open>for i := safeMax; i < len(content); i++\<close>; with no rune start the content stays whole.\<close>

function cut_at_rune :: "string \<Rightarrow> nat \<Rightarrow> string" where
  "cut_at_rune content i =
     (if i < length content then
        (if RuneStart (content ! i) then take i content else cut_at_rune content (Suc i))
      else content)"
  by pat_completeness auto
termination
  by (relation "measure (\<lambda>(content, i). length content - i)") auto

declare cut_at_rune.simps [simp del]

definition truncateByBytes :: "string \<Rightarrow> int \<Rightarrow> string \<times> bool" where
  "truncateByBytes content maxBytes =
     (if maxBytes \<le> 0 \<or> int (length content) \<le> maxBytes then (content, False)
      else
        let safeMax = nat (maxBytes - int (length TruncationIndicator));
            truncated = cut_at_rune content safeMax;
            truncated = (case last_index_byte truncated NL of
                None \<Rightarrow> truncated
              | Some lastNewline \<Rightarrow>
                  if lastNewline > safeMax div 2 then take lastNewline truncated else truncated)
        in (truncated @ TruncationIndicator, True))"

section \<open>Line window\<close>

definition exceeds_message :: "int \<Rightarrow> nat \<Rightarrow> string" where
  "exceeds_message startLine n =
     ''[START_LINE '' @ itoa_int startLine @ '' exceeds file length '' @ itoa n @ '']''"

definition lines_message :: "int \<Rightarrow> int \<Rightarrow> nat \<Rightarrow> string" where
  "lines_message startLine maxLines n =
     ''showing lines '' @ itoa_int startLine @ ''-'' @ itoa_int (startLine + maxLines - 1) @ '' of ''
       @ itoa_int (int n + startLine - 1)"

definition bytes_message :: "int \<Rightarrow> string" where
  "bytes_message maxBytes = ''limited to '' @ itoa_int maxBytes @ '' bytes''"

text \<open>The part of \<open>TruncateFileContent\<close> after the start line has been applied.\<close>

definition truncate_lines :: "int \<Rightarrow> int \<Rightarrow> int \<Rightarrow> string list \<Rightarrow> string \<times> int \<times> string" where
  "truncate_lines maxBytes maxLines startLine lines =
     (let (actual, linesRead, info) =
            (if maxLines > 0 \<and> int (length lines) > maxLines
             then (str_join [NL] (take (nat maxLines) lines), maxLines,
                   [lines_message startLine maxLines (length lines)])
             else (str_join [NL] lines, int (length lines), []));
          (actual, info) =
            (if maxBytes > 0 then
               (case truncateByBytes actual maxBytes of (truncated, wasTruncated) \<Rightarrow>
                  if wasTruncated then (truncated, info @ [bytes_message maxBytes]) else (actual, info))
             else (actual, info));
          actual =
            (if info \<noteq> []
             then trim_suffix actual TruncationIndicator
                    @ NL # NL # ''[TRUNCATED: '' @ str_join '', '' info @ '']''
             else actual)
      in (actual, linesRead, []))"

definition TruncateFileContent :: "string \<Rightarrow> int \<Rightarrow> int \<Rightarrow> int \<Rightarrow> string \<times> int \<times> string" where
  "TruncateFileContent content maxBytes maxLines startLine =
     (let lines = split_byte NL content in
      if startLine > 1 \<and> startLine \<le> int (length lines)
      then truncate_lines maxBytes maxLines startLine (drop (nat (startLine - 1)) lines)
      else if startLine > int (length lines)
      then ([], 0, exceeds_message startLine (length lines))
      else truncate_lines maxBytes maxLines startLine lines)"

section \<open>The tool go_read_file\<close>

record IReadFileParams =
  rf_File :: string
  rf_Offset :: int
  rf_MaxLines :: int
  rf_MaxBytes :: int

record OReadFileResult =
  rf_Content :: string
  rf_TotalLines :: nat
  rf_TotalBytes :: nat

text \<open>The result is the text of the reply and the structured output.\<close>

definition handleGoReadFile ::
  "(string, unit) outcome \<Rightarrow> (string \<Rightarrow> (string, 'fh) outcome) \<Rightarrow> ('fh \<Rightarrow> (string, string) outcome) \<Rightarrow>
    IReadFileParams \<Rightarrow> (string, string \<times> OReadFileResult) outcome" where
  "handleGoReadFile snapshot ReadFile Content input =
     (case snapshot of
        Panic \<Rightarrow> Panic
      | Err e \<Rightarrow> Err (''failed to get snapshot: '' @ e)
      | Ok _ \<Rightarrow>
     (case ReadFile (rf_File input) of
        Panic \<Rightarrow> Panic
      | Err e \<Rightarrow> Err (''failed to read file: '' @ e)
      | Ok fh \<Rightarrow>
     (case Content fh of
        Panic \<Rightarrow> Panic
      | Err e \<Rightarrow> Err (''failed to get file content: '' @ e)
      | Ok fullContent \<Rightarrow>
          let totalLines = length (split_byte NL fullContent);
              totalBytes = length fullContent;
              startLine = (if rf_Offset input < 1 then 1 else rf_Offset input);
              (truncatedContent, _, truncationErr) =
                TruncateFileContent fullContent (rf_MaxBytes input) (rf_MaxLines input) startLine;
              result = \<lparr>rf_Content = truncatedContent, rf_TotalLines = totalLines,
                        rf_TotalBytes = totalBytes\<rparr>;
              summaryMsg =
                (if truncationErr \<noteq> [] then ''Read '' @ rf_File input @ '': '' @ truncationErr
                 else if startLine > 1 then
                   ''Read '' @ rf_File input @ '' from line '' @ itoa_int startLine @ '' (''
                     @ itoa totalBytes @ '' bytes, '' @ itoa totalLines @ '' total lines)''
                 else ''Read '' @ rf_File input @ '' ('' @ itoa totalBytes @ '' bytes, ''
                     @ itoa totalLines @ '' lines)'')
          in Ok (summaryMsg @ [NL] @ truncatedContent, result))))"

section \<open>What a byte limit yields\<close>

lemma cut_at_rune:
  "\<exists>k. cut_at_rune content i = take k content
     \<and> (k = length content \<or> i \<le> k \<and> k < length content \<and> RuneStart (content ! k))
     \<and> (\<forall>j. i \<le> j \<longrightarrow> j < k \<longrightarrow> \<not> RuneStart (content ! j))"
proof (induction content i rule: cut_at_rune.induct)
  case (1 content i)
  consider "i < length content" "\<not> RuneStart (content ! i)" | "i < length content" "RuneStart (content ! i)"
    | "length content \<le> i" by linarith
  then show ?case
  proof cases
    case 1
    then obtain k where k: "cut_at_rune content (Suc i) = take k content"
      "k = length content \<or> Suc i \<le> k \<and> k < length content \<and> RuneStart (content ! k)"
      "\<forall>j. Suc i \<le> j \<longrightarrow> j < k \<longrightarrow> \<not> RuneStart (content ! j)"
      using "1.IH" by blast
    have "\<not> RuneStart (content ! j)" if "i \<le> j" "j < k" for j
      using that k(3) 1(2) by (cases "j = i") auto
    moreover have "cut_at_rune content i = take k content"
      using 1 k(1) by (subst cut_at_rune.simps) simp
    ultimately show ?thesis using k(2) by (intro exI [of _ k]) auto
  next
    case 2
    then have "cut_at_rune content i = take i content" by (subst cut_at_rune.simps) simp
    with 2 show ?thesis by (intro exI [of _ i]) auto
  next
    case 3
    then have "cut_at_rune content i = take (length content) content" by (subst cut_at_rune.simps) simp
    with 3 show ?thesis by (intro exI [of _ "length content"]) auto
  qed
qed

text \<open>A rune has at most three continuation bytes, so in valid UTF-8 no four bytes in a row are.\<close>

definition short_runes :: "string \<Rightarrow> bool" where
  "short_runes s \<longleftrightarrow> (\<forall>i. i + 3 < length s \<longrightarrow>
     RuneStart (s ! i) \<or> RuneStart (s ! (i + 1)) \<or> RuneStart (s ! (i + 2)) \<or> RuneStart (s ! (i + 3)))"

lemma cut_at_rune_length:
  assumes "short_runes content" "i \<le> length content"
  shows "length (cut_at_rune content i) \<le> i + 3"
proof -
  obtain k where k: "cut_at_rune content i = take k content"
      "\<forall>j. i \<le> j \<longrightarrow> j < k \<longrightarrow> \<not> RuneStart (content ! j)" "k \<le> length content"
    using cut_at_rune [of content i] by (metis le_refl less_imp_le)
  have "k \<le> i + 3"
  proof (rule ccontr)
    assume "\<not> k \<le> i + 3"
    then have "i + 3 < k" by simp
    then have "\<not> RuneStart (content ! i)" "\<not> RuneStart (content ! (i + 1))"
      "\<not> RuneStart (content ! (i + 2))" "\<not> RuneStart (content ! (i + 3))"
      using k(2) by simp_all
    moreover have "i + 3 < length content" using \<open>i + 3 < k\<close> k(3) by simp
    ultimately show False using assms(1) unfolding short_runes_def by blast
  qed
  then show ?thesis using k by simp
qed

text \<open>The kept prefix: it ends at a rune boundary.\<close>

lemma RuneStart_NL [simp]: "RuneStart NL"
  by (simp add: RuneStart_def)

definition rune_boundary :: "string \<Rightarrow> nat \<Rightarrow> bool" where
  "rune_boundary s k \<longleftrightarrow> k = length s \<or> k < length s \<and> RuneStart (s ! k)"

lemma truncateByBytes_cases:
  obtains "truncateByBytes content maxBytes = (content, False)" "maxBytes \<le> 0 \<or> int (length content) \<le> maxBytes"
  | k where "truncateByBytes content maxBytes = (take k content @ TruncationIndicator, True)"
    "0 < maxBytes" "maxBytes < int (length content)" "rune_boundary content k" "k \<le> length content"
    "short_runes content \<longrightarrow> k \<le> nat (maxBytes - int (length TruncationIndicator)) + 3"
proof (cases "maxBytes \<le> 0 \<or> int (length content) \<le> maxBytes")
  case True
  then show ?thesis using that(1) by (simp add: truncateByBytes_def)
next
  case False
  let ?m = "nat (maxBytes - int (length TruncationIndicator))"
  obtain k where k: "cut_at_rune content ?m = take k content"
    "k = length content \<or> k < length content \<and> RuneStart (content ! k)"
    using cut_at_rune [of content ?m] by blast
  have m: "?m \<le> length content" using False by linarith
  have len: "k \<le> ?m + 3" if "short_runes content"
    using cut_at_rune_length [OF that m] k by auto
  define k' where "k' = (case last_index_byte (take k content) NL of None \<Rightarrow> k
    | Some l \<Rightarrow> if l > ?m div 2 then l else k)"
  have nl: "l < k \<and> l < length content \<and> content ! l = NL"
    if "last_index_byte (take k content) NL = Some l" for l
    using that by (auto simp: last_index_byte_Some)
  have "truncateByBytes content maxBytes = (take k' content @ TruncationIndicator, True)"
    using False k(1) nl
    by (auto simp: truncateByBytes_def Let_def k'_def min_def split: option.splits)
  moreover have "rune_boundary content k'" "k' \<le> length content"
    using k(2) nl by (auto simp: k'_def rune_boundary_def split: option.splits)
  moreover have "short_runes content \<longrightarrow> k' \<le> ?m + 3"
    using len nl by (auto simp: k'_def split: option.splits)
  ultimately show ?thesis using that(2) False by auto
qed

text \<open>\<open>truncateByBytes\<close> leaves contents within the limit alone; otherwise it keeps a
  prefix that ends at a rune boundary and appends the indicator, and on valid UTF-8 the result
  exceeds \<open>maxBytes\<close>, or the 13 bytes of the indicator if the limit is smaller, by at most three
  bytes (the boundary is sought forwards).\<close>

theorem truncateByBytes_spec:
  "case truncateByBytes content maxBytes of (out, trunc) \<Rightarrow>
     (trunc \<longleftrightarrow> 0 < maxBytes \<and> maxBytes < int (length content))
     \<and> (\<not> trunc \<longrightarrow> out = content)
     \<and> (trunc \<longrightarrow> (\<exists>k \<le> length content. out = take k content @ TruncationIndicator
           \<and> rune_boundary content k
           \<and> (short_runes content \<longrightarrow> int (length out) \<le> max maxBytes 13 + 3)))"
proof (cases rule: truncateByBytes_cases [of content maxBytes])
  case 1
  then show ?thesis by auto
next
  case (2 k)
  moreover have "length TruncationIndicator = 13" by (simp add: TruncationIndicator_def)
  ultimately show ?thesis by (auto intro!: exI [of _ k])
qed

lemma truncateByBytes_spec_witness:
  "truncateByBytes (replicate 20 CHR ''x'') 15 = (''xx'' @ TruncationIndicator, True)
   \<and> rune_boundary (replicate 20 CHR ''x'') 2 \<and> truncateByBytes ''ab'' 2 = (''ab'', False)"
proof -
  have a: "truncateByBytes (replicate 20 CHR ''x'') 15 = (''xx'' @ TruncationIndicator, True)" by code_simp
  have b: "truncateByBytes ''ab'' 2 = (''ab'', False)" by code_simp
  have len: "k = 2" if "''xx'' = replicate k CHR ''x''" for k
    using arg_cong [OF that, of length] by simp
  show ?thesis
    using truncateByBytes_spec [where content = "replicate 20 CHR ''x''" and maxBytes = 15]
      truncateByBytes_spec [where content = "''ab''" and maxBytes = 2]
    unfolding a b by (auto dest: len)
qed

section \<open>What reading a file yields\<close>

lemma short_runes_has_prefix: "short_runes s \<Longrightarrow> has_prefix s p \<Longrightarrow> short_runes p"
  by (auto simp: short_runes_def has_prefix_iff nth_append split: if_splits)

lemma short_runes_drop: "short_runes s \<Longrightarrow> short_runes (drop m s)"
  unfolding short_runes_def
proof (intro allI impI)
  fix i
  assume s: "\<forall>i. i + 3 < length s \<longrightarrow> RuneStart (s ! i) \<or> RuneStart (s ! (i + 1))
      \<or> RuneStart (s ! (i + 2)) \<or> RuneStart (s ! (i + 3))" and i: "i + 3 < length (drop m s)"
  then show "RuneStart (drop m s ! i) \<or> RuneStart (drop m s ! (i + 1))
      \<or> RuneStart (drop m s ! (i + 2)) \<or> RuneStart (drop m s ! (i + 3))"
    using s [rule_format, of "m + i"] by (simp add: add.assoc)
qed

text \<open>The kept part \<open>p\<close> of the lines of a window.\<close>

lemma truncate_lines_cases:
  assumes "truncate_lines maxBytes maxLines startLine lines = (out, n, msg)"
    and "\<forall>l \<in> set lines. NL \<notin> set l" "lines \<noteq> []"
  obtains p where "has_prefix (str_join [NL] lines) p" "msg = []"
    "n = (if maxLines > 0 \<and> int (length lines) > maxLines then maxLines else int (length lines))"
    "out = p \<and> p = str_join [NL] lines \<or> (\<exists>info. out = p @ NL # NL # ''[TRUNCATED: '' @ info @ '']'')"
    "(maxLines > 0 \<longrightarrow> int (length lines) \<le> maxLines)
       \<and> (maxBytes > 0 \<longrightarrow> int (length (str_join [NL] lines)) \<le> maxBytes) \<Longrightarrow> out = str_join [NL] lines"
    "maxLines > 0 \<Longrightarrow> int (count_list p NL) < maxLines"
    "maxBytes > 0 \<Longrightarrow> short_runes (str_join [NL] lines) \<Longrightarrow> int (length p) \<le> max maxBytes 3"
proof -
  let ?cutl = "maxLines > 0 \<and> int (length lines) > maxLines"
  define actual where "actual = (if ?cutl then str_join [NL] (take (nat maxLines) lines) else str_join [NL] lines)"
  define info where "info = (if ?cutl then [lines_message startLine maxLines (length lines)] else [])"
  have pre: "has_prefix (str_join [NL] lines) actual"
    by (simp add: actual_def has_prefix_str_join_take)
  have nls: "int (count_list actual NL) < maxLines" if "maxLines > 0"
  proof -
    have "\<forall>l \<in> set (take k lines). NL \<notin> set l" for k using assms(2) by (meson in_set_takeD)
    then show ?thesis using that assms(2,3)
      by (auto simp: actual_def count_list_str_join Suc_le_eq [symmetric])
  qed
  have out: "out = (if maxBytes > 0 \<and> snd (truncateByBytes actual maxBytes)
      then trim_suffix (fst (truncateByBytes actual maxBytes)) TruncationIndicator
        @ NL # NL # ''[TRUNCATED: '' @ str_join '', '' (info @ [bytes_message maxBytes]) @ '']''
      else if info \<noteq> [] then trim_suffix actual TruncationIndicator
        @ NL # NL # ''[TRUNCATED: '' @ str_join '', '' info @ '']''
      else actual)"
    "msg = []" "n = (if ?cutl then maxLines else int (length lines))"
    using assms(1) by (auto simp: truncate_lines_def actual_def info_def Let_def split: prod.splits if_splits)
  show ?thesis
  proof (cases rule: truncateByBytes_cases [of actual maxBytes])
    case 1
    define p where "p = (if info \<noteq> [] then trim_suffix actual TruncationIndicator else actual)"
    have p: "has_prefix actual p" by (simp add: p_def has_prefix_trim_suffix)
    show ?thesis
    proof (rule that [of p])
      show "has_prefix (str_join [NL] lines) p" using pre p has_prefix_trans by blast
      show "maxLines > 0 \<Longrightarrow> int (count_list p NL) < maxLines"
        using nls count_list_has_prefix [OF p, of NL] by simp
      show "maxBytes > 0 \<Longrightarrow> int (length p) \<le> max maxBytes 3"
        using 1 p by (auto simp: has_prefix_iff)
      show "out = p \<and> p = str_join [NL] lines \<or> (\<exists>info. out = p @ NL # NL # ''[TRUNCATED: '' @ info @ '']'')"
        using out(1) 1 by (auto simp: p_def info_def actual_def)
    qed (use out 1 in \<open>auto simp: info_def actual_def\<close>)
  next
    case (2 k)
    have p: "has_prefix actual (take k actual)" by simp
    have o: "out = take k actual @ NL # NL # ''[TRUNCATED: '' @ str_join '', '' (info @ [bytes_message maxBytes]) @ '']''"
      using out(1) 2 by simp
    show ?thesis
    proof (rule that [of "take k actual"])
      show "has_prefix (str_join [NL] lines) (take k actual)" using pre p has_prefix_trans by blast
      show "maxLines > 0 \<Longrightarrow> int (count_list (take k actual) NL) < maxLines"
        using nls count_list_has_prefix [OF p, of NL] by simp
      show "int (length (take k actual)) \<le> max maxBytes 3" if "short_runes (str_join [NL] lines)"
        using 2 short_runes_has_prefix [OF that pre] by (auto simp: TruncationIndicator_def)
      show "(maxLines > 0 \<longrightarrow> int (length lines) \<le> maxLines)
         \<and> (maxBytes > 0 \<longrightarrow> int (length (str_join [NL] lines)) \<le> maxBytes) \<Longrightarrow> out = str_join [NL] lines"
        using 2 by (auto simp: actual_def)
      show "out = take k actual \<and> take k actual = str_join [NL] lines
          \<or> (\<exists>info. out = take k actual @ NL # NL # ''[TRUNCATED: '' @ info @ '']'')"
        using o by blast
    qed (use out in auto)
  qed
qed

text \<open>The lines of the file from the given line on (1 for the first), joined again.\<close>

definition from_line :: "string \<Rightarrow> int \<Rightarrow> string" where
  "from_line content startLine = str_join [NL] (drop (nat (startLine - 1)) (split_byte NL content))"

lemma short_runes_from_line:
  "short_runes content \<Longrightarrow> startLine \<le> int (length (split_byte NL content)) \<Longrightarrow>
   short_runes (from_line content startLine)"
proof -
  assume s: "short_runes content" and le: "startLine \<le> int (length (split_byte NL content))"
  have "nat (startLine - 1) < length (split_byte NL content)"
    using le by (simp only: length_split_byte)
  from str_join_drop_suffix [OF this, of "[NL]"]
  obtain m where "from_line content startLine = drop m (str_join [NL] (split_byte NL content))"
    unfolding from_line_def by blast
  then show ?thesis using short_runes_drop [OF s] by (simp add: join_split_byte)
qed

lemma TruncateFileContent_window:
  assumes "1 \<le> startLine" "startLine \<le> int (length (split_byte NL content))"
  shows "TruncateFileContent content maxBytes maxLines startLine =
    truncate_lines maxBytes maxLines startLine (drop (nat (startLine - 1)) (split_byte NL content))"
  using assms by (cases "startLine = 1") (simp_all add: TruncateFileContent_def Let_def)

lemma handleGoReadFile_Ok:
  assumes "ReadFile (rf_File input) = Ok fh" "Content fh = Ok content"
  shows "\<exists>text r. handleGoReadFile (Ok ()) ReadFile Content input = Ok (text, r)
    \<and> rf_TotalLines r = length (split_byte NL content) \<and> rf_TotalBytes r = length content
    \<and> rf_Content r = fst (TruncateFileContent content (rf_MaxBytes input) (rf_MaxLines input)
        (max 1 (rf_Offset input)))
    \<and> has_suffix text (NL # rf_Content r)"
proof -
  have "(if rf_Offset input < 1 then 1 else rf_Offset input) = max 1 (rf_Offset input)" by simp
  then show ?thesis
    using assms by (auto simp: handleGoReadFile_def Let_def has_suffix_iff split: prod.splits)
qed

text \<open>Claim C27: \<open>go_read_file\<close> reports the true number of lines and bytes and returns, from the
  requested line on (at least 1; empty when the file ends before it), a prefix of the file that
  respects both limits: fewer newlines than \<open>MaxLines\<close>, and on valid UTF-8 at most
  \<open>MaxBytes\<close> bytes (or 3).  The prefix is everything from that line on when that is within the limits,
  and is followed by a truncation notice otherwise.\<close>

theorem handleGoReadFile_spec:
  assumes "ReadFile (rf_File input) = Ok fh" "Content fh = Ok content"
  shows "\<exists>text r. handleGoReadFile (Ok ()) ReadFile Content input = Ok (text, r)
    \<and> rf_TotalLines r = Suc (count_list content NL) \<and> rf_TotalBytes r = length content
    \<and> (rf_Offset input > int (rf_TotalLines r) \<longrightarrow> rf_Content r = [])
    \<and> (rf_Offset input \<le> int (rf_TotalLines r) \<longrightarrow>
        (let window = from_line content (max 1 (rf_Offset input)) in
         \<exists>p. has_prefix window p
           \<and> (rf_Content r = p \<and> p = window
              \<or> (\<exists>info. rf_Content r = p @ NL # NL # ''[TRUNCATED: '' @ info @ '']''))
           \<and> (rf_MaxLines input > 0 \<longrightarrow> int (count_list p NL) < rf_MaxLines input)
           \<and> (rf_MaxBytes input > 0 \<longrightarrow> short_runes content \<longrightarrow> int (length p) \<le> max (rf_MaxBytes input) 3)
           \<and> ((rf_MaxLines input > 0 \<longrightarrow> int (count_list window NL) < rf_MaxLines input)
                \<and> (rf_MaxBytes input > 0 \<longrightarrow> int (length window) \<le> rf_MaxBytes input)
              \<longrightarrow> rf_Content r = window)))"
proof -
  from handleGoReadFile_Ok [of ReadFile input fh Content content] assms obtain reply r where
    h: "handleGoReadFile (Ok ()) ReadFile Content input = Ok (reply, r)"
      "rf_TotalLines r = length (split_byte NL content)" "rf_TotalBytes r = length content"
    and c: "rf_Content r = fst (TruncateFileContent content (rf_MaxBytes input) (rf_MaxLines input)
        (max 1 (rf_Offset input)))" by blast
  have past: "rf_Content r = []" if "rf_Offset input > int (rf_TotalLines r)"
    using that h(2) c by (simp add: TruncateFileContent_def Let_def max_def)
  show ?thesis
  proof (cases "rf_Offset input \<le> int (rf_TotalLines r)")
    case False
    then show ?thesis using h past by auto
  next
    case True
    let ?s = "max 1 (rf_Offset input)"
    let ?lines = "drop (nat (?s - 1)) (split_byte NL content)"
    have le: "?s \<le> int (length (split_byte NL content))" using True h(2) by simp
    have lines: "\<forall>l \<in> set ?lines. NL \<notin> set l"
      using split_byte_no_sep [of _ NL content] by (meson in_set_dropD)
    have ne: "?lines \<noteq> []" using le by (simp only: drop_eq_Nil not_le)
    obtain out n msg where t: "truncate_lines (rf_MaxBytes input) (rf_MaxLines input) ?s ?lines = (out, n, msg)"
      by (metis prod_cases3)
    have out: "rf_Content r = out"
      using c TruncateFileContent_window [OF _ le, of "rf_MaxBytes input" "rf_MaxLines input"] t by simp
    have cnt: "count_list (str_join [NL] ?lines) NL = length ?lines - 1" "0 < length ?lines"
      using count_list_str_join [OF lines] ne by (simp_all only: length_greater_0_conv not_False_eq_True)
    then have within: "int (count_list (str_join [NL] ?lines) NL) < m \<longleftrightarrow> int (length ?lines) \<le> m" for m
      by linarith
    note w = from_line_def [of content ?s, symmetric]
    show ?thesis
    proof (rule truncate_lines_cases [OF t lines ne], unfold within [symmetric] w)
      fix p
      assume "has_prefix (from_line content ?s) p"
        "out = p \<and> p = from_line content ?s \<or> (\<exists>info. out = p @ NL # NL # ''[TRUNCATED: '' @ info @ '']'')"
        "(0 < rf_MaxLines input \<longrightarrow> int (count_list (from_line content ?s) NL) < rf_MaxLines input) \<and>
         (0 < rf_MaxBytes input \<longrightarrow> int (length (from_line content ?s)) \<le> rf_MaxBytes input) \<Longrightarrow>
         out = from_line content ?s"
        "0 < rf_MaxLines input \<Longrightarrow> int (count_list p NL) < rf_MaxLines input"
        "0 < rf_MaxBytes input \<Longrightarrow> short_runes (from_line content ?s) \<Longrightarrow>
         int (length p) \<le> max (rf_MaxBytes input) 3"
      then show ?thesis
        using h out True short_runes_from_line [OF _ le]
        by (intro exI [of _ reply] exI [of _ r]) (simp add: Let_def, blast)
    qed
  qed
qed

lemma handleGoReadFile_spec_witness:
  "\<exists>text r. handleGoReadFile (Ok ()) Ok (\<lambda>f. Ok (''a'' @ NL # ''b'' @ NL # ''c''))
      \<lparr>rf_File = ''x.go'', rf_Offset = 2, rf_MaxLines = 1, rf_MaxBytes = 0\<rparr> = Ok (text, r)
    \<and> rf_TotalLines r = 3 \<and> rf_Content r = ''b'' @ NL # NL # ''[TRUNCATED: showing lines 2-2 of 3]''"
proof -
  let ?in = "\<lparr>rf_File = ''x.go'', rf_Offset = 2, rf_MaxLines = 1, rf_MaxBytes = 0\<rparr>"
  let ?c = "''a'' @ NL # ''b'' @ NL # ''c''"
  have e: "map_outcome id (rf_Content \<circ> snd) (handleGoReadFile (Ok ()) Ok (\<lambda>f. Ok ?c) ?in)
      = Ok (''b'' @ NL # NL # ''[TRUNCATED: showing lines 2-2 of 3]'')" by code_simp
  show ?thesis
    using handleGoReadFile_spec [where ReadFile = Ok and input = ?in and fh = "''x.go''"
        and Content = "\<lambda>f. Ok ?c" and content = ?c] e by auto
qed

end
