(* ===== verification/Mapper.thy ===== *)
theory Mapper
  imports "HOL-Library.Word" Utf8 Diff_Edits
begin

text \<open>
  Positions in a file: \<open>gopls/internal/util/safetoken/safetoken.go\<close>, the UTF-16 position mapper of
  \<open>gopls/internal/protocol/mapper.go\<close>, and the conversions between diff edits and LSP text edits of
  \<open>gopls/internal/protocol/edits.go\<close>.  The fields of an LSP position are 32-bit words; offsets and
  lengths are Go \<open>int\<close>s, as HOL integers or natural numbers.  The line table, which the code fills
  lazily once, is a function of the content.
\<close>

section \<open>Token positions\<close>

record tokenFile =
  tf_Base :: int
  tf_Size :: int

datatype pos_error =
    NotInRange int | StartAfterEnd int int | BadOffset int | BadLine int | BadCol int
  | LineOutOfRange int int | ColumnBeyondFile | ColumnBeyondLine | InvalidUTF8
  | AtStart pos_error | AtEnd pos_error

definition inRange :: "tokenFile \<Rightarrow> int \<Rightarrow> bool" where
  "inRange f pos \<longleftrightarrow> tf_Base f \<le> pos \<and> pos \<le> tf_Base f + tf_Size f"

definition Offset :: "tokenFile \<Rightarrow> int \<Rightarrow> (pos_error, int) outcome" where
  "Offset f pos =
     (if \<not> inRange f pos then
        (if pos = tf_Base f + tf_Size f + 1 then Ok (tf_Size f) else Err (NotInRange pos))
      else Ok (pos - tf_Base f))"

definition Offsets :: "tokenFile \<Rightarrow> int \<Rightarrow> int \<Rightarrow> (pos_error, int \<times> int) outcome" where
  "Offsets f start end' =
     (case Offset f start of
        Panic \<Rightarrow> Panic
      | Err e \<Rightarrow> Err (AtStart e)
      | Ok startOffset \<Rightarrow>
          (case Offset f end' of
             Panic \<Rightarrow> Panic
           | Err e \<Rightarrow> Err (AtEnd e)
           | Ok endOffset \<Rightarrow>
               if start > end' then Err (StartAfterEnd start end') else Ok (startOffset, endOffset)))"

definition Pos :: "tokenFile \<Rightarrow> int \<Rightarrow> (pos_error, int) outcome" where
  "Pos f offset =
     (if \<not> (0 \<le> offset \<and> offset \<le> tf_Size f) then Err (BadOffset offset) else Ok (tf_Base f + offset))"

section \<open>UTF-16 lengths\<close>

function UTF16Len :: "string \<Rightarrow> nat" where
  "UTF16Len s =
     (if s = [] then 0
      else if byte (hd s) < 0x80 then Suc (UTF16Len (tl s))
      else case DecodeRune s of (r, sz) \<Rightarrow>
        (if r \<ge> 0x10000 then 2 else 1) + UTF16Len (drop sz s))"
  by pat_completeness auto
termination
  by (relation "measure length") (auto dest: DecodeRune_size simp: prod_eq_iff)

declare UTF16Len.simps [simp del]

section \<open>The line table\<close>

record Mapper =
  URI :: string
  Content :: string

definition NewMapper :: "string \<Rightarrow> string \<Rightarrow> Mapper" where
  "NewMapper uri content = \<lparr>URI = uri, Content = content\<rparr>"

text \<open>The two fields that \<open>initLines\<close> computes.\<close>

definition lineStart :: "Mapper \<Rightarrow> nat list" where
  "lineStart m = 0 # map Suc (filter (\<lambda>offset. Content m ! offset = NL) [0..<length (Content m)])"

definition nonASCII :: "Mapper \<Rightarrow> bool" where
  "nonASCII m \<longleftrightarrow> list_ex (\<lambda>b. byte b \<ge> 0x80) (Content m)"

text \<open>\<open>sort.Search\<close>: binary search for the first index at which \<open>f\<close> is true.\<close>

function search_loop :: "(nat \<Rightarrow> bool) \<Rightarrow> nat \<Rightarrow> nat \<Rightarrow> nat" where
  "search_loop f i j =
     (if i < j then
        let h = (i + j) div 2 in if \<not> f h then search_loop f (h + 1) j else search_loop f i h
      else i)"
  by pat_completeness auto
termination
  by (relation "measure (\<lambda>(f, i, j). j - i)") (auto simp: Let_def)

declare search_loop.simps [simp del]

definition sort_Search :: "nat \<Rightarrow> (nat \<Rightarrow> bool) \<Rightarrow> nat" where
  "sort_Search n f = search_loop f 0 n"

text \<open>\<open>line\<close>: line index, start of the line, and whether the offset is a \<open>\r\<close> at the line's end.\<close>

abbreviation CR :: char where "CR \<equiv> CHR 0x0D"

definition mapper_line :: "Mapper \<Rightarrow> nat \<Rightarrow> nat \<times> nat \<times> bool" where
  "mapper_line m offset =
     (let ls = lineStart m;
          line = sort_Search (length ls) (\<lambda>i. offset < ls ! i);
          eol = (if line = length ls then length (Content m) else ls ! line - 1);
          cr = (offset = eol \<and> offset > 0 \<and> Content m ! (offset - 1) = CR)
      in (line - 1, ls ! (line - 1), cr))"

section \<open>Offsets to positions\<close>

datatype Position = Position (Line: "32 word") (Character: "32 word")

datatype Range = Range (r_Start: Position) (r_End: Position)

record Location =
  l_URI :: string
  l_Range :: Range

definition lineCol16 :: "Mapper \<Rightarrow> nat \<Rightarrow> nat \<times> int" where
  "lineCol16 m offset =
     (case mapper_line m offset of (line, start, cr) \<Rightarrow>
        let col16 = (if nonASCII m then int (UTF16Len (slice start offset (Content m)))
                     else int (offset - start))
        in (line, if cr then col16 - 1 else col16))"

definition OffsetLineCol8 :: "Mapper \<Rightarrow> nat \<Rightarrow> int \<times> int" where
  "OffsetLineCol8 m offset =
     (case mapper_line m offset of (line, start, cr) \<Rightarrow>
        let col8 = int offset - int start
        in (int line + 1, (if cr then col8 - 1 else col8) + 1))"

definition OffsetPosition :: "Mapper \<Rightarrow> int \<Rightarrow> (pos_error, Position) outcome" where
  "OffsetPosition m offset =
     (if \<not> (0 \<le> offset \<and> offset \<le> int (length (Content m))) then Err (BadOffset offset)
      else case lineCol16 m (nat offset) of (line, col16) \<Rightarrow>
        Ok (Position (of_nat line) (of_int col16)))"

definition OffsetRange :: "Mapper \<Rightarrow> int \<Rightarrow> int \<Rightarrow> (pos_error, Range) outcome" where
  "OffsetRange m start end' =
     (if start > end' then Err (StartAfterEnd start end')
      else case OffsetPosition m start of
        Panic \<Rightarrow> Panic
      | Err e \<Rightarrow> Err (AtStart e)
      | Ok startPosition \<Rightarrow>
          (case OffsetPosition m end' of
             Panic \<Rightarrow> Panic
           | Err e \<Rightarrow> Err (AtEnd e)
           | Ok endPosition \<Rightarrow> Ok (Range startPosition endPosition)))"

definition OffsetLocation :: "Mapper \<Rightarrow> int \<Rightarrow> int \<Rightarrow> (pos_error, Location) outcome" where
  "OffsetLocation m start end' =
     bind_outcome (OffsetRange m start end') (\<lambda>rng. Ok \<lparr>l_URI = URI m, l_Range = rng\<rparr>)"

definition LineCol8Position :: "Mapper \<Rightarrow> int \<Rightarrow> int \<Rightarrow> (pos_error, Position) outcome" where
  "LineCol8Position m line col8 =
     (if line < 1 then Err (BadLine line)
      else if col8 < 1 then Err (BadCol col8)
      else
        let ls = lineStart m; line0 = line - 1 in
        if \<not> (0 \<le> line0 \<and> line0 < int (length ls)) then Err (LineOutOfRange line (int (length ls)))
        else
          let start = int (ls ! nat line0); end' = start + col8 - 1 in
          if end' > int (length (Content m)) then Err ColumnBeyondFile
          else if line0 + 1 < int (length ls) \<and> end' \<ge> int (ls ! nat (line0 + 1)) then Err ColumnBeyondLine
          else Ok (Position (of_int line0)
                 (of_nat (UTF16Len (slice (nat start) (nat end') (Content m))))))"

section \<open>Positions to offsets\<close>

text \<open>The loop of \<open>PositionOffset\<close>: the bytes up to the required number of UTF-16 codes.  A position
  in the middle of a surrogate pair breaks out before the rune.\<close>

function position_loop :: "string \<Rightarrow> nat \<Rightarrow> nat \<Rightarrow> nat \<Rightarrow> (pos_error, nat) outcome" where
  "position_loop content col8 col16 character =
     (if col16 < character then
        case DecodeRune content of (r, sz) \<Rightarrow>
          if sz = 0 then Err ColumnBeyondFile
          else if r = 10 then Err ColumnBeyondLine
          else if sz = 1 \<and> r = RuneError then Err InvalidUTF8
          else if r \<ge> 0x10000 then
            (if col16 + 1 = character then Ok col8
             else position_loop (drop sz content) (col8 + sz) (col16 + 2) character)
          else position_loop (drop sz content) (col8 + sz) (col16 + 1) character
      else Ok col8)"
  by pat_completeness auto
termination
  by (relation "measure (\<lambda>(content, col8, col16, character). character - col16)") auto

declare position_loop.simps [simp del]

definition PositionOffset :: "Mapper \<Rightarrow> Position \<Rightarrow> (pos_error, int) outcome" where
  "PositionOffset m p =
     (let ls = lineStart m; n = (of_nat (length ls) :: 32 word) in
      if Line p > n then Err (LineOutOfRange (uint (Line p)) (int (length ls)))
      else if Line p = n then
        (if Character p = 0 then Ok (int (length (Content m))) else Err ColumnBeyondFile)
      else if unat (Line p) \<ge> length ls then Panic
      else
        let offset = ls ! unat (Line p) in
        bind_outcome (position_loop (drop offset (Content m)) 0 0 (unat (Character p)))
          (\<lambda>col8. Ok (int (offset + col8))))"

definition RangeOffsets :: "Mapper \<Rightarrow> Range \<Rightarrow> (pos_error, int \<times> int) outcome" where
  "RangeOffsets m r =
     bind_outcome (PositionOffset m (r_Start r)) (\<lambda>start.
     bind_outcome (PositionOffset m (r_End r)) (\<lambda>end'.
       if start > end' then Err (StartAfterEnd start end') else Ok (start, end')))"

section \<open>Convenience methods on token positions\<close>

definition PosPosition :: "Mapper \<Rightarrow> tokenFile \<Rightarrow> int \<Rightarrow> (pos_error, Position) outcome" where
  "PosPosition m tf pos = bind_outcome (Offset tf pos) (OffsetPosition m)"

definition PosRange :: "Mapper \<Rightarrow> tokenFile \<Rightarrow> int \<Rightarrow> int \<Rightarrow> (pos_error, Range) outcome" where
  "PosRange m tf start end' = bind_outcome (Offsets tf start end') (\<lambda>(s, e). OffsetRange m s e)"

definition PosLocation :: "Mapper \<Rightarrow> tokenFile \<Rightarrow> int \<Rightarrow> int \<Rightarrow> (pos_error, Location) outcome" where
  "PosLocation m tf start end' =
     bind_outcome (Offsets tf start end') (\<lambda>(s, e).
     bind_outcome (OffsetRange m s e) (\<lambda>rng. Ok \<lparr>l_URI = URI m, l_Range = rng\<rparr>))"

text \<open>The slice \<open>m.Content[startOffset:endOffset]\<close> panics when it is out of range.\<close>

definition PosText :: "Mapper \<Rightarrow> tokenFile \<Rightarrow> int \<Rightarrow> int \<Rightarrow> (pos_error, string) outcome" where
  "PosText m tf start end' =
     bind_outcome (Offsets tf start end') (\<lambda>(s, e).
       if 0 \<le> s \<and> s \<le> e \<and> e \<le> int (length (Content m))
       then Ok (slice (nat s) (nat e) (Content m)) else Panic)"

section \<open>Edits\<close>

record TextEdit =
  te_Range :: Range
  te_NewText :: string

fun from_diff_loop :: "Mapper \<Rightarrow> edit list \<Rightarrow> (pos_error, TextEdit list) outcome" where
  "from_diff_loop m [] = Ok []"
| "from_diff_loop m (e # es) =
     bind_outcome (OffsetRange m (e_Start e) (e_End e)) (\<lambda>rng.
     bind_outcome (from_diff_loop m es) (\<lambda>rest.
       Ok (\<lparr>te_Range = rng, te_NewText = e_New e\<rparr> # rest)))"

definition EditsFromDiffEdits :: "Mapper \<Rightarrow> edit list \<Rightarrow> (pos_error, TextEdit list) outcome" where
  "EditsFromDiffEdits m edits = from_diff_loop m (SortEdits edits)"

fun EditsToDiffEdits :: "Mapper \<Rightarrow> TextEdit list \<Rightarrow> (pos_error, edit list) outcome" where
  "EditsToDiffEdits m [] = Ok []"
| "EditsToDiffEdits m (te # tes) =
     bind_outcome (RangeOffsets m (te_Range te)) (\<lambda>(start, end').
     bind_outcome (EditsToDiffEdits m tes) (\<lambda>rest.
       Ok (mk_edit start end' (te_NewText te) # rest)))"

datatype edit_error = PosErr pos_error | DiffErr diff_error

definition ApplyEdits :: "Mapper \<Rightarrow> TextEdit list \<Rightarrow> (edit_error, string \<times> edit list) outcome" where
  "ApplyEdits m edits =
     (case EditsToDiffEdits m edits of
        Panic \<Rightarrow> Panic
      | Err e \<Rightarrow> Err (PosErr e)
      | Ok diffEdits \<Rightarrow>
          (case Apply (Content m) diffEdits of
             Panic \<Rightarrow> Panic
           | Err e \<Rightarrow> Err (DiffErr e)
           | Ok out \<Rightarrow> Ok (out, diffEdits)))"

section \<open>Positions in order (\<open>gopls/internal/protocol/span.go\<close>)\<close>

definition ComparePosition :: "Position \<Rightarrow> Position \<Rightarrow> int" where
  "ComparePosition a b =
     (if Line a \<noteq> Line b then (if Line a < Line b then -1 else 1)
      else if Character a \<noteq> Character b then (if Character a < Character b then -1 else 1)
      else 0)"

definition CompareRange :: "Range \<Rightarrow> Range \<Rightarrow> int" where
  "CompareRange a b =
     (let r = ComparePosition (r_Start a) (r_Start b)
      in if r \<noteq> 0 then r else ComparePosition (r_End a) (r_End b))"

definition range_Empty :: "Range \<Rightarrow> bool" where
  "range_Empty rng \<longleftrightarrow> r_Start rng = r_End rng"

definition range_Contains :: "Range \<Rightarrow> Position \<Rightarrow> bool" where
  "range_Contains rng pos \<longleftrightarrow>
     ComparePosition (r_Start rng) pos \<le> 0 \<and> ComparePosition pos (r_End rng) \<le> 0"

definition Intersect :: "Range \<Rightarrow> Range \<Rightarrow> bool" where
  "Intersect x y =
     (let r1 = ComparePosition (r_Start x) (r_End y); r2 = ComparePosition (r_Start y) (r_End x)
      in if r1 < 0 \<and> r2 < 0 then True
         else (range_Empty x \<or> range_Empty y) \<and> r1 \<le> 0 \<and> r2 \<le> 0)"

text \<open>Positions are linearly ordered, lexicographically, and so are ranges.\<close>

instantiation Position :: linorder
begin

definition less_eq_Position :: "Position \<Rightarrow> Position \<Rightarrow> bool" where
  "less_eq_Position a b \<longleftrightarrow> Line a < Line b \<or> Line a = Line b \<and> Character a \<le> Character b"

definition less_Position :: "Position \<Rightarrow> Position \<Rightarrow> bool" where
  "less_Position a b \<longleftrightarrow> Line a < Line b \<or> Line a = Line b \<and> Character a < Character b"

instance
  by standard (auto simp: less_eq_Position_def less_Position_def Position.expand)

end

lemma ComparePosition_order:
  "ComparePosition a b < 0 \<longleftrightarrow> a < b" "ComparePosition a b = 0 \<longleftrightarrow> a = b"
  "ComparePosition a b \<le> 0 \<longleftrightarrow> a \<le> b"
  by (auto simp: ComparePosition_def less_Position_def less_eq_Position_def Position.expand)

instantiation Range :: linorder
begin

definition less_eq_Range :: "Range \<Rightarrow> Range \<Rightarrow> bool" where
  "less_eq_Range a b \<longleftrightarrow> CompareRange a b \<le> 0"

definition less_Range :: "Range \<Rightarrow> Range \<Rightarrow> bool" where
  "less_Range a b \<longleftrightarrow> CompareRange a b < 0"

instance
proof
  have le: "a \<le> b \<longleftrightarrow> r_Start a < r_Start b \<or> r_Start a = r_Start b \<and> r_End a \<le> r_End b" for a b :: Range
    using ComparePosition_order(1) [of "r_Start a" "r_Start b"] ComparePosition_order(3) [of "r_End a" "r_End b"]
      ComparePosition_order(2) [of "r_Start a" "r_Start b"]
    by (auto simp: less_eq_Range_def CompareRange_def Let_def)
  have lt: "a < b \<longleftrightarrow> r_Start a < r_Start b \<or> r_Start a = r_Start b \<and> r_End a < r_End b" for a b :: Range
    using ComparePosition_order(1) [of "r_Start a" "r_Start b"] ComparePosition_order(1) [of "r_End a" "r_End b"]
      ComparePosition_order(2) [of "r_Start a" "r_Start b"]
    by (auto simp: less_Range_def CompareRange_def Let_def)
  fix x y z :: Range
  show "x < y \<longleftrightarrow> x \<le> y \<and> \<not> y \<le> x" by (auto simp: le lt)
  show "x \<le> x" by (simp add: le)
  show "x \<le> y \<Longrightarrow> y \<le> z \<Longrightarrow> x \<le> z" by (auto simp: le)
  show "x \<le> y \<Longrightarrow> y \<le> x \<Longrightarrow> x = y" by (auto simp: le Range.expand)
  show "x \<le> y \<or> y \<le> x" by (auto simp: le)
qed

end

lemma range_Contains_iff: "range_Contains rng pos \<longleftrightarrow> r_Start rng \<le> pos \<and> pos \<le> r_End rng"
  by (simp add: range_Contains_def ComparePosition_order)

text \<open>\<open>Intersect\<close> on well-formed ranges is what its documentation says: for two nonempty
  ranges, that some position lies in both half-open intervals; when one of them is empty, that
  some position lies in both closed intervals.\<close>

theorem Intersect_spec:
  assumes "r_Start x \<le> r_End x" "r_Start y \<le> r_End y"
  shows "Intersect x y \<longleftrightarrow>
    (if range_Empty x \<or> range_Empty y then \<exists>p. range_Contains x p \<and> range_Contains y p
     else \<exists>p. r_Start x \<le> p \<and> p < r_End x \<and> r_Start y \<le> p \<and> p < r_End y)"
proof -
  let ?m = "max (r_Start x) (r_Start y)"
  have I: "Intersect x y \<longleftrightarrow> r_Start x < r_End y \<and> r_Start y < r_End x
      \<or> (range_Empty x \<or> range_Empty y) \<and> r_Start x \<le> r_End y \<and> r_Start y \<le> r_End x"
    by (auto simp: Intersect_def Let_def ComparePosition_order)
  have "(\<exists>p. range_Contains x p \<and> range_Contains y p) \<longleftrightarrow> r_Start x \<le> r_End y \<and> r_Start y \<le> r_End x"
    using assms by (auto simp: range_Contains_iff intro: exI [of _ ?m])
  moreover have "(\<exists>p. r_Start x \<le> p \<and> p < r_End x \<and> r_Start y \<le> p \<and> p < r_End y)
      \<longleftrightarrow> r_Start x < r_End y \<and> r_Start y < r_End x" if "\<not> range_Empty x" "\<not> range_Empty y"
    using assms that by (auto simp: range_Empty_def intro: exI [of _ ?m])
  ultimately show ?thesis unfolding I by auto
qed

lemma Intersect_spec_witness:
  "Intersect (Range (Position 1 2) (Position 1 2)) (Range (Position 0 0) (Position 1 2))
   \<and> (\<exists>p. range_Contains (Range (Position 1 2) (Position 1 2)) p
        \<and> range_Contains (Range (Position 0 0) (Position 1 2)) p)"
proof -
  let ?x = "Range (Position 1 2) (Position 1 2)" and ?y = "Range (Position 0 0) (Position 1 2)"
  have i: "Intersect ?x ?y" by code_simp
  have "r_Start ?x \<le> r_End ?x" "r_Start ?y \<le> r_End ?y" by (simp_all add: less_eq_Position_def)
  from Intersect_spec [OF this] i show ?thesis by (simp add: range_Empty_def)
qed

section \<open>UTF-16 lengths of valid text\<close>

lemma rune_value_bounds:
  assumes "good_rune u"
  shows "1 < snd (DecodeRune u) \<Longrightarrow> 0x80 \<le> fst (DecodeRune u)"
    "snd (DecodeRune u) < 4 \<Longrightarrow> fst (DecodeRune u) < 0x10000"
    "snd (DecodeRune u) = 1 \<Longrightarrow> fst (DecodeRune u) = byte (hd u)"
proof -
  obtain c t where u: "u = c # t" using assms by (cases u) (auto simp: good_rune_def)
  let ?n = "rune_size (byte c)"
  define b where "b = byte c"
  note dec = good_rune_DecodeRune [OF assms [unfolded u]]
  have wf: "?n \<le> Suc (length t)" "well_formed (take ?n (c # t))" "?n \<noteq> 0"
    using assms by (simp_all add: u good_rune_iff)
  have small: "byte d < 256" for d :: char by (metis of_char_mod_256 pos_mod_bound zero_less_numeral)
  have all: "(1 < ?n \<longrightarrow> 0x80 \<le> rune_value (take ?n (c # t)))
    \<and> (?n < 4 \<longrightarrow> rune_value (take ?n (c # t)) < 0x10000)
    \<and> (?n = 1 \<longrightarrow> rune_value (take ?n (c # t)) = byte c)"
  proof -
    consider "?n = 1" | "?n = 2" | "?n = 3" | "?n = 4" using rune_size_cases(1) [of "byte c"] wf(3) by auto
    then show ?thesis
    proof cases
      case 1
      moreover have "byte c < 65536" using small [of c] by linarith
      ultimately show ?thesis by simp
    next
      case 2
      then obtain c1 t' where t: "t = c1 # t'" using wf(1) by (cases t) auto
      have b1: "0xC2 \<le> byte c" "byte c < 0xE0" using 2 by (auto simp: rune_size_def split: if_splits)
      have b2: "0x80 \<le> byte c1" "byte c1 \<le> 0xBF" using wf(2) by (simp_all add: t 2 second_ok_def cont_def numeral_2_eq_2)
      have v: "rune_value (take ?n (c # t)) = (byte c - 0xC0) * 64 + (byte c1 - 0x80)"
        by (simp add: t 2 numeral_2_eq_2)
      have "128 \<le> x * 64 + y \<and> x * 64 + y < 65536" if "2 \<le> x" "x < 32" "0 \<le> y" "y \<le> 63" for x y :: int
        using that by linarith
      note lin = this
      have "2 \<le> byte c - 0xC0" "byte c - 0xC0 < 32" "0 \<le> byte c1 - 0x80" "byte c1 - 0x80 \<le> 63" using b1 b2 by linarith+
      from lin [OF this] v show ?thesis using 2 by simp
    next
      case 3
      then obtain c1 c2 t' where t: "t = c1 # c2 # t'" using wf(1) by (cases t; cases "tl t") auto
      have b: "0xE0 \<le> byte c" "byte c < 0xF0" using 3 by (auto simp: rune_size_def split: if_splits)
      moreover have "0x80 \<le> byte c1" "byte c1 \<le> 0xBF" "byte c = 0xE0 \<longrightarrow> 0xA0 \<le> byte c1" "0x80 \<le> byte c2" "byte c2 \<le> 0xBF"
        using wf(2) by (simp_all add: t 3 second_ok_def cont_def numeral_3_eq_3)
      moreover have "rune_value (take ?n (c # t))
          = (byte c - 0xE0) * 4096 + (byte c1 - 0x80) * 64 + (byte c2 - 0x80)"
        by (simp add: t 3 numeral_3_eq_3)
      ultimately show ?thesis using 3 by (cases "byte c = 0xE0") auto
    next
      case 4
      then obtain c1 c2 c3 t' where t: "t = c1 # c2 # c3 # t'"
        using wf(1) by (cases t; cases "tl t"; cases "tl (tl t)") auto
      have b: "0xF0 \<le> byte c" "byte c < 0xF5" using 4 by (auto simp: rune_size_def split: if_splits)
      moreover have "byte c = 0xF0 \<longrightarrow> 0x90 \<le> byte c1" "0x80 \<le> byte c1" "0x80 \<le> byte c2" "0x80 \<le> byte c3"
        using wf(2) by (simp_all add: t 4 second_ok_def cont_def eval_nat_numeral)
      moreover have "rune_value (take ?n (c # t)) = (byte c - 0xF0) * 262144 + (byte c1 - 0x80) * 4096
          + (byte c2 - 0x80) * 64 + (byte c3 - 0x80)"
        using take_Cons_numeral by (simp add: t 4)
      ultimately show ?thesis using 4 by (cases "byte c = 0xF0") auto
    qed
  qed
  show "1 < snd (DecodeRune u) \<Longrightarrow> 0x80 \<le> fst (DecodeRune u)"
    "snd (DecodeRune u) < 4 \<Longrightarrow> fst (DecodeRune u) < 0x10000"
    "snd (DecodeRune u) = 1 \<Longrightarrow> fst (DecodeRune u) = byte (hd u)"
    using all by (simp_all add: u dec)
qed

definition units :: "string \<Rightarrow> nat" where
  "units u = (if fst (DecodeRune u) \<ge> 0x10000 then 2 else 1)"

lemma units_le: "good_rune u \<Longrightarrow> snd (DecodeRune u) = length u \<Longrightarrow> units u \<le> length u"
  using rune_value_bounds(2) [of u] by (cases "length u < 4") (auto simp: units_def good_rune_def Suc_le_eq)

lemma UTF16Len_Nil [simp]: "UTF16Len [] = 0"
  by (simp add: UTF16Len.simps)

lemma UTF16Len_rune:
  assumes "good_rune u" "snd (DecodeRune u) = length u"
  shows "UTF16Len (u @ s) = units u + UTF16Len s"
proof -
  obtain c t where u: "u = c # t" using assms by (cases u) (auto simp: good_rune_def)
  have d: "DecodeRune (u @ s) = DecodeRune u" using DecodeRune_append(1) [OF assms(1)] .
  show ?thesis
  proof (cases "byte c < 0x80")
    case True
    then have "DecodeRune u = (byte c, 1)" by (simp add: u DecodeRune_ascii)
    then have "t = []" "units u = 1" using assms(2) True by (simp_all add: u units_def)
    then show ?thesis using True by (subst UTF16Len.simps) (simp add: u)
  next
    case False
    then show ?thesis using d assms(2)
      by (subst UTF16Len.simps) (auto simp: u units_def split: prod.splits)
  qed
qed

lemma UTF16Len_append: "valid_utf8 p \<Longrightarrow> UTF16Len (p @ q) = UTF16Len p + UTF16Len q"
  by (induction p rule: valid_utf8_induct) (simp_all add: UTF16Len_rune)

lemma UTF16Len_le: "valid_utf8 p \<Longrightarrow> UTF16Len p \<le> length p"
proof (induction p rule: valid_utf8_induct)
  case (rune u s)
  then show ?case using units_le [of u] by (simp add: UTF16Len_rune)
qed simp

lemma UTF16Len_ascii: "\<forall>c \<in> set s. byte c < 0x80 \<Longrightarrow> UTF16Len s = length s"
  by (induction s) (auto simp: UTF16Len.simps)

lemma position_loop_valid:
  assumes "valid_utf8 p" "NL \<notin> set p"
  shows "position_loop (p @ q) col8 col16 (col16 + UTF16Len p) = Ok (col8 + length p)"
  using assms
proof (induction p arbitrary: col8 col16 rule: valid_utf8_induct)
  case Nil
  then show ?case by (simp add: position_loop.simps)
next
  case (rune u s)
  have d: "DecodeRune (u @ s @ q) = (fst (DecodeRune u), length u)"
    using DecodeRune_append(1) [OF rune.hyps(1), of "s @ q"] rune.hyps(2) by (metis prod.collapse)
  have len: "0 < length u" using rune.hyps(1) by (simp add: good_rune_def)
  have nl: "fst (DecodeRune u) \<noteq> 10"
  proof
    assume r: "fst (DecodeRune u) = 10"
    then have "\<not> 1 < snd (DecodeRune u)" using rune_value_bounds(1) [OF rune.hyps(1)] by auto
    then have "length u = 1" using len rune.hyps(2) by linarith
    then have "byte (hd u) = byte NL" using rune_value_bounds(3) [OF rune.hyps(1)] rune.hyps(2) r by simp
    then have "hd u = NL" by (simp only: of_char_eq_iff)
    then show False using rune.prems len by (cases u) auto
  qed
  have good: "\<not> (length u = 1 \<and> fst (DecodeRune u) = RuneError)"
    using rune.hyps(1,2) by (auto simp: good_rune_def prod_eq_iff)
  have IH: "position_loop (s @ q) (col8 + length u) (col16 + units u) (col16 + units u + UTF16Len s)
      = Ok (col8 + length u + length s)"
    using rune.IH rune.prems by simp
  show ?case
    using d nl good len IH rune.hyps(1,2)
    by (subst position_loop.simps) (auto simp: UTF16Len_rune units_def add.assoc split: if_splits)
qed

section \<open>The line of an offset\<close>

lemma search_loop_correct:
  assumes mono: "\<forall>a b. a \<le> b \<longrightarrow> b < n \<longrightarrow> f a \<longrightarrow> f b"
  shows "i \<le> j \<Longrightarrow> j \<le> n \<Longrightarrow> \<forall>h < i. \<not> f h \<Longrightarrow> \<forall>h. j \<le> h \<longrightarrow> h < n \<longrightarrow> f h \<Longrightarrow>
    search_loop f i j \<le> j \<and> (\<forall>h < search_loop f i j. \<not> f h)
    \<and> (search_loop f i j < n \<longrightarrow> f (search_loop f i j))"
proof (induction "j - i" arbitrary: i j rule: less_induct)
  case less
  show ?case
  proof (cases "i < j")
    case True
    let ?h = "(i + j) div 2"
    have h: "i \<le> ?h" "?h < j" using True by simp_all
    show ?thesis
    proof (cases "f ?h")
      case True
      have "\<forall>k. ?h \<le> k \<longrightarrow> k < n \<longrightarrow> f k" using mono True by blast
      moreover have "search_loop f i j = search_loop f i ?h"
        using \<open>i < j\<close> True by (subst search_loop.simps) (simp add: Let_def)
      ultimately show ?thesis using less.hyps [of ?h i] less.prems h by fastforce
    next
      case False
      have "\<not> f k" if "k < ?h + 1" for k
        using that False mono h(2) less.prems(2) by (metis Suc_eq_plus1 less_Suc_eq_le order.strict_trans2)
      moreover have "search_loop f i j = search_loop f (?h + 1) j"
        using \<open>i < j\<close> False by (subst search_loop.simps) (simp add: Let_def)
      moreover have "j - (?h + 1) < j - i" "?h + 1 \<le> j" using h by linarith+
      ultimately show ?thesis using less.hyps [of j "?h + 1"] less.prems by fastforce
    qed
  next
    case False
    then have "search_loop f i j = i" by (subst search_loop.simps) simp
    with False less.prems show ?thesis by auto
  qed
qed

lemma sort_Search_correct:
  assumes "\<forall>a b. a \<le> b \<longrightarrow> b < n \<longrightarrow> f a \<longrightarrow> f b"
  shows "sort_Search n f \<le> n" "h < sort_Search n f \<Longrightarrow> \<not> f h"
    "sort_Search n f < n \<Longrightarrow> f (sort_Search n f)"
  using search_loop_correct [OF assms, of 0 n] by (auto simp: sort_Search_def)

lemma lineStart_set: "e \<in> set (lineStart m) \<longleftrightarrow>
    e = 0 \<or> 0 < e \<and> e \<le> length (Content m) \<and> Content m ! (e - 1) = NL"
  by (cases e) (auto simp: lineStart_def)

lemma lineStart_sorted: "sorted_wrt (<) (lineStart m)"
  by (simp add: lineStart_def sorted_wrt_map sorted_wrt_filter)

lemma lineStart_0: "lineStart m ! 0 = 0" "lineStart m \<noteq> []"
  by (simp_all add: lineStart_def)

text \<open>The offset \<open>o\<close> is between the carriage return and the newline that end a line, or after a
  carriage return that ends the file.\<close>

definition crlf_at :: "string \<Rightarrow> nat \<Rightarrow> bool" where
  "crlf_at s off \<longleftrightarrow> 0 < off \<and> s ! (off - 1) = CR \<and> (off = length s \<or> s ! off = NL)"

lemma mapper_line_correct:
  assumes "off \<le> length (Content m)" "mapper_line m off = (line, start, cr)"
  shows "line < length (lineStart m)" "lineStart m ! line = start" "start \<le> off"
    "NL \<notin> set (Go_Prelude.slice start off (Content m))"
    "start = 0 \<or> Content m ! (start - 1) = NL"
    "cr \<longleftrightarrow> crlf_at (Content m) off"
proof -
  let ?ls = "lineStart m" and ?f = "\<lambda>i. off < lineStart m ! i"
  let ?k = "sort_Search (length ?ls) ?f"
  have less: "?ls ! a < ?ls ! b" if "a < b" "b < length ?ls" for a b
    using lineStart_sorted that by (simp add: sorted_wrt_iff_nth_less)
  then have mono: "\<forall>a b. a \<le> b \<longrightarrow> b < length ?ls \<longrightarrow> ?f a \<longrightarrow> ?f b"
    by (metis order.strict_trans le_neq_implies_less)
  note k = sort_Search_correct [OF mono]
  have k0: "0 < ?k" using k(3) lineStart_0 by (cases "?k = 0") auto
  have res: "line = ?k - 1" "start = ?ls ! (?k - 1)"
    "cr \<longleftrightarrow> off = (if ?k = length ?ls then length (Content m) else ?ls ! ?k - 1)
         \<and> off > 0 \<and> Content m ! (off - 1) = CR"
    using assms(2) by (auto simp: mapper_line_def Let_def)
  show line: "line < length ?ls" using k(1) k0 res by linarith
  show "?ls ! line = start" using res by simp
  show st: "start \<le> off" using k(2) [of "?k - 1"] k0 res by simp
  have above: "?k < length ?ls \<and> ?ls ! ?k \<le> e" if e: "e \<in> set ?ls" "off < e" for e
  proof -
    obtain j where j: "j < length ?ls" "?ls ! j = e" using e(1) by (auto simp: in_set_conv_nth)
    then have "?k \<le> j" using k(2) [of j] e(2) by (metis not_le)
    then show ?thesis using j less [of ?k j] by (cases "?k = j") auto
  qed
  show "NL \<notin> set (Go_Prelude.slice start off (Content m))"
  proof
    assume "NL \<in> set (Go_Prelude.slice start off (Content m))"
    then obtain i where i: "i < off - start" "start + i < length (Content m)" "Content m ! (start + i) = NL"
      by (auto simp: in_set_conv_nth nth_slice)
    then have "Suc (start + i) \<in> set ?ls" by (simp add: lineStart_set)
    then obtain j where j: "j < length ?ls" "?ls ! j = Suc (start + i)" by (auto simp: in_set_conv_nth)
    have "\<not> j \<le> ?k - 1"
      using j i(1) less [of j "?k - 1"] line res by (cases "j = ?k - 1") auto
    then have "?k \<le> j" using k0 by linarith
    then have "off < ?ls ! j" using mono k(3) j(1) by (metis le_less_trans)
    then show False using j i(1) by simp
  qed
  show "start = 0 \<or> Content m ! (start - 1) = NL"
    using lineStart_set [of start m] line res nth_mem [of line ?ls] by auto
  have "(off = length (Content m) \<or> Content m ! off = NL)
      \<longleftrightarrow> off = (if ?k = length ?ls then length (Content m) else ?ls ! ?k - 1)"
  proof (cases "?k = length ?ls")
    case True
    have "Content m ! off \<noteq> NL" if "off < length (Content m)"
      using above [of "Suc off"] that True by (auto simp: lineStart_set)
    then show ?thesis using True assms(1) by (cases "off < length (Content m)") auto
  next
    case False
    then have k': "?k < length ?ls" using k(1) by simp
    then have "?ls ! ?k \<in> set ?ls" "off < ?ls ! ?k" using k(3) by auto
    then have e: "?ls ! ?k \<le> length (Content m)" "Content m ! (?ls ! ?k - 1) = NL"
      by (auto simp: lineStart_set)
    have "?ls ! ?k \<le> Suc off" if "Content m ! off = NL" "off < length (Content m)"
      using above [of "Suc off"] that by (auto simp: lineStart_set)
    then show ?thesis using False e \<open>off < ?ls ! ?k\<close> by fastforce
  qed
  then show "cr \<longleftrightarrow> crlf_at (Content m) off" using res(3) by (auto simp: crlf_at_def)
qed

section \<open>Round trips\<close>

lemma slice_prefix: "slice i j xs = drop i (take j xs)"
  by (simp add: slice_def drop_take)

lemma valid_line_prefix:
  assumes "valid_utf8 (take off s)" "start \<le> off" "off \<le> length s" "start = 0 \<or> s ! (start - 1) = NL"
  shows "valid_utf8 (Go_Prelude.slice start off s)"
proof (cases "start = 0")
  case True
  then show ?thesis using assms(1) by (simp add: slice_prefix)
next
  case False
  have "take off s = take (start - 1) s @ s ! (start - 1) # Go_Prelude.slice start off s"
  proof -
    have "start - 1 < length (take off s)" using assms(2,3) False by simp
    from id_take_nth_drop [OF this] show ?thesis
      using assms(2) False by (simp add: slice_prefix)
  qed
  then show ?thesis using valid_utf8_split_ascii [OF assms(1)] assms(4) False by simp
qed

text \<open>The UTF-16 column of an offset in valid text is the length of its line prefix, less a trailing
  carriage return.\<close>

lemma lineCol16_valid:
  assumes "valid_utf8 (take off (Content m))" "off \<le> length (Content m)"
    and "mapper_line m off = (line, start, cr)"
  obtains p where "lineCol16 m off = (line, int (UTF16Len p))" "valid_utf8 p" "NL \<notin> set p"
    "drop start (Content m) = p @ drop (start + length p) (Content m)"
    "start + length p = (if crlf_at (Content m) off then off - 1 else off)"
proof -
  note ml = mapper_line_correct [OF assms(2,3)]
  let ?seg = "Go_Prelude.slice start off (Content m)"
  have v: "valid_utf8 ?seg" using valid_line_prefix [OF assms(1) ml(3) assms(2) ml(5)] .
  have len: "start + length ?seg = off" using ml(3) assms(2) by simp
  have full: "UTF16Len ?seg = off - start" if "\<not> nonASCII m"
  proof -
    have "\<forall>c \<in> set ?seg. byte c < 0x80"
      using that by (auto simp: nonASCII_def list_ex_iff slice_def dest!: in_set_takeD in_set_dropD)
    then show ?thesis using len by (simp add: UTF16Len_ascii)
  qed
  have col: "lineCol16 m off = (line, if cr then int (UTF16Len ?seg) - 1 else int (UTF16Len ?seg))"
    using full by (simp add: lineCol16_def assms(3) Let_def)
  have decomp: "drop start (Content m) = p @ drop (start + length p) (Content m)"
    if "?seg = p @ r" for p r
    using that slice_append_drop [of start off "Content m"] ml(3)
    by (metis add.commute append.assoc append_eq_conv_conj drop_drop)
  show ?thesis
  proof (cases cr)
    case False
    then show ?thesis using that [OF _ v ml(4) decomp [of ?seg "[]"]] col len ml(6) by simp
  next
    case True
    then have c: "crlf_at (Content m) off" using ml(6) by simp
    then have "start \<noteq> off" using ml(5) by (auto simp: crlf_at_def)
    then have lt: "start \<le> off - 1" "0 < off" using ml(3) c by (auto simp: crlf_at_def)
    have "?seg = Go_Prelude.slice start (off - 1) (Content m) @ [CR]"
    proof -
      have "Go_Prelude.slice (off - 1) off (Content m) = [CR]"
        using c lt(2) assms(2) by (auto simp: crlf_at_def slice_def take_Suc_conv_app_nth
            Cons_nth_drop_Suc [symmetric])
      then show ?thesis using slice_append_slice [of start "off - 1" off "Content m"] lt by simp
    qed
    then obtain p where p: "?seg = p @ [CR]" by blast
    have vp: "valid_utf8 p" using valid_utf8_split_ascii [OF v, of p CR "[]"] p by simp
    have "UTF16Len ?seg = UTF16Len p + 1"
      using UTF16Len_append [OF vp, of "[CR]"] p UTF16Len_ascii [of "[CR]"] by simp
    then show ?thesis
      using that [of p] col True vp decomp [OF p] ml(4) p len c by auto
  qed
qed

lemma OffsetPosition_roundtrip:
  assumes "valid_utf8 (take off (Content m))" "off \<le> length (Content m)"
    and "length (Content m) < 2 ^ 32 - 1"
  shows "\<exists>p. OffsetPosition m (int off) = Ok p
    \<and> PositionOffset m p = Ok (int (if crlf_at (Content m) off then off - 1 else off))"
proof -
  obtain line start cr where ml: "mapper_line m off = (line, start, cr)" by (metis prod_cases3)
  note mlc = mapper_line_correct [OF assms(2) ml]
  obtain p where p: "lineCol16 m off = (line, int (UTF16Len p))" "valid_utf8 p" "NL \<notin> set p"
    "drop start (Content m) = p @ drop (start + length p) (Content m)"
    "start + length p = (if crlf_at (Content m) off then off - 1 else off)"
    using lineCol16_valid [OF assms(1,2) ml] by blast
  have lens: "length (lineStart m) \<le> Suc (length (Content m))"
    by (simp add: lineStart_def order_trans [OF length_filter_le])
  then have n: "unat (of_nat (length (lineStart m)) :: 32 word) = length (lineStart m)"
    and l: "unat (of_nat line :: 32 word) = line"
    using assms(3) mlc(1) by (simp_all add: unat_of_nat)
  have "UTF16Len p \<le> length (Content m)"
    using UTF16Len_le [OF p(2)] p(5) assms(2) by (auto split: if_splits)
  then have u: "unat (of_nat (UTF16Len p) :: 32 word) = UTF16Len p"
    using assms(3) by (simp add: unat_of_nat)
  let ?p = "Position (of_nat line) (of_nat (UTF16Len p))"
  have "OffsetPosition m (int off) = Ok ?p" using p(1) assms(2) by (simp add: OffsetPosition_def)
  moreover have "PositionOffset m ?p = Ok (int (start + length p))"
  proof -
    have "\<not> (of_nat line :: 32 word) > of_nat (length (lineStart m))"
      "(of_nat line :: 32 word) \<noteq> of_nat (length (lineStart m))"
      using n l mlc(1) by (auto simp: word_less_nat_alt)
    moreover have "position_loop (drop start (Content m)) 0 0 (UTF16Len p) = Ok (length p)"
      using position_loop_valid [OF p(2,3), of _ 0 0] p(4) by (metis add_0)
    ultimately show ?thesis using n l u mlc(1,2) by (simp add: PositionOffset_def Let_def)
  qed
  ultimately show ?thesis using p(5) by auto
qed

text \<open>Claim C18: byte offsets and LSP positions are converted faithfully: for an offset at a rune
  boundary of valid UTF-8 text of less than four gigabytes, \<open>OffsetPosition\<close> succeeds and
  \<open>PositionOffset\<close> maps its answer back to the offset; between a carriage return and the newline
  it ends with (or the end of the file), the position is that before the carriage return.\<close>

theorem position_roundtrip:
  assumes "valid_utf8 (take off (Content m))" "off \<le> length (Content m)"
    and "length (Content m) < 2 ^ 32 - 1"
  shows "\<exists>p. OffsetPosition m (int off) = Ok p
    \<and> PositionOffset m p = Ok (int (if crlf_at (Content m) off then off - 1 else off))"
  using OffsetPosition_roundtrip [OF assms] .

lemma position_roundtrip_witness:
  "\<exists>p. OffsetPosition (NewMapper ''f'' (''a'' @ NL # CHR 0xF0 # CHR 0x9F # CHR 0x98 # CHR 0x80 # ''b'')) (int 6) = Ok p
    \<and> PositionOffset (NewMapper ''f'' (''a'' @ NL # CHR 0xF0 # CHR 0x9F # CHR 0x98 # CHR 0x80 # ''b'')) p = Ok (int 6)
    \<and> p = Position 1 2"
proof -
  let ?m = "NewMapper ''f'' (''a'' @ NL # CHR 0xF0 # CHR 0x9F # CHR 0x98 # CHR 0x80 # ''b'')"
  have "6 \<le> length (Content ?m)" "length (Content ?m) < 2 ^ 32 - 1"
    by (simp_all add: NewMapper_def)
  moreover have "valid_utf8 (take 6 (Content ?m))" by code_simp
  moreover have "\<not> crlf_at (Content ?m) 6" by code_simp
  moreover have "OffsetPosition ?m (int 6) = Ok (Position 1 2)" by code_simp
  ultimately show ?thesis using position_roundtrip [of 6 ?m] by auto
qed

section \<open>Edits through LSP positions\<close>

text \<open>Offsets that positions represent exactly.\<close>

definition exact_offset :: "Mapper \<Rightarrow> int \<Rightarrow> bool" where
  "exact_offset m off \<longleftrightarrow> 0 \<le> off \<and> off \<le> int (length (Content m))
     \<and> valid_utf8 (take (nat off) (Content m)) \<and> \<not> crlf_at (Content m) (nat off)"

lemma exact_offset_roundtrip:
  assumes "exact_offset m off" "length (Content m) < 2 ^ 32 - 1"
  obtains p where "OffsetPosition m off = Ok p" "PositionOffset m p = Ok off"
proof -
  have "nat off \<le> length (Content m)" "int (nat off) = off" using assms(1) by (auto simp: exact_offset_def)
  then show ?thesis
    using OffsetPosition_roundtrip [of "nat off" m] assms that by (auto simp: exact_offset_def)
qed

lemma edits_roundtrip:
  assumes "\<forall>e \<in> set es. exact_offset m (e_Start e) \<and> exact_offset m (e_End e) \<and> e_Start e \<le> e_End e"
    and "length (Content m) < 2 ^ 32 - 1"
  shows "\<exists>tes. from_diff_loop m es = Ok tes \<and> EditsToDiffEdits m tes = Ok es"
  using assms(1)
proof (induction es)
  case (Cons e es)
  then obtain tes where tes: "from_diff_loop m es = Ok tes" "EditsToDiffEdits m tes = Ok es" by auto
  have ex: "exact_offset m (e_Start e)" "exact_offset m (e_End e)" "e_Start e \<le> e_End e"
    using Cons.prems by auto
  obtain p where p: "OffsetPosition m (e_Start e) = Ok p" "PositionOffset m p = Ok (e_Start e)"
    using exact_offset_roundtrip [OF ex(1) assms(2)] by blast
  obtain q where q: "OffsetPosition m (e_End e) = Ok q" "PositionOffset m q = Ok (e_End e)"
    using exact_offset_roundtrip [OF ex(2) assms(2)] by blast
  have "mk_edit (e_Start e) (e_End e) (e_New e) = e" by (simp add: mk_edit_def)
  then show ?case using tes p q ex(3) by (simp add: OffsetRange_def RangeOffsets_def)
qed simp

text \<open>Converting diff edits to LSP text edits and back loses nothing: if \<open>Apply\<close> accepts the
  edits of a content of less than four gigabytes, and their offsets are at rune boundaries of
  valid UTF-8 text and not inside a CRLF, then \<open>EditsFromDiffEdits\<close> succeeds, \<open>EditsToDiffEdits\<close>
  gives back the sorted edits, and \<open>ApplyEdits\<close> yields the very text that \<open>Apply\<close> yields.\<close>

theorem ApplyEdits_roundtrip:
  assumes "Apply (Content m) es = Ok out" "length (Content m) < 2 ^ 32 - 1"
    and "\<forall>e \<in> set es. exact_offset m (e_Start e) \<and> exact_offset m (e_End e)"
  shows "\<exists>tes. EditsFromDiffEdits m es = Ok tes \<and> EditsToDiffEdits m tes = Ok (SortEdits es)
    \<and> ApplyEdits m tes = Ok (out, SortEdits es)"
proof -
  have ok: "ok_edits (int (length (Content m))) 0 (SortEdits es)"
    using assms(1) by (simp add: Apply_patch)
  have "e_Start e \<le> e_End e" if "e \<in> set fs" "ok_edits n k fs" for e fs n k
    using that by (induction n k fs rule: ok_edits.induct) auto
  from this [OF _ ok] have "\<forall>e \<in> set es. e_Start e \<le> e_End e" by simp
  with assms obtain tes where tes: "from_diff_loop m (SortEdits es) = Ok tes"
      "EditsToDiffEdits m tes = Ok (SortEdits es)"
    using edits_roundtrip [of "SortEdits es" m] by auto
  moreover have "Apply (Content m) (SortEdits es) = Ok out"
    using assms(1) Apply_ok [OF ok] ok_edits_SortEdits [OF ok] ok
    by (simp add: Apply_ok)
  ultimately show ?thesis by (auto simp: EditsFromDiffEdits_def ApplyEdits_def)
qed

lemma ApplyEdits_roundtrip_witness:
  "\<exists>tes. EditsFromDiffEdits (NewMapper ''f'' ''abc'') [mk_edit 1 2 ''X''] = Ok tes
    \<and> EditsToDiffEdits (NewMapper ''f'' ''abc'') tes = Ok (SortEdits [mk_edit 1 2 ''X''])
    \<and> ApplyEdits (NewMapper ''f'' ''abc'') tes = Ok (''aXc'', SortEdits [mk_edit 1 2 ''X''])"
proof (rule ApplyEdits_roundtrip)
  show "Apply (Content (NewMapper ''f'' ''abc'')) [mk_edit 1 2 ''X''] = Ok ''aXc''" by code_simp
  show "length (Content (NewMapper ''f'' ''abc'')) < 2 ^ 32 - 1" by (simp add: NewMapper_def)
  show "\<forall>e \<in> set [mk_edit 1 2 ''X'']. exact_offset (NewMapper ''f'' ''abc'') (e_Start e)
      \<and> exact_offset (NewMapper ''f'' ''abc'') (e_End e)" by code_simp
qed

end
