(* ===== verification/File_Summary.thy ===== *)
theory File_Summary
  imports Mapper
begin

text \<open>
  The package summaries of \<open>gopls/mcpbridge/core/truncation.go\<close>: \<open>writeFileSummaryWithBodyLimit\<close>
  prints the header and the declarations of a parsed Go file, with function bodies as far as
  a token budget allows.  A syntax tree keeps what the function looks at: the kind of each
  declaration and specification, the names, and the positions.  \<open>ast.IsExported\<close> (a question to
  the Unicode tables) and \<open>snapshot.ReadFile\<close>/\<open>ParseGo\<close> are parameters.  The line table of the
  token file is that of the content.
\<close>

section \<open>Syntax trees\<close>

datatype expr = Ident string | ParenExpr expr | StarExpr expr | IndexExpr expr | IndexListExpr expr | OtherExpr

text \<open>\<open>astutil.UnpackRecv\<close>: the name of the receiver's type, \<open>None\<close> for a nil identifier.\<close>

fun strip_recv :: "expr \<Rightarrow> expr" where
  "strip_recv (ParenExpr x) = strip_recv x"
| "strip_recv (StarExpr x) = strip_recv x"
| "strip_recv t = t"

definition UnpackRecv :: "expr \<Rightarrow> string option" where
  "UnpackRecv rtyp =
     (let t = (case strip_recv rtyp of IndexExpr x \<Rightarrow> x | IndexListExpr x \<Rightarrow> x | t \<Rightarrow> t)
      in case t of Ident n \<Rightarrow> Some n | _ \<Rightarrow> None)"

text \<open>A comment group or node as the interval of its positions; 0 is \<open>token.NoPos\<close>.\<close>

type_synonym interval = "int \<times> int"

datatype token = IMPORT_TOK | CONST_TOK | TYPE_TOK | VAR_TOK

datatype spec =
    ImportSpec
  | TypeSpec (sp_names: "string list") (sp_pos: interval) (sp_doc: "interval option") (sp_comment: "interval option")
  | ValueSpec (sp_names: "string list") (sp_pos: interval) (sp_doc: "interval option") (sp_comment: "interval option")

record func_decl =
  fd_name :: string
  fd_recv :: "expr list option"
  fd_doc :: "interval option"
  fd_pos :: interval
  fd_type :: interval

record gen_decl =
  gd_tok :: token
  gd_doc :: "interval option"
  gd_pos :: interval
  gd_lparen :: bool
  gd_specs :: "spec list"

datatype decl = FuncDecl func_decl | GenDecl gen_decl | BadDecl

record pgf =
  pg_tok :: tokenFile
  pg_mapper :: Mapper
  pg_file :: interval
  pg_copyright :: "interval option"
  pg_decls :: "decl list"

section \<open>Text of positions\<close>

definition pgf_PosText :: "pgf \<Rightarrow> int \<Rightarrow> int \<Rightarrow> (pos_error, string) outcome" where
  "pgf_PosText f start end' = PosText (pg_mapper f) (pg_tok f) start end'"

definition NodeText :: "pgf \<Rightarrow> interval \<Rightarrow> (pos_error, string) outcome" where
  "NodeText f n = pgf_PosText f (fst n) (snd n)"

text \<open>\<open>Indentation\<close>: \<open>safetoken.Line\<close> of an out-of-range position is that of the nearest offset, and
  \<open>LineStart\<close> panics on the line 0 of \<open>NoPos\<close>.\<close>

definition Indentation :: "pgf \<Rightarrow> int \<Rightarrow> (pos_error, string) outcome" where
  "Indentation f pos =
     (if pos = 0 then Panic
      else
        let src = Content (pg_mapper f);
            off = nat (max 0 (min (int (length src)) (pos - tf_Base (pg_tok f))));
            (_, start, _) = mapper_line (pg_mapper f) off
        in bind_outcome (Offsets (pg_tok f) (tf_Base (pg_tok f) + int start) pos) (\<lambda>(s, e).
             if 0 \<le> s \<and> s \<le> e \<and> e \<le> int (length src)
             then let txt = Go_Prelude.slice (nat s) (nat e) src in Ok (take (space_prefix txt) txt)
             else Panic))"

section \<open>The header\<close>

text \<open>The position before the first non-import declaration.\<close>

fun header_end :: "int \<Rightarrow> decl list \<Rightarrow> int" where
  "header_end endPos [] = endPos"
| "header_end endPos (FuncDecl d # ds) =
     (case fd_doc d of Some doc \<Rightarrow> fst doc | None \<Rightarrow> fst (fd_pos d))"
| "header_end endPos (GenDecl d # ds) =
     (if gd_tok d = IMPORT_TOK then header_end endPos ds
      else case gd_doc d of Some doc \<Rightarrow> fst doc | None \<Rightarrow> fst (gd_pos d))"
| "header_end endPos (BadDecl # ds) = header_end endPos ds"

definition write_header :: "pgf \<Rightarrow> (pos_error, string) outcome" where
  "write_header f =
     (let endPos = header_end (snd (pg_file f)) (pg_decls f);
          startPos = (case pg_copyright f of Some c \<Rightarrow> snd c | None \<Rightarrow> fst (pg_file f))
      in bind_outcome (pgf_PosText f startPos endPos) (\<lambda>txt. Ok (TrimSpace txt @ [NL, NL])))"

section \<open>Function declarations\<close>

text \<open>The configuration of a run: \<open>onlyExported\<close>, \<open>declsToSummarize\<close> (a set of names or nil),
  \<open>includeBodies\<close> and \<open>maxBodyTokens\<close>.\<close>

record config =
  onlyExported :: bool
  declsToSummarize :: "string list option"
  includeBodies :: bool
  maxBodyTokens :: int

definition selected :: "config \<Rightarrow> string \<Rightarrow> bool" where
  "selected c name = (case declsToSummarize c of None \<Rightarrow> True | Some names \<Rightarrow> name \<in> set names)"

text \<open>Whether a function is printed; asking a nil receiver name whether it is exported panics.\<close>

definition func_visible :: "(string \<Rightarrow> bool) \<Rightarrow> config \<Rightarrow> func_decl \<Rightarrow> (pos_error, bool) outcome" where
  "func_visible IsExported c d =
     (if \<not> selected c (fd_name d) then Ok False
      else if \<not> onlyExported c then Ok True
      else if \<not> IsExported (fd_name d) then Ok False
      else case fd_recv d of
        None \<Rightarrow> Ok True
      | Some [] \<Rightarrow> Ok True
      | Some (r # _) \<Rightarrow>
          (case UnpackRecv r of None \<Rightarrow> Panic | Some rname \<Rightarrow> Ok (IsExported rname)))"

definition omitted_note :: string where
  "omitted_note = ''[Function body omitted due to max_body_tokens limit]'' @ [NL]"

text \<open>The end of the printed text, a note to print before it, and the tokens used so far.\<close>

definition body_end :: "pgf \<Rightarrow> config \<Rightarrow> func_decl \<Rightarrow> int \<Rightarrow> (pos_error, int \<times> string \<times> int) outcome" where
  "body_end f c d used =
     (if includeBodies c then
        (case pgf_PosText f (fst (fd_type d)) (snd (fd_pos d)) of
           Ok bodyText \<Rightarrow>
             let estimate = int (length bodyText div 4) in
             if maxBodyTokens c > 0 \<and> used + estimate > maxBodyTokens c
             then Ok (snd (fd_type d), omitted_note, used)
             else Ok (snd (fd_pos d), [], used + estimate)
         | Err _ \<Rightarrow> Ok (snd (fd_type d), [], used)
         | Panic \<Rightarrow> Panic)
      else Ok (snd (fd_type d), [], used))"

definition func_start :: "func_decl \<Rightarrow> int" where
  "func_start d = (case fd_doc d of Some doc \<Rightarrow> fst doc | None \<Rightarrow> fst (fd_pos d))"

definition write_func :: "(string \<Rightarrow> bool) \<Rightarrow> pgf \<Rightarrow> config \<Rightarrow> func_decl \<Rightarrow> string \<times> int \<Rightarrow>
    (pos_error, string \<times> int) outcome" where
  "write_func IsExported f c d st =
     bind_outcome (func_visible IsExported c d) (\<lambda>visible.
       if \<not> visible then Ok st
       else bind_outcome (body_end f c d (snd st)) (\<lambda>(endPos, note, used).
         bind_outcome (pgf_PosText f (func_start d) endPos) (\<lambda>txt.
              Ok (fst st @ note @ txt @ [NL, NL], used))))"

section \<open>Constants, types and variables\<close>

definition spec_selected :: "config \<Rightarrow> spec \<Rightarrow> bool" where
  "spec_selected c s =
     (case declsToSummarize c of None \<Rightarrow> True
      | Some names \<Rightarrow> s \<noteq> ImportSpec \<and> list_ex (\<lambda>n. n \<in> set names) (sp_names s))"

definition spec_exported :: "(string \<Rightarrow> bool) \<Rightarrow> spec \<Rightarrow> bool" where
  "spec_exported IsExported s = list_ex IsExported (sp_names s)"

definition spec_interval :: "spec \<Rightarrow> interval" where
  "spec_interval s =
     (if s = ImportSpec then (0, 0)
      else (case sp_doc s of None \<Rightarrow> fst (sp_pos s) | Some doc \<Rightarrow> fst doc,
            case sp_comment s of None \<Rightarrow> snd (sp_pos s) | Some cm \<Rightarrow> snd cm))"

text \<open>The loop over the specifications: the buffer and \<open>anyExported\<close>.\<close>

fun write_specs :: "(string \<Rightarrow> bool) \<Rightarrow> pgf \<Rightarrow> config \<Rightarrow> spec list \<Rightarrow> string \<times> bool \<Rightarrow>
    (pos_error, string \<times> bool) outcome" where
  "write_specs IsExported f c [] st = Ok st"
| "write_specs IsExported f c (s # ss) (buf, anyExported) =
     (if s \<noteq> ImportSpec \<and> (\<not> spec_selected c s \<or> \<not> spec_exported IsExported s)
      then write_specs IsExported f c ss (buf, anyExported)
      else
        let (startPos, endPos) = spec_interval s in
        bind_outcome (Indentation f startPos) (\<lambda>indent.
        bind_outcome (pgf_PosText f startPos endPos) (\<lambda>txt.
          write_specs IsExported f c ss (buf @ indent @ txt @ [NL], anyExported \<or> s \<noteq> ImportSpec))))"

fun token_String :: "token \<Rightarrow> string" where
  "token_String IMPORT_TOK = ''import''"
| "token_String CONST_TOK = ''const''"
| "token_String TYPE_TOK = ''type''"
| "token_String VAR_TOK = ''var''"

definition write_gen :: "(string \<Rightarrow> bool) \<Rightarrow> pgf \<Rightarrow> config \<Rightarrow> gen_decl \<Rightarrow> string \<Rightarrow> (pos_error, string) outcome" where
  "write_gen IsExported f c d out =
     (if gd_tok d = IMPORT_TOK then Ok out
      else if declsToSummarize c \<noteq> None \<and> \<not> list_ex (spec_selected c) (gd_specs d) then Ok out
      else if \<not> onlyExported c then
        let startPos = (case gd_doc d of Some doc \<Rightarrow> fst doc | None \<Rightarrow> fst (gd_pos d))
        in bind_outcome (pgf_PosText f startPos (snd (gd_pos d))) (\<lambda>txt. Ok (out @ txt @ [NL]))
      else
        bind_outcome (case gd_doc d of None \<Rightarrow> Ok []
            | Some doc \<Rightarrow> bind_outcome (NodeText f doc) (\<lambda>txt. Ok (txt @ [NL]))) (\<lambda>buf.
        let buf = buf @ token_String (gd_tok d) @ '' '' @ (if gd_lparen d then ''('' @ [NL] else []) in
        bind_outcome (write_specs IsExported f c (gd_specs d) (buf, False)) (\<lambda>(buf, anyExported).
        let buf = (if gd_lparen d then buf @ '')'' @ [NL] else buf) in
          Ok (if anyExported then out @ buf @ [NL] else out))))"

section \<open>Files and packages\<close>

fun write_decls :: "(string \<Rightarrow> bool) \<Rightarrow> pgf \<Rightarrow> config \<Rightarrow> decl list \<Rightarrow> string \<times> int \<Rightarrow>
    (pos_error, string \<times> int) outcome" where
  "write_decls IsExported f c [] st = Ok st"
| "write_decls IsExported f c (FuncDecl d # ds) st =
     bind_outcome (write_func IsExported f c d st) (write_decls IsExported f c ds)"
| "write_decls IsExported f c (GenDecl d # ds) (out, used) =
     bind_outcome (write_gen IsExported f c d out) (\<lambda>out'. write_decls IsExported f c ds (out', used))"
| "write_decls IsExported f c (BadDecl # ds) st = write_decls IsExported f c ds st"

definition writeFileSummary :: "(string \<Rightarrow> bool) \<Rightarrow> pgf \<Rightarrow> config \<Rightarrow> string \<Rightarrow> (pos_error, string) outcome" where
  "writeFileSummary IsExported f c out =
     bind_outcome (if declsToSummarize c = None then write_header f else Ok []) (\<lambda>header.
     bind_outcome (write_decls IsExported f c (pg_decls f) (out @ header, 0)) (\<lambda>(out', _). Ok out'))"

text \<open>\<open>parse uri\<close> stands for \<open>ReadFile\<close> followed by \<open>ParseGo\<close>; any error makes the summary empty.\<close>

record summary_pkg =
  sp_PkgPath :: string
  sp_Name :: string
  sp_files :: "string list"

fun summarize_files :: "(string \<Rightarrow> bool) \<Rightarrow> (string \<Rightarrow> (pos_error, pgf) outcome) \<Rightarrow> (string \<Rightarrow> string) \<Rightarrow>
    config \<Rightarrow> string list \<Rightarrow> string \<Rightarrow> (pos_error, string) outcome" where
  "summarize_files IsExported parse base c [] buf = Ok buf"
| "summarize_files IsExported parse base c (uri # uris) buf =
     bind_outcome (parse uri) (\<lambda>f.
     bind_outcome (writeFileSummary IsExported f c (buf @ base uri @ '':'' @ NL # ''```go'' @ [NL])) (\<lambda>buf'.
       summarize_files IsExported parse base c uris (buf' @ ''```'' @ [NL, NL])))"

definition summarizePackage :: "(string \<Rightarrow> bool) \<Rightarrow> (string \<Rightarrow> (pos_error, pgf) outcome) \<Rightarrow> (string \<Rightarrow> string) \<Rightarrow>
    (string \<Rightarrow> string) \<Rightarrow> summary_pkg \<Rightarrow> bool \<Rightarrow> int \<Rightarrow> (pos_error, string) outcome" where
  "summarizePackage IsExported parse base quote mp bodies maxTokens =
     (case summarize_files IsExported parse base
             \<lparr>onlyExported = True, declsToSummarize = None, includeBodies = bodies, maxBodyTokens = maxTokens\<rparr>
             (sp_files mp) (quote (sp_PkgPath mp) @ '' (package '' @ sp_Name mp @ '')'' @ [NL]) of
        Ok buf \<Rightarrow> Ok buf
      | Err e \<Rightarrow> Ok []
      | Panic \<Rightarrow> Panic)"

section \<open>Properties\<close>

text \<open>What the run may print for a declaration, and how many body tokens it counts for that: a
  function with its body, or up to the end of its signature (perhaps after the note) for nothing.\<close>

fun printed :: "pgf \<Rightarrow> config \<Rightarrow> decl \<Rightarrow> string \<times> int \<Rightarrow> bool" where
  "printed f c (FuncDecl d) (e, k) \<longleftrightarrow>
     (\<exists>body txt. includeBodies c \<and> pgf_PosText f (fst (fd_type d)) (snd (fd_pos d)) = Ok body
        \<and> k = int (length body div 4)
        \<and> pgf_PosText f (func_start d) (snd (fd_pos d)) = Ok txt \<and> e = txt @ [NL, NL])
     \<or> (\<exists>note txt. (note = [] \<or> includeBodies c \<and> maxBodyTokens c > 0 \<and> note = omitted_note) \<and> k = 0
        \<and> pgf_PosText f (func_start d) (snd (fd_type d)) = Ok txt \<and> e = note @ txt @ [NL, NL])"
| "printed f c _ (e, k) \<longleftrightarrow> k = 0"

definition shown :: "(string \<Rightarrow> bool) \<Rightarrow> config \<Rightarrow> decl \<Rightarrow> bool" where
  "shown IsExported c d = (case d of FuncDecl d \<Rightarrow> func_visible IsExported c d = Ok True | _ \<Rightarrow> True)"

lemma shown_simps [simp]:
  "shown IsExported c (FuncDecl d) \<longleftrightarrow> func_visible IsExported c d = Ok True"
  "shown IsExported c (GenDecl g)" "shown IsExported c BadDecl"
  by (simp_all add: shown_def)

lemma body_end_printed:
  assumes "body_end f c d used = Ok (endPos, note, used')" "pgf_PosText f (func_start d) endPos = Ok txt"
  shows "printed f c (FuncDecl d) (note @ txt @ [NL, NL], used' - used) \<and> used \<le> used'
    \<and> (maxBodyTokens c > 0 \<longrightarrow> used \<le> maxBodyTokens c \<longrightarrow> used' \<le> maxBodyTokens c)"
  using assms by (auto simp: body_end_def Let_def split: if_splits outcome.splits)

lemma write_gen_appends: "write_gen IsExported f c d out = Ok out' \<Longrightarrow> \<exists>e. out' = out @ e"
  by (auto simp: write_gen_def Let_def bind_outcome_Ok_iff split: if_splits prod.splits)

lemma write_decls_printed:
  "write_decls IsExported f c ds (out, used) = Ok (out', used') \<Longrightarrow>
   \<exists>es. list_all2 (printed f c) (filter (shown IsExported c) ds) es
     \<and> out' = out @ concat (map fst es) \<and> used' = used + sum_list (map snd es)
     \<and> (maxBodyTokens c > 0 \<longrightarrow> used \<le> maxBodyTokens c \<longrightarrow> used' \<le> maxBodyTokens c)"
proof (induction ds arbitrary: out used)
  case (Cons d ds)
  show ?case
  proof (cases d)
    case (FuncDecl fd)
    then obtain out1 used1 where 1: "write_func IsExported f c fd (out, used) = Ok (out1, used1)"
      "write_decls IsExported f c ds (out1, used1) = Ok (out', used')"
      using Cons.prems by (auto simp: bind_outcome_Ok_iff)
    from Cons.IH [OF 1(2)] obtain es where es: "list_all2 (printed f c) (filter (shown IsExported c) ds) es"
      "out' = out1 @ concat (map fst es)" "used' = used1 + sum_list (map snd es)"
      "maxBodyTokens c > 0 \<longrightarrow> used1 \<le> maxBodyTokens c \<longrightarrow> used' \<le> maxBodyTokens c" by blast
    obtain visible where v: "func_visible IsExported c fd = Ok visible"
      using 1(1) by (auto simp: write_func_def bind_outcome_Ok_iff)
    show ?thesis
    proof (cases visible)
      case False
      then show ?thesis using 1(1) v es FuncDecl by (intro exI [of _ es]) (auto simp: write_func_def)
    next
      case True
      then obtain endPos nt tx where b: "body_end f c fd used = Ok (endPos, nt, used1)"
        "pgf_PosText f (func_start fd) endPos = Ok tx" "out1 = out @ nt @ tx @ [NL, NL]"
        using 1(1) v by (auto simp: write_func_def bind_outcome_Ok_iff)
      note p = body_end_printed [OF b(1,2)]
      show ?thesis
        using p es b(3) FuncDecl v True
        by (intro exI [of _ "(nt @ tx @ [NL, NL], used1 - used) # es"]) auto
    qed
  next
    case (GenDecl gd)
    then obtain out1 where 1: "write_gen IsExported f c gd out = Ok out1"
      "write_decls IsExported f c ds (out1, used) = Ok (out', used')"
      using Cons.prems by (auto simp: bind_outcome_Ok_iff)
    from write_gen_appends [OF 1(1)] obtain e where e: "out1 = out @ e" ..
    from Cons.IH [OF 1(2)] obtain es where "list_all2 (printed f c) (filter (shown IsExported c) ds) es"
      "out' = out1 @ concat (map fst es)" "used' = used + sum_list (map snd es)"
      "maxBodyTokens c > 0 \<longrightarrow> used \<le> maxBodyTokens c \<longrightarrow> used' \<le> maxBodyTokens c" by blast
    then show ?thesis using e GenDecl by (intro exI [of _ "(e, 0) # es"]) auto
  next
    case BadDecl
    then have "write_decls IsExported f c ds (out, used) = Ok (out', used')" using Cons.prems by simp
    from Cons.IH [OF this] obtain es where "list_all2 (printed f c) (filter (shown IsExported c) ds) es"
      "out' = out @ concat (map fst es)" "used' = used + sum_list (map snd es)"
      "maxBodyTokens c > 0 \<longrightarrow> used \<le> maxBodyTokens c \<longrightarrow> used' \<le> maxBodyTokens c" by blast
    then show ?thesis using BadDecl by (intro exI [of _ "([], 0) # es"]) auto
  qed
qed auto

text \<open>A file summary prints, after the header, exactly one entry per shown declaration in
  source order (functions that are not selected, not exported or have an unexported receiver
  contribute nothing); a function is printed whole or up to the end of its signature, and with a
  positive \<open>maxBodyTokens\<close> the token estimates of all bodies printed whole sum up to at most
  that limit; without \<open>includeBodies\<close> no body is printed.\<close>

theorem summary_within_body_budget:
  assumes "writeFileSummary IsExported f c out = Ok out'"
  shows "\<exists>header es. out' = out @ header @ concat (map fst es)
    \<and> list_all2 (printed f c) (filter (shown IsExported c) (pg_decls f)) es
    \<and> (maxBodyTokens c > 0 \<longrightarrow> sum_list (map snd es) \<le> maxBodyTokens c)
    \<and> (\<not> includeBodies c \<longrightarrow> (\<forall>(e, k) \<in> set es. k = 0))"
proof -
  obtain header used where w: "write_decls IsExported f c (pg_decls f) (out @ header, 0) = Ok (out', used)"
    using assms by (auto simp: writeFileSummary_def bind_outcome_Ok_iff)
  from write_decls_printed [OF w] obtain es
    where es: "list_all2 (printed f c) (filter (shown IsExported c) (pg_decls f)) es"
      "out' = (out @ header) @ concat (map fst es)"
      "maxBodyTokens c > 0 \<longrightarrow> sum_list (map snd es) \<le> maxBodyTokens c" by auto
  have "k = 0" if "printed f c d (e, k)" "\<not> includeBodies c" for d e k
    using that by (cases d) auto
  then have "\<forall>(e, k) \<in> set es. k = 0" if "\<not> includeBodies c"
    using es(1) that by (fastforce simp: list_all2_conv_all_nth in_set_conv_nth)
  then show ?thesis using es by (intro exI [of _ header] exI [of _ es]) auto
qed

definition example_pgf :: pgf where
  "example_pgf = \<lparr>pg_tok = \<lparr>tf_Base = 1, tf_Size = 31\<rparr>,
     pg_mapper = NewMapper ''p.go'' (''package p'' @ NL # NL # ''func F() { return }'' @ [NL]),
     pg_file = (1, 32), pg_copyright = None,
     pg_decls = [FuncDecl \<lparr>fd_name = ''F'', fd_recv = None, fd_doc = None, fd_pos = (12, 31), fd_type = (12, 20)\<rparr>]\<rparr>"

lemma summary_within_body_budget_witness:
  "\<exists>header es. ''package p'' @ NL # NL # omitted_note @ ''func F()'' @ [NL, NL] = [] @ header @ concat (map fst es)
    \<and> list_all2 (printed example_pgf \<lparr>onlyExported = True, declsToSummarize = None, includeBodies = True, maxBodyTokens = 2\<rparr>)
         (pg_decls example_pgf) es \<and> sum_list (map snd es) \<le> 2"
proof -
  let ?c = "\<lparr>onlyExported = True, declsToSummarize = None, includeBodies = True, maxBodyTokens = 2\<rparr>"
  have w: "writeFileSummary (\<lambda>_. True) example_pgf ?c []
      = Ok (''package p'' @ NL # NL # omitted_note @ ''func F()'' @ [NL, NL])" by code_simp
  have "filter (shown (\<lambda>_. True) ?c) (pg_decls example_pgf) = pg_decls example_pgf" by code_simp
  with summary_within_body_budget [OF w] show ?thesis by simp
qed

end
