(* ===== verification/Json.thy ===== *)
theory Json
  imports Utf8
begin

text \<open>
  JSON values and \<open>encoding/json.Marshal\<close>, as far as the response limiter uses them.  A Go
  \<open>map[string]any\<close> is the list of its entries in the order in which \<open>range\<close> visits them; \<open>Marshal\<close>
  sorts the keys.  A number is kept as the text that \<open>Marshal\<close> prints for it.
\<close>

datatype json = JNull | JBool bool | JNum string | JStr string | JArr "json list" | JObj "(string \<times> json) list"

definition hex_digit :: "nat \<Rightarrow> char" where
  "hex_digit n = (if n < 10 then char_of (48 + n) else char_of (87 + n))"

definition hex2 :: "nat \<Rightarrow> string" where
  "hex2 n = [hex_digit (n div 16), hex_digit (n mod 16)]"

text \<open>The escape of one rune, given its bytes.\<close>

definition json_escape :: "int \<Rightarrow> string \<Rightarrow> string" where
  "json_escape r bytes =
     (if r = 0x22 \<or> r = 0x5C then CHR 0x5C # bytes
      else if r = 8 then CHR 0x5C # ''b'' else if r = 12 then CHR 0x5C # ''f''
      else if r = 10 then CHR 0x5C # ''n'' else if r = 13 then CHR 0x5C # ''r''
      else if r = 9 then CHR 0x5C # ''t''
      else if r < 0x20 \<or> r = 0x3C \<or> r = 0x3E \<or> r = 0x26 then CHR 0x5C # ''u00'' @ hex2 (nat r)
      else if r = RuneError \<and> length bytes = 1 then CHR 0x5C # ''ufffd''
      else if r = 0x2028 then CHR 0x5C # ''u2028'' else if r = 0x2029 then CHR 0x5C # ''u2029''
      else bytes)"

function json_quote_runes :: "string \<Rightarrow> string" where
  "json_quote_runes s =
     (if s = [] then []
      else case DecodeRune s of (r, n) \<Rightarrow> json_escape r (take n s) @ json_quote_runes (drop n s))"
  by pat_completeness auto
termination
  by (relation "measure length") (auto dest: DecodeRune_size simp: prod_eq_iff)

declare json_quote_runes.simps [simp del]

definition json_quote :: "string \<Rightarrow> string" where
  "json_quote s = CHR 0x22 # json_quote_runes s @ [CHR 0x22]"

text \<open>Sorting entries by key, bytewise as Go compares strings.\<close>

fun bytes_le :: "string \<Rightarrow> string \<Rightarrow> bool" where
  "bytes_le [] t = True"
| "bytes_le (a # s) [] = False"
| "bytes_le (a # s) (b # t) = (if byte a = byte b then bytes_le s t else byte a < byte b)"

fun insert_entry :: "string \<times> 'a \<Rightarrow> (string \<times> 'a) list \<Rightarrow> (string \<times> 'a) list" where
  "insert_entry e [] = [e]"
| "insert_entry e (f # fs) = (if bytes_le (fst e) (fst f) then e # f # fs else f # insert_entry e fs)"

fun sort_entries :: "(string \<times> 'a) list \<Rightarrow> (string \<times> 'a) list" where
  "sort_entries [] = []"
| "sort_entries (e # es) = insert_entry e (sort_entries es)"

fun Marshal :: "json \<Rightarrow> string" where
  "Marshal JNull = ''null''"
| "Marshal (JBool b) = (if b then ''true'' else ''false'')"
| "Marshal (JNum n) = n"
| "Marshal (JStr s) = json_quote s"
| "Marshal (JArr vs) = ''['' @ str_join '','' (map Marshal vs) @ '']''"
| "Marshal (JObj kvs) = ''{'' @ str_join '',''
     (map (\<lambda>(k, t). json_quote k @ '':'' @ t) (sort_entries (map (\<lambda>(k, v). (k, Marshal v)) kvs))) @ ''}''"

lemma length_str_join_take_mono:
  "m \<le> n \<Longrightarrow> length (str_join sep (take m xs)) \<le> length (str_join sep (take n xs))"
proof -
  assume "m \<le> n"
  then have "take m xs = take m (take n xs)" by simp
  then have "has_prefix (str_join sep (take n xs)) (str_join sep (take m xs))"
    using has_prefix_str_join_take [of sep "take n xs" m] by simp
  then show ?thesis by (auto simp: has_prefix_iff)
qed

lemma Marshal_array_mono:
  "m \<le> n \<Longrightarrow> length (Marshal (JArr (take m vs))) \<le> length (Marshal (JArr (take n vs)))"
  using length_str_join_take_mono [of m n "'',''" "map Marshal vs"] by (simp add: take_map)

end
