(* ===== verification/Response_Limiter.thy ===== *)
theory Response_Limiter
  imports Json "HOL-Library.AList" "HOL-Library.Signed_Division"
begin

text \<open>
  The response limiter of \<open>gopls/mcpbridge/core/response_limiter.go\<close>: every tool reply whose text
  exceeds \<open>maxBytes\<close> is truncated, as JSON when it parses as an object and bytewise otherwise.
  \<open>json.Unmarshal\<close> of the reply's text is a parameter.
\<close>

section \<open>Sizes\<close>

definition estimateValueSize :: "json \<Rightarrow> int" where
  "estimateValueSize v = int (length (Marshal v))"

definition estimateArraySize :: "json list \<Rightarrow> int" where
  "estimateArraySize arr = estimateValueSize (JArr arr)"

definition estimateMapSize :: "(string \<times> json) list \<Rightarrow> int" where
  "estimateMapSize data = estimateValueSize (JObj data)"

section \<open>Truncating arrays\<close>

text \<open>The binary search of \<open>truncateArray\<close>, over any size of prefixes.\<close>

function fit_loop :: "('a list \<Rightarrow> int) \<Rightarrow> 'a list \<Rightarrow> int \<Rightarrow> int \<Rightarrow> int \<Rightarrow> int \<Rightarrow> int" where
  "fit_loop size_of arr maxBytes low high bestLen =
     (if low \<le> high then
        let mid = (low + high) div 2 in
        if size_of (take (nat mid) arr) \<le> maxBytes
        then fit_loop size_of arr maxBytes (mid + 1) high mid
        else fit_loop size_of arr maxBytes low (mid - 1) bestLen
      else bestLen)"
  by pat_completeness auto
termination
  by (relation "measure (\<lambda>(s, arr, m, low, high, b). nat (high + 1 - low))") auto

declare fit_loop.simps [simp del]

definition truncateArray :: "json list \<Rightarrow> int \<Rightarrow> json list" where
  "truncateArray arr maxBytes =
     (if arr = [] then arr
      else
        let bestLen = fit_loop estimateArraySize arr maxBytes 1 (int (length arr)) 1
        in if bestLen < int (length arr) then take (nat bestLen) arr else arr)"

section \<open>Truncating maps and values\<close>

text \<open>A slice \<open>v[:remainingBytes]\<close> with a negative bound panics.\<close>

function (sequential) truncateValue :: "json \<Rightarrow> int \<Rightarrow> (unit, json) outcome"
  and truncate_entries :: "(string \<times> json) list \<Rightarrow> int \<Rightarrow> int \<Rightarrow> (unit, (string \<times> json) list) outcome" where
  "truncateValue (JArr v) remaining = Ok (JArr (truncateArray v remaining))"
| "truncateValue (JObj v) remaining =
     bind_outcome (truncate_entries v 0 remaining) (\<lambda>kvs. Ok (JObj kvs))"
| "truncateValue (JStr v) remaining =
     (if int (length v) > remaining then
        (if remaining < 0 then Panic else Ok (JStr (take (nat remaining) v @ ''...'')))
      else Ok (JStr v))"
| "truncateValue v remaining = Ok v"
| "truncate_entries [] currentSize maxChars = Ok []"
| "truncate_entries ((key, value) # rest) currentSize maxChars =
     (if has_prefix key ''_''
      then bind_outcome (truncate_entries rest currentSize maxChars) (\<lambda>r. Ok ((key, value) # r))
      else
        let valueSize = estimateValueSize value in
        if currentSize + valueSize > maxChars
        then bind_outcome (truncateValue value (maxChars - currentSize)) (\<lambda>v. Ok [(key, v)])
        else bind_outcome (truncate_entries rest (currentSize + valueSize) maxChars)
               (\<lambda>r. Ok ((key, value) # r)))"
  by pat_completeness auto
termination
  by (relation "measure (\<lambda>x. case x of Inl (v, r) \<Rightarrow> size v | Inr (kvs, c, m) \<Rightarrow> size_list (size_prod (\<lambda>_. 0) size) kvs)")
     auto

definition truncateMap :: "(string \<times> json) list \<Rightarrow> int \<Rightarrow> (unit, (string \<times> json) list) outcome" where
  "truncateMap data maxChars = truncate_entries data 0 maxChars"

section \<open>Replies\<close>

definition put :: "string \<Rightarrow> json \<Rightarrow> (string \<times> json) list \<Rightarrow> (string \<times> json) list" where
  "put k v data = AList.update k v data"

definition hint_heavy :: string where
  "hint_heavy = ''Response was heavily truncated. Use more specific queries to reduce results.''"

definition hint_partial :: "int \<Rightarrow> string" where
  "hint_partial p = ''Response partially truncated ('' @ itoa_int p @ ''% of original).''"

definition addTruncationMetadata ::
  "(string \<times> json) list \<Rightarrow> int \<Rightarrow> int \<Rightarrow> string \<Rightarrow> (string \<times> json) list" where
  "addTruncationMetadata data originalSize truncatedSize toolName =
     (let data = put ''_truncated'' (JBool True) data;
          data = put ''_original_bytes'' (JNum (itoa_int originalSize)) data;
          data = put ''_truncated_bytes'' (JNum (itoa_int truncatedSize)) data;
          data = put ''_tool'' (JStr toolName) data
      in if originalSize > 0 then
           let percentKept = (truncatedSize * 100) sdiv originalSize;
               data = put ''_percent_kept'' (JNum (itoa_int percentKept)) data
           in if percentKept < 50 then put ''_hint'' (JStr hint_heavy) data
              else if percentKept < 80 then put ''_hint'' (JStr (hint_partial percentKept)) data
              else data
         else data)"

text \<open>\<open>json.Unmarshal\<close> into a map: an error, or the object's entries (\<open>null\<close> leaves the map nil,
  which \<open>reflect.DeepEqual\<close> tells from the empty map that \<open>truncateMap\<close> makes).\<close>

datatype unmarshalled = NotAnObject | NilMap | Entries "(string \<times> json) list"

definition unmarshalled_entries :: "unmarshalled \<Rightarrow> (string \<times> json) list" where
  "unmarshalled_entries d = (case d of Entries kvs \<Rightarrow> kvs | _ \<Rightarrow> [])"

definition hard_truncate :: "string \<Rightarrow> int \<Rightarrow> (unit, string) outcome" where
  "hard_truncate txt maxBytes =
     (if int (length txt) > maxBytes then
        (if maxBytes < 0 then Panic
         else
           let truncated = take (nat maxBytes) txt in
           Ok (if has_suffix truncated ''}'' \<or> has_suffix truncated '']''
               then take (length truncated - 1) truncated @ '', '' @ CHR 0x22 # ''_truncated'' @ CHR 0x22 # '': true}''
               else truncated))
      else Ok txt)"

definition truncateText :: "(string \<Rightarrow> unmarshalled) \<Rightarrow> string \<Rightarrow> int \<Rightarrow> int \<Rightarrow> string \<Rightarrow> (unit, string) outcome" where
  "truncateText Unmarshal txt maxBytes currentSize toolName =
     (let targetSize = (maxBytes * 80) sdiv 100; data = Unmarshal txt in
      if data = NotAnObject then hard_truncate txt maxBytes
      else
        bind_outcome (truncateMap (unmarshalled_entries data) targetSize) (\<lambda>truncated.
          Ok (Marshal (JObj
            (if data = NilMap \<or> truncated \<noteq> unmarshalled_entries data
             then addTruncationMetadata truncated currentSize (estimateMapSize truncated) toolName
             else truncated)))))"

datatype content = TextContent string | OtherContent

text \<open>The size of a reply counts its text contents.\<close>

fun content_size :: "content \<Rightarrow> int" where
  "content_size (TextContent t) = int (length t)"
| "content_size OtherContent = 0"

definition estimateResultSize :: "content list \<Rightarrow> int" where
  "estimateResultSize cs = sum_list (map content_size cs)"

text \<open>The loop that replaces the first text content.\<close>

fun truncate_first :: "(string \<Rightarrow> (unit, string) outcome) \<Rightarrow> content list \<Rightarrow> (unit, content list) outcome" where
  "truncate_first f [] = Ok []"
| "truncate_first f (TextContent t # cs) = bind_outcome (f t) (\<lambda>t'. Ok (TextContent t' # cs))"
| "truncate_first f (OtherContent # cs) = bind_outcome (truncate_first f cs) (\<lambda>cs'. Ok (OtherContent # cs'))"

definition applyResponseLimits :: "(string \<Rightarrow> unmarshalled) \<Rightarrow> content list option \<Rightarrow> int \<Rightarrow> string \<Rightarrow>
    (unit, content list option) outcome" where
  "applyResponseLimits Unmarshal result maxBytes toolName =
     (case result of
        None \<Rightarrow> Ok None
      | Some cs \<Rightarrow>
          if cs = [] then Ok result
          else
            let currentSize = estimateResultSize cs in
            if currentSize \<le> maxBytes then Ok result
            else bind_outcome
                   (truncate_first (\<lambda>t. truncateText Unmarshal t maxBytes currentSize toolName) cs)
                   (\<lambda>cs'. Ok (Some cs')))"

text \<open>A handler yields a reply, an output and an error; the wrapper limits the reply of a success.\<close>

definition WrapWithResponseLimits :: "(string \<Rightarrow> unmarshalled) \<Rightarrow>
    ('i \<Rightarrow> content list option \<times> 'o \<times> string option) \<Rightarrow> int \<Rightarrow> string \<Rightarrow>
    'i \<Rightarrow> (unit, content list option \<times> 'o \<times> string option) outcome" where
  "WrapWithResponseLimits Unmarshal handler maxBytes toolName input =
     (case handler input of (result, out, err) \<Rightarrow>
        if err \<noteq> None then Ok (result, out, err)
        else if result \<noteq> None
        then bind_outcome (applyResponseLimits Unmarshal result maxBytes toolName) (\<lambda>r. Ok (r, out, None))
        else Ok (result, out, None))"

section \<open>The longest prefix that fits\<close>

text \<open>A measure of list prefixes that grows with the prefix.\<close>

locale prefix_measure =
  fixes size_of :: "'a list \<Rightarrow> int"
  assumes mono: "m \<le> n \<Longrightarrow> size_of (take m xs) \<le> size_of (take n xs)"
begin

lemma fit_loop_correct:
  assumes "1 \<le> low" "high \<le> int (length arr)" "0 \<le> high"
    and "low \<noteq> 1 \<and> bestLen = low - 1 \<or> low = 1 \<and> bestLen = 1" "low \<le> high + 1"
    and "low \<noteq> 1 \<longrightarrow> size_of (take (nat (low - 1)) arr) \<le> b"
    and "high < int (length arr) \<longrightarrow> size_of (take (nat (high + 1)) arr) > b"
  shows "let n = fit_loop size_of arr b low high bestLen in
    (1 \<le> n \<and> n \<le> max 1 high) \<and> (n = 1 \<or> size_of (take (nat n) arr) \<le> b)
    \<and> (n < int (length arr) \<longrightarrow> (n = 1 \<and> size_of (take 1 arr) > b) \<or> size_of (take (nat (n + 1)) arr) > b)"
  using assms
proof (induction "nat (high + 1 - low)" arbitrary: low high bestLen rule: less_induct)
  case less
  show ?case
  proof (cases "low \<le> high")
    case True
    let ?mid = "(low + high) div 2"
    have mid: "low \<le> ?mid" "?mid \<le> high" using True by auto
    show ?thesis
    proof (cases "size_of (take (nat ?mid) arr) \<le> b")
      case fits: True
      have "fit_loop size_of arr b low high bestLen = fit_loop size_of arr b (?mid + 1) high ?mid"
        using True fits by (subst fit_loop.simps) (simp add: Let_def)
      moreover have "nat (high + 1 - (?mid + 1)) < nat (high + 1 - low)" using mid True by linarith
      ultimately show ?thesis
        using less.hyps [of high "?mid + 1" ?mid] less.prems mid fits by simp
    next
      case large: False
      have eq: "fit_loop size_of arr b low high bestLen = fit_loop size_of arr b low (?mid - 1) bestLen"
        using True large by (subst fit_loop.simps) (simp add: Let_def)
      have m: "nat (?mid - 1 + 1 - low) < nat (high + 1 - low)" using mid True by linarith
      have "1 \<le> ?mid" using mid less.prems(1) by linarith
      then show ?thesis
        using less.hyps [OF m, of bestLen] less.prems mid large eq by (auto simp: Let_def max_def split: if_splits)
    qed
  next
    case False
    then have "fit_loop size_of arr b low high bestLen = bestLen" by (subst fit_loop.simps) simp
    moreover have "low = high + 1" using False less.prems by simp
    ultimately show ?thesis using less.prems by (auto simp: Let_def Suc_le_eq)
  qed
qed

text \<open>The search finds the longest nonempty prefix within the bound, or the first element alone.\<close>

lemma fit_longest:
  assumes "arr \<noteq> []" and n_def: "n = fit_loop size_of arr b 1 (int (length arr)) 1"
  shows "1 \<le> n" "n \<le> int (length arr)" "n = 1 \<or> size_of (take (nat n) arr) \<le> b"
    "k \<le> length arr \<Longrightarrow> size_of (take k arr) \<le> b \<Longrightarrow> int k \<le> n"
proof -
  have len: "1 \<le> int (length arr)" using assms(1) by (cases arr) auto
  have c: "(1 \<le> n \<and> n \<le> max 1 (int (length arr))) \<and> (n = 1 \<or> size_of (take (nat n) arr) \<le> b)
    \<and> (n < int (length arr) \<longrightarrow> (n = 1 \<and> size_of (take 1 arr) > b) \<or> size_of (take (nat (n + 1)) arr) > b)"
    using fit_loop_correct [of 1 "int (length arr)" arr 1 b] len by (simp add: n_def Let_def)
  then show "1 \<le> n" "n \<le> int (length arr)" "n = 1 \<or> size_of (take (nat n) arr) \<le> b"
    using len by auto
  show "int k \<le> n" if k: "k \<le> length arr" "size_of (take k arr) \<le> b"
  proof (rule ccontr)
    assume "\<not> int k \<le> n"
    then have "n < int (length arr)" "nat (n + 1) \<le> k" "1 \<le> k" using k c by auto
    then show False using c k(2) mono [of 1 k arr] mono [of "nat (n + 1)" k arr] by auto
  qed
qed

end

interpretation json_array: prefix_measure estimateArraySize
proof
  fix m n :: nat and xs
  assume "m \<le> n"
  from Marshal_array_mono [OF this, of xs]
  show "estimateArraySize (take m xs) \<le> estimateArraySize (take n xs)"
    by (simp add: estimateArraySize_def estimateValueSize_def del: Marshal.simps)
qed

section \<open>Properties\<close>

text \<open>\<open>truncateArray\<close> keeps the longest nonempty prefix whose JSON text fits in \<open>maxBytes\<close>; if
  not even the first element fits, it keeps just that one.\<close>

theorem truncateArray_longest:
  assumes "arr \<noteq> []"
  shows "\<exists>n. 1 \<le> n \<and> n \<le> length arr \<and> truncateArray arr maxBytes = take n arr
    \<and> (n = 1 \<or> estimateArraySize (take n arr) \<le> maxBytes)
    \<and> (\<forall>k \<le> length arr. estimateArraySize (take k arr) \<le> maxBytes \<longrightarrow> k \<le> n)"
proof -
  let ?n = "fit_loop estimateArraySize arr maxBytes 1 (int (length arr)) 1"
  note f = json_array.fit_longest [OF assms refl, where b = maxBytes]
  have "truncateArray arr maxBytes = take (nat ?n) arr"
    using assms f(1,2) by (auto simp: truncateArray_def Let_def)
  then show ?thesis
    using f by (intro exI [of _ "nat ?n"]) (auto simp: nat_le_iff le_nat_iff)
qed

lemma truncateArray_longest_witness:
  "truncateArray [JNum ''1'', JNum ''22'', JNum ''333''] 7 = [JNum ''1'', JNum ''22'']
   \<and> (\<exists>n. 1 \<le> n \<and> truncateArray [JNum ''1'', JNum ''22'', JNum ''333''] 7
        = take n [JNum ''1'', JNum ''22'', JNum ''333''])"
proof -
  have "truncateArray [JNum ''1'', JNum ''22'', JNum ''333''] 7 = [JNum ''1'', JNum ''22'']" by code_simp
  then show ?thesis
    using truncateArray_longest [of "[JNum ''1'', JNum ''22'', JNum ''333'']" 7] by blast
qed

text \<open>Entries that are not metadata, and their total size.\<close>

definition payload :: "(string \<times> json) list \<Rightarrow> int" where
  "payload kvs = sum_list (map (\<lambda>(k, v). if has_prefix k ''_'' then 0 else estimateValueSize v) kvs)"

text \<open>\<open>r\<close> is the data whole, within the bound, or a prefix within the bound followed by one entry that
  would exceed it, whose value is truncated to the room left.\<close>

definition cut_entries :: "(string \<times> json) list \<Rightarrow> int \<Rightarrow> (string \<times> json) list \<Rightarrow> bool" where
  "cut_entries data room r \<longleftrightarrow>
     r = data \<and> payload data \<le> room
     \<or> (\<exists>kept k v v' rest. data = kept @ (k, v) # rest \<and> r = kept @ [(k, v')]
          \<and> \<not> has_prefix k ''_'' \<and> payload kept \<le> room
          \<and> payload kept + estimateValueSize v > room
          \<and> truncateValue v (room - payload kept) = Ok v')"

lemma payload_simps [simp]:
  "payload [] = 0"
  "payload ((k, v) # kvs) = (if has_prefix k ''_'' then 0 else estimateValueSize v) + payload kvs"
  by (simp_all add: payload_def)

lemma cut_entries_Cons:
  assumes "cut_entries data (room - c) r" "c = (if has_prefix k ''_'' then 0 else estimateValueSize v)"
  shows "cut_entries ((k, v) # data) room ((k, v) # r)"
  using assms(1) unfolding cut_entries_def
proof
  assume "r = data \<and> payload data \<le> room - c"
  then show "(k, v) # r = (k, v) # data \<and> payload ((k, v) # data) \<le> room \<or> (\<exists>kept k' v1 v' rest.
      (k, v) # data = kept @ (k', v1) # rest \<and> (k, v) # r = kept @ [(k', v')] \<and> \<not> has_prefix k' ''_''
      \<and> payload kept \<le> room \<and> room < payload kept + estimateValueSize v1
      \<and> truncateValue v1 (room - payload kept) = Ok v')"
    using assms(2) by simp
next
  assume "\<exists>kept k' v1 v' rest. data = kept @ (k', v1) # rest \<and> r = kept @ [(k', v')] \<and> \<not> has_prefix k' ''_''
      \<and> payload kept \<le> room - c \<and> room - c < payload kept + estimateValueSize v1
      \<and> truncateValue v1 (room - c - payload kept) = Ok v'"
  then obtain kept k' v1 v' rest where x: "data = kept @ (k', v1) # rest" "r = kept @ [(k', v')]"
      "\<not> has_prefix k' ''_''" "payload kept \<le> room - c" "room - c < payload kept + estimateValueSize v1"
      "truncateValue v1 (room - c - payload kept) = Ok v'" by blast
  have p: "payload ((k, v) # kept) = c + payload kept" using assms(2) by simp
  have t: "truncateValue v1 (room - (c + payload kept)) = Ok v'" using x(6) by (simp add: algebra_simps)
  show "(k, v) # r = (k, v) # data \<and> payload ((k, v) # data) \<le> room \<or> (\<exists>kept k' v1 v' rest.
      (k, v) # data = kept @ (k', v1) # rest \<and> (k, v) # r = kept @ [(k', v')] \<and> \<not> has_prefix k' ''_''
      \<and> payload kept \<le> room \<and> room < payload kept + estimateValueSize v1
      \<and> truncateValue v1 (room - payload kept) = Ok v')"
    using x(1-5) p t
    by (intro disjI2 exI [of _ "(k, v) # kept"] exI [of _ k'] exI [of _ v1] exI [of _ v'] exI [of _ rest]) auto
qed

lemma truncate_total:
  "0 \<le> remaining \<Longrightarrow> \<exists>v'. truncateValue v remaining = Ok v'"
  "currentSize \<le> maxChars \<Longrightarrow>
     \<exists>r. truncate_entries data currentSize maxChars = Ok r \<and> cut_entries data (maxChars - currentSize) r"
proof (induction v remaining and data currentSize maxChars rule: truncateValue_truncate_entries.induct)
  case (5 currentSize maxChars)
  then show ?case by (simp add: cut_entries_def)
next
  case (6 key val rest currentSize maxChars)
  show ?case
  proof (cases "has_prefix key ''_''")
    case True
    with 6 obtain r where "truncate_entries rest currentSize maxChars = Ok r"
      "cut_entries rest (maxChars - currentSize) r" by blast
    with True show ?thesis using cut_entries_Cons [of rest "maxChars - currentSize" 0 r key val] by simp
  next
    case False
    show ?thesis
    proof (cases "currentSize + estimateValueSize val > maxChars")
      case True
      with False 6 obtain v' where v': "truncateValue val (maxChars - currentSize) = Ok v'" by fastforce
      have "cut_entries ((key, val) # rest) (maxChars - currentSize) [(key, v')]"
        unfolding cut_entries_def using False True 6 v'
        by (intro disjI2 exI [of _ "[]"] exI [of _ key] exI [of _ val] exI [of _ v'] exI [of _ rest]) auto
      then show ?thesis using False True v' by (simp add: Let_def)
    next
      case fits: False
      with False 6 obtain r where "truncate_entries rest (currentSize + estimateValueSize val) maxChars = Ok r"
        "cut_entries rest (maxChars - (currentSize + estimateValueSize val)) r" by fastforce
      with False fits show ?thesis
        using cut_entries_Cons [of rest "maxChars - currentSize" "estimateValueSize val" r key val]
        by (simp add: Let_def algebra_simps)
    qed
  qed
qed auto

text \<open>With a nonnegative bound \<open>truncateMap\<close> always returns, and its result is the map itself when
  the JSON sizes of its values add up to at most \<open>maxChars\<close>; otherwise the entries it visited first,
  unchanged and within the bound, and the entry that would exceed it with its value truncated to
  the room left; whatever comes after that entry is dropped.\<close>

theorem truncateMap_spec:
  assumes "0 \<le> maxChars"
  shows "\<exists>r. truncateMap data maxChars = Ok r \<and> cut_entries data maxChars r
    \<and> (payload data \<le> maxChars \<longleftrightarrow> r = data \<and> payload data \<le> maxChars)"
proof -
  obtain r where r: "truncateMap data maxChars = Ok r" "cut_entries data maxChars r"
    using truncate_total(2) [of 0 maxChars data] assms by (auto simp: truncateMap_def)
  have nonneg: "0 \<le> payload kvs" for kvs
    by (induction kvs) (auto simp: estimateValueSize_def)
  have app: "payload (a @ b) = payload a + payload b" for a b by (simp add: payload_def)
  have "r = data" if p: "payload data \<le> maxChars"
    using r(2) unfolding cut_entries_def
  proof
    assume "\<exists>kept k v v' rest. data = kept @ (k, v) # rest \<and> r = kept @ [(k, v')] \<and> \<not> has_prefix k ''_''
        \<and> payload kept \<le> maxChars \<and> maxChars < payload kept + estimateValueSize v
        \<and> truncateValue v (maxChars - payload kept) = Ok v'"
    then obtain kept k v rest where "data = kept @ (k, v) # rest" "\<not> has_prefix k ''_''"
      "maxChars < payload kept + estimateValueSize v" by blast
    then show ?thesis using p nonneg [of rest] by (simp add: app)
  qed blast
  then show ?thesis using r by blast
qed

lemma truncateMap_spec_witness:
  "truncateMap [(''a'', JNum ''12''), (''b'', JStr ''xyzuvw''), (''c'', JNull)] 6
     = Ok [(''a'', JNum ''12''), (''b'', JStr ''xyzu...'')]
   \<and> cut_entries [(''a'', JNum ''12''), (''b'', JStr ''xyzuvw''), (''c'', JNull)] 6
       [(''a'', JNum ''12''), (''b'', JStr ''xyzu...'')]"
proof -
  have "truncateMap [(''a'', JNum ''12''), (''b'', JStr ''xyzuvw''), (''c'', JNull)] 6
     = Ok [(''a'', JNum ''12''), (''b'', JStr ''xyzu...'')]" by code_simp
  then show ?thesis
    using truncateMap_spec [of 6 "[(''a'', JNum ''12''), (''b'', JStr ''xyzuvw''), (''c'', JNull)]"] by auto
qed

lemma applyResponseLimits_total:
  assumes "0 \<le> maxBytes"
  shows "\<exists>cs'. applyResponseLimits Unmarshal (Some cs) maxBytes toolName = Ok (Some cs')
    \<and> (estimateResultSize cs \<le> maxBytes \<longrightarrow> cs' = cs)
    \<and> (estimateResultSize cs > maxBytes \<longrightarrow>
        (\<exists>pre t t' post. cs = pre @ TextContent t # post \<and> set pre \<subseteq> {OtherContent}
           \<and> cs' = pre @ TextContent t' # post
           \<and> truncateText Unmarshal t maxBytes (estimateResultSize cs) toolName = Ok t'))"
proof -
  have pos: "0 \<le> (maxBytes * 80) sdiv 100" using assms by (auto simp: signed_divide_int_def sgn_if)
  have tot: "\<exists>t'. truncateText Unmarshal t maxBytes c toolName = Ok t'" for t c
  proof (cases "Unmarshal t = NotAnObject")
    case True
    then show ?thesis using assms by (simp add: truncateText_def hard_truncate_def Let_def)
  next
    case False
    obtain r where "truncateMap (unmarshalled_entries (Unmarshal t)) ((maxBytes * 80) sdiv 100) = Ok r"
      using truncate_total(2) [OF pos, of "unmarshalled_entries (Unmarshal t)"]
      by (auto simp: truncateMap_def)
    then show ?thesis using False by (simp add: truncateText_def Let_def)
  qed
  have loop: "\<exists>pre t t' post. cs = pre @ TextContent t # post \<and> set pre \<subseteq> {OtherContent}
      \<and> truncate_first (\<lambda>t. truncateText Unmarshal t maxBytes c toolName) cs = Ok (pre @ TextContent t' # post)
      \<and> truncateText Unmarshal t maxBytes c toolName = Ok t'"
    if "0 < estimateResultSize cs" for cs c
    using that
  proof (induction cs)
    case (Cons x cs)
    show ?case
    proof (cases x)
      case (TextContent t)
      obtain t' where "truncateText Unmarshal t maxBytes c toolName = Ok t'" using tot by blast
      then show ?thesis using TextContent
        by (intro exI [of _ "[]"] exI [of _ t] exI [of _ t'] exI [of _ cs]) simp
    next
      case OtherContent
      then obtain pre t t' post where "cs = pre @ TextContent t # post" "set pre \<subseteq> {OtherContent}"
        "truncate_first (\<lambda>t. truncateText Unmarshal t maxBytes c toolName) cs = Ok (pre @ TextContent t' # post)"
        "truncateText Unmarshal t maxBytes c toolName = Ok t'"
        using Cons by (auto simp: estimateResultSize_def)
      then show ?thesis using OtherContent
        by (intro exI [of _ "OtherContent # pre"] exI [of _ t] exI [of _ t'] exI [of _ post]) simp
    qed
  qed (simp add: estimateResultSize_def)
  show ?thesis
  proof (cases "estimateResultSize cs \<le> maxBytes")
    case True
    then show ?thesis by (simp add: applyResponseLimits_def Let_def)
  next
    case False
    then have "0 < estimateResultSize cs" "cs \<noteq> []" using assms by (auto simp: estimateResultSize_def)
    with loop [of cs "estimateResultSize cs"] False show ?thesis
      by (fastforce simp: applyResponseLimits_def Let_def)
  qed
qed

text \<open>\<open>applyResponseLimits\<close> with a nonnegative limit never panics; a reply within the limit (or
  without contents) is returned unchanged, and of a larger one only the first text content is
  replaced, by what \<open>truncateText\<close> makes of it.\<close>

theorem applyResponseLimits_spec:
  assumes "0 \<le> maxBytes"
  shows "\<exists>cs'. applyResponseLimits Unmarshal (Some cs) maxBytes toolName = Ok (Some cs')
    \<and> (estimateResultSize cs \<le> maxBytes \<longrightarrow> cs' = cs)
    \<and> (estimateResultSize cs > maxBytes \<longrightarrow>
        (\<exists>pre t t' post. cs = pre @ TextContent t # post \<and> set pre \<subseteq> {OtherContent}
           \<and> cs' = pre @ TextContent t' # post
           \<and> truncateText Unmarshal t maxBytes (estimateResultSize cs) toolName = Ok t'))"
  by (rule applyResponseLimits_total [OF assms])

lemma applyResponseLimits_spec_witness:
  "applyResponseLimits (\<lambda>_. NotAnObject) (Some [OtherContent, TextContent ''abcdef'']) 4 ''t''
     = Ok (Some [OtherContent, TextContent ''abcd''])
   \<and> (\<exists>cs'. applyResponseLimits (\<lambda>_. NotAnObject) (Some [TextContent ''ab'']) 4 ''t'' = Ok (Some cs')
        \<and> cs' = [TextContent ''ab''])"
proof
  show "applyResponseLimits (\<lambda>_. NotAnObject) (Some [OtherContent, TextContent ''abcdef'']) 4 ''t''
     = Ok (Some [OtherContent, TextContent ''abcd''])" by code_simp
  have "estimateResultSize [TextContent ''ab''] \<le> 4" by (simp add: estimateResultSize_def)
  with applyResponseLimits_spec [of 4 "\<lambda>_. NotAnObject" "[TextContent ''ab'']" "''t''"]
  show "\<exists>cs'. applyResponseLimits (\<lambda>_. NotAnObject) (Some [TextContent ''ab'']) 4 ''t'' = Ok (Some cs')
        \<and> cs' = [TextContent ''ab'']" by simp
qed

end
