(* ===== verification/Workspace.thy ===== *)
theory Workspace
  imports Metadata_Graph Paths
begin

text \<open>
  Views and go.mod files as the MCP handlers see them: \<open>viewForDir\<close> and \<open>getView\<close> of
  \<open>mcpbridge/core/handlers.go\<close>.  A view holds
  what the session answers about it: its root, its go.mod files (\<open>None\<close> for one that cannot be read or
  parsed, all of which the handlers skip), whether a snapshot can be acquired, and the metadata
  graph that loading it returns.
\<close>

section \<open>Views\<close>

record require =
  rq_Path :: string
  rq_Version :: string
  rq_Indirect :: bool

record replace =
  rp_Old :: string
  rp_NewPath :: string
  rp_NewVersion :: string

text \<open>A parsed go.mod file; the module and go directives may be missing.\<close>

record modfile =
  mf_Module :: "string option"
  mf_Go :: "string option"
  mf_Require :: "require list"
  mf_Replace :: "replace list"

datatype view_type = GoPackagesDriverView | GOPATHView | GoModView | GoWorkView | AdHocView

record view =
  vw_Type :: view_type
  vw_Root :: string
  vw_ModFiles :: "(string \<times> modfile option) list"
  vw_Snapshot :: "(string, unit) outcome"
  vw_Graph :: "(string, graph) outcome"

text \<open>The handler: the views of its session, whether it may create views, and the directories of the
  views it created.  \<open>new_view\<close>, an argument of \<open>viewForDir\<close>, is what \<open>FetchGoEnv\<close> and \<open>Session.NewView\<close>
  answer for a directory; a new view is appended to the views of the session.\<close>

record handler =
  h_Views :: "view list"
  h_allowDynamicViews :: bool
  h_dynamicViews :: "string list"

definition view_contains :: "string \<Rightarrow> view \<Rightarrow> bool" where
  "view_contains dir v \<longleftrightarrow> has_prefix dir (vw_Root v) \<or> dir = vw_Root v"

definition viewForDir :: "(string \<Rightarrow> (string, view) outcome) \<Rightarrow> handler \<Rightarrow> string \<Rightarrow> (string, view) outcome \<times> handler" where
  "viewForDir new_view h dir0 =
     (let dir = filepath_Clean dir0 in
      case List.find (view_contains dir) (h_Views h) of
        Some v \<Rightarrow> (Ok v, h)
      | None \<Rightarrow>
          if \<not> h_allowDynamicViews h then (Err (''no view found for directory '' @ dir), h)
          else case new_view dir of
            Ok v \<Rightarrow> (Ok v, h\<lparr>h_Views := h_Views h @ [v],
                          h_dynamicViews := List.insert dir (h_dynamicViews h)\<rparr>)
          | Err e \<Rightarrow> (Err e, h)
          | Panic \<Rightarrow> (Panic, h))"

definition getView :: "(string \<Rightarrow> (string, view) outcome) \<Rightarrow> handler \<Rightarrow> string \<Rightarrow> (string, view) outcome \<times> handler" where
  "getView new_view h dir =
     (if dir \<noteq> [] then viewForDir new_view h dir
      else case h_Views h of
        [] \<Rightarrow> (Err ''no views available'', h)
      | v # _ \<Rightarrow> (Ok v, h))"

text \<open>The head that all handlers share: get the view, then its snapshot; \<open>k\<close> is the rest.\<close>

definition with_view :: "(string \<Rightarrow> (string, view) outcome) \<Rightarrow> handler \<Rightarrow> string \<Rightarrow>
    (view \<Rightarrow> (string, 'a) outcome) \<Rightarrow> (string, 'a) outcome \<times> handler" where
  "with_view new_view h cwd k =
     (case getView new_view h cwd of
        (r, h') \<Rightarrow> (bind_outcome r (\<lambda>v. bind_outcome (vw_Snapshot v) (\<lambda>_. k v)), h'))"

text \<open>The loop by which the handlers find the main module: the first go.mod file that can be read and
  has a module directive.\<close>

definition first_module :: "view \<Rightarrow> modfile option" where
  "first_module v = List.find (\<lambda>f. mf_Module f \<noteq> None) (List.map_filter snd (vw_ModFiles v))"

definition main_module_path :: "view \<Rightarrow> string" where
  "main_module_path v = (case first_module v of None \<Rightarrow> [] | Some f \<Rightarrow> the (mf_Module f))"

section \<open>Choosing a view\<close>

lemma find_Some_mem: "List.find P xs = Some x \<Longrightarrow> x \<in> set xs \<and> P x"
  by (induction xs) (auto split: if_splits)

lemma find_append_None: "List.find P xs = None \<Longrightarrow> List.find P (xs @ ys) = List.find P ys"
  by (induction xs) (auto split: if_splits)

lemma find_first: "\<forall>u \<in> set vs. \<not> P u \<Longrightarrow> P v \<Longrightarrow> List.find P (vs @ v # ws) = Some v"
  by (induction vs) auto

lemma view_contains_prefix: "view_contains dir v \<longleftrightarrow> has_prefix dir (vw_Root v)"
  by (auto simp: view_contains_def)


definition example_view :: view where
  "example_view = \<lparr>vw_Type = GoModView, vw_Root = ''/src/a'', vw_ModFiles = [], vw_Snapshot = Ok (), vw_Graph = Ok (newGraph [])\<rparr>"

definition example_handler :: "bool \<Rightarrow> handler" where
  "example_handler dyn = \<lparr>h_Views = [example_view], h_allowDynamicViews = dyn, h_dynamicViews = []\<rparr>"


end
