(* ===== verification/Modules.thy ===== *)
theory Modules
  imports Workspace
begin

text \<open>
  The tool \<open>go_list_modules\<close>: \<open>handleListModules\<close> of \<open>mcpbridge/core/handlers.go\<close> with the functions
  it uses.  The order in which \<open>range\<close> visits the map of module replacements is an argument, a
  permutation.  \<open>sort.Slice\<close> is a stable sort here; the code's may order modules of one path
  differently.
\<close>

section \<open>Modules\<close>

record ModuleInfo =
  mi_Path :: string
  mi_Version :: string
  mi_Main :: bool
  mi_Indirect :: bool
  mi_FilePath :: string
  mi_Replaces :: string

record replaceInfo =
  newPath :: string
  newVersion :: string

definition isLocalPath :: "string \<Rightarrow> bool" where
  "isLocalPath path \<longleftrightarrow>
     (if path = [] then False
      else has_prefix path ''.'' \<or> has_prefix path ''/'' \<or> length path > 1 \<and> path ! 1 = CHR '':'')"

definition isInternal :: "ModuleInfo \<Rightarrow> string \<Rightarrow> bool" where
  "isInternal m rootModulePath \<longleftrightarrow>
     mi_Main m
     \<or> has_prefix (mi_Path m) rootModulePath
         \<and> (length (mi_Path m) = length rootModulePath \<or> mi_Path m ! length rootModulePath = SLASH)
     \<or> mi_FilePath m \<noteq> []"

fun commonPrefixLength :: "string \<Rightarrow> string \<Rightarrow> nat" where
  "commonPrefixLength (a # as) (b # bs) = (if a \<noteq> b then 0 else Suc (commonPrefixLength as bs))"
| "commonPrefixLength _ _ = 0"

text \<open>Descending by overlap, then ascending by path.\<close>

definition overlap_key :: "string \<Rightarrow> ModuleInfo \<Rightarrow> int \<times> string" where
  "overlap_key mainModulePath m = (- int (commonPrefixLength mainModulePath (mi_Path m)), mi_Path m)"

text \<open>\<open>mainIdx\<close> is the index of the last main module; \<open>copy\<close> overwrites the front of the slice.  Making
  a slice of capacity -1 panics.\<close>

definition sortModulesByOverlap :: "ModuleInfo list \<Rightarrow> string \<Rightarrow> (string, ModuleInfo list) outcome" where
  "sortModulesByOverlap modules mainModulePath =
     (if modules = [] then Panic
      else
        let deps = sort_key (overlap_key mainModulePath) (filter (\<lambda>m. \<not> mi_Main m) modules) in
        case List.find mi_Main (rev modules) of
          None \<Rightarrow> Ok modules
        | Some m \<Rightarrow> let result = m # deps in Ok (result @ drop (length result) modules))"

section \<open>The handler\<close>

text \<open>The state of the loop over the go.mod files.\<close>

record mod_state =
  ms_all :: "ModuleInfo list"
  ms_seen :: "string list"
  ms_main :: string
  ms_local :: "(string \<times> string) list"
  ms_module :: "(string \<times> replaceInfo) list"

definition add_replace :: "string \<Rightarrow> replace \<Rightarrow> mod_state \<Rightarrow> mod_state" where
  "add_replace modDir rp s =
     (if isLocalPath (rp_NewPath rp) then
        s\<lparr>ms_local := AList.update (rp_Old rp)
            (if has_prefix (rp_NewPath rp) ''.'' then filepath_Clean (filepath_Join modDir (rp_NewPath rp))
             else rp_NewPath rp) (ms_local s)\<rparr>
      else s\<lparr>ms_module := AList.update (rp_Old rp)
               \<lparr>newPath = rp_NewPath rp, newVersion = rp_NewVersion rp\<rparr> (ms_module s)\<rparr>)"

definition main_info :: "string \<Rightarrow> ModuleInfo" where
  "main_info p = \<lparr>mi_Path = p, mi_Version = [], mi_Main = True, mi_Indirect = False, mi_FilePath = [], mi_Replaces = []\<rparr>"

definition require_info :: "require \<Rightarrow> ModuleInfo" where
  "require_info r = \<lparr>mi_Path = rq_Path r, mi_Version = rq_Version r, mi_Main = False,
     mi_Indirect = rq_Indirect r, mi_FilePath = [], mi_Replaces = []\<rparr>"

definition add_require :: "bool \<Rightarrow> require \<Rightarrow> mod_state \<Rightarrow> mod_state" where
  "add_require directOnly r s =
     (if rq_Path r \<in> set (ms_seen s) then s
      else if directOnly \<and> rq_Indirect r then s
      else s\<lparr>ms_all := ms_all s @ [require_info r]\<rparr>)"

definition add_modfile :: "bool \<Rightarrow> string \<times> modfile option \<Rightarrow> mod_state \<Rightarrow> mod_state" where
  "add_modfile directOnly uf s =
     (case uf of (uri, fo) \<Rightarrow>
        (case fo of
           None \<Rightarrow> s
         | Some f \<Rightarrow>
             (case mf_Module f of
                None \<Rightarrow> s
              | Some modPath \<Rightarrow>
                  let modDir = filepath_Dir uri;
                      s1 = fold (add_replace modDir) (mf_Replace f) s;
                      s2 = s1\<lparr>ms_main := modPath, ms_local := AList.update modPath modDir (ms_local s1),
                              ms_all := ms_all s1 @ [main_info modPath], ms_seen := List.insert modPath (ms_seen s1)\<rparr>
                  in fold (add_require directOnly) (mf_Require f) s2)))"

text \<open>The modules that replace others are added when no module of their path is listed; the keys of
  \<open>modulesMap\<close> are the paths of the modules listed so far.\<close>

definition add_replacement :: "string \<times> replaceInfo \<Rightarrow> ModuleInfo list \<Rightarrow> ModuleInfo list" where
  "add_replacement op modules =
     (case op of (oldPath, rp) \<Rightarrow>
        if newPath rp \<in> mi_Path ` set modules then modules
        else modules @ [\<lparr>mi_Path = newPath rp, mi_Version = newVersion rp, mi_Main = False,
                         mi_Indirect = False, mi_FilePath = [], mi_Replaces = oldPath\<rparr>])"

definition set_FilePath :: "(string \<times> string) list \<Rightarrow> ModuleInfo \<Rightarrow> ModuleInfo" where
  "set_FilePath locals m =
     (case map_of locals (mi_Path m) of None \<Rightarrow> m | Some filePath \<Rightarrow> m\<lparr>mi_FilePath := filePath\<rparr>)"

record OListModules =
  lm_RootModule :: string
  lm_TotalModules :: nat
  lm_InternalCount :: nat
  lm_ExternalCount :: nat
  lm_Internal :: "ModuleInfo list"
  lm_External :: "ModuleInfo list"

definition empty_mod_state :: mod_state where
  "empty_mod_state = \<lparr>ms_all = [], ms_seen = [], ms_main = [], ms_local = [], ms_module = []\<rparr>"

text \<open>All modules of a view, with the local paths of those that have one.\<close>

definition all_modules :: "((string \<times> replaceInfo) list \<Rightarrow> (string \<times> replaceInfo) list) \<Rightarrow> bool \<Rightarrow>
    (string \<times> modfile option) list \<Rightarrow> mod_state \<times> ModuleInfo list" where
  "all_modules rng directOnly modFiles =
     (let s = fold (add_modfile directOnly) modFiles empty_mod_state in
      (s, fold add_replacement (rng (ms_module s)) (ms_all s)))"

definition list_modules :: "((string \<times> replaceInfo) list \<Rightarrow> (string \<times> replaceInfo) list) \<Rightarrow> bool option \<Rightarrow>
    view \<Rightarrow> (string, OListModules) outcome" where
  "list_modules rng directOnly v =
     (if vw_ModFiles v = [] then Err ''no go.mod files found in view''
      else
        case all_modules rng (directOnly = None \<or> directOnly = Some True) (vw_ModFiles v) of
          (s, allModules) \<Rightarrow>
            let mods = map (set_FilePath (ms_local s)) allModules;
                internal = filter (\<lambda>m. isInternal m (ms_main s)) mods;
                external = filter (\<lambda>m. \<not> isInternal m (ms_main s)) mods
            in bind_outcome (if length internal > 1 then sortModulesByOverlap internal (ms_main s) else Ok internal)
                 (\<lambda>internal'.
                    Ok \<lparr>lm_RootModule = ms_main s, lm_TotalModules = length allModules,
                        lm_InternalCount = length internal', lm_ExternalCount = length external,
                        lm_Internal = internal', lm_External = sort_key mi_Path external\<rparr>))"

section \<open>The text of the answer\<close>

definition suffix_if :: "bool \<Rightarrow> string \<Rightarrow> string" where
  "suffix_if c s = (if c then s else [])"

definition format_internal :: "ModuleInfo \<Rightarrow> string" where
  "format_internal m =
     (if mi_Main m then ''  [MAIN] '' else ''  '') @ mi_Path m
     @ suffix_if (mi_Version m \<noteq> []) ('' @ '' @ mi_Version m)
     @ suffix_if (mi_FilePath m \<noteq> []) ('' -> '' @ mi_FilePath m)
     @ suffix_if (mi_Replaces m \<noteq> []) ('' (replaces '' @ mi_Replaces m @ '')'') @ [NL]"

definition format_external :: "ModuleInfo \<Rightarrow> string" where
  "format_external m =
     ''  '' @ mi_Path m
     @ suffix_if (mi_Version m \<noteq> []) ('' @ '' @ mi_Version m)
     @ suffix_if (mi_Indirect m) '' (indirect)''
     @ suffix_if (mi_Replaces m \<noteq> []) ('' (replaces '' @ mi_Replaces m @ '')'') @ [NL]"

definition formatModulesList :: "OListModules \<Rightarrow> string" where
  "formatModulesList r =
     ''Module Summary'' @ [NL] @ ''  Root: '' @ lm_RootModule r @ [NL]
     @ ''  Total: '' @ itoa (lm_TotalModules r) @ '' (Internal: '' @ itoa (lm_InternalCount r)
     @ '', External: '' @ itoa (lm_ExternalCount r) @ '')'' @ [NL, NL]
     @ ''Internal Modules ('' @ itoa (length (lm_Internal r)) @ ''):'' @ [NL]
     @ concat (map format_internal (lm_Internal r))
     @ [NL] @ ''External Modules ('' @ itoa (length (lm_External r)) @ ''):'' @ [NL]
     @ concat (map format_external (lm_External r))"

definition handleListModules :: "(string \<Rightarrow> (string, view) outcome) \<Rightarrow>
    ((string \<times> replaceInfo) list \<Rightarrow> (string \<times> replaceInfo) list) \<Rightarrow> handler \<Rightarrow> string \<Rightarrow> bool option \<Rightarrow>
    (string, string \<times> OListModules) outcome \<times> handler" where
  "handleListModules new_view rng h cwd directOnly =
     with_view new_view h cwd
       (\<lambda>v. bind_outcome (list_modules rng directOnly v) (\<lambda>r. Ok (formatModulesList r, r)))"

section \<open>Sorting the internal modules\<close>

lemma find_rev_last: "filter P xs \<noteq> [] \<Longrightarrow> List.find P (rev xs) = Some (last (filter P xs))"
proof (induction xs rule: rev_induct)
  case (snoc x xs)
  show ?case
  proof (cases "P x")
    case False
    then show ?thesis using snoc by simp
  qed simp
qed simp

lemma find_rev_None: "filter P xs = [] \<Longrightarrow> List.find P (rev xs) = None"
  by (auto simp: find_None_iff filter_empty_conv)

lemma mset_filter_split: "mset (filter P xs) + mset (filter (\<lambda>x. \<not> P x) xs) = mset xs"
  by (induction xs) auto

text \<open>With one main module among them, \<open>sortModulesByOverlap\<close> permutes the modules: the main
  module comes first, the others follow by descending overlap with its path, equal overlaps
  alphabetically.\<close>

theorem sortModulesByOverlap_one_main:
  assumes one: "filter mi_Main modules = [m]"
  shows "\<exists>deps. sortModulesByOverlap modules p = Ok (m # deps) \<and> mset (m # deps) = mset modules
    \<and> (\<forall>d \<in> set deps. \<not> mi_Main d)
    \<and> sorted_wrt (\<lambda>a b. commonPrefixLength p (mi_Path b) < commonPrefixLength p (mi_Path a)
         \<or> commonPrefixLength p (mi_Path a) = commonPrefixLength p (mi_Path b) \<and> mi_Path a \<le> mi_Path b) deps"
proof (intro exI conjI)
  let ?deps = "sort_key (overlap_key p) (filter (\<lambda>m. \<not> mi_Main m) modules)"
  have ms: "mset (m # ?deps) = mset modules"
    using mset_filter_split [of mi_Main modules] one by simp
  then have len: "length (m # ?deps) = length modules" by (metis mset_eq_length)
  have "List.find mi_Main (rev modules) = Some m" using find_rev_last [of mi_Main modules] one by simp
  moreover have "modules \<noteq> []" using one by auto
  ultimately show "sortModulesByOverlap modules p = Ok (m # ?deps)"
    using len by (simp add: sortModulesByOverlap_def Let_def)
  show "mset (m # ?deps) = mset modules" by (fact ms)
  have "sorted_wrt (\<lambda>a b. overlap_key p a \<le> overlap_key p b) ?deps"
    using sorted_sort_key [of "overlap_key p"] unfolding sorted_map by blast
  then show "sorted_wrt (\<lambda>a b. commonPrefixLength p (mi_Path b) < commonPrefixLength p (mi_Path a)
         \<or> commonPrefixLength p (mi_Path a) = commonPrefixLength p (mi_Path b) \<and> mi_Path a \<le> mi_Path b) ?deps"
    by (rule sorted_wrt_mono_rel [rotated]) (auto simp: overlap_key_def less_eq_prod_def)
qed simp

definition mod_a :: ModuleInfo where "mod_a = main_info ''x.org/a''"
definition mod_b :: ModuleInfo where "mod_b = (main_info ''x.org/b'')"
definition mod_c :: ModuleInfo where "mod_c = (main_info ''y.org/c'')\<lparr>mi_Main := False\<rparr>"
definition mod_d :: ModuleInfo where "mod_d = (main_info ''x.org/a/d'')\<lparr>mi_Main := False\<rparr>"

theorem sortModulesByOverlap_one_main_witness:
  "sortModulesByOverlap [mod_c, mod_d, mod_a] ''x.org/a'' = Ok [mod_a, mod_d, mod_c]
    \<and> (\<exists>deps. sortModulesByOverlap [mod_c, mod_d, mod_a] ''x.org/a'' = Ok (mod_a # deps)
          \<and> mset (mod_a # deps) = mset [mod_c, mod_d, mod_a])"
proof -
  have "filter mi_Main [mod_c, mod_d, mod_a] = [mod_a]" by code_simp
  note sortModulesByOverlap_one_main [OF this, of "''x.org/a''"]
  moreover have "sortModulesByOverlap [mod_c, mod_d, mod_a] ''x.org/a'' = Ok [mod_a, mod_d, mod_c]" by code_simp
  ultimately show ?thesis by blast
qed

text \<open>With two or more main modules, as in a workspace with several go.mod files,
  \<open>sortModulesByOverlap\<close> never permutes the modules: it writes one element twice, and some module is
  lost.\<close>

theorem sortModulesByOverlap_two_mains:
  assumes two: "length (filter mi_Main modules) \<ge> 2" and dist: "distinct modules"
  shows "\<exists>result. sortModulesByOverlap modules p = Ok result \<and> length result = length modules
    \<and> \<not> distinct result \<and> \<not> set modules \<subseteq> set result"
proof -
  let ?deps = "sort_key (overlap_key p) (filter (\<lambda>m. \<not> mi_Main m) modules)"
  let ?m = "last (filter mi_Main modules)"
  let ?r = "(?m # ?deps) @ drop (length (?m # ?deps)) modules"
  have ne: "modules \<noteq> []" "filter mi_Main modules \<noteq> []" using two by auto
  have r: "sortModulesByOverlap modules p = Ok ?r"
    using ne find_rev_last [OF ne(2)] by (simp add: sortModulesByOverlap_def Let_def)
  have "length (filter mi_Main modules) + length (filter (\<lambda>m. \<not> mi_Main m) modules) = length modules"
    by (rule sum_length_filter_compl)
  then have short: "length (?m # ?deps) < length modules" using two by simp
  then have len: "length ?r = length modules" by simp
  have lastr: "last modules \<in> set (drop (length (?m # ?deps)) modules)"
    using short last_in_set [of "drop (length (?m # ?deps)) modules"] by (simp add: last_drop)
  have "last modules \<in> set (?m # ?deps)"
  proof (cases "mi_Main (last modules)")
    case True
    then have "?m = last modules" using ne(1) by (cases modules rule: rev_cases) simp_all
    then show ?thesis by simp
  next
    case False
    then show ?thesis using ne(1) by simp
  qed
  then have nd: "\<not> distinct ?r" using lastr by (auto simp del: set_sort)
  have "\<not> set modules \<subseteq> set ?r"
  proof
    assume "set modules \<subseteq> set ?r"
    then have "length modules \<le> card (set ?r)" using dist by (metis List.finite_set card_mono distinct_card)
    then have "card (set ?r) = length ?r" using len card_length [of ?r] by linarith
    then show False using nd card_distinct by blast
  qed
  then show ?thesis using r len nd by blast
qed

theorem sortModulesByOverlap_two_mains_witness:
  "sortModulesByOverlap [mod_a, mod_b, mod_c] ''x.org/b'' = Ok [mod_b, mod_c, mod_c]
   \<and> (\<exists>result. sortModulesByOverlap [mod_a, mod_b, mod_c] ''x.org/b'' = Ok result
        \<and> \<not> distinct result \<and> \<not> set [mod_a, mod_b, mod_c] \<subseteq> set result)"
proof -
  have "length (filter mi_Main [mod_a, mod_b, mod_c]) \<ge> 2" "distinct [mod_a, mod_b, mod_c]" by code_simp+
  note sortModulesByOverlap_two_mains [OF this, of "''x.org/b''"]
  moreover have "sortModulesByOverlap [mod_a, mod_b, mod_c] ''x.org/b'' = Ok [mod_b, mod_c, mod_c]" by code_simp
  ultimately show ?thesis by blast
qed

section \<open>The modules of one go.mod file\<close>

named_theorems mod_simps

lemma info_simps [simp]:
  "mi_Path (main_info p) = p" "mi_Main (main_info p)" "mi_Path (require_info r) = rq_Path r"
  "\<not> mi_Main (require_info r)" "mi_Indirect (require_info r) = rq_Indirect r"
  by (simp_all add: main_info_def require_info_def)

lemma option_bool_cases: "(b = None \<Longrightarrow> P) \<Longrightarrow> (b = Some True \<Longrightarrow> P) \<Longrightarrow> (b = Some False \<Longrightarrow> P) \<Longrightarrow> P"
  by (cases b) auto

lemma fold_add_replace [mod_simps]:
  "ms_all (fold (add_replace dir) rps s) = ms_all s"
  "ms_seen (fold (add_replace dir) rps s) = ms_seen s"
  by (induction rps arbitrary: s) (auto simp: add_replace_def)

lemma fold_add_require [mod_simps]:
  "fold (add_require d) reqs s =
     s\<lparr>ms_all := ms_all s @ map require_info (filter (\<lambda>r. rq_Path r \<notin> set (ms_seen s) \<and> \<not> (d \<and> rq_Indirect r)) reqs)\<rparr>"
  by (induction reqs arbitrary: s) (auto simp: add_require_def)

text \<open>The replacements by other modules.\<close>

definition replaces_module :: "modfile \<Rightarrow> replace list" where
  "replaces_module f = filter (\<lambda>rp. \<not> isLocalPath (rp_NewPath rp)) (mf_Replace f)"

lemma ms_module_replaces:
  "distinct (map rp_Old rps) \<Longrightarrow> rp_Old ` set rps \<inter> fst ` set (ms_module s) = {} \<Longrightarrow>
     ms_module (fold (add_replace dir) rps s) = ms_module s @
       map (\<lambda>rp. (rp_Old rp, \<lparr>newPath = rp_NewPath rp, newVersion = rp_NewVersion rp\<rparr>))
         (filter (\<lambda>rp. \<not> isLocalPath (rp_NewPath rp)) rps)"
proof (induction rps arbitrary: s)
  case (Cons rp rps)
  have u: "AList.update k v al = al @ [(k, v)]" if "k \<notin> fst ` set al" for k v and al :: "(string \<times> replaceInfo) list"
    using that by (induction al) auto
  have "rp_Old rp \<notin> fst ` set (ms_module s)" using Cons.prems by auto
  then show ?case using Cons by (auto simp: add_replace_def u)
qed simp

text \<open>What the replacements add to a list of modules.\<close>

lemma fold_add_replacement:
  "\<exists>new. fold add_replacement rs ms = ms @ new \<and> (\<forall>m \<in> set new. \<not> mi_Main m \<and> \<not> mi_Indirect m)
     \<and> mi_Path ` set (ms @ new) = mi_Path ` set ms \<union> (newPath \<circ> snd) ` set rs"
proof (induction rs arbitrary: ms)
  case (Cons r rs)
  obtain old rp where r: "r = (old, rp)" by (cases r)
  obtain new where new: "fold add_replacement rs (add_replacement r ms) = add_replacement r ms @ new"
    "\<forall>m \<in> set new. \<not> mi_Main m \<and> \<not> mi_Indirect m"
    "mi_Path ` set (add_replacement r ms @ new) = mi_Path ` set (add_replacement r ms) \<union> (newPath \<circ> snd) ` set rs"
    using Cons.IH by blast
  show ?case
  proof (cases "newPath rp \<in> mi_Path ` set ms")
    case True
    then have "add_replacement r ms = ms" unfolding r add_replacement_def prod.case by (rule if_P)
    then show ?thesis using new True r by (intro exI [of _ new]) auto
  next
    case False
    then have "add_replacement r ms = ms @ [\<lparr>mi_Path = newPath rp, mi_Version = newVersion rp, mi_Main = False,
        mi_Indirect = False, mi_FilePath = [], mi_Replaces = old\<rparr>]"
      unfolding r add_replacement_def prod.case by (rule if_not_P)
    then obtain m where m: "add_replacement r ms = ms @ [m]" "mi_Path m = newPath rp" "\<not> mi_Main m" "\<not> mi_Indirect m"
      by (rule that) simp_all
    then show ?thesis using new r by (intro exI [of _ "m # new"]) auto
  qed
qed auto

lemma set_FilePath_simps [mod_simps, simp]:
  "mi_Path (set_FilePath l m) = mi_Path m" "mi_Main (set_FilePath l m) = mi_Main m"
  "mi_Indirect (set_FilePath l m) = mi_Indirect m"
  by (auto simp: set_FilePath_def split: option.splits)

text \<open>The sorted list of internal modules when there is one main module.\<close>

lemma sort_internal:
  assumes "filter mi_Main ms = [m]"
  shows "\<exists>deps. (if length ms > 1 then sortModulesByOverlap ms p else Ok ms) = Ok (m # deps) \<and> mset (m # deps) = mset ms"
proof (cases "length ms > 1")
  case True
  obtain deps where "sortModulesByOverlap ms p = Ok (m # deps)" "mset (m # deps) = mset ms"
  proof -
    let ?deps = "sort_key (overlap_key p) (filter (\<lambda>m. \<not> mi_Main m) ms)"
    have e: "mset (m # ?deps) = mset ms" using mset_filter_split [of mi_Main ms] assms by simp
    then have "length (m # ?deps) = length ms" by (metis mset_eq_length)
    then have "sortModulesByOverlap ms p = Ok (m # ?deps)"
      using True find_rev_last [of mi_Main ms] assms by (auto simp: sortModulesByOverlap_def Let_def)
    then show ?thesis using that e by blast
  qed
  then show ?thesis using True by auto
next
  case False
  then have "ms = [m]" using assms by (cases ms; cases "tl ms") (auto split: if_splits)
  then show ?thesis by simp
qed


definition example_modfile :: modfile where
  "example_modfile = \<lparr>mf_Module = Some ''x.org/a'', mf_Go = None,
     mf_Require = [\<lparr>rq_Path = ''y.org/c'', rq_Version = ''v1'', rq_Indirect = False\<rparr>,
                   \<lparr>rq_Path = ''z.org/d'', rq_Version = ''v2'', rq_Indirect = True\<rparr>],
     mf_Replace = [\<lparr>rp_Old = ''y.org/c'', rp_NewPath = ''../c'', rp_NewVersion = []\<rparr>,
                   \<lparr>rp_Old = ''z.org/d'', rp_NewPath = ''z.org/fork'', rp_NewVersion = ''v3''\<rparr>]\<rparr>"

definition example_module_view :: view where
  "example_module_view = example_view\<lparr>vw_ModFiles := [(''/src/a/go.mod'', Some example_modfile)]\<rparr>"


end
