(* ===== verification/Packages.thy ===== *)
theory Packages
  imports Modules
begin

text \<open>
  The tools \<open>go_list_module_packages\<close> and \<open>go_get_dependency_graph\<close> of
  \<open>mcpbridge/core/handlers.go\<close>.  A map of the metadata graph is an association list in the order of
  \<open>range\<close>, so what is proved for every list holds for every order.  \<open>collectDependencies\<close> calls
  itself for each package it adds; \<open>fuel\<close> bounds the depth of these calls, and one more than
  the number of import paths of the graph is always enough, since each call follows a path that was
  not seen before.
\<close>

section \<open>go_list_module_packages\<close>

record PackageInfo =
  pi_Name :: string
  pi_Path :: string
  pi_Docs :: string

record IListModulePackages =
  ip_ModulePath :: string
  ip_IncludeDocs :: "bool option"
  ip_ExcludeTests :: "bool option"
  ip_ExcludeInternal :: "bool option"
  ip_TopLevelOnly :: "bool option"
  ip_Cwd :: string

record OListModulePackages =
  op_ModulePath :: string
  op_Packages :: "PackageInfo list"

text \<open>\<open>parse_header\<close> is what reading and parsing the head of a file answers: \<open>None\<close> for an error, else the
  text of its package comment if it has one.\<close>

fun extractPackageDocs :: "(string \<Rightarrow> string option option) \<Rightarrow> string list \<Rightarrow> string" where
  "extractPackageDocs parse_header [] = []"
| "extractPackageDocs parse_header (uri # uris) =
     (case parse_header uri of
        Some (Some doc) \<Rightarrow> doc
      | _ \<Rightarrow> extractPackageDocs parse_header uris)"

text \<open>The filters, each of which skips the package.\<close>

definition skip_package :: "IListModulePackages \<Rightarrow> string \<Rightarrow> package \<Rightarrow> bool" where
  "skip_package input target mp \<longleftrightarrow>
     map_option mod_Path (pk_Module mp) \<noteq> Some target
     \<or> ip_ExcludeTests input = Some True \<and> has_suffix (pk_Name mp) ''_test''
     \<or> ip_ExcludeInternal input = Some True
         \<and> (str_contains (pk_PkgPath mp) ''/internal/'' \<or> has_suffix (pk_PkgPath mp) ''/internal'')
     \<or> ip_TopLevelOnly input = Some True \<and> str_contains (trim_prefix (pk_PkgPath mp) (target @ ''/'')) ''/''"

definition package_info :: "(string \<Rightarrow> string option option) \<Rightarrow> IListModulePackages \<Rightarrow> package \<Rightarrow> PackageInfo" where
  "package_info parse_header input mp =
     \<lparr>pi_Name = pk_Name mp, pi_Path = pk_PkgPath mp,
      pi_Docs = (if ip_IncludeDocs input = Some True then extractPackageDocs parse_header (pk_CompiledGoFiles mp) else [])\<rparr>"

text \<open>The best package of each path: the first one.\<close>

definition best_packages :: "graph \<Rightarrow> package list" where
  "best_packages md = List.map_filter (\<lambda>(_, mps). case mps of [] \<Rightarrow> None | mp # _ \<Rightarrow> Some mp) (g_ForPackagePath md)"

text \<open>The module or package that is meant when none is named.\<close>

definition default_path :: "view \<Rightarrow> string \<Rightarrow> (string, string) outcome" where
  "default_path v given =
     (if given \<noteq> [] then Ok given
      else if vw_ModFiles v = [] then Err ''no go.mod files found in view''
      else if main_module_path v = [] then Err ''failed to determine main module path''
      else Ok (main_module_path v))"

text \<open>\<open>LoadMetadataGraph\<close> with the error wrapped.\<close>

definition load_graph :: "view \<Rightarrow> (string, graph) outcome" where
  "load_graph v =
     (case vw_Graph v of Err e \<Rightarrow> Err (''failed to load metadata graph: '' @ e) | r \<Rightarrow> r)"

definition list_module_packages :: "(string \<Rightarrow> string option option) \<Rightarrow> IListModulePackages \<Rightarrow> view \<Rightarrow>
    (string, OListModulePackages) outcome" where
  "list_module_packages parse_header input v =
     bind_outcome (load_graph v) (\<lambda>md.
     bind_outcome (default_path v (ip_ModulePath input)) (\<lambda>target.
       Ok \<lparr>op_ModulePath = target,
           op_Packages = map (package_info parse_header input)
             (filter (\<lambda>mp. \<not> skip_package input target mp) (best_packages md))\<rparr>))"

text \<open>Text longer than \<open>n\<close> bytes is cut three bytes earlier.\<close>

definition shorten :: "nat \<Rightarrow> string \<Rightarrow> string" where
  "shorten n docs = (if length docs > n then take (n - 3) docs @ ''...'' else docs)"

definition formatModulePackages :: "OListModulePackages \<Rightarrow> string" where
  "formatModulePackages r =
     ''Module: '' @ op_ModulePath r @ '' ('' @ itoa (length (op_Packages r)) @ '' packages):'' @ [NL]
     @ concat (map (\<lambda>p. ''  '' @ pi_Path p @ '' ('' @ pi_Name p @ '')''
         @ suffix_if (pi_Docs p \<noteq> []) ('' - '' @ shorten 80 (pi_Docs p)) @ [NL]) (op_Packages r))"

definition handleListModulePackages :: "(string \<Rightarrow> (string, view) outcome) \<Rightarrow> (string \<Rightarrow> string option option) \<Rightarrow>
    handler \<Rightarrow> IListModulePackages \<Rightarrow> (string, string \<times> OListModulePackages) outcome \<times> handler" where
  "handleListModulePackages new_view parse_header h input =
     with_view new_view h (ip_Cwd input)
       (\<lambda>v. bind_outcome (list_module_packages parse_header input v) (\<lambda>r. Ok (formatModulePackages r, r)))"

section \<open>go_get_dependency_graph\<close>

record PackageDependency =
  pd_Path :: string
  pd_Name :: string
  pd_ModulePath :: string
  pd_IsStdlib :: bool
  pd_IsExternal :: bool
  pd_Depth :: int

record PackageDependent =
  pt_Path :: string
  pt_Name :: string
  pt_ModulePath :: string
  pt_IsTest :: bool

record IDependencyGraphParams =
  id_PackagePath :: string
  id_Cwd :: string
  id_IncludeTransitive :: bool
  id_MaxDepth :: int

record ODependencyGraphResult =
  og_PackagePath :: string
  og_PackageName :: string
  og_Dependencies :: "PackageDependency list"
  og_Dependents :: "PackageDependent list"
  og_Summary :: string
  og_TotalDependencies :: nat
  og_TotalDependents :: nat

definition getModulePath :: "package \<Rightarrow> string" where
  "getModulePath mp = (case pk_Module mp of None \<Rightarrow> [] | Some m \<Rightarrow> mod_Path m)"

definition isStdlibPackage :: "string \<Rightarrow> bool" where
  "isStdlibPackage pkgPath \<longleftrightarrow>
     (if \<not> str_contains pkgPath ''.'' then True else has_prefix pkgPath ''golang.org/x/'')"

definition dependency :: "string \<Rightarrow> int \<Rightarrow> string \<Rightarrow> package \<Rightarrow> PackageDependency" where
  "dependency mainModulePath depth path mp =
     \<lparr>pd_Path = path, pd_Name = pk_Name mp, pd_ModulePath = getModulePath mp,
      pd_IsStdlib = isStdlibPackage path,
      pd_IsExternal = (\<not> isStdlibPackage path \<and> mainModulePath \<noteq> [] \<and> \<not> has_prefix path mainModulePath),
      pd_Depth = depth\<rparr>"

text \<open>The arguments that stay the same in all calls.\<close>

record dep_args =
  da_graph :: graph
  da_main :: string
  da_transitive :: bool
  da_maxDepth :: int

fun collectDependencies :: "nat \<Rightarrow> dep_args \<Rightarrow> int \<Rightarrow> package \<Rightarrow> PackageDependency list \<times> string list \<Rightarrow>
      (PackageDependency list \<times> string list) option"
  and collect_loop :: "nat \<Rightarrow> dep_args \<Rightarrow> int \<Rightarrow> (PackagePath \<times> PackageID) list \<Rightarrow> PackageDependency list \<times> string list \<Rightarrow>
      (PackageDependency list \<times> string list) option" where
  "collectDependencies 0 a currentDepth mp st = None"
| "collectDependencies (Suc n) a currentDepth mp st =
     (if da_maxDepth a > 0 \<and> currentDepth \<ge> da_maxDepth a then Some st
      else collect_loop n a currentDepth (pk_DepsByPkgPath mp) st)"
| "collect_loop n a currentDepth [] st = Some st"
| "collect_loop n a currentDepth ((depPath, depID) # ds) (acc, seen) =
     (if depPath \<in> set seen then collect_loop n a currentDepth ds (acc, seen)
      else case map_of (g_Packages (da_graph a)) depID of
        None \<Rightarrow> collect_loop n a currentDepth ds (acc, depPath # seen)
      | Some depPkg \<Rightarrow>
          if IsIntermediateTestVariant depPkg then collect_loop n a currentDepth ds (acc, depPath # seen)
          else if da_transitive a then
            (case collectDependencies n a (currentDepth + 1) depPkg
                    (acc @ [dependency (da_main a) currentDepth depPath depPkg], depPath # seen) of
               None \<Rightarrow> None
             | Some st' \<Rightarrow> collect_loop n a currentDepth ds st')
          else collect_loop n a currentDepth ds
                 (acc @ [dependency (da_main a) currentDepth depPath depPkg], depPath # seen))"

text \<open>All import paths that a collection can meet.\<close>

definition dep_paths :: "graph \<Rightarrow> package \<Rightarrow> string list" where
  "dep_paths md mp = map fst (pk_DepsByPkgPath mp) @ concat (map (\<lambda>(_, q). map fst (pk_DepsByPkgPath q)) (g_Packages md))"

definition collect_all :: "dep_args \<Rightarrow> package \<Rightarrow> PackageDependency list option" where
  "collect_all a mp =
     map_option fst (collectDependencies (Suc (Suc (length (dep_paths (da_graph a) mp)))) a 0 mp ([], []))"

definition dependent :: "package \<Rightarrow> PackageDependent" where
  "dependent mp = \<lparr>pt_Path = pk_PkgPath mp, pt_Name = pk_Name mp, pt_ModulePath = getModulePath mp,
     pt_IsTest = has_suffix (pk_Name mp) ''_test''\<rparr>"

definition get_dependency_graph :: "IDependencyGraphParams \<Rightarrow> view \<Rightarrow> (string, ODependencyGraphResult) outcome option" where
  "get_dependency_graph input v =
     (case load_graph v of
        Err e \<Rightarrow> Some (Err e)
      | Panic \<Rightarrow> Some Panic
      | Ok md \<Rightarrow>
          (case default_path v (id_PackagePath input) of
             Err e \<Rightarrow> Some (Err e)
           | Panic \<Rightarrow> Some Panic
           | Ok target \<Rightarrow>
               (case get_list (g_ForPackagePath md) target of
                  [] \<Rightarrow> Some (Err (''package not found: '' @ target))
                | mp # _ \<Rightarrow>
                    map_option (\<lambda>dependencies.
                      let dependents = map dependent
                            (filter (\<lambda>d. \<not> IsIntermediateTestVariant d) (get_list (g_ImportedBy md) (pk_ID mp)))
                      in Ok \<lparr>og_PackagePath = target, og_PackageName = pk_Name mp,
                           og_Dependencies = dependencies, og_Dependents = dependents, og_Summary = [],
                           og_TotalDependencies = length dependencies, og_TotalDependents = length dependents\<rparr>)
                      (collect_all \<lparr>da_graph = md, da_main = main_module_path v,
                         da_transitive = id_IncludeTransitive input, da_maxDepth = id_MaxDepth input\<rparr> mp))))"

definition format_dependency :: "PackageDependency \<Rightarrow> string" where
  "format_dependency d =
     ''  '' @ (if pd_Depth d > 0 then concat (replicate (nat (pd_Depth d)) ''  '') else [])
     @ pd_Path d @ '' ('' @ pd_Name d @ '')''
     @ suffix_if (pd_IsStdlib d) '' [stdlib]'' @ suffix_if (pd_IsExternal d) '' [external]''
     @ suffix_if (pd_ModulePath d \<noteq> []) ('' from '' @ pd_ModulePath d) @ [NL]"

definition format_dependent :: "PackageDependent \<Rightarrow> string" where
  "format_dependent d =
     ''  '' @ pt_Path d @ '' ('' @ pt_Name d @ '')'' @ suffix_if (pt_IsTest d) '' [test]''
     @ suffix_if (pt_ModulePath d \<noteq> []) ('' from '' @ pt_ModulePath d) @ [NL]"

definition formatDependencyGraph :: "ODependencyGraphResult \<Rightarrow> string" where
  "formatDependencyGraph r =
     ''Package: '' @ og_PackagePath r @ '' ('' @ og_PackageName r @ '')'' @ [NL, NL]
     @ (if og_TotalDependencies r > 0
        then ''Dependencies ('' @ itoa (og_TotalDependencies r) @ ''):'' @ [NL]
             @ concat (map format_dependency (og_Dependencies r)) @ [NL]
        else ''Dependencies: None'' @ [NL, NL])
     @ (if og_TotalDependents r > 0
        then ''Imported By ('' @ itoa (og_TotalDependents r) @ ''):'' @ [NL]
             @ concat (map format_dependent (og_Dependents r)) @ [NL]
        else ''Imported By: None'' @ [NL, NL])
     @ suffix_if (og_Summary r \<noteq> []) (''Summary: '' @ og_Summary r @ [NL])"

text \<open>The fuel never runs out (\<open>collect_all_total\<close> below), so the last case does not occur.\<close>

definition handleGetDependencyGraph :: "(string \<Rightarrow> (string, view) outcome) \<Rightarrow> handler \<Rightarrow> IDependencyGraphParams \<Rightarrow>
    (string, string \<times> ODependencyGraphResult) outcome \<times> handler" where
  "handleGetDependencyGraph new_view h input =
     with_view new_view h (id_Cwd input)
       (\<lambda>v. case get_dependency_graph input v of
          Some r \<Rightarrow> bind_outcome r (\<lambda>r. Ok (formatDependencyGraph r, r))
        | None \<Rightarrow> Panic)"

section \<open>Collecting dependencies\<close>

text \<open>\<open>dep_chain g mp k path q\<close>: package \<open>q\<close> is reached from \<open>mp\<close> over \<open>k + 1\<close> imports, the last of
  which is of \<open>path\<close>; packages that do not exist and intermediate test variants end the chain.\<close>

definition imports_pkg :: "graph \<Rightarrow> package \<Rightarrow> PackagePath \<Rightarrow> package \<Rightarrow> bool" where
  "imports_pkg g mp path q \<longleftrightarrow>
     (\<exists>i. (path, i) \<in> set (pk_DepsByPkgPath mp) \<and> map_of (g_Packages g) i = Some q \<and> \<not> IsIntermediateTestVariant q)"

inductive dep_chain :: "graph \<Rightarrow> package \<Rightarrow> nat \<Rightarrow> PackagePath \<Rightarrow> package \<Rightarrow> bool" for g mp where
  direct: "imports_pkg g mp path q \<Longrightarrow> dep_chain g mp 0 path q"
| indirect: "dep_chain g mp k p r \<Longrightarrow> imports_pkg g r path q \<Longrightarrow> dep_chain g mp (Suc k) path q"

text \<open>Where the package of a call stands: it is the target itself, or reached over \<open>c\<close> imports.\<close>

definition reached_at :: "graph \<Rightarrow> package \<Rightarrow> nat \<Rightarrow> package \<Rightarrow> bool" where
  "reached_at g root c mp \<longleftrightarrow> c = 0 \<and> mp = root \<or> (\<exists>k path. c = Suc k \<and> dep_chain g root k path mp)"

lemma reached_import: "reached_at g root c mp \<Longrightarrow> imports_pkg g mp path q \<Longrightarrow> dep_chain g root c path q"
  by (auto simp: reached_at_def intro: dep_chain.intros)

lemma reached_next: "dep_chain g root c path q \<Longrightarrow> reached_at g root (Suc c) q"
  by (auto simp: reached_at_def)

definition entry_ok :: "dep_args \<Rightarrow> package \<Rightarrow> PackageDependency \<Rightarrow> bool" where
  "entry_ok a root d \<longleftrightarrow>
     (\<exists>k path q. dep_chain (da_graph a) root k path q \<and> d = dependency (da_main a) (int k) path q
        \<and> (da_maxDepth a > 0 \<longrightarrow> int k < da_maxDepth a) \<and> (\<not> da_transitive a \<longrightarrow> k = 0))"

lemma dependency_simps [simp]:
  "pd_Path (dependency m k path q) = path" "pd_Name (dependency m k path q) = pk_Name q"
  "pd_Depth (dependency m k path q) = k" "pd_ModulePath (dependency m k path q) = getModulePath q"
  by (simp_all add: dependency_def)

text \<open>What a collection adds: new entries, each for a path not seen before.\<close>

definition collected :: "dep_args \<Rightarrow> package \<Rightarrow> PackageDependency list \<times> string list \<Rightarrow>
    PackageDependency list \<times> string list \<Rightarrow> bool" where
  "collected a root st st' \<longleftrightarrow>
     (\<exists>new. fst st' = fst st @ new \<and> distinct (map pd_Path new) \<and> set (snd st) \<subseteq> set (snd st')
        \<and> pd_Path ` set new \<subseteq> set (snd st') - set (snd st) \<and> (\<forall>d \<in> set new. entry_ok a root d))"

lemma collected_refl: "collected a root st st"
  by (auto simp: collected_def)

lemma collected_see: "collected a root (acc, path # seen) st' \<Longrightarrow> collected a root (acc, seen) st'"
  by (auto simp: collected_def)

lemma collected_add:
  assumes "collected a root (acc @ [d], pd_Path d # seen) st'" "pd_Path d \<notin> set seen" "entry_ok a root d"
  shows "collected a root (acc, seen) st'"
proof -
  obtain new where "fst st' = (acc @ [d]) @ new" "distinct (map pd_Path new)" "set (pd_Path d # seen) \<subseteq> set (snd st')"
    "pd_Path ` set new \<subseteq> set (snd st') - set (pd_Path d # seen)" "\<forall>e \<in> set new. entry_ok a root e"
    using assms(1) unfolding collected_def fst_conv snd_conv by blast
  then show ?thesis using assms(2,3) unfolding collected_def by (intro exI [of _ "d # new"]) auto
qed

lemma collected_trans:
  assumes "collected a root st1 st2" "collected a root st2 st3"
  shows "collected a root st1 st3"
proof -
  obtain n1 where n1: "fst st2 = fst st1 @ n1" "distinct (map pd_Path n1)" "set (snd st1) \<subseteq> set (snd st2)"
    "pd_Path ` set n1 \<subseteq> set (snd st2) - set (snd st1)" "\<forall>d \<in> set n1. entry_ok a root d"
    using assms(1) unfolding collected_def by blast
  obtain n2 where n2: "fst st3 = fst st2 @ n2" "distinct (map pd_Path n2)" "set (snd st2) \<subseteq> set (snd st3)"
    "pd_Path ` set n2 \<subseteq> set (snd st3) - set (snd st2)" "\<forall>d \<in> set n2. entry_ok a root d"
    using assms(2) unfolding collected_def by blast
  have "distinct (map pd_Path (n1 @ n2))" using n1(2,4) n2(2,4) by auto
  then show ?thesis unfolding collected_def using n1 n2 by (intro exI [of _ "n1 @ n2"]) auto
qed

text \<open>One turn of the loop.\<close>

definition collect_one :: "nat \<Rightarrow> dep_args \<Rightarrow> int \<Rightarrow> PackagePath \<times> PackageID \<Rightarrow> PackageDependency list \<times> string list \<Rightarrow>
    (PackageDependency list \<times> string list) option" where
  "collect_one n a c d st =
     (if fst d \<in> set (snd st) then Some st
      else case map_of (g_Packages (da_graph a)) (snd d) of
        None \<Rightarrow> Some (fst st, fst d # snd st)
      | Some q \<Rightarrow>
          if IsIntermediateTestVariant q then Some (fst st, fst d # snd st)
          else if da_transitive a
          then collectDependencies n a (c + 1) q (fst st @ [dependency (da_main a) c (fst d) q], fst d # snd st)
          else Some (fst st @ [dependency (da_main a) c (fst d) q], fst d # snd st))"

lemma collect_loop_Cons:
  "collect_loop n a c (d # ds) st = Option.bind (collect_one n a c d st) (collect_loop n a c ds)"
  by (cases d; cases st) (auto simp: collect_one_def split: option.splits)

declare collect_loop.simps(2) [simp del]

lemma collect_one_cases:
  assumes "collect_one n a c d st = Some st'"
  obtains (seen) "fst d \<in> set (snd st)" "st' = st"
    | (skip) "fst d \<notin> set (snd st)" "st' = (fst st, fst d # snd st)"
        "\<And>q. map_of (g_Packages (da_graph a)) (snd d) = Some q \<Longrightarrow> IsIntermediateTestVariant q"
    | (add) q where "fst d \<notin> set (snd st)" "map_of (g_Packages (da_graph a)) (snd d) = Some q"
        "\<not> IsIntermediateTestVariant q" "\<not> da_transitive a"
        "st' = (fst st @ [dependency (da_main a) c (fst d) q], fst d # snd st)"
    | (rec) q where "fst d \<notin> set (snd st)" "map_of (g_Packages (da_graph a)) (snd d) = Some q"
        "\<not> IsIntermediateTestVariant q" "da_transitive a"
        "collectDependencies n a (c + 1) q (fst st @ [dependency (da_main a) c (fst d) q], fst d # snd st) = Some st'"
  using assms unfolding collect_one_def by (auto split: if_splits option.splits)

definition in_depth :: "dep_args \<Rightarrow> nat \<Rightarrow> bool" where
  "in_depth a c \<longleftrightarrow> (da_maxDepth a > 0 \<longrightarrow> int c < da_maxDepth a) \<and> (\<not> da_transitive a \<longrightarrow> c = 0)"

lemma entry_okI:
  "dep_chain (da_graph a) root c path q \<Longrightarrow> in_depth a c \<Longrightarrow> entry_ok a root (dependency (da_main a) (int c) path q)"
  by (auto simp: entry_ok_def in_depth_def)

lemma collect_one_sound:
  assumes rec: "\<And>q st st'. collectDependencies n a (int (Suc c)) q st = Some st' \<Longrightarrow> da_transitive a \<Longrightarrow>
      reached_at (da_graph a) root (Suc c) q \<Longrightarrow> collected a root st st'"
    and one: "collect_one n a (int c) d st = Some st'" and at: "reached_at (da_graph a) root c mp"
    and dep: "in_depth a c" "d \<in> set (pk_DepsByPkgPath mp)"
  shows "collected a root st st'"
proof -
  have ch: "dep_chain (da_graph a) root c (fst d) q"
    if "map_of (g_Packages (da_graph a)) (snd d) = Some q" "\<not> IsIntermediateTestVariant q" for q
    using at by (rule reached_import) (use that dep(2) in \<open>auto simp: imports_pkg_def intro!: exI [of _ "snd d"]\<close>)
  from one show ?thesis
  proof (cases rule: collect_one_cases)
    case seen
    then show ?thesis by (simp add: collected_refl)
  next
    case skip
    then show ?thesis by (auto simp: collected_def)
  next
    case (add q)
    have "collected a root (fst st @ [dependency (da_main a) (int c) (fst d) q], fst d # snd st) st'"
      unfolding add(5) by (rule collected_refl)
    then show ?thesis
      using collected_add [of a root "fst st" "dependency (da_main a) (int c) (fst d) q" "snd st" st']
        entry_okI [OF ch dep(1)] add by simp
  next
    case (rec q)
    have r: "reached_at (da_graph a) root (Suc c) q" by (rule reached_next [OF ch]) (use rec in auto)
    have "collected a root (fst st @ [dependency (da_main a) (int c) (fst d) q], fst d # snd st) st'"
      by (rule assms(1) [OF _ rec(4) r]) (use rec(5) in \<open>simp add: ac_simps\<close>)
    then show ?thesis
      using collected_add [of a root "fst st" "dependency (da_main a) (int c) (fst d) q" "snd st" st']
        entry_okI [OF ch dep(1)] rec by simp
  qed
qed

lemma collect_loop_sound:
  assumes rec: "\<And>q st st'. collectDependencies n a (int (Suc c)) q st = Some st' \<Longrightarrow> da_transitive a \<Longrightarrow>
      reached_at (da_graph a) root (Suc c) q \<Longrightarrow> collected a root st st'"
    and at: "reached_at (da_graph a) root c mp" "in_depth a c"
  shows "collect_loop n a (int c) ds st = Some st' \<Longrightarrow> set ds \<subseteq> set (pk_DepsByPkgPath mp) \<Longrightarrow> collected a root st st'"
proof (induction ds arbitrary: st)
  case (Cons d ds)
  then obtain s where s: "collect_one n a (int c) d st = Some s" "collect_loop n a (int c) ds s = Some st'"
    by (auto simp: collect_loop_Cons bind_eq_Some_conv)
  show ?case
    by (rule collected_trans [OF collect_one_sound [OF rec s(1) at] Cons.IH [OF s(2)]]) (use Cons.prems in auto)
qed (simp add: collected_refl)

lemma collect_sound:
  "collectDependencies n a (int c) mp st = Some st' \<Longrightarrow> reached_at (da_graph a) root c mp \<Longrightarrow>
     (\<not> da_transitive a \<longrightarrow> c = 0) \<Longrightarrow> collected a root st st'"
proof (induction n arbitrary: c mp st st')
  case (Suc n)
  show ?case
  proof (cases "da_maxDepth a > 0 \<and> int c \<ge> da_maxDepth a")
    case True
    then show ?thesis using Suc.prems(1) by (simp add: collected_refl)
  next
    case False
    then have loop: "collect_loop n a (int c) (pk_DepsByPkgPath mp) st = Some st'" using Suc.prems(1) by auto
    have d: "in_depth a c" using False Suc.prems(3) by (auto simp: in_depth_def)
    have rec: "collectDependencies n a (int (Suc c)) q st = Some st' \<Longrightarrow> da_transitive a \<Longrightarrow>
        reached_at (da_graph a) root (Suc c) q \<Longrightarrow> collected a root st st'" for q st st'
      using Suc.IH [of "Suc c" q st st'] by blast
    show ?thesis by (rule collect_loop_sound [OF rec Suc.prems(2) d loop order_refl])
  qed
qed simp

text \<open>The state only grows.\<close>

definition grows :: "PackageDependency list \<times> string list \<Rightarrow> PackageDependency list \<times> string list \<Rightarrow> bool" where
  "grows st st' \<longleftrightarrow> set (fst st) \<subseteq> set (fst st') \<and> set (snd st) \<subseteq> set (snd st')"

lemma grows_refl [simp]: "grows st st"
  by (simp add: grows_def)

lemma grows_trans: "grows st1 st2 \<Longrightarrow> grows st2 st3 \<Longrightarrow> grows st1 st3"
  by (auto simp: grows_def)

lemma collect_one_grows:
  assumes rec: "\<And>q st st'. collectDependencies n a (c + 1) q st = Some st' \<Longrightarrow> grows st st'"
    and one: "collect_one n a c d st = Some st'"
  shows "grows st st'" "fst d \<in> set (snd st')"
proof -
  have "grows st st' \<and> fst d \<in> set (snd st')"
    using one by (cases rule: collect_one_cases) (auto simp: grows_def dest!: rec)
  then show "grows st st'" "fst d \<in> set (snd st')" by blast+
qed

lemma collect_loop_grows:
  assumes rec: "\<And>q st st'. collectDependencies n a (c + 1) q st = Some st' \<Longrightarrow> grows st st'"
  shows "collect_loop n a c ds st = Some st' \<Longrightarrow> grows st st' \<and> fst ` set ds \<subseteq> set (snd st')"
proof (induction ds arbitrary: st)
  case (Cons d ds)
  then obtain s where s: "collect_one n a c d st = Some s" "collect_loop n a c ds s = Some st'"
    by (auto simp: collect_loop_Cons bind_eq_Some_conv)
  have "grows s st'" "fst ` set ds \<subseteq> set (snd st')" using Cons.IH [OF s(2)] by blast+
  moreover have "grows st s" "fst d \<in> set (snd s)" by (rule collect_one_grows [OF rec s(1)], assumption)+
  ultimately show ?case by (auto simp: grows_def)
qed simp

lemma collect_grows: "collectDependencies n a c mp st = Some st' \<Longrightarrow> grows st st'"
proof (induction n arbitrary: c mp st st')
  case (Suc n)
  then show ?case using collect_loop_grows [OF Suc.IH] by (auto split: if_splits)
qed simp

section \<open>Termination\<close>

lemma collect_loop_total:
  assumes fin: "finite U"
    and rec: "\<And>q st. da_transitive a \<Longrightarrow> q \<in> snd ` set (g_Packages (da_graph a)) \<Longrightarrow> card (U - set (snd st)) < n \<Longrightarrow>
      collectDependencies n a (c + 1) q st \<noteq> None"
  shows "fst ` set ds \<subseteq> U \<Longrightarrow> card (U - set (snd st)) \<le> n \<Longrightarrow> collect_loop n a c ds st \<noteq> None"
proof (induction ds arbitrary: st)
  case (Cons d ds)
  have "collect_one n a c d st \<noteq> None"
  proof
    assume none: "collect_one n a c d st = None"
    then obtain q where q: "fst d \<notin> set (snd st)" "map_of (g_Packages (da_graph a)) (snd d) = Some q" "da_transitive a"
      "collectDependencies n a (c + 1) q (fst st @ [dependency (da_main a) c (fst d) q], fst d # snd st) = None"
      unfolding collect_one_def by (auto split: if_splits option.splits)
    have "card (U - set (fst d # snd st)) < card (U - set (snd st))"
      using fin q(1) Cons.prems(1) by (intro psubset_card_mono) auto
    moreover have "q \<in> snd ` set (g_Packages (da_graph a))"
      using map_of_SomeD [OF q(2)] by (rule rev_image_eqI) simp
    ultimately have "collectDependencies n a (c + 1) q
        (fst st @ [dependency (da_main a) c (fst d) q], fst d # snd st) \<noteq> None"
      using Cons.prems(2) by (intro rec [OF q(3)]) simp_all
    then show False using q(4) by simp
  qed
  then obtain s where s: "collect_one n a c d st = Some s" by blast
  have "grows st s" by (rule collect_one_grows(1) [OF collect_grows s])
  then have "card (U - set (snd s)) \<le> card (U - set (snd st))" using fin by (intro card_mono) (auto simp: grows_def)
  then show ?case using Cons s by (simp add: collect_loop_Cons)
qed simp

lemma collect_total:
  assumes fin: "finite U" and sub: "\<And>q. q \<in> snd ` set (g_Packages (da_graph a)) \<Longrightarrow> fst ` set (pk_DepsByPkgPath q) \<subseteq> U"
  shows "fst ` set (pk_DepsByPkgPath mp) \<subseteq> U \<Longrightarrow> card (U - set (snd st)) < n \<Longrightarrow> collectDependencies n a c mp st \<noteq> None"
proof (induction n arbitrary: c mp st)
  case (Suc n)
  have "collect_loop n a c (pk_DepsByPkgPath mp) st \<noteq> None"
    by (rule collect_loop_total [OF fin Suc.IH [OF sub]]) (use Suc.prems in auto)
  then show ?case by simp
qed simp

lemma dep_paths_sub:
  "fst ` set (pk_DepsByPkgPath mp) \<subseteq> set (dep_paths g mp)"
  "q \<in> snd ` set (g_Packages g) \<Longrightarrow> fst ` set (pk_DepsByPkgPath q) \<subseteq> set (dep_paths g mp)"
proof -
  assume "q \<in> snd ` set (g_Packages g)"
  then obtain i where i: "(i, q) \<in> set (g_Packages g)" by auto
  have "map fst (pk_DepsByPkgPath q) \<in> (\<lambda>(_, q). map fst (pk_DepsByPkgPath q)) ` set (g_Packages g)"
    using i by (rule rev_image_eqI) simp
  then show "fst ` set (pk_DepsByPkgPath q) \<subseteq> set (dep_paths g mp)"
    unfolding dep_paths_def set_append set_concat set_map [of "case_prod _"] set_map [of fst, symmetric]
    by (intro le_supI2 Union_upper imageI)
qed (simp add: dep_paths_def)

lemma collect_all_total: "collect_all a mp \<noteq> None"
proof -
  let ?U = "set (dep_paths (da_graph a) mp)"
  have "card ?U < Suc (Suc (length (dep_paths (da_graph a) mp)))"
    by (meson card_length le_SucI le_imp_less_Suc)
  then have "collectDependencies (Suc (Suc (length (dep_paths (da_graph a) mp)))) a 0 mp ([], []) \<noteq> None"
    by (intro collect_total [OF List.finite_set dep_paths_sub(2) dep_paths_sub(1)]) simp_all
  then show ?thesis by (simp add: collect_all_def)
qed

section \<open>Completeness\<close>

text \<open>Every import path stands for one package.  This fails only where test variants of a package come
  in.\<close>

definition coherent :: "graph \<Rightarrow> package \<Rightarrow> bool" where
  "coherent g mp \<longleftrightarrow>
     (\<forall>p \<in> insert mp (snd ` set (g_Packages g)). \<forall>q \<in> insert mp (snd ` set (g_Packages g)). \<forall>path i j.
        (path, i) \<in> set (pk_DepsByPkgPath p) \<longrightarrow> (path, j) \<in> set (pk_DepsByPkgPath q) \<longrightarrow> i = j)"

definition stands_for :: "graph \<Rightarrow> package \<Rightarrow> PackagePath \<Rightarrow> package \<Rightarrow> bool" where
  "stands_for g mp path q \<longleftrightarrow> (\<exists>p \<in> insert mp (snd ` set (g_Packages g)). imports_pkg g p path q)"

lemma stands_forD:
  assumes "coherent g mp" "p \<in> insert mp (snd ` set (g_Packages g))" "d \<in> set (pk_DepsByPkgPath p)"
    and "stands_for g mp (fst d) q"
  shows "map_of (g_Packages g) (snd d) = Some q" "\<not> IsIntermediateTestVariant q"
proof -
  obtain p' i where i: "p' \<in> insert mp (snd ` set (g_Packages g))" "(fst d, i) \<in> set (pk_DepsByPkgPath p')"
    "map_of (g_Packages g) i = Some q" "\<not> IsIntermediateTestVariant q"
    using assms(4) by (auto simp: stands_for_def imports_pkg_def)
  have "(fst d, snd d) \<in> set (pk_DepsByPkgPath p)" using assms(3) by simp
  then have "i = snd d" using assms(1,2) i(1,2) unfolding coherent_def by blast
  then show "map_of (g_Packages g) (snd d) = Some q" "\<not> IsIntermediateTestVariant q" using i by simp_all
qed

text \<open>The paths seen between two states are listed, and their imports have been seen.\<close>

definition complete :: "graph \<Rightarrow> package \<Rightarrow> PackageDependency list \<times> string list \<Rightarrow> PackageDependency list \<times> string list \<Rightarrow> bool" where
  "complete g mp st st' \<longleftrightarrow> grows st st' \<and>
     (\<forall>path \<in> set (snd st') - set (snd st). \<forall>q. stands_for g mp path q \<longrightarrow>
        path \<in> pd_Path ` set (fst st') \<and> fst ` set (pk_DepsByPkgPath q) \<subseteq> set (snd st'))"

lemma complete_trans: "complete g mp st1 st2 \<Longrightarrow> complete g mp st2 st3 \<Longrightarrow> complete g mp st1 st3"
  unfolding complete_def grows_def by (blast dest: subsetD)

lemma collect_one_complete:
  assumes rec: "\<And>q st st'. collectDependencies n a (c + 1) q st = Some st' \<Longrightarrow> q \<in> snd ` set (g_Packages (da_graph a)) \<Longrightarrow>
      complete (da_graph a) mp st st' \<and> fst ` set (pk_DepsByPkgPath q) \<subseteq> set (snd st')"
    and one: "collect_one n a c d st = Some st'" and coh: "coherent (da_graph a) mp" and tr: "da_transitive a"
    and p: "p \<in> insert mp (snd ` set (g_Packages (da_graph a)))" "d \<in> set (pk_DepsByPkgPath p)"
  shows "complete (da_graph a) mp st st'"
  using one
proof (cases rule: collect_one_cases)
  case seen
  then show ?thesis by (simp add: complete_def)
next
  case skip
  then show ?thesis using stands_forD [OF coh p] by (auto simp: complete_def grows_def)
next
  case (add q)
  then show ?thesis using tr by simp
next
  case (rec q)
  let ?e = "dependency (da_main a) c (fst d) q"
  have "q \<in> snd ` set (g_Packages (da_graph a))"
    using map_of_SomeD [OF rec(2)] by (rule rev_image_eqI) simp
  then have r: "complete (da_graph a) mp (fst st @ [?e], fst d # snd st) st'"
    "fst ` set (pk_DepsByPkgPath q) \<subseteq> set (snd st')" using assms(1) [OF rec(5)] by blast+
  show ?thesis
    unfolding complete_def
  proof (intro conjI ballI allI impI)
    show g: "grows st st'" using r(1) by (auto simp: complete_def grows_def)
    have e: "?e \<in> set (fst st')" using r(1) by (auto simp: complete_def grows_def)
    show "path \<in> pd_Path ` set (fst st')"
      if "path \<in> set (snd st') - set (snd st)" "stands_for (da_graph a) mp path q'" for path q'
    proof (cases "path = fst d")
      case True
      then show ?thesis using e by force
    next
      case False
      then show ?thesis using r(1) that by (auto simp: complete_def)
    qed
    show "fst ` set (pk_DepsByPkgPath q') \<subseteq> set (snd st')"
      if "path \<in> set (snd st') - set (snd st)" "stands_for (da_graph a) mp path q'" for path q'
    proof (cases "path = fst d")
      case True
      then show ?thesis using stands_forD(1) [OF coh p, of q'] that(2) rec(2) r(2) by simp
    next
      case False
      then show ?thesis using r(1) that by (auto simp: complete_def)
    qed
  qed
qed

lemma collect_loop_complete:
  assumes rec: "\<And>q st st'. collectDependencies n a (c + 1) q st = Some st' \<Longrightarrow> q \<in> snd ` set (g_Packages (da_graph a)) \<Longrightarrow>
      complete (da_graph a) mp st st' \<and> fst ` set (pk_DepsByPkgPath q) \<subseteq> set (snd st')"
    and coh: "coherent (da_graph a) mp" and tr: "da_transitive a"
    and p: "p \<in> insert mp (snd ` set (g_Packages (da_graph a)))"
  shows "collect_loop n a c ds st = Some st' \<Longrightarrow> set ds \<subseteq> set (pk_DepsByPkgPath p) \<Longrightarrow> complete (da_graph a) mp st st'"
proof (induction ds arbitrary: st)
  case (Cons d ds)
  then obtain s where s: "collect_one n a c d st = Some s" "collect_loop n a c ds s = Some st'"
    by (auto simp: collect_loop_Cons bind_eq_Some_conv)
  have "complete (da_graph a) mp st s"
    by (rule collect_one_complete [OF rec s(1) coh tr p]) (use Cons.prems in auto)
  moreover have "complete (da_graph a) mp s st'" using Cons.IH [OF s(2)] Cons.prems by simp
  ultimately show ?case by (rule complete_trans)
qed (simp add: complete_def)

lemma collect_complete:
  assumes coh: "coherent (da_graph a) mp" and tr: "da_transitive a" and unlimited: "da_maxDepth a \<le> 0"
  shows "collectDependencies n a c p st = Some st' \<Longrightarrow> p \<in> insert mp (snd ` set (g_Packages (da_graph a))) \<Longrightarrow>
    complete (da_graph a) mp st st' \<and> fst ` set (pk_DepsByPkgPath p) \<subseteq> set (snd st')"
proof (induction n arbitrary: c p st st')
  case (Suc n)
  have loop: "collect_loop n a c (pk_DepsByPkgPath p) st = Some st'" using Suc.prems(1) unlimited by simp
  show ?case
  proof
    show "complete (da_graph a) mp st st'"
      by (rule collect_loop_complete [OF Suc.IH coh tr Suc.prems(2) loop]) auto
    show "fst ` set (pk_DepsByPkgPath p) \<subseteq> set (snd st')"
      by (rule conjunct2 [OF collect_loop_grows [OF _ loop]]) (rule collect_grows)
  qed
qed simp

section \<open>What the dependency graph lists\<close>

lemma collect_all_sound:
  obtains ds where "collect_all a mp = Some ds" "distinct (map pd_Path ds)" "\<forall>d \<in> set ds. entry_ok a mp d"
proof -
  obtain ds where ds: "collect_all a mp = Some ds" using collect_all_total by blast
  then obtain seen where r: "collectDependencies (Suc (Suc (length (dep_paths (da_graph a) mp)))) a (int 0) mp ([], []) = Some (ds, seen)"
    by (auto simp: collect_all_def)
  have "collected a mp ([], []) (ds, seen)"
    by (rule collect_sound [OF r]) (simp_all add: reached_at_def)
  then show ?thesis using that [OF ds] by (simp add: collected_def)
qed

lemma dep_chain_stands_for: "dep_chain g mp k path q \<Longrightarrow> stands_for g mp path q"
proof (induction rule: dep_chain.induct)
  case (direct path q)
  then show ?case by (auto simp: stands_for_def)
next
  case (indirect k p r path q)
  then obtain i where "map_of (g_Packages g) i = Some r" by (auto simp: stands_for_def imports_pkg_def)
  then have "r \<in> snd ` set (g_Packages g)" by (auto dest!: map_of_SomeD intro: rev_image_eqI)
  then show ?case using indirect by (auto simp: stands_for_def)
qed

text \<open>Claim C9: \<open>collectDependencies\<close> ends on every graph, also one with import cycles.  No path is listed
  twice; every entry describes a package that is reached over imports of existing packages that are
  no intermediate test variants, with the length of such a chain as its depth, below the depth limit
  if there is one, and 0 when only direct dependencies are asked for.\<close>

theorem dependencies_sound:
  "\<exists>ds. collect_all a mp = Some ds \<and> distinct (map pd_Path ds) \<and> (\<forall>d \<in> set ds. entry_ok a mp d)"
  using collect_all_sound [of a mp] by blast

text \<open>Claim C10: asked for the transitive dependencies without a depth limit, in a graph where every import
  path stands for one package, the listed paths are exactly those that are reachable over imports.\<close>

theorem dependencies_complete:
  assumes "coherent (da_graph a) mp" "da_transitive a" "da_maxDepth a \<le> 0"
  shows "\<exists>ds. collect_all a mp = Some ds \<and> pd_Path ` set ds = {path. \<exists>k q. dep_chain (da_graph a) mp k path q}"
proof -
  obtain ds where ds: "collect_all a mp = Some ds" "distinct (map pd_Path ds)" "\<forall>d \<in> set ds. entry_ok a mp d"
    by (rule collect_all_sound)
  then obtain seen where r: "collectDependencies (Suc (Suc (length (dep_paths (da_graph a) mp)))) a 0 mp ([], []) = Some (ds, seen)"
    by (auto simp: collect_all_def)
  have c: "complete (da_graph a) mp ([], []) (ds, seen)" "fst ` set (pk_DepsByPkgPath mp) \<subseteq> set seen"
    using collect_complete [OF assms r] by simp_all
  have "path \<in> set seen" if "dep_chain (da_graph a) mp k path q" for k path q
    using that
  proof (induction rule: dep_chain.induct)
    case (direct path q)
    then show ?case using c(2) by (force simp: imports_pkg_def)
  next
    case (indirect k p r path q)
    then have "fst ` set (pk_DepsByPkgPath r) \<subseteq> set seen"
      using c(1) dep_chain_stands_for [OF indirect(1)] by (auto simp: complete_def)
    then show ?case using indirect(2) by (force simp: imports_pkg_def)
  qed
  then have "path \<in> pd_Path ` set ds" if "dep_chain (da_graph a) mp k path q" for k path q
    using that c(1) dep_chain_stands_for [OF that] by (auto simp: complete_def)
  moreover have "\<exists>k q. dep_chain (da_graph a) mp k (pd_Path d) q" if "d \<in> set ds" for d
    using ds(3) that unfolding entry_ok_def by fastforce
  ultimately show ?thesis using ds(1) by (intro exI [of _ ds]) blast
qed

text \<open>Package \<open>t\<close> imports \<open>a\<close> and \<open>b\<close>, \<open>a\<close> imports \<open>b\<close>, and \<open>b\<close> imports \<open>c\<close>.\<close>

definition dep_example :: graph where
  "dep_example = newGraph (map (\<lambda>(i, ds). (i, example_package i ds))
     [(''t'', [''a'', ''b'']), (''a'', [''b'']), (''b'', [''c'']), (''c'', [])])"

definition dep_example_args :: "bool \<Rightarrow> int \<Rightarrow> dep_args" where
  "dep_example_args transitive depth = \<lparr>da_graph = dep_example, da_main = ''t'', da_transitive = transitive, da_maxDepth = depth\<rparr>"

definition dep_example_root :: package where
  "dep_example_root = example_package ''t'' [''a'', ''b'']"

theorem dependencies_sound_witness:
  "(\<exists>ds. collect_all (dep_example_args True 0) dep_example_root = Some ds \<and> distinct (map pd_Path ds)
      \<and> list_all (entry_ok (dep_example_args True 0) dep_example_root) ds)
   \<and> map_option (map (\<lambda>d. (pd_Path d, pd_Depth d))) (collect_all (dep_example_args True 0) dep_example_root) =
       Some [(''a'', 0), (''b'', 1), (''c'', 2)]"
proof (rule conjI)
  show "map_option (map (\<lambda>d. (pd_Path d, pd_Depth d))) (collect_all (dep_example_args True 0) dep_example_root) =
       Some [(''a'', 0), (''b'', 1), (''c'', 2)]" by code_simp
qed (use dependencies_sound [of "dep_example_args True 0" dep_example_root] in \<open>simp add: list_all_iff\<close>)

lemma dep_example_packages: "g_Packages dep_example =
    [(''t'', example_package ''t'' [''a'', ''b'']), (''a'', example_package ''a'' [''b'']),
     (''b'', example_package ''b'' [''c'']), (''c'', example_package ''c'' [])]"
  by (simp add: dep_example_def)

theorem dependencies_complete_witness:
  "\<exists>ds. collect_all (dep_example_args True 0) dep_example_root = Some ds
     \<and> pd_Path ` set ds = {path. \<exists>k q. dep_chain dep_example dep_example_root k path q}"
proof -
  have "coherent (da_graph (dep_example_args True 0)) dep_example_root"
    by (auto simp: coherent_def dep_example_args_def dep_example_packages dep_example_root_def example_package_def)
  from dependencies_complete [OF this] show ?thesis by (simp add: dep_example_args_def)
qed

text \<open>With a depth limit the collection is not complete, because a package that was first seen at
  the limit is not visited again from nearer by: with limit 2, \<open>c\<close>, which \<open>t\<close> imports over
  \<open>b\<close> at depth 1, is not listed, and the direct dependency \<open>b\<close> has depth 1.\<close>

theorem dependencies_miss_within_depth:
  "dep_chain dep_example dep_example_root 1 ''c'' (example_package ''c'' [])
   \<and> dep_chain dep_example dep_example_root 0 ''b'' (example_package ''b'' [''c''])
   \<and> map_option (map (\<lambda>d. (pd_Path d, pd_Depth d))) (collect_all (dep_example_args True 2) dep_example_root) =
       Some [(''a'', 0), (''b'', 1)]"
proof (intro conjI)
  have b: "imports_pkg dep_example dep_example_root ''b'' (example_package ''b'' [''c''])"
    "imports_pkg dep_example (example_package ''b'' [''c'']) ''c'' (example_package ''c'' [])"
    by (auto simp: imports_pkg_def dep_example_packages dep_example_root_def example_package_def IsIntermediateTestVariant_def)
  show "dep_chain dep_example dep_example_root 0 ''b'' (example_package ''b'' [''c''])"
    by (rule direct [OF b(1)])
  from indirect [OF this b(2)] show "dep_chain dep_example dep_example_root 1 ''c'' (example_package ''c'' [])"
    by simp
  show "map_option (map (\<lambda>d. (pd_Path d, pd_Depth d))) (collect_all (dep_example_args True 2) dep_example_root) =
       Some [(''a'', 0), (''b'', 1)]" by code_simp
qed

section \<open>The answers of the tools\<close>

definition existing_package :: "view \<Rightarrow> graph \<Rightarrow> string \<Rightarrow> package \<Rightarrow> bool" where
  "existing_package v md target mp \<longleftrightarrow>
     (\<exists>mps. map_of (g_ForPackagePath md) target = Some (mp # mps))"

text \<open>Claim C25: \<open>go_get_dependency_graph\<close> always answers.  It fails exactly when the graph cannot be loaded,
  no package is named and no main module is found, or the package does not exist; otherwise it
  describes the best package of the path: the dependencies that \<open>collectDependencies\<close> finds, and its
  importers that are no intermediate test variants, with true totals.\<close>

theorem get_dependency_graph_spec:
  "\<exists>r. get_dependency_graph input v = Some r
     \<and> (is_Ok r \<longleftrightarrow> (\<exists>md target mp. vw_Graph v = Ok md \<and> default_path v (id_PackagePath input) = Ok target
          \<and> existing_package v md target mp))
     \<and> (\<forall>md target mp. vw_Graph v = Ok md \<longrightarrow> default_path v (id_PackagePath input) = Ok target \<longrightarrow>
          existing_package v md target mp \<longrightarrow>
          (\<exists>g ds. r = Ok g \<and> og_PackagePath g = target \<and> og_PackageName g = pk_Name mp
             \<and> collect_all \<lparr>da_graph = md, da_main = main_module_path v, da_transitive = id_IncludeTransitive input,
                  da_maxDepth = id_MaxDepth input\<rparr> mp = Some ds \<and> og_Dependencies g = ds
             \<and> og_TotalDependencies g = length ds \<and> og_TotalDependents g = length (og_Dependents g)
             \<and> og_Dependents g = map dependent (filter (\<lambda>d. \<not> IsIntermediateTestVariant d)
                  (get_list (g_ImportedBy md) (pk_ID mp)))))"
proof (cases "\<exists>md target mp. vw_Graph v = Ok md \<and> default_path v (id_PackagePath input) = Ok target
          \<and> existing_package v md target mp")
  case True
  then obtain md target mp mps where h: "vw_Graph v = Ok md" "default_path v (id_PackagePath input) = Ok target"
    "map_of (g_ForPackagePath md) target = Some (mp # mps)" by (auto simp: existing_package_def)
  obtain ds where ds: "collect_all \<lparr>da_graph = md, da_main = main_module_path v, da_transitive = id_IncludeTransitive input,
      da_maxDepth = id_MaxDepth input\<rparr> mp = Some ds" using collect_all_total by blast
  have "get_list (g_ForPackagePath md) target = mp # mps" using h(3) by (simp add: get_list_def)
  then show ?thesis using h ds
    by (auto simp: get_dependency_graph_def load_graph_def Let_def existing_package_def)
next
  case False
  have none: "get_list (g_ForPackagePath md) target = []"
    if "vw_Graph v = Ok md" "default_path v (id_PackagePath input) = Ok target" for md target
  proof (rule ccontr)
    assume "get_list (g_ForPackagePath md) target \<noteq> []"
    then have "\<exists>mp. existing_package v md target mp"
      by (auto simp: get_list_def existing_package_def neq_Nil_conv split: option.splits)
    then show False using False that by blast
  qed
  have "\<exists>r. get_dependency_graph input v = Some r \<and> \<not> is_Ok r"
    by (cases "vw_Graph v"; cases "default_path v (id_PackagePath input)")
      (simp_all add: get_dependency_graph_def load_graph_def none)
  then show ?thesis using False by blast
qed

theorem get_dependency_graph_spec_witness:
  "\<exists>g ds. get_dependency_graph \<lparr>id_PackagePath = ''b'', id_Cwd = [], id_IncludeTransitive = True, id_MaxDepth = 0\<rparr>
        (example_view\<lparr>vw_Graph := Ok dep_example\<rparr>) = Some (Ok g)
     \<and> og_Dependencies g = ds \<and> map pd_Path ds = [''c''] \<and> map pt_Path (og_Dependents g) = [''t'', ''a'']"
proof -
  let ?i = "\<lparr>id_PackagePath = ''b'', id_Cwd = [], id_IncludeTransitive = True, id_MaxDepth = 0\<rparr>"
  let ?v = "example_view\<lparr>vw_Graph := Ok dep_example\<rparr>"
  have h: "vw_Graph ?v = Ok dep_example" "default_path ?v (id_PackagePath ?i) = Ok ''b''"
    by (simp_all add: default_path_def)
  have "map_of (g_ForPackagePath dep_example) ''b'' = Some [example_package ''b'' [''c'']]" by code_simp
  then have e: "existing_package ?v dep_example ''b'' (example_package ''b'' [''c''])"
    by (simp add: existing_package_def)
  have c: "(case get_dependency_graph ?i ?v of Some (Ok g) \<Rightarrow> (map pd_Path (og_Dependencies g), map pt_Path (og_Dependents g)) | _ \<Rightarrow> ([], [])) =
      ([''c''], [''t'', ''a''])" by code_simp
  obtain r where r: "get_dependency_graph ?i ?v = Some r"
    "is_Ok r \<longleftrightarrow> (\<exists>md target mp. vw_Graph ?v = Ok md \<and> default_path ?v (id_PackagePath ?i) = Ok target
          \<and> existing_package ?v md target mp)"
    using get_dependency_graph_spec [of ?i ?v] by (elim exE conjE) (rule that)
  have "is_Ok r" unfolding r(2) using h e by blast
  then obtain g where "r = Ok g" by (cases r) simp_all
  then show ?thesis using c r(1) by simp
qed

text \<open>\<open>go_list_module_packages\<close> lists, in the order of the map, the best package of each path that
  belongs to the module and that no chosen filter skips.  With the filter for top-level packages the
  package at the root of the module is never listed when the module path has a slash, since removing
  the prefix \<open>module/\<close> leaves its path as it is.\<close>

theorem list_module_packages_spec:
  assumes g: "vw_Graph v = Ok md" and t: "default_path v (ip_ModulePath input) = Ok target"
  shows "\<exists>r. list_module_packages ph input v = Ok r \<and> op_ModulePath r = target
    \<and> (\<forall>p. p \<in> set (op_Packages r) \<longleftrightarrow>
          (\<exists>mp. mp \<in> set (best_packages md) \<and> p = package_info ph input mp
             \<and> (\<exists>m. pk_Module mp = Some m \<and> mod_Path m = target)
             \<and> (ip_ExcludeTests input = Some True \<longrightarrow> \<not> has_suffix (pk_Name mp) ''_test'')
             \<and> (ip_ExcludeInternal input = Some True \<longrightarrow>
                  \<not> str_contains (pk_PkgPath mp) ''/internal/'' \<and> \<not> has_suffix (pk_PkgPath mp) ''/internal'')
             \<and> (ip_TopLevelOnly input = Some True \<longrightarrow> \<not> str_contains (trim_prefix (pk_PkgPath mp) (target @ ''/'')) ''/'')))
    \<and> (ip_TopLevelOnly input = Some True \<longrightarrow> str_contains target ''/'' \<longrightarrow> target \<notin> pi_Path ` set (op_Packages r))"
proof -
  let ?ps = "map (package_info ph input) (filter (\<lambda>mp. \<not> skip_package input target mp) (best_packages md))"
  have r: "list_module_packages ph input v = Ok \<lparr>op_ModulePath = target, op_Packages = ?ps\<rparr>"
    by (simp add: list_module_packages_def load_graph_def g t)
  have root: "trim_prefix p (p @ ''/'') = p" for p :: string by (simp add: trim_prefix_def has_prefix_def)
  show ?thesis
    by (rule exI, rule conjI [OF r])
      (auto simp: skip_package_def package_info_def root)
qed

theorem list_module_packages_spec_witness:
  "\<exists>r. list_module_packages (\<lambda>_. None) \<lparr>ip_ModulePath = ''x/m'', ip_IncludeDocs = None, ip_ExcludeTests = None,
        ip_ExcludeInternal = None, ip_TopLevelOnly = Some True, ip_Cwd = []\<rparr>
      (example_view\<lparr>vw_Graph := Ok (newGraph (map (\<lambda>i. (i, (example_package i [])\<lparr>pk_Module := Some \<lparr>mod_Path = ''x/m'', mod_Version = []\<rparr>\<rparr>))
         [''x/m'', ''x/m/a'', ''x/m/a/b'']))\<rparr>) = Ok r
    \<and> map pi_Path (op_Packages r) = [''x/m/a''] \<and> ''x/m'' \<notin> pi_Path ` set (op_Packages r)"
proof -
  let ?g = "newGraph (map (\<lambda>i. (i, (example_package i [])\<lparr>pk_Module := Some \<lparr>mod_Path = ''x/m'', mod_Version = []\<rparr>\<rparr>))
         [''x/m'', ''x/m/a'', ''x/m/a/b''])"
  let ?v = "example_view\<lparr>vw_Graph := Ok ?g\<rparr>"
  let ?i = "\<lparr>ip_ModulePath = ''x/m'', ip_IncludeDocs = None, ip_ExcludeTests = None,
        ip_ExcludeInternal = None, ip_TopLevelOnly = Some True, ip_Cwd = []\<rparr>"
  have h: "vw_Graph ?v = Ok ?g" "default_path ?v (ip_ModulePath ?i) = Ok ''x/m''" by (simp_all add: default_path_def)
  have c: "(case list_module_packages (\<lambda>_. None) ?i ?v of Ok r \<Rightarrow> map pi_Path (op_Packages r) | _ \<Rightarrow> []) = [''x/m/a'']"
    by code_simp
  obtain r where "list_module_packages (\<lambda>_. None) ?i ?v = Ok r"
    using list_module_packages_spec [OF h, of "\<lambda>_. None"] by (elim exE conjE) (rule that)
  moreover from this c have m: "map pi_Path (op_Packages r) = [''x/m/a'']" by simp
  moreover from m have "pi_Path ` set (op_Packages r) = {''x/m/a''}" by (metis list.set(1,2) set_map)
  ultimately show ?thesis by simp
qed

end
