(* ===== verification/Get_Started.thy ===== *)
theory Get_Started
  imports Packages
begin

text \<open>
  The tool \<open>get_started\<close> of \<open>mcpbridge/core/handlers.go\<close>.  The handler ranges twice over the map of
  package paths; \<open>rng\<close>, a permutation, gives the order of the second time.  The version of the
  Go runtime is an argument.
\<close>

section \<open>Categories\<close>

definition categorizePackage :: "string \<Rightarrow> string" where
  "categorizePackage pkgPath =
     (if has_prefix pkgPath ''cmd/'' then ''CLI commands''
      else if str_contains pkgPath ''/server'' \<or> str_contains pkgPath ''/api'' \<or> str_contains pkgPath ''/handler''
        then ''API & Server''
      else if str_contains pkgPath ''/internal/'' then ''Internal packages''
      else if str_contains pkgPath ''/test/'' then ''Testing''
      else if has_suffix pkgPath ''/mcp'' \<or> str_contains pkgPath ''/mcp/'' then ''MCP tools''
      else if str_contains pkgPath ''/cache'' \<or> str_contains pkgPath ''/session'' then ''Core infrastructure''
      else if str_contains pkgPath ''/analysis'' then ''Analysis''
      else if str_contains pkgPath ''/protocol'' then ''LSP protocol''
      else if str_contains pkgPath ''/util'' then ''Utilities''
      else ''Other'')"

definition determineProjectType :: "view \<Rightarrow> string" where
  "determineProjectType v =
     (case vw_Type v of
        GoModView \<Rightarrow> ''module''
      | GoWorkView \<Rightarrow> ''workspace''
      | GOPATHView \<Rightarrow> ''gopath''
      | AdHocView \<Rightarrow> ''adhoc''
      | GoPackagesDriverView \<Rightarrow> ''unknown'')"

definition project_description :: "string \<Rightarrow> string" where
  "project_description t =
     (if t = ''module'' then ''Go module project''
      else if t = ''workspace'' then ''Go workspace (multi-module)''
      else if t = ''gopath'' then ''GOPATH-based project''
      else if t = ''adhoc'' then ''Ad-hoc Go package''
      else [])"

section \<open>The handler\<close>

record ProjectIdentity =
  pr_Name :: string
  pr_Type :: string
  pr_Root :: string
  pr_GoVersion :: string
  pr_GoRuntimeVersion :: string
  pr_Description :: string

record ProjectStats =
  st_TotalPackages :: int
  st_MainPackages :: nat
  st_TestPackages :: nat
  st_Dependencies :: nat

record GuideEntryPoint =
  ge_Category :: string
  ge_Path :: string
  ge_File :: string
  ge_Description :: string

record OGetStarted =
  gs_Identity :: ProjectIdentity
  gs_Stats :: ProjectStats
  gs_EntryPoints :: "GuideEntryPoint list"
  gs_Categories :: "(string \<times> string list) list"
  gs_NextSteps :: "string list"

definition in_module :: "string \<Rightarrow> package \<Rightarrow> bool" where
  "in_module modulePath mp \<longleftrightarrow> map_option mod_Path (pk_Module mp) = Some modulePath"

text \<open>One turn of the loop over the packages: the counts of main and test packages and the categories.\<close>

definition count_package :: "package \<Rightarrow> nat \<times> nat \<times> (string \<times> string list) list \<Rightarrow> nat \<times> nat \<times> (string \<times> string list) list" where
  "count_package mp s =
     (case s of (mains, tests, categories) \<Rightarrow>
        let test = has_suffix (pk_Name mp) ''_test'' in
        (if \<not> test \<and> pk_Name mp = ''main'' then mains + 1 else mains,
         if test then tests + 1 else tests,
         append_to (categorizePackage (pk_PkgPath mp)) (pk_PkgPath mp) categories))"

definition main_entry :: "package \<Rightarrow> GuideEntryPoint" where
  "main_entry mp = \<lparr>ge_Category = ''main'', ge_Path = pk_PkgPath mp,
     ge_File = (case pk_CompiledGoFiles mp of [] \<Rightarrow> [] | f # _ \<Rightarrow> f),
     ge_Description = ''Main package: '' @ pk_PkgPath mp\<rparr>"

definition category_entry :: "string \<Rightarrow> string \<Rightarrow> string \<Rightarrow> GuideEntryPoint" where
  "category_entry category title pkg = \<lparr>ge_Category = category, ge_Path = pkg, ge_File = [], ge_Description = title @ pkg\<rparr>"

definition findEntryPointsForGetStarted :: "graph \<Rightarrow> string \<Rightarrow> (string \<times> string list) list \<Rightarrow> GuideEntryPoint list" where
  "findEntryPointsForGetStarted md modulePath categories =
     map main_entry (filter (\<lambda>mp. pk_Name mp = ''main'') (filter (in_module modulePath) (best_packages md)))
     @ map (category_entry ''core'' ''Core: '') (take 2 (get_list categories ''Core infrastructure''))
     @ map (category_entry ''api'' ''API: '') (take 2 (get_list categories ''API & Server''))"

definition ARROW :: string where
  "ARROW = [CHR 0xE2, CHR 0x86, CHR 0x92, CHR '' '']"

definition buildNextSteps :: "ProjectStats \<Rightarrow> (string \<times> string list) list \<Rightarrow> string list" where
  "buildNextSteps stats categories =
     [ARROW @ ''Use go_search to find specific symbols or types'',
      ARROW @ ''Use list_module_packages with exclude_tests=true for a clean package overview'']
     @ (if st_MainPackages stats > 0
        then [ARROW @ ''Explore the '' @ itoa (st_MainPackages stats) @ '' main package(s) to understand entry points''] else [])
     @ (case get_list categories ''Core infrastructure'' of
          [] \<Rightarrow> []
        | p # _ \<Rightarrow> [ARROW @ ''Check core packages like '' @ p @ '' for key data structures''])
     @ [ARROW @ ''Use go_build_check to check for compilation errors'',
        ARROW @ ''Use list_package_symbols to explore a package'' @ [CHR 0x27] @ ''s API surface'']"

text \<open>The requirements of the last go.mod file that can be read.\<close>

definition count_dependencies :: "view \<Rightarrow> nat" where
  "count_dependencies v =
     (case rev (List.map_filter snd (vw_ModFiles v)) of [] \<Rightarrow> 0 | f # _ \<Rightarrow> length (mf_Require f))"

text \<open>The module path and the Go version; reading the version of a go.mod file without a go directive is
  a nil dereference.\<close>

definition module_and_version :: "view \<Rightarrow> (string, string \<times> string) outcome" where
  "module_and_version v =
     (case first_module v of
        None \<Rightarrow> Ok ([], [])
      | Some f \<Rightarrow> (case mf_Go f of None \<Rightarrow> Panic | Some version \<Rightarrow> Ok (the (mf_Module f), version)))"

definition get_started :: "((PackagePath \<times> package list) list \<Rightarrow> (PackagePath \<times> package list) list) \<Rightarrow> string \<Rightarrow> view \<Rightarrow>
    (string, OGetStarted) outcome" where
  "get_started rng runtimeVersion v =
     bind_outcome (load_graph v) (\<lambda>md.
     bind_outcome (module_and_version v) (\<lambda>(modulePath, goVersion).
       let typ = determineProjectType v;
           identity = \<lparr>pr_Name = modulePath, pr_Type = typ, pr_Root = vw_Root v, pr_GoVersion = goVersion,
                       pr_GoRuntimeVersion = runtimeVersion, pr_Description = project_description typ\<rparr>
       in case fold count_package (filter (in_module modulePath) (best_packages md)) (0, 0, []) of
            (mains, tests, categories) \<Rightarrow>
              let stats = \<lparr>st_TotalPackages = int (length (g_ForPackagePath md)) - int tests, st_MainPackages = mains,
                           st_TestPackages = tests, st_Dependencies = count_dependencies v\<rparr>
              in Ok \<lparr>gs_Identity = identity, gs_Stats = stats,
                     gs_EntryPoints = findEntryPointsForGetStarted
                       (md\<lparr>g_ForPackagePath := rng (g_ForPackagePath md)\<rparr>) modulePath categories,
                     gs_Categories = categories, gs_NextSteps = buildNextSteps stats categories\<rparr>))"

section \<open>The text of the answer\<close>

text \<open>\<open>strings.ToTitle\<close> on ASCII letters, which the category names consist of.\<close>

definition to_title :: "string \<Rightarrow> string" where
  "to_title = map (\<lambda>c. if of_char c \<ge> (97::nat) \<and> of_char c \<le> (122::nat) then char_of (of_char c - (32::nat)) else c)"

definition format_entry :: "GuideEntryPoint \<Rightarrow> string" where
  "format_entry ep =
     ''  **['' @ to_title (ge_Category ep) @ '']** '' @ ge_Description ep @ [NL]
     @ suffix_if (ge_Path ep \<noteq> []) (''    Path: '' @ ge_Path ep @ [NL])
     @ suffix_if (ge_File ep \<noteq> []) (''    File: '' @ ge_File ep @ [NL]) @ [NL]"

definition format_category :: "string \<Rightarrow> string list \<Rightarrow> string" where
  "format_category cat pkgs =
     ''  **'' @ cat @ ''** ('' @ itoa (length pkgs) @ '')'' @ [NL]
     @ concat (map (\<lambda>pkg. ''    - '' @ pkg @ [NL]) (take 3 pkgs))
     @ suffix_if (length pkgs > 3) (''    ... and '' @ itoa (length pkgs - 3) @ '' more'' @ [NL]) @ [NL]"

definition formatGetStarted :: "OGetStarted \<Rightarrow> string" where
  "formatGetStarted r =
     (let p = gs_Identity r; st = gs_Stats r in
      ''# Getting Started with '' @ pr_Name p @ [NL, NL] @ ''## Project'' @ [NL, NL]
      @ ''  **Type:** '' @ pr_Type p @ [NL]
      @ suffix_if (pr_Description p \<noteq> []) (''  **Description:** '' @ pr_Description p @ [NL])
      @ (if pr_GoVersion p \<noteq> [] \<or> pr_GoRuntimeVersion p \<noteq> []
         then if pr_GoRuntimeVersion p \<noteq> []
           then ''  **Go Version:** '' @ pr_GoVersion p @ '' (runtime: '' @ pr_GoRuntimeVersion p @ '')'' @ [NL]
           else ''  **Go Version:** '' @ pr_GoVersion p @ [NL]
         else [])
      @ ''  **Root:** '' @ pr_Root p @ [NL, NL] @ ''## Quick Stats'' @ [NL, NL]
      @ ''  **Total Packages:** '' @ itoa_int (st_TotalPackages st) @ [NL]
      @ ''  **Main Packages:** '' @ itoa (st_MainPackages st) @ [NL]
      @ ''  **Test Packages:** '' @ itoa (st_TestPackages st) @ [NL]
      @ ''  **Dependencies:** '' @ itoa (st_Dependencies st) @ [NL, NL]
      @ suffix_if (gs_EntryPoints r \<noteq> [])
          (''## Suggested Entry Points'' @ [NL, NL] @ concat (map format_entry (gs_EntryPoints r)))
      @ suffix_if (gs_Categories r \<noteq> [])
          (''## Package Categories'' @ [NL, NL]
           @ concat (map (\<lambda>cat. format_category cat (get_list (gs_Categories r) cat)) (sort (map fst (gs_Categories r)))))
      @ suffix_if (gs_NextSteps r \<noteq> [])
          (''## Next Steps'' @ [NL, NL] @ concat (map (\<lambda>step. ''  '' @ step @ [NL]) (gs_NextSteps r)) @ [NL]))"

definition handleGetStarted :: "(string \<Rightarrow> (string, view) outcome) \<Rightarrow>
    ((PackagePath \<times> package list) list \<Rightarrow> (PackagePath \<times> package list) list) \<Rightarrow> string \<Rightarrow> handler \<Rightarrow> string \<Rightarrow>
    (string, string \<times> OGetStarted) outcome \<times> handler" where
  "handleGetStarted new_view rng runtimeVersion h cwd =
     with_view new_view h cwd
       (\<lambda>v. bind_outcome (get_started rng runtimeVersion v) (\<lambda>r. Ok (formatGetStarted r, r)))"

section \<open>What the guide says\<close>

lemma fold_count_package:
  "fold count_package mps (m, t, cats) =
     (m + length (filter (\<lambda>mp. pk_Name mp = ''main'') mps),
      t + length (filter (\<lambda>mp. has_suffix (pk_Name mp) ''_test'') mps),
      fold (\<lambda>mp. append_to (categorizePackage (pk_PkgPath mp)) (pk_PkgPath mp)) mps cats)"
proof (induction mps arbitrary: m t cats)
  case (Cons mp mps)
  have "\<not> has_suffix ''main'' ''_test''" by code_simp
  then have "count_package mp (m, t, cats) =
      (if pk_Name mp = ''main'' then Suc m else m, if has_suffix (pk_Name mp) ''_test'' then Suc t else t,
       append_to (categorizePackage (pk_PkgPath mp)) (pk_PkgPath mp) cats)"
    by (auto simp: count_package_def)
  then show ?case by (simp add: Cons.IH)
qed simp

lemma get_list_categories:
  "get_list (fold (\<lambda>mp. append_to (categorizePackage (pk_PkgPath mp)) (pk_PkgPath mp)) mps []) cat =
     map pk_PkgPath (filter (\<lambda>mp. categorizePackage (pk_PkgPath mp) = cat) mps)"
  by (simp add: get_list_fold_append_to)

lemma keys_append_to: "fst ` set (append_to k v m) = insert k (fst ` set m)"
  by (simp add: append_to_def dom_update)

lemma distinct_append_to: "distinct (map fst m) \<Longrightarrow> distinct (map fst (append_to k v m))"
  by (simp add: append_to_def distinct_update)

lemma fold_append_to_keys:
  "fst ` set (fold (\<lambda>x. append_to (key x) (val x)) xs m) = fst ` set m \<union> key ` set xs"
  "distinct (map fst m) \<Longrightarrow> distinct (map fst (fold (\<lambda>x. append_to (key x) (val x)) xs m))"
  by (induction xs arbitrary: m) (auto simp: keys_append_to distinct_append_to)

lemma get_list_mem: "distinct (map fst m) \<Longrightarrow> (k, l) \<in> set m \<Longrightarrow> get_list m k = l"
  by (simp add: get_list_def)

text \<open>The packages that represent the paths of a new graph: for each path the package that stands
  before all others of the path.\<close>

definition represents :: "(PackageID \<times> package) list \<Rightarrow> package \<Rightarrow> bool" where
  "represents pkgs mp \<longleftrightarrow> mp \<in> snd ` set pkgs
     \<and> (\<forall>mp' \<in> snd ` set pkgs. pk_PkgPath mp' = pk_PkgPath mp \<longrightarrow> listed_before mp mp')"

lemma represents_unique:
  assumes "keyed pkgs" "represents pkgs mp" "represents pkgs mp'" "pk_PkgPath mp = pk_PkgPath mp'"
  shows "mp = mp'"
proof -
  have m: "mp \<in> snd ` set pkgs" "mp' \<in> snd ` set pkgs" "listed_before mp mp'" "listed_before mp' mp"
    using assms(2-4) by (auto simp: represents_def)
  then have "pk_ID mp = pk_ID mp'" by (auto simp: listed_before_def split: if_splits)
  moreover have "(pk_ID mp, mp) \<in> set pkgs" "(pk_ID mp', mp') \<in> set pkgs"
    using assms(1) m(1,2) by (auto simp: keyed_def)
  ultimately show ?thesis using assms(1) by (metis keyed_def eq_key_imp_eq_value)
qed

lemma paths_of_graph:
  "fst ` set (g_ForPackagePath (newGraph pkgs)) = pk_PkgPath ` snd ` set pkgs"
  "distinct (map fst (g_ForPackagePath (newGraph pkgs)))"
proof -
  have k: "map fst (g_ForPackagePath (newGraph pkgs)) = map fst (index_paths (map snd pkgs))"
    by (simp add: newGraph_def Let_def case_prod_unfold comp_def)
  show "distinct (map fst (g_ForPackagePath (newGraph pkgs)))"
    unfolding k index_paths_def using fold_append_to_keys(2) [of "[]" pk_PkgPath "\<lambda>mp. mp"] by simp
  have "set (map fst (index_paths (map snd pkgs))) = pk_PkgPath ` snd ` set pkgs"
    unfolding index_paths_def set_map using fold_append_to_keys(1) [of pk_PkgPath "\<lambda>mp. mp" "map snd pkgs" "[]"]
    by (simp add: image_image)
  then show "fst ` set (g_ForPackagePath (newGraph pkgs)) = pk_PkgPath ` snd ` set pkgs"
    using arg_cong [OF k, of set] by simp
qed

lemma path_entry:
  assumes "(p, l) \<in> set (g_ForPackagePath (newGraph pkgs))"
  obtains mp l' where "l = mp # l'" "represents pkgs mp" "pk_PkgPath mp = p"
proof -
  have l: "l = sort_for_path (filter (\<lambda>mp. pk_PkgPath mp = p) (map snd pkgs))"
    using get_list_mem [OF paths_of_graph(2) assms]
    by (simp add: newGraph_def Let_def get_list_map_values sort_for_path_def get_list_index_paths)
  have set_l: "set l = {mp \<in> snd ` set pkgs. pk_PkgPath mp = p}" unfolding l sort_for_path_def by auto
  have "p \<in> pk_PkgPath ` snd ` set pkgs" using assms paths_of_graph(1) by (metis fst_conv image_eqI)
  then obtain mp l' where c: "l = mp # l'" using set_l by (cases l) auto
  have "\<forall>mp' \<in> set l'. listed_before mp mp'"
    using sort_for_path_sorted [of "filter (\<lambda>mp. pk_PkgPath mp = p) (map snd pkgs)"] c unfolding l [symmetric] by simp
  moreover have "listed_before mp mp" by (simp add: listed_before_def)
  ultimately have "\<forall>mp' \<in> set l. listed_before mp mp'" using c by simp
  moreover have m: "mp \<in> snd ` set pkgs" "pk_PkgPath mp = p" using set_l c by auto
  ultimately have "represents pkgs mp" unfolding represents_def using set_l by blast
  then show ?thesis using that c m(2) by blast
qed

lemma map_filter_all: "(\<And>x. x \<in> set xs \<Longrightarrow> f x = Some (g x)) \<Longrightarrow> List.map_filter f xs = map g xs"
  by (induction xs) (auto simp: List.map_filter_simps)

lemma best_packages_new:
  assumes "keyed pkgs"
  shows "map pk_PkgPath (best_packages (newGraph pkgs)) = map fst (g_ForPackagePath (newGraph pkgs))"
    and "set (best_packages (newGraph pkgs)) = {mp. represents pkgs mp}"
proof -
  let ?m = "g_ForPackagePath (newGraph pkgs)"
  have entry: "(case x of (p, []) \<Rightarrow> None | (p, mp # l) \<Rightarrow> Some mp) = Some (hd (snd x))
      \<and> pk_PkgPath (hd (snd x)) = fst x \<and> represents pkgs (hd (snd x))" if "x \<in> set ?m" for x
  proof -
    obtain p l where x: "x = (p, l)" by fastforce
    have "(p, l) \<in> set ?m" using that x by simp
    then obtain mp l' where "l = mp # l'" "represents pkgs mp" "pk_PkgPath mp = p" by (rule path_entry)
    then show ?thesis using x by simp
  qed
  have best: "best_packages (newGraph pkgs) = map (\<lambda>x. hd (snd x)) ?m"
    unfolding best_packages_def by (rule map_filter_all) (use entry in blast)
  show p: "map pk_PkgPath (best_packages (newGraph pkgs)) = map fst ?m"
    unfolding best using entry by simp
  show "set (best_packages (newGraph pkgs)) = {mp. represents pkgs mp}"
  proof (intro set_eqI iffI; unfold mem_Collect_eq)
    show "represents pkgs mp" if "mp \<in> set (best_packages (newGraph pkgs))" for mp
      using that entry unfolding best by auto
    show "mp \<in> set (best_packages (newGraph pkgs))" if r: "represents pkgs mp" for mp
    proof -
      have "pk_PkgPath mp \<in> pk_PkgPath ` set (best_packages (newGraph pkgs))"
        using r arg_cong [OF p, of set] unfolding set_map paths_of_graph(1) represents_def by blast
      then obtain mp' where "mp' \<in> set (best_packages (newGraph pkgs))" "pk_PkgPath mp' = pk_PkgPath mp"
        by (rule imageE) metis
      moreover from this have "represents pkgs mp'" using entry unfolding best by auto
      ultimately show ?thesis using represents_unique [OF assms _ r] by metis
    qed
  qed
qed

text \<open>The packages that represent a path and belong to a module, each once, with different paths.\<close>

lemma module_packages:
  fixes m
  assumes "keyed pkgs"
  defines "mps \<equiv> filter (in_module m) (best_packages (newGraph pkgs))"
  shows "set mps = {mp. represents pkgs mp \<and> map_option mod_Path (pk_Module mp) = Some m}"
    and "distinct (map pk_PkgPath mps)"
proof -
  show "set mps = {mp. represents pkgs mp \<and> map_option mod_Path (pk_Module mp) = Some m}"
    using best_packages_new(2) [OF assms(1)] by (auto simp: mps_def in_module_def)
  have "distinct (map pk_PkgPath (best_packages (newGraph pkgs)))"
    unfolding best_packages_new(1) [OF assms(1)] by (rule paths_of_graph(2))
  then show "distinct (map pk_PkgPath mps)" unfolding mps_def by (rule distinct_map_filter)
qed

lemma length_filter_card:
  "distinct (map f xs) \<Longrightarrow> length (filter P xs) = card {x \<in> set xs. P x}"
  by (metis distinct_card distinct_filter distinct_map set_filter)

lemma find_split:
  "List.find P xs = Some x \<longleftrightarrow> (\<exists>ys zs. xs = ys @ x # zs \<and> (\<forall>y \<in> set ys. \<not> P y) \<and> P x)"
proof
  assume f: "List.find P xs = Some x"
  then have "\<exists>x \<in> set xs. P x" using find_Some_mem by metis
  then obtain ys y zs where "xs = ys @ y # zs" "P y" "\<forall>y \<in> set ys. \<not> P y" by (metis split_list_first_prop)
  then show "\<exists>ys zs. xs = ys @ x # zs \<and> (\<forall>y \<in> set ys. \<not> P y) \<and> P x" using f find_first by (metis option.inject)
qed (auto intro: find_first)

text \<open>The categories of a list of packages with different paths.\<close>

lemma categories_partition:
  assumes "distinct (map pk_PkgPath mps)"
  defines "cats \<equiv> fold (\<lambda>mp. append_to (categorizePackage (pk_PkgPath mp)) (pk_PkgPath mp)) mps []"
  shows "distinct (map fst cats)"
    and "fst ` set cats = categorizePackage ` pk_PkgPath ` set mps"
    and "(cat, ps) \<in> set cats \<Longrightarrow> distinct ps \<and> set ps = {p \<in> pk_PkgPath ` set mps. categorizePackage p = cat}"
proof -
  show d: "distinct (map fst cats)"
    unfolding cats_def using fold_append_to_keys(2) [of "[]" "\<lambda>mp. categorizePackage (pk_PkgPath mp)" pk_PkgPath mps] by simp
  show "fst ` set cats = categorizePackage ` pk_PkgPath ` set mps"
    unfolding cats_def using fold_append_to_keys(1) [of "\<lambda>mp. categorizePackage (pk_PkgPath mp)" pk_PkgPath mps "[]"]
    by (simp add: image_image)
  assume "(cat, ps) \<in> set cats"
  then have "ps = map pk_PkgPath (filter (\<lambda>mp. categorizePackage (pk_PkgPath mp) = cat) mps)"
    using get_list_mem [OF d] get_list_categories [of mps cat] unfolding cats_def by simp
  then show "distinct ps \<and> set ps = {p \<in> pk_PkgPath ` set mps. categorizePackage p = cat}"
    using distinct_map_filter [OF assms(1)] by auto
qed

text \<open>Claim C26: given the graph of some packages, \<open>get_started\<close> panics when the first go.mod file with a
  module directive has no go directive, and answers otherwise.  The packages it looks at are, for
  each package path, the one that stands before all others of the path (no test variant, then
  fewer compiled files, then the least ID), and of these those of the module.  Their paths are
  partitioned into the categories: a category is listed once and only if it has a path, and lists
  each of its paths once.  The main packages and the test packages are counted among them, while
  the total is the number of all package paths of the graph, those of other modules and of the
  standard library among them, less the test packages of the module.  The dependencies are the
  requirements, indirect ones among them, of the last go.mod file that can be read.\<close>

theorem get_started_spec:
  assumes "keyed pkgs" "vw_Graph v = Ok (newGraph pkgs)"
  shows "let mps = {mp \<in> snd ` set pkgs. map_option mod_Path (pk_Module mp) = Some (main_module_path v)
           \<and> (\<forall>mp' \<in> snd ` set pkgs. pk_PkgPath mp' = pk_PkgPath mp \<longrightarrow> listed_before mp mp')};
         mods = List.map_filter snd (vw_ModFiles v) in
    if \<exists>fs f gs. mods = fs @ f # gs \<and> (\<forall>f' \<in> set fs. mf_Module f' = None) \<and> mf_Module f \<noteq> None \<and> mf_Go f = None
    then get_started rng rt v = Panic
    else \<exists>r. get_started rng rt v = Ok r
      \<and> distinct (map fst (gs_Categories r))
      \<and> fst ` set (gs_Categories r) = categorizePackage ` pk_PkgPath ` mps
      \<and> (\<forall>(cat, ps) \<in> set (gs_Categories r). distinct ps \<and> set ps = {p \<in> pk_PkgPath ` mps. categorizePackage p = cat})
      \<and> st_MainPackages (gs_Stats r) = card {mp \<in> mps. pk_Name mp = ''main''}
      \<and> st_TestPackages (gs_Stats r) = card {mp \<in> mps. has_suffix (pk_Name mp) ''_test''}
      \<and> st_TotalPackages (gs_Stats r) = int (card (pk_PkgPath ` snd ` set pkgs)) - int (st_TestPackages (gs_Stats r))
      \<and> st_Dependencies (gs_Stats r) = (if mods = [] then 0 else length (mf_Require (last mods)))"
proof -
  let ?m = "main_module_path v" and ?mods = "List.map_filter snd (vw_ModFiles v)"
  define mps where "mps = filter (in_module ?m) (best_packages (newGraph pkgs))"
  have set_mps: "{mp \<in> snd ` set pkgs. map_option mod_Path (pk_Module mp) = Some ?m
      \<and> (\<forall>mp' \<in> snd ` set pkgs. pk_PkgPath mp' = pk_PkgPath mp \<longrightarrow> listed_before mp mp')} = set mps"
    unfolding mps_def module_packages(1) [OF assms(1)] represents_def by blast
  have dist: "distinct (map pk_PkgPath mps)" unfolding mps_def by (rule module_packages(2) [OF assms(1)])
  have deps: "count_dependencies v = (if ?mods = [] then 0 else length (mf_Require (last ?mods)))"
    by (cases ?mods rule: rev_cases) (simp_all add: count_dependencies_def)
  have total: "length (g_ForPackagePath (newGraph pkgs)) = card (pk_PkgPath ` snd ` set pkgs)"
    using distinct_card [OF paths_of_graph(2)] paths_of_graph(1) by (metis length_map set_map)
  have no_go: "(\<exists>fs f gs. ?mods = fs @ f # gs \<and> (\<forall>f' \<in> set fs. mf_Module f' = None) \<and> mf_Module f \<noteq> None \<and> mf_Go f = None)
      \<longleftrightarrow> module_and_version v = Panic"
  proof -
    have "module_and_version v = Panic \<longleftrightarrow> (\<exists>f. first_module v = Some f \<and> mf_Go f = None)"
      by (auto simp: module_and_version_def split: option.split)
    then show ?thesis unfolding first_module_def find_split not_not by blast
  qed
  show ?thesis
  proof (cases "module_and_version v")
    case Panic
    then have "get_started rng rt v = Panic" by (simp add: get_started_def load_graph_def assms(2))
    then show ?thesis unfolding Let_def no_go using Panic by simp
  next
    case (Err e)
    then show ?thesis by (simp add: module_and_version_def split: option.splits)
  next
    case (Ok mv)
    then have mv: "fst mv = ?m" by (auto simp: module_and_version_def main_module_path_def split: option.splits)
    then obtain r where r: "get_started rng rt v = Ok r"
      "gs_Categories r = fold (\<lambda>mp. append_to (categorizePackage (pk_PkgPath mp)) (pk_PkgPath mp)) mps []"
      "st_MainPackages (gs_Stats r) = length (filter (\<lambda>mp. pk_Name mp = ''main'') mps)"
      "st_TestPackages (gs_Stats r) = length (filter (\<lambda>mp. has_suffix (pk_Name mp) ''_test'') mps)"
      "st_TotalPackages (gs_Stats r) = int (length (g_ForPackagePath (newGraph pkgs))) - int (st_TestPackages (gs_Stats r))"
      "st_Dependencies (gs_Stats r) = count_dependencies v"
      using Ok by (simp add: get_started_def load_graph_def assms(2) Let_def fold_count_package case_prod_unfold mps_def)
    show ?thesis
      unfolding Let_def set_mps no_go Ok
      using r categories_partition [OF dist] length_filter_card [OF dist] deps total
      by auto
  qed
qed

definition guide_packages :: "(PackageID \<times> package) list" where
  "guide_packages = map (\<lambda>(i, n). (i, (example_package i [])\<lparr>pk_Name := n,
       pk_Module := Some \<lparr>mod_Path = ''x/m'', mod_Version = []\<rparr>\<rparr>))
     [(''x/m'', ''main''), (''x/m/api'', ''api''), (''x/m/api_test'', ''api_test''), (''x/m/cache'', ''cache'')]"

definition guide_example :: graph where
  "guide_example = newGraph guide_packages"

definition guide_view :: "string option \<Rightarrow> view" where
  "guide_view go = example_view\<lparr>vw_Graph := Ok guide_example,
     vw_ModFiles := [(''/m/go.mod'', Some \<lparr>mf_Module = Some ''x/m'', mf_Go = go, mf_Require = [], mf_Replace = []\<rparr>)]\<rparr>"

theorem get_started_spec_witness:
  "get_started rev ''go1.25'' (guide_view None) = Panic
   \<and> (\<exists>r. get_started rev ''go1.25'' (guide_view (Some ''1.24'')) = Ok r
        \<and> get_list (gs_Categories r) ''API & Server'' = [''x/m/api'', ''x/m/api_test'']
        \<and> st_MainPackages (gs_Stats r) = 1 \<and> st_TestPackages (gs_Stats r) = 1 \<and> st_TotalPackages (gs_Stats r) = 3)"
proof -
  have g: "vw_Graph (guide_view go) = Ok (newGraph guide_packages)" for go by (simp add: guide_view_def guide_example_def)
  have k: "keyed guide_packages" by (simp add: keyed_def guide_packages_def example_package_def)
  have m: "List.map_filter snd (vw_ModFiles (guide_view go)) = [] @ \<lparr>mf_Module = Some ''x/m'', mf_Go = go, mf_Require = [], mf_Replace = []\<rparr> # []" for go
    by (simp add: guide_view_def List.map_filter_def)
  have p: "get_started rev ''go1.25'' (guide_view None) = Panic"
  proof -
    have no_go: "\<exists>fs f gs. List.map_filter snd (vw_ModFiles (guide_view None)) = fs @ f # gs
        \<and> (\<forall>f' \<in> set fs. mf_Module f' = None) \<and> mf_Module f \<noteq> None \<and> mf_Go f = None"
      using m [of None] by fastforce
    show ?thesis
      using get_started_spec [OF k g [of None], where rng = rev and rt = "''go1.25''"] unfolding Let_def if_P [OF no_go] .
  qed
  have c: "(case get_started rev ''go1.25'' (guide_view (Some ''1.24'')) of
      Ok r \<Rightarrow> (get_list (gs_Categories r) ''API & Server'', st_MainPackages (gs_Stats r), st_TestPackages (gs_Stats r),
                st_TotalPackages (gs_Stats r)) | _ \<Rightarrow> ([], 0, 0, 0)) = ([''x/m/api'', ''x/m/api_test''], 1, 1, 3)"
    by code_simp
  then show ?thesis using p by (cases "get_started rev ''go1.25'' (guide_view (Some ''1.24''))") simp_all
qed

text \<open>The suggested entry points are the main packages of the module, all of them and first, and at
  most two packages each of the categories for core infrastructure and for APIs.\<close>

theorem findEntryPointsForGetStarted_spec:
  "\<exists>mains cores apis. findEntryPointsForGetStarted md p cats = mains @ cores @ apis
    \<and> map ge_Path mains = map pk_PkgPath (filter (\<lambda>mp. in_module p mp \<and> pk_Name mp = ''main'') (best_packages md))
    \<and> map ge_Path cores = take 2 (get_list cats ''Core infrastructure'')
    \<and> map ge_Path apis = take 2 (get_list cats ''API & Server'')
    \<and> ge_Category ` set mains \<subseteq> {''main''} \<and> ge_Category ` set cores \<subseteq> {''core''} \<and> ge_Category ` set apis \<subseteq> {''api''}"
  unfolding findEntryPointsForGetStarted_def filter_filter
  by (rule exI, rule exI, rule exI, rule conjI [OF refl])
    (auto simp: main_entry_def category_entry_def comp_def conj_commute)

end
