(* ===== verification/Document_Symbols.thy ===== *)
theory Document_Symbols
  imports Mapper
begin

text \<open>
  The symbols of a parsed Go file: \<open>DocumentSymbols\<close> and its helpers in
  \<open>gopls/internal/golang/symbols.go\<close>, with \<open>embeddedIdent\<close> of \<open>util.go\<close>.  A syntax tree holds
  what these functions read: constructors, names and the interval of positions of every node.  The
  parser gives every field a type.  \<open>types.ExprString\<close> is an argument.  The tags of a symbol
  are never set and are left out.
\<close>

section \<open>Syntax\<close>

type_synonym span = "int \<times> int"
type_synonym ident = "span \<times> string"

datatype texpr =
    Ident ident
  | StarExpr span texpr
  | ParenExpr span texpr
  | IndexExpr span texpr
  | IndexListExpr span texpr
  | SelectorExpr span texpr ident
  | StructType span "field list option"
  | InterfaceType span "field list option"
  | FuncType span
  | OtherExpr span
and field = Field (fl_span: span) (fl_names: "ident list") (fl_type: texpr)

fun expr_span :: "texpr \<Rightarrow> span" where
  "expr_span (Ident i) = fst i"
| "expr_span (StarExpr s _) = s"
| "expr_span (ParenExpr s _) = s"
| "expr_span (IndexExpr s _) = s"
| "expr_span (IndexListExpr s _) = s"
| "expr_span (SelectorExpr s _ _) = s"
| "expr_span (StructType s _) = s"
| "expr_span (InterfaceType s _) = s"
| "expr_span (FuncType s) = s"
| "expr_span (OtherExpr s) = s"

record func_decl =
  fn_span :: span
  fn_name :: ident
  fn_recv :: "texpr list option"
  fn_type :: texpr
  fn_doc :: "string option"
  fn_body :: "span option"

datatype spec =
    ImportSpec
  | TypeSpec (sp_span: span) (sp_name: ident) (sp_doc: "string option") (sp_type: texpr)
  | ValueSpec (sp_span: span) (sp_names: "ident list") (sp_doc: "string option") (sp_vtype: "texpr option")

record gen_decl =
  gn_const :: bool
  gn_doc :: "string option"
  gn_specs :: "spec list"

datatype decl = FuncDecl func_decl | GenDecl gen_decl | BadDecl

section \<open>Symbols\<close>

datatype SymbolKind = SK_Class | SK_Method | SK_Field | SK_Interface | SK_Function | SK_Variable | SK_Constant | SK_Struct
  | SK_Other nat

datatype DocumentSymbol = DocumentSymbol (ds_Name: string) (ds_Detail: string) (ds_Kind: SymbolKind)
  (ds_Range: Range) (ds_SelectionRange: Range) (ds_Children: "DocumentSymbol list")

text \<open>The mapper, the token file and \<open>types.ExprString\<close> are the same in all calls.\<close>

record sym_env =
  se_mapper :: Mapper
  se_tok :: tokenFile
  se_ExprString :: "texpr \<Rightarrow> string"

definition NodeRange :: "sym_env \<Rightarrow> span \<Rightarrow> (pos_error, Range) outcome" where
  "NodeRange env s = PosRange (se_mapper env) (se_tok env) (fst s) (snd s)"

definition zero_range :: Range where
  "zero_range = Range (Position 0 0) (Position 0 0)"

text \<open>A range that is left zero when it cannot be computed.\<close>

definition range_or_zero :: "sym_env \<Rightarrow> span \<Rightarrow> Range" where
  "range_or_zero env s = (case NodeRange env s of Ok r \<Rightarrow> r | _ \<Rightarrow> zero_range)"

definition strip_star :: "texpr \<Rightarrow> texpr" where
  "strip_star x = (case x of StarExpr _ y \<Rightarrow> y | _ \<Rightarrow> x)"

definition strip_index :: "texpr \<Rightarrow> texpr" where
  "strip_index x = (case x of IndexExpr _ y \<Rightarrow> y | IndexListExpr _ y \<Rightarrow> y | _ \<Rightarrow> x)"

definition embeddedIdent :: "texpr \<Rightarrow> ident option" where
  "embeddedIdent x =
     (case strip_index (strip_star x) of
        Ident i \<Rightarrow> Some i
      | SelectorExpr _ (Ident _) sel \<Rightarrow> Some sel
      | _ \<Rightarrow> None)"

text \<open>The symbols of one field, given the detail and children of its type.\<close>

definition field_symbols :: "sym_env \<Rightarrow> SymbolKind \<Rightarrow> field \<Rightarrow> string \<Rightarrow> DocumentSymbol list \<Rightarrow> DocumentSymbol list" where
  "field_symbols env fieldKind fld detail children =
     (if fl_names fld = [] then
        (case embeddedIdent (fl_type fld) of
           Some i \<Rightarrow> [DocumentSymbol (snd i) detail SK_Field (range_or_zero env (expr_span (fl_type fld)))
                      (range_or_zero env (fst i)) children]
         | None \<Rightarrow> [DocumentSymbol detail [] SK_Field (range_or_zero env (expr_span (fl_type fld)))
                      (range_or_zero env (expr_span (fl_type fld))) children])
      else map (\<lambda>i. DocumentSymbol (snd i) detail fieldKind (range_or_zero env (fl_span fld))
                       (range_or_zero env (fst i)) children) (fl_names fld))"

fun typeDetails :: "sym_env \<Rightarrow> texpr \<Rightarrow> SymbolKind \<times> string \<times> DocumentSymbol list"
  and fieldListSymbols :: "sym_env \<Rightarrow> SymbolKind \<Rightarrow> field list \<Rightarrow> DocumentSymbol list" where
  "typeDetails env (StructType s flds) =
     (let children = (case flds of None \<Rightarrow> [] | Some fs \<Rightarrow> fieldListSymbols env SK_Field fs)
      in (SK_Struct, if children \<noteq> [] then ''struct{...}'' else ''struct{}'', children))"
| "typeDetails env (InterfaceType s methods) =
     (let children = (case methods of None \<Rightarrow> [] | Some fs \<Rightarrow> fieldListSymbols env SK_Method fs)
      in (SK_Interface, if children \<noteq> [] then ''interface{...}'' else ''interface{}'', children))"
| "typeDetails env (FuncType s) = (SK_Function, se_ExprString env (FuncType s), [])"
| "typeDetails env e = (SK_Class, se_ExprString env e, [])"
| "fieldListSymbols env k [] = []"
| "fieldListSymbols env k (Field s names t # fs) =
     (case typeDetails env t of (_, detail, children) \<Rightarrow>
        field_symbols env k (Field s names t) detail children) @ fieldListSymbols env k fs"

text \<open>The range of a node and of its name; an error of either skips the declaration.\<close>

definition two_ranges :: "sym_env \<Rightarrow> span \<Rightarrow> span \<Rightarrow> (Range \<times> Range) option" where
  "two_ranges env s t =
     (case NodeRange env s of
        Ok r \<Rightarrow> (case NodeRange env t of Ok r' \<Rightarrow> Some (r, r') | _ \<Rightarrow> None)
      | _ \<Rightarrow> None)"

definition funcSymbol :: "sym_env \<Rightarrow> func_decl \<Rightarrow> DocumentSymbol option" where
  "funcSymbol env d =
     map_option (\<lambda>(r, r'). DocumentSymbol (snd (fn_name d)) (se_ExprString env (fn_type d))
         (if fn_recv d \<noteq> None then SK_Method else SK_Function) r r' [])
       (two_ranges env (fn_span d) (fst (fn_name d)))"

definition typeSymbol :: "sym_env \<Rightarrow> span \<Rightarrow> ident \<Rightarrow> texpr \<Rightarrow> DocumentSymbol option" where
  "typeSymbol env s name t =
     map_option (\<lambda>(r, r'). case typeDetails env t of (kind, detail, children) \<Rightarrow>
         DocumentSymbol (snd name) detail kind r r' children)
       (two_ranges env s (fst name))"

definition varSymbol :: "sym_env \<Rightarrow> span \<Rightarrow> texpr option \<Rightarrow> ident \<Rightarrow> bool \<Rightarrow> DocumentSymbol option" where
  "varSymbol env s typ name isConst =
     map_option (\<lambda>(r, r').
         case (case typ of None \<Rightarrow> ([], []) | Some t \<Rightarrow> snd (typeDetails env t)) of (detail, children) \<Rightarrow>
           DocumentSymbol (snd name) detail (if isConst then SK_Constant else SK_Variable) r r' children)
       (two_ranges env s (fst name))"

text \<open>The receiver's type as text, if the declaration is a method.\<close>

definition recv_text :: "sym_env \<Rightarrow> func_decl \<Rightarrow> string option" where
  "recv_text env d = (case fn_recv d of Some (t # _) \<Rightarrow> Some (se_ExprString env t) | _ \<Rightarrow> None)"

definition method_name :: "string option \<Rightarrow> string \<Rightarrow> string" where
  "method_name recv name = (case recv of Some r \<Rightarrow> ''('' @ r @ '').'' @ name | None \<Rightarrow> name)"

fun set_Name :: "DocumentSymbol \<Rightarrow> string \<Rightarrow> DocumentSymbol" where
  "set_Name (DocumentSymbol _ d k r s c) n = DocumentSymbol n d k r s c"

definition opt_list :: "'a option \<Rightarrow> 'a list" where
  "opt_list x = (case x of None \<Rightarrow> [] | Some a \<Rightarrow> [a])"

fun spec_symbols :: "sym_env \<Rightarrow> bool \<Rightarrow> spec \<Rightarrow> DocumentSymbol list" where
  "spec_symbols env isConst ImportSpec = []"
| "spec_symbols env isConst (TypeSpec s name doc t) =
     (if snd name = ''_'' then [] else opt_list (typeSymbol env s name t))"
| "spec_symbols env isConst (ValueSpec s names doc typ) =
     concat (map (\<lambda>name. if snd name = ''_'' then [] else opt_list (varSymbol env s typ name isConst)) names)"

fun decl_symbols :: "sym_env \<Rightarrow> decl \<Rightarrow> DocumentSymbol list" where
  "decl_symbols env (FuncDecl d) =
     (if snd (fn_name d) = ''_'' then []
      else opt_list (map_option (\<lambda>fs. set_Name fs (method_name (recv_text env d) (ds_Name fs))) (funcSymbol env d)))"
| "decl_symbols env (GenDecl d) = concat (map (spec_symbols env (gn_const d)) (gn_specs d))"
| "decl_symbols env BadDecl = []"

definition DocumentSymbols :: "sym_env \<Rightarrow> decl list \<Rightarrow> DocumentSymbol list" where
  "DocumentSymbols env decls = concat (map (decl_symbols env) decls)"

section \<open>Every declared name is a symbol\<close>

text \<open>The names that a declaration declares, with the span that its range is computed from.\<close>

fun spec_names :: "spec \<Rightarrow> (span \<times> ident) list" where
  "spec_names ImportSpec = []"
| "spec_names (TypeSpec s name doc t) = [(s, name)]"
| "spec_names (ValueSpec s names doc typ) = map (Pair s) names"

fun decl_names :: "sym_env \<Rightarrow> decl \<Rightarrow> (string \<times> span \<times> ident) list" where
  "decl_names env (FuncDecl d) = [(method_name (recv_text env d) (snd (fn_name d)), fn_span d, fn_name d)]"
| "decl_names env (GenDecl d) = map (\<lambda>(s, i). (snd i, s, i)) (concat (map spec_names (gn_specs d)))"
| "decl_names env BadDecl = []"

text \<open>Those that are not blank and whose positions lie in the file.\<close>

definition symbol_names :: "sym_env \<Rightarrow> decl \<Rightarrow> string list" where
  "symbol_names env d =
     map fst (filter (\<lambda>(n, s, i). snd i \<noteq> ''_'' \<and> two_ranges env s (fst i) \<noteq> None) (decl_names env d))"

lemma ds_Name_set_Name [simp]: "ds_Name (set_Name s n) = n"
  by (cases s) simp

lemma map_opt_list: "map f (opt_list x) = opt_list (map_option f x)"
  by (cases x) (simp_all add: opt_list_def)

lemma spec_symbols_names:
  "map ds_Name (spec_symbols env c sp) =
     map (snd \<circ> snd) (filter (\<lambda>(s, i). snd i \<noteq> ''_'' \<and> two_ranges env s (fst i) \<noteq> None) (spec_names sp))"
proof (cases sp)
  case (TypeSpec s name doc t)
  then show ?thesis
    by (cases "two_ranges env s (fst name)") (auto simp: typeSymbol_def opt_list_def split: prod.split)
next
  case (ValueSpec s names doc vt)
  have "map ds_Name (concat (map (\<lambda>name. if snd name = ''_'' then [] else opt_list (varSymbol env s vt name c)) ns)) =
      map snd (filter (\<lambda>i. snd i \<noteq> ''_'' \<and> two_ranges env s (fst i) \<noteq> None) ns)" for ns
    by (induction ns) (auto simp: varSymbol_def opt_list_def map_opt_list split: option.splits prod.splits)
  then show ?thesis using ValueSpec by (simp add: filter_map comp_def)
qed simp

lemma decl_symbols_names: "map ds_Name (decl_symbols env d) = symbol_names env d"
proof (cases d)
  case (FuncDecl f)
  then show ?thesis
    by (cases "two_ranges env (fn_span f) (fst (fn_name f))")
      (auto simp: symbol_names_def funcSymbol_def opt_list_def)
next
  case (GenDecl g)
  have "map ds_Name (concat (map (spec_symbols env c) sps)) =
      map fst (filter (\<lambda>(n, s, i). snd i \<noteq> ''_'' \<and> two_ranges env s (fst i) \<noteq> None)
        (map (\<lambda>(s, i). (snd i, s, i)) (concat (map spec_names sps))))" for c sps
    by (induction sps) (simp_all add: spec_symbols_names filter_map comp_def case_prod_beta')
  then show ?thesis using GenDecl by (simp add: symbol_names_def)
qed (simp add: symbol_names_def)

text \<open>\<open>DocumentSymbols\<close> lists, in source order, exactly the declared functions, methods, types,
  constants and variables that are not blank and whose positions lie in the file, methods under
  the name \<open>(receiver).name\<close>.\<close>

theorem DocumentSymbols_names:
  "map ds_Name (DocumentSymbols env decls) = concat (map (symbol_names env) decls)"
  by (induction decls) (simp_all add: DocumentSymbols_def decl_symbols_names)

end
