(* ===== verification/Package_Symbols.thy ===== *)
theory Package_Symbols
  imports Document_Symbols Packages
begin

text \<open>
  The tool \<open>go_list_package_symbols\<close>: \<open>handleListPackageSymbols\<close> and the functions it uses in
  \<open>mcpbridge/core/handlers.go\<close>, and \<open>ExtractBodyText\<close> of \<open>gopls/internal/golang/llm_bridge.go\<close>.
  \<open>read_go\<close>, an argument, is what reading and parsing a file answers (\<open>None\<close> for an error, which skips
  the file).
\<close>

section \<open>Symbols of the answer\<close>

record Symbol =
  sy_Name :: string
  sy_Kind :: string
  sy_PackagePath :: string
  sy_Signature :: string
  sy_Receiver :: string
  sy_Parent :: string
  sy_FilePath :: string
  sy_Line :: nat
  sy_Doc :: string
  sy_Body :: string

definition convertSymbolKind :: "SymbolKind \<Rightarrow> string" where
  "convertSymbolKind kind =
     (case kind of
        SK_Function \<Rightarrow> ''function''
      | SK_Method \<Rightarrow> ''method''
      | SK_Struct \<Rightarrow> ''struct''
      | SK_Interface \<Rightarrow> ''interface''
      | SK_Variable \<Rightarrow> ''var''
      | SK_Constant \<Rightarrow> ''const''
      | SK_Field \<Rightarrow> ''field''
      | _ \<Rightarrow> ''type'')"

definition is_upper :: "char \<Rightarrow> bool" where
  "is_upper c \<longleftrightarrow> of_char c \<ge> (65::nat) \<and> of_char c \<le> (90::nat)"

text \<open>The name after the first \<open>).\<close> that is followed by something.\<close>

fun after_recv :: "string \<Rightarrow> string option" where
  "after_recv (c # d # e # rest) =
     (if c = CHR '')'' \<and> d = CHR ''.'' then Some (e # rest) else after_recv (d # e # rest))"
| "after_recv _ = None"

definition isExported :: "string \<Rightarrow> bool" where
  "isExported name =
     (case name of
        [] \<Rightarrow> False
      | c # _ \<Rightarrow>
          if c = CHR ''('' then (case after_recv name of Some (m # _) \<Rightarrow> is_upper m | _ \<Rightarrow> False)
          else is_upper c)"

text \<open>The text between the first opening and the first closing parenthesis, if they come in this order.\<close>

definition first_parens :: "string \<Rightarrow> (nat \<times> string) option" where
  "first_parens s =
     (case index_byte s (CHR '')'') of
        None \<Rightarrow> None
      | Some idx \<Rightarrow>
          (case index_byte s (CHR ''('') of
             None \<Rightarrow> None
           | Some startIdx \<Rightarrow>
               if startIdx < idx then Some (idx, TrimSpace (slice (startIdx + 1) idx s)) else None))"

text \<open>The receiver and the name of a method symbol.\<close>

definition method_receiver :: "string \<Rightarrow> string \<Rightarrow> string \<times> string" where
  "method_receiver name detail =
     (let receiver = (case first_parens detail of Some (_, r) \<Rightarrow> r | None \<Rightarrow> []) in
      if receiver = [] then
        (case first_parens name of
           Some (idx, r) \<Rightarrow>
             (r, if idx + 1 < length name \<and> name ! (idx + 1) = CHR ''.'' then drop (idx + 2) name else name)
         | None \<Rightarrow> (receiver, name))
      else (receiver, name))"

definition convertDocumentSymbol :: "DocumentSymbol \<Rightarrow> string \<Rightarrow> string \<Rightarrow> Symbol" where
  "convertDocumentSymbol ds filePath packagePath =
     (let (receiver, name) = (if ds_Kind ds = SK_Method then method_receiver (ds_Name ds) (ds_Detail ds) else ([], ds_Name ds)) in
      \<lparr>sy_Name = name, sy_Kind = convertSymbolKind (ds_Kind ds), sy_PackagePath = packagePath,
       sy_Signature = ds_Detail ds, sy_Receiver = receiver, sy_Parent = [], sy_FilePath = filePath,
       sy_Line = unat (Line (r_Start (ds_Range ds))), sy_Doc = [], sy_Body = []\<rparr>)"

section \<open>The text of a function body\<close>

text \<open>\<open>strings.ReplaceAll\<close> of two spaces by one, and the loop that repeats it.\<close>

fun halve_spaces :: "string \<Rightarrow> string" where
  "halve_spaces (c # d # s) =
     (if c = CHR '' '' \<and> d = CHR '' '' then c # halve_spaces s else c # halve_spaces (d # s))"
| "halve_spaces s = s"

lemma length_halve_spaces: "length (halve_spaces s) \<le> length s"
  by (induction s rule: halve_spaces.induct) auto

lemma length_halve_spaces_less: "str_contains s ''  '' \<Longrightarrow> length (halve_spaces s) < length s"
proof (induction s rule: halve_spaces.induct)
  case (1 c d s)
  show ?case
  proof (cases "c = CHR '' '' \<and> d = CHR '' ''")
    case True
    then show ?thesis using length_halve_spaces [of s] by simp
  next
    case False
    then have "\<not> has_prefix (c # d # s) ''  ''" by (auto simp: has_prefix_def)
    then have "str_contains (d # s) ''  ''" using 1(3) by (simp add: str_contains_def)
    then show ?thesis using 1(2) False by auto
  qed
qed (auto simp: str_contains_def has_prefix_def)

function collapse_spaces :: "string \<Rightarrow> string" where
  "collapse_spaces s = (if str_contains s ''  '' then collapse_spaces (halve_spaces s) else s)"
  by pat_completeness auto
termination
  by (relation "measure length") (simp_all add: length_halve_spaces_less)

declare collapse_spaces.simps [simp del]

definition clean_body :: "string \<Rightarrow> string" where
  "clean_body txt =
     collapse_spaces (map (\<lambda>c. if c = CHR 0x09 then CHR '' '' else c)
       (map (\<lambda>c. if c = NL then CHR '' '' else c) (TrimSpace txt)))"

text \<open>A parsed file; \<open>File.FileStart\<close> is the base of its token file.\<close>

record go_file =
  gf_env :: sym_env
  gf_decls :: "decl list"

definition ExtractBodyText :: "go_file \<Rightarrow> span option \<Rightarrow> string" where
  "ExtractBodyText f body =
     (case body of
        None \<Rightarrow> []
      | Some (startPos, endPos) \<Rightarrow>
          let start = startPos - tf_Base (se_tok (gf_env f)); end' = endPos - tf_Base (se_tok (gf_env f));
              content = Content (se_mapper (gf_env f))
          in if start \<ge> 0 \<and> end' \<le> int (length content) \<and> start < end'
             then clean_body (slice (nat start) (nat end') content) else [])"

section \<open>Comments and bodies by name\<close>

text \<open>The variables \<open>name\<close> and \<open>doc\<close> of one declaration and the map of comments.  They are not reset
  between the specifications of a group.\<close>

type_synonym doc_state = "string \<times> string \<times> (string \<times> string) list"

definition spec_text :: "string option \<Rightarrow> string option \<Rightarrow> string \<Rightarrow> string" where
  "spec_text specDoc declDoc doc =
     (case specDoc of Some d \<Rightarrow> d | None \<Rightarrow> (case declDoc of Some d \<Rightarrow> d | None \<Rightarrow> doc))"

definition add_const :: "string option \<Rightarrow> string option \<Rightarrow> ident \<Rightarrow> doc_state \<Rightarrow> doc_state" where
  "add_const specDoc declDoc n st =
     (case st of (name, doc, docMap) \<Rightarrow>
        if snd n = ''_'' then st
        else let doc' = spec_text specDoc declDoc doc in (snd n, doc', AList.update (snd n) doc' docMap))"

fun add_spec :: "gen_decl \<Rightarrow> spec \<Rightarrow> doc_state \<Rightarrow> doc_state" where
  "add_spec g ImportSpec st = st"
| "add_spec g (TypeSpec s n specDoc t) (name, doc, docMap) = (snd n, spec_text specDoc (gn_doc g) doc, docMap)"
| "add_spec g (ValueSpec s names specDoc t) st =
     (if gn_const g then fold (add_const specDoc (gn_doc g)) names st else st)"

definition put_nonempty :: "string \<Rightarrow> string \<Rightarrow> (string \<times> string) list \<Rightarrow> (string \<times> string) list" where
  "put_nonempty k v m = (if k \<noteq> [] \<and> v \<noteq> [] then AList.update k v m else m)"

fun add_decl :: "go_file \<Rightarrow> bool \<Rightarrow> decl \<Rightarrow> (string \<times> string) list \<times> (string \<times> string) list \<Rightarrow>
    (string \<times> string) list \<times> (string \<times> string) list" where
  "add_decl f includeBodies (FuncDecl d) (docMap, bodyMap) =
     (let name = method_name (recv_text (gf_env f) d) (snd (fn_name d)) in
      (put_nonempty name (case fn_doc d of Some t \<Rightarrow> t | None \<Rightarrow> []) docMap,
       put_nonempty name (if includeBodies then ExtractBodyText f (fn_body d) else []) bodyMap))"
| "add_decl f includeBodies (GenDecl g) (docMap, bodyMap) =
     (case fold (add_spec g) (gn_specs g) ([], [], docMap) of
        (name, doc, docMap') \<Rightarrow> (put_nonempty name doc docMap', bodyMap))"
| "add_decl f includeBodies BadDecl st = st"

section \<open>The handler\<close>

record IListPackageSymbols =
  is_PackagePath :: string
  is_IncludeDocs :: "bool option"
  is_IncludeBodies :: "bool option"
  is_Cwd :: string

record OListPackageSymbols =
  os_PackagePath :: string
  os_Symbols :: "Symbol list"
  os_TotalCount :: nat
  os_Returned :: nat
  os_Truncated :: bool
  os_Hint :: string

text \<open>A converted symbol with the comment and body that the maps have under its name.\<close>

definition add_texts :: "bool \<Rightarrow> bool \<Rightarrow> (string \<times> string) list \<times> (string \<times> string) list \<Rightarrow> string \<Rightarrow> Symbol \<Rightarrow> Symbol" where
  "add_texts includeDocs includeBodies maps name c =
     (let c1 = (if includeDocs then (case map_of (fst maps) name of Some doc \<Rightarrow> c\<lparr>sy_Doc := doc\<rparr> | None \<Rightarrow> c) else c)
      in if includeBodies then (case map_of (snd maps) name of Some body \<Rightarrow> c1\<lparr>sy_Body := body\<rparr> | None \<Rightarrow> c1) else c1)"

lemma add_texts_simps [simp]:
  "sy_Signature (add_texts d b m n c) = sy_Signature c" "sy_FilePath (add_texts d b m n c) = sy_FilePath c"
  "sy_PackagePath (add_texts d b m n c) = sy_PackagePath c"
  by (auto simp: add_texts_def Let_def split: option.splits)

lemma convertDocumentSymbol_simps [simp]:
  "sy_Signature (convertDocumentSymbol ds path pkg) = ds_Detail ds" "sy_FilePath (convertDocumentSymbol ds path pkg) = path"
  "sy_PackagePath (convertDocumentSymbol ds path pkg) = pkg"
  by (auto simp: convertDocumentSymbol_def Let_def split: prod.split)

definition file_symbols :: "bool \<Rightarrow> bool \<Rightarrow> string \<Rightarrow> string \<Rightarrow> go_file \<Rightarrow> Symbol list" where
  "file_symbols includeDocs includeBodies packagePath uri f =
     (let maps = (if includeDocs \<or> includeBodies then fold (add_decl f includeBodies) (gf_decls f) ([], []) else ([], []))
      in map (\<lambda>ds. add_texts includeDocs includeBodies maps (ds_Name ds) (convertDocumentSymbol ds uri packagePath))
           (filter (\<lambda>ds. isExported (ds_Name ds)) (DocumentSymbols (gf_env f) (gf_decls f))))"

definition symbolThreshold :: nat where
  "symbolThreshold = 200"

definition truncation_hint :: "nat \<Rightarrow> string" where
  "truncation_hint total' =
     ''Large package: '' @ itoa total' @ '' symbols found (showing first '' @ itoa symbolThreshold
     @ ''). Use go_search to find specific symbols, then go_definition for details.''"

definition package_symbols :: "(string \<Rightarrow> go_file option) \<Rightarrow> IListPackageSymbols \<Rightarrow> package \<Rightarrow> Symbol list" where
  "package_symbols read_go input mp =
     concat (map (\<lambda>uri. case read_go uri of
         None \<Rightarrow> []
       | Some f \<Rightarrow> file_symbols (is_IncludeDocs input = Some True) (is_IncludeBodies input = Some True)
                     (is_PackagePath input) uri f)
       (pk_CompiledGoFiles mp))"

definition list_package_symbols :: "(string \<Rightarrow> go_file option) \<Rightarrow> IListPackageSymbols \<Rightarrow> view \<Rightarrow>
    (string, OListPackageSymbols) outcome" where
  "list_package_symbols read_go input v =
     bind_outcome (load_graph v) (\<lambda>md.
       case get_list (g_ForPackagePath md) (is_PackagePath input) of
         [] \<Rightarrow> Err (''package not found: '' @ is_PackagePath input)
       | mp # _ \<Rightarrow>
           let symbols = package_symbols read_go input mp;
               truncated = length symbols > symbolThreshold;
               returned = (if truncated then take symbolThreshold symbols else symbols)
           in Ok \<lparr>os_PackagePath = is_PackagePath input, os_Symbols = returned, os_TotalCount = length symbols,
                  os_Returned = length returned, os_Truncated = truncated,
                  os_Hint = (if truncated then truncation_hint (length symbols) else [])\<rparr>)"

definition format_symbol :: "bool \<Rightarrow> bool \<Rightarrow> Symbol \<Rightarrow> string" where
  "format_symbol includeDocs includeBodies sm =
     ''  '' @ sy_Kind sm @ '' '' @ sy_Name sm
     @ suffix_if (sy_Signature sm \<noteq> []) ('' - '' @ sy_Signature sm)
     @ suffix_if (includeDocs \<and> sy_Doc sm \<noteq> []) ('' // '' @ shorten 80 (sy_Doc sm))
     @ suffix_if (includeBodies \<and> sy_Body sm \<noteq> []) ('' = '' @ shorten 60 (sy_Body sm)) @ [NL]"

definition formatPackageSymbols :: "OListPackageSymbols \<Rightarrow> bool \<Rightarrow> bool \<Rightarrow> string" where
  "formatPackageSymbols r includeDocs includeBodies =
     ''Package: '' @ os_PackagePath r
     @ (if includeBodies then if includeDocs then '' with docs and bodies'' else '' with bodies''
        else if includeDocs then '' with docs'' else [])
     @ '' ('' @ itoa (length (os_Symbols r)) @ '' symbols):'' @ [NL]
     @ concat (map (format_symbol includeDocs includeBodies) (os_Symbols r))"

definition handleListPackageSymbols :: "(string \<Rightarrow> (string, view) outcome) \<Rightarrow> (string \<Rightarrow> go_file option) \<Rightarrow>
    handler \<Rightarrow> IListPackageSymbols \<Rightarrow> (string, string \<times> OListPackageSymbols) outcome \<times> handler" where
  "handleListPackageSymbols new_view read_go h input =
     with_view new_view h (is_Cwd input)
       (\<lambda>v. bind_outcome (list_package_symbols read_go input v) (\<lambda>r.
          Ok (formatPackageSymbols r (is_IncludeDocs input = Some True) (is_IncludeBodies input = Some True), r)))"

section \<open>Receivers\<close>

lemma index_byte_append: "c \<notin> set xs \<Longrightarrow> index_byte (xs @ c # ys) c = Some (length xs)"
  by (induction xs) auto

lemma TrimSpace_Nil [simp]: "TrimSpace [] = []"
  by (simp add: TrimSpace_def space_prefix.simps trim_space_right.simps)

lemma first_parens_append:
  assumes "CHR ''('' \<notin> set pre" "CHR '')'' \<notin> set pre" "CHR '')'' \<notin> set ps"
  shows "first_parens (pre @ CHR ''('' # ps @ CHR '')'' # post) = Some (length pre + length ps + 1, TrimSpace ps)"
proof -
  have "index_byte (pre @ CHR ''('' # ps @ CHR '')'' # post) (CHR '')'') = Some (length pre + length ps + 1)"
    using index_byte_append [of "CHR '')''" "pre @ CHR ''('' # ps" post] assms by simp
  moreover have "index_byte (pre @ CHR ''('' # ps @ CHR '')'' # post) (CHR ''('') = Some (length pre)"
    by (rule index_byte_append) (rule assms(1))
  ultimately show ?thesis by (simp add: first_parens_def slice_def)
qed

text \<open>For a method whose signature has parameters, \<open>convertDocumentSymbol\<close> takes the parameters for
  the receiver and leaves the receiver in the name; only for a method without parameters are
  receiver and name what the symbol says.\<close>

theorem convertDocumentSymbol_method:
  assumes m: "ds_Kind ds = SK_Method" and n: "ds_Name ds = method_name (Some r) name" and r: "CHR '')'' \<notin> set r" "name \<noteq> []"
    and d: "ds_Detail ds = ''func('' @ ps @ '')'' @ res" "CHR '')'' \<notin> set ps"
  shows "sy_Receiver (convertDocumentSymbol ds path pkg) = (if TrimSpace ps = [] then TrimSpace r else TrimSpace ps)
    \<and> sy_Name (convertDocumentSymbol ds path pkg) = (if TrimSpace ps = [] then name else method_name (Some r) name)"
proof -
  have 1: "first_parens (ds_Detail ds) = Some (length ps + 5, TrimSpace ps)"
    using first_parens_append [of "''func''" ps res] d by simp
  have 2: "first_parens (ds_Name ds) = Some (length r + 1, TrimSpace r)"
    using first_parens_append [of "[]" r "''.'' @ name"] n r(1) by (simp add: method_name_def)
  have "ds_Name ds ! (length r + 2) = CHR ''.''" "length r + 2 < length (ds_Name ds)" "drop (length r + 3) (ds_Name ds) = name"
    using n r(2) by (simp_all add: method_name_def nth_append numeral_eq_Suc)
  then show ?thesis
    using 1 2 m n by (simp add: convertDocumentSymbol_def method_receiver_def Let_def numeral_eq_Suc)
qed

definition method_symbol :: "string \<Rightarrow> DocumentSymbol" where
  "method_symbol detail = DocumentSymbol ''(*T).Run'' detail SK_Method zero_range zero_range []"

theorem convertDocumentSymbol_method_witness:
  "sy_Receiver (convertDocumentSymbol (method_symbol ''func(n int) error'') ''a.go'' ''p'') = TrimSpace ''n int''
   \<and> sy_Name (convertDocumentSymbol (method_symbol ''func(n int) error'') ''a.go'' ''p'') = ''(*T).Run''"
proof -
  have "TrimSpace ''n int'' \<noteq> []" by code_simp
  then show ?thesis
    using convertDocumentSymbol_method [of "method_symbol ''func(n int) error''" "''*T''" "''Run''" "''n int''" "'' error''" "''a.go''" "''p''"]
    by (simp add: method_symbol_def method_name_def)
qed

lemma after_recv_append: "CHR '')'' \<notin> set r \<Longrightarrow> n \<noteq> [] \<Longrightarrow> after_recv (r @ CHR '')'' # CHR ''.'' # n) = Some n"
proof (induction r)
  case Nil
  then show ?case by (cases n) simp_all
next
  case (Cons c r)
  then have c: "c \<noteq> CHR '')''" by auto
  obtain d e rest where "r @ CHR '')'' # CHR ''.'' # n = d # e # rest"
    by (cases r; cases "tl r") auto
  then show ?case using Cons c by simp
qed

text \<open>A function, type, constant or variable is exported exactly when its name starts with an ASCII
  capital letter, and a method exactly when its own name does, whatever its receiver.\<close>

theorem isExported_method_name:
  assumes "case recv of None \<Rightarrow> True | Some r \<Rightarrow> CHR '')'' \<notin> set r" "name \<noteq> []" "hd name \<noteq> CHR ''(''"
  shows "isExported (method_name recv name) = is_upper (hd name)"
proof (cases recv)
  case None
  then show ?thesis using assms(2,3) by (cases name) (simp_all add: isExported_def method_name_def)
next
  case (Some r)
  have "after_recv ((CHR ''('' # r) @ CHR '')'' # CHR ''.'' # name) = Some name"
    by (rule after_recv_append) (use assms Some in auto)
  then show ?thesis using Some assms(2) by (cases name) (simp_all add: isExported_def method_name_def)
qed

theorem isExported_method_name_witness:
  "isExported (method_name (Some ''*Tree[K, V]'') ''Insert'') = is_upper (hd ''Insert'')"
  by (rule isExported_method_name) simp_all

section \<open>Bodies\<close>

definition words :: "string \<Rightarrow> string list" where
  "words s = filter (\<lambda>w. w \<noteq> []) (split_byte (CHR '' '') s)"

lemma split_byte_Cons: "split_byte c (x # xs) = (if x = c then [] # split_byte c xs
    else (x # hd (split_byte c xs)) # tl (split_byte c xs))"
  by (cases "split_byte c xs") auto

lemma halve_spaces_words:
  "hd (split_byte (CHR '' '') (halve_spaces s)) = hd (split_byte (CHR '' '') s)
   \<and> filter (\<lambda>w. w \<noteq> []) (tl (split_byte (CHR '' '') (halve_spaces s))) =
       filter (\<lambda>w. w \<noteq> []) (tl (split_byte (CHR '' '') s))"
proof (induction s rule: halve_spaces.induct)
  case (1 c d s)
  have w: "filter (\<lambda>w. w \<noteq> []) xs = (if hd xs \<noteq> [] then [hd xs] else []) @ filter (\<lambda>w. w \<noteq> []) (tl xs)"
    if "xs \<noteq> []" for xs :: "string list"
    using that by (cases xs) auto
  show ?case
  proof (cases "c = CHR '' '' \<and> d = CHR '' ''")
    case True
    then show ?thesis using 1(1) [OF True] w [of "split_byte (CHR '' '') (halve_spaces s)"] w [of "split_byte (CHR '' '') s"]
      by simp
  next
    case False
    then show ?thesis
      using 1(2) [OF False] w [of "split_byte (CHR '' '') (halve_spaces (d # s))"] w [of "split_byte (CHR '' '') (d # s)"]
      by (simp del: split_byte.simps(2) add: split_byte_Cons [of "CHR '' ''" c] split_byte_Cons [of "CHR '' ''" "CHR '' ''"])
  qed
qed simp_all

lemma words_halve_spaces: "words (halve_spaces s) = words s"
proof -
  have w: "words t = filter (\<lambda>w. w \<noteq> []) [hd (split_byte (CHR '' '') t)] @ filter (\<lambda>w. w \<noteq> []) (tl (split_byte (CHR '' '') t))" for t
    unfolding words_def by (cases "split_byte (CHR '' '') t") simp_all
  show ?thesis unfolding w [of s] w [of "halve_spaces s"] using halve_spaces_words [of s] by simp
qed

lemma set_halve_spaces: "set (halve_spaces s) \<subseteq> set s"
  by (induction s rule: halve_spaces.induct) auto

lemma collapse_spaces_spec:
  "\<not> str_contains (collapse_spaces s) ''  '' \<and> words (collapse_spaces s) = words s \<and> set (collapse_spaces s) \<subseteq> set s"
proof (induction s rule: collapse_spaces.induct)
  case (1 s)
  then show ?case
    using words_halve_spaces [of s] set_halve_spaces [of s] by (subst (1 2 3) collapse_spaces.simps) auto
qed

text \<open>The loop that cleans the text of a body ends; the result has no newline, no tab and no two
  spaces in a row, and the same words, where newlines and tabs separate words too.\<close>

theorem clean_body_spec:
  "\<not> str_contains (clean_body txt) ''  '' \<and> NL \<notin> set (clean_body txt) \<and> CHR 0x09 \<notin> set (clean_body txt)
   \<and> words (clean_body txt) = words (map (\<lambda>c. if c = NL \<or> c = CHR 0x09 then CHR '' '' else c) (TrimSpace txt))"
proof -
  have m: "map (\<lambda>c. if c = CHR 0x09 then CHR '' '' else c) (map (\<lambda>c. if c = NL then CHR '' '' else c) s) =
      map (\<lambda>c. if c = NL \<or> c = CHR 0x09 then CHR '' '' else c) s" for s
    by simp
  show ?thesis
    unfolding clean_body_def m
    using collapse_spaces_spec [of "map (\<lambda>c. if c = NL \<or> c = CHR 0x09 then CHR '' '' else c) (TrimSpace txt)"]
    by (auto split: if_splits)
qed

definition last_comment :: "spec list \<Rightarrow> string" where
  "last_comment ts = (case rev (List.map_filter sp_doc ts) of d # _ \<Rightarrow> d | [] \<Rightarrow> [])"

definition is_TypeSpec :: "spec \<Rightarrow> bool" where
  "is_TypeSpec sp = (case sp of TypeSpec _ _ _ _ \<Rightarrow> True | _ \<Rightarrow> False)"

lemma last_comment_snoc:
  "last_comment (ts @ [sp]) = (case sp_doc sp of Some d \<Rightarrow> d | None \<Rightarrow> last_comment ts)"
  by (cases "sp_doc sp") (simp_all add: last_comment_def List.map_filter_def)

lemma fold_type_specs:
  "\<forall>sp \<in> set ts. is_TypeSpec sp \<Longrightarrow>
     \<exists>name doc. fold (add_spec g) ts ([], [], m) = (name, doc, m) \<and> (gn_doc g = None \<longrightarrow> doc = last_comment ts)"
proof (induction ts rule: rev_induct)
  case Nil
  then show ?case by (simp add: last_comment_def List.map_filter_def)
next
  case (snoc sp ts)
  then obtain name doc where IH: "fold (add_spec g) ts ([], [], m) = (name, doc, m)"
    "gn_doc g = None \<longrightarrow> doc = last_comment ts" by auto
  obtain s n d t where "sp = TypeSpec s n d t" using snoc.prems by (cases sp) (auto simp: is_TypeSpec_def)
  then show ?case using IH by (auto simp: last_comment_snoc spec_text_def split: option.splits)
qed

text \<open>In a group of type declarations only the last type gets a comment; it is its own, or that
  of the group, or without these the last comment of a type before it, so that a type can be given
  the comment of another.\<close>

theorem type_group_comments:
  assumes g: "gn_specs g = ts @ [TypeSpec s n specDoc t]" and ts: "list_all is_TypeSpec ts"
  shows "fst (add_decl f b (GenDecl g) (docMap, bodyMap)) =
    put_nonempty (snd n)
      (case specDoc of Some d \<Rightarrow> d
       | None \<Rightarrow> (case gn_doc g of Some d \<Rightarrow> d | None \<Rightarrow> last_comment ts)) docMap"
proof -
  obtain name doc where "fold (add_spec g) ts ([], [], docMap) = (name, doc, docMap)"
    "gn_doc g = None \<longrightarrow> doc = last_comment ts"
    using fold_type_specs [of ts g docMap] ts by (auto simp: list_all_iff)
  then show ?thesis using g by (auto simp: spec_text_def split: option.splits)
qed

definition example_group :: gen_decl where
  "example_group = \<lparr>gn_const = False, gn_doc = None,
     gn_specs = [TypeSpec (1, 2) ((1, 2), ''A'') (Some ''about A'') (OtherExpr (1, 2)),
                 TypeSpec (3, 4) ((3, 4), ''B'') None (OtherExpr (3, 4))]\<rparr>"

definition example_file :: go_file where
  "example_file = \<lparr>gf_env = \<lparr>se_mapper = NewMapper ''a.go'' ''ABC DEF'', se_tok = \<lparr>tf_Base = 1, tf_Size = 7\<rparr>, se_ExprString = (\<lambda>_. ''int'')\<rparr>,
     gf_decls = [GenDecl example_group]\<rparr>"

theorem type_group_comments_witness:
  "fst (add_decl example_file True (GenDecl example_group) ([], [])) = [(''B'', ''about A'')]"
  using type_group_comments [of example_group "[TypeSpec (1, 2) ((1, 2), ''A'') (Some ''about A'') (OtherExpr (1, 2))]"
      "(3, 4)" "((3, 4), ''B'')" None "OtherExpr (3, 4)" example_file True "[]" "[]"]
  by (simp add: example_group_def is_TypeSpec_def last_comment_def List.map_filter_def put_nonempty_def)

section \<open>The answer\<close>

text \<open>Claim C24: for a package that exists \<open>go_list_package_symbols\<close> answers with the first 200 of its exported
  symbols and the true total, and says that it truncated, with a hint, exactly when there are
  more; every symbol listed is an exported symbol of one of the package's files that can be read.\<close>

theorem list_package_symbols_spec:
  assumes "vw_Graph v = Ok md" "get_list (g_ForPackagePath md) (is_PackagePath input) = mp # mps"
  shows "\<exists>r. list_package_symbols read_go input v = Ok r
    \<and> os_Symbols r = take 200 (package_symbols read_go input mp)
    \<and> os_TotalCount r = length (package_symbols read_go input mp) \<and> os_Returned r = length (os_Symbols r)
    \<and> (os_Truncated r \<longleftrightarrow> os_Returned r < os_TotalCount r) \<and> (os_Hint r \<noteq> [] \<longleftrightarrow> os_Truncated r)
    \<and> (\<forall>s \<in> set (os_Symbols r). \<exists>uri f ds. uri \<in> set (pk_CompiledGoFiles mp) \<and> read_go uri = Some f
         \<and> ds \<in> set (DocumentSymbols (gf_env f) (gf_decls f)) \<and> isExported (ds_Name ds)
         \<and> sy_Signature s = ds_Detail ds \<and> sy_FilePath s = uri \<and> sy_PackagePath s = is_PackagePath input)"
proof -
  let ?all = "package_symbols read_go input mp"
  have origin: "\<exists>uri f ds. uri \<in> set (pk_CompiledGoFiles mp) \<and> read_go uri = Some f
         \<and> ds \<in> set (DocumentSymbols (gf_env f) (gf_decls f)) \<and> isExported (ds_Name ds)
         \<and> sy_Signature s = ds_Detail ds \<and> sy_FilePath s = uri \<and> sy_PackagePath s = is_PackagePath input"
    if mem: "s \<in> set ?all" for s
  proof -
    let ?syms = "file_symbols (is_IncludeDocs input = Some True) (is_IncludeBodies input = Some True) (is_PackagePath input)"
    obtain uri where "uri \<in> set (pk_CompiledGoFiles mp)" "s \<in> set (case read_go uri of None \<Rightarrow> [] | Some f \<Rightarrow> ?syms uri f)"
      using mem unfolding package_symbols_def set_concat set_map by blast
    then obtain f where u: "uri \<in> set (pk_CompiledGoFiles mp)" "read_go uri = Some f" "s \<in> set (?syms uri f)"
      by (cases "read_go uri") auto
    from u(3) obtain ds where "ds \<in> set (DocumentSymbols (gf_env f) (gf_decls f))" "isExported (ds_Name ds)"
      "sy_Signature s = ds_Detail ds" "sy_FilePath s = uri" "sy_PackagePath s = is_PackagePath input"
      unfolding file_symbols_def Let_def by auto
    then show ?thesis using u(1,2) by blast
  qed
  have hint: "truncation_hint n \<noteq> []" for n by (simp add: truncation_hint_def)
  let ?trunc = "length ?all > symbolThreshold"
  let ?ret = "if ?trunc then take symbolThreshold ?all else ?all"
  let ?r = "\<lparr>os_PackagePath = is_PackagePath input, os_Symbols = ?ret, os_TotalCount = length ?all,
      os_Returned = length ?ret, os_Truncated = ?trunc, os_Hint = (if ?trunc then truncation_hint (length ?all) else [])\<rparr>"
  have r: "list_package_symbols read_go input v = Ok ?r"
    by (simp add: list_package_symbols_def load_graph_def assms Let_def)
  have ret: "?ret = take 200 ?all" by (simp add: symbolThreshold_def)
  show ?thesis
  proof (rule exI [of _ ?r], intro conjI)
    show "\<forall>s \<in> set (os_Symbols ?r). \<exists>uri f ds. uri \<in> set (pk_CompiledGoFiles mp) \<and> read_go uri = Some f
         \<and> ds \<in> set (DocumentSymbols (gf_env f) (gf_decls f)) \<and> isExported (ds_Name ds)
         \<and> sy_Signature s = ds_Detail ds \<and> sy_FilePath s = uri \<and> sy_PackagePath s = is_PackagePath input"
      using origin by (auto simp: ret dest: in_set_takeD)
  qed (use r ret hint in \<open>auto simp: symbolThreshold_def\<close>)
qed

theorem list_package_symbols_spec_witness:
  "\<exists>r. list_package_symbols (\<lambda>_. Some example_file) \<lparr>is_PackagePath = ''b'', is_IncludeDocs = Some True, is_IncludeBodies = None, is_Cwd = []\<rparr>
        (example_view\<lparr>vw_Graph := Ok dep_example\<rparr>) = Ok r
     \<and> os_TotalCount r = 2 \<and> os_Returned r = 2 \<and> \<not> os_Truncated r \<and> map sy_Doc (os_Symbols r) = [[], ''about A'']"
proof -
  let ?i = "\<lparr>is_PackagePath = ''b'', is_IncludeDocs = Some True, is_IncludeBodies = None, is_Cwd = []\<rparr>"
  let ?v = "example_view\<lparr>vw_Graph := Ok dep_example\<rparr>" and ?read = "\<lambda>_. Some example_file"
  have g: "vw_Graph ?v = Ok dep_example" by simp
  have p: "get_list (g_ForPackagePath dep_example) (is_PackagePath ?i) = [example_package ''b'' [''c'']]" by code_simp
  have c: "(case list_package_symbols ?read ?i ?v of Ok r \<Rightarrow> (length (os_Symbols r), map sy_Doc (os_Symbols r)) | _ \<Rightarrow> (0, [])) =
      (2, [[], ''about A''])" by code_simp
  obtain r where r: "list_package_symbols ?read ?i ?v = Ok r" "os_Returned r = length (os_Symbols r)"
    "os_Truncated r \<longleftrightarrow> os_Returned r < os_TotalCount r" "os_TotalCount r = length (package_symbols ?read ?i (example_package ''b'' [''c'']))"
    using list_package_symbols_spec [OF g p, of ?read] by (elim exE conjE) (rule that)
  have "length (package_symbols ?read ?i (example_package ''b'' [''c''])) = 2" by code_simp
  then show ?thesis using r c by simp
qed

end
