(* ===== verification/Workspace_Analyzer.thy ===== *)
theory Workspace_Analyzer
  imports Get_Started Utf8
begin

text \<open>
  The tool \<open>analyze_workspace\<close>: \<open>mcpbridge/core/workspace_analyzer.go\<close>.  The clock is left out;
  the number of packages that the workspace indexes is an argument, and so is \<open>rng\<close>, a permutation,
  the order in which \<open>range\<close> visits the map from modules to their packages.
\<close>

section \<open>Discovery\<close>

record WorkspacePackage =
  wp_Path :: string
  wp_Name :: string
  wp_Dir :: string
  wp_IsMain :: bool
  wp_ModulePath :: string
  wp_HasTests :: bool

record EntryPoint =
  ep_Type :: string
  ep_File :: string
  ep_Description :: string

record Module =
  am_Path :: string
  am_Version :: string
  am_Main :: bool
  am_Indirect :: bool
  am_Dir :: string
  am_GoMod :: string

definition workspace_package :: "package \<Rightarrow> WorkspacePackage" where
  "workspace_package mp =
     \<lparr>wp_Path = pk_PkgPath mp, wp_Name = pk_Name mp,
      wp_Dir = (case pk_CompiledGoFiles mp of [] \<Rightarrow> [] | f # _ \<Rightarrow> filepath_Dir f),
      wp_IsMain = (pk_Name mp = ''main''), wp_ModulePath = getModulePath mp,
      wp_HasTests = list_ex (\<lambda>uri. has_suffix uri ''_test.go'') (pk_CompiledGoFiles mp)\<rparr>"

definition in_workspace :: "string \<Rightarrow> package \<Rightarrow> bool" where
  "in_workspace rootPath mp \<longleftrightarrow> list_ex (\<lambda>uri. has_prefix uri rootPath) (pk_CompiledGoFiles mp)"

definition discoverPackages :: "view \<Rightarrow> graph \<Rightarrow> WorkspacePackage list" where
  "discoverPackages v md = map workspace_package (filter (in_workspace (vw_Root v)) (best_packages md))"

definition is_api_path :: "string \<Rightarrow> bool" where
  "is_api_path p \<longleftrightarrow> str_contains p ''/api/'' \<or> str_contains p ''/http/'' \<or> str_contains p ''/server/''
     \<or> str_contains p ''/handler/'' \<or> has_suffix p ''/api''"

definition findEntryPoints :: "WorkspacePackage list \<Rightarrow> EntryPoint list" where
  "findEntryPoints packages =
     concat (map (\<lambda>p.
         (if wp_IsMain p then [\<lparr>ep_Type = ''main'', ep_File = filepath_Join (wp_Dir p) ''main.go'',
            ep_Description = ''Main package entry point ('' @ wp_Path p @ '')''\<rparr>] else [])
         @ (if wp_HasTests p then [\<lparr>ep_Type = ''test'', ep_File = filepath_Join (wp_Dir p) (wp_Name p @ ''_test.go''),
            ep_Description = ''Test file for '' @ wp_Name p @ '' package''\<rparr>] else [])) packages)
     @ map (\<lambda>p. \<lparr>ep_Type = ''api'', ep_File = filepath_Join (wp_Dir p) ''*.go'',
            ep_Description = ''API package: '' @ wp_Path p\<rparr>) (filter (\<lambda>p. is_api_path (wp_Path p)) packages)"

definition file_modules :: "string \<times> modfile option \<Rightarrow> Module list" where
  "file_modules uf =
     (case snd uf of
        None \<Rightarrow> []
      | Some f \<Rightarrow>
          (case mf_Module f of
             None \<Rightarrow> []
           | Some p \<Rightarrow>
               \<lparr>am_Path = p, am_Version = [], am_Main = True, am_Indirect = False, am_Dir = filepath_Dir (fst uf), am_GoMod = fst uf\<rparr>
               # map (\<lambda>r. \<lparr>am_Path = rq_Path r, am_Version = rq_Version r, am_Main = False, am_Indirect = rq_Indirect r,
                          am_Dir = [], am_GoMod = []\<rparr>) (mf_Require f)))"

definition getModuleDependencies :: "view \<Rightarrow> Module list" where
  "getModuleDependencies v = concat (map file_modules (vw_ModFiles v))"

section \<open>The summary\<close>

type_synonym range_order = "(string \<times> WorkspacePackage list) list \<Rightarrow> (string \<times> WorkspacePackage list) list"

definition group_by_module :: "WorkspacePackage list \<Rightarrow> (string \<times> WorkspacePackage list) list" where
  "group_by_module packages =
     fold (\<lambda>p. append_to (if wp_ModulePath p = [] then ''(unknown)'' else wp_ModulePath p) p) packages []"

definition package_line :: "WorkspacePackage \<Rightarrow> string" where
  "package_line p = ''  - '' @ wp_Path p @ '' '' @ suffix_if (wp_IsMain p) '' [main]''
     @ suffix_if (wp_HasTests p) '' [tests]'' @ [NL]"

definition module_section :: "string \<times> WorkspacePackage list \<Rightarrow> string" where
  "module_section mp = ''### Module: '' @ fst mp @ '' ('' @ itoa (length (snd mp)) @ '' packages)'' @ [NL]
     @ concat (map package_line (snd mp)) @ [NL]"

fun entry_lines :: "nat \<Rightarrow> EntryPoint list \<Rightarrow> string" where
  "entry_lines i [] = []"
| "entry_lines i (ep # eps) = itoa (i + 1) @ ''. **'' @ ep_Type ep @ ''**: '' @ ep_Description ep @ [NL]
     @ ''   File: '' @ ep_File ep @ [NL, NL] @ entry_lines (Suc i) eps"

text \<open>The loop over the dependencies stops after printing one when \<open>shown\<close> reaches \<open>maxDeps\<close>.\<close>

fun dependency_lines :: "nat \<Rightarrow> nat \<Rightarrow> Module list \<Rightarrow> string" where
  "dependency_lines maxDeps shown [] = []"
| "dependency_lines maxDeps shown (m # ms) =
     (if am_Main m then dependency_lines maxDeps shown ms
      else ''  - '' @ am_Path m @ ''@'' @ am_Version m @ suffix_if (am_Indirect m) '' (indirect)'' @ [NL]
           @ (if Suc shown \<ge> maxDeps then [] else dependency_lines maxDeps (Suc shown) ms))"

definition buildWorkspaceSummary :: "range_order \<Rightarrow> view \<Rightarrow> string \<Rightarrow> WorkspacePackage list \<Rightarrow> EntryPoint list \<Rightarrow>
    Module list \<Rightarrow> nat \<Rightarrow> string" where
  "buildWorkspaceSummary rng v projectType packages entryPoints dependencies maxDeps =
     (let depCount = length (filter (\<lambda>m. \<not> am_Main m) dependencies) in
      ''# Workspace Analysis'' @ [NL, NL] @ ''**Project Type:** '' @ projectType @ [NL]
      @ ''**Root:** '' @ vw_Root v @ [NL, NL] @ ''## Packages ('' @ itoa (length packages) @ '' total)'' @ [NL, NL]
      @ concat (map module_section (rng (group_by_module packages)))
      @ suffix_if (entryPoints \<noteq> [])
          (''## Suggested Entry Points ('' @ itoa (length entryPoints) @ '')'' @ [NL, NL] @ entry_lines 0 entryPoints)
      @ suffix_if (dependencies \<noteq> [])
          (''## Dependencies ('' @ itoa depCount @ '' modules''
           @ suffix_if (depCount > maxDeps) ('', showing first '' @ itoa maxDeps) @ '')'' @ [NL, NL]
           @ suffix_if (depCount > 0)
               (''**Direct dependencies:**'' @ [NL] @ dependency_lines maxDeps 0 dependencies
                @ suffix_if (depCount > maxDeps)
                    (''  ... and '' @ itoa (depCount - maxDeps) @ '' more (use list_modules to see all)'' @ [NL]))
           @ [NL]))"

section \<open>The handler\<close>

function RuneCount :: "string \<Rightarrow> nat" where
  "RuneCount s = (if s = [] then 0 else Suc (RuneCount (drop (snd (DecodeRune s)) s)))"
  by pat_completeness auto
termination
  by (relation "measure length") (auto simp: DecodeRune_size)

declare RuneCount.simps [simp del]

definition reduce_limit :: "nat \<Rightarrow> nat \<Rightarrow> nat" where
  "reduce_limit least n = (if n > least then n * 3 div 4 else n)"

text \<open>The loop that lowers the limits for packages, entry points and dependencies; \<open>estimate\<close> is the
  number of characters of the summary under given limits.\<close>

function fit_limits :: "(nat \<times> nat \<times> nat \<Rightarrow> nat) \<Rightarrow> int \<Rightarrow> nat \<times> nat \<times> nat \<Rightarrow> nat \<Rightarrow> nat \<times> nat \<times> nat" where
  "fit_limits estimate targetSize (maxPackages, maxEntryPoints, maxDeps) est =
     (if int est > targetSize \<and> (maxPackages > 10 \<or> maxEntryPoints > 10)
      then let l = (reduce_limit 10 maxPackages, reduce_limit 10 maxEntryPoints, reduce_limit 5 maxDeps)
           in fit_limits estimate targetSize l (estimate l)
      else (maxPackages, maxEntryPoints, maxDeps))"
  by pat_completeness auto
termination
  by (relation "measure (\<lambda>(_, _, (p, e, _), _). p + e)") (auto simp: reduce_limit_def)

declare fit_limits.simps [simp del]

text \<open>\<open>(maxBytes * 80) / 100\<close>; Go's division rounds towards zero.\<close>

definition target_size :: "int \<Rightarrow> int" where
  "target_size maxBytes =
     (let n = (if maxBytes = 0 then 32 * 1024 else maxBytes) * 80 in if n \<ge> 0 then n div 100 else - (- n div 100))"

record OAnalyzeWorkspaceResult =
  ow_Packages :: "WorkspacePackage list"
  ow_EntryPoints :: "EntryPoint list"
  ow_Dependencies :: "Module list"
  ow_ProjectType :: string
  ow_TotalPackages :: nat
  ow_TotalEntryPoints :: nat
  ow_TotalDependencies :: nat
  ow_Indexed :: nat
  ow_CacheStatus :: string
  ow_Truncated :: bool
  ow_Hint :: string
  ow_Summary :: string

definition BULLET :: string where
  "BULLET = [CHR 0xE2, CHR 0x80, CHR 0xA2, CHR '' '']"

definition analysis_result :: "range_order \<Rightarrow> int \<Rightarrow> nat \<Rightarrow> view \<Rightarrow> graph \<Rightarrow> OAnalyzeWorkspaceResult" where
  "analysis_result rng maxBytes indexed v md =
     (let projectType = determineProjectType v;
          allPackages = discoverPackages v md;
          allEntryPoints = findEntryPoints allPackages;
          deps = getModuleDependencies v;
          summary = (\<lambda>ps eps maxDeps. buildWorkspaceSummary rng v projectType ps eps deps maxDeps);
          (maxPackages, maxEntryPoints, maxDeps) =
            fit_limits (\<lambda>(p, e, d). RuneCount (summary (take p allPackages) (take e allEntryPoints) d))
              (target_size maxBytes) (50, 20, 15) (length (summary allPackages allEntryPoints 15));
          packages = (if length allPackages > maxPackages then take maxPackages allPackages else allPackages);
          entryPoints = (if length allEntryPoints > maxEntryPoints then take maxEntryPoints allEntryPoints else allEntryPoints);
          hints = (if length allPackages > maxPackages
                   then [BULLET @ ''Showing '' @ itoa maxPackages @ '' of '' @ itoa (length allPackages)
                         @ '' packages (use list_module_packages for full list)''] else [])
                @ (if length allEntryPoints > maxEntryPoints
                   then [BULLET @ ''Showing '' @ itoa maxEntryPoints @ '' of '' @ itoa (length allEntryPoints)
                         @ '' entry points (use get_started for full exploration)''] else [])
      in \<lparr>ow_Packages = packages, ow_EntryPoints = entryPoints, ow_Dependencies = deps, ow_ProjectType = projectType,
          ow_TotalPackages = length allPackages, ow_TotalEntryPoints = length allEntryPoints,
          ow_TotalDependencies = length deps, ow_Indexed = indexed,
          ow_CacheStatus = (if indexed > 0 then ''full'' else ''empty''),
          ow_Truncated = (hints \<noteq> []),
          ow_Hint = (if hints \<noteq> [] then ''Response truncated to fit within size limits:'' @ [NL] @ str_join [NL] hints else []),
          ow_Summary = summary packages entryPoints maxDeps\<rparr>)"

definition handleAnalyzeWorkspace :: "(string \<Rightarrow> (string, view) outcome) \<Rightarrow> range_order \<Rightarrow> int \<Rightarrow> nat \<Rightarrow> handler \<Rightarrow> string \<Rightarrow>
    (string, string \<times> OAnalyzeWorkspaceResult) outcome \<times> handler" where
  "handleAnalyzeWorkspace new_view rng maxBytes indexed h cwd =
     (case getView new_view h cwd of
        (r, h') \<Rightarrow>
          (bind_outcome r (\<lambda>v.
             case vw_Snapshot v of
               Err e \<Rightarrow> Err (''failed to get snapshot: '' @ e)
             | Panic \<Rightarrow> Panic
             | Ok _ \<Rightarrow>
                 (case vw_Graph v of
                    Err e \<Rightarrow> Err (''failed to discover packages: '' @ e)
                  | Panic \<Rightarrow> Panic
                  | Ok md \<Rightarrow>
                      let result = analysis_result rng maxBytes indexed v md in Ok (ow_Summary result, result))), h'))"

section \<open>Limits\<close>

text \<open>The limits that the loop can try, one after the other; it stops at the last one whatever the size.\<close>

lemma fit_limits_steps:
  "fit_limits estimate t (50, 20, 15) est =
     (if int est \<le> t then (50, 20, 15)
      else case List.find (\<lambda>l. int (estimate l) \<le> t)
          [(37, 15, 11), (27, 11, 8), (20, 8, 6), (15, 8, 4), (11, 8, 4)] of
        Some l \<Rightarrow> l | None \<Rightarrow> (8, 8, 4))"
  by (simp add: fit_limits.simps reduce_limit_def Let_def)

text \<open>Rounding towards zero does not matter to the length of a summary, which is never empty.\<close>

lemma target_size_fits:
  "n > 0 \<Longrightarrow> int n \<le> target_size maxBytes \<longleftrightarrow> 100 * int n \<le> (if maxBytes = 0 then 32768 else maxBytes) * 80"
proof -
  define m where "m = (if maxBytes = 0 then 32768 else maxBytes) * 80"
  assume n: "n > 0"
  have "target_size maxBytes = (if m \<ge> 0 then m div 100 else - (- m div 100))"
    by (simp add: target_size_def m_def)
  moreover have "int n \<le> m div 100 \<longleftrightarrow> 100 * int n \<le> m" by linarith
  moreover have "0 \<le> - m div 100" if "m < 0" using that by simp
  ultimately have "int n \<le> target_size maxBytes \<longleftrightarrow> 100 * int n \<le> m" using n by (cases "m \<ge> 0") auto
  then show ?thesis by (simp only: m_def)
qed

lemma summary_nonempty:
  "0 < RuneCount (buildWorkspaceSummary rng v t ps es ds d)"
  "0 < length (buildWorkspaceSummary rng v t ps es ds d)"
  by (simp_all add: buildWorkspaceSummary_def Let_def RuneCount.simps [of "_ # _"])

lemmas summary_fits = summary_nonempty [THEN target_size_fits]

text \<open>Claim C21: \<open>analyze_workspace\<close> ends and returns the first \<open>k\<close> packages and \<open>j\<close> entry points of those it
  found, with the totals of what it found.  The limits are 50, 20 and 15 dependencies when the
  summary of everything found fits 80 percent of the size limit (32 KB if none is set), counted
  in bytes; else they are the first of five smaller ones under which the summary fits, counted in
  characters, and eight, eight and four when none does.  The text is the summary of what is
  returned.  A truncation is reported, with a hint, exactly when something is missing.\<close>

theorem analysis_result_spec:
  "\<exists>k j d. let r = analysis_result rng maxBytes indexed v md; ps = discoverPackages v md; es = findEntryPoints ps;
       text' = (\<lambda>ps es. buildWorkspaceSummary rng v (determineProjectType v) ps es (getModuleDependencies v));
       target = (if maxBytes = 0 then 32768 else maxBytes) * 80
     in (k, j, d) =
        (if 100 * int (length (text' ps es 15)) \<le> target then (50, 20, 15)
         else case List.find (\<lambda>(k, j, d). 100 * int (RuneCount (text' (take k ps) (take j es) d)) \<le> target)
             [(37, 15, 11), (27, 11, 8), (20, 8, 6), (15, 8, 4), (11, 8, 4)] of
           Some l \<Rightarrow> l | None \<Rightarrow> (8, 8, 4))
      \<and> ow_Packages r = take k ps \<and> ow_EntryPoints r = take j es \<and> ow_Summary r = text' (take k ps) (take j es) d
      \<and> ow_TotalPackages r = length ps \<and> ow_TotalEntryPoints r = length es
      \<and> (ow_Truncated r \<longleftrightarrow> length ps > k \<or> length es > j) \<and> (ow_Hint r \<noteq> [] \<longleftrightarrow> ow_Truncated r)"
proof -
  let ?ps = "discoverPackages v md" and ?es = "findEntryPoints (discoverPackages v md)" and ?ds = "getModuleDependencies v"
  let ?text = "\<lambda>ps es d. buildWorkspaceSummary rng v (determineProjectType v) ps es ?ds d"
  obtain k j d where f: "fit_limits (\<lambda>(p, e, d). RuneCount (?text (take p ?ps) (take e ?es) d))
      (target_size maxBytes) (50, 20, 15) (length (?text ?ps ?es 15)) = (k, j, d)" by (metis prod_cases3)
  have kjd: "(k, j, d) =
      (if 100 * int (length (?text ?ps ?es 15)) \<le> (if maxBytes = 0 then 32768 else maxBytes) * 80 then (50, 20, 15)
       else case List.find (\<lambda>(k, j, d). 100 * int (RuneCount (?text (take k ?ps) (take j ?es) d))
             \<le> (if maxBytes = 0 then 32768 else maxBytes) * 80)
           [(37, 15, 11), (27, 11, 8), (20, 8, 6), (15, 8, 4), (11, 8, 4)] of
         Some l \<Rightarrow> l | None \<Rightarrow> (8, 8, 4))"
    unfolding f [symmetric] fit_limits_steps by (simp only: case_prod_unfold summary_fits)
  let ?r = "analysis_result rng maxBytes indexed v md"
  define hints where "hints =
      (if length ?ps > k then [BULLET @ ''Showing '' @ itoa k @ '' of '' @ itoa (length ?ps)
         @ '' packages (use list_module_packages for full list)''] else [])
      @ (if length ?es > j then [BULLET @ ''Showing '' @ itoa j @ '' of '' @ itoa (length ?es)
         @ '' entry points (use get_started for full exploration)''] else [])"
  have r: "ow_Packages ?r = (if length ?ps > k then take k ?ps else ?ps)"
    "ow_EntryPoints ?r = (if length ?es > j then take j ?es else ?es)"
    "ow_Summary ?r = ?text (if length ?ps > k then take k ?ps else ?ps) (if length ?es > j then take j ?es else ?es) d"
    "ow_TotalPackages ?r = length ?ps" "ow_TotalEntryPoints ?r = length ?es" "ow_Truncated ?r \<longleftrightarrow> hints \<noteq> []"
    "ow_Hint ?r = (if hints \<noteq> [] then ''Response truncated to fit within size limits:'' @ [NL] @ str_join [NL] hints else [])"
    unfolding analysis_result_def Let_def f prod.case OAnalyzeWorkspaceResult.simps hints_def by (rule refl)+
  have cut: "(if length xs > n then take n xs else xs) = take n xs" for xs :: "'x list" and n by simp
  have h: "hints \<noteq> [] \<longleftrightarrow> length ?ps > k \<or> length ?es > j" by (simp add: hints_def)
  have ht: "ow_Hint ?r \<noteq> [] \<longleftrightarrow> hints \<noteq> []" unfolding r(7) by simp
  show ?thesis
    using kjd unfolding Let_def r(1-6) cut ht h
    by (intro exI [of _ k] exI [of _ j] exI [of _ d] conjI) (assumption | rule refl)+
qed

text \<open>Nine main packages under a limit that no summary fits: eight of each are returned.\<close>

definition analysis_example :: graph where
  "analysis_example = newGraph (map (\<lambda>i. (i, (example_package i [])\<lparr>pk_Name := ''main'',
     pk_CompiledGoFiles := [''/src/a/'' @ i @ ''.go'']\<rparr>)) [''a'', ''b'', ''c'', ''d'', ''e'', ''f'', ''g'', ''h'', ''i''])"

theorem analysis_result_spec_witness:
  "let r = analysis_result (\<lambda>l. l) 1 0 example_view analysis_example in
     length (ow_Packages r) = 8 \<and> length (ow_EntryPoints r) = 8 \<and> ow_TotalPackages r = 9 \<and> ow_Truncated r \<and> ow_Hint r \<noteq> []"
proof -
  have n: "length (discoverPackages example_view analysis_example) = 9"
    "length (findEntryPoints (discoverPackages example_view analysis_example)) = 9"
    by code_simp+
  have long: "\<not> 100 * int (RuneCount (buildWorkspaceSummary rng v t ps es ds d)) \<le> 80"
    "\<not> 100 * int (length (buildWorkspaceSummary rng v t ps es ds d)) \<le> 80" for rng v t ps es ds d
    using summary_nonempty [of rng v t ps es ds d] by linarith+
  show ?thesis
    using analysis_result_spec [of "\<lambda>l. l" 1 0 example_view analysis_example]
    unfolding Let_def by (simp add: long n)
qed

end
