(* ===== verification/Symbol_Search.thy ===== *)
theory Symbol_Search
  imports Package_Symbols "HOL-Library.Multiset" "HOL-Library.List_Lexorder" "HOL-Library.Char_ord"
begin

text \<open>
  The tool \<open>go_search\<close>: \<open>handleGoSearch\<close> and the functions below it in
  \<open>mcpbridge/core/gopls_wrappers.go\<close>, and the rules for ignored files in \<open>cache/view.go\<close>.  The files under
  the root of the view are listed, parsed by a pool of goroutines, and their declarations matched against
  the query.  The pool is a transition relation: any worker may move next, and the request may be
  cancelled at any time.
\<close>

section \<open>The files of the workspace\<close>

text \<open>What \<open>os.Lstat\<close> and reading a directory answer: \<open>WUnreadable\<close> is a directory whose names cannot be
  read, \<open>WMissing\<close> an entry for which \<open>os.Lstat\<close> fails.\<close>

datatype walk_tree = WFile | WSymlink | WDir "(string \<times> walk_tree) list" | WUnreadable | WMissing

text \<open>\<open>filepath.Walk\<close> with the function of \<open>collectGoFilesFromFS\<close>, which always returns nil.\<close>

fun walk_go :: "string \<Rightarrow> walk_tree \<Rightarrow> string list" where
  "walk_go path WFile = (if filepath_Ext path = ''.go'' then [path] else [])"
| "walk_go path WSymlink = []"
| "walk_go path (WDir entries) = concat (map (\<lambda>(name, t). walk_go (filepath_Join path name) t) entries)"
| "walk_go path WUnreadable = []"
| "walk_go path WMissing = []"

definition collectGoFilesFromFS :: "string \<Rightarrow> walk_tree \<Rightarrow> string list" where
  "collectGoFilesFromFS rootPath t = remdups (walk_go rootPath t)"

definition checkIgnored :: "string \<Rightarrow> bool" where
  "checkIgnored rest =
     list_ex (\<lambda>component. component \<noteq> [] \<and> (hd component = CHR ''.'' \<or> hd component = CHR ''_'' \<or> component = ''testdata''))
       (split_byte SLASH rest)"

definition newIgnoreFilter :: "string list \<Rightarrow> string list" where
  "newIgnoreFilter dirs = map (\<lambda>d. filepath_Clean d @ [SLASH]) dirs"

definition ignored :: "string list \<Rightarrow> string \<Rightarrow> bool" where
  "ignored roots filename =
     list_ex (\<lambda>prefix. has_prefix filename prefix \<and> checkIgnored (drop (length prefix) filename)) roots"

definition IgnoredFile :: "string list \<Rightarrow> string \<Rightarrow> bool" where
  "IgnoredFile roots uri =
     (if \<not> str_contains uri ''.'' \<and> \<not> str_contains uri ''_'' \<and> \<not> str_contains uri ''testdata'' then False
      else ignored roots uri)"

text \<open>The map is iterated in any order: \<open>uris\<close> lists its keys.\<close>

definition filterIgnoredFiles :: "string list \<Rightarrow> string list \<Rightarrow> string list" where
  "filterIgnoredFiles roots uris = filter (\<lambda>uri. \<not> IgnoredFile roots uri) uris"

section \<open>The symbols of a file\<close>

definition determineTypeKind :: "texpr \<Rightarrow> string" where
  "determineTypeKind t =
     (case t of StructType _ _ \<Rightarrow> ''struct'' | InterfaceType _ _ \<Rightarrow> ''interface'' | _ \<Rightarrow> ''type'')"

definition top_symbol :: "string \<Rightarrow> string \<Rightarrow> string \<Rightarrow> nat \<Rightarrow> Symbol" where
  "top_symbol path name kind line =
     \<lparr>sy_Name = name, sy_Kind = kind, sy_PackagePath = [], sy_Signature = [], sy_Receiver = [], sy_Parent = [],
      sy_FilePath = path, sy_Line = line, sy_Doc = [], sy_Body = []\<rparr>"

text \<open>\<open>lin\<close> is \<open>pgf.Tok.Line\<close>: the line of a position.\<close>

definition spec_symbols :: "string \<Rightarrow> (int \<Rightarrow> nat) \<Rightarrow> bool \<Rightarrow> spec \<Rightarrow> Symbol list" where
  "spec_symbols path lin is_const s =
     (case s of
        TypeSpec sp n _ t \<Rightarrow> [top_symbol path (snd n) (determineTypeKind t) (lin (fst sp))]
      | ValueSpec _ names _ _ \<Rightarrow>
          map (\<lambda>n. top_symbol path (snd n) (if is_const then ''const'' else ''var'') (lin (fst (fst n)))) names
      | ImportSpec \<Rightarrow> [])"

definition decl_symbols :: "string \<Rightarrow> (int \<Rightarrow> nat) \<Rightarrow> decl \<Rightarrow> Symbol list" where
  "decl_symbols path lin d =
     (case d of
        FuncDecl f \<Rightarrow> [top_symbol path (snd (fn_name f)) ''function'' (lin (fst (fn_span f)))]
      | GenDecl g \<Rightarrow> concat (map (spec_symbols path lin (gn_const g)) (gn_specs g))
      | BadDecl \<Rightarrow> [])"

definition extractTopLevelSymbols :: "string \<Rightarrow> (int \<Rightarrow> nat) \<Rightarrow> decl list \<Rightarrow> Symbol list" where
  "extractTopLevelSymbols path lin decls = concat (map (decl_symbols path lin) decls)"

section \<open>The pool of workers\<close>

text \<open>\<open>parse\<close> is what reading and parsing a file gives, as its symbols, or \<open>None\<close> for an error.  The results
  are those sent on the buffered channel, in order.\<close>

datatype worker = Waiting | Working string | Stopped

datatype pool = Pool (po_uris: "string list") (po_workers: "worker list") (po_results: "Symbol list list") (po_cancelled: bool)

definition sent :: "'a option \<Rightarrow> 'a list" where
  "sent r = (case r of None \<Rightarrow> [] | Some x \<Rightarrow> [x])"

inductive pool_step :: "(string \<Rightarrow> Symbol list option) \<Rightarrow> pool \<Rightarrow> pool \<Rightarrow> bool" for parse where
  receive: "pool_step parse (Pool (u # us) (ws @ Waiting # ws') rs False) (Pool us (ws @ Working u # ws') rs False)"
| leave: "pool_step parse (Pool (u # us) (ws @ Waiting # ws') rs True) (Pool us (ws @ Stopped # ws') rs True)"
| finish: "pool_step parse (Pool us (ws @ Working u # ws') rs c) (Pool us (ws @ Waiting # ws') (rs @ sent (parse u)) c)"
| fail: "pool_step parse (Pool us (ws @ Working u # ws') rs True) (Pool us (ws @ Waiting # ws') rs True)"
| stop: "pool_step parse (Pool [] (ws @ Waiting # ws') rs c) (Pool [] (ws @ Stopped # ws') rs c)"
| cancel: "pool_step parse (Pool us ws rs False) (Pool us ws rs True)"

inductive_cases pool_stepE: "pool_step parse p q"

definition numWorkers :: "nat \<Rightarrow> nat" where
  "numWorkers numCPU = (if numCPU > 8 then 8 else numCPU)"

definition pool_start :: "nat \<Rightarrow> string list \<Rightarrow> pool" where
  "pool_start numCPU uris = Pool uris (replicate (numWorkers numCPU) Waiting) [] False"

definition pool_done :: "pool \<Rightarrow> bool" where
  "pool_done p \<longleftrightarrow> list_all (\<lambda>w. w = Stopped) (po_workers p)"

text \<open>\<open>extractSymbolsFromFiles\<close>: what may be returned when all workers have stopped and the channel is
  closed.\<close>

definition extracts :: "(string \<Rightarrow> Symbol list option) \<Rightarrow> nat \<Rightarrow> string list \<Rightarrow> bool \<Rightarrow> Symbol list \<Rightarrow> bool" where
  "extracts parse numCPU uris cancelled syms \<longleftrightarrow>
     (\<exists>p. (pool_step parse)\<^sup>*\<^sup>* (pool_start numCPU uris) p \<and> pool_done p \<and> po_cancelled p = cancelled
        \<and> syms = concat (po_results p))"

section \<open>Matching and sorting\<close>

text \<open>\<open>strings.ToLower\<close>; \<open>uni\<close> is its answer for text that is not ASCII.\<close>

definition lower_char :: "char \<Rightarrow> char" where
  "lower_char c = (if is_upper c then char_of (of_char c + 32 :: nat) else c)"

definition ToLower :: "(string \<Rightarrow> string) \<Rightarrow> string \<Rightarrow> string" where
  "ToLower uni s = (if list_all (\<lambda>c. of_char c < (128 :: nat)) s then map lower_char s else uni s)"

definition fuzzyMatchSymbols :: "(string \<Rightarrow> string) \<Rightarrow> Symbol list \<Rightarrow> string \<Rightarrow> Symbol list" where
  "fuzzyMatchSymbols uni symbols query =
     (if query = [] then symbols
      else let q = ToLower uni query in filter (\<lambda>s. str_contains (ToLower uni (sy_Name s)) q) symbols)"

text \<open>The inner loop of \<open>sortSymbols\<close> with \<open>n = j + 1\<close>.\<close>

fun shift_key :: "Symbol list \<Rightarrow> Symbol \<Rightarrow> nat \<Rightarrow> Symbol list" where
  "shift_key symbols key 0 = symbols[0 := key]"
| "shift_key symbols key (Suc j) =
     (if sy_Name (symbols ! j) > sy_Name key then shift_key (symbols[Suc j := symbols ! j]) key j
      else symbols[Suc j := key])"

definition sortSymbols :: "Symbol list \<Rightarrow> Symbol list" where
  "sortSymbols symbols = foldl (\<lambda>xs i. shift_key xs (xs ! i) i) symbols [1..<length symbols]"

definition sortAndLimitSymbols :: "Symbol list \<Rightarrow> nat \<Rightarrow> Symbol list" where
  "sortAndLimitSymbols symbols maxResults =
     (let sorted = sortSymbols symbols in if length sorted > maxResults then take maxResults sorted else sorted)"

section \<open>The answer\<close>

definition symbol_line :: "Symbol \<Rightarrow> string" where
  "symbol_line s = ''  - '' @ sy_Name s @ '' ('' @ sy_Kind s @ '' in '' @ sy_FilePath s @ '':'' @ itoa (sy_Line s) @ '')'' @ [NL]"

definition buildSearchSummary :: "Symbol list \<Rightarrow> int \<Rightarrow> string" where
  "buildSearchSummary symbols maxResults =
     (if symbols = [] then ''No symbols found.''
      else
        (if int (length symbols) > maxResults
         then ''Found '' @ itoa (length symbols) @ '' symbol(s) (showing first '' @ itoa_int maxResults @ ''):'' @ [NL]
         else ''Found '' @ itoa (length symbols) @ '' symbol(s):'' @ [NL])
        @ concat (map symbol_line symbols)
        @ (if int (length symbols) > maxResults
           then ''... and '' @ itoa_int (int (length symbols) - maxResults) @ '' more (use max_results for more)'' @ [NL]
           else []))"

record search_env =
  sv_tree :: "string \<Rightarrow> walk_tree"
  sv_filter :: "string list"
  sv_decls :: "string \<Rightarrow> decl list option"
  sv_line :: "string \<Rightarrow> int \<Rightarrow> nat"
  sv_unicode :: "string \<Rightarrow> string"

definition parse_symbols :: "search_env \<Rightarrow> string \<Rightarrow> Symbol list option" where
  "parse_symbols env uri = map_option (extractTopLevelSymbols uri (sv_line env uri)) (sv_decls env uri)"

text \<open>The goroutines decide the order of \<open>allSymbols\<close>: \<open>extract\<close> is what \<open>extractSymbolsFromFiles\<close> returns in
  this run.\<close>

definition searchProjectFiles :: "search_env \<Rightarrow> (string list \<Rightarrow> Symbol list) \<Rightarrow> string \<Rightarrow> string \<Rightarrow> int \<Rightarrow> Symbol list" where
  "searchProjectFiles env extract root query maxResults0 =
     (let maxResults = (if maxResults0 \<le> 0 then 10 else maxResults0);
          fileURIs = collectGoFilesFromFS root (sv_tree env root);
          filteredURIs = filterIgnoredFiles (sv_filter env) fileURIs;
          symbols = extract filteredURIs;
          matched = fuzzyMatchSymbols (sv_unicode env) symbols query
      in sortAndLimitSymbols matched (nat maxResults))"

text \<open>The head of the handlers of this file: unlike \<open>getView\<close>, no directory means the first view.\<close>

definition with_snapshot :: "(string \<Rightarrow> (string, view) outcome) \<Rightarrow> handler \<Rightarrow> string \<Rightarrow>
    (view \<Rightarrow> (string, 'a) outcome) \<Rightarrow> (string, 'a) outcome \<times> handler" where
  "with_snapshot new_view h cwd k =
     (if cwd \<noteq> [] then
        (case viewForDir new_view h cwd of (r, h') \<Rightarrow> (bind_outcome r (\<lambda>v. bind_outcome (vw_Snapshot v) (\<lambda>_. k v)), h'))
      else case h_Views h of
        [] \<Rightarrow> (Err ''no active views'', h)
      | v # _ \<Rightarrow> (bind_outcome (vw_Snapshot v) (\<lambda>_. k v), h))"

record ISearchParams =
  sp_Query :: string
  sp_MaxResults :: int
  sp_Cwd :: string

text \<open>\<open>quote\<close> is the verb \<open>%q\<close>.\<close>

definition handleGoSearch :: "(string \<Rightarrow> (string, view) outcome) \<Rightarrow> (string \<Rightarrow> string) \<Rightarrow> search_env \<Rightarrow> (string list \<Rightarrow> Symbol list) \<Rightarrow>
    handler \<Rightarrow> ISearchParams \<Rightarrow> (string, string \<times> Symbol list) outcome \<times> handler" where
  "handleGoSearch new_view quote env extract h input =
     (if sp_Query input = [] then (Ok (''No symbols found - empty query'', []), h)
      else if str_contains (sp_Query input) '' '' \<or> str_contains (sp_Query input) ''.'' then
        (Err (''invalid query: go_search accepts only a single symbol name (no spaces or dots). query='' @ quote (sp_Query input)), h)
      else with_snapshot new_view h (sp_Cwd input) (\<lambda>v.
        let symbols = searchProjectFiles env extract (vw_Root v) (sp_Query input) (sp_MaxResults input);
            summary = buildSearchSummary symbols (sp_MaxResults input)
        in Ok (summary, symbols)))"

section \<open>Every run of the pool\<close>

fun in_work :: "worker \<Rightarrow> string list" where
  "in_work (Working u) = [u]"
| "in_work _ = []"

definition outcomes :: "(string \<Rightarrow> Symbol list option) \<Rightarrow> string list \<Rightarrow> Symbol multiset" where
  "outcomes parse uris = mset (concat (List.map_filter parse uris))"

lemma outcomes_simps [simp]:
  "outcomes parse [] = {#}" "outcomes parse (u # us) = mset (concat (sent (parse u))) + outcomes parse us"
  "outcomes parse (us @ us') = outcomes parse us + outcomes parse us'"
  by (simp_all add: outcomes_def List.map_filter_def sent_def split: option.split)

text \<open>What has been found, what is being parsed and what is still queued make up the whole, unless the request
  was cancelled; then something may be missing.\<close>

definition accounted :: "(string \<Rightarrow> Symbol list option) \<Rightarrow> string list \<Rightarrow> pool \<Rightarrow> bool" where
  "accounted parse uris p \<longleftrightarrow>
     (let found = mset (concat (po_results p)) + outcomes parse (concat (map in_work (po_workers p))) + outcomes parse (po_uris p)
      in found \<subseteq># outcomes parse uris
        \<and> (\<not> po_cancelled p \<longrightarrow> found = outcomes parse uris \<and> (Stopped \<in> set (po_workers p) \<longrightarrow> po_uris p = [])))"

lemma accounted_step: "pool_step parse p q \<Longrightarrow> accounted parse uris p \<Longrightarrow> accounted parse uris q"
proof (induction rule: pool_step.induct)
  case (finish us ws u ws' rs c)
  then show ?case by (simp add: accounted_def Let_def ac_simps)
next
  case (leave u us ws ws' rs)
  then show ?case by (auto simp: accounted_def Let_def intro: subset_mset.order_trans [rotated])
next
  case (fail us ws u ws' rs)
  then show ?case by (auto simp: accounted_def Let_def intro: subset_mset.order_trans [rotated])
qed (auto simp: accounted_def Let_def ac_simps)

lemma accounted_start: "accounted parse uris (pool_start n uris)"
  by (simp add: accounted_def pool_start_def outcomes_def List.map_filter_def)

lemma pool_workers: "pool_step parse p q \<Longrightarrow> length (po_workers q) = length (po_workers p)"
  by (induction rule: pool_step.induct) simp_all

lemma pool_run:
  assumes "(pool_step parse)\<^sup>*\<^sup>* (pool_start n uris) p"
  shows "accounted parse uris p \<and> length (po_workers p) = numWorkers n"
  using assms
proof (induction rule: rtranclp_induct)
  case base
  then show ?case using accounted_start by (simp add: pool_start_def)
next
  case (step p q)
  then show ?case using accounted_step pool_workers by metis
qed

lemma pool_done_work: "pool_done p \<Longrightarrow> concat (map in_work (po_workers p)) = []"
  by (auto simp: pool_done_def list_all_iff)

lemma extracts_outcomes:
  assumes "extracts parse n uris cancelled syms" "0 < n"
  shows "mset syms \<subseteq># outcomes parse uris \<and> (\<not> cancelled \<longrightarrow> mset syms = outcomes parse uris)"
proof -
  obtain p where p: "(pool_step parse)\<^sup>*\<^sup>* (pool_start n uris) p" "pool_done p" "po_cancelled p = cancelled" "syms = concat (po_results p)"
    using assms(1) unfolding extracts_def by blast
  note run = pool_run [OF p(1)]
  have "0 < length (po_workers p)" using run assms(2) by (simp add: numWorkers_def)
  then have "Stopped \<in> set (po_workers p)" using p(2) unfolding pool_done_def list_all_iff by (metis nth_mem)
  then show ?thesis using run p(3,4) pool_done_work [OF p(2)]
    by (auto simp: accounted_def Let_def intro: subset_mset.order_trans [rotated])
qed

text \<open>The pool can always move on until it is done, and every move brings the end nearer.\<close>

fun worker_rank :: "worker \<Rightarrow> nat" where
  "worker_rank Stopped = 0"
| "worker_rank Waiting = 1"
| "worker_rank (Working u) = 2"

definition pool_rank :: "pool \<Rightarrow> nat" where
  "pool_rank p = 2 * length (po_uris p) + sum_list (map worker_rank (po_workers p)) + (if po_cancelled p then 0 else 1)"

lemma pool_step_rank: "pool_step parse p q \<Longrightarrow> pool_rank q < pool_rank p"
  by (induction rule: pool_step.induct) (simp_all add: pool_rank_def)

lemma pool_progress:
  assumes "\<not> pool_done p"
  shows "\<exists>q. pool_step parse p q"
proof -
  obtain us ws rs c where p: "p = Pool us ws rs c" by (cases p)
  obtain w where w: "w \<in> set ws" "w \<noteq> Stopped" using assms unfolding p pool_done_def list_all_iff by auto
  obtain ws1 ws2 where ws: "ws = ws1 @ w # ws2" using split_list [OF w(1)] by blast
  show ?thesis
  proof (cases w)
    case (Working u)
    then show ?thesis unfolding p ws using pool_step.finish by blast
  next
    case Waiting
    then show ?thesis unfolding p ws
      using pool_step.stop pool_step.receive pool_step.leave by (cases us; cases c) metis+
  qed (use w(2) in simp)
qed

lemma pool_results_bound:
  "pool_step parse p q \<Longrightarrow> length (po_results p) + length (concat (map in_work (po_workers p))) + length (po_uris p) \<le> n
    \<Longrightarrow> length (po_results q) + length (concat (map in_work (po_workers q))) + length (po_uris q) \<le> n"
  by (induction rule: pool_step.induct) (auto simp: sent_def split: option.split)

section \<open>Sorting\<close>

lemma shift_key_split:
  "j < length xs \<Longrightarrow> \<exists>k \<le> j. shift_key xs key j = take k xs @ key # slice k j xs @ drop (Suc j) xs
     \<and> (\<forall>x \<in> set (slice k j xs). sy_Name key < sy_Name x) \<and> (k = 0 \<or> \<not> sy_Name key < sy_Name (xs ! (k - 1)))"
proof (induction xs key j rule: shift_key.induct)
  case (1 xs key)
  then show ?case by (cases xs) simp_all
next
  case (2 xs key j)
  show ?case
  proof (cases "sy_Name key < sy_Name (xs ! j)")
    case True
    let ?xs = "xs[Suc j := xs ! j]"
    obtain k where k: "k \<le> j" "shift_key ?xs key j = take k ?xs @ key # slice k j ?xs @ drop (Suc j) ?xs"
      "\<forall>x \<in> set (slice k j ?xs). sy_Name key < sy_Name x" "k = 0 \<or> \<not> sy_Name key < sy_Name (?xs ! (k - 1))"
      using 2(1) [OF True] 2(2) by (metis Suc_lessD length_list_update)
    have t: "take k ?xs = take k xs" "slice k j ?xs = slice k j xs" "k = 0 \<or> ?xs ! (k - 1) = xs ! (k - 1)"
      using k(1) by (auto simp: slice_def drop_update_swap take_update_cancel nth_list_update)
    have d: "drop (Suc j) ?xs = xs ! j # drop (Suc (Suc j)) xs"
      using 2(2) by (simp add: Cons_nth_drop_Suc [symmetric])
    have e: "slice k (Suc j) xs = slice k j xs @ [xs ! j]"
      using k(1) 2(2) by (simp add: slice_def Suc_diff_le take_Suc_conv_app_nth)
    show ?thesis
      using True k t by (intro exI [of _ k]) (auto simp: d e)
  next
    case False
    then show ?thesis using 2(2)
      by (intro exI [of _ "Suc j"]) (simp add: upd_conv_take_nth_drop)
  qed
qed

lemma sort_key_snoc:
  assumes "sort_key f xs = as @ bs" "\<forall>a \<in> set as. f a \<le> f x" "\<forall>b \<in> set bs. f x < f b"
  shows "sort_key f (xs @ [x]) = as @ x # bs"
proof (rule properties_for_sort_key)
  have "mset as + mset bs = mset xs" using assms(1) by (metis mset_append mset_sort)
  then show "mset (as @ x # bs) = mset (xs @ [x])" by (simp add: ac_simps)
  have st: "filter (\<lambda>y. f k = f y) as @ filter (\<lambda>y. f k = f y) bs = filter (\<lambda>y. f k = f y) xs" for k
    using sort_key_stable [of f "f k" xs] unfolding assms(1) by (simp add: eq_commute)
  moreover have "f k = f x \<Longrightarrow> filter (\<lambda>y. f k = f y) bs = []" for k using assms(3) by (auto simp: filter_empty_conv)
  ultimately show "filter (\<lambda>y. f k = f y) (as @ x # bs) = filter (\<lambda>y. f k = f y) (xs @ [x])" for k
    using st [of k] by (cases "f k = f x") simp_all
  have "sorted (map f (as @ bs))" by (metis assms(1) sorted_sort_key)
  then show "sorted (map f (as @ x # bs))" using assms(2,3) by (auto simp: sorted_append)
qed

lemma insertion_step:
  assumes n: "n < length ys" "length ys = length xs" "drop n ys = drop n xs" "take n ys = sort_key sy_Name (take n xs)"
  shows "length (shift_key ys (ys ! n) n) = length xs \<and> drop (Suc n) (shift_key ys (ys ! n) n) = drop (Suc n) xs
    \<and> take (Suc n) (shift_key ys (ys ! n) n) = sort_key sy_Name (take (Suc n) xs)"
proof -
  let ?key = "ys ! n"
  have key: "?key = xs ! n" using arg_cong [OF n(3), of hd] n(1,2) by (simp add: hd_drop_conv_nth)
  have tl: "drop (Suc n) ys = drop (Suc n) xs" using arg_cong [OF n(3), of tl] by (simp add: drop_Suc tl_drop)
  obtain k where k: "k \<le> n" "shift_key ys ?key n = take k ys @ ?key # slice k n ys @ drop (Suc n) ys"
    "\<forall>x \<in> set (slice k n ys). sy_Name ?key < sy_Name x" "k = 0 \<or> \<not> sy_Name ?key < sy_Name (ys ! (k - 1))"
    using shift_key_split [OF n(1), of ?key] by blast
  have split: "sort_key sy_Name (take n xs) = take k ys @ slice k n ys"
    using n(4) take_append_slice [OF k(1), of ys] by simp
  have "\<forall>a \<in> set (take k ys). sy_Name a \<le> sy_Name ?key"
  proof (cases k)
    case (Suc k')
    have t: "take k ys = take k' ys @ [ys ! k']" using n(1) k(1) Suc by (simp add: take_Suc_conv_app_nth)
    have "sorted (map sy_Name (take k ys @ slice k n ys))" using split by (metis sorted_sort_key)
    then have "\<forall>a \<in> set (take k ys). sy_Name a \<le> sy_Name (ys ! k')" unfolding t by (auto simp: sorted_append)
    then show ?thesis using k(4) Suc by (auto simp: not_less intro: order_trans)
  qed simp
  then have "sort_key sy_Name (take n xs @ [?key]) = take k ys @ ?key # slice k n ys"
    using sort_key_snoc [OF split] k(3) by blast
  moreover have "take (Suc n) xs = take n xs @ [?key]" using n(1,2) key by (simp add: take_Suc_conv_app_nth)
  moreover have "length (take k ys @ ?key # slice k n ys) = Suc n" using k(1) n(1) by simp
  ultimately show ?thesis using k(2) n(1,2) tl
    by (metis append_Cons append_assoc append_eq_conv_conj length_append length_drop le_add_diff_inverse Suc_leI)
qed

lemma sortSymbols_sort: "sortSymbols xs = sort_key sy_Name xs"
proof -
  define f where "f n = foldl (\<lambda>xs i. shift_key xs (xs ! i) i) xs [1..<n]" for n
  have "n \<le> length xs \<Longrightarrow> 0 < n \<Longrightarrow> length (f n) = length xs \<and> drop n (f n) = drop n xs
      \<and> take n (f n) = sort_key sy_Name (take n xs)" for n
  proof (induction n)
    case (Suc n)
    show ?case
    proof (cases "n = 0")
      case True
      then show ?thesis using Suc.prems by (cases xs) (simp_all add: f_def)
    next
      case False
      have "f (Suc n) = shift_key (f n) (f n ! n) n" using False by (simp add: f_def upt_Suc_append)
      then show ?thesis using insertion_step [of n "f n" xs] Suc False by simp
    qed
  qed simp
  from this [of "length xs"] have "xs \<noteq> [] \<Longrightarrow> f (length xs) = sort_key sy_Name xs" by (metis length_greater_0_conv order_refl take_all)
  then show ?thesis by (cases "xs = []") (simp_all add: sortSymbols_def f_def)
qed

section \<open>What a search finds\<close>

lemma sortAndLimit_take: "sortAndLimitSymbols xs n = take n (sort_key sy_Name xs)"
  by (simp add: sortAndLimitSymbols_def sortSymbols_sort Let_def)

lemma take_sort_names:
  assumes "mset xs = mset ys"
  shows "map sy_Name (sortAndLimitSymbols xs n) = take n (sort (map sy_Name ys))"
proof -
  have "map sy_Name (sort_key sy_Name xs) = sort (map sy_Name ys)"
  proof (rule sym, rule properties_for_sort)
    show "mset (map sy_Name (sort_key sy_Name xs)) = mset (map sy_Name ys)" by (simp add: assms)
  qed simp
  then show ?thesis by (simp add: sortAndLimit_take flip: take_map)
qed

lemma sortAndLimit_subset: "mset (sortAndLimitSymbols xs n) \<subseteq># mset xs"
proof -
  have take_sub: "mset (take n ys) \<subseteq># mset ys" for ys :: "Symbol list"
    using mset_subset_eq_add_left [of "mset (take n ys)" "mset (drop n ys)"] by (simp flip: mset_append)
  show ?thesis using take_sub [of "sort_key sy_Name xs"] by (simp add: sortAndLimit_take)
qed

definition matching :: "(string \<Rightarrow> string) \<Rightarrow> string \<Rightarrow> Symbol \<Rightarrow> bool" where
  "matching uni query s \<longleftrightarrow> query = [] \<or> str_contains (ToLower uni (sy_Name s)) (ToLower uni query)"

lemma fuzzy_filter: "fuzzyMatchSymbols uni xs query = filter (matching uni query) xs"
proof (cases "query = []")
  case True
  then show ?thesis by (simp add: fuzzyMatchSymbols_def matching_def)
next
  case False
  then show ?thesis by (simp add: fuzzyMatchSymbols_def matching_def [abs_def] Let_def)
qed

lemma outcomes_mset: "mset us = mset us' \<Longrightarrow> outcomes parse us = outcomes parse us'"
proof -
  have "outcomes parse us = (\<Sum>u \<in># mset us. mset (concat (sent (parse u))))" for us
    by (induction us) simp_all
  then show "mset us = mset us' \<Longrightarrow> outcomes parse us = outcomes parse us'" by simp
qed

text \<open>A run of \<open>extractSymbolsFromFiles\<close> for the keys of a map, which come in any order.\<close>

definition search_run :: "search_env \<Rightarrow> nat \<Rightarrow> string list \<Rightarrow> bool \<Rightarrow> Symbol list \<Rightarrow> bool" where
  "search_run env numCPU us cancelled syms \<longleftrightarrow>
     (\<exists>us'. mset us' = mset us \<and> extracts (parse_symbols env) numCPU us' cancelled syms)"

definition search_files :: "search_env \<Rightarrow> string \<Rightarrow> string list" where
  "search_files env root = filterIgnoredFiles (sv_filter env) (collectGoFilesFromFS root (sv_tree env root))"

text \<open>All declarations of all files that match.\<close>

definition all_matches :: "search_env \<Rightarrow> string \<Rightarrow> string \<Rightarrow> Symbol list" where
  "all_matches env root query =
     filter (matching (sv_unicode env) query) (concat (List.map_filter (parse_symbols env) (search_files env root)))"

lemma all_matches_outcomes:
  "mset (all_matches env root query) = filter_mset (matching (sv_unicode env) query) (outcomes (parse_symbols env) (search_files env root))"
  by (simp add: all_matches_def outcomes_def)

lemma search_run_matches:
  assumes "search_run env numCPU (search_files env root) cancelled syms" "0 < numCPU"
  shows "mset (fuzzyMatchSymbols (sv_unicode env) syms query) \<subseteq># mset (all_matches env root query)
    \<and> (\<not> cancelled \<longrightarrow> mset (fuzzyMatchSymbols (sv_unicode env) syms query) = mset (all_matches env root query))"
proof -
  obtain us' where us': "mset us' = mset (search_files env root)" "extracts (parse_symbols env) numCPU us' cancelled syms"
    using assms(1) unfolding search_run_def by blast
  show ?thesis
    using extracts_outcomes [OF us'(2) assms(2)]
    unfolding all_matches_outcomes fuzzy_filter outcomes_mset [OF us'(1)] by (auto intro: multiset_filter_mono)
qed

lemma searchProjectFiles_run:
  assumes "search_run env numCPU (search_files env root) cancelled (extract (search_files env root))" "0 < numCPU"
  shows "mset (searchProjectFiles env extract root query maxResults) \<subseteq># mset (all_matches env root query)
    \<and> sorted (map sy_Name (searchProjectFiles env extract root query maxResults))
    \<and> length (searchProjectFiles env extract root query maxResults) \<le> (if maxResults \<le> 0 then 10 else nat maxResults)
    \<and> (\<not> cancelled \<longrightarrow> map sy_Name (searchProjectFiles env extract root query maxResults)
         = take (if maxResults \<le> 0 then 10 else nat maxResults) (sort (map sy_Name (all_matches env root query))))"
proof -
  let ?m = "if maxResults \<le> 0 then 10 else nat maxResults"
  let ?found = "fuzzyMatchSymbols (sv_unicode env) (extract (search_files env root)) query"
  have r: "searchProjectFiles env extract root query maxResults = sortAndLimitSymbols ?found ?m"
    by (simp add: searchProjectFiles_def search_files_def Let_def)
  note found = search_run_matches [OF assms, of query]
  have "mset (sortAndLimitSymbols ?found ?m) \<subseteq># mset (all_matches env root query)"
    using sortAndLimit_subset found subset_mset.order_trans by blast
  moreover have "sorted (map sy_Name (sortAndLimitSymbols ?found ?m))" "length (sortAndLimitSymbols ?found ?m) \<le> ?m"
    using take_sort_names [OF refl, of ?found ?m] by (simp_all only: sortAndLimit_take) (simp_all add: sorted_wrt_take)
  ultimately show ?thesis unfolding r using found take_sort_names [of ?found "all_matches env root query" ?m] by blast
qed

text \<open>Claim C28: whatever the order in which the goroutines of \<open>go_search\<close> receive files and send results, and
  whatever the number of processors, a search that is not cancelled lists the same names: the first
  ones, in alphabetical order, of all declarations in the Go files below the root that match, as many as
  asked for or 10.  A cancelled search lists some of them and reports no error.\<close>

theorem go_search_deterministic:
  assumes "search_run env numCPU (search_files env root) cancelled (extract (search_files env root))" "0 < numCPU"
  shows "mset (searchProjectFiles env extract root query maxResults) \<subseteq># mset (all_matches env root query)
    \<and> sorted (map sy_Name (searchProjectFiles env extract root query maxResults))
    \<and> length (searchProjectFiles env extract root query maxResults) \<le> (if maxResults \<le> 0 then 10 else nat maxResults)
    \<and> (\<not> cancelled \<longrightarrow> map sy_Name (searchProjectFiles env extract root query maxResults)
         = take (if maxResults \<le> 0 then 10 else nat maxResults) (sort (map sy_Name (all_matches env root query))))"
  using assms by (rule searchProjectFiles_run)

text \<open>The pool of \<open>extractSymbolsFromFiles\<close> never blocks: it makes at most two moves for every file and
  one for every worker (and one for a cancellation), in every state before the end some worker can move,
  and the channel never holds more results than its capacity, the number of files.\<close>

theorem pool_ends:
  assumes "(pool_step parse ^^ k) (pool_start numCPU uris) p"
  shows "k \<le> 2 * length uris + numWorkers numCPU + 1 \<and> length (po_results p) \<le> length uris
    \<and> (pool_done p \<or> (\<exists>q. pool_step parse p q))"
proof -
  have "k + pool_rank p \<le> 2 * length uris + numWorkers numCPU + 1
    \<and> length (po_results p) + length (concat (map in_work (po_workers p))) + length (po_uris p) \<le> length uris"
    using assms
  proof (induction k arbitrary: p)
    case 0
    then have p: "p = pool_start numCPU uris" by simp
    have "concat (map in_work (replicate n Waiting)) = []" for n by (induction n) simp_all
    moreover have "sum_list (map worker_rank (replicate n Waiting)) = n" for n by (induction n) simp_all
    ultimately show ?case unfolding p by (simp add: pool_start_def pool_rank_def del: map_replicate)
  next
    case (Suc k)
    then obtain q where q: "(pool_step parse ^^ k) (pool_start numCPU uris) q" "pool_step parse q p" by auto
    then show ?case using Suc.IH [OF q(1)] pool_step_rank [OF q(2)] pool_results_bound [OF q(2)] by fastforce
  qed
  then show ?thesis using pool_progress [of p parse] by auto
qed

section \<open>Ignored files\<close>

lemma split_byte_first: "split_byte x s = p # ps \<Longrightarrow> \<exists>b. s = p @ b"
  using join_split_byte [of x s] by (cases ps) auto

lemma split_byte_part: "c \<in> set (split_byte x s) \<Longrightarrow> \<exists>a b. s = a @ c @ b"
proof (induction s arbitrary: c)
  case (Cons y s)
  obtain p ps where ps: "split_byte x s = p # ps" by (cases "split_byte x s") auto
  show ?case
  proof (cases "c \<in> set ps \<or> y = x \<and> c = p")
    case True
    then obtain a b where "s = a @ c @ b" using Cons.IH [of c] ps by auto
    then have "y # s = (y # a) @ c @ b" by simp
    then show ?thesis by blast
  next
    case False
    have "\<exists>b. s = p @ b" using split_byte_first [OF ps] .
    then show ?thesis using Cons.prems False ps by (cases "y = x") auto
  qed
qed simp

text \<open>The fast path of \<open>IgnoredFile\<close> never changes the answer.\<close>

lemma IgnoredFile_eq: "IgnoredFile dirs uri = ignored dirs uri"
proof -
  have "str_contains uri ''.'' \<or> str_contains uri ''_'' \<or> str_contains uri ''testdata''" if ign: "ignored dirs uri"
  proof -
    obtain d where d: "has_prefix uri d" "checkIgnored (drop (length d) uri)" using ign by (auto simp: ignored_def list_ex_iff)
    then obtain c where c: "c \<in> set (split_byte SLASH (drop (length d) uri))" "c \<noteq> []"
      "hd c = CHR ''.'' \<or> hd c = CHR ''_'' \<or> c = ''testdata''" by (auto simp: checkIgnored_def list_ex_iff)
    obtain a b where ab: "drop (length d) uri = a @ c @ b" using split_byte_part [OF c(1)] by blast
    then obtain e where u: "uri = e @ c @ b" by (metis append_assoc append_take_drop_id)
    then have u1: "uri = e @ [hd c] @ (tl c @ b)" using c(2) by simp
    show ?thesis using c(3) u u1 unfolding str_contains_iff by metis
  qed
  then show ?thesis by (auto simp: IgnoredFile_def)
qed

text \<open>No file below a directory of the filter is read if an element of its path is hidden or \<open>testdata\<close>.\<close>

lemma search_files_visible:
  assumes "uri \<in> set (search_files env root)" "d \<in> set (sv_filter env)" "uri = d @ rest" "c \<in> set (split_byte SLASH rest)"
  shows "c \<noteq> ''testdata'' \<and> (c = [] \<or> hd c \<noteq> CHR ''.'' \<and> hd c \<noteq> CHR ''_'')"
proof -
  have "\<not> ignored (sv_filter env) uri" using assms(1) by (simp add: search_files_def filterIgnoredFiles_def IgnoredFile_eq)
  then have "\<not> checkIgnored rest" using assms(2,3) by (auto simp: ignored_def list_ex_iff has_prefix_def)
  then show ?thesis using assms(4) by (auto simp: checkIgnored_def list_ex_iff)
qed

text \<open>What a file declares.\<close>

definition declared :: "string \<Rightarrow> Symbol \<Rightarrow> bool" where
  "declared uri s \<longleftrightarrow> sy_Kind s \<in> {''function'', ''struct'', ''interface'', ''type'', ''const'', ''var''}
     \<and> s = top_symbol uri (sy_Name s) (sy_Kind s) (sy_Line s)"

lemma declared_top: "declared uri (top_symbol uri n k l) \<longleftrightarrow> k \<in> {''function'', ''struct'', ''interface'', ''type'', ''const'', ''var''}"
  by (simp add: declared_def top_symbol_def)

lemma spec_symbols_declared: "s \<in> set (spec_symbols uri lin c sp) \<Longrightarrow> declared uri s"
proof -
  have "determineTypeKind t \<in> {''struct'', ''interface'', ''type''}" for t by (cases t) (simp_all add: determineTypeKind_def)
  then show "s \<in> set (spec_symbols uri lin c sp) \<Longrightarrow> declared uri s"
    by (cases sp) (auto simp: spec_symbols_def declared_top split: if_splits)
qed

lemma extracted_symbol: "s \<in> set (extractTopLevelSymbols uri lin decls) \<Longrightarrow> declared uri s"
proof -
  assume "s \<in> set (extractTopLevelSymbols uri lin decls)"
  then obtain d where "s \<in> set (decl_symbols uri lin d)" by (auto simp: extractTopLevelSymbols_def)
  then show ?thesis by (cases d) (auto simp: decl_symbols_def declared_top spec_symbols_declared)
qed

text \<open>Claim C29: every result of \<open>go_search\<close> is well formed, cancelled or not: its name contains the query, its
  kind is one of the kinds of top-level declarations of the API (never a method or a field), it has a
  location and nothing else, and the file is a Go file below the root that no ignore rule excludes.\<close>

theorem go_search_symbols:
  assumes "search_run env numCPU (search_files env root) cancelled (extract (search_files env root))" "0 < numCPU"
    and "s \<in> set (searchProjectFiles env extract root query maxResults)"
  shows "sy_Kind s \<in> {''function'', ''struct'', ''interface'', ''type'', ''const'', ''var''}
    \<and> s = top_symbol (sy_FilePath s) (sy_Name s) (sy_Kind s) (sy_Line s)
    \<and> (query = [] \<or> str_contains (ToLower (sv_unicode env) (sy_Name s)) (ToLower (sv_unicode env) query))
    \<and> sy_FilePath s \<in> set (collectGoFilesFromFS root (sv_tree env root)) \<and> \<not> ignored (sv_filter env) (sy_FilePath s)
    \<and> (\<exists>decls. sv_decls env (sy_FilePath s) = Some decls
         \<and> s \<in> set (extractTopLevelSymbols (sy_FilePath s) (sv_line env (sy_FilePath s)) decls))"
proof -
  have "mset (searchProjectFiles env extract root query maxResults) \<subseteq># mset (all_matches env root query)"
    using searchProjectFiles_run [of env numCPU root cancelled "extract", OF assms(1,2)] by blast
  then have "s \<in> set (all_matches env root query)" using assms(3) by (metis mset_subset_eqD set_mset_mset)
  then obtain uri decls where m: "matching (sv_unicode env) query s" "uri \<in> set (search_files env root)"
    "sv_decls env uri = Some decls" "s \<in> set (extractTopLevelSymbols uri (sv_line env uri) decls)"
    by (auto simp: all_matches_def parse_symbols_def List.map_filter_def split: option.splits)
  have t: "declared uri s" using m(4) by (rule extracted_symbol)
  then have "sy_FilePath s = uri" unfolding declared_def top_symbol_def by (metis Symbol.select_convs(7))
  then show ?thesis using t m unfolding declared_def
    by (auto simp: search_files_def filterIgnoredFiles_def IgnoredFile_eq matching_def)
qed

section \<open>The summary\<close>

text \<open>With a positive limit the summary has no note about more results, because the list is cut before it is
  counted; without a limit it has one whenever anything was found, and it is wrong.\<close>

lemma buildSearchSummary_limited:
  assumes "0 < m" "extract' = sortAndLimitSymbols syms (nat m)" "extract' \<noteq> []"
  shows "buildSearchSummary extract' m = ''Found '' @ itoa (length extract') @ '' symbol(s):'' @ [NL] @ concat (map symbol_line extract')"
proof -
  have "length extract' \<le> nat m" using assms(2) by (simp add: sortAndLimit_take)
  then have "\<not> int (length extract') > m" using assms(1) by simp
  then show ?thesis using assms(3) by (simp add: buildSearchSummary_def)
qed

lemma buildSearchSummary_default:
  "buildSearchSummary [top_symbol ''/w/a.go'' ''Run'' ''function'' 3] 0
     = ''Found 1 symbol(s) (showing first 0):'' @ NL # ''  - Run (function in /w/a.go:3)'' @ NL # ''... and 1 more (use max_results for more)'' @ [NL]"
  by code_simp

section \<open>Examples\<close>

definition example_search :: search_env where
  "example_search = \<lparr>
     sv_tree = (\<lambda>_. WDir [(''a.go'', WFile), (''testdata'', WDir [(''t.go'', WFile)]), (''l.go'', WSymlink), (''b.go'', WFile)]),
     sv_filter = newIgnoreFilter [''/w''],
     sv_decls = (\<lambda>uri. Some [GenDecl \<lparr>gn_const = True, gn_doc = None, gn_specs =
        [ValueSpec (5, 9) [((5, 6), if uri = ''/w/a.go'' then ''MaxRun'' else ''Runner''), ((8, 9), ''Other'')] None None]\<rparr>]),
     sv_line = (\<lambda>_ p. nat p), sv_unicode = (\<lambda>s. s)\<rparr>"

definition example_extract :: "string list \<Rightarrow> Symbol list" where
  "example_extract us = concat (List.map_filter (parse_symbols example_search) (rev us))"

lemma pool_sequential:
  "(pool_step parse)\<^sup>*\<^sup>* (Pool us [Waiting] rs False) (Pool [] [Stopped] (rs @ List.map_filter parse us) False)"
proof (induction us arbitrary: rs)
  case Nil
  then show ?case using pool_step.stop [of parse "[]" "[]" rs False] by (simp add: List.map_filter_def r_into_rtranclp)
next
  case (Cons u us)
  have 1: "pool_step parse (Pool (u # us) [Waiting] rs False) (Pool us [Working u] rs False)"
    using pool_step.receive [of parse u us "[]" "[]" rs] by simp
  have 2: "pool_step parse (Pool us [Working u] rs False) (Pool us [Waiting] (rs @ sent (parse u)) False)"
    using pool_step.finish [of parse us "[]" u "[]" rs False] by simp
  have "rs @ List.map_filter parse (u # us) = (rs @ sent (parse u)) @ List.map_filter parse us"
    by (simp add: List.map_filter_def sent_def split: option.split)
  then show ?case using Cons.IH [of "rs @ sent (parse u)"] 1 2 by (metis converse_rtranclp_into_rtranclp)
qed

lemma example_run: "search_run example_search 1 us False (example_extract us)"
  unfolding search_run_def
proof (intro exI conjI)
  show "extracts (parse_symbols example_search) 1 (rev us) False (example_extract us)"
    using pool_sequential [of "parse_symbols example_search" "rev us" "[]"]
    unfolding extracts_def by (intro exI conjI) (auto simp: pool_start_def numWorkers_def pool_done_def example_extract_def)
qed simp

theorem go_search_deterministic_witness:
  "map sy_Name (searchProjectFiles example_search example_extract ''/w'' ''run'' 0) = [''MaxRun'', ''Runner'']
   \<and> search_files example_search ''/w'' = [''/w/a.go'', ''/w/b.go'']"
proof -
  have f: "search_files example_search ''/w'' = [''/w/a.go'', ''/w/b.go'']" by code_simp
  have m: "sort (map sy_Name (all_matches example_search ''/w'' ''run'')) = [''MaxRun'', ''Runner'']" by code_simp
  show ?thesis
    using go_search_deterministic [of example_search 1 "''/w''" False example_extract "''run''" 0, OF example_run] m f by simp
qed

theorem go_search_symbols_witness:
  "\<exists>s \<in> set (searchProjectFiles example_search example_extract ''/w'' ''run'' 0).
     sy_Name s = ''Runner'' \<and> sy_Kind s = ''const'' \<and> \<not> ignored (sv_filter example_search) (sy_FilePath s)"
proof -
  let ?s = "top_symbol ''/w/b.go'' ''Runner'' ''const'' 5"
  have s: "?s \<in> set (searchProjectFiles example_search example_extract ''/w'' ''run'' 0)" by code_simp
  from go_search_symbols [OF example_run _ s] have "\<not> ignored (sv_filter example_search) (sy_FilePath ?s)" by simp
  then show ?thesis using s by (intro bexI [OF _ s]) (simp add: top_symbol_def)
qed

theorem pool_ends_witness:
  "(pool_step (\<lambda>_. None) ^^ 2) (pool_start 1 [''a'']) (Pool [] [Waiting] [] False)
   \<and> (\<exists>q. pool_step (\<lambda>_. None) (Pool [] [Waiting] [] False) q)"
proof -
  have "pool_step (\<lambda>_. None) (pool_start 1 [''a'']) (Pool [] [Working ''a''] [] False)"
    using pool_step.receive [of "\<lambda>_. None" "''a''" "[]" "[]" "[]" "[]"] by (simp add: pool_start_def numWorkers_def)
  moreover have "pool_step (\<lambda>_. None) (Pool [] [Working ''a''] [] False) (Pool [] [Waiting] [] False)"
    using pool_step.finish [of "\<lambda>_. None" "[]" "[]" "''a''" "[]" "[]" False] by (simp add: sent_def)
  ultimately have run: "(pool_step (\<lambda>_. None) ^^ 2) (pool_start 1 [''a'']) (Pool [] [Waiting] [] False)"
    by (auto simp: numeral_2_eq_2)
  show ?thesis using run pool_ends [OF run] by (simp add: pool_done_def)
qed

end
