(* ===== verification/Symbol_Detail.thy ===== *)
theory Symbol_Detail
  imports Symbol_Search
begin

text \<open>
  The tool \<open>go_get_package_symbol_detail\<close>: \<open>handleGetPackageSymbolDetail\<close>, \<open>filterSymbols\<close> and the formatters
  of symbols in \<open>mcpbridge/core/gopls_wrappers.go\<close>.  The loop over the files is that of
  \<open>go_list_package_symbols\<close>; the filters then choose by name and receiver.
\<close>

section \<open>Filters\<close>

record SymbolFilter =
  ft_Receiver :: string
  ft_Name :: string

text \<open>The inner loop of \<open>filterSymbols\<close>: a symbol is added at the first filter that takes it.\<close>

fun filter_takes :: "Symbol \<Rightarrow> SymbolFilter list \<Rightarrow> bool" where
  "filter_takes s [] = False"
| "filter_takes s (f # fs) =
     (if sy_Name s \<noteq> ft_Name f then filter_takes s fs
      else if sy_Kind s = ''method'' then
        (if ft_Receiver f \<noteq> [] \<and> sy_Receiver s = ft_Receiver f then True
         else if ft_Receiver f = [] then True
         else filter_takes s fs)
      else True)"

definition filterSymbols :: "Symbol list \<Rightarrow> SymbolFilter list \<Rightarrow> Symbol list" where
  "filterSymbols symbols filters = filter (\<lambda>s. filter_takes s filters) symbols"

section \<open>Formats\<close>

definition texts_suffix :: "bool \<Rightarrow> bool \<Rightarrow> string" where
  "texts_suffix includeDocs includeBodies =
     (let d = (if includeDocs then '' with docs'' else [])
      in if includeBodies then (if d \<noteq> [] then d @ '' and bodies'' else '' with bodies'') else d)"

definition detail_block :: "bool \<Rightarrow> bool \<Rightarrow> Symbol \<Rightarrow> string" where
  "detail_block includeDocs includeBodies s =
     (let kind = ToLower (\<lambda>t. t) (sy_Kind s) in
      (if sy_Receiver s \<noteq> [] \<and> sy_Kind s = ''method''
       then ''  '' @ kind @ '' ('' @ sy_Receiver s @ '').'' @ sy_Name s @ '' - '' @ sy_Signature s @ [NL]
       else ''  '' @ kind @ '' '' @ sy_Name s @ '' - '' @ sy_Signature s @ [NL])
      @ (if includeDocs \<and> sy_Doc s \<noteq> [] then concat (map (\<lambda>line. ''    '' @ line @ [NL]) (split_byte NL (sy_Doc s))) else [])
      @ (if includeBodies \<and> sy_Body s \<noteq> [] then ''   = { '' @ sy_Body s @ '' }'' @ [NL] else [])
      @ (if sy_FilePath s \<noteq> [] then ''    at '' @ sy_FilePath s @ '':'' @ itoa (sy_Line s) @ [NL] else [])
      @ [NL])"

definition formatPackageSymbolDetail :: "Symbol list \<Rightarrow> bool \<Rightarrow> bool \<Rightarrow> string" where
  "formatPackageSymbolDetail symbols includeDocs includeBodies =
     (let d = texts_suffix includeDocs includeBodies; suff = (if d = [] then '' (signatures only)'' else d)
      in ''Symbols ('' @ itoa (length symbols) @ '')'' @ suff @ '':'' @ [NL]
         @ concat (map (detail_block includeDocs includeBodies) symbols))"

definition api_line :: "bool \<Rightarrow> bool \<Rightarrow> Symbol \<Rightarrow> string" where
  "api_line includeDocs includeBodies s =
     ''  '' @ sy_Kind s @ '' '' @ sy_Name s
     @ suffix_if (sy_Receiver s \<noteq> []) ('' ['' @ sy_Receiver s @ '']'')
     @ suffix_if (sy_Signature s \<noteq> []) ('' - '' @ sy_Signature s)
     @ suffix_if (includeDocs \<and> sy_Doc s \<noteq> []) ('' // '' @ shorten 80 (sy_Doc s))
     @ suffix_if (includeBodies \<and> sy_Body s \<noteq> []) ('' = '' @ shorten 60 (sy_Body s)) @ [NL]"

definition formatPackageSymbolsForAPI :: "OListPackageSymbols \<Rightarrow> bool \<Rightarrow> bool \<Rightarrow> string" where
  "formatPackageSymbolsForAPI r includeDocs includeBodies =
     ''Package: '' @ os_PackagePath r @ texts_suffix includeDocs includeBodies
     @ '' ('' @ itoa (length (os_Symbols r)) @ '' symbols):'' @ [NL]
     @ concat (map (api_line includeDocs includeBodies) (os_Symbols r))"

section \<open>The handler\<close>

record IGetPackageSymbolDetailParams =
  ip_PackagePath :: string
  ip_SymbolFilters :: "SymbolFilter list"
  ip_IncludeDocs :: bool
  ip_IncludeBodies :: bool
  ip_Cwd :: string

definition detail_symbols :: "(string \<Rightarrow> go_file option) \<Rightarrow> IGetPackageSymbolDetailParams \<Rightarrow> package \<Rightarrow> Symbol list" where
  "detail_symbols read_go input mp =
     concat (map (\<lambda>uri. case read_go uri of
         None \<Rightarrow> []
       | Some f \<Rightarrow> file_symbols (ip_IncludeDocs input) (ip_IncludeBodies input) (ip_PackagePath input) uri f)
       (pk_CompiledGoFiles mp))"

definition get_package_symbol_detail :: "(string \<Rightarrow> go_file option) \<Rightarrow> IGetPackageSymbolDetailParams \<Rightarrow> view \<Rightarrow>
    (string, Symbol list) outcome" where
  "get_package_symbol_detail read_go input v =
     bind_outcome (load_graph v) (\<lambda>md.
       case get_list (g_ForPackagePath md) (ip_PackagePath input) of
         [] \<Rightarrow> Err (''package not found: '' @ ip_PackagePath input)
       | mp # _ \<Rightarrow> Ok (filterSymbols (detail_symbols read_go input mp) (ip_SymbolFilters input)))"

definition handleGetPackageSymbolDetail :: "(string \<Rightarrow> (string, view) outcome) \<Rightarrow> (string \<Rightarrow> go_file option) \<Rightarrow>
    handler \<Rightarrow> IGetPackageSymbolDetailParams \<Rightarrow> (string, string \<times> Symbol list) outcome \<times> handler" where
  "handleGetPackageSymbolDetail new_view read_go h input =
     (if ip_SymbolFilters input = [] then
        (Err (''symbol_filters is required for get_package_symbol_detail (this is a precision tool). ''
              @ ''Use list_package_symbols to get all symbols in a package''), h)
      else with_snapshot new_view h (ip_Cwd input)
        (\<lambda>v. bind_outcome (get_package_symbol_detail read_go input v) (\<lambda>symbols.
           Ok (formatPackageSymbolDetail symbols (ip_IncludeDocs input) (ip_IncludeBodies input), symbols))))"

section \<open>What the filters choose\<close>

lemma filter_takes_iff:
  "filter_takes s fs \<longleftrightarrow>
     (\<exists>f \<in> set fs. ft_Name f = sy_Name s \<and> (sy_Kind s = ''method'' \<longrightarrow> ft_Receiver f = [] \<or> ft_Receiver f = sy_Receiver s))"
  by (induction s fs rule: filter_takes.induct) auto

text \<open>For a package that exists \<open>go_get_package_symbol_detail\<close> answers, in the order of the files,
  with exactly the exported symbols that a filter names, each once; for methods the receiver of the
  filter must be empty or the same, for all others it is ignored.  Without filters it is an error and
  touches no view.\<close>

theorem symbol_detail_spec:
  assumes "vw_Graph v = Ok md" "get_list (g_ForPackagePath md) (ip_PackagePath input) = mp # mps"
  shows "get_package_symbol_detail read_go input v = Ok (filter (\<lambda>s. \<exists>f \<in> set (ip_SymbolFilters input).
        ft_Name f = sy_Name s \<and> (sy_Kind s = ''method'' \<longrightarrow> ft_Receiver f = [] \<or> ft_Receiver f = sy_Receiver s))
      (detail_symbols read_go input mp))
    \<and> (ip_SymbolFilters input = [] \<longrightarrow>
        (\<exists>e. handleGetPackageSymbolDetail new_view read_go h input = (Err e, h)))"
  using assms
  by (simp add: get_package_symbol_detail_def load_graph_def filterSymbols_def filter_takes_iff handleGetPackageSymbolDetail_def)

definition detail_input :: IGetPackageSymbolDetailParams where
  "detail_input = \<lparr>ip_PackagePath = ''b'', ip_SymbolFilters = [\<lparr>ft_Receiver = ''T'', ft_Name = ''B''\<rparr>], ip_IncludeDocs = True,
     ip_IncludeBodies = False, ip_Cwd = []\<rparr>"

theorem symbol_detail_spec_witness:
  "(case get_package_symbol_detail (\<lambda>_. Some example_file) detail_input (example_view\<lparr>vw_Graph := Ok dep_example\<rparr>) of
      Ok r \<Rightarrow> map sy_Name r = [''B''] \<and> map sy_Doc r = [''about A''] | _ \<Rightarrow> False)"
proof -
  have g: "vw_Graph (example_view\<lparr>vw_Graph := Ok dep_example\<rparr>) = Ok dep_example" by simp
  have p: "get_list (g_ForPackagePath dep_example) (ip_PackagePath detail_input) = [example_package ''b'' [''c'']]" by code_simp
  let ?P = "\<lambda>s. \<exists>f \<in> set (ip_SymbolFilters detail_input). ft_Name f = sy_Name s
        \<and> (sy_Kind s = ''method'' \<longrightarrow> ft_Receiver f = [] \<or> ft_Receiver f = sy_Receiver s)"
  have "map sy_Name (filter ?P (detail_symbols (\<lambda>_. Some example_file) detail_input (example_package ''b'' [''c'']))) = [''B'']
    \<and> map sy_Doc (filter ?P (detail_symbols (\<lambda>_. Some example_file) detail_input (example_package ''b'' [''c'']))) = [''about A'']"
    by code_simp
  then show ?thesis
    using symbol_detail_spec [OF g p, of "\<lambda>_. Some example_file" "\<lambda>_. Panic" "example_handler True"] by simp
qed

text \<open>The filter that the tool documents for a method does not find it when the method has parameters:
  \<open>convertDocumentSymbol\<close> leaves the receiver in the name of the symbol.\<close>

lemma documented_filter_misses:
  assumes "ds_Kind ds = SK_Method" "ds_Name ds = method_name (Some r) name" "CHR '')'' \<notin> set r" "name \<noteq> []"
    and "ds_Detail ds = ''func('' @ ps @ '')'' @ res" "CHR '')'' \<notin> set ps" "TrimSpace ps \<noteq> []"
  shows "filterSymbols [convertDocumentSymbol ds path pkg] [\<lparr>ft_Receiver = recv, ft_Name = name\<rparr>] = []"
proof -
  have "sy_Name (convertDocumentSymbol ds path pkg) = method_name (Some r) name"
    using convertDocumentSymbol_method [OF assms(1-6)] assms(7) by simp
  moreover have "length name < length (method_name (Some r) name)" by (simp add: method_name_def)
  ultimately show ?thesis by (auto simp: filterSymbols_def)
qed

end
