(* ===== verification/Rename_Preview.thy ===== *)
theory Rename_Preview
  imports Mapper Diff_Unified "HOL-Library.Multiset" "HOL-Library.AList"
begin

text \<open>
  The preview of a rename: \<open>generateUnifiedDiff\<close>, \<open>generateLineChanges\<close> and the functions below them in
  \<open>gopls/internal/golang/llm_bridge.go\<close>.  The edits of each file are sorted, applied to its lines, and the
  old and new lines compared.  \<open>read\<close>, an argument, is what reading a file answers (\<open>None\<close> for an error,
  which skips the file); \<open>None\<close> as a result is a panic.  The first part shows that applying edits here agrees
  with \<open>ApplyEdits\<close> of package \<open>protocol\<close>, the second what the hunks mean.
\<close>

section \<open>Applying edits to lines\<close>

definition start_of :: "TextEdit \<Rightarrow> Position" where
  "start_of e = r_Start (te_Range e)"

text \<open>The inner loop of \<open>sortEdits\<close> for one \<open>i\<close>, and the outer loop.\<close>

definition swap_at :: "nat \<Rightarrow> TextEdit list \<Rightarrow> nat \<Rightarrow> TextEdit list" where
  "swap_at i edits j =
     (let iStart = start_of (edits ! i); jStart = start_of (edits ! j)
      in if Line jStart > Line iStart \<or> (Line jStart = Line iStart \<and> Character jStart > Character iStart)
         then edits[i := edits ! j, j := edits ! i] else edits)"

definition sort_pass :: "TextEdit list \<Rightarrow> nat \<Rightarrow> TextEdit list" where
  "sort_pass edits i = foldl (swap_at i) edits [i + 1..<length edits]"

definition sortEdits :: "TextEdit list \<Rightarrow> TextEdit list" where
  "sortEdits edits = foldl sort_pass edits [0..<length edits - 1]"

text \<open>One round of the loop of \<open>applyEdits\<close>; \<open>lines[endLine+1:]\<close> panics when it is out of range.\<close>

definition apply_edit :: "string list \<Rightarrow> TextEdit \<Rightarrow> string list option" where
  "apply_edit lines e =
     (let startLine = unat (Line (start_of e)); startCol = unat (Character (start_of e));
          endLine = unat (Line (r_End (te_Range e))); endCol = unat (Character (r_End (te_Range e)))
      in if startLine \<ge> length lines then Some lines
         else if startLine = endLine then
           (let line = lines ! startLine
            in if startCol \<le> length line \<and> endCol \<le> length line
               then Some (lines[startLine := take startCol line @ te_NewText e @ drop endCol line])
               else Some lines)
         else
           (let prefix' = take (min startCol (length (lines ! startLine))) (lines ! startLine);
                suffix' = (if endLine < length lines then drop (min endCol (length (lines ! endLine))) (lines ! endLine) else []);
                newLines = split_byte NL (te_NewText e)
            in if endLine + 1 > length lines then None
               else
                 (let result = take startLine lines @ newLines @ drop (endLine + 1) lines;
                      result1 = (if length result > startLine then result[startLine := prefix' @ result ! startLine] else result);
                      lastIdx = startLine + length newLines - 1
                  in Some (if lastIdx < length result1 then result1[lastIdx := result1 ! lastIdx @ suffix'] else result1))))"

fun apply_all :: "string list \<Rightarrow> TextEdit list \<Rightarrow> string list option" where
  "apply_all lines [] = Some lines"
| "apply_all lines (e # es) = (case apply_edit lines e of None \<Rightarrow> None | Some lines' \<Rightarrow> apply_all lines' es)"

definition applyEdits :: "string \<Rightarrow> TextEdit list \<Rightarrow> string option" where
  "applyEdits original edits = map_option (str_join [NL]) (apply_all (split_byte NL original) edits)"

definition applyEditToLine :: "string \<Rightarrow> TextEdit \<Rightarrow> string" where
  "applyEditToLine content e =
     (let startCol = unat (Character (start_of e)); endCol = unat (Character (r_End (te_Range e)))
      in if Line (start_of e) = Line (r_End (te_Range e)) \<and> startCol \<le> length content \<and> endCol \<le> length content
         then take startCol content @ te_NewText e @ drop endCol content else te_NewText e)"

section \<open>Hunks of the preview\<close>

record phunk =
  ph_origStart :: nat
  ph_origCount :: nat
  ph_modStart :: nat
  ph_modCount :: int
  ph_lines :: "string list"

text \<open>The loops that count deletions and additions: where they end.\<close>

function deletions_end :: "string list \<Rightarrow> string list \<Rightarrow> nat \<Rightarrow> nat \<Rightarrow> nat" where
  "deletions_end orig modl origEnd modEnd =
     (if origEnd < length orig \<and> (modEnd \<ge> length modl \<or> orig ! origEnd \<noteq> modl ! modEnd)
      then deletions_end orig modl (origEnd + 1) modEnd else origEnd)"
  by pat_completeness auto
termination
  by (relation "measure (\<lambda>(orig, modl, i, j). length orig - i)") auto

function additions_end :: "string list \<Rightarrow> string list \<Rightarrow> nat \<Rightarrow> nat \<Rightarrow> nat" where
  "additions_end orig modl origEnd modEnd =
     (if modEnd < length modl \<and> (origEnd \<ge> length orig \<or> orig ! origEnd \<noteq> modl ! modEnd)
      then additions_end orig modl origEnd (modEnd + 1) else modEnd)"
  by pat_completeness auto
termination
  by (relation "measure (\<lambda>(orig, modl, i, j). length modl - j)") auto

declare deletions_end.simps [simp del] additions_end.simps [simp del]

definition contextSize :: nat where "contextSize = 3"

text \<open>The hunk for a difference at \<open>i\<close> and \<open>j\<close>; \<open>modCount\<close> starts as \<open>j - contextStart\<close>, which may be negative.\<close>

definition make_hunk :: "string list \<Rightarrow> string list \<Rightarrow> nat \<Rightarrow> nat \<Rightarrow> nat \<Rightarrow> nat \<Rightarrow> phunk" where
  "make_hunk orig modl i j origEnd modEnd =
     (let contextStart = i - contextSize;
          contextEnd = min (length orig) (origEnd + contextSize);
          lines = map (\<lambda>l. CHR '' '' # l) (slice contextStart i orig)
            @ map (\<lambda>l. CHR ''-'' # l) (slice i origEnd orig) @ map (\<lambda>l. CHR ''+'' # l) (slice j modEnd modl)
            @ map (\<lambda>l. CHR '' '' # l) (slice origEnd contextEnd orig)
      in \<lparr>ph_origStart = contextStart + 1, ph_origCount = i - contextStart + (origEnd - i) + (contextEnd - origEnd),
          ph_modStart = contextStart + 1,
          ph_modCount = int j - int contextStart + int (modEnd - j) + int (contextEnd - origEnd), ph_lines = lines\<rparr>)"

lemma deletions_end_ge: "i \<le> deletions_end orig modl i j \<and> deletions_end orig modl i j \<le> max i (length orig)"
proof (induction orig modl i j rule: deletions_end.induct)
  case (1 orig modl i j)
  then show ?case by (subst (1 2) deletions_end.simps) auto
qed

lemma additions_end_ge: "j \<le> additions_end orig modl i j \<and> additions_end orig modl i j \<le> max j (length modl)"
proof (induction orig modl i j rule: additions_end.induct)
  case (1 orig modl i j)
  then show ?case by (subst (1 2) additions_end.simps) auto
qed

text \<open>A difference always ends further on.\<close>

lemma difference_ends:
  assumes "i < length orig \<or> j < length modl" "\<not> (i < length orig \<and> j < length modl \<and> orig ! i = modl ! j)"
  shows "i < deletions_end orig modl i j \<or> j < additions_end orig modl (deletions_end orig modl i j) j"
proof (cases "i < length orig")
  case True
  then have "deletions_end orig modl i j = deletions_end orig modl (i + 1) j"
    using assms by (subst deletions_end.simps) auto
  then show ?thesis using deletions_end_ge [of "i + 1" orig modl j] by simp
next
  case False
  then have d: "deletions_end orig modl i j = i" by (subst deletions_end.simps) simp
  have "additions_end orig modl i j = additions_end orig modl i (j + 1)"
    using False assms by (subst additions_end.simps) auto
  then show ?thesis using additions_end_ge [of "j + 1" orig modl i] d by simp
qed

function hunks_from :: "string list \<Rightarrow> string list \<Rightarrow> nat \<Rightarrow> nat \<Rightarrow> phunk list" where
  "hunks_from orig modl i j =
     (if i < length orig \<or> j < length modl then
        (if i < length orig \<and> j < length modl \<and> orig ! i = modl ! j then hunks_from orig modl (i + 1) (j + 1)
         else
           let origEnd = deletions_end orig modl i j; modEnd = additions_end orig modl origEnd j
           in make_hunk orig modl i j origEnd modEnd # hunks_from orig modl origEnd modEnd)
      else [])"
  by pat_completeness auto
termination
proof (relation "measure (\<lambda>(orig, modl, i, j). (length orig - i) + (length modl - j))", goal_cases)
  case (3 orig modl i j x xa)
  then have "i < x \<or> j < xa" "i \<le> x" "j \<le> xa" "x \<le> max i (length orig)" "xa \<le> max j (length modl)"
    using difference_ends [of i orig j modl] deletions_end_ge [of i orig modl j] additions_end_ge [of j orig modl x] by auto
  then show ?case using 3(1) by auto
qed auto

declare hunks_from.simps [simp del]

definition generateHunks :: "string list \<Rightarrow> string list \<Rightarrow> phunk list" where
  "generateHunks origLines modLines = hunks_from origLines modLines 0 0"

definition phunk_string :: "phunk \<Rightarrow> string" where
  "phunk_string h = ''@@ -'' @ itoa (ph_origStart h) @ '','' @ itoa (ph_origCount h) @ '' +'' @ itoa (ph_modStart h)
     @ '','' @ itoa_int (ph_modCount h) @ '' @@'' @ [NL] @ concat (map (\<lambda>l. l @ [NL]) (ph_lines h))"

definition unifiedDiffForFile :: "string \<Rightarrow> string \<Rightarrow> string \<Rightarrow> string" where
  "unifiedDiffForFile filePath original modified =
     ''--- a/'' @ filePath @ [NL] @ ''+++ b/'' @ filePath @ [NL]
     @ concat (map phunk_string (generateHunks (split_byte NL original) (split_byte NL modified)))"

section \<open>All files\<close>

text \<open>A change of a document: the file and its edits, or \<open>None\<close> for a change of another kind.\<close>

type_synonym document_change = "(string \<times> TextEdit list) option"

definition add_change :: "(string \<Rightarrow> string option) \<Rightarrow> document_change \<Rightarrow> (string \<times> TextEdit list \<times> string) list \<Rightarrow>
    (string \<times> TextEdit list \<times> string) list" where
  "add_change read c fileChanges =
     (case c of
        None \<Rightarrow> fileChanges
      | Some (uri, edits) \<Rightarrow>
          (case read uri of
             None \<Rightarrow> fileChanges
           | Some originalContent \<Rightarrow>
               (case map_of fileChanges uri of
                  None \<Rightarrow> AList.update uri (edits, originalContent) fileChanges
                | Some (edits0, original) \<Rightarrow> AList.update uri (edits0 @ edits, original) fileChanges)))"

fun file_diffs :: "(string \<times> TextEdit list \<times> string) list \<Rightarrow> string option" where
  "file_diffs [] = Some []"
| "file_diffs ((uri, edits, original) # fcs) =
     (case applyEdits original (sortEdits edits) of
        None \<Rightarrow> None
      | Some modified \<Rightarrow> map_option (\<lambda>rest. unifiedDiffForFile uri original modified @ [NL] @ rest) (file_diffs fcs))"

text \<open>\<open>iter\<close> is the order in which the map is iterated.\<close>

definition generateUnifiedDiff :: "((string \<times> TextEdit list \<times> string) list \<Rightarrow> (string \<times> TextEdit list \<times> string) list) \<Rightarrow>
    (string \<Rightarrow> string option) \<Rightarrow> document_change list \<Rightarrow> string option" where
  "generateUnifiedDiff iter read changes = file_diffs (iter (fold (add_change read) changes []))"

record RenameChange =
  rc_File :: string
  rc_Line :: nat
  rc_OldLine :: string
  rc_NewLine :: string

definition line_change :: "string \<Rightarrow> string list \<Rightarrow> TextEdit \<Rightarrow> RenameChange list" where
  "line_change filePath lines e =
     (let startLine = unat (Line (start_of e)); endLine = unat (Line (r_End (te_Range e)))
      in if startLine \<ge> length lines then []
         else
           (let oldLine = (if endLine < length lines then str_join [NL] (slice startLine (endLine + 1) lines) else lines ! startLine)
            in [\<lparr>rc_File = filePath, rc_Line = startLine + 1, rc_OldLine = oldLine, rc_NewLine = applyEditToLine oldLine e\<rparr>]))"

definition generateLineChanges :: "(string \<Rightarrow> string option) \<Rightarrow> document_change list \<Rightarrow> RenameChange list" where
  "generateLineChanges read changes =
     concat (map (\<lambda>c. case c of
         None \<Rightarrow> []
       | Some (uri, edits) \<Rightarrow>
           (case read uri of
              None \<Rightarrow> []
            | Some original \<Rightarrow> concat (map (line_change uri (split_byte NL original)) edits))) changes)"

section \<open>Sorting\<close>

lemma swap_at_order:
  "swap_at i es j = (if start_of (es ! i) < start_of (es ! j) then es[i := es ! j, j := es ! i] else es)"
  by (cases "start_of (es ! i)"; cases "start_of (es ! j)")
    (auto simp: swap_at_def Let_def less_Position_def less_eq_Position_def ComparePosition_def)

lemma swap_at_simps:
  assumes "i < j" "j < length es"
  shows "length (swap_at i es j) = length es" "mset (swap_at i es j) = mset es" "take i (swap_at i es j) = take i es"
    "start_of (swap_at i es j ! j) \<le> start_of (swap_at i es j ! i)" "start_of (es ! i) \<le> start_of (swap_at i es j ! i)"
    "b \<noteq> i \<Longrightarrow> b \<noteq> j \<Longrightarrow> swap_at i es j ! b = es ! b"
  using assms mset_swap [of i es j] by (auto simp: swap_at_order list_update_swap)

lemma sort_pass_step:
  assumes "i < length es" "m \<le> length es" "Suc i \<le> m" "r = foldl (swap_at i) es [Suc i..<m]"
  shows "length r = length es \<and> mset r = mset es \<and> take i r = take i es \<and> (\<forall>b. i \<le> b \<and> b < m \<longrightarrow> start_of (r ! b) \<le> start_of (r ! i))"
  using assms(2-4)
proof (induction m arbitrary: r)
  case (Suc m)
  show ?case
  proof (cases "m = i")
    case True
    then show ?thesis using Suc.prems by (auto simp: le_less_Suc_eq)
  next
    case False
    let ?q = "foldl (swap_at i) es [Suc i..<m]"
    have m: "i < m" using Suc.prems False by simp
    have q: "length ?q = length es" "mset ?q = mset es" "take i ?q = take i es"
      "\<And>b. i \<le> b \<Longrightarrow> b < m \<Longrightarrow> start_of (?q ! b) \<le> start_of (?q ! i)"
      using Suc.IH [OF _ _ refl] Suc.prems m by auto
    have r: "r = swap_at i ?q m" using Suc.prems(3) m by simp
    note sw = swap_at_simps [OF m, of ?q]
    have "start_of (r ! b) \<le> start_of (r ! i)" if prem: "i \<le> b" "b < Suc m" for b
    proof -
      consider "b = i" | "b = m" | "i < b" "b < m" using prem by (metis le_neq_implies_less less_SucE)
      then show ?thesis
      proof cases
        case 2
        then show ?thesis using sw(4) q(1) Suc.prems(1) r by simp
      next
        case 3
        then have "r ! b = ?q ! b" using sw(6) q(1) Suc.prems(1) r by simp
        then show ?thesis using q(4) [of b] 3 sw(5) q(1) Suc.prems(1) r by (metis Suc_le_lessD less_imp_le order_trans)
      qed simp
    qed
    then show ?thesis using sw(1-3) q Suc.prems(1) r by simp
  qed
qed simp

definition greatest_first :: "nat \<Rightarrow> TextEdit list \<Rightarrow> bool" where
  "greatest_first n es \<longleftrightarrow> (\<forall>a b. a < n \<and> a < b \<and> b < length es \<longrightarrow> start_of (es ! b) \<le> start_of (es ! a))"

lemma set_drop_mset: "mset xs = mset ys \<Longrightarrow> take i xs = take i ys \<Longrightarrow> set (drop i xs) = set (drop i ys)"
proof -
  assume a: "mset xs = mset ys" "take i xs = take i ys"
  have "mset (take i xs) + mset (drop i xs) = mset (take i ys) + mset (drop i ys)"
    using a(1) by (simp flip: mset_append)
  then have "mset (drop i xs) = mset (drop i ys)" using a(2) by simp
  then show ?thesis by (rule mset_eq_setD)
qed

lemma sort_pass_ok:
  assumes "i < length es" "greatest_first i es"
  shows "length (sort_pass es i) = length es \<and> mset (sort_pass es i) = mset es \<and> greatest_first (Suc i) (sort_pass es i)"
proof -
  let ?r = "sort_pass es i"
  have r: "length ?r = length es" "mset ?r = mset es" "take i ?r = take i es"
    "\<And>b. i \<le> b \<Longrightarrow> b < length es \<Longrightarrow> start_of (?r ! b) \<le> start_of (?r ! i)"
    using sort_pass_step [OF assms(1) order_refl _ refl] assms(1) by (auto simp: sort_pass_def)
  have "start_of (?r ! b) \<le> start_of (?r ! a)" if ab: "a < Suc i" "a < b" "b < length ?r" for a b
  proof (cases "a = i")
    case False
    then have a: "?r ! a = es ! a" using ab(1) r(3) by (metis less_antisym nth_take)
    show ?thesis
    proof (cases "b < i")
      case True
      then have "?r ! b = es ! b" using r(3) by (metis nth_take)
      then show ?thesis using a assms(2) ab r(1) False unfolding greatest_first_def by auto
    next
      case False
      have "?r ! b = drop i ?r ! (b - i)" using False ab(3) by simp
      then have "?r ! b \<in> set (drop i ?r)" using ab(3) False by (metis diff_less_mono length_drop not_less nth_mem)
      then have "?r ! b \<in> set (drop i es)" using set_drop_mset [OF r(2,3)] by simp
      then obtain c where c: "c < length es - i" "?r ! b = es ! (i + c)" by (auto simp: in_set_conv_nth)
      show ?thesis using assms(2) c ab(1) \<open>a \<noteq> i\<close> a unfolding greatest_first_def
        by (metis less_SucE less_diff_conv add.commute trans_less_add1)
    qed
  qed (use r(4) [of b] ab r(1) in simp)
  then show ?thesis using r(1,2) by (simp add: greatest_first_def)
qed

lemma sortEdits_sorted:
  "mset (sortEdits es) = mset es \<and> sorted_wrt (\<lambda>x y. start_of y \<le> start_of x) (sortEdits es)"
proof -
  have "n \<le> length es - 1 \<Longrightarrow> length (foldl sort_pass es [0..<n]) = length es \<and> mset (foldl sort_pass es [0..<n]) = mset es
      \<and> greatest_first n (foldl sort_pass es [0..<n])" for n
  proof (induction n)
    case 0
    then show ?case by (simp add: greatest_first_def)
  next
    case (Suc n)
    then show ?case using sort_pass_ok [of n "foldl sort_pass es [0..<n]"] by auto
  qed
  from this [of "length es - 1"] show ?thesis
    unfolding sortEdits_def greatest_first_def sorted_wrt_iff_nth_less by auto
qed

section \<open>Editing one line\<close>

text \<open>The offset at which a line begins.\<close>

definition line_at :: "string list \<Rightarrow> nat \<Rightarrow> nat" where
  "line_at ls l = length (concat (map (\<lambda>x. x @ [NL]) (take l ls)))"

lemma join_Cons: "ls \<noteq> [] \<Longrightarrow> str_join [NL] (x # ls) = x @ NL # str_join [NL] ls"
  by (cases ls) auto

lemma join_split_at:
  "l < length ls \<Longrightarrow> str_join [NL] ls = concat (map (\<lambda>x. x @ [NL]) (take l ls)) @ ls ! l
     @ (if Suc l < length ls then NL # str_join [NL] (drop (Suc l) ls) else [])"
proof (induction ls arbitrary: l)
  case (Cons x ls)
  show ?case
  proof (cases l)
    case 0
    then show ?thesis by (cases ls) auto
  next
    case (Suc l')
    then show ?thesis using Cons by (cases "ls = []") (auto simp: join_Cons)
  qed
qed simp

lemma line_at_update: "l \<le> k \<Longrightarrow> line_at (ls[k := x]) l = line_at ls l"
  by (simp add: line_at_def)

text \<open>Replacing a part of a line replaces that part of the text.\<close>

lemma edit_line_region:
  assumes "l < length ls" "s \<le> e" "e \<le> length (ls ! l)"
  shows "str_join [NL] (ls[l := take s (ls ! l) @ t @ drop e (ls ! l)])
    = replace_region (mk_edit (int (line_at ls l + s)) (int (line_at ls l + e)) t) (str_join [NL] ls)"
proof -
  let ?a = "concat (map (\<lambda>x. x @ [NL]) (take l ls))" and ?x = "ls ! l"
  let ?r = "if Suc l < length ls then NL # str_join [NL] (drop (Suc l) ls) else []"
  have j: "str_join [NL] ls = ?a @ ?x @ ?r" by (rule join_split_at) (rule assms(1))
  have j': "str_join [NL] (ls[l := y]) = ?a @ y @ ?r" for y
    using join_split_at [of l "ls[l := y]"] assms(1) by simp
  show ?thesis unfolding j' j using assms(2,3) by (simp add: replace_region_def line_at_def nat_int_add flip: of_nat_add)
qed

section \<open>The preview agrees with \<open>ApplyEdits\<close>\<close>

text \<open>An edit within one existing line.\<close>

definition one_line :: "string list \<Rightarrow> TextEdit \<Rightarrow> bool" where
  "one_line ls e \<longleftrightarrow> unat (Line (start_of e)) < length ls \<and> Line (r_End (te_Range e)) = Line (start_of e)
     \<and> Character (start_of e) \<le> Character (r_End (te_Range e))
     \<and> unat (Character (r_End (te_Range e))) \<le> length (ls ! unat (Line (start_of e)))"

definition line_edit :: "string list \<Rightarrow> TextEdit \<Rightarrow> edit" where
  "line_edit ls e = mk_edit (int (line_at ls (unat (Line (start_of e))) + unat (Character (start_of e))))
     (int (line_at ls (unat (Line (start_of e))) + unat (Character (r_End (te_Range e))))) (te_NewText e)"

lemma apply_edit_one_line:
  assumes "one_line ls e"
  shows "\<exists>ls'. apply_edit ls e = Some ls' \<and> length ls' = length ls
     \<and> str_join [NL] ls' = replace_region (line_edit ls e) (str_join [NL] ls)
     \<and> (\<forall>k. k \<noteq> unat (Line (start_of e)) \<longrightarrow> ls' ! k = ls ! k)
     \<and> (\<forall>l \<le> unat (Line (start_of e)). line_at ls' l = line_at ls l)
     \<and> unat (Character (start_of e)) \<le> length (ls' ! unat (Line (start_of e)))"
proof -
  let ?l = "unat (Line (start_of e))" and ?s = "unat (Character (start_of e))" and ?e = "unat (Character (r_End (te_Range e)))"
  have b: "?l < length ls" "?s \<le> ?e" "?e \<le> length (ls ! ?l)" using assms by (auto simp: one_line_def word_le_nat_alt)
  let ?ls = "ls[?l := take ?s (ls ! ?l) @ te_NewText e @ drop ?e (ls ! ?l)]"
  have "apply_edit ls e = Some ?ls" using assms b by (simp add: apply_edit_def one_line_def Let_def)
  moreover have "str_join [NL] ?ls = replace_region (line_edit ls e) (str_join [NL] ls)"
    unfolding line_edit_def by (rule edit_line_region) (rule b)+
  ultimately show ?thesis using b by (intro exI [of _ ?ls]) (simp add: line_at_update)
qed

text \<open>The edits come in reverse order and do not overlap: each ends before the one applied just before it
  begins.\<close>

lemma apply_all_one_line:
  assumes "\<forall>e \<in> set es. one_line ls0 e"
    and "sorted_wrt (\<lambda>x y. r_End (te_Range y) \<le> start_of x) es"
    and "\<forall>e \<in> set es. one_line ls e \<and> line_edit ls e = line_edit ls0 e"
  shows "\<exists>ls'. apply_all ls es = Some ls' \<and> str_join [NL] ls' = fold replace_region (map (line_edit ls0) es) (str_join [NL] ls)"
  using assms
proof (induction es arbitrary: ls)
  case (Cons e es)
  obtain ls1 where ls1: "apply_edit ls e = Some ls1" "length ls1 = length ls"
    "str_join [NL] ls1 = replace_region (line_edit ls e) (str_join [NL] ls)"
    "\<And>k. k \<noteq> unat (Line (start_of e)) \<Longrightarrow> ls1 ! k = ls ! k"
    "\<And>l. l \<le> unat (Line (start_of e)) \<Longrightarrow> line_at ls1 l = line_at ls l"
    "unat (Character (start_of e)) \<le> length (ls1 ! unat (Line (start_of e)))"
    using apply_edit_one_line [of ls e] Cons.prems(3) by auto
  have "one_line ls1 x \<and> line_edit ls1 x = line_edit ls0 x" if x: "x \<in> set es" for x
  proof -
    have o: "one_line ls x" "line_edit ls x = line_edit ls0 x" "r_End (te_Range x) \<le> start_of e"
      using Cons.prems x by auto
    have le: "Line (start_of x) \<le> Line (start_of e)"
      "Line (start_of x) = Line (start_of e) \<Longrightarrow> Character (r_End (te_Range x)) \<le> Character (start_of e)"
      using o(1,3) by (auto simp: one_line_def less_eq_Position_def)
    have at: "line_at ls1 (unat (Line (start_of x))) = line_at ls (unat (Line (start_of x)))"
      using ls1(5) le(1) by (simp add: word_le_nat_alt)
    have "unat (Character (r_End (te_Range x))) \<le> length (ls1 ! unat (Line (start_of x)))"
    proof (cases "Line (start_of x) = Line (start_of e)")
      case True
      then show ?thesis using le(2) ls1(6) by (simp add: word_le_nat_alt)
    next
      case False
      then have "ls1 ! unat (Line (start_of x)) = ls ! unat (Line (start_of x))" by (intro ls1(4)) (simp add: word_unat_eq_iff)
      then show ?thesis using o(1) by (simp add: one_line_def)
    qed
    then show ?thesis using o at ls1(2) by (simp add: one_line_def line_edit_def)
  qed
  then have "\<forall>x \<in> set es. one_line ls1 x \<and> line_edit ls1 x = line_edit ls0 x" by blast
  from Cons.IH [OF _ _ this] obtain ls' where "apply_all ls1 es = Some ls'"
    "str_join [NL] ls' = fold replace_region (map (line_edit ls0) es) (str_join [NL] ls1)"
    using Cons.prems(1,2) by auto
  then show ?case using ls1(1,3) Cons.prems(3) by simp
qed simp

lemma position_loop_ascii:
  "position_loop s col8 col16 ch = Ok r \<Longrightarrow> \<forall>c \<in> set s. byte c < 0x80 \<Longrightarrow> col16 \<le> ch \<Longrightarrow>
     r = col8 + (ch - col16) \<and> ch - col16 \<le> length s \<and> NL \<notin> set (take (ch - col16) s)"
proof (induction s arbitrary: col8 col16)
  case Nil
  then show ?case by (cases "col16 < ch") (simp_all add: position_loop.simps [of "[]"] DecodeRune_def)
next
  case (Cons c s)
  have c: "DecodeRune (c # s) = (byte c, 1)" "byte c < 0x80" using Cons.prems(2) DecodeRune_ascii by auto
  show ?case
  proof (cases "col16 < ch")
    case True
    then obtain d where d: "ch - col16 = Suc d" "ch - (col16 + 1) = d" by (metis Suc_diff_Suc Suc_eq_plus1)
    have ne: "byte c \<noteq> 10" "position_loop s (col8 + 1) (col16 + 1) ch = Ok r"
      using Cons.prems(1) True c by (subst (asm) position_loop.simps; simp add: RuneError_def split: if_splits)+
    have "c \<noteq> NL" using ne(1) by auto
    then show ?thesis using Cons.IH [OF ne(2)] Cons.prems(2) True d by auto
  next
    case False
    then show ?thesis using Cons.prems(1,3) by (simp add: position_loop.simps)
  qed
qed

lemma lineStart_lines:
  "length (lineStart m) = length (split_byte NL (Content m))
   \<and> (\<forall>l < length (lineStart m). lineStart m ! l = line_at (split_byte NL (Content m)) l)"
proof -
  have "length (0 # map Suc (filter (\<lambda>i. s ! i = NL) [0..<length s])) = length (split_byte NL s)
     \<and> (\<forall>l < length (split_byte NL s). (0 # map Suc (filter (\<lambda>i. s ! i = NL) [0..<length s])) ! l = line_at (split_byte NL s) l)" for s
  proof (induction s)
    case Nil
    then show ?case by (simp add: line_at_def)
  next
    case (Cons c s)
    let ?f = "filter (\<lambda>i. s ! i = NL) [0..<length s]"
    have f: "filter (\<lambda>i. (c # s) ! i = NL) [0..<length (c # s)] = (if c = NL then [0] else []) @ map Suc ?f"
      by (simp add: upt_conv_Cons filter_map o_def map_Suc_upt [symmetric] del: upt_Suc map_Suc_upt)
    obtain p ps where ps: "split_byte NL s = p # ps" by (cases "split_byte NL s") auto
    have at: "\<And>l. l < length (p # ps) \<Longrightarrow> (0 # map Suc ?f) ! l = line_at (p # ps) l" "length ?f = length ps"
      using Cons.IH ps by auto
    show ?case
    proof (cases "c = NL")
      case True
      have "(0 # 1 # map (Suc \<circ> Suc) ?f) ! l = line_at ([] # p # ps) l" if l: "l < length ([] # p # ps)" for l
      proof (cases l)
        case (Suc l')
        have "line_at ([] # p # ps) (Suc l') = Suc (line_at (p # ps) l')" by (simp add: line_at_def)
        moreover have "(0 # 1 # map (Suc \<circ> Suc) ?f) ! Suc l' = Suc ((0 # map Suc ?f) ! l')"
          using l Suc at(2) by (cases l') auto
        ultimately show ?thesis using at(1) [of l'] l Suc by simp
      qed (simp add: line_at_def)
      then show ?thesis unfolding f using True ps at(2) by (simp add: o_def)
    next
      case False
      have "(0 # map (Suc \<circ> Suc) ?f) ! l = line_at ((c # p) # ps) l" if l: "l < length (p # ps)" for l
      proof (cases l)
        case (Suc l')
        have "line_at ((c # p) # ps) (Suc l') = Suc (line_at (p # ps) (Suc l'))" by (simp add: line_at_def)
        moreover have "(0 # map (Suc \<circ> Suc) ?f) ! Suc l' = Suc ((0 # map Suc ?f) ! Suc l')"
          using l Suc at(2) by simp
        ultimately show ?thesis using at(1) [of l] l Suc by simp
      qed (simp add: line_at_def)
      then show ?thesis unfolding f using False ps at(2) by (simp add: o_def)
    qed
  qed
  from this [of "Content m"] show ?thesis by (simp add: lineStart_def)
qed

lemma line_column:
  assumes "l < length (split_byte NL s)" "c \<le> length (drop (line_at (split_byte NL s) l) s)"
    "NL \<notin> set (take c (drop (line_at (split_byte NL s) l) s))"
  shows "c \<le> length (split_byte NL s ! l)"
proof (rule ccontr)
  let ?ls = "split_byte NL s" and ?r = "if Suc l < length (split_byte NL s) then NL # str_join [NL] (drop (Suc l) (split_byte NL s)) else []"
  assume c: "\<not> c \<le> length (?ls ! l)"
  have "s = concat (map (\<lambda>x. x @ [NL]) (take l ?ls)) @ ?ls ! l @ ?r"
    using join_split_at [OF assms(1)] by (simp add: join_split_byte)
  then have "drop (line_at ?ls l) s = ?ls ! l @ ?r" unfolding line_at_def by (metis append_eq_conv_conj)
  then show False using assms(2,3) c by (auto simp: take_Cons' split: if_splits)
qed

lemma PositionOffset_ascii:
  assumes "PositionOffset m p = Ok off" "\<forall>c \<in> set (Content m). byte c < 0x80" "length (Content m) < 2 ^ 32 - 1"
    "unat (Line p) < length (split_byte NL (Content m))"
  shows "off = int (line_at (split_byte NL (Content m)) (unat (Line p)) + unat (Character p))
    \<and> unat (Character p) \<le> length (split_byte NL (Content m) ! unat (Line p))"
proof -
  let ?ls = "split_byte NL (Content m)" and ?n = "of_nat (length (lineStart m)) :: 32 word"
  have len: "length (lineStart m) = length ?ls" using lineStart_lines by blast
  have "length ?ls < 2 ^ LENGTH(32)" using assms(3) count_le_length [of "Content m" NL] by simp
  then have n: "unat ?n = length ?ls" unfolding len unsigned_of_nat of_nat_id by (rule take_bit_nat_eq_self)
  then have lt: "\<not> Line p > ?n" "Line p \<noteq> ?n" using assms(4) by (auto simp: word_less_nat_alt)
  let ?o = "lineStart m ! unat (Line p)"
  have o: "?o = line_at ?ls (unat (Line p))" using lineStart_lines assms(4) len by auto
  obtain col8 where col8: "position_loop (drop ?o (Content m)) 0 0 (unat (Character p)) = Ok col8" "off = int (?o + col8)"
    using assms(1,4) lt len by (auto simp: PositionOffset_def Let_def bind_outcome_Ok_iff split: if_splits)
  have "\<forall>c \<in> set (drop ?o (Content m)). byte c < 0x80" using assms(2) by (meson in_set_dropD)
  from position_loop_ascii [OF col8(1) this]
  have c: "col8 = unat (Character p)" "unat (Character p) \<le> length (drop ?o (Content m))"
    "NL \<notin> set (take (unat (Character p)) (drop ?o (Content m)))" by auto
  show ?thesis using line_column [OF assms(4), of "unat (Character p)"] c col8(2) unfolding o by simp
qed

lemma RangeOffsets_ascii:
  assumes "RangeOffsets m (te_Range e) = Ok (s, t)" "\<forall>c \<in> set (Content m). byte c < 0x80" "length (Content m) < 2 ^ 32 - 1"
    "Line (r_End (te_Range e)) = Line (start_of e)" "unat (Line (start_of e)) < length (split_byte NL (Content m))"
  shows "one_line (split_byte NL (Content m)) e \<and> mk_edit s t (te_NewText e) = line_edit (split_byte NL (Content m)) e"
proof -
  have o: "PositionOffset m (start_of e) = Ok s" "PositionOffset m (r_End (te_Range e)) = Ok t" "s \<le> t"
    using assms(1) by (auto simp: RangeOffsets_def bind_outcome_Ok_iff start_of_def split: if_splits)
  have "s = int (line_at (split_byte NL (Content m)) (unat (Line (start_of e))) + unat (Character (start_of e)))"
    using PositionOffset_ascii [OF o(1) assms(2,3,5)] by simp
  moreover have "t = int (line_at (split_byte NL (Content m)) (unat (Line (start_of e))) + unat (Character (r_End (te_Range e))))"
    "unat (Character (r_End (te_Range e))) \<le> length (split_byte NL (Content m) ! unat (Line (start_of e)))"
    using PositionOffset_ascii [OF o(2) assms(2,3)] assms(4,5) by simp_all
  ultimately show ?thesis using o(3) assms(4,5) by (simp add: one_line_def line_edit_def word_le_nat_alt del: of_nat_unat)
qed

lemma EditsToDiffEdits_ascii:
  "EditsToDiffEdits m es = Ok des \<Longrightarrow> \<forall>c \<in> set (Content m). byte c < 0x80 \<Longrightarrow> length (Content m) < 2 ^ 32 - 1 \<Longrightarrow>
     \<forall>e \<in> set es. Line (r_End (te_Range e)) = Line (start_of e) \<and> unat (Line (start_of e)) < length (split_byte NL (Content m)) \<Longrightarrow>
     des = map (line_edit (split_byte NL (Content m))) es \<and> (\<forall>e \<in> set es. one_line (split_byte NL (Content m)) e)"
proof (induction es arbitrary: des)
  case (Cons e es)
  then obtain s t rest where st: "RangeOffsets m (te_Range e) = Ok (s, t)" "EditsToDiffEdits m es = Ok rest"
    "des = mk_edit s t (te_NewText e) # rest" by (auto simp: bind_outcome_Ok_iff split: prod.splits)
  then show ?case using RangeOffsets_ascii [OF st(1)] Cons by auto
qed simp

text \<open>Offsets are ordered as positions are.\<close>

lemma line_at_less:
  assumes "l < k" "k < length ls"
  shows "line_at ls l + length (ls ! l) < line_at ls k"
proof -
  have "take k ls = take l ls @ ls ! l # drop (Suc l) (take k ls)"
    using assms id_take_nth_drop [of l "take k ls"] by (simp add: min_def)
  then have "line_at ls k = length (concat (map (\<lambda>x. x @ [NL]) (take l ls @ ls ! l # drop (Suc l) (take k ls))))"
    unfolding line_at_def by (rule arg_cong)
  then show ?thesis by (simp add: line_at_def)
qed

lemma line_edit_order:
  assumes "one_line ls x" "one_line ls y"
  shows "start_of x < start_of y \<Longrightarrow> e_Start (line_edit ls x) < e_Start (line_edit ls y)"
    and "e_End (line_edit ls x) \<le> e_Start (line_edit ls y) \<Longrightarrow> r_End (te_Range x) \<le> start_of y"
proof -
  let ?l = "\<lambda>e. unat (Line (start_of e))"
  have b: "?l x < length ls" "?l y < length ls" "unat (Character (start_of x)) \<le> length (ls ! ?l x)"
    "unat (Character (start_of y)) \<le> length (ls ! ?l y)" "Line (r_End (te_Range x)) = Line (start_of x)"
    using assms by (auto simp: one_line_def word_le_nat_alt)
  show "e_Start (line_edit ls x) < e_Start (line_edit ls y)" if "start_of x < start_of y"
  proof (cases "?l x < ?l y")
    case True
    then show ?thesis using line_at_less [OF True b(2)] b(3) by (simp add: line_edit_def del: of_nat_unat)
  next
    case False
    then have "Line (start_of x) = Line (start_of y)" "Character (start_of x) < Character (start_of y)"
      using that by (auto simp: less_Position_def word_less_nat_alt)
    then show ?thesis by (simp add: line_edit_def word_less_nat_alt del: of_nat_unat)
  qed
  show "r_End (te_Range x) \<le> start_of y" if "e_End (line_edit ls x) \<le> e_Start (line_edit ls y)"
  proof -
    consider "?l x < ?l y" | "?l y < ?l x" | "Line (start_of x) = Line (start_of y)" by (metis linorder_less_linear word_unat_eq_iff)
    then show ?thesis
    proof cases
      case 1
      then show ?thesis using b(5) by (simp add: less_eq_Position_def word_less_nat_alt)
    next
      case 2
      then show ?thesis using that line_at_less [OF 2 b(1)] b(4) by (simp add: line_edit_def del: of_nat_unat)
    next
      case 3
      then show ?thesis using that b(5) by (simp add: less_eq_Position_def line_edit_def word_le_nat_alt del: of_nat_unat)
    qed
  qed
qed

lemma ok_edits_apart: "ok_edits n l es \<Longrightarrow> sorted_wrt (\<lambda>a b. e_End a \<le> e_Start b) es \<and> (\<forall>e \<in> set es. l \<le> e_Start e \<and> e_Start e \<le> e_End e)"
proof (induction es arbitrary: l)
  case (Cons e es)
  then show ?case using Cons.IH [of "e_End e"] by fastforce
qed simp

lemma sorted_unique:
  assumes "sorted (map f xs)" "sorted (map f ys)" "mset xs = mset ys" "inj_on f (set xs)"
  shows "xs = ys"
proof -
  have "mset (map f xs) = mset (map f ys)" using assms(3) by simp
  then have "map f xs = map f ys" using assms(1,2) by (metis properties_for_sort)
  then show ?thesis using assms(4) mset_eq_setD [OF assms(3)] by (metis map_inj_on sup.idem)
qed

text \<open>The sorted edits of the preview, turned around, are the sorted edits of \<open>Apply\<close>.\<close>

lemma sortEdits_SortEdits:
  assumes "\<forall>e \<in> set es. one_line ls e" "distinct (map start_of es)"
  shows "SortEdits (map (line_edit ls) es) = rev (map (line_edit ls) (sortEdits es))"
proof (rule sorted_unique [of edit_key])
  note s = sortEdits_sorted [of es]
  have set: "set (sortEdits es) = set es" using mset_eq_setD [OF conjunct1 [OF s]] .
  have d: "distinct (map start_of (sortEdits es))"
    using assms(2) conjunct1 [OF s] by (metis mset_eq_imp_distinct_iff mset_map)
  then have "sorted_wrt (\<lambda>x y. start_of y < start_of x) (sortEdits es)"
    using conjunct2 [OF s] by (auto simp: sorted_wrt_iff_nth_less distinct_conv_nth order_le_less)
  then have "sorted_wrt (\<lambda>x y. e_Start (line_edit ls y) < e_Start (line_edit ls x)) (sortEdits es)"
    by (rule sorted_wrt_mono_rel [rotated]) (use set assms(1) line_edit_order(1) in blast)
  then have "sorted_wrt (\<lambda>x y. edit_key (line_edit ls y) < edit_key (line_edit ls x)) (sortEdits es)"
    by (rule sorted_wrt_mono_rel [rotated]) (simp add: edit_key_def less_prod_def)
  then have r: "sorted_wrt (\<lambda>a b. edit_key a < edit_key b) (rev (map (line_edit ls) (sortEdits es)))"
    by (simp add: sorted_wrt_rev sorted_wrt_map)
  show "sorted (map edit_key (SortEdits (map (line_edit ls) es)))" by (simp add: SortEdits_def)
  show "sorted (map edit_key (rev (map (line_edit ls) (sortEdits es))))"
    using r by (auto simp: sorted_wrt_map intro: sorted_wrt_mono_rel [rotated])
  show "mset (SortEdits (map (line_edit ls) es)) = mset (rev (map (line_edit ls) (sortEdits es)))"
    using conjunct1 [OF s] by (simp add: SortEdits_def)
  have "sorted_wrt (<) (map edit_key (rev (map (line_edit ls) (sortEdits es))))" using r by (simp only: sorted_wrt_map)
  then have "distinct (map edit_key (rev (map (line_edit ls) (sortEdits es))))" by (simp only: strict_sorted_iff)
  then show "inj_on edit_key (set (SortEdits (map (line_edit ls) es)))"
    using set by (simp add: SortEdits_def distinct_map)
qed

text \<open>Claim C30: for a file of ASCII text, if \<open>ApplyEdits\<close> accepts the edits of a rename, each within one line and
  no two at the same position, then the preview's own loop over lines, on the edits in the order that
  \<open>sortEdits\<close> gives them, makes the very text that \<open>ApplyEdits\<close> makes.\<close>

theorem preview_applies_edits:
  assumes "ApplyEdits (NewMapper uri original) es = Ok (out, des)"
    and "\<forall>c \<in> set original. byte c < 0x80" "length original < 2 ^ 32 - 1"
    and "\<forall>e \<in> set es. Line (r_End (te_Range e)) = Line (start_of e) \<and> unat (Line (start_of e)) < length (split_byte NL original)"
    and "distinct (map start_of es)"
  shows "applyEdits original (sortEdits es) = Some out"
proof -
  let ?m = "NewMapper uri original" and ?ls = "split_byte NL original"
  have m: "Content ?m = original" by (simp add: NewMapper_def)
  have des: "EditsToDiffEdits ?m es = Ok des" "Apply original des = Ok out"
    using assms(1) m by (auto simp: ApplyEdits_def split: outcome.splits)
  from EditsToDiffEdits_ascii [OF des(1)] have d: "des = map (line_edit ?ls) es" "\<forall>e \<in> set es. one_line ?ls e"
    using assms(2-4) m by auto
  have ok: "ok_edits (int (length original)) 0 (SortEdits des)" "out = patch original 0 (SortEdits des)"
    using des(2) by (simp_all add: Apply_patch)
  have sorted: "SortEdits des = rev (map (line_edit ?ls) (sortEdits es))"
    unfolding d(1) by (rule sortEdits_SortEdits [OF d(2) assms(5)])
  have set: "set (sortEdits es) = set es" using sortEdits_sorted [of es] by (metis mset_eq_setD)
  have "sorted_wrt (\<lambda>x y. e_End (line_edit ?ls y) \<le> e_Start (line_edit ?ls x)) (sortEdits es)"
    using conjunct1 [OF ok_edits_apart [OF ok(1)]] unfolding sorted by (simp add: sorted_wrt_rev sorted_wrt_map)
  then have "sorted_wrt (\<lambda>x y. r_End (te_Range y) \<le> start_of x) (sortEdits es)"
    by (rule sorted_wrt_mono_rel [rotated]) (use set d(2) line_edit_order(2) in blast)
  from apply_all_one_line [of "sortEdits es" ?ls, OF _ this, of ?ls]
  obtain ls' where "apply_all ?ls (sortEdits es) = Some ls'"
    "str_join [NL] ls' = fold replace_region (map (line_edit ?ls) (sortEdits es)) (str_join [NL] ?ls)"
    using set d(2) by auto
  then have "applyEdits original (sortEdits es) = Some (apply_backwards (SortEdits des) original)"
    by (simp add: applyEdits_def join_split_byte apply_backwards_def sorted foldr_conv_fold)
  then show ?thesis using apply_backwards_patch [OF ok(1)] ok(2) by simp
qed

definition two_edits :: "TextEdit list" where
  "two_edits = [\<lparr>te_Range = Range (Position 0 1) (Position 0 1), te_NewText = ''YY''\<rparr>,
     \<lparr>te_Range = Range (Position 1 0) (Position 1 1), te_NewText = ''X''\<rparr>]"

lemma preview_applies_edits_witness:
  "applyEdits (''ab'' @ NL # ''cd'') (sortEdits two_edits) = Some (''aYYb'' @ NL # ''Xd'')"
proof -
  obtain des where "ApplyEdits (NewMapper ''f'' (''ab'' @ NL # ''cd'')) two_edits = Ok (''aYYb'' @ NL # ''Xd'', des)"
  proof
    show "ApplyEdits (NewMapper ''f'' (''ab'' @ NL # ''cd'')) two_edits
      = Ok (''aYYb'' @ NL # ''Xd'', [mk_edit 1 1 ''YY'', mk_edit 3 4 ''X''])" by code_simp
  qed
  from preview_applies_edits [OF this] show ?thesis by (auto simp: two_edits_def start_of_def)
qed

section \<open>What the hunks mean\<close>

text \<open>How a reader runs a hunk: copy up to its first changed line, skip the deleted lines, put the added ones.\<close>

definition marked :: "char \<Rightarrow> string \<Rightarrow> bool" where
  "marked c l = (case l of [] \<Rightarrow> False | d # _ \<Rightarrow> d = c)"

fun run_hunks :: "string list \<Rightarrow> nat \<Rightarrow> phunk list \<Rightarrow> string list" where
  "run_hunks orig pos [] = drop pos orig"
| "run_hunks orig pos (h # hs) =
     (let change = ph_origStart h - 1 + length (takeWhile (marked CHR '' '') (ph_lines h))
      in slice pos change orig @ map tl (filter (marked CHR ''+'') (ph_lines h))
         @ run_hunks orig (change + length (filter (marked CHR ''-'') (ph_lines h))) hs)"

lemma marked_map [simp]: "filter (marked c) (map ((#) d) ls) = (if c = d then map ((#) d) ls else [])"
  "filter (\<lambda>l. \<not> marked c l) (map ((#) d) ls) = (if c = d then [] else map ((#) d) ls)"
  by (auto simp: marked_def filter_empty_conv)

lemma map_tl_marked [simp]: "map tl (map ((#) d) ls) = ls"
  by (simp add: o_def)

lemma takeWhile_marked: "(\<forall>l. xs \<noteq> [] \<longrightarrow> \<not> marked c (hd xs)) \<Longrightarrow> takeWhile (marked c) (map ((#) c) ls @ xs) = map ((#) c) ls"
  by (subst takeWhile_append2) (auto simp: marked_def takeWhile_eq_Nil_iff)

lemma make_hunk_lines:
  assumes "i < oe \<or> j < me" "i \<le> oe" "j \<le> me" "oe \<le> length orig" "me \<le> length modl"
  shows "ph_origStart (make_hunk orig modl i j oe me) - 1
      + length (takeWhile (marked CHR '' '') (ph_lines (make_hunk orig modl i j oe me))) = i"
    "map tl (filter (marked CHR ''+'') (ph_lines (make_hunk orig modl i j oe me))) = slice j me modl"
    "length (filter (marked CHR ''-'') (ph_lines (make_hunk orig modl i j oe me))) = oe - i"
    "map tl (filter (\<lambda>l. \<not> marked CHR ''+'' l) (ph_lines (make_hunk orig modl i j oe me)))
      = slice (i - contextSize) (min (length orig) (oe + contextSize)) orig"
    "ph_modCount (make_hunk orig modl i j oe me)
      = int (length (filter (\<lambda>l. \<not> marked CHR ''-'' l) (ph_lines (make_hunk orig modl i j oe me)))) + (int j - int i)"
proof -
  let ?ctx = "slice (i - contextSize) i orig" and ?after = "slice oe (min (length orig) (oe + contextSize)) orig"
  have l: "ph_lines (make_hunk orig modl i j oe me) = map ((#) CHR '' '') ?ctx @ map ((#) CHR ''-'') (slice i oe orig)
      @ map ((#) CHR ''+'') (slice j me modl) @ map ((#) CHR '' '') ?after" by (simp add: make_hunk_def Let_def)
  have "slice i oe orig \<noteq> [] \<or> slice j me modl \<noteq> []" using assms
    by (metis length_slice diff_is_0_eq list.size(3) min_def not_le diff_le_mono)
  then have "takeWhile (marked CHR '' '') (ph_lines (make_hunk orig modl i j oe me)) = map ((#) CHR '' '') ?ctx"
    unfolding l by (intro takeWhile_marked) (auto simp: marked_def hd_append hd_map)
  then show "ph_origStart (make_hunk orig modl i j oe me) - 1
      + length (takeWhile (marked CHR '' '') (ph_lines (make_hunk orig modl i j oe me))) = i"
    using assms by (simp add: make_hunk_def Let_def)
  show "map tl (filter (marked CHR ''+'') (ph_lines (make_hunk orig modl i j oe me))) = slice j me modl"
    "length (filter (marked CHR ''-'') (ph_lines (make_hunk orig modl i j oe me))) = oe - i"
    using assms by (simp_all add: l del: map_map)
  have "?ctx @ slice i oe orig @ ?after = slice (i - contextSize) (min (length orig) (oe + contextSize)) orig"
    using assms by (simp add: slice_append_slice)
  then show "map tl (filter (\<lambda>l. \<not> marked CHR ''+'' l) (ph_lines (make_hunk orig modl i j oe me)))
      = slice (i - contextSize) (min (length orig) (oe + contextSize)) orig" by (simp add: l del: map_map)
  show "ph_modCount (make_hunk orig modl i j oe me)
      = int (length (filter (\<lambda>l. \<not> marked CHR ''-'' l) (ph_lines (make_hunk orig modl i j oe me)))) + (int j - int i)"
    unfolding l using assms by (simp add: make_hunk_def Let_def)
qed

lemma difference_bounds:
  assumes "i \<le> length orig" "j \<le> length modl" "oe = deletions_end orig modl i j" "me = additions_end orig modl oe j"
  shows "i \<le> oe" "j \<le> me" "oe \<le> length orig" "me \<le> length modl"
  using assms deletions_end_ge [of i orig modl j] additions_end_ge [of j orig modl oe] by auto

definition quotes :: "string list \<Rightarrow> phunk \<Rightarrow> bool" where
  "quotes orig h = (map tl (filter (\<lambda>l. \<not> marked CHR ''+'' l) (ph_lines h))
     = slice (ph_origStart h - 1) (ph_origStart h - 1 + ph_origCount h) orig)"

lemma hunks_from_run:
  "p \<le> i \<Longrightarrow> i \<le> length orig \<Longrightarrow> j \<le> length modl \<Longrightarrow>
     run_hunks orig p (hunks_from orig modl i j) = slice p i orig @ drop j modl
     \<and> (\<forall>h \<in> set (hunks_from orig modl i j). quotes orig h)
     \<and> (\<forall>h hs. hunks_from orig modl i j = h # hs \<longrightarrow>
          ph_modCount h = int (length (filter (\<lambda>l. \<not> marked CHR ''-'' l) (ph_lines h))) + (int j - int i))"
proof (induction orig modl i j arbitrary: p rule: hunks_from.induct)
  case (1 orig modl i j)
  consider "\<not> (i < length orig \<or> j < length modl)" | "i < length orig" "j < length modl" "orig ! i = modl ! j"
    | "i < length orig \<or> j < length modl" "\<not> (i < length orig \<and> j < length modl \<and> orig ! i = modl ! j)" by blast
  then show ?case
  proof cases
    case 1
    then show ?thesis using "1.prems" by (simp add: hunks_from.simps slice_to_end)
  next
    case 2
    have "slice p (Suc i) orig @ drop (Suc j) modl = slice p i orig @ drop j modl"
      using 2 "1.prems"(1) slice_append_slice [of p i "Suc i" orig]
      by (simp add: Cons_nth_drop_Suc slice_def take_Suc_conv_app_nth Suc_diff_le)
    then show ?thesis using "1.IH"(1) [of p] 2 "1.prems" by (subst (1 2 3) hunks_from.simps) simp
  next
    case 3
    define oe me where oe: "oe = deletions_end orig modl i j" and me: "me = additions_end orig modl oe j"
    note b = difference_bounds [OF "1.prems"(2,3) oe me]
    let ?h = "make_hunk orig modl i j oe me"
    have f: "hunks_from orig modl i j = ?h # hunks_from orig modl oe me"
      using 3 oe me by (subst hunks_from.simps) (auto simp: Let_def)
    have d: "i < oe \<or> j < me" using difference_ends [OF 3] oe me by simp
    note h = make_hunk_lines [OF d b]
    note ih = "1.IH"(2) [OF 3 oe me order_refl b(3,4)]
    have q: "ph_origStart ?h - 1 = i - contextSize" "ph_origStart ?h - 1 + ph_origCount ?h = min (length orig) (oe + contextSize)"
      using b by (simp_all add: make_hunk_def Let_def)
    have "run_hunks orig p (hunks_from orig modl i j) = slice p i orig @ slice j me modl @ drop me modl"
      using ih h(1-3) b(1) by (simp add: f Let_def)
    then show ?thesis using ih h(4,5) b(2) q by (simp add: f quotes_def slice_append_drop)
  qed
qed

text \<open>The hunks of the preview carry the whole change.  Running their deletions and additions one after
  another on the old lines gives exactly the new lines; in every hunk the context and deleted lines are the old
  lines its header points at, with the right count; and the first hunk's count of new lines is right (equal
  lists give no hunk at all).  The counts of later hunks can be wrong (\<open>second_hunk_header\<close>).\<close>

theorem generateHunks_script:
  "run_hunks origLines 0 (generateHunks origLines modLines) = modLines
   \<and> (\<forall>h \<in> set (generateHunks origLines modLines).
        map tl (filter (\<lambda>l. \<not> marked CHR ''+'' l) (ph_lines h))
          = slice (ph_origStart h - 1) (ph_origStart h - 1 + ph_origCount h) origLines)
   \<and> (\<forall>h hs. generateHunks origLines modLines = h # hs \<longrightarrow>
        ph_modCount h = int (length (filter (\<lambda>l. \<not> marked CHR ''-'' l) (ph_lines h))))
   \<and> generateHunks origLines origLines = []"
proof -
  have "hunks_from origLines origLines i i = []" for i
    by (induction "length origLines - i" arbitrary: i) (subst hunks_from.simps; simp)+
  then show ?thesis
    using hunks_from_run [of 0 0 origLines 0 modLines] by (auto simp: generateHunks_def quotes_def)
qed

lemma generateHunks_script_witness:
  "generateHunks [''a'', ''b''] [''a'', ''c''] = [\<lparr>ph_origStart = 1, ph_origCount = 2, ph_modStart = 1, ph_modCount = 2,
      ph_lines = ['' a'', ''-b'', ''+c'']\<rparr>]
   \<and> run_hunks [''a'', ''b''] 0 (generateHunks [''a'', ''b''] [''a'', ''c'']) = [''a'', ''c'']
   \<and> map tl (filter (\<lambda>l. \<not> marked CHR ''+'' l) ['' a'', ''-b'', ''+c'']) = slice 0 2 [''a'', ''b'']"
proof -
  have g: "generateHunks [''a'', ''b''] [''a'', ''c''] = [\<lparr>ph_origStart = 1, ph_origCount = 2, ph_modStart = 1, ph_modCount = 2,
      ph_lines = ['' a'', ''-b'', ''+c'']\<rparr>]" by code_simp
  show ?thesis
    using generateHunks_script [of "[''a'', ''b'']" "[''a'', ''c'']"]
    by (simp add: g eval_nat_numeral)
qed

lemma second_hunk_header:
  "map ph_modCount (generateHunks [''a'', ''b'', ''X'', ''c''] [''a'', ''X'', ''X'', ''c'']) \<noteq>
     map (\<lambda>h. int (length (filter (\<lambda>l. \<not> marked CHR ''-'' l) (ph_lines h))))
       (generateHunks [''a'', ''b'', ''X'', ''c''] [''a'', ''X'', ''X'', ''c''])"
  by code_simp

text \<open>A multi-line edit that ends at the line past the last one panics, and columns are taken as bytes.\<close>

lemma applyEdits_beyond_end:
  "applyEdits ''ab'' [\<lparr>te_Range = Range (Position 0 0) (Position 1 0), te_NewText = ''x''\<rparr>] = None"
  by code_simp

end
