(* ===== verification/Resolve_Node.thy ===== *)
theory Resolve_Node
  imports Symbol_Search
begin

text \<open>
  How the tools find the symbol that an agent names: \<open>ResolveNode\<close> of \<open>gopls/internal/golang/llm_bridge.go\<close>
  walks the syntax tree of a file with a stack of scopes, filters the identifiers of the right name and
  keeps the best.  The walk is that of \<open>ast.Inspect\<close>; what \<open>go/types\<close> knows about an identifier is an
  argument.  \<open>located\<close> and \<open>best_index\<close> say without a stack what the walk finds.
\<close>

section \<open>Syntax and types\<close>

text \<open>The nodes that the code distinguishes.  \<open>children\<close> are listed in the order of \<open>ast.Walk\<close>; identifiers are
  told apart by their position.  A function declaration also carries the types of its receiver list.\<close>

datatype anode =
  AIdent int string
| AFuncDecl "anode list option" string "anode list"
| ATypeSpec string "anode list"
| ASelector anode int string
| AParen anode
| AStar anode
| AIndex "anode list"
| AOther "anode list"

text \<open>Types and objects of \<open>go/types\<close>, as far as the code looks into them.\<close>

datatype gotype = Named string | Pointer gotype | OtherType

datatype tobject = FuncObj "gotype option" | VarObj bool | ConstObj | TypeNameObj | OtherObj

record SymbolLocator =
  lo_SymbolName :: string
  lo_ContextFile :: string
  lo_PackageIdentifier :: string
  lo_ParentScope :: string
  lo_Kind :: string
  lo_LineHint :: int
  lo_SignatureSnippet :: string

record ResolveNodeResult =
  rs_Pos :: int
  rs_Object :: "tobject option"
  rs_EnclosingFunc :: string
  rs_IsDefinition :: bool

text \<open>\<open>ri_uses\<close> and \<open>ri_defs\<close> are \<open>info.Uses\<close> and \<open>info.Defs\<close>, \<open>ri_line\<close> the line of a position, \<open>ri_unicode\<close> lower
  case beyond ASCII.\<close>

record resolve_info =
  ri_uses :: "int \<Rightarrow> tobject option"
  ri_defs :: "int \<Rightarrow> tobject option"
  ri_line :: "int \<Rightarrow> int"
  ri_unicode :: "string \<Rightarrow> string"

section \<open>Scopes, parents and kinds\<close>

record scopeFrame =
  sf_node :: anode
  sf_enclosingFunc :: string

definition getReceiverTypeName :: "anode list option \<Rightarrow> string" where
  "getReceiverTypeName recv =
     (case recv of
        None \<Rightarrow> []
      | Some [] \<Rightarrow> []
      | Some (t # _) \<Rightarrow>
          (case t of
             AStar x \<Rightarrow> (case x of AIdent _ n \<Rightarrow> CHR ''*'' # n | _ \<Rightarrow> [])
           | AIdent _ n \<Rightarrow> n
           | _ \<Rightarrow> []))"

text \<open>The top of the stack is the head of the list.\<close>

definition updateScopeStack :: "anode \<Rightarrow> scopeFrame list \<Rightarrow> scopeFrame" where
  "updateScopeStack n currentStack =
     \<lparr>sf_node = n,
      sf_enclosingFunc =
        (case n of
           AFuncDecl recv name _ \<Rightarrow>
             (if recv = None then name else ''('' @ getReceiverTypeName recv @ '').'' @ name)
         | ATypeSpec name _ \<Rightarrow> name
         | _ \<Rightarrow> sf_enclosingFunc (hd currentStack))\<rparr>"

fun getNamedType :: "gotype \<Rightarrow> string option" where
  "getNamedType (Named n) = Some n"
| "getNamedType (Pointer t) = getNamedType t"
| "getNamedType OtherType = None"

definition getParentScope :: "tobject option \<Rightarrow> string \<Rightarrow> string" where
  "getParentScope obj enclosingFunc =
     (case obj of
        Some (FuncObj (Some recv)) \<Rightarrow>
          (case getNamedType recv of Some n \<Rightarrow> CHR ''*'' # n | None \<Rightarrow> enclosingFunc)
      | _ \<Rightarrow> enclosingFunc)"

definition getKindString :: "tobject \<Rightarrow> string" where
  "getKindString obj =
     (case obj of
        FuncObj _ \<Rightarrow> ''function''
      | VarObj field \<Rightarrow> (if field then ''field'' else ''variable'')
      | ConstObj \<Rightarrow> ''const''
      | TypeNameObj \<Rightarrow> ''type''
      | OtherObj \<Rightarrow> [])"

fun extractSelector :: "anode \<Rightarrow> string" where
  "extractSelector (AIdent _ n) = n"
| "extractSelector (ASelector x _ _) = extractSelector x"
| "extractSelector (AParen x) = extractSelector x"
| "extractSelector _ = []"

definition extractNodeParentAndKind :: "int \<Rightarrow> tobject option \<Rightarrow> scopeFrame list \<Rightarrow> string \<times> string" where
  "extractNodeParentAndKind pos obj currentStack =
     (let enclosing = sf_enclosingFunc (hd currentStack);
          parent = (case obj of Some _ \<Rightarrow> getParentScope obj enclosing | None \<Rightarrow> enclosing);
          kind = (case obj of Some t \<Rightarrow> getKindString t | None \<Rightarrow> [])
      in (case sf_node (hd currentStack) of
            ASelector x selpos _ \<Rightarrow> if selpos = pos then extractSelector x else parent
          | _ \<Rightarrow> parent, kind))"

definition normalizeKind :: "(string \<Rightarrow> string) \<Rightarrow> string \<Rightarrow> string" where
  "normalizeKind uni kind0 =
     (let kind = ToLower uni kind0
      in if kind = ''function'' \<or> kind = ''method'' then ''function''
         else if kind = ''struct'' \<or> kind = ''interface'' \<or> kind = ''type'' then ''type''
         else kind)"

definition normalizeKindMatches :: "(string \<Rightarrow> string) \<Rightarrow> string \<Rightarrow> string \<Rightarrow> bool" where
  "normalizeKindMatches uni a b \<longleftrightarrow> normalizeKind uni a = normalizeKind uni b"

text \<open>\<open>None\<close> if the filters pass, else the reason.\<close>

definition matchesLocatorFilters :: "(string \<Rightarrow> string) \<Rightarrow> SymbolLocator \<Rightarrow> string \<Rightarrow> string \<Rightarrow> string option" where
  "matchesLocatorFilters uni locator nodeParent nodeKind =
     (if lo_ParentScope locator \<noteq> [] \<and> trim_prefix nodeParent ''*'' \<noteq> trim_prefix (lo_ParentScope locator) ''*''
      then Some ''parent scope mismatch''
      else if lo_Kind locator \<noteq> [] \<and> nodeKind \<noteq> [] \<and> \<not> normalizeKindMatches uni nodeKind (lo_Kind locator)
      then Some ''kind mismatch''
      else None)"

section \<open>Selection\<close>

text \<open>\<open>confidence\<close> is a \<open>float64\<close>, here a numerator and a positive denominator; quotients of 1 by line distances
  below \<open>2 ^ 31\<close> are told apart by a \<open>float64\<close>, so that the fractions compare the same way.\<close>

definition scoreCandidate :: "resolve_info \<Rightarrow> SymbolLocator \<Rightarrow> ResolveNodeResult \<Rightarrow> int \<times> int" where
  "scoreCandidate info locator c =
     (if lo_LineHint locator > 0 then (1, \<bar>ri_line info (rs_Pos c) - lo_LineHint locator\<bar> + 1) else (1, 2))"

definition more_confident :: "int \<times> int \<Rightarrow> int \<times> int \<Rightarrow> bool" where
  "more_confident a b \<longleftrightarrow> fst a * snd b > fst b * snd a"

definition selectBestCandidate :: "resolve_info \<Rightarrow> SymbolLocator \<Rightarrow> ResolveNodeResult option \<Rightarrow> ResolveNodeResult \<Rightarrow> bool \<Rightarrow> ResolveNodeResult" where
  "selectBestCandidate info locator current new newIsDef =
     (case current of
        None \<Rightarrow> new
      | Some cur \<Rightarrow>
          if lo_LineHint locator > 0 then
            (if more_confident (scoreCandidate info locator new) (scoreCandidate info locator cur) then new else cur)
          else if newIsDef \<and> \<not> rs_IsDefinition cur then new
          else cur)"

section \<open>The walk\<close>

record walk_state =
  ws_stack :: "scopeFrame list"
  ws_candidates :: "ResolveNodeResult list"
  ws_best :: "ResolveNodeResult option"

text \<open>The callback for a node, and for the nil that follows its children.\<close>

definition visit :: "resolve_info \<Rightarrow> SymbolLocator \<Rightarrow> anode \<Rightarrow> walk_state \<Rightarrow> walk_state" where
  "visit info locator n st =
     (let stack = updateScopeStack n (ws_stack st) # ws_stack st; st1 = st\<lparr>ws_stack := stack\<rparr>
      in case n of
           AIdent pos name \<Rightarrow>
             (if name \<noteq> lo_SymbolName locator then st1
              else
                let obj = (case ri_uses info pos of Some t \<Rightarrow> Some t | None \<Rightarrow> ri_defs info pos);
                    isDef = (ri_uses info pos = None \<and> obj \<noteq> None);
                    (parent, kind) = extractNodeParentAndKind pos obj stack
                in if matchesLocatorFilters (ri_unicode info) locator parent kind \<noteq> None then st1
                   else
                     let candidate = \<lparr>rs_Pos = pos, rs_Object = obj, rs_EnclosingFunc = sf_enclosingFunc (hd stack), rs_IsDefinition = isDef\<rparr>
                     in st1\<lparr>ws_candidates := ws_candidates st @ [candidate],
                            ws_best := Some (selectBestCandidate info locator (ws_best st) candidate isDef)\<rparr>)
         | _ \<Rightarrow> st1)"

definition leave :: "walk_state \<Rightarrow> walk_state" where
  "leave st = (if length (ws_stack st) > 1 then st\<lparr>ws_stack := tl (ws_stack st)\<rparr> else st)"

fun inspect :: "resolve_info \<Rightarrow> SymbolLocator \<Rightarrow> anode \<Rightarrow> walk_state \<Rightarrow> walk_state"
  and inspect_all :: "resolve_info \<Rightarrow> SymbolLocator \<Rightarrow> anode list \<Rightarrow> walk_state \<Rightarrow> walk_state" where
  "inspect info locator (AIdent p n) st = leave (visit info locator (AIdent p n) st)"
| "inspect info locator (AFuncDecl r n cs) st = leave (inspect_all info locator cs (visit info locator (AFuncDecl r n cs) st))"
| "inspect info locator (ATypeSpec n cs) st = leave (inspect_all info locator cs (visit info locator (ATypeSpec n cs) st))"
| "inspect info locator (ASelector x p n) st =
     leave (leave (visit info locator (AIdent p n) (inspect info locator x (visit info locator (ASelector x p n) st))))"
| "inspect info locator (AParen x) st = leave (inspect info locator x (visit info locator (AParen x) st))"
| "inspect info locator (AStar x) st = leave (inspect info locator x (visit info locator (AStar x) st))"
| "inspect info locator (AIndex cs) st = leave (inspect_all info locator cs (visit info locator (AIndex cs) st))"
| "inspect info locator (AOther cs) st = leave (inspect_all info locator cs (visit info locator (AOther cs) st))"
| "inspect_all info locator [] st = st"
| "inspect_all info locator (c # cs) st = inspect_all info locator cs (inspect info locator c st)"

text \<open>\<open>pkgfile\<close> is what \<open>NarrowestPackageForFile\<close> answers: the syntax of the file and its type information.\<close>

definition ResolveNode :: "(string, anode \<times> resolve_info) outcome \<Rightarrow> SymbolLocator \<Rightarrow> (string, ResolveNodeResult) outcome" where
  "ResolveNode pkgfile locator =
     (case pkgfile of
        Err e \<Rightarrow> Err (''failed to get package for '' @ lo_ContextFile locator @ '': '' @ e)
      | Panic \<Rightarrow> Panic
      | Ok (file, info) \<Rightarrow>
          let st = inspect info locator file
                \<lparr>ws_stack = [\<lparr>sf_node = file, sf_enclosingFunc = []\<rparr>], ws_candidates = [], ws_best = None\<rparr>
          in case ws_best st of
               Some b \<Rightarrow> Ok b
             | None \<Rightarrow>
                 (case ws_candidates st of
                    [] \<Rightarrow> Err (''symbol '' @ [CHR 0x27] @ lo_SymbolName locator @ [CHR 0x27] @ '' not found in file'')
                  | c # _ \<Rightarrow> Ok c))"

section \<open>What the walk finds\<close>

text \<open>All identifiers in order, each with the innermost function or type declaration around it.\<close>

fun idents :: "string \<Rightarrow> anode \<Rightarrow> (int \<times> string \<times> string) list" where
  "idents e (AIdent p n) = [(p, n, e)]"
| "idents e (AFuncDecl r n cs) =
     concat (map (idents (if r = None then n else ''('' @ getReceiverTypeName r @ '').'' @ n)) cs)"
| "idents e (ATypeSpec n cs) = concat (map (idents n) cs)"
| "idents e (ASelector x p n) = idents e x @ [(p, n, e)]"
| "idents e (AParen x) = idents e x"
| "idents e (AStar x) = idents e x"
| "idents e (AIndex cs) = concat (map (idents e) cs)"
| "idents e (AOther cs) = concat (map (idents e) cs)"

definition object_at :: "resolve_info \<Rightarrow> int \<Rightarrow> tobject option" where
  "object_at info p = (case ri_uses info p of Some t \<Rightarrow> Some t | None \<Rightarrow> ri_defs info p)"

definition as_result :: "resolve_info \<Rightarrow> int \<times> string \<times> string \<Rightarrow> ResolveNodeResult" where
  "as_result info i = (case i of (p, n, e) \<Rightarrow>
     \<lparr>rs_Pos = p, rs_Object = object_at info p, rs_EnclosingFunc = e,
      rs_IsDefinition = (ri_uses info p = None \<and> object_at info p \<noteq> None)\<rparr>)"

definition wanted :: "resolve_info \<Rightarrow> SymbolLocator \<Rightarrow> int \<times> string \<times> string \<Rightarrow> bool" where
  "wanted info locator i = (case i of (p, n, e) \<Rightarrow>
     n = lo_SymbolName locator
     \<and> (lo_ParentScope locator = []
        \<or> trim_prefix (getParentScope (object_at info p) e) ''*'' = trim_prefix (lo_ParentScope locator) ''*'')
     \<and> (lo_Kind locator = [] \<or> object_at info p \<in> {None, Some OtherObj}
        \<or> (\<exists>t. object_at info p = Some t
             \<and> normalizeKindMatches (ri_unicode info) (getKindString t) (lo_Kind locator))))"

definition located :: "resolve_info \<Rightarrow> SymbolLocator \<Rightarrow> string \<Rightarrow> anode \<Rightarrow> ResolveNodeResult list" where
  "located info locator e n = map (as_result info) (filter (wanted info locator) (idents e n))"

lemma getKindString_Nil: "getKindString t = [] \<longleftrightarrow> t = OtherObj"
  by (cases t) (simp_all add: getKindString_def)

text \<open>The test for a selector never succeeds: the identifier itself is already on the stack.\<close>

lemma ident_parent:
  "extractNodeParentAndKind p obj (updateScopeStack (AIdent p n) stack # stack)
     = (getParentScope obj (sf_enclosingFunc (hd stack)), case obj of Some t \<Rightarrow> getKindString t | None \<Rightarrow> [])"
  by (simp add: extractNodeParentAndKind_def updateScopeStack_def getParentScope_def Let_def split: option.split)

definition add_found :: "resolve_info \<Rightarrow> SymbolLocator \<Rightarrow> ResolveNodeResult list \<Rightarrow> walk_state \<Rightarrow> walk_state" where
  "add_found info locator cs st =
     st\<lparr>ws_candidates := ws_candidates st @ cs,
        ws_best := fold (\<lambda>c b. Some (selectBestCandidate info locator b c (rs_IsDefinition c))) cs (ws_best st)\<rparr>"

lemma add_found_simps [simp]:
  "add_found info locator [] st = st"
  "add_found info locator (cs @ cs') st = add_found info locator cs' (add_found info locator cs st)"
  "ws_stack (add_found info locator cs st) = ws_stack st"
  by (simp_all add: add_found_def)

lemma matches_wanted:
  "matchesLocatorFilters (ri_unicode info) locator (getParentScope (object_at info p) e)
       (case object_at info p of Some t \<Rightarrow> getKindString t | None \<Rightarrow> []) = None
     \<longleftrightarrow> wanted info locator (p, lo_SymbolName locator, e)"
  by (cases "object_at info p") (auto simp: matchesLocatorFilters_def wanted_def getKindString_Nil)

lemma ident_scope: "sf_enclosingFunc (updateScopeStack (AIdent p n) stack) = sf_enclosingFunc (hd stack)"
  by (simp add: updateScopeStack_def)

lemma visit_ident:
  "ws_stack st \<noteq> [] \<Longrightarrow> leave (visit info locator (AIdent p n) st) = add_found info locator
     (map (as_result info) (filter (wanted info locator) [(p, n, sf_enclosingFunc (hd (ws_stack st)))])) st"
proof (cases "n = lo_SymbolName locator")
  case True
  then show "ws_stack st \<noteq> [] \<Longrightarrow> ?thesis"
    by (simp add: visit_def ident_parent ident_scope leave_def matches_wanted as_result_def add_found_def Let_def del: not_None_eq
        flip: object_at_def)
next
  case False
  then show "ws_stack st \<noteq> [] \<Longrightarrow> ?thesis" by (simp add: visit_def leave_def wanted_def Let_def)
qed

lemma visit_other:
  "\<forall>p n. x \<noteq> AIdent p n \<Longrightarrow> visit info locator x st = st\<lparr>ws_stack := updateScopeStack x (ws_stack st) # ws_stack st\<rparr>"
  by (cases x) (simp_all add: visit_def Let_def)

lemma leave_found:
  "ws_stack st \<noteq> [] \<Longrightarrow> leave (add_found info locator cs (st\<lparr>ws_stack := f # ws_stack st\<rparr>)) = add_found info locator cs st"
  by (simp add: leave_def add_found_def)

lemma located_simps [simp]:
  "located info locator e (AFuncDecl r n cs) =
     concat (map (located info locator (if r = None then n else ''('' @ getReceiverTypeName r @ '').'' @ n)) cs)"
  "located info locator e (ATypeSpec n cs) = concat (map (located info locator n) cs)"
  "located info locator e (ASelector x p n) = located info locator e x @ located info locator e (AIdent p n)"
  "located info locator e (AParen x) = located info locator e x"
  "located info locator e (AStar x) = located info locator e x"
  "located info locator e (AIndex cs) = concat (map (located info locator e) cs)"
  "located info locator e (AOther cs) = concat (map (located info locator e) cs)"
  by (simp_all add: located_def [abs_def] filter_concat map_concat o_def)

lemma inspect_located:
  "ws_stack st \<noteq> [] \<Longrightarrow>
     inspect info locator n st = add_found info locator (located info locator (sf_enclosingFunc (hd (ws_stack st))) n) st"
  "ws_stack st \<noteq> [] \<Longrightarrow>
     inspect_all info locator ns st
       = add_found info locator (concat (map (located info locator (sf_enclosingFunc (hd (ws_stack st)))) ns)) st"
proof (induction info locator n st and info locator ns st rule: inspect_inspect_all.induct)
  case (1 info locator p n st)
  then show ?case by (simp add: visit_ident located_def)
next
  case (4 info locator x p n st)
  then show ?case
    by (simp add: visit_other leave_found visit_ident located_def updateScopeStack_def flip: add_found_simps(2))
qed (simp_all add: visit_other leave_found updateScopeStack_def)

section \<open>The choice\<close>

definition hint_distance :: "resolve_info \<Rightarrow> SymbolLocator \<Rightarrow> ResolveNodeResult \<Rightarrow> int" where
  "hint_distance info locator c = \<bar>ri_line info (rs_Pos c) - lo_LineHint locator\<bar>"

lemma scoreCandidate_less:
  "lo_LineHint locator > 0 \<Longrightarrow>
     more_confident (scoreCandidate info locator b) (scoreCandidate info locator a)
       \<longleftrightarrow> hint_distance info locator b < hint_distance info locator a"
  by (simp add: scoreCandidate_def hint_distance_def more_confident_def) arith

text \<open>With a line hint: the first of the nearest candidates.  Without: the first definition, else the first.\<close>

definition best_index :: "resolve_info \<Rightarrow> SymbolLocator \<Rightarrow> ResolveNodeResult list \<Rightarrow> nat \<Rightarrow> bool" where
  "best_index info locator cs i \<longleftrightarrow> i < length cs
     \<and> (if lo_LineHint locator > 0
        then (\<forall>j < length cs. hint_distance info locator (cs ! i) \<le> hint_distance info locator (cs ! j))
          \<and> (\<forall>j < i. hint_distance info locator (cs ! i) < hint_distance info locator (cs ! j))
        else if list_ex rs_IsDefinition cs
        then rs_IsDefinition (cs ! i) \<and> (\<forall>j < i. \<not> rs_IsDefinition (cs ! j))
        else i = 0)"

lemma best_index_step:
  assumes "best_index info locator cs i"
  shows "\<exists>k. best_index info locator (cs @ [c]) k
    \<and> (cs @ [c]) ! k = selectBestCandidate info locator (Some (cs ! i)) c (rs_IsDefinition c)"
proof -
  have i: "i < length cs" "(cs @ [c]) ! i = cs ! i" using assms by (auto simp: best_index_def nth_append)
  show ?thesis
  proof (cases "lo_LineHint locator > 0")
    case True
    then show ?thesis
    proof (cases "hint_distance info locator c < hint_distance info locator (cs ! i)")
      case True
      then have "best_index info locator (cs @ [c]) (length cs)"
        using assms \<open>lo_LineHint locator > 0\<close> by (fastforce simp: best_index_def nth_append less_Suc_eq)
      then show ?thesis using True \<open>lo_LineHint locator > 0\<close>
        by (intro exI [of _ "length cs"]) (simp add: selectBestCandidate_def scoreCandidate_less)
    next
      case False
      then have "best_index info locator (cs @ [c]) i"
        using assms i \<open>lo_LineHint locator > 0\<close> by (auto simp: best_index_def nth_append less_Suc_eq)
      then show ?thesis using False i \<open>lo_LineHint locator > 0\<close>
        by (intro exI [of _ i]) (simp add: selectBestCandidate_def scoreCandidate_less)
    qed
  next
    case False
    have e: "list_ex rs_IsDefinition cs \<longleftrightarrow> rs_IsDefinition (cs ! i)"
      using assms False i(1) by (cases "list_ex rs_IsDefinition cs") (auto simp: best_index_def list_ex_length)
    show ?thesis
    proof (cases "rs_IsDefinition c \<and> \<not> rs_IsDefinition (cs ! i)")
      case True
      then have "\<not> list_ex rs_IsDefinition cs" using assms \<open>\<not> lo_LineHint locator > 0\<close> by (auto simp: best_index_def)
      then have "best_index info locator (cs @ [c]) (length cs)"
        using True \<open>\<not> lo_LineHint locator > 0\<close> by (auto simp: best_index_def nth_append list_ex_length)
      then show ?thesis using True \<open>\<not> lo_LineHint locator > 0\<close>
        by (intro exI [of _ "length cs"]) (simp add: selectBestCandidate_def)
    next
      case False
      then have "best_index info locator (cs @ [c]) i"
        using assms i e \<open>\<not> lo_LineHint locator > 0\<close> by (auto simp: best_index_def nth_append)
      then show ?thesis using False i \<open>\<not> lo_LineHint locator > 0\<close>
        by (intro exI [of _ i]) (auto simp: selectBestCandidate_def)
    qed
  qed
qed

lemma fold_best:
  "cs \<noteq> [] \<Longrightarrow> \<exists>i. best_index info locator cs i
     \<and> fold (\<lambda>c b. Some (selectBestCandidate info locator b c (rs_IsDefinition c))) cs None = Some (cs ! i)"
proof (induction cs rule: rev_induct)
  case (snoc c cs)
  show ?case
  proof (cases "cs = []")
    case True
    then show ?thesis by (auto simp: best_index_def selectBestCandidate_def)
  next
    case False
    then obtain i where "best_index info locator cs i"
      "fold (\<lambda>c b. Some (selectBestCandidate info locator b c (rs_IsDefinition c))) cs None = Some (cs ! i)"
      using snoc.IH by blast
    then show ?thesis using best_index_step [of info locator cs i c] by auto
  qed
qed simp

lemma ResolveNode_located:
  "located info locator [] file = [] \<and>
     ResolveNode (Ok (file, info)) locator = Err (''symbol '' @ [CHR 0x27] @ lo_SymbolName locator @ [CHR 0x27] @ '' not found in file'')
   \<or> (\<exists>i. best_index info locator (located info locator [] file) i
        \<and> ResolveNode (Ok (file, info)) locator = Ok (located info locator [] file ! i))"
proof -
  let ?st = "\<lparr>ws_stack = [\<lparr>sf_node = file, sf_enclosingFunc = []\<rparr>], ws_candidates = [], ws_best = None\<rparr>"
  have r: "inspect info locator file ?st = add_found info locator (located info locator [] file) ?st"
    using inspect_located(1) [of ?st] by simp
  show ?thesis
  proof (cases "located info locator [] file = []")
    case True
    then show ?thesis by (simp add: ResolveNode_def r Let_def)
  next
    case False
    then show ?thesis using fold_best [OF False, of info locator] by (auto simp: ResolveNode_def r add_found_def Let_def)
  qed
qed

text \<open>Claim C31: \<open>ResolveNode\<close> finds the symbol that the locator describes.  The candidates are, in the order of the
  text, the identifiers of the right name whose parent (the receiver type of a method, else the innermost
  function or type declaration) is the one asked for, up to a star, and whose kind, when known, is the one
  asked for, up to method and function, struct, interface and type.  Without candidates it reports that
  the symbol is not found; else it answers the first of those nearest to the line hint, or, without a hint,
  the first definition, or the first of all.\<close>

theorem ResolveNode_spec:
  "located info locator [] file = [] \<and>
     ResolveNode (Ok (file, info)) locator = Err (''symbol '' @ [CHR 0x27] @ lo_SymbolName locator @ [CHR 0x27] @ '' not found in file'')
   \<or> (\<exists>i. best_index info locator (located info locator [] file) i
        \<and> ResolveNode (Ok (file, info)) locator = Ok (located info locator [] file ! i))"
  by (rule ResolveNode_located)

section \<open>What the locator cannot do\<close>

text \<open>\<open>PackageIdentifier\<close> and \<open>SignatureSnippet\<close> change nothing.\<close>

abbreviation relocate :: "string \<Rightarrow> string \<Rightarrow> SymbolLocator \<Rightarrow> SymbolLocator" where
  "relocate x y locator \<equiv> locator\<lparr>lo_PackageIdentifier := x, lo_SignatureSnippet := y\<rparr>"

lemma relocate_fields: "lo_SymbolName (relocate x y locator) = lo_SymbolName locator"
  "lo_ContextFile (relocate x y locator) = lo_ContextFile locator"
  by simp_all

lemma relocate_simps:
  "matchesLocatorFilters uni (relocate x y locator) = matchesLocatorFilters uni locator"
  "selectBestCandidate info (relocate x y locator) = selectBestCandidate info locator"
  by (intro ext, simp add: matchesLocatorFilters_def)
    (intro ext, simp add: selectBestCandidate_def scoreCandidate_def split: option.split)

lemma visit_unused: "visit info (relocate x y locator) = visit info locator"
  unfolding visit_def relocate_simps relocate_fields by (rule refl)

lemma inspect_unused:
  "inspect info (relocate x y locator) n st = inspect info locator n st"
  "inspect_all info (relocate x y locator) ns st = inspect_all info locator ns st"
  by (induction info locator n st and info locator ns st rule: inspect_inspect_all.induct) (simp_all add: visit_unused)

lemma locator_fields_unused: "ResolveNode pkgfile (relocate x y locator) = ResolveNode pkgfile locator"
  unfolding ResolveNode_def inspect_unused relocate_fields by (rule refl)

text \<open>In \<open>package p; func main() { fmt.Println() }; func (s *Server) Start() {}\<close> the selector of a package is not
  found by its package, although the code has a branch for that; methods are found by their receiver.\<close>

definition example_syntax :: anode where
  "example_syntax = AOther [AIdent 1 ''p'',
     AFuncDecl None ''main'' [AIdent 2 ''main'', AOther [AOther [ASelector (AIdent 3 ''fmt'') 4 ''Println'']]],
     AFuncDecl (Some [AStar (AIdent 6 ''Server'')]) ''Start''
       [AOther [AIdent 5 ''s'', AStar (AIdent 6 ''Server'')], AIdent 7 ''Start'', AOther []]]"

definition example_info :: resolve_info where
  "example_info = \<lparr>ri_uses = [4 \<mapsto> FuncObj None, 6 \<mapsto> TypeNameObj], ri_defs = [2 \<mapsto> FuncObj None, 5 \<mapsto> VarObj False,
     7 \<mapsto> FuncObj (Some (Pointer (Named ''Server'')))], ri_line = id, ri_unicode = id\<rparr>"

definition locator_of :: "string \<Rightarrow> string \<Rightarrow> string \<Rightarrow> SymbolLocator" where
  "locator_of name parent kind = \<lparr>lo_SymbolName = name, lo_ContextFile = ''/w/a.go'', lo_PackageIdentifier = [],
     lo_ParentScope = parent, lo_Kind = kind, lo_LineHint = 0, lo_SignatureSnippet = []\<rparr>"

lemma method_found:
  "ResolveNode (Ok (example_syntax, example_info)) (locator_of ''Start'' ''Server'' ''method'')
     = Ok \<lparr>rs_Pos = 7, rs_Object = Some (FuncObj (Some (Pointer (Named ''Server'')))), rs_EnclosingFunc = ''(*Server).Start'', rs_IsDefinition = True\<rparr>"
proof -
  have "normalizeKindMatches id ''function'' ''method''" by (simp add: normalizeKindMatches_def normalizeKind_def ToLower_def lower_char_def is_upper_def)
  then have "located example_info (locator_of ''Start'' ''Server'' ''method'') [] example_syntax
    = [\<lparr>rs_Pos = 7, rs_Object = Some (FuncObj (Some (Pointer (Named ''Server'')))), rs_EnclosingFunc = ''(*Server).Start'', rs_IsDefinition = True\<rparr>]"
    by (simp add: located_def wanted_def as_result_def object_at_def example_syntax_def example_info_def locator_of_def
        getParentScope_def getReceiverTypeName_def getKindString_def trim_prefix_def has_prefix_def)
  then show ?thesis using ResolveNode_located [of example_info "locator_of ''Start'' ''Server'' ''method''" example_syntax]
    by (auto simp: best_index_def)
qed

lemma selector_missed:
  "ResolveNode (Ok (example_syntax, example_info)) (locator_of ''Println'' ''fmt'' [])
     = Err (''symbol '' @ [CHR 0x27] @ ''Println'' @ [CHR 0x27] @ '' not found in file'')"
proof -
  have "located example_info (locator_of ''Println'' ''fmt'' []) [] example_syntax = []"
    by (simp add: located_def wanted_def object_at_def example_syntax_def example_info_def locator_of_def
        getParentScope_def getReceiverTypeName_def trim_prefix_def has_prefix_def)
  then show ?thesis using ResolveNode_located [of example_info "locator_of ''Println'' ''fmt'' []" example_syntax]
    by (auto simp: best_index_def locator_of_def)
qed

end
