(* ===== verification/Symbol_Text.thy ===== *)
theory Symbol_Text
  imports Resolve_Node Symbol_Detail
begin

text \<open>
  What the tools say about a symbol: \<open>cleanSignature\<close>, \<open>ExtractSymbolAtDefinition\<close> with the parsing of names
  and signatures, \<open>FormatSymbolSummary\<close> and the lookups in a file, from \<open>gopls/internal/golang/llm_bridge.go\<close>.
  What \<open>hover\<close> answers is an argument; \<open>link_name\<close> is how it builds a symbol name, so that the names that
  reach the parser are known.
\<close>

section \<open>Signatures\<close>

definition cleanReceiverType :: "string \<Rightarrow> string" where
  "cleanReceiverType receiver0 =
     (let isPointer = has_prefix receiver0 ''(*'';
          receiver = (if isPointer then drop 2 receiver0 else if has_prefix receiver0 ''('' then drop 1 receiver0 else receiver0);
          lastSlash = last_index_byte receiver (CHR ''/''); lastDot = last_index_byte receiver (CHR ''.'');
          typeName = (case lastSlash of
              None \<Rightarrow> receiver
            | Some s \<Rightarrow> (case lastDot of
                  Some d \<Rightarrow> if d > s then drop (d + 1) receiver else drop (s + 1) receiver
                | None \<Rightarrow> drop (s + 1) receiver));
          name = trim_suffix typeName '')''
      in if isPointer then ''(*'' @ name @ '')'' else ''('' @ name @ '')'')"

definition clean_line :: "string \<Rightarrow> string" where
  "clean_line line =
     (if has_prefix line ''func ('' then
        (case index_byte (drop 5 line) (CHR '')'') of
           None \<Rightarrow> line
         | Some e \<Rightarrow>
             let receiverEnd = e + 5
             in ''func '' @ cleanReceiverType (slice 5 receiverEnd line) @ drop (receiverEnd + 1) line)
      else line)"

definition cleanSignature :: "string \<Rightarrow> string" where
  "cleanSignature sig = str_join [NL] (map clean_line (split_byte NL sig))"

definition getKindFromObject :: "tobject option \<Rightarrow> string" where
  "getKindFromObject obj =
     (case obj of
        None \<Rightarrow> ''unknown''
      | Some (FuncObj recv) \<Rightarrow> (if recv \<noteq> None then ''method'' else ''function'')
      | Some TypeNameObj \<Rightarrow> ''type''
      | Some (VarObj field) \<Rightarrow> (if field then ''field'' else ''variable'')
      | Some ConstObj \<Rightarrow> ''const''
      | Some OtherObj \<Rightarrow> ''unknown'')"

definition ConvertLSPSymbolKind :: "SymbolKind \<Rightarrow> string" where
  "ConvertLSPSymbolKind kind =
     (case kind of
        SK_Function \<Rightarrow> ''function''
      | SK_Method \<Rightarrow> ''method''
      | SK_Struct \<Rightarrow> ''struct''
      | SK_Interface \<Rightarrow> ''interface''
      | SK_Variable \<Rightarrow> ''var''
      | SK_Constant \<Rightarrow> ''const''
      | SK_Field \<Rightarrow> ''field''
      | SK_Class \<Rightarrow> ''struct''
      | SK_Other n \<Rightarrow> (if n = 7 then ''field'' else ''type''))"

section \<open>Lookups in a file\<close>

definition spec_position :: "string \<Rightarrow> spec \<Rightarrow> int list" where
  "spec_position symbolName s =
     (case s of
        TypeSpec _ n _ _ \<Rightarrow> (if snd n = symbolName then [fst (fst n)] else [])
      | ValueSpec _ names _ _ \<Rightarrow> map (\<lambda>n. fst (fst n)) (filter (\<lambda>n. snd n = symbolName) names)
      | ImportSpec \<Rightarrow> [])"

definition decl_position :: "string \<Rightarrow> decl \<Rightarrow> int list" where
  "decl_position symbolName d =
     (case d of
        FuncDecl f \<Rightarrow> (if snd (fn_name f) = symbolName then [fst (fst (fn_name f))] else [])
      | GenDecl g \<Rightarrow> concat (map (spec_position symbolName) (gn_specs g))
      | BadDecl \<Rightarrow> [])"

definition FindSymbolPosition :: "go_file \<Rightarrow> string \<Rightarrow> int option" where
  "FindSymbolPosition f symbolName =
     (case concat (map (decl_position symbolName) (gf_decls f)) of [] \<Rightarrow> None | p # _ \<Rightarrow> Some p)"

fun body_of :: "go_file \<Rightarrow> string \<Rightarrow> decl list \<Rightarrow> string" where
  "body_of f symbolName [] = []"
| "body_of f symbolName (d # ds) =
     (case d of
        FuncDecl fd \<Rightarrow>
          (if fn_body fd \<noteq> None \<and> snd (fn_name fd) = symbolName then ExtractBodyText f (fn_body fd)
           else body_of f symbolName ds)
      | _ \<Rightarrow> body_of f symbolName ds)"

text \<open>\<open>read_go\<close> is reading and parsing a file.\<close>

definition ExtractBodyForSymbol :: "(string \<Rightarrow> go_file option) \<Rightarrow> string \<Rightarrow> string \<Rightarrow> string" where
  "ExtractBodyForSymbol read_go symbolName defFile =
     (case read_go defFile of None \<Rightarrow> [] | Some f \<Rightarrow> body_of f symbolName (gf_decls f))"

section \<open>Names\<close>

text \<open>\<open>strings.Fields\<close>: \<open>cur\<close> is the field being read.\<close>

function fields_from :: "string \<Rightarrow> string \<Rightarrow> string list" where
  "fields_from cur s =
     (if s = [] then (if cur = [] then [] else [cur])
      else let (r, n) = DecodeRune s
        in if IsSpace r then (if cur = [] then fields_from [] (drop n s) else cur # fields_from [] (drop n s))
           else fields_from (cur @ take n s) (drop n s))"
  by pat_completeness auto
termination
proof (relation "measure (\<lambda>(cur, s). length s)", goal_cases)
  case (2 cur s x r n)
  then show ?case using DecodeRune_size [of s] by (cases "DecodeRune s") auto
next
  case (3 cur s x r n)
  then show ?case using DecodeRune_size [of s] by (cases "DecodeRune s") auto
next
  case (4 cur s x r n)
  then show ?case using DecodeRune_size [of s] by (cases "DecodeRune s") auto
qed simp

declare fields_from.simps [simp del]

definition Fields :: "string \<Rightarrow> string list" where
  "Fields s = fields_from [] s"

text \<open>Up to the first parenthesis.\<close>

definition before_paren :: "string \<Rightarrow> string" where
  "before_paren name = (case index_byte name (CHR ''('') of Some i \<Rightarrow> take i name | None \<Rightarrow> name)"

definition parseSignatureForName :: "string \<Rightarrow> string \<times> string \<times> string" where
  "parseSignatureForName signature =
     (case Fields (hd (split_byte NL signature)) of
        kw # rawName # _ \<Rightarrow>
          (if kw \<in> {''func'', ''type'', ''var'', ''const''} then
             (let (name, receiver) =
                (if has_prefix rawName ''('' then
                   (case index_byte rawName (CHR '')'') of
                      Some idx \<Rightarrow>
                        if idx + 1 < length rawName
                        then (before_paren (drop (idx + 1) rawName), TrimSpace (slice 1 idx rawName))
                        else ([], [])
                    | None \<Rightarrow> ([], []))
                 else (before_paren rawName, []));
                  kind = (if kw = ''func'' then ''function'' else kw)
              in (name, receiver, kind))
           else ([], [], []))
      | _ \<Rightarrow> ([], [], []))"

text \<open>The names that \<open>hover\<close> gives to functions, methods, fields, types, variables and constants.\<close>

definition link_name :: "string \<Rightarrow> string option \<Rightarrow> string \<Rightarrow> string" where
  "link_name pkg recv name =
     (case recv of
        Some r \<Rightarrow> ''('' @ pkg @ ''.'' @ r @ '').'' @ name
      | None \<Rightarrow> pkg @ ''.'' @ name)"

definition placeholder :: string where "placeholder = ''<symbol>''"

definition parse_symbol_name :: "string \<Rightarrow> string \<times> string \<times> string" where
  "parse_symbol_name symbolName =
     (if symbolName = [] then (placeholder, [], ''type'')
      else if has_prefix symbolName ''('' then
        (case index_byte symbolName (CHR '')'') of
           None \<Rightarrow> (placeholder, [], ''type'')
         | Some parenEnd \<Rightarrow>
             let receiverWithPkg = slice 1 parenEnd symbolName;
                 receiver = (case last_index_byte receiverWithPkg (CHR ''.'') of
                     Some d \<Rightarrow> drop (d + 1) receiverWithPkg | None \<Rightarrow> receiverWithPkg)
             in (case index_byte (drop parenEnd symbolName) (CHR ''.'') of
                   Some d \<Rightarrow> (drop (parenEnd + d + 1) symbolName, receiver, ''method'')
                 | None \<Rightarrow> (placeholder, receiver, ''type'')))
      else
        (case last_index_byte symbolName (CHR ''.'') of
           Some d \<Rightarrow> (drop (d + 1) symbolName, [], ''type'')
         | None \<Rightarrow> (symbolName, [], ''type'')))"

definition strip_version :: "string \<Rightarrow> string" where
  "strip_version packagePath =
     (case index_byte packagePath (CHR ''@'') of
        None \<Rightarrow> packagePath
      | Some at \<Rightarrow>
          (case index_byte (drop at packagePath) (CHR ''/'') of
             None \<Rightarrow> packagePath
           | Some slash \<Rightarrow> take at packagePath @ drop (at + slash) packagePath))"

record hoverResult =
  hv_SymbolName :: string
  hv_Signature :: string
  hv_FullDocumentation :: string
  hv_LinkPath :: string

definition plain_symbol :: "string \<Rightarrow> string \<Rightarrow> string \<Rightarrow> nat \<Rightarrow> Symbol" where
  "plain_symbol name kind path line =
     \<lparr>sy_Name = name, sy_Kind = kind, sy_PackagePath = [], sy_Signature = [], sy_Receiver = [], sy_Parent = [],
      sy_FilePath = path, sy_Line = line, sy_Doc = [], sy_Body = []\<rparr>"

text \<open>\<open>line + 1\<close> of an LSP line, in words of 32 bits.\<close>

definition line_number :: "32 word \<Rightarrow> nat" where
  "line_number l = unat (l + 1)"

text \<open>\<open>readable\<close>: whether the file can be read; \<open>hover\<close>: its result for a position, \<open>None\<close> for an error or nil.\<close>

definition ExtractSymbolAtDefinition :: "(string \<Rightarrow> bool) \<Rightarrow> (string \<Rightarrow> Position \<Rightarrow> hoverResult option) \<Rightarrow>
    (string \<Rightarrow> go_file option) \<Rightarrow> Location \<Rightarrow> bool \<Rightarrow> Symbol option" where
  "ExtractSymbolAtDefinition readable hover read_go loc includeBody =
     (if \<not> readable (l_URI loc) then None
      else
        (let start = r_Start (l_Range loc); line = line_number (Line start)
         in case hover (l_URI loc) start of
              None \<Rightarrow> Some (plain_symbol placeholder [] (l_URI loc) line)
            | Some h \<Rightarrow>
                let (name, receiver, kind) =
                      (case parse_symbol_name (hv_SymbolName h) of (n, r, k) \<Rightarrow>
                         if n = placeholder \<and> hv_Signature h \<noteq> [] then parseSignatureForName (hv_Signature h) else (n, r, k));
                    sym = (plain_symbol name kind (l_URI loc) line)\<lparr>sy_Signature := hv_Signature h, sy_Receiver := receiver,
                        sy_PackagePath := strip_version (hv_LinkPath h), sy_Doc := hv_FullDocumentation h\<rparr>
                in Some (if includeBody \<and> kind = ''function''
                         then sym\<lparr>sy_Body := ExtractBodyForSymbol read_go name (l_URI loc)\<rparr> else sym)))"

definition FormatSymbolSummary :: "Symbol option \<Rightarrow> string" where
  "FormatSymbolSummary sym0 =
     (case sym0 of
        None \<Rightarrow> []
      | Some s \<Rightarrow> str_join [NL]
          ([if sy_Name s \<noteq> [] then [NL, NL] @ ''**Name**: '' @ [CHR 0x60] @ sy_Name s @ [CHR 0x60] else [NL]]
           @ (if sy_Kind s \<noteq> [] then [''**Kind**: '' @ sy_Kind s] else [])
           @ (if sy_Receiver s \<noteq> [] then [''**Receiver**: '' @ [CHR 0x60] @ sy_Receiver s @ [CHR 0x60]] else [])
           @ (if sy_Parent s \<noteq> [] then [''**Parent**: '' @ [CHR 0x60] @ sy_Parent s @ [CHR 0x60]] else [])
           @ (if sy_Signature s \<noteq> [] then [[NL] @ ''**Signature**'' @ [NL] @ sy_Signature s] else [])
           @ (if sy_Doc s \<noteq> [] then [[NL] @ ''**Documentation**'' @ [NL] @ sy_Doc s] else [])
           @ (if sy_Body s \<noteq> [] then [[NL] @ ''**Body**'' @ [NL] @ sy_Body s] else [])))"

section \<open>Where a byte is\<close>

lemmas byte_absent = index_byte_None [THEN iffD2] last_index_byte_None [THEN iffD2]

lemma last_index_byte_last: "c \<notin> set b \<Longrightarrow> last_index_byte (a @ c # b) c = Some (length a)"
  by (induction a) (auto simp: byte_absent)

section \<open>Names survive\<close>

lemma parse_method_name:
  assumes "CHR '')'' \<notin> set pkg" "CHR '')'' \<notin> set r" "CHR ''.'' \<notin> set r"
  shows "parse_symbol_name (link_name pkg (Some r) name) = (name, r, ''method'')"
proof -
  let ?front = "CHR ''('' # pkg @ CHR ''.'' # r"
  define x k where x: "x = link_name pkg (Some r) name" and k: "k = length ?front"
  have n: "x = ?front @ CHR '')'' # CHR ''.'' # name" by (simp add: x link_name_def)
  have e: "index_byte x (CHR '')'') = Some k" unfolding n k by (rule index_byte_append) (use assms in auto)
  have s: "slice (Suc 0) k x = pkg @ CHR ''.'' # r" by (simp add: n k slice_def)
  have d: "drop k x = CHR '')'' # CHR ''.'' # name" by (simp add: n k)
  have "drop (2 + k) x = name" unfolding drop_drop [symmetric] d by simp
  then have d2: "drop (Suc (Suc k)) x = name" by (simp only: numeral_2_eq_2 add_Suc add_0)
  have "has_prefix x ''(''" "x \<noteq> []" by (simp_all add: n has_prefix_def)
  then show ?thesis unfolding x [symmetric]
    by (simp add: parse_symbol_name_def e s d d2 last_index_byte_last [OF assms(3)] Let_def)
qed

lemma parse_plain_name:
  assumes "\<not> has_prefix pkg ''(''" "pkg \<noteq> []" "CHR ''.'' \<notin> set name"
  shows "parse_symbol_name (link_name pkg None name) = (name, [], ''type'')"
proof -
  have "link_name pkg None name = pkg @ CHR ''.'' # name" by (simp add: link_name_def)
  moreover have "\<not> has_prefix (pkg @ CHR ''.'' # name) ''(''" using assms(1,2) by (cases pkg) (auto simp: has_prefix_def)
  ultimately show ?thesis using assms by (simp add: parse_symbol_name_def last_index_byte_last)
qed

lemma strip_version_resolved:
  assumes "CHR ''@'' \<notin> set m" "CHR ''/'' \<notin> set v"
  shows "strip_version (m @ ''@'' @ v @ ''/'' @ dir) = m @ ''/'' @ dir"
    "strip_version (m @ ''@'' @ v) = m @ ''@'' @ v" "strip_version m = m"
proof -
  have i: "index_byte (m @ CHR ''@'' # x) (CHR ''@'') = Some (length m)" for x using index_byte_append [OF assms(1)] .
  have "index_byte ((CHR ''@'' # v) @ CHR ''/'' # dir) (CHR ''/'') = Some (length (CHR ''@'' # v))"
    by (rule index_byte_append) (use assms(2) in simp)
  then show "strip_version (m @ ''@'' @ v @ ''/'' @ dir) = m @ ''/'' @ dir" by (simp add: strip_version_def i)
  have "index_byte (CHR ''@'' # v) (CHR ''/'') = None" using assms(2) by (simp add: index_byte_None)
  then show "strip_version (m @ ''@'' @ v) = m @ ''@'' @ v" by (simp add: strip_version_def i)
  show "strip_version m = m" by (simp add: strip_version_def byte_absent assms(1))
qed

text \<open>A package below the root of its module loses the version; the package at the root keeps it.\<close>

definition plain_identifier :: "string \<Rightarrow> bool" where
  "plain_identifier s \<longleftrightarrow> s \<noteq> [] \<and> set s \<inter> set ''.()<'' = {}"

text \<open>Claim C32: for the names that \<open>hover\<close> builds (\<open>(pkg.Recv).Name\<close>, \<open>pkg.Name\<close>) \<open>ExtractSymbolAtDefinition\<close> gives
  back the name and the receiver, the path of a package below its module without the version, and the text
  of \<open>hover\<close> unchanged.  Everything with a receiver is called a method, fields too; everything else a type,
  functions too; so the body that was asked for is never there.\<close>

theorem ExtractSymbolAtDefinition_spec:
  assumes "readable (l_URI loc)" "hover (l_URI loc) (r_Start (l_Range loc)) = Some h"
    and "hv_SymbolName h = link_name pkg recv name"
    and "plain_identifier pkg" "plain_identifier name" "\<forall>r. recv = Some r \<longrightarrow> plain_identifier r"
  shows "ExtractSymbolAtDefinition readable hover read_go loc includeBody = Some
     \<lparr>sy_Name = name, sy_Kind = (if recv = None then ''type'' else ''method''), sy_PackagePath = strip_version (hv_LinkPath h),
      sy_Signature = hv_Signature h, sy_Receiver = (case recv of None \<Rightarrow> [] | Some r \<Rightarrow> r), sy_Parent = [],
      sy_FilePath = l_URI loc, sy_Line = line_number (Line (r_Start (l_Range loc))), sy_Doc = hv_FullDocumentation h, sy_Body = []\<rparr>
   \<and> (\<forall>m v dir. hv_LinkPath h = m @ ''@'' @ v @ ''/'' @ dir \<and> CHR ''@'' \<notin> set m \<and> CHR ''/'' \<notin> set v
        \<longrightarrow> strip_version (hv_LinkPath h) = m @ ''/'' @ dir)"
proof
  have id: "\<not> has_prefix pkg ''(''" "pkg \<noteq> []" "CHR ''.'' \<notin> set name" "name \<noteq> placeholder" "CHR '')'' \<notin> set pkg"
    using assms(4,5) by (auto simp: plain_identifier_def has_prefix_def placeholder_def take_Suc_conv_app_nth
        split: list.splits dest: hd_in_set in_set_takeD) (cases pkg; simp)
  have "parse_symbol_name (hv_SymbolName h) = (name, case recv of None \<Rightarrow> [] | Some r \<Rightarrow> r, if recv = None then ''type'' else ''method'')"
  proof (cases recv)
    case None
    then show ?thesis unfolding assms(3) using parse_plain_name [OF id(1-3)] by simp
  next
    case (Some r)
    then have "CHR '')'' \<notin> set r" "CHR ''.'' \<notin> set r" using assms(6) by (auto simp: plain_identifier_def)
    then show ?thesis unfolding assms(3) using parse_method_name [OF id(5)] Some by simp
  qed
  then show "ExtractSymbolAtDefinition readable hover read_go loc includeBody = Some
     \<lparr>sy_Name = name, sy_Kind = (if recv = None then ''type'' else ''method''), sy_PackagePath = strip_version (hv_LinkPath h),
      sy_Signature = hv_Signature h, sy_Receiver = (case recv of None \<Rightarrow> [] | Some r \<Rightarrow> r), sy_Parent = [],
      sy_FilePath = l_URI loc, sy_Line = line_number (Line (r_Start (l_Range loc))), sy_Doc = hv_FullDocumentation h, sy_Body = []\<rparr>"
    using assms(1,2) id(4) by (simp add: ExtractSymbolAtDefinition_def plain_symbol_def Let_def)
  show "\<forall>m v dir. hv_LinkPath h = m @ ''@'' @ v @ ''/'' @ dir \<and> CHR ''@'' \<notin> set m \<and> CHR ''/'' \<notin> set v
        \<longrightarrow> strip_version (hv_LinkPath h) = m @ ''/'' @ dir"
    using strip_version_resolved(1) by auto
qed

definition example_hover :: hoverResult where
  "example_hover = \<lparr>hv_SymbolName = ''(http.Client).Timeout'', hv_Signature = ''field Timeout time.Duration'',
     hv_FullDocumentation = ''about'', hv_LinkPath = ''ex.org/m@v1.2.0/http''\<rparr>"

lemma ExtractSymbolAtDefinition_spec_witness:
  "map_option (\<lambda>s. (sy_Name s, sy_Kind s, sy_Receiver s, sy_PackagePath s, sy_Line s))
     (ExtractSymbolAtDefinition (\<lambda>_. True) (\<lambda>_ _. Some example_hover) (\<lambda>_. None)
       \<lparr>l_URI = ''/m/c.go'', l_Range = Range (Position 6 1) (Position 6 8)\<rparr> True)
   = Some (''Timeout'', ''method'', ''Client'', ''ex.org/m/http'', 7)"
proof -
  have "strip_version (hv_LinkPath example_hover) = ''ex.org/m/http''" by code_simp
  moreover have "line_number 6 = 7" by (simp add: line_number_def)
  ultimately show ?thesis
    using ExtractSymbolAtDefinition_spec [of "\<lambda>_. True" "\<lparr>l_URI = ''/m/c.go'', l_Range = Range (Position 6 1) (Position 6 8)\<rparr>"
        "\<lambda>_ _. Some example_hover" example_hover "''http''" "Some ''Client''" "''Timeout''" "\<lambda>_. None" True]
    by (simp add: plain_identifier_def link_name_def example_hover_def)
qed

section \<open>Signatures\<close>

text \<open>The fallback never answers that something is a method: the kind is overwritten by that of the keyword.\<close>

lemma parseSignature_kind: "parseSignatureForName sig = (name, receiver, kind) \<Longrightarrow> kind \<noteq> ''method''"
  by (auto simp: parseSignatureForName_def Let_def split: list.splits if_splits prod.splits)

text \<open>A receiver with a package path that has a slash keeps only its type name; without a slash it stays.\<close>

lemma cleanReceiverType_path:
  assumes "CHR ''.'' \<notin> set t" "CHR ''/'' \<notin> set t" "t \<noteq> []" "last t \<noteq> CHR '')''" "\<not> has_prefix (a @ ''/'' @ b) ''(''" "\<not> has_prefix (a @ ''/'' @ b) ''*''"
    and "CHR ''/'' \<notin> set b"
  shows "cleanReceiverType (''('' @ a @ ''/'' @ b @ ''.'' @ t) = ''('' @ t @ '')''"
    and "cleanReceiverType (''(*'' @ a @ ''/'' @ b @ ''.'' @ t) = ''(*'' @ t @ '')''"
proof -
  let ?p = "a @ ''/'' @ b @ ''.'' @ t"
  have s: "last_index_byte ?p (CHR ''/'') = Some (length a)"
    using last_index_byte_last [of "CHR ''/''" "b @ ''.'' @ t" a] assms(2,7) by simp
  have "last_index_byte ((a @ ''/'' @ b) @ CHR ''.'' # t) (CHR ''.'') = Some (length (a @ ''/'' @ b))"
    by (rule last_index_byte_last [OF assms(1)])
  then have d: "last_index_byte ?p (CHR ''.'') = Some (length a + length b + 1)" by simp
  have t: "trim_suffix t '')'' = t" using assms(3,4) unfolding trim_suffix_def has_suffix_iff by (metis last_snoc)
  have dr: "drop (length a + length b + 1 + 1) ?p = t" by simp
  have "\<not> has_prefix (''('' @ ?p) ''(*''" using assms(6) by (cases a) (auto simp: has_prefix_def)
  then show "cleanReceiverType (''('' @ ?p) = ''('' @ t @ '')''"
    using s d t dr by (simp add: cleanReceiverType_def has_prefix_def Let_def)
  show "cleanReceiverType (''(*'' @ ?p) = ''(*'' @ t @ '')''"
    using s d t dr by (simp add: cleanReceiverType_def has_prefix_def Let_def)
qed

lemma cleanReceiverType_no_path:
  assumes "CHR ''/'' \<notin> set t" "t \<noteq> []" "last t \<noteq> CHR '')''" "hd t \<noteq> CHR ''*''"
  shows "cleanReceiverType (''('' @ t) = ''('' @ t @ '')''"
proof -
  have "trim_suffix t '')'' = t" using assms(2,3) unfolding trim_suffix_def has_suffix_iff by (metis last_snoc)
  then show ?thesis using assms by (cases t) (auto simp: cleanReceiverType_def has_prefix_def byte_absent Let_def)
qed

text \<open>A type argument with a package path takes the place of the type.\<close>

lemma cleanReceiverType_generic: "cleanReceiverType ''(ex.org/m.Map[ex.org/k.Key]'' = ''(Key])''"
  by code_simp

section \<open>Lookups\<close>

lemma FindSymbolPosition_iff:
  "FindSymbolPosition f n \<noteq> None \<longleftrightarrow> (\<exists>d \<in> set (gf_decls f). decl_position n d \<noteq> [])"
proof -
  have "FindSymbolPosition f n \<noteq> None \<longleftrightarrow> concat (map (decl_position n) (gf_decls f)) \<noteq> []"
    by (cases "concat (map (decl_position n) (gf_decls f))") (simp_all only: FindSymbolPosition_def list.case, simp_all)
  then show ?thesis by (simp only: concat_eq_Nil_conv) auto
qed

text \<open>Methods are found by their bare name, so the body of a method can be given for a function.\<close>

lemma body_of_first:
  "body_of f n ds = (case filter (\<lambda>d. case d of FuncDecl fd \<Rightarrow> fn_body fd \<noteq> None \<and> snd (fn_name fd) = n | _ \<Rightarrow> False) ds of
      FuncDecl fd # _ \<Rightarrow> ExtractBodyText f (fn_body fd) | _ \<Rightarrow> [])"
  by (induction f n ds rule: body_of.induct) (auto split: decl.split list.split)

end
