(* ===== verification/Gopls_Tools.thy ===== *)
theory Gopls_Tools
  imports Symbol_Text Rename_Preview
begin

text \<open>
  The tools that put one question to gopls: \<open>ResolveSymbol\<close>, \<open>GoDefinition\<close>, \<open>LLMImplementation\<close> and \<open>LLMRename\<close> of
  \<open>gopls/internal/golang/llm_bridge.go\<close> and the handlers \<open>go_definition\<close>, \<open>go_symbol_references\<close>,
  \<open>go_dryrun_rename_symbol\<close>, \<open>go_implementation\<close> and \<open>go_build_check\<close> of \<open>mcpbridge/core/gopls_wrappers.go\<close>.
  What gopls answers about a snapshot is the record \<open>snapshot\<close>, an argument.
\<close>

section \<open>What gopls answers\<close>

text \<open>A node of a syntax tree on the way from a position to the root: its kind, the documentation of a
  declaration, and the text that the printer makes of it, if it can.\<close>

datatype node_kind = FuncDeclNode | GenDeclNode | TypeSpecNode | ValueSpecNode | IdentNode string int | OtherNode

record path_node =
  pn_kind :: node_kind
  pn_File :: string
  pn_StartLine :: nat
  pn_EndLine :: nat
  pn_Doc :: "string option"
  pn_Print :: "string option"

text \<open>\<open>sn_ReadFile\<close> is \<open>ReadFile\<close>, then \<open>Content\<close>; \<open>sn_Position\<close> is a position of the file set as line and column,
  \<open>None\<close> when it is not valid; \<open>sn_Object\<close> gives the name and the text of the object of an identifier;
  \<open>sn_Path\<close> is the path from the cursor at a position of a file to the root, innermost node first, empty when
  there is no cursor; \<open>sn_Format\<close> is \<open>format.Source\<close>.  The others are the functions of gopls of those names.\<close>

record snapshot =
  sn_ReadFile :: "string \<Rightarrow> (string, (string, string) outcome) outcome"
  sn_Package :: "string \<Rightarrow> (string, anode \<times> resolve_info) outcome"
  sn_Position :: "string \<Rightarrow> int \<Rightarrow> (int \<times> int) option"
  sn_Object :: "string \<Rightarrow> int \<Rightarrow> string \<times> string"
  sn_Path :: "string \<Rightarrow> Position \<Rightarrow> path_node list"
  sn_HasCursor :: "string \<Rightarrow> int \<Rightarrow> bool"
  sn_Format :: "string \<Rightarrow> string option"
  sn_Definition :: "string \<Rightarrow> Position \<Rightarrow> (string, Location list) outcome"
  sn_References :: "string \<Rightarrow> Position \<Rightarrow> (string, Location list) outcome"
  sn_Implementations :: "string \<Rightarrow> int \<Rightarrow> (string, Location list) outcome"
  sn_Rename :: "string \<Rightarrow> Position \<Rightarrow> string \<Rightarrow> (string, document_change list) outcome"
  sn_Hover :: "string \<Rightarrow> Position \<Rightarrow> hoverResult option"
  sn_ParseGo :: "string \<Rightarrow> go_file option"

definition readable :: "snapshot \<Rightarrow> string \<Rightarrow> bool" where
  "readable sn uri \<longleftrightarrow> is_Ok (sn_ReadFile sn uri)"

definition content :: "snapshot \<Rightarrow> string \<Rightarrow> string option" where
  "content sn uri = (case sn_ReadFile sn uri of Ok (Ok c) \<Rightarrow> Some c | _ \<Rightarrow> None)"

text \<open>\<open>fmt.Errorf("...: %w", err)\<close>.\<close>

fun with_error :: "string \<Rightarrow> (string, 'a) outcome \<Rightarrow> (string, 'a) outcome" where
  "with_error message (Ok a) = Ok a"
| "with_error message (Err e) = Err (message @ e)"
| "with_error message Panic = Panic"

definition quoted :: "string \<Rightarrow> string" where
  "quoted s = [CHR 0x27] @ s @ [CHR 0x27]"

section \<open>Source contexts\<close>

record SourceContext =
  sc_File :: string
  sc_StartLine :: nat
  sc_EndLine :: nat
  sc_Symbol :: string
  sc_Kind :: string
  sc_Signature :: string
  sc_DocComment :: string
  sc_Snippet :: string

definition sourceContextFromLocation :: "Location \<Rightarrow> SourceContext" where
  "sourceContextFromLocation loc =
     \<lparr>sc_File = l_URI loc, sc_StartLine = line_number (Line (r_Start (l_Range loc))),
      sc_EndLine = line_number (Line (r_End (l_Range loc))), sc_Symbol = [], sc_Kind = [], sc_Signature = [],
      sc_DocComment = [], sc_Snippet = []\<rparr>"

definition is_declaration :: "path_node \<Rightarrow> bool" where
  "is_declaration n \<longleftrightarrow> pn_kind n \<in> {FuncDeclNode, GenDeclNode, TypeSpecNode, ValueSpecNode}"

definition findNodeAtPos :: "snapshot \<Rightarrow> string \<Rightarrow> Position \<Rightarrow> path_node option" where
  "findNodeAtPos sn uri p = List.find is_declaration (sn_Path sn uri p)"

definition is_identifier :: "path_node \<Rightarrow> bool" where
  "is_identifier n = (case pn_kind n of IdentNode _ _ \<Rightarrow> True | _ \<Rightarrow> False)"

definition findIdentifierAtPos :: "snapshot \<Rightarrow> string \<Rightarrow> Position \<Rightarrow> (string \<times> int) option" where
  "findIdentifierAtPos sn uri p =
     (case List.find is_identifier (sn_Path sn uri p) of
        Some n \<Rightarrow> (case pn_kind n of IdentNode name pos \<Rightarrow> Some (name, pos) | _ \<Rightarrow> None)
      | None \<Rightarrow> None)"

definition extractDocComment :: "path_node \<Rightarrow> string" where
  "extractDocComment n =
     (if pn_kind n \<in> {FuncDeclNode, GenDeclNode, TypeSpecNode}
      then (case pn_Doc n of Some d \<Rightarrow> d | None \<Rightarrow> []) else [])"

text \<open>\<open>text\<close> is the name of the object and \<open>types.ObjectString\<close>, which is also \<open>formatObjectString\<close>.\<close>

definition buildSourceContext :: "snapshot \<Rightarrow> tobject \<Rightarrow> string \<times> string \<Rightarrow> path_node \<Rightarrow> SourceContext" where
  "buildSourceContext sn obj text node =
     (let snippet = (case pn_Print node of
          None \<Rightarrow> []
        | Some printed \<Rightarrow> (case sn_Format sn printed of None \<Rightarrow> printed | Some formatted \<Rightarrow> formatted))
      in \<lparr>sc_File = pn_File node, sc_StartLine = pn_StartLine node, sc_EndLine = pn_EndLine node, sc_Symbol = fst text,
          sc_Kind = getKindFromObject (Some obj), sc_Signature = cleanSignature (snd text),
          sc_DocComment = extractDocComment node, sc_Snippet = snippet\<rparr>)"

section \<open>Resolving a symbol\<close>

record ResolveOptions =
  op_FindDefinitions :: bool
  op_FindImplementations :: bool
  op_IncludeDefinition :: bool
  op_IncludeBodies :: bool
  op_IncludeDocs :: bool

record SymbolInfo =
  si_Locations :: "Location list"
  si_Implementations :: "SourceContext list"
  si_Definition :: "SourceContext option"

text \<open>The position of an identifier as LSP position: the column of the file set, counted in bytes from 1.\<close>

definition lsp_position :: "snapshot \<Rightarrow> string \<Rightarrow> int \<Rightarrow> Position option" where
  "lsp_position sn uri p =
     (case sn_Position sn uri p of
        None \<Rightarrow> None
      | Some (line, column) \<Rightarrow> Some (Position (word_of_int (line - 1)) (word_of_int (column - 1))))"

definition definition_context :: "snapshot \<Rightarrow> string \<Rightarrow> tobject \<Rightarrow> string \<times> string \<Rightarrow> Location list \<Rightarrow> SourceContext option" where
  "definition_context sn uri obj text locations =
     (case locations of
        [] \<Rightarrow> None
      | defLoc # _ \<Rightarrow>
          (case findNodeAtPos sn uri (r_Start (l_Range defLoc)) of
             Some node \<Rightarrow> Some (buildSourceContext sn obj text node)
           | None \<Rightarrow> Some ((sourceContextFromLocation defLoc)
               \<lparr>sc_Signature := snd text, sc_Kind := getKindFromObject (Some obj)\<rparr>)))"

text \<open>The callback of \<open>implementationsMsets\<close> for one location.\<close>

definition implementation_context :: "snapshot \<Rightarrow> Location \<Rightarrow> SourceContext" where
  "implementation_context sn loc =
     (case sn_Package sn (l_URI loc) of
        Ok (_, info) \<Rightarrow>
          (case findIdentifierAtPos sn (l_URI loc) (r_Start (l_Range loc)) of
             None \<Rightarrow> sourceContextFromLocation loc
           | Some (name, pos) \<Rightarrow>
               let obj = (case ri_defs info pos of Some t \<Rightarrow> Some t | None \<Rightarrow> ri_uses info pos);
                   text = sn_Object sn (l_URI loc) pos
               in (case (obj, findNodeAtPos sn (l_URI loc) (r_Start (l_Range loc))) of
                     (Some t, Some node) \<Rightarrow> buildSourceContext sn t text node
                   | _ \<Rightarrow>
                       let minimal = (sourceContextFromLocation loc)\<lparr>sc_Symbol := name\<rparr>
                       in if obj \<noteq> None then minimal\<lparr>sc_Signature := snd text\<rparr> else minimal))
      | _ \<Rightarrow> sourceContextFromLocation loc)"

definition strip_context :: "ResolveOptions \<Rightarrow> SourceContext \<Rightarrow> SourceContext" where
  "strip_context options c =
     (let c1 = (if op_IncludeBodies options then c else c\<lparr>sc_Snippet := []\<rparr>)
      in if op_IncludeDocs options then c1 else c1\<lparr>sc_DocComment := []\<rparr>)"

definition find_definitions :: "snapshot \<Rightarrow> ResolveOptions \<Rightarrow> string \<Rightarrow> Position \<Rightarrow> tobject \<Rightarrow> string \<times> string \<Rightarrow> SymbolInfo \<Rightarrow>
    (string, SymbolInfo) outcome" where
  "find_definitions sn options uri position obj text info =
     (if \<not> op_FindDefinitions options then Ok info
      else bind_outcome (with_error ''failed to find definitions: '' (sn_Definition sn uri position)) (\<lambda>locations.
        Ok (info\<lparr>si_Locations := locations,
          si_Definition := (if op_IncludeDefinition options then definition_context sn uri obj text locations else None)\<rparr>)))"

definition find_implementations :: "snapshot \<Rightarrow> ResolveOptions \<Rightarrow> string \<Rightarrow> int \<Rightarrow> SymbolInfo \<Rightarrow> (string, SymbolInfo) outcome" where
  "find_implementations sn options uri pos info =
     (if \<not> op_FindImplementations options then Ok info
      else if \<not> sn_HasCursor sn uri pos then Err ''failed to create cursor for position''
      else bind_outcome (with_error ''failed to find implementations: '' (sn_Implementations sn uri pos)) (\<lambda>locations.
        let contexts = map (implementation_context sn) locations
        in Ok (info\<lparr>si_Implementations :=
             (if \<not> op_IncludeBodies options \<or> \<not> op_IncludeDocs options then map (strip_context options) contexts
              else contexts)\<rparr>)))"

definition ResolveSymbol :: "snapshot \<Rightarrow> SymbolLocator \<Rightarrow> ResolveOptions \<Rightarrow> (string, SymbolInfo) outcome" where
  "ResolveSymbol sn locator options =
     (let uri = lo_ContextFile locator in
      if \<not> op_FindDefinitions options \<and> \<not> op_FindImplementations options then
        Err ''at least one of FindDefinitions or FindImplementations must be true''
      else bind_outcome (with_error ''failed to read file: '' (sn_ReadFile sn uri)) (\<lambda>_.
        bind_outcome (with_error ''failed to resolve symbol: '' (ResolveNode (sn_Package sn uri) locator)) (\<lambda>result.
          case rs_Object result of
            None \<Rightarrow> Err (''symbol '' @ quoted (lo_SymbolName locator) @ '' has no type information'')
          | Some obj \<Rightarrow>
              bind_outcome (with_error ''failed to get package: '' (sn_Package sn uri)) (\<lambda>_.
                case lsp_position sn uri (rs_Pos result) of
                  None \<Rightarrow> Err (''invalid position for symbol '' @ quoted (lo_SymbolName locator))
                | Some position \<Rightarrow>
                    bind_outcome
                      (find_definitions sn options uri position obj (sn_Object sn uri (rs_Pos result))
                         \<lparr>si_Locations = [], si_Implementations = [], si_Definition = None\<rparr>)
                      (find_implementations sn options uri (rs_Pos result))))))"

definition GoDefinition :: "snapshot \<Rightarrow> SymbolLocator \<Rightarrow> (string, Location list) outcome" where
  "GoDefinition sn locator =
     bind_outcome (ResolveSymbol sn locator \<lparr>op_FindDefinitions = True, op_FindImplementations = False,
         op_IncludeDefinition = False, op_IncludeBodies = False, op_IncludeDocs = False\<rparr>)
       (\<lambda>info. Ok (si_Locations info))"

definition LLMImplementation :: "snapshot \<Rightarrow> SymbolLocator \<Rightarrow> (string, SourceContext list) outcome" where
  "LLMImplementation sn locator =
     bind_outcome (ResolveSymbol sn locator \<lparr>op_FindDefinitions = False, op_FindImplementations = True,
         op_IncludeDefinition = False, op_IncludeBodies = True, op_IncludeDocs = True\<rparr>)
       (\<lambda>info. Ok (si_Implementations info))"

text \<open>\<open>iter\<close> is the order in which \<open>generateUnifiedDiff\<close> iterates over its map.\<close>

definition LLMRename :: "((string \<times> TextEdit list \<times> string) list \<Rightarrow> (string \<times> TextEdit list \<times> string) list) \<Rightarrow>
    snapshot \<Rightarrow> SymbolLocator \<Rightarrow> string \<Rightarrow> (string, string \<times> RenameChange list) outcome" where
  "LLMRename iter sn locator newName =
     (let uri = lo_ContextFile locator in
      bind_outcome (with_error ''failed to read file: '' (sn_ReadFile sn uri)) (\<lambda>_.
        bind_outcome (ResolveNode (sn_Package sn uri) locator) (\<lambda>result.
          bind_outcome (with_error ''failed to get package: '' (sn_Package sn uri)) (\<lambda>_.
            case lsp_position sn uri (rs_Pos result) of
              None \<Rightarrow> Err (''invalid position for symbol '' @ quoted (lo_SymbolName locator))
            | Some position \<Rightarrow>
                bind_outcome (with_error ''failed to compute rename: '' (sn_Rename sn uri position newName)) (\<lambda>changes.
                  case generateUnifiedDiff iter (content sn) changes of
                    None \<Rightarrow> Panic
                  | Some unifiedDiff \<Rightarrow> Ok (unifiedDiff, generateLineChanges (content sn) changes))))))"

section \<open>go_definition and go_implementation\<close>

definition context_symbol :: "bool \<Rightarrow> SourceContext \<Rightarrow> Symbol" where
  "context_symbol includeBody c =
     \<lparr>sy_Name = sc_Symbol c, sy_Kind = sc_Kind c, sy_PackagePath = [], sy_Signature = sc_Signature c, sy_Receiver = [],
      sy_Parent = [], sy_FilePath = sc_File c, sy_Line = sc_StartLine c, sy_Doc = sc_DocComment c,
      sy_Body = (if includeBody then sc_Snippet c else [])\<rparr>"

text \<open>The part after the snapshot; the answer is the symbol, if any, and the summary.\<close>

definition go_definition :: "SymbolLocator \<Rightarrow> bool \<Rightarrow> snapshot \<Rightarrow> (string, Symbol option \<times> string) outcome" where
  "go_definition locator includeBody sn =
     bind_outcome (with_error (''failed to resolve symbol '' @ quoted (lo_SymbolName locator) @ '': '')
         (ResolveSymbol sn locator \<lparr>op_FindDefinitions = True, op_FindImplementations = False,
            op_IncludeDefinition = True, op_IncludeBodies = False, op_IncludeDocs = False\<rparr>)) (\<lambda>info.
       case si_Locations info of
         [] \<Rightarrow> Ok (None, ''No definition found for symbol '' @ quoted (lo_SymbolName locator) @ '' in '' @ lo_ContextFile locator)
       | loc # rest \<Rightarrow>
           let sym = map_option (context_symbol includeBody) (si_Definition info)
           in Ok (sym,
             ''Definition found at '' @ l_URI loc @ '':'' @ itoa (line_number (Line (r_Start (l_Range loc))))
             @ (if rest \<noteq> [] then [NL] @ ''('' @ itoa (length rest) @ '' additional location(s) available)'' else [])
             @ FormatSymbolSummary sym))"

definition handleGoDefinition :: "(string \<Rightarrow> (string, view) outcome) \<Rightarrow> (view \<Rightarrow> snapshot) \<Rightarrow> handler \<Rightarrow>
    SymbolLocator \<Rightarrow> bool \<Rightarrow> (string, Symbol option \<times> string) outcome \<times> handler" where
  "handleGoDefinition new_view sn h locator includeBody =
     (let dir = filepath_Dir (lo_ContextFile locator) in
      case viewForDir new_view h dir of
        (r, h') \<Rightarrow> (bind_outcome (with_error (''failed to get view for '' @ dir @ '': '') r) (\<lambda>v.
           bind_outcome (vw_Snapshot v) (\<lambda>_. go_definition locator includeBody (sn v))), h'))"

fun implementation_lines :: "nat \<Rightarrow> Symbol list \<Rightarrow> string" where
  "implementation_lines i [] = []"
| "implementation_lines i (s # ss) =
     itoa i @ ''. '' @ sy_Name s @ '' at '' @ sy_FilePath s @ '':'' @ itoa (sy_Line s)
     @ FormatSymbolSummary (Some s) @ [NL] @ implementation_lines (i + 1) ss"

definition go_implementation :: "SymbolLocator \<Rightarrow> bool \<Rightarrow> snapshot \<Rightarrow> (string, Symbol list \<times> string) outcome" where
  "go_implementation locator includeBody sn =
     bind_outcome (with_error (''failed to find implementations for '' @ quoted (lo_SymbolName locator) @ '': '')
         (LLMImplementation sn locator)) (\<lambda>contexts.
       let symbols = map (context_symbol includeBody) contexts
       in Ok (symbols,
         if symbols = [] then ''No implementations found for symbol '' @ quoted (lo_SymbolName locator) @ '' in '' @ lo_ContextFile locator
         else ''Found '' @ itoa (length symbols) @ '' implementation(s) for symbol '' @ quoted (lo_SymbolName locator) @ '':'' @ [NL]
           @ implementation_lines 1 symbols))"

text \<open>\<open>h.snapshot()\<close>: the first view.\<close>

definition first_snapshot :: "handler \<Rightarrow> (view \<Rightarrow> (string, 'a) outcome) \<Rightarrow> (string, 'a) outcome" where
  "first_snapshot h k =
     (case h_Views h of [] \<Rightarrow> Err ''no active views'' | v # _ \<Rightarrow> bind_outcome (vw_Snapshot v) (\<lambda>_. k v))"

definition handleGoImplementation :: "(view \<Rightarrow> snapshot) \<Rightarrow> handler \<Rightarrow> SymbolLocator \<Rightarrow> bool \<Rightarrow> (string, Symbol list \<times> string) outcome" where
  "handleGoImplementation sn h locator includeBody = first_snapshot h (\<lambda>v. go_implementation locator includeBody (sn v))"

section \<open>go_symbol_references\<close>

text \<open>The trimmed line of a reference, when it can be read and is not too long.\<close>

definition reference_context :: "snapshot \<Rightarrow> Location \<Rightarrow> string" where
  "reference_context sn loc =
     (case content sn (l_URI loc) of
        None \<Rightarrow> []
      | Some c \<Rightarrow>
          let lines = split_byte NL c; lineIdx = unat (Line (r_Start (l_Range loc)))
          in if lineIdx < length lines then
               (let line = TrimSpace (lines ! lineIdx)
                in if 0 < length line \<and> length line < 100 then [NL] @ ''   '' @ line else [])
             else [])"

fun reference_lines :: "snapshot \<Rightarrow> nat \<Rightarrow> Location list \<Rightarrow> string" where
  "reference_lines sn i [] = []"
| "reference_lines sn i (loc # locs) =
     itoa i @ ''. '' @ l_URI loc @ '':'' @ itoa (line_number (Line (r_Start (l_Range loc)))) @ '':''
     @ itoa (line_number (Character (r_Start (l_Range loc)))) @ reference_context sn loc @ [NL] @ reference_lines sn (i + 1) locs"

record OSymbolReferencesResult =
  or_Summary :: string
  or_Symbols :: "Symbol list"
  or_TotalCount :: nat
  or_Returned :: nat
  or_Truncated :: bool

definition referenced_symbol :: "snapshot \<Rightarrow> string \<Rightarrow> Position \<Rightarrow> Symbol list" where
  "referenced_symbol sn uri position =
     (case sn_Definition sn uri position of
        Ok (defLoc # _) \<Rightarrow>
          (case ExtractSymbolAtDefinition (readable sn) (sn_Hover sn) (sn_ParseGo sn) defLoc True of
             Some s \<Rightarrow> [s] | None \<Rightarrow> [])
      | _ \<Rightarrow> [])"

definition references_summary :: "(string \<Rightarrow> string) \<Rightarrow> snapshot \<Rightarrow> SymbolLocator \<Rightarrow> Location list \<Rightarrow> Symbol list \<Rightarrow> string" where
  "references_summary quote sn locator locations symbols =
     (if locations = [] then ''No references found for '' @ quote (lo_SymbolName locator) @ '' in '' @ lo_ContextFile locator
      else ''Found '' @ itoa (length locations) @ '' reference(s) to '' @ quote (lo_SymbolName locator) @ '':'' @ [NL]
        @ reference_lines sn 1 locations
        @ (case symbols of
             [] \<Rightarrow> []
           | s # _ \<Rightarrow>
               (if sy_Signature s \<noteq> [] then [NL] @ ''Referenced Symbol: '' @ sy_Signature s @ [NL] else [])
               @ (if sy_Doc s \<noteq> [] then ''Documentation: '' @ sy_Doc s @ [NL] else [])))"

definition go_symbol_references :: "(string \<Rightarrow> string) \<Rightarrow> SymbolLocator \<Rightarrow> snapshot \<Rightarrow> (string, OSymbolReferencesResult) outcome" where
  "go_symbol_references quote locator sn =
     (let uri = lo_ContextFile locator in
      bind_outcome (with_error (''failed to read file '' @ uri @ '': '') (sn_ReadFile sn uri)) (\<lambda>_.
        bind_outcome (with_error (''failed to resolve symbol '' @ quoted (lo_SymbolName locator) @ '': '')
            (ResolveNode (sn_Package sn uri) locator)) (\<lambda>result.
          bind_outcome (with_error ''failed to get package: '' (sn_Package sn uri)) (\<lambda>_.
            case lsp_position sn uri (rs_Pos result) of
              None \<Rightarrow> Err (''invalid position for symbol '' @ quoted (lo_SymbolName locator))
            | Some position \<Rightarrow>
                bind_outcome (with_error ''failed to find references: '' (sn_References sn uri position)) (\<lambda>locations.
                  let symbols = referenced_symbol sn uri position
                  in Ok \<lparr>or_Summary = references_summary quote sn locator locations symbols, or_Symbols = symbols,
                         or_TotalCount = length locations, or_Returned = length locations, or_Truncated = False\<rparr>)))))"

definition handleGoSymbolReferences :: "(string \<Rightarrow> string) \<Rightarrow> (view \<Rightarrow> snapshot) \<Rightarrow> handler \<Rightarrow> SymbolLocator \<Rightarrow>
    (string, OSymbolReferencesResult) outcome" where
  "handleGoSymbolReferences quote sn h locator = first_snapshot h (\<lambda>v. go_symbol_references quote locator (sn v))"

section \<open>go_dryrun_rename_symbol\<close>

definition go_rename_symbol :: "(string \<Rightarrow> string) \<Rightarrow> ((string \<times> TextEdit list \<times> string) list \<Rightarrow> (string \<times> TextEdit list \<times> string) list) \<Rightarrow>
    SymbolLocator \<Rightarrow> string \<Rightarrow> snapshot \<Rightarrow> (string, string \<times> RenameChange list) outcome" where
  "go_rename_symbol quote iter locator newName sn =
     bind_outcome (with_error ''failed to compute rename: '' (LLMRename iter sn locator newName)) (\<lambda>(unifiedDiff, lineChanges).
       Ok (''DRY RUN: Preview rename '' @ quote (lo_SymbolName locator) @ '' to '' @ quote newName @ [NL, NL] @ unifiedDiff, lineChanges))"

definition handleGoRenameSymbol :: "(string \<Rightarrow> string) \<Rightarrow> ((string \<times> TextEdit list \<times> string) list \<Rightarrow> (string \<times> TextEdit list \<times> string) list) \<Rightarrow>
    (view \<Rightarrow> snapshot) \<Rightarrow> handler \<Rightarrow> SymbolLocator \<Rightarrow> string \<Rightarrow> (string, string \<times> RenameChange list) outcome" where
  "handleGoRenameSymbol quote iter sn h locator newName =
     first_snapshot h (\<lambda>v. go_rename_symbol quote iter locator newName (sn v))"

section \<open>go_build_check\<close>

text \<open>A diagnostic of gopls (\<open>cache/diagnostics.go\<close>) without its suggested fixes, which nothing here reads;
  \<open>dg_BundledFixes\<close> are the bytes of a JSON value, \<open>None\<close> for a nil pointer.\<close>

record related_information =
  rel_Location :: Location
  rel_Message :: string

record diagnostic =
  dg_URI :: string
  dg_Range :: Range
  dg_Severity :: nat
  dg_Code :: string
  dg_CodeHref :: string
  dg_Source :: string
  dg_Message :: string
  dg_Tags :: "nat list"
  dg_Related :: "related_information list"
  dg_BundledFixes :: "string option"

text \<open>How \<open>fmt\<close> prints positions, ranges and the values of an enumeration (\<open>protocol/span.go\<close>, \<open>enums.go\<close>).\<close>

definition Position_Format :: "Position \<Rightarrow> string" where
  "Position_Format p = itoa (unat (Line p)) @ '':'' @ itoa (unat (Character p))"

definition Range_Format :: "Range \<Rightarrow> string" where
  "Range_Format r = Position_Format (r_Start r) @ ''-'' @ Position_Format (r_End r)"

definition formatEnum :: "nat \<Rightarrow> string list \<Rightarrow> string \<Rightarrow> string" where
  "formatEnum i names unknown =
     (let s = (if i < length names then names ! i else [])
      in if s \<noteq> [] then s else unknown @ ''('' @ itoa i @ '')'')"

definition DiagnosticSeverity_Format :: "nat \<Rightarrow> string" where
  "DiagnosticSeverity_Format e = formatEnum e [[], ''Error'', ''Warning'', ''Information'', ''Hint''] ''DiagnosticSeverity''"

definition DiagnosticTag_Format :: "nat \<Rightarrow> string" where
  "DiagnosticTag_Format e = formatEnum e [[], ''Unnecessary''] ''DiagnosticTag''"

text \<open>What \<open>Hash\<close> writes into SHA-256: everything but the file.\<close>

definition hash_text :: "diagnostic \<Rightarrow> string" where
  "hash_text d =
     concat (map (\<lambda>t. ''tag: '' @ DiagnosticTag_Format t @ [NL]) (dg_Tags d))
     @ concat (map (\<lambda>r. ''related: '' @ l_URI (rel_Location r) @ '' '' @ rel_Message r @ '' ''
         @ Range_Format (l_Range (rel_Location r)) @ [NL]) (dg_Related d))
     @ ''code: '' @ dg_Code d @ [NL]
     @ ''codeHref: '' @ dg_CodeHref d @ [NL]
     @ ''message: '' @ dg_Message d @ [NL]
     @ ''range: '' @ Range_Format (dg_Range d) @ [NL]
     @ ''severity: '' @ DiagnosticSeverity_Format (dg_Severity d) @ [NL]
     @ ''source: '' @ dg_Source d @ [NL]
     @ (case dg_BundledFixes d of None \<Rightarrow> [] | Some fixes \<Rightarrow> ''fixes: '' @ fixes @ [NL])"

text \<open>\<open>Hash\<close>, then \<open>String\<close>: \<open>sha\<close> is SHA-256 in hexadecimal.\<close>

definition Hash :: "(string \<Rightarrow> string) \<Rightarrow> diagnostic \<Rightarrow> string" where
  "Hash sha d = sha (hash_text d)"

record Diagnostic =
  di_File :: string
  di_Severity :: string
  di_Message :: string
  di_Line :: int
  di_Column :: int
  di_CodeSnippet :: string

definition severityStr :: "nat \<Rightarrow> string" where
  "severityStr n = (if n = 1 then ''Error'' else if n = 2 then ''Warning'' else if n = 3 then ''Information''
     else if n = 4 then ''Hint'' else ''Unknown'')"

definition codeSnippet :: "(string \<Rightarrow> string option) \<Rightarrow> diagnostic \<Rightarrow> string" where
  "codeSnippet read d =
     (case read (dg_URI d) of
        None \<Rightarrow> []
      | Some c \<Rightarrow>
          let lines = split_byte NL c; lineIdx = unat (Line (r_Start (dg_Range d)))
          in if lineIdx < length lines then TrimSpace (lines ! lineIdx) else [])"

definition to_Diagnostic :: "(string \<Rightarrow> string option) \<Rightarrow> diagnostic \<Rightarrow> Diagnostic" where
  "to_Diagnostic read d =
     \<lparr>di_File = dg_URI d, di_Severity = severityStr (dg_Severity d), di_Message = dg_Message d,
      di_Line = int (unat (Line (r_Start (dg_Range d)))) + 1, di_Column = int (unat (Character (r_Start (dg_Range d)))) + 1,
      di_CodeSnippet = codeSnippet read d\<rparr>"

text \<open>The two loops: \<open>seen\<close> is shared by all files.\<close>

fun add_diags :: "(string \<Rightarrow> string) \<Rightarrow> (string \<Rightarrow> string option) \<Rightarrow> diagnostic list \<Rightarrow> string list \<times> Diagnostic list \<Rightarrow>
    string list \<times> Diagnostic list" where
  "add_diags sha read [] st = st"
| "add_diags sha read (d # ds) (seen, out) =
     (let key = Hash sha d in
      if key \<in> set seen then add_diags sha read ds (seen, out)
      else add_diags sha read ds (key # seen, out @ [to_Diagnostic read d]))"

definition collect_diagnostics :: "(string \<Rightarrow> string) \<Rightarrow> (string \<Rightarrow> string option) \<Rightarrow> (string \<times> diagnostic list) list \<Rightarrow> Diagnostic list" where
  "collect_diagnostics sha read reports = snd (fold (\<lambda>(uri, diags). add_diags sha read diags) reports ([], []))"

definition diagnostic_line :: "Diagnostic \<Rightarrow> string" where
  "diagnostic_line d =
     (let locInfo = di_File d @ '':'' @ itoa_int (di_Line d) @ '':'' @ itoa_int (di_Column d)
      in if di_CodeSnippet d \<noteq> []
         then ''- '' @ locInfo @ '': '' @ di_Message d @ [NL] @ ''  Code: '' @ di_CodeSnippet d @ [NL] @ ''  ['' @ di_Severity d @ '']'' @ [NL]
         else ''- '' @ locInfo @ '': '' @ di_Message d @ '' ('' @ di_Severity d @ '')'' @ [NL])"

definition diagnostics_summary :: "nat \<Rightarrow> Diagnostic list \<Rightarrow> string" where
  "diagnostics_summary packages ds =
     (if ds = [] then ''Workspace diagnostics checked for '' @ itoa packages @ '' packages. No issues found.''
      else ''Found '' @ itoa (length ds) @ '' unique diagnostic(s):'' @ [NL] @ concat (map diagnostic_line ds))"

text \<open>\<open>diags\<close>: the workspace packages and what \<open>PackageDiagnostics\<close> answers for them, as its map is iterated.\<close>

definition handleGoDiagnostics :: "(string \<Rightarrow> string) \<Rightarrow> (string \<Rightarrow> (string, view) outcome) \<Rightarrow> (view \<Rightarrow> snapshot) \<Rightarrow>
    (view \<Rightarrow> string list \<times> (string, (string \<times> diagnostic list) list) outcome) \<Rightarrow> handler \<Rightarrow> string \<Rightarrow>
    (string, string \<times> Diagnostic list) outcome \<times> handler" where
  "handleGoDiagnostics sha new_view sn diags h cwd =
     with_snapshot new_view h cwd (\<lambda>v.
       bind_outcome (with_error ''failed to load metadata: '' (vw_Graph v)) (\<lambda>_.
         let (ids, reports) = diags v
         in bind_outcome (with_error ''diagnostics failed: '' reports) (\<lambda>rs.
              let ds = collect_diagnostics sha (content (sn v)) rs in Ok (diagnostics_summary (length ids) ds, ds))))"

section \<open>Diagnostics once each\<close>

text \<open>The first diagnostic of every key.\<close>

fun first_of_each :: "('d \<Rightarrow> 'k) \<Rightarrow> 'k list \<Rightarrow> 'd list \<Rightarrow> 'd list" where
  "first_of_each key seen [] = []"
| "first_of_each key seen (d # ds) =
     (if key d \<in> set seen then first_of_each key seen ds else d # first_of_each key (key d # seen) ds)"

lemma first_of_each_keys:
  "distinct (map key (first_of_each key seen ds)) \<and> key ` set (first_of_each key seen ds) = key ` set ds - set seen"
  by (induction key seen ds rule: first_of_each.induct) auto

lemma first_of_each_append:
  "first_of_each key seen (ds @ es) = first_of_each key seen ds @ first_of_each key (rev (map key (first_of_each key seen ds)) @ seen) es"
  by (induction key seen ds rule: first_of_each.induct) simp_all

lemma first_of_each_cong:
  "(\<And>d. d \<in> set ds \<Longrightarrow> key d \<in> set seen \<longleftrightarrow> key' d \<in> set seen') \<Longrightarrow>
     (\<And>d d'. d \<in> set ds \<Longrightarrow> d' \<in> set ds \<Longrightarrow> key d = key d' \<longleftrightarrow> key' d = key' d') \<Longrightarrow>
     first_of_each key seen ds = first_of_each key' seen' ds"
  by (induction ds arbitrary: seen seen') auto

text \<open>They are those whose key none before them has.\<close>

lemma first_of_each_nth:
  "first_of_each key seen ds =
     map ((!) ds) (filter (\<lambda>i. key (ds ! i) \<notin> set seen \<and> (\<forall>j < i. key (ds ! j) \<noteq> key (ds ! i))) [0..<length ds])"
proof (induction ds arbitrary: seen)
  case (Cons d ds)
  have upt: "[0..<length (d # ds)] = 0 # map Suc [0..<length ds]" by (simp add: upt_conv_Cons map_Suc_upt del: upt_Suc)
  have all: "(\<forall>j < Suc i. P j) \<longleftrightarrow> P 0 \<and> (\<forall>j < i. P (Suc j))" for i :: nat and P by (auto simp: less_Suc_eq_0_disj)
  show ?case
    unfolding upt by (cases "key d \<in> set seen")
      (auto simp: Cons.IH all filter_map comp_def intro!: arg_cong [where f = "map ((!) ds)"] filter_cong)
qed simp

lemma first_of_each_skip:
  assumes "d' \<in> set pre" "key d' = key d"
  shows "first_of_each key seen (pre @ d # post) = first_of_each key seen (pre @ post)"
proof -
  have "key d \<in> set seen \<union> key ` set (first_of_each key seen pre)"
    using imageI [OF assms(1), of key] first_of_each_keys [of key seen pre] unfolding assms(2) by blast
  then show ?thesis by (auto simp: first_of_each_append)
qed

lemma add_diags_first:
  "add_diags sha read ds (seen, out) =
     (rev (map (Hash sha) (first_of_each (Hash sha) seen ds)) @ seen, out @ map (to_Diagnostic read) (first_of_each (Hash sha) seen ds))"
  by (induction sha read ds "(seen, out)" arbitrary: seen out rule: add_diags.induct) (simp_all add: Let_def)

lemma collect_first:
  "collect_diagnostics sha read reports = map (to_Diagnostic read) (first_of_each (Hash sha) [] (concat (map snd reports)))"
proof -
  have "fold (\<lambda>(uri, diags). add_diags sha read diags) reports (seen, out) =
      (rev (map (Hash sha) (first_of_each (Hash sha) seen (concat (map snd reports)))) @ seen,
       out @ map (to_Diagnostic read) (first_of_each (Hash sha) seen (concat (map snd reports))))" for seen out
    by (induction reports arbitrary: seen out) (auto simp: add_diags_first first_of_each_append)
  then show ?thesis by (simp add: collect_diagnostics_def)
qed

text \<open>Claim C33: \<open>go_build_check\<close>, where SHA-256 does not collide on the diagnostics at hand, reports of all
  diagnostics, file after file, those that no earlier one equals in the text that is hashed; so their
  number is that of the different texts, whatever the order of the files.  The text does not have
  the file: a diagnostic that differs from one of an earlier file in nothing but the file is not
  reported, the answer is the same as without it.\<close>

theorem collect_diagnostics_spec:
  assumes "inj_on sha (hash_text ` set (concat (map snd reports)))"
  shows "(let found = concat (map snd reports) in
      collect_diagnostics sha read reports =
        map (\<lambda>i. to_Diagnostic read (found ! i))
          (filter (\<lambda>i. \<forall>j < i. hash_text (found ! j) \<noteq> hash_text (found ! i)) [0..<length found])
    \<and> length (collect_diagnostics sha read reports) = card (hash_text ` set found))
    \<and> (\<forall>us uri ds d ds' ws d'. reports = us @ (uri, ds @ d # ds') # ws \<and> d' \<in> set (concat (map snd us))
         \<and> d = d'\<lparr>dg_URI := dg_URI d\<rparr> \<longrightarrow>
         collect_diagnostics sha read reports = collect_diagnostics sha read (us @ (uri, ds @ ds') # ws))"
proof -
  let ?found = "concat (map snd reports)"
  have first: "first_of_each (Hash sha) [] ?found = first_of_each hash_text [] ?found"
    using assms by (intro first_of_each_cong) (auto simp: Hash_def dest: inj_onD)
  have kept: "collect_diagnostics sha read reports = map (\<lambda>i. to_Diagnostic read (?found ! i))
      (filter (\<lambda>i. \<forall>j < i. hash_text (?found ! j) \<noteq> hash_text (?found ! i)) [0..<length ?found])"
    unfolding collect_first first by (simp add: first_of_each_nth comp_def)
  have number: "length (collect_diagnostics sha read reports) = card (hash_text ` set ?found)"
    using first_of_each_keys [of hash_text "[]" ?found] unfolding collect_first first
    by (metis Diff_empty distinct_card empty_set length_map list.set_map)
  have skip: "collect_diagnostics sha read reports = collect_diagnostics sha read (us @ (uri, ds @ ds') # ws)"
    if r: "reports = us @ (uri, ds @ d # ds') # ws" and d': "d' \<in> set (concat (map snd us))" "d = d'\<lparr>dg_URI := dg_URI d\<rparr>"
    for us uri ds d ds' ws d'
  proof -
    have "hash_text (d'\<lparr>dg_URI := u\<rparr>) = hash_text d'" for u by (simp add: hash_text_def)
    then have key: "Hash sha d' = Hash sha d" using d'(2) unfolding Hash_def by metis
    have mem: "d' \<in> set (concat (map snd us) @ ds)" using d'(1) by simp
    show ?thesis
      using first_of_each_skip [where key = "Hash sha" and seen = "[]" and post = "ds' @ concat (map snd ws)", OF mem key]
      unfolding collect_first r by simp
  qed
  show ?thesis unfolding Let_def using kept number skip by blast
qed

section \<open>What is resolved\<close>

lemma with_error_Ok [simp]: "with_error m r = Ok a \<longleftrightarrow> r = Ok a"
  by (cases r) simp_all

text \<open>A definition in another file: the location is right, but the symbol is looked up in the file that the agent
  was reading, at the line and column that the definition has in its own file.\<close>

lemma definition_in_other_file:
  assumes "sn_ReadFile sn (lo_ContextFile locator) = Ok c" "ResolveNode (sn_Package sn (lo_ContextFile locator)) locator = Ok r"
    and "rs_Object r = Some obj" "lsp_position sn (lo_ContextFile locator) (rs_Pos r) = Some p"
    and "sn_Definition sn (lo_ContextFile locator) p = Ok (loc # locs)"
    and "findNodeAtPos sn (lo_ContextFile locator) (r_Start (l_Range loc)) = Some node" "pn_File node = lo_ContextFile locator"
  shows "\<exists>s summary. go_definition locator includeBody sn = Ok (Some s, ''Definition found at '' @ l_URI loc @ summary)
     \<and> sy_FilePath s = lo_ContextFile locator \<and> sy_Line s = pn_StartLine node"
proof -
  obtain pf where "sn_Package sn (lo_ContextFile locator) = Ok pf"
    using assms(2) by (cases "sn_Package sn (lo_ContextFile locator)") (auto simp: ResolveNode_def)
  then show ?thesis using assms
    by (simp add: go_definition_def ResolveSymbol_def find_definitions_def find_implementations_def definition_context_def
        buildSourceContext_def context_symbol_def Let_def)
qed

text \<open>The tools agree on what a symbol is: if \<open>go_symbol_references\<close> answers, then gopls was asked about the
  position of the identifier that \<open>ResolveNode\<close> chooses, the answer counts exactly the references that gopls
  gave, and \<open>go_definition\<close> and \<open>go_dryrun_rename_symbol\<close> ask gopls about the same position, the former only if
  the identifier has an object.\<close>

theorem tools_agree:
  assumes "go_symbol_references quote locator sn = Ok refs"
  shows "\<exists>r p locs. ResolveNode (sn_Package sn (lo_ContextFile locator)) locator = Ok r
     \<and> lsp_position sn (lo_ContextFile locator) (rs_Pos r) = Some p
     \<and> sn_References sn (lo_ContextFile locator) p = Ok locs
     \<and> or_TotalCount refs = length locs \<and> or_Returned refs = length locs \<and> \<not> or_Truncated refs
     \<and> (rs_Object r = None \<longrightarrow> (\<exists>e. go_definition locator b sn = Err e))
     \<and> (rs_Object r \<noteq> None \<longrightarrow> sn_Definition sn (lo_ContextFile locator) p = Ok [] \<longrightarrow>
          (\<exists>summary. go_definition locator b sn = Ok (None, summary)))
     \<and> (\<forall>e. sn_Rename sn (lo_ContextFile locator) p newName = Err e \<longrightarrow>
          go_rename_symbol quote iter locator newName sn = Err (''failed to compute rename: failed to compute rename: '' @ e))
     \<and> (sn_Rename sn (lo_ContextFile locator) p newName = Ok [] \<longrightarrow>
          go_rename_symbol quote (\<lambda>m. m) locator newName sn
            = Ok (''DRY RUN: Preview rename '' @ quote (lo_SymbolName locator) @ '' to '' @ quote newName @ [NL, NL], []))"
proof -
  obtain c pf r p locs where *: "sn_ReadFile sn (lo_ContextFile locator) = Ok c"
    "ResolveNode (sn_Package sn (lo_ContextFile locator)) locator = Ok r" "sn_Package sn (lo_ContextFile locator) = Ok pf"
    "lsp_position sn (lo_ContextFile locator) (rs_Pos r) = Some p" "sn_References sn (lo_ContextFile locator) p = Ok locs"
    "or_TotalCount refs = length locs" "or_Returned refs = length locs" "\<not> or_Truncated refs"
    using assms by (auto simp: go_symbol_references_def bind_outcome_Ok_iff Let_def split: option.splits)
  have n: "rs_Object r = None \<longrightarrow> (\<exists>e. go_definition locator b sn = Err e)"
    using * by (simp add: go_definition_def ResolveSymbol_def Let_def)
  have d: "rs_Object r \<noteq> None \<longrightarrow> sn_Definition sn (lo_ContextFile locator) p = Ok [] \<longrightarrow>
      (\<exists>summary. go_definition locator b sn = Ok (None, summary))"
    using * by (auto simp: go_definition_def ResolveSymbol_def find_definitions_def find_implementations_def Let_def)
  have e: "\<forall>e. sn_Rename sn (lo_ContextFile locator) p newName = Err e \<longrightarrow>
      go_rename_symbol quote iter locator newName sn = Err (''failed to compute rename: failed to compute rename: '' @ e)"
    using * by (simp add: go_rename_symbol_def LLMRename_def Let_def)
  have o: "sn_Rename sn (lo_ContextFile locator) p newName = Ok [] \<longrightarrow>
      go_rename_symbol quote (\<lambda>m. m) locator newName sn
        = Ok (''DRY RUN: Preview rename '' @ quote (lo_SymbolName locator) @ '' to '' @ quote newName @ [NL, NL], [])"
    using * by (simp add: go_rename_symbol_def LLMRename_def generateUnifiedDiff_def generateLineChanges_def Let_def)
  show ?thesis
    using *(2,4-8) n d e o by (intro exI [of _ r] exI [of _ p] exI [of _ locs] conjI) assumption+
qed

text \<open>Two packages lack the same import at the same place: only the first file is reported.\<close>

definition missing_import :: "string \<Rightarrow> diagnostic" where
  "missing_import uri = \<lparr>dg_URI = uri, dg_Range = zero_range, dg_Severity = 1, dg_Code = [], dg_CodeHref = [],
     dg_Source = ''compiler'', dg_Message = ''could not import x'', dg_Tags = [], dg_Related = [], dg_BundledFixes = None\<rparr>"

theorem collect_diagnostics_spec_witness:
  "map di_File (collect_diagnostics (\<lambda>t. t) (\<lambda>_. None)
      [(''a.go'', [missing_import ''a.go'']), (''b.go'', [missing_import ''b.go''])]) = [''a.go'']"
proof -
  let ?reports = "[(''a.go'', [missing_import ''a.go'']), (''b.go'', [missing_import ''b.go''])]"
  have "?reports = [(''a.go'', [missing_import ''a.go''])] @ (''b.go'', [] @ missing_import ''b.go'' # []) # []
      \<and> missing_import ''a.go'' \<in> set (concat (map snd [(''a.go'', [missing_import ''a.go''])]))
      \<and> missing_import ''b.go'' = (missing_import ''a.go'')\<lparr>dg_URI := dg_URI (missing_import ''b.go'')\<rparr>"
    by (simp add: missing_import_def)
  then have "collect_diagnostics (\<lambda>t. t) (\<lambda>_. None) ?reports
      = collect_diagnostics (\<lambda>t. t) (\<lambda>_. None) ([(''a.go'', [missing_import ''a.go''])] @ (''b.go'', [] @ []) # [])"
    using collect_diagnostics_spec [of "\<lambda>t. t" ?reports "\<lambda>_. None", OF inj_onI] by blast
  then show ?thesis by (simp add: collect_diagnostics_def Let_def to_Diagnostic_def missing_import_def)
qed

definition example_snapshot :: snapshot where
  "example_snapshot = \<lparr>sn_ReadFile = (\<lambda>_. Ok (Ok ''package p'')), sn_Package = (\<lambda>_. Ok (example_syntax, example_info)),
     sn_Position = (\<lambda>_ p. Some (p, 1)), sn_Object = (\<lambda>_ _. (''Start'', ''func (*Server).Start()'')), sn_Path = (\<lambda>_ _. []),
     sn_HasCursor = (\<lambda>_ _. True), sn_Format = Some, sn_Definition = (\<lambda>_ _. Ok []),
     sn_References = (\<lambda>u _. Ok [\<lparr>l_URI = u, l_Range = zero_range\<rparr>]), sn_Implementations = (\<lambda>_ _. Ok []),
     sn_Rename = (\<lambda>_ _ _. Err ''no''), sn_Hover = (\<lambda>_ _. None), sn_ParseGo = (\<lambda>_. None)\<rparr>"

lemma tools_agree_witness:
  "(\<exists>refs. go_symbol_references id (locator_of ''Start'' ''Server'' ''method'') example_snapshot = Ok refs \<and> or_TotalCount refs = 1)
   \<and> (\<exists>summary. go_definition (locator_of ''Start'' ''Server'' ''method'') True example_snapshot = Ok (None, summary))
   \<and> go_rename_symbol id (\<lambda>m. m) (locator_of ''Start'' ''Server'' ''method'') ''Run'' example_snapshot
       = Err ''failed to compute rename: failed to compute rename: no''"
proof -
  let ?l = "locator_of ''Start'' ''Server'' ''method''"
  have r: "ResolveNode (sn_Package example_snapshot u) ?l = Ok \<lparr>rs_Pos = 7,
      rs_Object = Some (FuncObj (Some (Pointer (Named ''Server'')))), rs_EnclosingFunc = ''(*Server).Start'', rs_IsDefinition = True\<rparr>" for u
    by (simp add: example_snapshot_def method_found)
  then obtain refs where refs: "go_symbol_references id ?l example_snapshot = Ok refs"
    by (simp add: go_symbol_references_def Let_def) (simp add: example_snapshot_def lsp_position_def Let_def)
  from tools_agree [OF refs, of True "''Run''" "\<lambda>m. m"] r
  show ?thesis using refs by (auto simp: example_snapshot_def)
qed

end
