(* ===== verification/Tool_Formats.thy ===== *)
theory Tool_Formats
  imports Gopls_Tools Diff_Strings
begin

text \<open>
  The formatters of \<open>mcpbridge/core\<close>: references (\<open>references_formatter.go\<close>), diagnostics
  (\<open>diagnostics_formatter.go\<close>) and the diff of a rename (\<open>diff_formatter.go\<close>), whose way of applying edits is
  compared with \<open>ApplyEdits\<close>.  \<open>None\<close> is \<open>log.Fatalf\<close> in \<open>diff.Unified\<close>.
\<close>

section \<open>References\<close>

definition TrimLeftSpace :: "string \<Rightarrow> string" where
  "TrimLeftSpace s = drop (space_prefix s) s"

definition reference_entry :: "(string \<Rightarrow> string option) \<Rightarrow> nat \<Rightarrow> Location \<Rightarrow> string" where
  "reference_entry read i r =
     [NL] @ ''Reference '' @ itoa i @ [NL] @ ''Located in the file: '' @ l_URI r @ [NL]
     @ (case read (l_URI r) of
          None \<Rightarrow> []
        | Some c \<Rightarrow>
            let lines = split_byte NL c; l = unat (Line (r_Start (l_Range r)))
            in if l < length lines
               then ''Line '' @ itoa (line_number (Line (r_Start (l_Range r)))) @ '': '' @ TrimLeftSpace (lines ! l) @ [NL]
               else [])"

definition reference_entries :: "(string \<Rightarrow> string option) \<Rightarrow> Location list \<Rightarrow> string" where
  "reference_entries read refs = concat (map (\<lambda>(i, r). reference_entry read (i + 1) r) (enumerate 0 refs))"

definition formatReferences :: "(string \<Rightarrow> string option) \<Rightarrow> Location list \<Rightarrow> string" where
  "formatReferences read refs =
     (if refs = [] then ''No references found.''
      else ''The object has '' @ itoa (length refs) @ '' reference(s). Their locations are listed below:'' @ [NL]
        @ reference_entries read refs)"

definition formatReferencesWithCount :: "(string \<Rightarrow> string option) \<Rightarrow> Location list \<Rightarrow> int \<Rightarrow> bool \<Rightarrow> string \<Rightarrow> string" where
  "formatReferencesWithCount read refs totalCount truncated hint =
     (if refs = [] then ''No references found.''
      else
        (if truncated
         then ''The object has '' @ itoa_int totalCount @ '' reference(s) (showing first '' @ itoa (length refs) @ ''):'' @ [NL]
         else ''The object has '' @ itoa_int totalCount @ '' reference(s):'' @ [NL])
        @ reference_entries read refs
        @ (if truncated \<and> hint \<noteq> [] then [NL] @ hint else []))"

section \<open>Diagnostics\<close>

record DiagnosticReport =
  rp_File :: string
  rp_Line :: int
  rp_Column :: int
  rp_Severity :: string
  rp_Message :: string
  rp_Source :: string
  rp_DiagnosticCode :: string
  rp_CodeSnippet :: string

definition report_severity :: "nat \<Rightarrow> string" where
  "report_severity n = (if n = 1 then ''error'' else if n = 2 then ''warning'' else if n = 3 then ''info''
     else if n = 4 then ''hint'' else ''unknown'')"

text \<open>The first line and the first column are reported as 0.\<close>

definition one_indexed :: "32 word \<Rightarrow> int" where
  "one_indexed n = (if n > 0 then int (unat n) + 1 else 0)"

definition to_report :: "(string \<Rightarrow> string option) \<Rightarrow> diagnostic \<Rightarrow> DiagnosticReport" where
  "to_report read d =
     \<lparr>rp_File = dg_URI d, rp_Line = one_indexed (Line (r_Start (dg_Range d))),
      rp_Column = one_indexed (Character (r_Start (dg_Range d))), rp_Severity = report_severity (dg_Severity d),
      rp_Message = dg_Message d, rp_Source = (if dg_Source d \<noteq> [] then dg_Source d else ''gopls''),
      rp_DiagnosticCode = dg_Code d, rp_CodeSnippet = codeSnippet read d\<rparr>"

definition report_text :: "DiagnosticReport \<Rightarrow> string" where
  "report_text r =
     ''  '' @ itoa_int (rp_Line r) @ '':'' @ itoa_int (rp_Column r) @ '' ['' @ rp_Severity r @ '']: '' @ rp_Message r @ [NL]
     @ (if rp_CodeSnippet r \<noteq> [] then ''    Code: '' @ rp_CodeSnippet r @ [NL] else [])
     @ (if rp_DiagnosticCode r \<noteq> [] then ''    Diagnostic: '' @ rp_DiagnosticCode r @ [NL] else [])"

text \<open>\<open>files\<close>: the keys of \<open>byFile\<close> in the order of iteration.\<close>

definition file_section :: "DiagnosticReport list \<Rightarrow> string \<Rightarrow> string" where
  "file_section reports file =
     ''## '' @ file @ [NL] @ concat (map report_text (filter (\<lambda>r. rp_File r = file) reports)) @ [NL]"

definition formatDiagnosticsFull :: "(string list \<Rightarrow> string list) \<Rightarrow> (string \<Rightarrow> string option) \<Rightarrow>
    (string, (string \<times> diagnostic list) list) outcome \<Rightarrow> (string, string \<times> DiagnosticReport list \<times> nat \<times> nat) outcome" where
  "formatDiagnosticsFull iter read diagMap =
     bind_outcome (with_error ''failed to get diagnostics: '' diagMap) (\<lambda>m.
       let diags = concat (map snd m);
           allReports = map (to_report read) diags;
           totalErrors = length (filter (\<lambda>d. dg_Severity d = 1) diags);
           totalWarnings = length (filter (\<lambda>d. dg_Severity d = 2) diags)
       in Ok (if totalErrors > 0 \<or> totalWarnings > 0
              then ''Found '' @ itoa totalErrors @ '' error(s) and '' @ itoa totalWarnings @ '' warning(s)'' @ [NL, NL]
                @ concat (map (file_section allReports) (iter (remdups (map rp_File allReports))))
                @ (if length allReports > 50 then [NL] @ ''... and '' @ itoa (length allReports - 50) @ '' more diagnostic(s)'' @ [NL] else [])
              else ''No diagnostics found - workspace is clean!'' @ [NL],
              allReports, totalErrors, totalWarnings))"

definition formatDiagnosticsSimple :: "int \<Rightarrow> string option \<Rightarrow> string" where
  "formatDiagnosticsSimple packageCount err =
     (case err of
        Some e \<Rightarrow> ''Failed to get diagnostics: '' @ e
      | None \<Rightarrow> ''Workspace diagnostics checked for '' @ itoa_int packageCount @ '' packages.'')"

section \<open>The diff of a rename\<close>

datatype file_change =
  CreateFile string
| DeleteFile string
| RenameFile string string
| TextDocumentEdit string "TextEdit list"
| NoChange

text \<open>The inner loop; \<open>content[start:l]\<close> panics when the edits overlap.\<close>

fun new_source :: "Mapper \<Rightarrow> int \<Rightarrow> TextEdit list \<Rightarrow> (pos_error, string) outcome" where
  "new_source m start [] = Ok (drop (nat start) (Content m))"
| "new_source m start (e # es) =
     bind_outcome (RangeOffsets m (te_Range e)) (\<lambda>(l, r).
       if start > l then Panic
       else bind_outcome (new_source m r es) (\<lambda>rest. Ok (slice (nat start) (nat l) (Content m) @ te_NewText e @ rest)))"

text \<open>\<open>sortf\<close> is \<open>slices.SortFunc\<close> with the comparison of start positions; \<open>pos_text\<close> the text of a position error.\<close>

definition change_diff :: "(TextEdit list \<Rightarrow> TextEdit list) \<Rightarrow> (pos_error \<Rightarrow> string) \<Rightarrow> snapshot \<Rightarrow> file_change \<Rightarrow>
    (string, string) outcome option" where
  "change_diff sortf pos_text sn change =
     (let read = (\<lambda>uri. bind_outcome (sn_ReadFile sn uri) (\<lambda>c. c));
          diff = (\<lambda>old new a b. map_option (\<lambda>d. case d of Ok t \<Rightarrow> Ok (t @ [NL]) | _ \<Rightarrow> Panic) (Unified old new a b))
      in case change of
           CreateFile uri \<Rightarrow> diff ''/dev/null'' uri [] []
         | DeleteFile uri \<Rightarrow>
             (case read uri of Ok c \<Rightarrow> diff uri ''/dev/null'' c [] | Err e \<Rightarrow> Some (Err e) | Panic \<Rightarrow> Some Panic)
         | RenameFile old new \<Rightarrow>
             (case read old of Ok c \<Rightarrow> diff old new c c | Err e \<Rightarrow> Some (Err e) | Panic \<Rightarrow> Some Panic)
         | TextDocumentEdit uri edits \<Rightarrow>
             (case read uri of
                Err e \<Rightarrow> Some (Err e)
              | Panic \<Rightarrow> Some Panic
              | Ok c \<Rightarrow>
                  (case new_source (NewMapper uri c) 0 (sortf edits) of
                     Ok newSrc \<Rightarrow> diff uri uri c newSrc
                   | Err e \<Rightarrow> Some (Err (pos_text e))
                   | Panic \<Rightarrow> Some Panic))
         | NoChange \<Rightarrow> Some (Ok []))"

fun toUnifiedDiff :: "(TextEdit list \<Rightarrow> TextEdit list) \<Rightarrow> (pos_error \<Rightarrow> string) \<Rightarrow> snapshot \<Rightarrow> file_change list \<Rightarrow>
    (string, string) outcome option" where
  "toUnifiedDiff sortf pos_text sn [] = Some (Ok [])"
| "toUnifiedDiff sortf pos_text sn (c # cs) =
     (case change_diff sortf pos_text sn c of
        None \<Rightarrow> None
      | Some (Err e) \<Rightarrow> Some (Err e)
      | Some Panic \<Rightarrow> Some Panic
      | Some (Ok t) \<Rightarrow> map_option (\<lambda>r. bind_outcome r (\<lambda>rest. Ok (t @ rest))) (toUnifiedDiff sortf pos_text sn cs))"

definition formatRenameChanges :: "(TextEdit list \<Rightarrow> TextEdit list) \<Rightarrow> (pos_error \<Rightarrow> string) \<Rightarrow> snapshot \<Rightarrow> file_change list \<Rightarrow>
    (string, string) outcome option" where
  "formatRenameChanges sortf pos_text sn changes =
     map_option (\<lambda>r. bind_outcome r (\<lambda>diffText.
       Ok (''=== DRY RUN: Symbol Rename Preview ==='' @ [NL] @ ''The following changes would be made to rename the symbol:'' @ [NL]
         @ ''NO FILES HAVE BEEN MODIFIED - this is a preview only.'' @ [NL, NL] @ diffText @ [NL])))
       (toUnifiedDiff sortf pos_text sn changes)"

section \<open>The new text\<close>

lemma ok_edits_is_sorted: "ok_edits n l es \<Longrightarrow> is_sorted_edits es"
proof (induction es arbitrary: l)
  case (Cons e es)
  then show ?case by (cases es) (auto simp: edit_less_def)
qed simp

lemma RangeOffsets_order: "RangeOffsets m r = Ok (s, t) \<Longrightarrow> s \<le> t"
  by (auto simp: RangeOffsets_def bind_outcome_Ok_iff split: if_splits)

lemma new_source_patch:
  "new_source m start es = Ok out \<longleftrightarrow>
     (\<exists>des. EditsToDiffEdits m es = Ok des \<and> out = patch (Content m) start des
        \<and> sorted_wrt (\<lambda>a b. e_End a \<le> e_Start b) des \<and> (\<forall>d \<in> set des. start \<le> e_Start d))"
proof (induction es arbitrary: start out)
  case Nil
  then show ?case by auto
next
  case (Cons e es)
  show ?case
  proof (cases "RangeOffsets m (te_Range e)")
    case (Ok st)
    then obtain s t where st: "RangeOffsets m (te_Range e) = Ok (s, t)" "s \<le> t" using RangeOffsets_order by (cases st) auto
    show ?thesis
    proof
      assume "new_source m start (e # es) = Ok out"
      then obtain rest where r: "start \<le> s" "new_source m t es = Ok rest" "out = slice (nat start) (nat s) (Content m) @ te_NewText e @ rest"
        using st by (auto simp: bind_outcome_Ok_iff split: if_splits)
      then obtain des where "EditsToDiffEdits m es = Ok des" "rest = patch (Content m) t des"
        "sorted_wrt (\<lambda>a b. e_End a \<le> e_Start b) des" "\<forall>d \<in> set des. t \<le> e_Start d" using Cons.IH by blast
      then show "\<exists>des. EditsToDiffEdits m (e # es) = Ok des \<and> out = patch (Content m) start des
        \<and> sorted_wrt (\<lambda>a b. e_End a \<le> e_Start b) des \<and> (\<forall>d \<in> set des. start \<le> e_Start d)"
        using st r by (auto simp: mk_edit_def)
    next
      assume "\<exists>des. EditsToDiffEdits m (e # es) = Ok des \<and> out = patch (Content m) start des
        \<and> sorted_wrt (\<lambda>a b. e_End a \<le> e_Start b) des \<and> (\<forall>d \<in> set des. start \<le> e_Start d)"
      then obtain des where d: "EditsToDiffEdits m es = Ok des" "out = slice (nat start) (nat s) (Content m) @ te_NewText e @ patch (Content m) t des"
        "sorted_wrt (\<lambda>a b. e_End a \<le> e_Start b) des" "\<forall>d \<in> set des. t \<le> e_Start d" "start \<le> s"
        using st by (auto simp: bind_outcome_Ok_iff mk_edit_def)
      then have "new_source m t es = Ok (patch (Content m) t des)" using Cons.IH by blast
      then show "new_source m start (e # es) = Ok out" using st d by simp
    qed
  qed simp_all
qed

lemma position_loop_bound: "position_loop s col8 col16 ch = Ok r \<Longrightarrow> col8 \<le> r \<and> r \<le> col8 + length s"
proof (induction s col8 col16 ch rule: position_loop.induct)
  case (1 s col8 col16 ch)
  obtain c sz where d: "(c, sz) = DecodeRune s" by (metis surj_pair)
  have sz: "sz \<noteq> 0 \<Longrightarrow> sz + length (drop sz s) = length s"
    using DecodeRune_size [of s] d by (cases "s = []") (auto simp: DecodeRune_def dest: sym)
  show ?case
  proof (cases "col16 < ch \<and> sz \<noteq> 0 \<and> c \<noteq> 10 \<and> \<not> (sz = 1 \<and> c = RuneError)")
    case True
    then have t: "col16 < ch" "sz \<noteq> 0" "c \<noteq> 10" "\<not> (sz = 1 \<and> c = RuneError)" by auto
    have l: "position_loop s col8 col16 ch = (if c \<ge> 0x10000 then
            (if col16 + 1 = ch then Ok col8 else position_loop (drop sz s) (col8 + sz) (col16 + 2) ch)
          else position_loop (drop sz s) (col8 + sz) (col16 + 1) ch)"
      using t d [symmetric] by (subst position_loop.simps) auto
    show ?thesis
    proof (cases "c \<ge> 0x10000")
      case big: True
      show ?thesis
      proof (cases "col16 + 1 = ch")
        case False
        then have "position_loop (drop sz s) (col8 + sz) (col16 + 2) ch = Ok r" using l big "1.prems" by simp
        then show ?thesis using "1.IH"(1) [OF t(1) d t(2-4) big False] sz [OF t(2)] by simp
      qed (use l big "1.prems" in simp)
    next
      case False
      then have "position_loop (drop sz s) (col8 + sz) (col16 + 1) ch = Ok r" using l "1.prems" by simp
      then show ?thesis using "1.IH"(2) [OF t(1) d t(2-4) False] sz [OF t(2)] by simp
    qed
  next
    case False
    then show ?thesis using "1.prems" d [symmetric] by (subst (asm) position_loop.simps) (auto split: if_splits)
  qed
qed

lemma lineStart_bound: "o' \<in> set (lineStart m) \<Longrightarrow> o' \<le> length (Content m)"
  by (auto simp: lineStart_def)

lemma PositionOffset_bound: "PositionOffset m p = Ok off \<Longrightarrow> 0 \<le> off \<and> off \<le> int (length (Content m))"
proof -
  assume ok: "PositionOffset m p = Ok off"
  have "off \<le> int (length (Content m))"
    if l: "unat (Line p) < length (lineStart m)"
      "position_loop (drop (lineStart m ! unat (Line p)) (Content m)) 0 0 (unat (Character p)) = Ok c"
      "off = int (lineStart m ! unat (Line p) + c)" for c
    using position_loop_bound [OF l(2)] lineStart_bound [OF nth_mem [OF l(1)]] l(3) by simp
  then show ?thesis using ok by (auto simp: PositionOffset_def Let_def bind_outcome_Ok_iff split: if_splits)
qed

lemma EditsToDiffEdits_bound:
  "EditsToDiffEdits m es = Ok des \<Longrightarrow> \<forall>d \<in> set des. 0 \<le> e_Start d \<and> e_Start d \<le> e_End d \<and> e_End d \<le> int (length (Content m))"
proof (induction es arbitrary: des)
  case (Cons e es)
  then obtain s t rest where r: "RangeOffsets m (te_Range e) = Ok (s, t)" "EditsToDiffEdits m es = Ok rest"
    "des = mk_edit s t (te_NewText e) # rest" by (auto simp: bind_outcome_Ok_iff)
  then obtain "PositionOffset m (r_Start (te_Range e)) = Ok s" "PositionOffset m (r_End (te_Range e)) = Ok t"
    by (auto simp: RangeOffsets_def bind_outcome_Ok_iff split: if_splits)
  then show ?case using Cons.IH [OF r(2)] r PositionOffset_bound RangeOffsets_order [OF r(1)] by auto
qed simp

lemma apart_ok:
  "sorted_wrt (\<lambda>a b. e_End a \<le> e_Start b) des \<Longrightarrow> \<forall>d \<in> set des. l \<le> e_Start d \<Longrightarrow>
     \<forall>d \<in> set des. 0 \<le> e_Start d \<and> e_Start d \<le> e_End d \<and> e_End d \<le> n \<Longrightarrow> ok_edits n l des"
  by (induction des arbitrary: l) auto

lemma new_source_not_Err: "EditsToDiffEdits m es = Ok des \<Longrightarrow> new_source m start es \<noteq> Err e"
proof (induction es arbitrary: start des)
  case (Cons t es)
  then obtain s u rest where r: "RangeOffsets m (te_Range t) = Ok (s, u)" "EditsToDiffEdits m es = Ok rest"
    by (auto simp: bind_outcome_Ok_iff)
  then show ?case using Cons.IH [OF r(2), of u] by (cases "new_source m u es") auto
qed simp

text \<open>Claim C34: the loop of \<open>toUnifiedDiff\<close> over the sorted edits makes the same text as \<open>ApplyEdits\<close>: whenever it
  makes one, \<open>ApplyEdits\<close> makes it too; and if every edit has valid positions then it makes one exactly when
  no edit begins before the end of an earlier one, and panics otherwise, where \<open>ApplyEdits\<close> reports an error.\<close>

theorem new_source_ApplyEdits:
  "(\<forall>out. new_source (NewMapper uri c) 0 edits = Ok out \<longrightarrow> (\<exists>des. ApplyEdits (NewMapper uri c) edits = Ok (out, des)))
   \<and> (\<forall>des. EditsToDiffEdits (NewMapper uri c) edits = Ok des \<longrightarrow>
        new_source (NewMapper uri c) 0 edits
          = (if sorted_wrt (\<lambda>a b. e_End a \<le> e_Start b) des then Ok (patch c 0 des) else Panic))"
proof -
  let ?m = "NewMapper uri c"
  have m: "Content ?m = c" by (simp add: NewMapper_def)
  have "\<exists>des. ApplyEdits ?m edits = Ok (out, des)" if ok: "new_source ?m 0 edits = Ok out" for out
  proof -
    obtain des where d: "EditsToDiffEdits ?m edits = Ok des" "out = patch c 0 des"
      "sorted_wrt (\<lambda>a b. e_End a \<le> e_Start b) des" "\<forall>d \<in> set des. 0 \<le> e_Start d"
      using ok m by (auto simp: new_source_patch)
    have o: "ok_edits (int (length c)) 0 des"
      using apart_ok [OF d(3,4)] EditsToDiffEdits_bound [OF d(1)] m by simp
    then have "SortEdits des = des" using ok_edits_is_sorted SortEdits_sorted by blast
    then have "Apply c des = Ok out" using o d(2) by (simp add: Apply_patch)
    then show ?thesis using d(1) m by (simp add: ApplyEdits_def)
  qed
  moreover have "new_source ?m 0 edits = (if sorted_wrt (\<lambda>a b. e_End a \<le> e_Start b) des then Ok (patch c 0 des) else Panic)"
    if des: "EditsToDiffEdits ?m edits = Ok des" for des
  proof (cases "sorted_wrt (\<lambda>a b. e_End a \<le> e_Start b) des")
    case True
    then show ?thesis using new_source_patch [of ?m 0 edits "patch c 0 des"] EditsToDiffEdits_bound [OF des] des m by auto
  next
    case False
    then have "new_source ?m 0 edits \<noteq> Ok out" for out using new_source_patch [of ?m 0 edits out] des by auto
    then show ?thesis using False new_source_not_Err [OF des] by (cases "new_source ?m 0 edits") auto
  qed
  ultimately show ?thesis by blast
qed

lemma new_source_ApplyEdits_witness:
  "new_source (NewMapper ''f'' (''ab'' @ NL # ''cd'')) 0 two_edits = Ok (''aYYb'' @ NL # ''Xd'')
   \<and> (\<exists>des. ApplyEdits (NewMapper ''f'' (''ab'' @ NL # ''cd'')) two_edits = Ok (''aYYb'' @ NL # ''Xd'', des))"
proof -
  have "new_source (NewMapper ''f'' (''ab'' @ NL # ''cd'')) 0 two_edits = Ok (''aYYb'' @ NL # ''Xd'')" by code_simp
  then show ?thesis using new_source_ApplyEdits [of "''f''" "''ab'' @ NL # ''cd''" two_edits] by auto
qed

text \<open>Moving or creating a file shows nothing: the two texts that are compared are equal.\<close>

lemma rename_shows_nothing:
  "sn_ReadFile sn old = Ok (Ok c) \<Longrightarrow> change_diff sortf pos_text sn (RenameFile old new) = Some (Ok [NL])"
  by (simp add: change_diff_def Unified_def Strings_def ToUnified_def toUnified_def unified_String_def Let_def)

section \<open>Reports\<close>

text \<open>The first line is reported as line 0, and the note about more diagnostics comes although all are listed.\<close>

lemma first_line_zero: "Line (r_Start (dg_Range d)) = 0 \<Longrightarrow> rp_Line (to_report read d) = 0"
  by (simp add: to_report_def one_indexed_def)

end
