(* ===== verification/Call_Hierarchy.thy ===== *)
theory Call_Hierarchy
  imports Gopls_Tools "HOL-Library.AList"
begin

text \<open>
  Calls of a function and calls it makes: \<open>gopls/internal/golang/call_hierarchy.go\<close> groups references and call
  expressions by location, and \<open>handleGoCallHierarchy\<close> of \<open>mcpbridge/core/gopls_wrappers.go\<close> shows the groups.
  References, parsed files and what \<open>go/types\<close> knows of an identifier are arguments.
\<close>

section \<open>Items and what gopls answers\<close>

text \<open>\<open>Tags\<close> are always empty and \<open>SelectionRange\<close> is \<open>Range\<close>.\<close>

record CallHierarchyItem =
  ci_Name :: string
  ci_Kind :: SymbolKind
  ci_Detail :: string
  ci_URI :: string
  ci_Range :: Range

text \<open>An incoming call (\<open>From\<close>) or an outgoing call (\<open>To\<close>).\<close>

record hierarchy_call =
  hc_Item :: CallHierarchyItem
  hc_FromRanges :: "Range list"

datatype reference_error = ErrNoIdentFound | ErrNoObjectFound | ReferenceError string

datatype func_kind = FuncKind | BuiltinKind | OtherKind

text \<open>\<open>fo_Pkg\<close> is the path of the package, \<open>fo_Pos\<close> is 0 when it is not valid.\<close>

record func_object =
  fo_Kind :: func_kind
  fo_Name :: string
  fo_Pkg :: "string option"
  fo_Pos :: int

text \<open>The nodes on the path from a position to the root that \<open>enclosingNodeCallItem\<close> looks at, with the extents it
  uses: the name of a function, a function literal without its body, the names of a value declaration.\<close>

datatype path_item = PFuncDecl string "int \<times> int" | PFuncLit "int \<times> int" | PValueSpec "(int \<times> int) list" | POther

text \<open>The function part of a call; identifiers are their extents.\<close>

datatype fun_expr =
  FunIdent "int \<times> int"
| FunSelector "int \<times> int"
| FunParen fun_expr
| FunIndex fun_expr int
| FunIndexList fun_expr
| FunOther

text \<open>A package is named by the file for which \<open>NarrowestPackageForFile\<close> answers it.  \<open>cs_Cursor\<close> is the identifier at
  an extent, if there is syntax, if it is one; \<open>cs_DeclCalls\<close> the function parts of the calls in a declaration, in
  preorder.\<close>

record call_snapshot =
  cs_base :: snapshot
  cs_References :: "string \<Rightarrow> Position \<Rightarrow> (reference_error, (string \<times> Location) list) outcome"
  cs_RangePos :: "string \<Rightarrow> Range \<Rightarrow> (int \<times> int) option"
  cs_PositionPos :: "string \<Rightarrow> Position \<Rightarrow> (string, int) outcome"
  cs_PosRange :: "string \<Rightarrow> int \<times> int \<Rightarrow> (string, Range) outcome"
  cs_PathEnclosing :: "string \<Rightarrow> int \<times> int \<Rightarrow> path_item list"
  cs_PackageName :: "string \<Rightarrow> string \<times> int \<times> int"
  cs_Cursor :: "string \<Rightarrow> int \<times> int \<Rightarrow> (int \<times> int) option option"
  cs_Defs :: "string \<Rightarrow> int \<Rightarrow> func_object option"
  cs_Uses :: "string \<Rightarrow> int \<Rightarrow> func_object option"
  cs_IsType :: "string \<Rightarrow> int \<Rightarrow> bool"
  cs_ObjectLocation :: "string \<Rightarrow> func_object \<Rightarrow> (string, Location) outcome"
  cs_Declaring :: "string \<Rightarrow> int \<Rightarrow> string \<times> int"
  cs_DeclCalls :: "string \<Rightarrow> int \<Rightarrow> fun_expr list option"
  cs_MetadataForFile :: "string \<Rightarrow> (string, string list) outcome"
  cs_PkgPath :: "string \<Rightarrow> string"

section \<open>Order and groups\<close>

definition CompareLocation :: "Location \<Rightarrow> Location \<Rightarrow> int" where
  "CompareLocation x y =
     (if l_URI x \<noteq> l_URI y then (if l_URI x < l_URI y then -1 else 1)
      else CompareRange (l_Range x) (l_Range y))"

fun insert_cmp :: "('k \<Rightarrow> 'k \<Rightarrow> int) \<Rightarrow> 'k \<Rightarrow> 'k list \<Rightarrow> 'k list" where
  "insert_cmp cmp k [] = [k]"
| "insert_cmp cmp k (x # xs) = (if cmp k x \<le> 0 then k # x # xs else x # insert_cmp cmp k xs)"

text \<open>\<open>slices.SortFunc\<close> of the keys, then their entries.\<close>

definition SortedFunc :: "('k \<times> 'v) list \<Rightarrow> ('k \<Rightarrow> 'k \<Rightarrow> int) \<Rightarrow> ('k \<times> 'v) list" where
  "SortedFunc m cmp = map (\<lambda>k. (k, the (map_of m k))) (foldr (insert_cmp cmp) (map fst m) [])"

type_synonym groups = "(Location \<times> hierarchy_call) list"

text \<open>The call of a location, created when there is none, gets one more range.\<close>

definition add_range :: "Location \<Rightarrow> CallHierarchyItem \<Rightarrow> Range \<Rightarrow> groups \<Rightarrow> groups" where
  "add_range loc item rng calls =
     (let call = (case map_of calls loc of Some c \<Rightarrow> c | None \<Rightarrow> \<lparr>hc_Item = item, hc_FromRanges = []\<rparr>)
      in AList.update loc (call\<lparr>hc_FromRanges := hc_FromRanges call @ [rng]\<rparr>) calls)"

definition item_location :: "CallHierarchyItem \<Rightarrow> Location" where
  "item_location item = \<lparr>l_URI = ci_URI item, l_Range = ci_Range item\<rparr>"

definition sorted_calls :: "groups \<Rightarrow> hierarchy_call list" where
  "sorted_calls calls = map snd (SortedFunc calls CompareLocation)"

section \<open>Incoming calls\<close>

text \<open>One turn of the loop over the path: name, kind and extent.\<close>

fun enclosing_step :: "path_item \<Rightarrow> string \<times> SymbolKind \<times> int \<times> int \<Rightarrow> string \<times> SymbolKind \<times> int \<times> int" where
  "enclosing_step (PFuncDecl name extent) st = (name, SK_Function, extent)"
| "enclosing_step (PFuncLit extent) st = (''func'', SK_Function, extent)"
| "enclosing_step (PValueSpec names) st = (''init'', SK_Variable, fst (hd names), snd (last names))"
| "enclosing_step POther st = st"

definition bullet :: string where "bullet = [CHR '' '', CHR 0xE2, CHR 0x80, CHR 0xA2, CHR '' '']"

text \<open>\<open>None\<close>: an error, which the caller only logs.  The kind of a package clause has number 4.\<close>

definition enclosingNodeCallItem :: "call_snapshot \<Rightarrow> string \<Rightarrow> Location \<Rightarrow> CallHierarchyItem option" where
  "enclosingNodeCallItem s pkgPath loc =
     (if \<not> readable (cs_base s) (l_URI loc) \<or> sn_ParseGo (cs_base s) (l_URI loc) = None then None
      else case cs_RangePos s (l_URI loc) (l_Range loc) of
        None \<Rightarrow> None
      | Some extent \<Rightarrow>
          (case cs_PackageName s (l_URI loc) of (package, pstart, pend) \<Rightarrow>
             (case fold enclosing_step (cs_PathEnclosing s (l_URI loc) extent) (package, SK_Other 4, pstart, pend) of
                (name, kind, found) \<Rightarrow>
                  (case cs_PosRange s (l_URI loc) found of
                     Ok rng \<Rightarrow> Some \<lparr>ci_Name = name, ci_Kind = kind, ci_Detail = pkgPath @ bullet @ filepath_Base (l_URI loc),
                         ci_URI = l_URI loc, ci_Range = rng\<rparr>
                   | _ \<Rightarrow> None))))"

definition add_reference :: "call_snapshot \<Rightarrow> string \<times> Location \<Rightarrow> groups \<Rightarrow> groups" where
  "add_reference s ref calls =
     (case enclosingNodeCallItem s (fst ref) (snd ref) of
        None \<Rightarrow> calls
      | Some item \<Rightarrow> add_range (item_location item) item (l_Range (snd ref)) calls)"

definition IncomingCalls :: "call_snapshot \<Rightarrow> string \<Rightarrow> Position \<Rightarrow> (string, hierarchy_call list) outcome" where
  "IncomingCalls s uri pos =
     (case cs_References s uri pos of
        Err ErrNoIdentFound \<Rightarrow> Ok []
      | Err ErrNoObjectFound \<Rightarrow> Ok []
      | Err (ReferenceError e) \<Rightarrow> Err e
      | Panic \<Rightarrow> Panic
      | Ok refs \<Rightarrow> Ok (sorted_calls (fold (add_reference s) refs [])))"

section \<open>Functions at a position\<close>

definition ObjectOf :: "call_snapshot \<Rightarrow> string \<Rightarrow> int \<Rightarrow> func_object option" where
  "ObjectOf s pkg ident = (case cs_Defs s pkg ident of Some obj \<Rightarrow> Some obj | None \<Rightarrow> cs_Uses s pkg ident)"

definition callHierarchyFuncAtPos :: "call_snapshot \<Rightarrow> string \<Rightarrow> int \<times> int \<Rightarrow> (string, func_object) outcome" where
  "callHierarchyFuncAtPos s uri rng =
     (case cs_Cursor s uri rng of
        None \<Rightarrow> Err ''no enclosing syntax''
      | Some None \<Rightarrow> Err ''identifier not found''
      | Some (Some ident) \<Rightarrow>
          (case ObjectOf s uri (fst ident) of
             None \<Rightarrow> Err ''no symbol here''
           | Some obj \<Rightarrow>
               if fo_Kind obj \<in> {FuncKind, BuiltinKind} then Ok obj else Err (fo_Name obj @ '' is not a function'')))"

definition callHierarchyItemDetail :: "func_object \<Rightarrow> Location \<Rightarrow> string" where
  "callHierarchyItemDetail obj loc =
     (let detail = filepath_Base (l_URI loc)
      in case fo_Pkg obj of Some path \<Rightarrow> path @ bullet @ detail | None \<Rightarrow> detail)"

definition function_item :: "func_object \<Rightarrow> Location \<Rightarrow> CallHierarchyItem" where
  "function_item obj loc =
     \<lparr>ci_Name = fo_Name obj, ci_Kind = SK_Function, ci_Detail = callHierarchyItemDetail obj loc,
      ci_URI = l_URI loc, ci_Range = l_Range loc\<rparr>"

definition PrepareCallHierarchy :: "call_snapshot \<Rightarrow> string \<Rightarrow> Position \<Rightarrow> (string, CallHierarchyItem list) outcome" where
  "PrepareCallHierarchy s uri pp =
     bind_outcome (sn_Package (cs_base s) uri) (\<lambda>_.
       bind_outcome (cs_PositionPos s uri pp) (\<lambda>pos.
         bind_outcome (callHierarchyFuncAtPos s uri (pos, pos)) (\<lambda>obj.
           bind_outcome (cs_ObjectLocation s uri obj) (\<lambda>declLoc. Ok [function_item obj declLoc]))))"

section \<open>Outgoing calls\<close>

fun unparen :: "fun_expr \<Rightarrow> fun_expr" where
  "unparen (FunParen e) = unparen e"
| "unparen e = e"

definition usedIdent :: "(int \<Rightarrow> bool) \<Rightarrow> fun_expr \<Rightarrow> (int \<times> int) option" where
  "usedIdent isType e =
     (let e1 = (case unparen e of
          FunIndex x i \<Rightarrow> if isType i then x else e
        | FunIndexList x \<Rightarrow> x
        | _ \<Rightarrow> e)
      in case unparen e1 of FunIdent ident \<Rightarrow> Some ident | FunSelector ident \<Rightarrow> Some ident | _ \<Rightarrow> None)"

text \<open>The extent of the identifier of a call to a function of a package, as the package \<open>pkg\<close> knows it.\<close>

definition callee_range :: "call_snapshot \<Rightarrow> string \<Rightarrow> fun_expr \<Rightarrow> (int \<times> int) option" where
  "callee_range s pkg e =
     (case usedIdent (cs_IsType s pkg) e of
        None \<Rightarrow> None
      | Some ident \<Rightarrow>
          (case cs_Uses s pkg (fst ident) of
             None \<Rightarrow> None
           | Some callee \<Rightarrow>
               if fo_Kind callee \<in> {FuncKind, BuiltinKind} \<and> fo_Pkg callee \<noteq> None then Some ident else None))"

fun add_callees :: "call_snapshot \<Rightarrow> string \<Rightarrow> (int \<times> int) list \<Rightarrow> groups \<Rightarrow> (string, groups) outcome" where
  "add_callees s uri [] calls = Ok calls"
| "add_callees s uri (callRange # callRanges) calls =
     (case callHierarchyFuncAtPos s uri callRange of
        Ok obj \<Rightarrow>
          bind_outcome (cs_ObjectLocation s uri obj) (\<lambda>loc.
            bind_outcome (cs_PosRange s uri callRange) (\<lambda>rng.
              add_callees s uri callRanges (add_range loc (function_item obj loc) rng calls)))
      | _ \<Rightarrow> add_callees s uri callRanges calls)"

definition OutgoingCalls :: "call_snapshot \<Rightarrow> string \<Rightarrow> Position \<Rightarrow> (string, hierarchy_call list) outcome" where
  "OutgoingCalls s uri pp =
     bind_outcome (sn_Package (cs_base s) uri) (\<lambda>_.
       bind_outcome (cs_PositionPos s uri pp) (\<lambda>pos.
         bind_outcome (callHierarchyFuncAtPos s uri (pos, pos)) (\<lambda>obj.
           if fo_Pos obj = 0 then Ok []
           else
             case cs_Declaring s uri (fo_Pos obj) of (declURI, declPos) \<Rightarrow>
               bind_outcome (sn_Package (cs_base s) declURI) (\<lambda>_.
                 case cs_DeclCalls s declURI declPos of
                   None \<Rightarrow> Ok []
                 | Some exprs \<Rightarrow>
                     bind_outcome (add_callees s declURI (List.map_filter (callee_range s uri) exprs) []) (\<lambda>calls.
                       Ok (sorted_calls calls))))))"

section \<open>The handler\<close>

record CallRange =
  cr_File :: string
  cr_StartLine :: nat
  cr_EndLine :: nat

record CallHierarchyCall =
  cc_From :: Symbol
  cc_CallRanges :: "CallRange list"

record OCallHierarchyResult =
  oc_Symbol :: Symbol
  oc_IncomingCalls :: "CallHierarchyCall list"
  oc_OutgoingCalls :: "CallHierarchyCall list"
  oc_TotalIncoming :: nat
  oc_TotalOutgoing :: nat
  oc_Summary :: string

definition with_rich :: "Symbol option \<Rightarrow> Symbol \<Rightarrow> Symbol" where
  "with_rich rich symbol =
     (case rich of
        None \<Rightarrow> symbol
      | Some r \<Rightarrow>
          if sy_Name r = placeholder then symbol
          else symbol\<lparr>sy_Signature := sy_Signature r, sy_Doc := sy_Doc r, sy_Receiver := sy_Receiver r, sy_Body := sy_Body r,
                 sy_PackagePath := (if sy_PackagePath r \<noteq> [] then sy_PackagePath r else sy_PackagePath symbol)\<rparr>)"

definition item_symbol :: "call_snapshot \<Rightarrow> string \<Rightarrow> CallHierarchyItem \<Rightarrow> Symbol" where
  "item_symbol s pkgPath item =
     with_rich (ExtractSymbolAtDefinition (readable (cs_base s)) (sn_Hover (cs_base s)) (sn_ParseGo (cs_base s)) (item_location item) False)
       ((plain_symbol (ci_Name item) (ConvertLSPSymbolKind (ci_Kind item)) (ci_URI item) (line_number (Line (r_Start (ci_Range item)))))
          \<lparr>sy_PackagePath := pkgPath\<rparr>)"

text \<open>The package path of the symbol itself, and of a caller or callee.\<close>

definition own_package_path :: "call_snapshot \<Rightarrow> string \<Rightarrow> string" where
  "own_package_path s uri = (case cs_MetadataForFile s uri of Ok (p # _) \<Rightarrow> p | _ \<Rightarrow> [])"

definition call_package_path :: "call_snapshot \<Rightarrow> string \<Rightarrow> string" where
  "call_package_path s uri = (if is_Ok (sn_Package (cs_base s) uri) then cs_PkgPath s uri else [])"

definition call_range :: "string \<Rightarrow> Range \<Rightarrow> CallRange" where
  "call_range file rng =
     \<lparr>cr_File = file, cr_StartLine = line_number (Line (r_Start rng)), cr_EndLine = line_number (Line (r_End rng))\<rparr>"

text \<open>The ranges of a call are in the file of the caller: for an outgoing call that of the symbol.\<close>

definition incoming_call :: "call_snapshot \<Rightarrow> hierarchy_call \<Rightarrow> CallHierarchyCall" where
  "incoming_call s c =
     \<lparr>cc_From = item_symbol s (call_package_path s (ci_URI (hc_Item c))) (hc_Item c),
      cc_CallRanges = map (call_range (ci_URI (hc_Item c))) (hc_FromRanges c)\<rparr>"

definition outgoing_call :: "call_snapshot \<Rightarrow> string \<Rightarrow> hierarchy_call \<Rightarrow> CallHierarchyCall" where
  "outgoing_call s file c =
     \<lparr>cc_From = item_symbol s (call_package_path s (ci_URI (hc_Item c))) (hc_Item c),
      cc_CallRanges = map (call_range file) (hc_FromRanges c)\<rparr>"

definition signature_lines :: "string \<Rightarrow> string" where
  "signature_lines signature =
     concat (map (\<lambda>l. if l = [] then [] else ''     '' @ l @ [NL]) (split_byte NL signature))"

definition first_doc_line :: "string \<Rightarrow> string" where
  "first_doc_line doc =
     (case List.find (\<lambda>l. TrimSpace l \<noteq> []) (split_byte NL doc) of
        Some l \<Rightarrow> ''     // '' @ TrimSpace l @ [NL] | None \<Rightarrow> [])"

definition call_text :: "nat \<Rightarrow> CallHierarchyCall \<Rightarrow> string" where
  "call_text i c =
     (let f = cc_From c
      in ''  '' @ itoa i @ ''. '' @ sy_Name f @ '' at '' @ sy_FilePath f @ '':'' @ itoa (sy_Line f) @ [NL]
       @ (if sy_PackagePath f \<noteq> [] then ''     package: '' @ sy_PackagePath f @ [NL] else [])
       @ (if sy_Signature f \<noteq> [] then signature_lines (sy_Signature f) else [])
       @ (if sy_Doc f \<noteq> [] then first_doc_line (sy_Doc f) else [])
       @ (if length (cc_CallRanges c) > 1 then ''     (called '' @ itoa (length (cc_CallRanges c)) @ '' times)'' @ [NL] else []))"

definition call_texts :: "CallHierarchyCall list \<Rightarrow> string" where
  "call_texts cs = concat (map (\<lambda>(i, c). call_text (i + 1) c) (enumerate 0 cs))"

definition hierarchy_summary :: "Symbol \<Rightarrow> CallHierarchyCall list \<Rightarrow> CallHierarchyCall list \<Rightarrow> string" where
  "hierarchy_summary symbol incoming outgoing =
     ''Call hierarchy for '' @ sy_Name symbol @ '' at '' @ sy_FilePath symbol @ '':'' @ itoa (sy_Line symbol) @ [NL, NL]
     @ (if length incoming > 0 then ''Incoming Calls ('' @ itoa (length incoming) @ ''):'' @ [NL] @ call_texts incoming @ [NL]
        else ''Incoming Calls: None'' @ [NL, NL])
     @ (if length outgoing > 0 then ''Outgoing Calls ('' @ itoa (length outgoing) @ ''):'' @ [NL] @ call_texts outgoing
        else ''Outgoing Calls: None'' @ [NL])"

text \<open>An error of one of the two queries is ignored.\<close>

definition calls_of :: "(string, hierarchy_call list) outcome \<Rightarrow> hierarchy_call list" where
  "calls_of r = (case r of Ok cs \<Rightarrow> cs | _ \<Rightarrow> [])"

definition hierarchy_result :: "call_snapshot \<Rightarrow> string \<Rightarrow> Position \<Rightarrow> string \<Rightarrow> CallHierarchyItem \<Rightarrow> OCallHierarchyResult" where
  "hierarchy_result s uri position direction item =
     (let symbol = item_symbol s (own_package_path s (ci_URI item)) item;
          incoming = (if direction \<in> {''incoming'', ''both''}
            then map (incoming_call s) (calls_of (IncomingCalls s uri position)) else []);
          outgoing = (if direction \<in> {''outgoing'', ''both''}
            then map (outgoing_call s (sy_FilePath symbol)) (calls_of (OutgoingCalls s uri position)) else [])
      in \<lparr>oc_Symbol = symbol, oc_IncomingCalls = incoming, oc_OutgoingCalls = outgoing,
          oc_TotalIncoming = length incoming, oc_TotalOutgoing = length outgoing,
          oc_Summary = hierarchy_summary symbol incoming outgoing\<rparr>)"

definition go_call_hierarchy :: "SymbolLocator \<Rightarrow> string \<Rightarrow> call_snapshot \<Rightarrow> (string, OCallHierarchyResult) outcome" where
  "go_call_hierarchy locator direction s =
     (let uri = lo_ContextFile locator; sn = cs_base s in
      bind_outcome (with_error ''failed to read file: '' (sn_ReadFile sn uri)) (\<lambda>_.
        bind_outcome (with_error (''failed to resolve symbol '' @ quoted (lo_SymbolName locator) @ '': '')
            (ResolveNode (sn_Package sn uri) locator)) (\<lambda>node.
          bind_outcome (with_error ''failed to get package: '' (sn_Package sn uri)) (\<lambda>_.
            case lsp_position sn uri (rs_Pos node) of
              None \<Rightarrow> Err (''invalid position for symbol '' @ quoted (lo_SymbolName locator))
            | Some position \<Rightarrow>
                bind_outcome (with_error ''failed to prepare call hierarchy: '' (PrepareCallHierarchy s uri position)) (\<lambda>items.
                  case items of
                    [] \<Rightarrow> Ok \<lparr>oc_Symbol = plain_symbol [] [] [] 0, oc_IncomingCalls = [], oc_OutgoingCalls = [],
                             oc_TotalIncoming = 0, oc_TotalOutgoing = 0,
                             oc_Summary = ''No function found for symbol '' @ quoted (lo_SymbolName locator) @ '' in '' @ uri\<rparr>
                  | item # _ \<Rightarrow> Ok (hierarchy_result s uri position (if direction = [] then ''both'' else direction) item))))))"

definition handleGoCallHierarchy :: "(string \<Rightarrow> (string, view) outcome) \<Rightarrow> (view \<Rightarrow> call_snapshot) \<Rightarrow> handler \<Rightarrow> string \<Rightarrow>
    SymbolLocator \<Rightarrow> string \<Rightarrow> (string, OCallHierarchyResult) outcome \<times> handler" where
  "handleGoCallHierarchy new_view sn h cwd locator direction =
     with_snapshot new_view h cwd (\<lambda>v. go_call_hierarchy locator direction (sn v))"


section \<open>Sorting by a comparison\<close>

locale comparison =
  fixes cmp :: "'k \<Rightarrow> 'k \<Rightarrow> int"
  assumes cmp_eq: "cmp a b = 0 \<longleftrightarrow> a = b"
    and cmp_flip: "cmp a b > 0 \<longleftrightarrow> cmp b a < 0"
    and cmp_trans: "cmp a b < 0 \<Longrightarrow> cmp b c < 0 \<Longrightarrow> cmp a c < 0"
begin

lemma insert_sorted:
  "sorted_wrt (\<lambda>a b. cmp a b < 0) xs \<Longrightarrow> k \<notin> set xs \<Longrightarrow>
     sorted_wrt (\<lambda>a b. cmp a b < 0) (insert_cmp cmp k xs) \<and> set (insert_cmp cmp k xs) = insert k (set xs)"
proof (induction xs)
  case (Cons x xs)
  then have ne: "cmp k x \<noteq> 0" by (auto simp: cmp_eq)
  show ?case
  proof (cases "cmp k x \<le> 0")
    case True
    then have kx: "cmp k x < 0" using ne by simp
    then have "\<forall>y \<in> set xs. cmp k y < 0" using Cons.prems(1) cmp_trans [OF kx] by simp
    then show ?thesis using Cons.prems kx by simp
  next
    case False
    then have "cmp x k < 0" using cmp_flip [of k x] by simp
    then show ?thesis using Cons False by auto
  qed
qed simp

lemma sorted_keys:
  "distinct ks \<Longrightarrow> sorted_wrt (\<lambda>a b. cmp a b < 0) (foldr (insert_cmp cmp) ks []) \<and> set (foldr (insert_cmp cmp) ks []) = set ks"
  by (induction ks) (simp_all add: insert_sorted)

lemma sorted_distinct: "sorted_wrt (\<lambda>a b. cmp a b < 0) ls \<Longrightarrow> distinct ls"
proof (induction ls)
  case (Cons x xs)
  have "cmp x x = 0" by (simp add: cmp_eq)
  then show ?case using Cons by auto
qed simp

lemma SortedFunc_props:
  assumes "distinct (map fst m)"
  shows "sorted_wrt (\<lambda>a b. cmp (fst a) (fst b) < 0) (SortedFunc m cmp)" "set (SortedFunc m cmp) = set m"
proof -
  have k: "sorted_wrt (\<lambda>a b. cmp a b < 0) (foldr (insert_cmp cmp) (map fst m) [])"
    "set (foldr (insert_cmp cmp) (map fst m) []) = fst ` set m" using sorted_keys [OF assms] by simp_all
  show "sorted_wrt (\<lambda>a b. cmp (fst a) (fst b) < 0) (SortedFunc m cmp)"
    using k(1) by (simp add: SortedFunc_def sorted_wrt_map)
  show "set (SortedFunc m cmp) = set m"
    unfolding SortedFunc_def set_map k(2) image_image using assms by (force simp: image_iff)
qed

end

lemma CompareLocation_less:
  "CompareLocation x y < 0 \<longleftrightarrow> l_URI x < l_URI y \<or> l_URI x = l_URI y \<and> l_Range x < l_Range y"
  by (auto simp: CompareLocation_def less_Range_def)

lemma CompareLocation_eq: "CompareLocation x y = 0 \<longleftrightarrow> x = y"
proof -
  have "CompareRange a b = 0 \<longleftrightarrow> r_Start a = r_Start b \<and> r_End a = r_End b" for a b
    unfolding CompareRange_def Let_def using ComparePosition_order(2) by metis
  then have r: "CompareRange a b = 0 \<longleftrightarrow> a = b" for a b using Range.expand by blast
  have "x = y \<longleftrightarrow> l_URI x = l_URI y \<and> l_Range x = l_Range y" by auto
  then show ?thesis unfolding CompareLocation_def using r [of "l_Range x" "l_Range y"] by simp
qed

lemma lex_flip:
  fixes u v :: "'u::linorder" and r s :: "'r::linorder"
  shows "\<not> (u < v \<or> u = v \<and> r < s) \<and> \<not> (u = v \<and> r = s) \<longleftrightarrow> v < u \<or> v = u \<and> s < r"
  by auto

lemma lex_trans:
  fixes u v w :: "'u::linorder" and r s t :: "'r::linorder"
  shows "u < v \<or> u = v \<and> r < s \<Longrightarrow> v < w \<or> v = w \<and> s < t \<Longrightarrow> u < w \<or> u = w \<and> r < t"
  by auto

interpretation by_location: comparison CompareLocation
proof
  fix a b c :: Location
  show "CompareLocation a b = 0 \<longleftrightarrow> a = b" by (rule CompareLocation_eq)
  have "CompareLocation a b > 0 \<longleftrightarrow> \<not> CompareLocation a b < 0 \<and> a \<noteq> b" using CompareLocation_eq [of a b] by linarith
  moreover have "a = b \<longleftrightarrow> l_URI a = l_URI b \<and> l_Range a = l_Range b" by auto
  ultimately show "CompareLocation a b > 0 \<longleftrightarrow> CompareLocation b a < 0"
    unfolding CompareLocation_less using lex_flip [of "l_URI a" "l_URI b" "l_Range a" "l_Range b"] by blast
  show "CompareLocation a b < 0 \<Longrightarrow> CompareLocation b c < 0 \<Longrightarrow> CompareLocation a c < 0"
    unfolding CompareLocation_less by (rule lex_trans)
qed

section \<open>Groups\<close>

text \<open>What the grouping of located ranges must give: for every location that occurs one call, in the order of locations,
  with the item found first and the ranges in the order in which they came.\<close>

definition ranges_at :: "Location \<Rightarrow> (Location \<times> CallHierarchyItem \<times> Range) list \<Rightarrow> Range list" where
  "ranges_at loc xs = map (\<lambda>x. snd (snd x)) (filter (\<lambda>x. fst x = loc) xs)"

definition grouped :: "(Location \<times> CallHierarchyItem \<times> Range) list \<Rightarrow> groups \<Rightarrow> bool" where
  "grouped xs calls \<longleftrightarrow>
     distinct (map fst calls) \<and> fst ` set calls = fst ` set xs
     \<and> (\<forall>(loc, c) \<in> set calls. hc_FromRanges c = ranges_at loc xs \<and> (loc, hc_Item c) \<in> (\<lambda>x. (fst x, fst (snd x))) ` set xs)"

lemma grouped_Nil: "grouped [] []"
  by (simp add: grouped_def)

lemma ranges_at_simps [simp]:
  "ranges_at loc [] = []"
  "ranges_at loc (xs @ [(loc', item, rng)]) = ranges_at loc xs @ (if loc' = loc then [rng] else [])"
  by (simp_all add: ranges_at_def)

lemma ranges_at_absent: "loc \<notin> fst ` set xs \<Longrightarrow> ranges_at loc xs = []"
  by (auto simp: ranges_at_def filter_empty_conv)

lemma grouped_snoc:
  assumes "grouped xs calls"
  shows "grouped (xs @ [(loc, item, rng)]) (add_range loc item rng calls)"
proof -
  have d: "distinct (map fst calls)" and k: "fst ` set calls = fst ` set xs"
    and c: "\<And>l c. map_of calls l = Some c \<Longrightarrow> hc_FromRanges c = ranges_at l xs \<and> (l, hc_Item c) \<in> (\<lambda>x. (fst x, fst (snd x))) ` set xs"
    using assms by (auto simp: grouped_def dest!: map_of_SomeD)
  let ?new = "add_range loc item rng calls"
  have new: "map_of ?new = (map_of calls)(loc \<mapsto> (case map_of calls loc of Some c \<Rightarrow> c\<lparr>hc_FromRanges := hc_FromRanges c @ [rng]\<rparr>
      | None \<Rightarrow> \<lparr>hc_Item = item, hc_FromRanges = [rng]\<rparr>))"
    by (simp add: add_range_def update_conv' Let_def split: option.split)
  have d2: "distinct (map fst ?new)" using d by (simp add: add_range_def distinct_update Let_def)
  have "fst ` set ?new = insert loc (fst ` set calls)"
    unfolding dom_map_of_conv_image_fst [symmetric] new by simp
  then have k2: "fst ` set ?new = fst ` set (xs @ [(loc, item, rng)])" using k by auto
  have "hc_FromRanges c' = ranges_at l (xs @ [(loc, item, rng)])
      \<and> (l, hc_Item c') \<in> (\<lambda>x. (fst x, fst (snd x))) ` set (xs @ [(loc, item, rng)])"
    if "map_of ?new l = Some c'" for l c'
  proof (cases "map_of calls loc")
    case None
    then have "ranges_at loc xs = []" using k by (intro ranges_at_absent) (auto simp: map_of_eq_None_iff)
    then show ?thesis using that c [of l] None unfolding new by (auto split: if_splits)
  next
    case (Some d)
    then show ?thesis using that c [of l] c [OF Some] unfolding new by (auto split: if_splits)
  qed
  then show ?thesis using d2 k2 unfolding grouped_def by (auto simp: map_of_is_SomeI)
qed

text \<open>The calls after sorting.\<close>

definition call_groups :: "(Location \<times> CallHierarchyItem \<times> Range) list \<Rightarrow> hierarchy_call list \<Rightarrow> bool" where
  "call_groups xs calls \<longleftrightarrow>
     sorted_wrt (\<lambda>a b. CompareLocation (item_location (hc_Item a)) (item_location (hc_Item b)) < 0) calls
     \<and> (item_location \<circ> hc_Item) ` set calls = fst ` set xs
     \<and> (\<forall>c \<in> set calls. hc_FromRanges c = ranges_at (item_location (hc_Item c)) xs)"

lemma sorted_calls_groups:
  assumes "grouped xs calls" "\<forall>x \<in> set xs. item_location (fst (snd x)) = fst x"
  shows "call_groups xs (sorted_calls calls)"
proof -
  let ?s = "SortedFunc calls CompareLocation"
  have d: "distinct (map fst calls)" and k: "fst ` set calls = fst ` set xs"
    and c: "\<forall>(loc, c) \<in> set calls. hc_FromRanges c = ranges_at loc xs \<and> item_location (hc_Item c) = loc"
    using assms unfolding grouped_def by fastforce+
  have s: "sorted_wrt (\<lambda>a b. CompareLocation (fst a) (fst b) < 0) ?s" "set ?s = set calls"
    by (rule by_location.SortedFunc_props [OF d])+
  have "sorted_wrt (\<lambda>a b. CompareLocation (item_location (hc_Item (snd a))) (item_location (hc_Item (snd b))) < 0) ?s"
    using sorted_wrt_mono_rel [OF _ s(1)] c s(2) by (smt (verit, best) case_prod_beta)
  moreover have "(item_location \<circ> hc_Item) ` snd ` set calls = fst ` set calls"
    using c by (force simp: image_image)
  ultimately show ?thesis using c k s(2) by (auto simp: call_groups_def sorted_calls_def sorted_wrt_map)
qed

lemma call_groups_distinct: "call_groups xs calls \<Longrightarrow> distinct (map (item_location \<circ> hc_Item) calls)"
proof -
  assume "call_groups xs calls"
  then have "sorted_wrt (\<lambda>a b. CompareLocation a b < 0) (map (item_location \<circ> hc_Item) calls)"
    by (simp add: call_groups_def sorted_wrt_map)
  then show ?thesis by (rule by_location.sorted_distinct)
qed

lemma sum_ranges_at:
  "finite S \<Longrightarrow> fst ` set xs \<subseteq> S \<Longrightarrow> (\<Sum>loc \<in> S. length (ranges_at loc xs)) = length xs"
proof (induction xs)
  case (Cons x xs)
  have "length (ranges_at loc (x # xs)) = (if loc = fst x then 1 else 0) + length (ranges_at loc xs)" for loc
    by (simp add: ranges_at_def)
  then show ?case using Cons by (simp add: sum.distrib)
qed (simp add: ranges_at_def)

text \<open>No range is lost and none is counted twice.\<close>

lemma call_groups_count:
  assumes "call_groups xs calls"
  shows "length calls = card (fst ` set xs)" "sum_list (map (length \<circ> hc_FromRanges) calls) = length xs"
proof -
  let ?l = "item_location \<circ> hc_Item"
  have d: "distinct (map ?l calls)" by (rule call_groups_distinct [OF assms])
  have l: "set (map ?l calls) = fst ` set xs" using assms by (simp add: call_groups_def)
  show "length calls = card (fst ` set xs)" using distinct_card [OF d] by (simp only: l length_map)
  have "map (length \<circ> hc_FromRanges) calls = map (\<lambda>loc. length (ranges_at loc xs)) (map ?l calls)"
    using assms by (simp add: call_groups_def)
  then have "sum_list (map (length \<circ> hc_FromRanges) calls) = sum_list (map (\<lambda>loc. length (ranges_at loc xs)) (map ?l calls))"
    by (simp only:)
  also have "\<dots> = (\<Sum>loc \<in> set (map ?l calls). length (ranges_at loc xs))" by (rule sum_list_distinct_conv_sum_set [OF d])
  also have "\<dots> = length xs" by (rule sum_ranges_at) (simp_all only: l finite_imageI finite_set order_refl)
  finally show "sum_list (map (length \<circ> hc_FromRanges) calls) = length xs" .
qed

section \<open>Incoming and outgoing groups\<close>

text \<open>The references inside a known node, with the location of that node.\<close>

definition located_refs :: "call_snapshot \<Rightarrow> (string \<times> Location) list \<Rightarrow> (Location \<times> CallHierarchyItem \<times> Range) list" where
  "located_refs s refs = List.map_filter (\<lambda>ref. map_option (\<lambda>item. (item_location item, item, l_Range (snd ref)))
     (enclosingNodeCallItem s (fst ref) (snd ref))) refs"

lemma located_items: "\<forall>x \<in> set (located_refs s refs). item_location (fst (snd x)) = fst x"
  by (auto simp: located_refs_def List.map_filter_def)

lemma grouped_references: "grouped xs calls \<Longrightarrow> grouped (xs @ located_refs s refs) (fold (add_reference s) refs calls)"
proof (induction refs arbitrary: xs calls)
  case (Cons ref refs)
  show ?case
  proof (cases "enclosingNodeCallItem s (fst ref) (snd ref)")
    case None
    then show ?thesis using Cons.IH [OF Cons.prems] by (simp add: located_refs_def map_filter_simps add_reference_def)
  next
    case (Some item)
    then show ?thesis using Cons.IH [OF grouped_snoc [OF Cons.prems]]
      by (simp add: located_refs_def map_filter_simps add_reference_def)
  qed
qed (simp add: located_refs_def map_filter_simps)

lemma IncomingCalls_groups:
  "cs_References s uri pos = Ok refs \<Longrightarrow> \<exists>calls. IncomingCalls s uri pos = Ok calls \<and> call_groups (located_refs s refs) calls"
  using sorted_calls_groups [OF grouped_references [OF grouped_Nil, of s refs]] located_items by (simp add: IncomingCalls_def)

definition callee_entry :: "call_snapshot \<Rightarrow> string \<Rightarrow> int \<times> int \<Rightarrow> (Location \<times> CallHierarchyItem \<times> Range) option" where
  "callee_entry s uri callRange =
     (case callHierarchyFuncAtPos s uri callRange of
        Ok obj \<Rightarrow>
          (case (cs_ObjectLocation s uri obj, cs_PosRange s uri callRange) of
             (Ok loc, Ok rng) \<Rightarrow> Some (loc, function_item obj loc, rng)
           | _ \<Rightarrow> None)
      | _ \<Rightarrow> None)"

lemma add_callees_grouped:
  "add_callees s uri rs calls = Ok calls' \<Longrightarrow> grouped xs calls \<Longrightarrow> grouped (xs @ List.map_filter (callee_entry s uri) rs) calls'"
proof (induction s uri rs calls arbitrary: xs rule: add_callees.induct)
  case (2 s uri callRange callRanges calls)
  show ?case
  proof (cases "callHierarchyFuncAtPos s uri callRange")
    case (Ok obj)
    then obtain loc rng where l: "cs_ObjectLocation s uri obj = Ok loc" "cs_PosRange s uri callRange = Ok rng"
      "add_callees s uri callRanges (add_range loc (function_item obj loc) rng calls) = Ok calls'"
      using "2.prems"(1) by (auto simp: bind_outcome_Ok_iff)
    show ?thesis using "2.IH"(1) [OF Ok l(3) grouped_snoc [OF "2.prems"(2)]] Ok l by (simp add: map_filter_simps callee_entry_def)
  qed (use 2 in \<open>simp_all add: map_filter_simps callee_entry_def\<close>)
qed (simp add: map_filter_simps)

lemma OutgoingCalls_groups:
  assumes "OutgoingCalls s uri pp = Ok calls" "cs_PositionPos s uri pp = Ok pos"
    and "callHierarchyFuncAtPos s uri (pos, pos) = Ok obj" "fo_Pos obj \<noteq> 0"
    and "cs_Declaring s uri (fo_Pos obj) = (declURI, declPos)" "cs_DeclCalls s declURI declPos = Some exprs"
  shows "call_groups (List.map_filter (callee_entry s declURI) (List.map_filter (callee_range s uri) exprs)) calls"
proof -
  let ?rs = "List.map_filter (callee_range s uri) exprs"
  have items: "\<forall>x \<in> set (List.map_filter (callee_entry s declURI) ?rs). item_location (fst (snd x)) = fst x"
    by (auto simp: List.map_filter_def callee_entry_def item_location_def function_item_def split: outcome.splits)
  obtain c where c: "add_callees s declURI ?rs [] = Ok c" "calls = sorted_calls c"
    using assms by (auto simp: OutgoingCalls_def bind_outcome_Ok_iff)
  show ?thesis unfolding c(2) using sorted_calls_groups [OF add_callees_grouped [OF c(1) grouped_Nil]] items by simp
qed

text \<open>Asked at a use of a function of another package, \<open>OutgoingCalls\<close> looks up the calls in the declaration with the
  types of the package of the use, which does not know them.\<close>

lemma outgoing_of_other_package:
  assumes "OutgoingCalls s uri pp = Ok calls" "cs_PositionPos s uri pp = Ok pos"
    and "callHierarchyFuncAtPos s uri (pos, pos) = Ok obj" "fo_Pos obj \<noteq> 0"
    and "cs_Declaring s uri (fo_Pos obj) = (declURI, declPos)" "cs_DeclCalls s declURI declPos = Some exprs"
    and "\<forall>e \<in> set exprs. \<forall>i. usedIdent (cs_IsType s uri) e = Some i \<longrightarrow> cs_Uses s uri (fst i) = None"
  shows "calls = []"
proof -
  have "List.map_filter (callee_range s uri) exprs = []"
    using assms(7) by (auto simp: List.map_filter_def callee_range_def filter_empty_conv split: option.splits)
  then have "call_groups [] calls" using OutgoingCalls_groups [OF assms(1-6)] by (simp add: map_filter_simps)
  then show ?thesis by (simp add: call_groups_def)
qed

section \<open>What the tool shows\<close>

lemma go_call_hierarchy_steps:
  assumes "go_call_hierarchy locator direction s = Ok r"
  shows "\<exists>node p item. ResolveNode (sn_Package (cs_base s) (lo_ContextFile locator)) locator = Ok node
     \<and> lsp_position (cs_base s) (lo_ContextFile locator) (rs_Pos node) = Some p
     \<and> PrepareCallHierarchy s (lo_ContextFile locator) p = Ok [item]
     \<and> r = hierarchy_result s (lo_ContextFile locator) p (if direction = [] then ''both'' else direction) item"
  using assms by (auto simp: go_call_hierarchy_def bind_outcome_Ok_iff Let_def PrepareCallHierarchy_def split: option.splits)

text \<open>Claim C39: if \<open>go_call_hierarchy\<close> answers, it has resolved the locator to a function; when incoming calls are asked for
  (or no direction is given) and gopls finds references, then there is one incoming call for every place
  that contains a reference, in the order of files and positions, with its references in their order:
  \<open>TotalIncoming\<close> is the number of places, and the call ranges together are as many as the references that could be
  placed.  In the other directions there are no incoming calls.\<close>

theorem call_hierarchy_incoming:
  assumes "go_call_hierarchy locator direction s = Ok r"
  shows "\<exists>node p. ResolveNode (sn_Package (cs_base s) (lo_ContextFile locator)) locator = Ok node
     \<and> lsp_position (cs_base s) (lo_ContextFile locator) (rs_Pos node) = Some p
     \<and> (direction \<notin> {[], ''both'', ''incoming''} \<longrightarrow> oc_IncomingCalls r = [] \<and> oc_TotalIncoming r = 0)
     \<and> (\<forall>refs. direction \<in> {[], ''both'', ''incoming''} \<and> cs_References s (lo_ContextFile locator) p = Ok refs \<longrightarrow>
          (\<exists>calls. call_groups (located_refs s refs) calls \<and> oc_IncomingCalls r = map (incoming_call s) calls)
          \<and> oc_TotalIncoming r = card (fst ` set (located_refs s refs))
          \<and> sum_list (map (length \<circ> cc_CallRanges) (oc_IncomingCalls r)) = length (located_refs s refs))"
proof -
  let ?uri = "lo_ContextFile locator"
  obtain node p item where s: "ResolveNode (sn_Package (cs_base s) ?uri) locator = Ok node"
    "lsp_position (cs_base s) ?uri (rs_Pos node) = Some p"
    "r = hierarchy_result s ?uri p (if direction = [] then ''both'' else direction) item"
    using go_call_hierarchy_steps [OF assms] by blast
  have "(\<exists>calls. call_groups (located_refs s refs) calls \<and> oc_IncomingCalls r = map (incoming_call s) calls)
      \<and> oc_TotalIncoming r = card (fst ` set (located_refs s refs))
      \<and> sum_list (map (length \<circ> cc_CallRanges) (oc_IncomingCalls r)) = length (located_refs s refs)"
    if d: "direction \<in> {[], ''both'', ''incoming''}" "cs_References s ?uri p = Ok refs" for refs
  proof -
    obtain calls where c: "IncomingCalls s ?uri p = Ok calls" "call_groups (located_refs s refs) calls"
      using IncomingCalls_groups [OF d(2)] by blast
    have o: "oc_IncomingCalls r = map (incoming_call s) calls" "oc_TotalIncoming r = length calls"
      using d(1) c(1) by (auto simp: s(3) hierarchy_result_def calls_of_def Let_def)
    have "length \<circ> cc_CallRanges \<circ> incoming_call s = length \<circ> hc_FromRanges" by (auto simp: incoming_call_def)
    then show ?thesis using call_groups_count [OF c(2)] c(2) o by auto
  qed
  moreover have "direction \<notin> {[], ''both'', ''incoming''} \<longrightarrow> oc_IncomingCalls r = [] \<and> oc_TotalIncoming r = 0"
    by (auto simp: s(3) hierarchy_result_def Let_def)
  ultimately show ?thesis using s(1,2) by blast
qed

definition example_calls :: call_snapshot where
  "example_calls = \<lparr>cs_base = example_snapshot\<lparr>sn_ParseGo := (\<lambda>_. Some example_file)\<rparr>,
     cs_References = (\<lambda>u _. Ok [(''p'', \<lparr>l_URI = u, l_Range = zero_range\<rparr>), (''p'', \<lparr>l_URI = u, l_Range = zero_range\<rparr>)]),
     cs_RangePos = (\<lambda>_ _. Some (1, 1)), cs_PositionPos = (\<lambda>_ _. Ok 7), cs_PosRange = (\<lambda>_ _. Ok zero_range),
     cs_PathEnclosing = (\<lambda>_ _. [POther, PFuncLit (20, 30), PFuncDecl ''main'' (15, 19)]), cs_PackageName = (\<lambda>_. (''p'', 9, 10)),
     cs_Cursor = (\<lambda>_ _. Some (Some (7, 12))),
     cs_Defs = (\<lambda>_ _. Some \<lparr>fo_Kind = FuncKind, fo_Name = ''Start'', fo_Pkg = Some ''p'', fo_Pos = 7\<rparr>), cs_Uses = (\<lambda>_ _. None),
     cs_IsType = (\<lambda>_ _. False), cs_ObjectLocation = (\<lambda>u _. Ok \<lparr>l_URI = u, l_Range = zero_range\<rparr>),
     cs_Declaring = (\<lambda>u p. (u, p)), cs_DeclCalls = (\<lambda>_ _. None), cs_MetadataForFile = (\<lambda>_. Ok [''p'']), cs_PkgPath = (\<lambda>_. ''p'')\<rparr>"

lemma call_hierarchy_incoming_witness:
  "\<exists>r. go_call_hierarchy (locator_of ''Start'' ''Server'' ''method'') ''incoming'' example_calls = Ok r
     \<and> oc_TotalIncoming r = 1 \<and> sum_list (map (length \<circ> cc_CallRanges) (oc_IncomingCalls r)) = 2"
proof -
  let ?l = "locator_of ''Start'' ''Server'' ''method''"
  have n: "ResolveNode (sn_Package (cs_base example_calls) u) ?l = Ok \<lparr>rs_Pos = 7,
      rs_Object = Some (FuncObj (Some (Pointer (Named ''Server'')))), rs_EnclosingFunc = ''(*Server).Start'', rs_IsDefinition = True\<rparr>" for u
    by (simp add: example_calls_def example_snapshot_def method_found)
  then obtain r where r: "go_call_hierarchy ?l ''incoming'' example_calls = Ok r"
    by (simp add: go_call_hierarchy_def Let_def)
      (simp add: example_calls_def example_snapshot_def lsp_position_def PrepareCallHierarchy_def callHierarchyFuncAtPos_def ObjectOf_def)
  let ?ref = "(''p'', \<lparr>l_URI = lo_ContextFile ?l, l_Range = zero_range\<rparr>)"
  have e: "enclosingNodeCallItem example_calls ''p'' \<lparr>l_URI = u, l_Range = zero_range\<rparr>
      = Some \<lparr>ci_Name = ''main'', ci_Kind = SK_Function, ci_Detail = ''p'' @ bullet @ filepath_Base u, ci_URI = u, ci_Range = zero_range\<rparr>" for u
    by (simp add: enclosingNodeCallItem_def example_calls_def example_snapshot_def readable_def)
  have "cs_References example_calls u p = Ok [(''p'', \<lparr>l_URI = u, l_Range = zero_range\<rparr>), (''p'', \<lparr>l_URI = u, l_Range = zero_range\<rparr>)]" for u p
    by (simp add: example_calls_def)
  then show ?thesis using call_hierarchy_incoming [OF r] r by (auto simp: located_refs_def map_filter_simps e)
qed

text \<open>A function literal never gives its extent: the path of a call goes on to the declaration around it, and the
  outermost node decides.\<close>

lemma outermost_node_decides:
  "fold enclosing_step (path @ [PFuncDecl name extent]) st = (name, SK_Function, extent)"
  "fold enclosing_step (path @ [PValueSpec names, POther, POther]) st = (''init'', SK_Variable, fst (hd names), snd (last names))"
  by simp_all

text \<open>The summary cannot tell a direction that was not asked for, or a query that failed, from an empty one.\<close>

lemma no_calls_or_not_asked:
  assumes "OutgoingCalls s uri p = Err e \<or> OutgoingCalls s uri p = Ok []"
  shows "hierarchy_result s uri p ''both'' item = hierarchy_result s uri p ''incoming'' item"
  using assms by (auto simp: hierarchy_result_def calls_of_def)
end
