(* ===== verification/Path_Filter.thy ===== *)
theory Path_Filter
  imports File_Watcher Utf8
begin

text \<open>
  Directory filters: \<open>gopls/internal/cache/filterer.go\<close> turns the rules of the option \<open>directoryFilters\<close> into
  regular expressions; \<open>settings.go\<close> validates them, \<open>view.go\<close> applies them to files and
  \<open>mcpbridge/pkg/execute.go\<close> to the directories that the watcher watches.  A reference matching on path
  elements says what the rules mean.
\<close>

section \<open>The regular expressions that the filters use\<close>

text \<open>A sequence of literals and \<open>.*\<close>, perhaps anchored at the start.  The dot does not match a newline.  Bytes are
  matched, where \<open>regexp\<close> reads runes: the two differ only for a literal U+FFFD, which there also matches
  a byte that is not valid UTF-8.\<close>

datatype rx_item = Lit string | DotStar

record regexp =
  rx_anchored :: bool
  rx_items :: "rx_item list"

fun match_items :: "rx_item list \<Rightarrow> string \<Rightarrow> bool" where
  "match_items [] s \<longleftrightarrow> True"
| "match_items (Lit l # is) s \<longleftrightarrow> has_prefix s l \<and> match_items is (drop (length l) s)"
| "match_items (DotStar # is) [] \<longleftrightarrow> match_items is []"
| "match_items (DotStar # is) (c # s) \<longleftrightarrow> match_items is (c # s) \<or> c \<noteq> NL \<and> match_items (DotStar # is) s"

definition MatchString :: "regexp \<Rightarrow> string \<Rightarrow> bool" where
  "MatchString re s \<longleftrightarrow>
     (if rx_anchored re then match_items (rx_items re) s
      else list_ex (\<lambda>i. match_items (rx_items re) (drop i s)) [0..<Suc (length s)])"

section \<open>filterer.go\<close>

definition segment_items :: "string \<Rightarrow> rx_item list" where
  "segment_items seg = [if seg = ''**'' then DotStar else Lit seg, Lit [SLASH]]"

text \<open>The pattern begins with \<open>^/.*\<close> exactly when the first segment is \<open>**\<close>, because other segments are quoted.\<close>

definition convertFilterToRegexp :: "string \<Rightarrow> regexp" where
  "convertFilterToRegexp pat =
     (if pat = [] then \<lparr>rx_anchored = False, rx_items = [DotStar]\<rparr>
      else
        let segs = split_byte SLASH pat; items = concat (map segment_items segs)
        in if hd segs = ''**'' then \<lparr>rx_anchored = False, rx_items = tl items\<rparr>
           else \<lparr>rx_anchored = True, rx_items = Lit [SLASH] # items\<rparr>)"

text \<open>\<open>regexp.MustCompile\<close> panics when the pattern is not valid UTF-8.\<close>

definition compile_rule :: "string \<Rightarrow> (string, regexp \<times> bool) outcome" where
  "compile_rule rule =
     (let rule1 = filepath_Clean rule
      in if \<not> valid_utf8 (tl rule1) then Panic
         else Ok (convertFilterToRegexp (tl rule1), hd rule1 = CHR ''+''))"

fun compile_rules :: "string list \<Rightarrow> (string, (regexp \<times> bool) list) outcome" where
  "compile_rules [] = Ok []"
| "compile_rules (r # rs) = bind_outcome (compile_rule r) (\<lambda>m. bind_outcome (compile_rules rs) (\<lambda>ms. Ok (m # ms)))"

definition path_included :: "(regexp \<times> bool) list \<Rightarrow> string \<Rightarrow> bool" where
  "path_included matchers path0 =
     (let path1 = (if has_prefix path0 [SLASH] then path0 else SLASH # path0);
          path = (if has_suffix path1 [SLASH] then path1 else path1 @ [SLASH])
      in fold (\<lambda>(re, included) include. if MatchString re path then included else include) matchers True)"

definition PathIncludeFunc :: "string list \<Rightarrow> (string, string \<Rightarrow> bool) outcome" where
  "PathIncludeFunc rules = bind_outcome (compile_rules rules) (\<lambda>matchers. Ok (path_included matchers))"

section \<open>Validation (\<open>settings.go\<close>)\<close>

definition TrimRight_slash :: "string \<Rightarrow> string" where
  "TrimRight_slash s = rev (dropWhile (\<lambda>c. c = SLASH) (rev s))"

text \<open>The first segment with an operator that is not supported gives the error; \<open>?\<close> is looked for before \<open>*\<close>.\<close>

definition unsupported_op :: "string \<Rightarrow> string option" where
  "unsupported_op seg =
     (if seg = ''**'' then None
      else if CHR ''?'' \<in> set seg then Some ''?''
      else if CHR ''*'' \<in> set seg then Some ''*'' else None)"

definition validateDirectoryFilter :: "string \<Rightarrow> (string, string) outcome" where
  "validateDirectoryFilter rule =
     (if rule = [] \<or> hd rule \<notin> {CHR ''+'', CHR ''-''} then Err (''invalid filter '' @ rule @ '', must start with + or -'')
      else case List.map_filter unsupported_op (split_byte SLASH (tl rule)) of
        op # _ \<Rightarrow> Err (''invalid filter '' @ rule @ '', operator '' @ op
            @ '' not supported. If you want to have this operator supported, consider filing an issue'')
      | [] \<Rightarrow> Ok (TrimRight_slash rule))"

text \<open>The case of \<open>setOne\<close>: all filters or an error.\<close>

fun validate_filters :: "string list \<Rightarrow> (string, string list) outcome" where
  "validate_filters [] = Ok []"
| "validate_filters (f # fs) =
     bind_outcome (validateDirectoryFilter f) (\<lambda>g. bind_outcome (validate_filters fs) (\<lambda>gs. Ok (TrimRight_slash g # gs)))"

section \<open>Filters of a view (\<open>view.go\<close>)\<close>

definition InDir :: "string \<Rightarrow> string \<Rightarrow> bool" where
  "InDir dir path =
     (if length path = length dir then path = dir
      else if dir = [] then path \<noteq> []
      else if length path > length dir then
        (if last dir = SLASH then take (length dir) path = dir \<and> drop (length dir) path \<noteq> []
         else if path ! length dir = SLASH \<and> take (length dir) path = dir then
           (if length path = length dir + 1 then True else drop (length dir + 1) path \<noteq> [])
         else False)
      else False)"

definition relPathExcludedByFilter :: "string \<Rightarrow> (string \<Rightarrow> bool) \<Rightarrow> bool" where
  "relPathExcludedByFilter path pathIncluded = (\<not> pathIncluded (trim_prefix path [SLASH]))"

definition view_filters :: "string list \<Rightarrow> string \<Rightarrow> string \<Rightarrow> string list" where
  "view_filters filters folderDir gomodcache =
     (if has_prefix gomodcache folderDir
      then filters @ [CHR ''-'' # trim_prefix (drop (length folderDir) gomodcache) [SLASH]] else filters)"

definition filterFunc :: "string list \<Rightarrow> string \<Rightarrow> string \<Rightarrow> (string, string \<Rightarrow> bool) outcome" where
  "filterFunc filters folderDir gomodcache =
     bind_outcome (PathIncludeFunc (view_filters filters folderDir gomodcache)) (\<lambda>pathIncluded.
       Ok (\<lambda>path. InDir folderDir path \<and> relPathExcludedByFilter (trim_prefix path folderDir) pathIncluded))"

section \<open>Filters of the watcher (\<open>execute.go\<close>)\<close>

text \<open>\<open>filepath.Rel\<close> on Unix, on the elements of cleaned paths.\<close>

definition path_elements :: "string \<Rightarrow> string list" where
  "path_elements p = (if p = ''.'' then [] else filter (\<lambda>e. e \<noteq> []) (split_byte SLASH p))"

fun drop_common :: "'a list \<Rightarrow> 'a list \<Rightarrow> 'a list \<times> 'a list" where
  "drop_common (x # xs) (y # ys) = (if x = y then drop_common xs ys else (x # xs, y # ys))"
| "drop_common xs ys = (xs, ys)"

definition filepath_Rel :: "string \<Rightarrow> string \<Rightarrow> string option" where
  "filepath_Rel basepath targpath =
     (let base = filepath_Clean basepath; targ = filepath_Clean targpath
      in if targ = base then Some ''.''
         else if has_prefix base [SLASH] \<noteq> has_prefix targ [SLASH] then None
         else case drop_common (path_elements base) (path_elements targ) of
           (up, down) \<Rightarrow>
             if up \<noteq> [] \<and> hd up = ''..'' then None
             else Some (str_join [SLASH] (replicate (length up) ''..'' @ down)))"

definition makeDirectoryFilterSkipFunc :: "string list \<Rightarrow> string \<Rightarrow> (string, string \<Rightarrow> bool) outcome" where
  "makeDirectoryFilterSkipFunc filters root =
     bind_outcome (PathIncludeFunc filters) (\<lambda>pathIncluded.
       let cleanRoot = filepath_Clean root
       in Ok (\<lambda>dirPath. case filepath_Rel cleanRoot dirPath of None \<Rightarrow> False | Some rel \<Rightarrow> \<not> pathIncluded rel))"

text \<open>The flag \<open>-directory-filters\<close>.\<close>

definition cli_filters :: "string \<Rightarrow> string list" where
  "cli_filters flag = filter (\<lambda>s. s \<noteq> []) (map TrimSpace (split_byte (CHR '','') flag))"


section \<open>What the rules mean\<close>

text \<open>On path elements: \<open>covers ps xs\<close>, that the pattern \<open>ps\<close> matches a beginning of \<open>xs\<close>, where \<open>**\<close> stands for one or
  more elements; at the front of a rule it stands for any number.\<close>

fun covers :: "string list \<Rightarrow> string list \<Rightarrow> bool" where
  "covers [] xs \<longleftrightarrow> True"
| "covers (p # ps) [] \<longleftrightarrow> False"
| "covers (p # ps) (x # xs) \<longleftrightarrow> (if p = ''**'' then covers ps xs \<or> covers (p # ps) xs else p = x \<and> covers ps xs)"

definition rule_covers :: "string list \<Rightarrow> string list \<Rightarrow> bool" where
  "rule_covers segs xs \<longleftrightarrow>
     (case segs of
        [] \<Rightarrow> True
      | p # ps \<Rightarrow> if p = ''**'' then \<exists>k \<le> length xs. covers ps (drop k xs) else covers segs xs)"

definition element :: "string \<Rightarrow> bool" where
  "element x \<longleftrightarrow> x \<noteq> [] \<and> SLASH \<notin> set x"

definition elements_text :: "string list \<Rightarrow> string" where
  "elements_text xs = concat (map (\<lambda>x. x @ [SLASH]) xs)"

lemma elements_text_simps [simp]:
  "elements_text [] = []" "elements_text (x # xs) = x @ SLASH # elements_text xs"
  by (simp_all add: elements_text_def)

text \<open>The text of a rule with a sign, and of a path.\<close>

definition rule_text :: "bool \<times> string list \<Rightarrow> string" where
  "rule_text r = (if fst r then CHR ''+'' else CHR ''-'') # str_join [SLASH] (snd r)"

definition clean_rule :: "bool \<times> string list \<Rightarrow> bool" where
  "clean_rule r \<longleftrightarrow> (\<forall>p \<in> set (snd r). element p \<and> p \<notin> {''.'', ''..''}) \<and> valid_utf8 (str_join [SLASH] (snd r))"

definition last_rule :: "(bool \<times> string list) list \<Rightarrow> string list \<Rightarrow> bool" where
  "last_rule rs xs = (case List.find (\<lambda>r. rule_covers (snd r) xs) (rev rs) of None \<Rightarrow> True | Some r \<Rightarrow> fst r)"

lemma literal_element:
  "SLASH \<notin> set p \<Longrightarrow> SLASH \<notin> set x \<Longrightarrow>
     has_prefix (x @ SLASH # t) p \<and> has_prefix (drop (length p) (x @ SLASH # t)) [SLASH] \<longleftrightarrow> p = x"
proof (induction p arbitrary: x)
  case Nil
  then show ?case by (cases x) (auto simp: has_prefix_def)
next
  case (Cons c p)
  then show ?case by (cases x) (auto simp: has_prefix_def)
qed

lemma dot_star_element:
  "SLASH \<notin> set x \<Longrightarrow> NL \<notin> set x \<Longrightarrow>
     match_items (DotStar # Lit [SLASH] # is) (x @ SLASH # t)
       \<longleftrightarrow> match_items is t \<or> match_items (DotStar # Lit [SLASH] # is) t"
  by (induction x) (auto simp: has_prefix_def)

lemma items_Cons:
  "concat (map segment_items (p # ps)) = (if p = ''**'' then DotStar else Lit p) # Lit [SLASH] # concat (map segment_items ps)"
  by (simp add: segment_items_def)

lemma items_cover:
  assumes "\<forall>p \<in> set ps. element p" "\<forall>x \<in> set xs. element x \<and> NL \<notin> set x"
  shows "match_items (concat (map segment_items ps)) (elements_text xs) \<longleftrightarrow> covers ps xs"
  using assms
proof (induction ps xs rule: covers.induct)
  case (2 p ps)
  then show ?case by (auto simp: segment_items_def element_def has_prefix_def)
next
  case (3 p ps x xs)
  have e: "SLASH \<notin> set p" "SLASH \<notin> set x" "NL \<notin> set x" using 3(4,5) by (auto simp: element_def)
  show ?case
  proof (cases "p = ''**''")
    case True
    then have "match_items (concat (map segment_items ps)) (elements_text xs) \<longleftrightarrow> covers ps xs"
      "match_items (concat (map segment_items (p # ps))) (elements_text xs) \<longleftrightarrow> covers (p # ps) xs"
      using 3(1,2) 3(4,5) by simp_all
    then show ?thesis using True dot_star_element [OF e(2,3), of "concat (map segment_items ps)" "elements_text xs"]
      unfolding items_Cons by (simp del: match_items.simps)
  next
    case False
    then have "match_items (concat (map segment_items ps)) (elements_text xs) \<longleftrightarrow> covers ps xs"
      using 3(3) 3(4,5) by simp
    moreover have "match_items (concat (map segment_items (p # ps))) s \<longleftrightarrow>
        (has_prefix s p \<and> has_prefix (drop (length p) s) [SLASH]) \<and> match_items (concat (map segment_items ps)) (drop (Suc (length p)) s)" for s
      unfolding items_Cons using False by auto
    from this [of "elements_text (x # xs)"]
    have "match_items (concat (map segment_items (p # ps))) (elements_text (x # xs)) \<longleftrightarrow>
        p = x \<and> match_items (concat (map segment_items ps)) (drop (Suc (length p)) (x @ SLASH # elements_text xs))"
      unfolding elements_text_simps literal_element [OF e(1,2)] .
    ultimately show ?thesis using False by auto
  qed
qed simp

fun any_suffix :: "('a list \<Rightarrow> bool) \<Rightarrow> 'a list \<Rightarrow> bool" where
  "any_suffix P [] \<longleftrightarrow> P []"
| "any_suffix P (c # s) \<longleftrightarrow> P (c # s) \<or> any_suffix P s"

lemma any_suffix_iff: "any_suffix P s \<longleftrightarrow> (\<exists>i \<le> length s. P (drop i s))"
proof (induction s)
  case (Cons c s)
  have "(\<exists>i \<le> Suc n. Q i) \<longleftrightarrow> Q 0 \<or> (\<exists>i \<le> n. Q (Suc i))" for n and Q :: "nat \<Rightarrow> bool"
    by (metis Suc_le_mono not0_implies_Suc zero_le)
  from this [of "length s" "\<lambda>i. P (drop i (c # s))"] show ?case using Cons by simp
qed simp

lemma any_suffix_element:
  "SLASH \<notin> set x \<Longrightarrow>
     any_suffix (match_items (Lit [SLASH] # is)) (x @ s) \<longleftrightarrow> any_suffix (match_items (Lit [SLASH] # is)) s"
  by (induction x) (auto simp: has_prefix_def)

lemma any_element_start:
  "\<forall>x \<in> set xs. SLASH \<notin> set x \<Longrightarrow>
     any_suffix (match_items (Lit [SLASH] # is)) (SLASH # elements_text xs)
       \<longleftrightarrow> any_suffix (\<lambda>ys. match_items is (elements_text ys)) xs"
proof (induction xs)
  case (Cons x xs)
  then have "any_suffix (match_items (Lit [SLASH] # is)) (x @ SLASH # elements_text xs)
      \<longleftrightarrow> any_suffix (\<lambda>ys. match_items is (elements_text ys)) xs"
    by (simp add: any_suffix_element del: any_suffix.simps match_items.simps)
  moreover have "match_items (Lit [SLASH] # is) (SLASH # s) \<longleftrightarrow> match_items is s" for s by (simp add: has_prefix_def)
  ultimately show ?case by (simp del: match_items.simps)
qed (simp add: has_prefix_def)

lemma join_elements: "xs \<noteq> [] \<Longrightarrow> str_join [SLASH] xs @ [SLASH] = elements_text xs"
  by (induction "[SLASH]" xs rule: str_join.induct) simp_all

lemma split_elements: "\<forall>x \<in> set xs. element x \<Longrightarrow> xs \<noteq> [] \<Longrightarrow> split_byte SLASH (str_join [SLASH] xs) = xs"
  by (rule split_join_byte) (auto simp: element_def)

lemma filter_covers:
  assumes "\<forall>p \<in> set ps. element p" "\<forall>x \<in> set xs. element x \<and> NL \<notin> set x"
  shows "MatchString (convertFilterToRegexp (str_join [SLASH] ps)) (SLASH # elements_text xs) \<longleftrightarrow> rule_covers ps xs"
proof (cases ps)
  case Nil
  then show ?thesis by (auto simp: convertFilterToRegexp_def MatchString_def rule_covers_def list_ex_iff)
next
  case (Cons p qs)
  have ne: "str_join [SLASH] ps \<noteq> []" using Cons assms(1) by (cases qs) (auto simp: element_def)
  have sp: "split_byte SLASH (str_join [SLASH] ps) = ps" using split_elements [OF assms(1)] Cons by simp
  show ?thesis
  proof (cases "p = ''**''")
    case True
    have re: "convertFilterToRegexp (str_join [SLASH] ps)
        = \<lparr>rx_anchored = False, rx_items = Lit [SLASH] # concat (map segment_items qs)\<rparr>"
      using ne sp Cons True by (simp add: convertFilterToRegexp_def segment_items_def Let_def)
    have "MatchString (convertFilterToRegexp (str_join [SLASH] ps)) (SLASH # elements_text xs) \<longleftrightarrow>
        any_suffix (match_items (Lit [SLASH] # concat (map segment_items qs))) (SLASH # elements_text xs)"
      unfolding re MatchString_def any_suffix_iff by (auto simp: list_ex_iff less_Suc_eq_le simp del: match_items.simps upt_Suc)
    also have "\<dots> \<longleftrightarrow> any_suffix (\<lambda>ys. match_items (concat (map segment_items qs)) (elements_text ys)) xs"
      by (rule any_element_start) (use assms(2) in \<open>auto simp: element_def\<close>)
    also have "\<dots> \<longleftrightarrow> (\<exists>k \<le> length xs. covers qs (drop k xs))"
      unfolding any_suffix_iff using items_cover [of qs "drop k xs" for k] assms Cons by (metis in_set_dropD list.set_intros(2))
    finally show ?thesis using Cons True by (simp add: rule_covers_def)
  next
    case False
    have "convertFilterToRegexp (str_join [SLASH] ps) = \<lparr>rx_anchored = True, rx_items = Lit [SLASH] # concat (map segment_items ps)\<rparr>"
      using ne sp Cons False by (simp add: convertFilterToRegexp_def Let_def)
    then show ?thesis using items_cover [OF assms] Cons False by (simp add: MatchString_def rule_covers_def has_prefix_def)
  qed
qed

lemma element_iff: "element x \<longleftrightarrow> x \<noteq> [] \<and> SLASH \<notin> set x"
  by (simp add: element_def)

text \<open>Cleaning leaves the text of a clean rule, and a clean path, as it is.\<close>

lemma clean_parts_plain: "\<forall>p \<in> set ps. p \<notin> {[], ''.'', ''..''} \<Longrightarrow> clean_parts rooted ps st = rev st @ ps"
  by (induction ps arbitrary: st) auto

lemma clean_relative:
  assumes "\<forall>p \<in> set ps. element p \<and> p \<notin> {''.'', ''..''}" "ps \<noteq> []"
  shows "filepath_Clean (str_join [SLASH] ps) = str_join [SLASH] ps"
proof -
  have "\<not> has_prefix (str_join [SLASH] ps) [SLASH]" "str_join [SLASH] ps \<noteq> []"
    using assms by (cases ps; cases "hd ps"; cases "tl ps"; auto simp: element_def has_prefix_def)+
  moreover have "split_byte SLASH (str_join [SLASH] ps) = ps" by (rule split_elements) (use assms in auto)
  moreover have "clean_parts False ps [] = ps" using clean_parts_plain [of ps False "[]"] assms(1) by (auto simp: element_def)
  ultimately show ?thesis by (simp add: filepath_Clean_def Let_def)
qed

lemma clean_rooted:
  assumes "\<forall>p \<in> set ps. element p \<and> p \<notin> {''.'', ''..''}"
  shows "filepath_Clean (SLASH # str_join [SLASH] ps) = SLASH # str_join [SLASH] ps"
proof -
  have "split_byte SLASH (SLASH # str_join [SLASH] ps) = [] # (if ps = [] then [[]] else ps)"
    using split_elements [of ps] assms by auto
  moreover have "clean_parts True ([] # (if ps = [] then [[]] else ps)) [] = ps"
    using clean_parts_plain [of ps True "[]"] assms by (auto simp: element_def)
  ultimately show ?thesis by (simp add: filepath_Clean_def Let_def has_prefix_def)
qed

lemma clean_rule_text: "clean_rule r \<Longrightarrow> filepath_Clean (rule_text r) = rule_text r"
proof (cases r)
  case (Pair b ps)
  assume c: "clean_rule r"
  let ?c = "if b then CHR ''+'' else CHR ''-''"
  show ?thesis
  proof (cases ps)
    case Nil
    then show ?thesis using Pair by (cases b) (simp_all add: rule_text_def filepath_Clean_def has_prefix_def Let_def)
  next
    case (Cons p qs)
    have t: "rule_text r = str_join [SLASH] ((?c # p) # qs)"
      using Pair Cons by (cases qs) (simp_all add: rule_text_def)
    have "\<forall>q \<in> set ((?c # p) # qs). element q \<and> q \<notin> {''.'', ''..''}"
      using c Pair Cons by (auto simp: clean_rule_def element_def)
    then show ?thesis unfolding t by (rule clean_relative) simp
  qed
qed

definition compiled :: "bool \<times> string list \<Rightarrow> regexp \<times> bool" where
  "compiled r = (convertFilterToRegexp (str_join [SLASH] (snd r)), fst r)"

lemma compile_rules_text: "\<forall>r \<in> set rs. clean_rule r \<Longrightarrow> compile_rules (map rule_text rs) = Ok (map compiled rs)"
proof (induction rs)
  case (Cons r rs)
  then have "compile_rule (rule_text r) = Ok (compiled r)"
    using clean_rule_text [of r] by (auto simp: compile_rule_def compiled_def rule_text_def clean_rule_def Let_def)
  then show ?case using Cons by simp
qed simp

lemma fold_last:
  "fold (\<lambda>(m, inc) acc. if P m then inc else acc) ms acc
     = (case List.find (\<lambda>x. P (fst x)) (rev ms) of None \<Rightarrow> acc | Some x \<Rightarrow> snd x)"
proof (induction ms rule: rev_induct)
  case (snoc x ms)
  then show ?case by (cases x) simp
qed simp

lemma find_map: "List.find P (map f xs) = map_option f (List.find (P \<circ> f) xs)"
  by (induction xs) simp_all

lemma last_join:
  assumes "\<forall>x \<in> set xs. element x" "xs \<noteq> []"
  shows "last (c # str_join [SLASH] xs) \<noteq> SLASH"
proof -
  obtain ys x where xs: "xs = ys @ [x]" using assms(2) by (metis append_butlast_last_id)
  have "\<exists>y. str_join [SLASH] xs = y @ x" using str_join_append [of ys "[x]" "[SLASH]"] by (cases "ys = []") (auto simp: xs)
  then obtain y where y: "str_join [SLASH] xs = y @ x" by blast
  have x: "x \<noteq> []" "SLASH \<notin> set x" using assms(1) xs by (auto simp: element_def)
  then have "last (c # y @ x) = last x" by simp
  then show ?thesis using x last_in_set [OF x(1)] unfolding y by metis
qed

lemma slashed_path:
  assumes "\<forall>x \<in> set xs. element x"
  shows "(let path1 = (if has_prefix (str_join [SLASH] xs) [SLASH] then str_join [SLASH] xs else SLASH # str_join [SLASH] xs)
     in if has_suffix path1 [SLASH] then path1 else path1 @ [SLASH]) = SLASH # elements_text xs"
proof (cases "xs = []")
  case False
  have p: "\<not> has_prefix (str_join [SLASH] xs) [SLASH]"
    using False assms by (cases xs; cases "hd xs"; cases "tl xs") (auto simp: element_def has_prefix_def)
  have "last (SLASH # str_join [SLASH] xs) \<noteq> SLASH" by (rule last_join [OF assms False])
  then have "\<not> has_suffix (SLASH # str_join [SLASH] xs) [SLASH]" unfolding has_suffix_iff by (metis last_snoc)
  then show ?thesis using p join_elements [OF False] by (simp add: Let_def)
qed (simp add: has_prefix_def has_suffix_def)

lemma path_included_last:
  assumes "\<forall>r \<in> set rs. clean_rule r" "\<forall>x \<in> set xs. element x \<and> NL \<notin> set x"
  shows "path_included (map compiled rs) (str_join [SLASH] xs) = last_rule rs xs"
proof -
  have p: "(let path1 = (if has_prefix (str_join [SLASH] xs) [SLASH] then str_join [SLASH] xs else SLASH # str_join [SLASH] xs)
     in if has_suffix path1 [SLASH] then path1 else path1 @ [SLASH]) = SLASH # elements_text xs"
    by (rule slashed_path) (use assms(2) in blast)
  have c: "r \<in> set rs \<Longrightarrow> MatchString (fst (compiled r)) (SLASH # elements_text xs) \<longleftrightarrow> rule_covers (snd r) xs" for r
    using filter_covers [OF _ assms(2), of "snd r"] assms(1) by (auto simp: compiled_def clean_rule_def)
  have "path_included (map compiled rs) (str_join [SLASH] xs)
      = fold (\<lambda>(re, inc) acc. if MatchString re (SLASH # elements_text xs) then inc else acc) (map compiled rs) True"
    unfolding path_included_def p [symmetric] by (simp add: Let_def)
  also have "\<dots> = last_rule rs xs"
    unfolding fold_last rev_map find_map last_rule_def
    using find_cong [of "rev rs" "rev rs" "(\<lambda>x. MatchString (fst x) (SLASH # elements_text xs)) \<circ> compiled" "\<lambda>r. rule_covers (snd r) xs"] c
    by (auto simp: compiled_def split: option.split)
  finally show ?thesis .
qed

lemma PathInclude_last:
  assumes "\<forall>r \<in> set rs. clean_rule r"
  shows "\<exists>f. PathIncludeFunc (map rule_text rs) = Ok f
    \<and> (\<forall>xs. (\<forall>x \<in> set xs. element x \<and> NL \<notin> set x) \<longrightarrow> f (str_join [SLASH] xs) = last_rule rs xs)"
  using compile_rules_text [OF assms] path_included_last [OF assms] by (simp add: PathIncludeFunc_def)

text \<open>Claim C36: the regular expressions of \<open>PathIncludeFunc\<close> mean what the rules say, element by element: for rules in clean form
  and a path of elements without newline, the last rule that covers the path decides, and a path that
  no rule covers is included.  A rule covers a path when its elements are the first ones of the path; \<open>**\<close> at its
  front may stand for any number of elements, also none, and elsewhere for one or more.\<close>

theorem PathIncludeFunc_spec:
  assumes "\<forall>r \<in> set rs. clean_rule r"
  shows "\<exists>f. PathIncludeFunc (map rule_text rs) = Ok f
    \<and> (\<forall>xs. (\<forall>x \<in> set xs. element x \<and> NL \<notin> set x) \<longrightarrow> f (str_join [SLASH] xs) = last_rule rs xs)"
  by (rule PathInclude_last [OF assms])

lemma ascii_valid: "\<forall>c \<in> set s. byte c < 0x80 \<Longrightarrow> valid_utf8 s"
proof (induction s)
  case (Cons c s)
  then show ?case using good_rune_ascii [of c] valid_utf8_rune_append [of "[c]" s] by (simp add: DecodeRune_ascii)
qed simp

lemma PathIncludeFunc_spec_witness:
  "(\<exists>f. PathIncludeFunc [''-'', ''+project_a'', ''-project_a/**/tmp''] = Ok f
     \<and> \<not> f ''b'' \<and> f ''project_a/x'' \<and> \<not> f ''project_a/x/tmp/y'' \<and> f ''project_a/tmp'')"
proof -
  let ?rs = "[(False, []), (True, [''project_a'']), (False, [''project_a'', ''**'', ''tmp''])]"
  have c: "\<forall>r \<in> set ?rs. clean_rule r"
    by (simp add: clean_rule_def element_def ascii_valid)
  have t: "map rule_text ?rs = [''-'', ''+project_a'', ''-project_a/**/tmp'']" by (simp add: rule_text_def)
  obtain f where f: "PathIncludeFunc (map rule_text ?rs) = Ok f"
    "\<And>xs. \<forall>x \<in> set xs. element x \<and> NL \<notin> set x \<Longrightarrow> f (str_join [SLASH] xs) = last_rule ?rs xs"
    using PathIncludeFunc_spec [OF c] by blast
  have "f ''b'' = False" "f ''project_a/x'' = True" "f ''project_a/x/tmp/y'' = False" "f ''project_a/tmp'' = True"
    using f(2) [of "[''b'']"] f(2) [of "[''project_a'', ''x'']"] f(2) [of "[''project_a'', ''x'', ''tmp'', ''y'']"]
      f(2) [of "[''project_a'', ''tmp'']"]
    by (simp_all add: element_def last_rule_def rule_covers_def)
  then show ?thesis using f(1) unfolding t by blast
qed

section \<open>What the documentation promises\<close>

text \<open>In the middle of a rule \<open>**\<close> does not stand for no element.  The example \<open>-**foo\<close> matches nothing but a directory of
  that name, and is rejected by the settings.  A rule with a leading slash never matches.\<close>

lemma inner_stars_need_an_element: "\<not> covers [''foo'', ''**'', ''bar''] [''foo'', ''bar'']"
  by simp

lemma example_star_foo:
  "validateDirectoryFilter ''-**foo'' = Err ''invalid filter -**foo, operator * not supported. If you want to have this operator supported, consider filing an issue''"
  "rule_covers [''**foo''] [x] \<longleftrightarrow> x = ''**foo''"
  by (auto simp: validateDirectoryFilter_def unsupported_op_def map_filter_simps rule_covers_def)

lemma absolute_rule_never_matches:
  assumes "SLASH \<notin> set p" "p \<noteq> []" "\<forall>x \<in> set xs. element x"
  shows "\<not> MatchString (convertFilterToRegexp (SLASH # p)) (SLASH # elements_text xs)"
proof -
  have "split_byte SLASH (SLASH # p) = [[], p]" using assms split_byte_single [of SLASH p] by simp
  moreover have "\<not> has_prefix (elements_text xs) [SLASH]"
    using assms(3) by (cases xs) (auto simp: element_def has_prefix_def neq_Nil_conv)
  ultimately show ?thesis
    by (simp add: convertFilterToRegexp_def MatchString_def segment_items_def has_prefix_def Let_def)
qed

section \<open>The watcher\<close>

lemma drop_common_prefix: "drop_common xs (xs @ ys) = ([], ys)"
  by (induction xs; cases ys) simp_all

definition plain_path :: "string list \<Rightarrow> bool" where
  "plain_path xs \<longleftrightarrow> (\<forall>x \<in> set xs. element x \<and> NL \<notin> set x \<and> x \<notin> {''.'', ''..''})"

lemma rooted_elements:
  assumes "plain_path xs" shows "path_elements (SLASH # str_join [SLASH] xs) = xs"
proof -
  have "split_byte SLASH (SLASH # str_join [SLASH] xs) = [] # (if xs = [] then [[]] else xs)"
    using split_elements [of xs] assms by (auto simp: plain_path_def)
  moreover have "filter (\<lambda>e. e \<noteq> []) xs = xs" using assms by (auto simp: plain_path_def element_def filter_id_conv)
  ultimately show ?thesis by (simp add: path_elements_def)
qed

lemma Rel_below:
  assumes "plain_path rs" "plain_path xs" "xs \<noteq> []"
  shows "filepath_Rel (SLASH # str_join [SLASH] rs) (SLASH # str_join [SLASH] (rs @ xs)) = Some (str_join [SLASH] xs)"
proof -
  have p: "plain_path (rs @ xs)" using assms by (auto simp: plain_path_def)
  have c: "filepath_Clean (SLASH # str_join [SLASH] ys) = SLASH # str_join [SLASH] ys" if "plain_path ys" for ys
    using clean_rooted that by (auto simp: plain_path_def)
  have "SLASH # str_join [SLASH] (rs @ xs) \<noteq> SLASH # str_join [SLASH] rs"
    using rooted_elements [OF p] rooted_elements [OF assms(1)] assms(3) by (metis append_self_conv)
  then show ?thesis
    using rooted_elements [OF p] rooted_elements [OF assms(1)]
    by (simp add: filepath_Rel_def c [OF p] c [OF assms(1)] drop_common_prefix has_prefix_def Let_def)
qed

lemma Rel_root: "plain_path rs \<Longrightarrow> filepath_Rel (SLASH # str_join [SLASH] rs) (SLASH # str_join [SLASH] rs) = Some ''.''"
  by (simp add: filepath_Rel_def)

text \<open>The skip function of the watcher, and the filter of a view.\<close>

lemma watcher_skip:
  assumes "\<forall>r \<in> set rules. clean_rule r" "plain_path rs"
  shows "\<exists>skip. makeDirectoryFilterSkipFunc (map rule_text rules) (SLASH # str_join [SLASH] rs) = Ok skip
    \<and> (\<forall>xs. plain_path xs \<and> xs \<noteq> [] \<longrightarrow> skip (SLASH # str_join [SLASH] (rs @ xs)) = (\<not> last_rule rules xs))
    \<and> skip (SLASH # str_join [SLASH] rs) = (\<not> last_rule rules [''.''])"
proof -
  obtain f where f: "PathIncludeFunc (map rule_text rules) = Ok f"
    "\<And>xs. \<forall>x \<in> set xs. element x \<and> NL \<notin> set x \<Longrightarrow> f (str_join [SLASH] xs) = last_rule rules xs"
    using PathInclude_last [OF assms(1)] by blast
  have c: "filepath_Clean (SLASH # str_join [SLASH] rs) = SLASH # str_join [SLASH] rs"
    using clean_rooted assms(2) by (auto simp: plain_path_def)
  have "f ''.'' = last_rule rules [''.'']" using f(2) [of "[''.'']"] by (simp add: element_def)
  then show ?thesis
    using Rel_below [OF assms(2)] Rel_root [OF assms(2)] f(2)
    by (auto simp: makeDirectoryFilterSkipFunc_def f(1) c plain_path_def Let_def)
qed

lemma InDir_append: "d \<noteq> [] \<Longrightarrow> last d \<noteq> SLASH \<Longrightarrow> t \<noteq> [] \<Longrightarrow> InDir d (d @ SLASH # t)"
  by (simp add: InDir_def)

lemma InDir_below:
  assumes "plain_path rs" "rs \<noteq> []" "plain_path xs" "xs \<noteq> []"
  shows "InDir (SLASH # str_join [SLASH] rs) (SLASH # str_join [SLASH] (rs @ xs))"
    and "trim_prefix (SLASH # str_join [SLASH] (rs @ xs)) (SLASH # str_join [SLASH] rs) = SLASH # str_join [SLASH] xs"
proof -
  let ?d = "SLASH # str_join [SLASH] rs"
  have j: "SLASH # str_join [SLASH] (rs @ xs) = ?d @ SLASH # str_join [SLASH] xs"
    using str_join_append [OF assms(2,4), of "[SLASH]"] by simp
  have ne: "str_join [SLASH] xs \<noteq> []" using assms(3,4) by (cases xs; cases "tl xs") (auto simp: plain_path_def element_def)
  have l: "last ?d \<noteq> SLASH" by (rule last_join) (use assms(1,2) in \<open>auto simp: plain_path_def\<close>)
  show "InDir ?d (SLASH # str_join [SLASH] (rs @ xs))" unfolding j by (rule InDir_append [OF _ l ne]) simp
  show "trim_prefix (SLASH # str_join [SLASH] (rs @ xs)) ?d = SLASH # str_join [SLASH] xs"
    unfolding j by (rule trim_prefix_append)
qed

lemma watcher_and_view:
  assumes "\<forall>r \<in> set rules. clean_rule r" "plain_path rs" "rs \<noteq> []"
    and "\<not> has_prefix gomodcache (SLASH # str_join [SLASH] rs)"
  shows "\<exists>skip excluded. makeDirectoryFilterSkipFunc (map rule_text rules) (SLASH # str_join [SLASH] rs) = Ok skip
    \<and> filterFunc (map rule_text rules) (SLASH # str_join [SLASH] rs) gomodcache = Ok excluded
    \<and> (\<forall>xs. plain_path xs \<and> xs \<noteq> [] \<longrightarrow>
         skip (SLASH # str_join [SLASH] (rs @ xs)) = excluded (SLASH # str_join [SLASH] (rs @ xs))
         \<and> skip (SLASH # str_join [SLASH] (rs @ xs)) = (\<not> last_rule rules xs))"
proof -
  obtain skip where s: "makeDirectoryFilterSkipFunc (map rule_text rules) (SLASH # str_join [SLASH] rs) = Ok skip"
    "\<And>xs. plain_path xs \<Longrightarrow> xs \<noteq> [] \<Longrightarrow> skip (SLASH # str_join [SLASH] (rs @ xs)) = (\<not> last_rule rules xs)"
    using watcher_skip [OF assms(1,2)] by blast
  obtain f where f: "PathIncludeFunc (map rule_text rules) = Ok f"
    "\<And>xs. \<forall>x \<in> set xs. element x \<and> NL \<notin> set x \<Longrightarrow> f (str_join [SLASH] xs) = last_rule rules xs"
    using PathInclude_last [OF assms(1)] by blast
  let ?ex = "\<lambda>path. InDir (SLASH # str_join [SLASH] rs) path
    \<and> relPathExcludedByFilter (trim_prefix path (SLASH # str_join [SLASH] rs)) f"
  have v: "filterFunc (map rule_text rules) (SLASH # str_join [SLASH] rs) gomodcache = Ok ?ex"
    using assms(4) f(1) by (simp add: filterFunc_def view_filters_def)
  have "?ex (SLASH # str_join [SLASH] (rs @ xs)) = (\<not> last_rule rules xs)" if "plain_path xs" "xs \<noteq> []" for xs
    using InDir_below [OF assms(2,3) that] f(2) [of xs] that
    by (simp add: relPathExcludedByFilter_def plain_path_def trim_prefix_def has_prefix_def)
  then show ?thesis using s v by blast
qed

text \<open>The watcher skips exactly the directories whose files the view excludes: for clean filters, a cleaned root below
  which the module cache does not lie, and a path below the root, the function given to \<open>WithSkipDir\<close> and the filter
  of the view agree, and both follow the last rule that covers the path relative to the root.\<close>

theorem watcher_agrees_with_view:
  assumes "\<forall>r \<in> set rules. clean_rule r" "plain_path rs" "rs \<noteq> []"
    and "\<not> has_prefix gomodcache (SLASH # str_join [SLASH] rs)"
  shows "\<exists>skip excluded. makeDirectoryFilterSkipFunc (map rule_text rules) (SLASH # str_join [SLASH] rs) = Ok skip
    \<and> filterFunc (map rule_text rules) (SLASH # str_join [SLASH] rs) gomodcache = Ok excluded
    \<and> (\<forall>xs. plain_path xs \<and> xs \<noteq> [] \<longrightarrow>
         skip (SLASH # str_join [SLASH] (rs @ xs)) = excluded (SLASH # str_join [SLASH] (rs @ xs))
         \<and> skip (SLASH # str_join [SLASH] (rs @ xs)) = (\<not> last_rule rules xs))"
  by (rule watcher_and_view [OF assms])

lemma watcher_agrees_with_view_witness:
  "\<exists>skip excluded. makeDirectoryFilterSkipFunc [''-**/node_modules''] ''/w/p'' = Ok skip
     \<and> filterFunc [''-**/node_modules''] ''/w/p'' ''/go/pkg/mod'' = Ok excluded
     \<and> skip ''/w/p/web/node_modules'' \<and> excluded ''/w/p/web/node_modules'' \<and> \<not> skip ''/w/p/web'' \<and> \<not> excluded ''/w/p/web''"
proof -
  let ?rules = "[(False, [''**'', ''node_modules''])]" and ?rs = "[''w'', ''p'']"
  have c: "\<forall>r \<in> set ?rules. clean_rule r" by (simp add: clean_rule_def element_def ascii_valid)
  have p: "plain_path ?rs" by (simp add: plain_path_def element_def)
  have g: "\<not> has_prefix ''/go/pkg/mod'' (SLASH # str_join [SLASH] ?rs)" by (simp add: has_prefix_def)
  have t: "map rule_text ?rules = [''-**/node_modules'']" "SLASH # str_join [SLASH] ?rs = ''/w/p''" by (simp_all add: rule_text_def)
  obtain skip excluded where s: "makeDirectoryFilterSkipFunc [''-**/node_modules''] ''/w/p'' = Ok skip"
    "filterFunc [''-**/node_modules''] ''/w/p'' ''/go/pkg/mod'' = Ok excluded"
    "\<And>xs. plain_path xs \<Longrightarrow> xs \<noteq> [] \<Longrightarrow>
         skip (SLASH # str_join [SLASH] (?rs @ xs)) = excluded (SLASH # str_join [SLASH] (?rs @ xs))
         \<and> skip (SLASH # str_join [SLASH] (?rs @ xs)) = (\<not> last_rule ?rules xs)"
    using watcher_agrees_with_view [OF c p _ g] unfolding t by blast
  have w: "\<not> covers [''node_modules''] (drop k [''web''])" for k by (cases k) simp_all
  have "last_rule ?rules [''web''] = True"
    using w by (auto simp: last_rule_def rule_covers_def)
  moreover have "last_rule ?rules [''web'', ''node_modules''] = False"
    by (simp add: last_rule_def rule_covers_def) (rule exI [of _ "Suc 0"], simp)
  ultimately have "skip ''/w/p/web/node_modules''" "excluded ''/w/p/web/node_modules''" "\<not> skip ''/w/p/web''" "\<not> excluded ''/w/p/web''"
    using s(3) [of "[''web'', ''node_modules'']"] s(3) [of "[''web'']"] by (auto simp: plain_path_def element_def)
  then show ?thesis using s(1,2) by blast
qed

text \<open>The root is relative to itself the path \<open>.\<close>, which the rule \<open>-\<close> covers.  With the filters that the settings document for
  including one project only, nothing is watched.\<close>

lemma include_only_watches_nothing:
  assumes "makeDirectoryFilterSkipFunc [''-'', ''+project_a''] root = Ok skip" "filepath_Clean root = SLASH # str_join [SLASH] rs"
    and "plain_path rs" "env_skipDirFunc env = Some skip" "env_tree env (filepath_Clean root) = Ok t"
  shows "WatchDir env root known = (Ok (), known)" "last_rule [(False, []), (True, [''project_a''])] [''project_a'']"
proof -
  let ?rules = "[(False, []), (True, [''project_a''])]"
  have c: "\<forall>r \<in> set ?rules. clean_rule r" by (simp add: clean_rule_def element_def ascii_valid)
  have t: "map rule_text ?rules = [''-'', ''+project_a'']" by (simp add: rule_text_def)
  have idem: "filepath_Clean (SLASH # str_join [SLASH] rs) = SLASH # str_join [SLASH] rs"
    using clean_rooted assms(3) by (auto simp: plain_path_def)
  have "makeDirectoryFilterSkipFunc [''-'', ''+project_a''] (SLASH # str_join [SLASH] rs) = Ok skip"
    using assms(1,2) idem by (simp add: makeDirectoryFilterSkipFunc_def)
  then have "skip (SLASH # str_join [SLASH] rs)"
    using watcher_skip [OF c assms(3)] unfolding t by (auto simp: last_rule_def rule_covers_def)
  then show "WatchDir env root known = (Ok (), known)"
    using assms(2,4,5) by (simp add: WatchDir_def skipped_dir_def Let_def)
  show "last_rule ?rules [''project_a'']" by (simp add: last_rule_def rule_covers_def)
qed

text \<open>A module cache in a directory whose name begins like that of the workspace folder gives a rule about the workspace.\<close>

lemma modcache_beside_folder:
  "view_filters [] ''/w/p'' ''/w/pkg/mod'' = [''-kg/mod'']"
  by (simp add: view_filters_def has_prefix_def trim_prefix_def)
end
