(* ===== verification/Tool_Registry.thy ===== *)
theory Tool_Registry
  imports Response_Limiter Symbol_Search
begin

text \<open>
  The registry of tools (\<open>mcpbridge/core/server.go\<close>, \<open>tool.go\<close>, \<open>doc.go\<close>): registration with the response
  limit, the generated references, and the tool \<open>go_list_tools\<close> of \<open>gopls_wrappers.go\<close> with its categories and
  schemas.  A tool is its name and description; its handler is the function of the theory for it.
\<close>

section \<open>The tools\<close>

record tool =
  tl_Name :: string
  tl_Description :: string

definition tools :: "tool list" where
  "tools =
     [\<lparr>tl_Name = ''go_list_modules'',
        tl_Description = ''List current module and direct dependencies only. Returns module paths only (no packages). By ''
          @ ''default, transitive dependencies are excluded. Set direct_only=false to show all dependencies ''
          @ ''including transitive ones. Use this to understand the module structure before exploring packages.''\<rparr>,
      \<lparr>tl_Name = ''go_list_module_packages'',
        tl_Description = ''List all packages in a given module. Returns package names and optionally documentation. Use this ''
          @ ''to discover packages within a module before exploring symbols.''\<rparr>,
      \<lparr>tl_Name = ''go_list_package_symbols'',
        tl_Description = ''List all exported symbols (types, functions, constants, variables) in a package. Returns Symbol ''
          @ ''objects with name, kind, signature, receiver, documentation, and optional bodies. Use ''
          @ ''include_docs=true for documentation and include_bodies=true for function implementations. Use this ''
          @ ''to explore a package'' @ [CHR 0x27]
          @ ''s API surface before diving into specific symbols with get_package_symbol_detail.''\<rparr>,
      \<lparr>tl_Name = ''go_get_package_symbol_detail'',
        tl_Description = ''Get detailed symbol information from a package. Returns Symbol objects with name, kind, signature, ''
          @ ''receiver (for methods), parent (for fields), documentation, and optional bodies. Symbol filters are ''
          @ ''REQUIRED - provide symbol_filters to retrieve specific symbols by name and receiver (e.g., [{name: ''
          @ [CHR 0x22] @ ''Start'' @ [CHR 0x22] @ '', receiver: '' @ [CHR 0x22] @ ''*Server'' @ [CHR 0x22]
          @ ''}]). For methods, receiver matching uses exact string match (e.g., '' @ [CHR 0x22] @ ''*Server''
          @ [CHR 0x22] @ '' != '' @ [CHR 0x22] @ ''Server'' @ [CHR 0x22]
          @ ''). Use include_docs=true for documentation and include_bodies=true for function implementations. ''
          @ ''Use list_package_symbols to get all symbols in a package.''\<rparr>,
      \<lparr>tl_Name = ''go_build_check'',
        tl_Description = ''Check for compilation and type errors. FAST: uses incremental type checking (faster than '' @ [CHR 0x27]
          @ ''go build'' @ [CHR 0x27]
          @ ''). Use this to verify code correctness and populate the workspace cache for other tools. Returns ''
          @ ''detailed error information with file/line/column.''\<rparr>,
      \<lparr>tl_Name = ''go_search'',
        tl_Description = ''Find symbols (functions, types, constants) by name with fuzzy matching. Use this when user knows ''
          @ ''part of a symbol name but not the full name or location. Returns rich symbol information (name, ''
          @ ''kind, file, line) for fast exploration.''\<rparr>,
      \<lparr>tl_Name = ''go_symbol_references'',
        tl_Description = ''Find all usages of a symbol across the codebase using semantic location (symbol name, package, ''
          @ ''scope). Use this before refactoring to assess impact or to understand how a symbol is used. ''
          @ ''REPLACES: grep + manual file reading for finding references.''\<rparr>,
      \<lparr>tl_Name = ''go_dryrun_rename_symbol'',
        tl_Description = ''Preview a symbol rename operation across all files (DRY RUN - no changes are applied). Use ''
          @ ''go_symbol_references first to assess impact, then use this to preview the exact changes that would ''
          @ ''be made. Returns a unified diff showing all proposed modifications.''\<rparr>,
      \<lparr>tl_Name = ''go_implementation'',
        tl_Description = ''Find all implementations of an interface or all interfaces implemented by a type using semantic ''
          @ ''location (symbol name, package, scope). Use this to understand type hierarchies, find all ''
          @ ''implementations of an interface, or discover design patterns in the codebase. REPLACES: grep + ''
          @ ''manual file reading for interface implementations.''\<rparr>,
      \<lparr>tl_Name = ''go_read_file'',
        tl_Description = ''Read file content through gopls. SLOWER: reads full file from disk. Use this when you need to see ''
          @ ''actual code or implementation details. Note: unsaved editor changes not included.''\<rparr>,
      \<lparr>tl_Name = ''go_definition'',
        tl_Description = ''Jump to the definition of a symbol using semantic location (symbol name, package, scope). REPLACES: ''
          @ ''grep + manual file reading. Use this when you see a function call or type reference and need to ''
          @ ''find where it'' @ [CHR 0x27]
          @ ''s defined. Faster and more accurate than text search - uses type information from gopls.''\<rparr>,
      \<lparr>tl_Name = ''go_get_call_hierarchy'',
        tl_Description = ''Get the call hierarchy for a function using semantic location (symbol name, package, scope). ''
          @ ''Returns both incoming calls (what functions call this one) and outgoing calls (what functions this ''
          @ ''one calls). Use this to understand code flow, debug call chains, and trace execution paths through ''
          @ ''the codebase. REPLACES: grep + manual file reading for call graph analysis.''\<rparr>,
      \<lparr>tl_Name = ''go_analyze_workspace'',
        tl_Description = ''Analyze the entire workspace to discover packages, entry points, and dependencies. Use this when ''
          @ ''exploring a new codebase to understand the project structure, find main packages, API endpoints, ''
          @ ''and get a comprehensive overview of the codebase.''\<rparr>,
      \<lparr>tl_Name = ''go_get_started'',
        tl_Description = ''Get a beginner-friendly guide to start exploring the Go project. Returns project identity, quick ''
          @ ''stats, entry points, package categories, and recommended next steps. Use this when you'' @ [CHR 0x27]
          @ ''re new to a codebase and want to understand where to start.''\<rparr>,
      \<lparr>tl_Name = ''go_get_dependency_graph'',
        tl_Description = ''Get the dependency graph for a package. Returns both dependencies (packages it imports) and ''
          @ ''dependents (packages that import it). Use this to understand architectural relationships, analyze ''
          @ ''coupling, and visualize the package'' @ [CHR 0x27] @ ''s place in the codebase.''\<rparr>]"

definition docMap :: "(string \<times> string) list" where
  "docMap =
     [(''go_list_modules'', str_join [NL]
        [''List current module and direct dependencies only.'',
         [],
         ''**When to use**: Understanding module structure before exploring packages.'',
         [],
         ''**Use this instead of**: Reading go.mod manually.'',
         [],
         ''**Note**: By default excludes transitive dependencies. Set direct_only=false to include all.'',
         [],
         ''**See also**: go_list_module_packages for discovering packages within a module.'',
         []]),
      (''go_list_module_packages'', str_join [NL]
        [''List all packages in a given module.'',
         [],
         ''**When to use**: Discovering packages within a module before exploring symbols.'',
         [],
         ''**Use this instead of**: Running find/ls and reading files manually.'',
         [],
         ''**See also**: go_list_package_symbols for exploring symbols within a package.'',
         []]),
      (''go_list_package_symbols'', str_join [NL]
        [''List all exported symbols (types, functions, constants, variables) in a package.'',
         [],
         ''**When to use**: Exploring a package'' @ [CHR 0x27]
           @ ''s API surface before diving into specific symbols.'',
         [],
         ''**Use this instead of**: Reading entire package files to find what'' @ [CHR 0x27] @ ''s exported.'',
         [],
         ''**Output**: Returns Symbol objects with name, kind, signature, receiver, documentation. Use ''
           @ ''include_bodies=true for implementations.'',
         [],
         ''**See also**: go_get_package_symbol_detail for specific symbols, go_search for finding symbols by name.'',
         []]),
      (''go_get_package_symbol_detail'', str_join [NL]
        [''Get detailed symbol information from a package.'',
         [],
         ''**When to use**: Retrieving specific symbol details (signatures, docs, bodies) after discovering ''
           @ ''them with go_list_package_symbols.'',
         [],
         ''**Required**: symbol_filters parameter to specify which symbols to retrieve (e.g., [{name: ''
           @ [CHR 0x22] @ ''Start'' @ [CHR 0x22] @ '', receiver: '' @ [CHR 0x22] @ ''*Server'' @ [CHR 0x22] @ ''}]).'',
         [],
         ''**Note**: For methods, receiver matching is exact (e.g., '' @ [CHR 0x22] @ ''*Server'' @ [CHR 0x22]
           @ '' != '' @ [CHR 0x22] @ ''Server'' @ [CHR 0x22] @ '').'',
         [],
         ''**See also**: go_definition for jumping to definitions while reading code.'',
         []]),
      (''go_build_check'', str_join [NL]
        [''Check for compilation and type errors using incremental type checking.'',
         [],
         ''**When to use**: Verifying code correctness after making changes.'',
         [],
         ''**Use this instead of**: Running '' @ [CHR 0x22] @ ''go build'' @ [CHR 0x22]
           @ '' (this is ~500x faster by skipping code generation).'',
         [],
         ''**Output**: Detailed error information with file/line/column.'',
         [],
         ''**Note**: This also populates the workspace cache for faster subsequent tool calls.'',
         []]),
      (''go_search'', str_join [NL]
        [''Find symbols (functions, types, constants) by name with fuzzy matching.'',
         [],
         ''**When to use**: You know part of a symbol'' @ [CHR 0x27]
           @ ''s NAME (identifier) but not the full name or location.'',
         [],
         ''**Critical - This ONLY searches symbol names**:'',
         ''- '' @ [CHR 0xE2, CHR 0x9C, CHR 0x85] @ '' Searches for identifier names: '' @ [CHR 0x22]
           @ ''formatSymbol'' @ [CHR 0x22] @ '', '' @ [CHR 0x22] @ ''Diag'' @ [CHR 0x22] @ '', '' @ [CHR 0x22]
           @ ''Server'' @ [CHR 0x22],
         ''- '' @ [CHR 0xE2, CHR 0x9D, CHR 0x8C] @ '' NOT for code patterns, phrases, or concepts'',
         ''- '' @ [CHR 0xE2, CHR 0x9D, CHR 0x8C] @ '' NOT for signatures like '' @ [CHR 0x22]
           @ ''func PackageDiagnostics'' @ [CHR 0x22],
         ''- '' @ [CHR 0xE2, CHR 0x9D, CHR 0x8C] @ '' NOT for descriptions like '' @ [CHR 0x22]
           @ ''diagnostic deduplicate logic'' @ [CHR 0x22],
         [],
         ''**Use this instead of**: Grep/ripgrep when searching for symbol identifiers by name.'',
         [],
         ''**Output**: Symbol name, kind, file, line. Does NOT include signature/docs/body (use go_definition ''
           @ ''for those).'',
         [],
         ''**Example**: Searching '' @ [CHR 0x22] @ ''formatSymbol'' @ [CHR 0x22]
           @ '' matches formatPackageSymbols, formatPackageSymbolDetail, FormatSymbolSummary.'',
         [],
         ''**See also**: go_definition for full details, go_list_package_symbols for exploring all symbols in ''
           @ ''a package.'',
         []]),
      (''go_symbol_references'', str_join [NL]
        [''Find all usages of a symbol across the codebase.'',
         [],
         ''**When to use**: Before refactoring to assess impact, or understanding how a symbol is used.'',
         [],
         ''**Use this instead of**: Grep + manual file reading for finding references.'',
         [],
         ''**Input**: Use semantic locator (symbol_name + context_file). The context_file is where you see ''
           @ ''the symbol used.'',
         [],
         ''**Output**: Reference locations (file, line, column) plus rich symbol information.'',
         [],
         ''**See also**: go_dryrun_rename_symbol to preview rename operations.'',
         []]),
      (''go_dryrun_rename_symbol'', str_join [NL]
        [''Preview a symbol rename operation across all files (DRY RUN).'',
         [],
         ''**When to use**: Before renaming to see exact changes that will be made.'',
         [],
         ''**Output**: Unified diff showing all proposed modifications.'',
         [],
         ''**Workflow**: Use go_symbol_references first to assess impact, then this to preview changes.'',
         [],
         ''**Note**: This is a dry run - no changes are applied.'',
         []]),
      (''go_implementation'', str_join [NL]
        [''Find all implementations of an interface or all interfaces implemented by a type.'',
         [],
         ''**When to use**: Understanding type hierarchies, finding all implementations of an interface, ''
           @ ''discovering design patterns.'',
         [],
         ''**Use this instead of**: Grep + manual file reading for interface implementations.'',
         [],
         ''**Common pitfalls**:'',
         ''- Standard library interfaces (io.Reader, error, fmt.Stringer) are not supported'',
         ''- context_file should point to the definition, not usage'',
         ''- For methods, set parent_scope to the interface name'',
         ''- Empty result may mean no implementations exist (not an error)'',
         [],
         ''**See also**: go_symbol_references for finding usages.'',
         []]),
      (''go_read_file'', str_join [NL]
        [''Read file content through gopls.'',
         [],
         ''**When to use**: You need to see actual code or implementation details.'',
         [],
         ''**Note**: Unsaved editor changes are not included. This reads from disk.'',
         []]),
      (''go_definition'', str_join [NL]
        [''Jump to the definition of a symbol.'',
         [],
         ''**When to use**: You see a function call or type reference and need to find where it'' @ [CHR 0x27]
           @ ''s defined.'',
         [],
         ''**Use this instead of**: Grep + manual file reading.'',
         [],
         ''**Input**: Use semantic locator (symbol_name + context_file where you see the symbol).'',
         [],
         ''**See also**: go_get_package_symbol_detail for exploring package APIs.'',
         []]),
      (''go_get_call_hierarchy'', str_join [NL]
        [''Get the call hierarchy for a function.'',
         [],
         ''**When to use**: Understanding code flow, debugging call chains, tracing execution paths.'',
         [],
         ''**Use this instead of**: Grep + manual file reading for call graph analysis.'',
         [],
         ''**Direction**: '' @ [CHR 0x22] @ ''incoming'' @ [CHR 0x22] @ '' (what calls this), '' @ [CHR 0x22]
           @ ''outgoing'' @ [CHR 0x22] @ '' (what this calls), or '' @ [CHR 0x22] @ ''both'' @ [CHR 0x22] @ ''.'',
         [],
         ''**See also**: go_symbol_references for finding usages.'',
         []]),
      (''go_analyze_workspace'', str_join [NL]
        [''Analyze the entire workspace to discover packages, entry points, and dependencies.'',
         [],
         ''**When to use**: First encountering a new codebase and want a comprehensive overview.'',
         [],
         ''**Output**: High-level map of packages, entry points, and dependencies.'',
         [],
         ''**See also**: go_get_started for a beginner-friendly guide.'',
         []]),
      (''go_get_started'', str_join [NL]
        [''Get a beginner-friendly guide to start exploring the Go project.'',
         [],
         ''**When to use**: New to a codebase and want to understand where to start.'',
         [],
         ''**Output**: Project identity, quick stats, entry points, package categories, recommended next steps.'',
         []]),
      (''go_get_dependency_graph'', str_join [NL]
        [''Get the dependency graph for a package.'',
         [],
         ''**When to use**: Understanding architectural relationships, analyzing coupling, visualizing the package''
           @ [CHR 0x27] @ ''s place in the codebase.'',
         [],
         ''**Output**: Both dependencies (what it imports) and dependents (what imports it).'',
         [],
         ''**See also**: go_list_modules for understanding module structure.'',
         []]),
      (''go_list_tools'', str_join [NL]
        [''List all available semantic analysis tools with documentation.'',
         [],
         ''**When to use**: Discovering available capabilities before analyzing code.'',
         [],
         ''**Output**: Complete tool catalog with names, descriptions, and usage examples.'',
         [],
         ''**Note**: Use this to discover what'' @ [CHR 0x27]
           @ ''s available rather than falling back to text-based search.'',
         []])]"

text \<open>\<open>Docs\<close> panics for a tool without documentation.\<close>

definition Docs :: "tool \<Rightarrow> (string, string) outcome" where
  "Docs t = (case map_of docMap (tl_Name t) of Some d \<Rightarrow> Ok d | None \<Rightarrow> Panic)"

section \<open>Registration\<close>

definition defaultMaxResponseBytes :: int where
  "defaultMaxResponseBytes = 32 * 1024"

definition max_bytes :: "int \<Rightarrow> int" where
  "max_bytes configured = (if configured = 0 then defaultMaxResponseBytes else configured)"

text \<open>The wrapped handler: \<open>run\<close> is what the handler answers, content and output.\<close>

definition wrapped :: "(string \<Rightarrow> unmarshalled) \<Rightarrow> int \<Rightarrow> string \<Rightarrow> (string, content list option \<times> 'out) outcome \<Rightarrow>
    (string, content list option \<times> 'out) outcome" where
  "wrapped Unmarshal configured name run =
     bind_outcome run (\<lambda>(result, output).
       case result of
         None \<Rightarrow> Ok (None, output)
       | Some _ \<Rightarrow>
           (case applyResponseLimits Unmarshal result (max_bytes configured) name of
              Ok limited \<Rightarrow> Ok (limited, output)
            | _ \<Rightarrow> Panic))"

text \<open>The names that \<open>RegisterTools\<close> adds to the server, in this order.\<close>

definition RegisterTools :: "string list" where
  "RegisterTools = ''go_list_tools'' # map tl_Name tools"

section \<open>Generated references\<close>

definition reference_header :: string where
  "reference_header = str_join [NL]
     [''---'',
      ''title: Reference'',
      ''sidebar:'',
      ''  order: 1'',
      ''---'',
      [],
      ''## About These Tools'',
      [],
      ''The gopls-mcp server provides **semantic analysis tools** powered by gopls (the Go language server).'',
      ''These tools are type-aware, fast, and token-efficient compared to text-based alternatives like grep.'',
      [],
      ''### Why Use Semantic Tools?'',
      [],
      ''| Approach | Problem | Solution |'',
      ''|----------|---------|----------|'',
      ''| grep/ripgrep | Text matching, no semantic understanding | Semantic tools understand types, scopes, ''
        @ ''and interfaces |'',
      ''| Manual file reading | High token cost, attention dilution | Targeted queries return only what you need |'',
      ''| go build | Slow code generation | Incremental type checking (~500x faster) |'',
      [],
      ''### Key Concepts'',
      [],
      ''- **Symbol Locator**: Most tools use symbol_name + context_file to identify symbols semantically'',
      ''- **JSON Schema**: Each tool'' @ [CHR 0x27]
        @ ''s input schema is available via the MCP protocol (not duplicated here)'',
      ''- **Tool Relationships**: Tools cross-reference each other - see '' @ [CHR 0x22] @ ''See also'' @ [CHR 0x22]
        @ '' sections'',
      [],
      ''---'',
      [],
      []]"

fun write_tools :: "tool list \<Rightarrow> (string, string) outcome" where
  "write_tools [] = Ok []"
| "write_tools (t # ts) =
     bind_outcome (Docs t) (\<lambda>docs. bind_outcome (write_tools ts) (\<lambda>rest.
       Ok (''### '' @ [CHR 0x60] @ tl_Name t @ [CHR 0x60, NL, NL] @ ''> '' @ tl_Description t @ [NL, NL] @ docs @ [NL, NL] @ rest)))"

definition GenerateReference :: "(string, string) outcome" where
  "GenerateReference = bind_outcome (write_tools tools) (\<lambda>body. Ok (reference_header @ body))"

definition UpdateReference :: "string \<Rightarrow> (string, string) outcome" where
  "UpdateReference content = GenerateReference"

text \<open>The name between the first two backquotes of a list item.\<close>

definition item_reference :: "string \<Rightarrow> string" where
  "item_reference line0 =
     (let line = TrimSpace line0
      in if has_prefix line ''- '' \<or> has_prefix line ''*'' then
           (case index_byte line (CHR 0x60) of
              None \<Rightarrow> []
            | Some idx \<Rightarrow>
                (case index_byte (drop (idx + 1) line) (CHR 0x60) of
                   None \<Rightarrow> []
                 | Some endIdx \<Rightarrow>
                     ''  - See: '' @ [CHR 0x60] @ Go_Prelude.slice (idx + 1) (idx + 1 + endIdx) line @ [CHR 0x60, NL]))
         else [])"

definition see_also :: "string \<Rightarrow> string" where
  "see_also docs =
     (case str_index docs ''**See also**'' of
        None \<Rightarrow> []
      | Some idx \<Rightarrow> concat (map item_reference (split_byte NL (drop idx docs))))"

definition one_liner :: "string \<Rightarrow> string" where
  "one_liner description =
     (let oneLiner = TrimSpace (hd (split_byte (CHR ''.'') description))
      in if has_suffix oneLiner ''.'' then oneLiner else oneLiner @ ''.'')"

definition writeToolEntry :: "string \<Rightarrow> (string, string) outcome" where
  "writeToolEntry toolName =
     (case List.find (\<lambda>t. tl_Name t = toolName) tools of
        None \<Rightarrow> Ok []
      | Some t \<Rightarrow>
          bind_outcome (Docs t) (\<lambda>docs.
            Ok (''- **'' @ tl_Name t @ ''**: '' @ one_liner (tl_Description t) @ [NL] @ see_also docs @ [NL])))"

fun write_entries :: "string list \<Rightarrow> (string, string) outcome" where
  "write_entries [] = Ok []"
| "write_entries (n # ns) =
     bind_outcome (writeToolEntry n) (\<lambda>e. bind_outcome (write_entries ns) (\<lambda>rest. Ok (e @ rest)))"

definition claude_sections :: "(string \<times> string list) list" where
  "claude_sections =
     [(''Discovery & Navigation'', [''go_get_started'', ''go_analyze_workspace'', ''go_list_modules'', ''go_list_module_packages'',
         ''go_list_package_symbols'', ''go_search'']),
      (''Reading & Understanding'', [''go_definition'', ''go_symbol_references'', ''go_implementation'', ''go_read_file'',
         ''go_get_package_symbol_detail'', ''go_get_call_hierarchy'']),
      (''Analysis & Refactoring'', [''go_get_dependency_graph'', ''go_dryrun_rename_symbol'']),
      (''Verification'', [''go_build_check'']),
      (''Meta'', [''go_list_tools''])]"

fun write_sections :: "(string \<times> string list) list \<Rightarrow> (string, string) outcome" where
  "write_sections [] = Ok []"
| "write_sections ((title, names) # ss) =
     bind_outcome (write_entries names) (\<lambda>es. bind_outcome (write_sections ss) (\<lambda>rest.
       Ok (''### '' @ title @ [NL, NL] @ es @ rest)))"

definition GenerateCLAUDEToolReference :: "(string, string) outcome" where
  "GenerateCLAUDEToolReference = write_sections claude_sections"

text \<open>\<open>generate.go\<close>: the section between the markers of a file.\<close>

definition autoGenStartMarker :: string where
  "autoGenStartMarker = ''<!-- Marker: AUTO-GEN-START -->''"

definition autoGenEndMarker :: string where
  "autoGenEndMarker = ''<!-- Marker: AUTO-GEN-END -->''"

definition replaceBetweenMarkers :: "string \<Rightarrow> string \<Rightarrow> (string, string) outcome" where
  "replaceBetweenMarkers content newContent =
     (case str_index content autoGenStartMarker of
        None \<Rightarrow> Panic
      | Some startIdx \<Rightarrow>
          (case str_index content autoGenEndMarker of
             None \<Rightarrow> Panic
           | Some endIdx \<Rightarrow>
               if startIdx \<ge> endIdx then Panic
               else Ok (take startIdx content @ autoGenStartMarker @ [NL] @ newContent @ [NL] @ autoGenEndMarker
                 @ drop (endIdx + length autoGenEndMarker) content)))"

section \<open>Categories and schemas\<close>

definition categorizeTool :: "string \<Rightarrow> string" where
  "categorizeTool name =
     (if name = ''go_list_tools'' then ''meta''
      else if name = ''get_go_env'' then ''environment''
      else if name \<in> {''go_build_check'', ''go_analyze_workspace'', ''go_get_dependency_graph''} then ''analysis''
      else if name \<in> {''go_search'', ''go_symbol_references'', ''go_implementation'', ''go_definition'', ''go_get_call_hierarchy''}
      then ''navigation''
      else if name = ''go_dryrun_rename_symbol'' then ''refactoring''
      else if has_prefix name ''list_'' \<or> has_prefix name ''fetch_'' \<or> has_prefix name ''go_list_''
        \<or> name \<in> {''go_get_package_symbol_detail'', ''go_read_file'', ''go_get_started''} then ''information''
      else ''other'')"

text \<open>A property with its type and description, and an object with its properties.\<close>

definition field :: "string \<Rightarrow> string \<Rightarrow> json" where
  "field t d = JObj [(''type'', JStr t), (''description'', JStr d)]"

definition objects :: "string \<Rightarrow> json" where
  "objects d = JObj [(''type'', JStr ''array''), (''items'', JObj [(''type'', JStr ''object'')]), (''description'', JStr d)]"

definition object :: "(string \<times> json) list \<Rightarrow> json" where
  "object props = JObj [(''type'', JStr ''object''), (''properties'', JObj props)]"

definition getToolSchemas :: "string \<Rightarrow> (string \<times> json) list" where
  "getToolSchemas name =
     (if name = ''get_go_env'' then
        [(''input'', object []),
         (''output'', object [(''version'', field ''string'' ''Go version''), (''goroot'', field ''string'' ''GOROOT path''),
            (''gobin'', field ''string'' ''GOBIN path'')])]
      else if name = ''list_stdlib_packages'' then
        [(''input'', object [(''include_symbols'', field ''boolean'' ''Include exported symbols'')]),
         (''output'', object [(''packages'', field ''array'' ''Standard library packages'')])]
      else if name = ''go_get_package_symbol_detail'' then
        [(''input'', object [(''package_path'', field ''string'' ''Go package import path''),
            (''symbol_filters'', objects ''Filters for specific symbols (REQUIRED)''),
            (''include_docs'', field ''boolean'' ''Include symbol documentation''),
            (''include_bodies'', field ''boolean'' ''Include function implementations''),
            (''Cwd'', field ''string'' ''Working directory for package resolution'')]),
         (''output'', object [(''symbols'', objects ''Matching symbols with details'')])]
      else if name = ''go_search'' then
        [(''input'', object [(''query'', field ''string'' ''Search query (fuzzy matching)'')]),
         (''output'', object [(''results'', field ''array'' ''Matching symbols'')])]
      else if name = ''go_implementation'' then
        [(''input'', object [(''file'', field ''string'' ''File path''), (''line'', field ''integer'' ''Line number (1-indexed)''),
            (''column'', field ''integer'' ''Column number (1-indexed, UTF-16)'')]),
         (''output'', object [(''locations'', field ''array'' ''Implementation locations'')])]
      else if name = ''go_read_file'' then
        [(''input'', object [(''file'', field ''string'' ''File path''),
            (''max_bytes'', field ''integer'' ''Maximum bytes to return (0 = unlimited)''),
            (''max_lines'', field ''integer'' ''Maximum lines to return (0 = unlimited)''),
            (''offset'', field ''integer'' ''Starting line number (1-indexed, default: 1)'')]),
         (''output'', object [(''content'', field ''string'' ''File content from disk'')])]
      else if name = ''go_list_tools'' then
        [(''input'', object [(''includeInputSchema'', field ''boolean'' ''Include input schemas''),
            (''includeOutputSchema'', field ''boolean'' ''Include output schemas'')]),
         (''output'', object [(''tools'', field ''array'' ''Tool documentation'')])]
      else
        [(''input'', field ''object'' ''Tool-specific input parameters''), (''output'', field ''object'' ''Tool-specific output'')])"

section \<open>go_list_tools\<close>

record IListToolsParams =
  il_IncludeInputSchema :: bool
  il_IncludeOutputSchema :: bool
  il_CategoryFilter :: string

record ToolDocumentation =
  td_Name :: string
  td_Description :: string
  td_InputSchema :: "json option"
  td_OutputSchema :: "json option"
  td_Category :: string

record OListToolsResult =
  ot_Tools :: "ToolDocumentation list"
  ot_Count :: nat
  ot_Summary :: string

definition tool_doc :: "IListToolsParams \<Rightarrow> tool \<Rightarrow> ToolDocumentation" where
  "tool_doc input t =
     \<lparr>td_Name = tl_Name t, td_Description = tl_Description t,
      td_InputSchema = (if il_IncludeInputSchema input then map_of (getToolSchemas (tl_Name t)) ''input'' else None),
      td_OutputSchema = (if il_IncludeOutputSchema input then map_of (getToolSchemas (tl_Name t)) ''output'' else None),
      td_Category = categorizeTool (tl_Name t)\<rparr>"

definition categoryOrder :: "string list" where
  "categoryOrder = [''meta'', ''environment'', ''analysis'', ''navigation'', ''refactoring'', ''information'']"

text \<open>\<open>strings.ToTitle\<close> of a word of ASCII letters.\<close>

definition title_char :: "char \<Rightarrow> char" where
  "title_char c = (let n = of_char c :: nat in if 97 \<le> n \<and> n \<le> 122 then char_of (n - 32) else c)"

definition category_names :: "ToolDocumentation list \<Rightarrow> string \<Rightarrow> string list" where
  "category_names docs cat = map td_Name (filter (\<lambda>d. td_Category d = cat) docs)"

definition category_text :: "ToolDocumentation list \<Rightarrow> string \<Rightarrow> string" where
  "category_text docs cat =
     (let names = category_names docs cat
      in if names = [] then []
         else map title_char cat @ '':'' @ [NL] @ concat (map (\<lambda>n. ''  - '' @ n @ [NL]) names) @ [NL])"

definition handleListTools :: "IListToolsParams \<Rightarrow> OListToolsResult" where
  "handleListTools input =
     (let docs = map (tool_doc input)
            (filter (\<lambda>t. il_CategoryFilter input = [] \<or> categorizeTool (tl_Name t) = il_CategoryFilter input) tools)
      in \<lparr>ot_Tools = docs, ot_Count = length docs,
          ot_Summary = ''gopls-mcp provides '' @ itoa (length docs) @ '' tools for Go project analysis'' @ [NL, NL]
            @ concat (map (category_text docs) categoryOrder)
            @ ''Use this tool with includeInputSchema=true and includeOutputSchema=true'' @ [NL]
            @ ''to get detailed parameter schemas for each tool.''\<rparr>)"


section \<open>What is registered, documented and shown\<close>

lemma tool_names:
  "map tl_Name tools = [''go_list_modules'', ''go_list_module_packages'', ''go_list_package_symbols'', ''go_get_package_symbol_detail'',
     ''go_build_check'', ''go_search'', ''go_symbol_references'', ''go_dryrun_rename_symbol'', ''go_implementation'', ''go_read_file'',
     ''go_definition'', ''go_get_call_hierarchy'', ''go_analyze_workspace'', ''go_get_started'', ''go_get_dependency_graph'']"
  by (simp add: tools_def)

lemma doc_names:
  "map fst docMap = [''go_list_modules'', ''go_list_module_packages'', ''go_list_package_symbols'', ''go_get_package_symbol_detail'',
     ''go_build_check'', ''go_search'', ''go_symbol_references'', ''go_dryrun_rename_symbol'', ''go_implementation'', ''go_read_file'',
     ''go_definition'', ''go_get_call_hierarchy'', ''go_analyze_workspace'', ''go_get_started'', ''go_get_dependency_graph'', ''go_list_tools'']"
  by (simp add: docMap_def)

fun free_of :: "char \<Rightarrow> string \<Rightarrow> bool" where
  "free_of c [] = True"
| "free_of c (x # xs) = (x \<noteq> c \<and> free_of c xs)"

lemma free_of_iff: "free_of c s \<longleftrightarrow> c \<notin> set s"
  by (induction s) auto

lemma free_of_append: "free_of c (a @ b) \<longleftrightarrow> free_of c a \<and> free_of c b"
  by (induction a) auto

lemma free_of_join: "free_of c sep \<Longrightarrow> free_of c (str_join sep xs) \<longleftrightarrow> list_all (free_of c) xs"
  by (induction sep xs rule: str_join.induct) (auto simp: free_of_append)

text \<open>No documentation has a backquote, because a raw string of Go cannot.\<close>

lemma docs_no_backquote: "list_all (\<lambda>p. free_of (CHR 0x60) (snd p)) docMap"
  unfolding docMap_def by (simp only: list.pred_inject free_of_join free_of.simps free_of_append snd_conv char.inject simp_thms)

lemma set_trim_space_right: "set (trim_space_right s) \<subseteq> set s"
proof (induction s rule: trim_space_right.induct)
  case (1 s)
  then show ?case by (subst trim_space_right.simps) (auto dest: in_set_takeD)
qed

lemma set_TrimSpace: "set (TrimSpace s) \<subseteq> set s"
  unfolding TrimSpace_def using set_trim_space_right set_drop_subset by fastforce

lemma index_byte_absent: "c \<notin> set s \<Longrightarrow> index_byte s c = None"
  by (induction s c rule: index_byte.induct) auto

lemma item_reference_plain: "CHR 0x60 \<notin> set line \<Longrightarrow> item_reference line = []"
proof -
  assume "CHR 0x60 \<notin> set line"
  then have "CHR 0x60 \<notin> set (TrimSpace line)" using set_TrimSpace by blast
  then have "index_byte (TrimSpace line) (CHR 0x60) = None" by (rule index_byte_absent)
  then show ?thesis by (simp add: item_reference_def Let_def)
qed

lemma see_also_plain:
  assumes "CHR 0x60 \<notin> set docs"
  shows "see_also docs = []"
proof (cases "str_index docs ''**See also**''")
  case (Some i)
  have "item_reference l = []" if "l \<in> set (split_byte NL (drop i docs))" for l
    using split_byte_part [OF that] assms set_drop_subset [of i docs] by (intro item_reference_plain) auto
  then show ?thesis using Some by (simp add: see_also_def)
qed (simp add: see_also_def)

text \<open>The lines of a tool in the reference of \<open>CLAUDE.md\<close>.\<close>

definition short_entry :: "tool \<Rightarrow> string" where
  "short_entry t = ''- **'' @ tl_Name t @ ''**: '' @ one_liner (tl_Description t) @ [NL, NL]"

lemma tool_has_docs:
  assumes "t \<in> set tools"
  obtains d where "Docs t = Ok d" "see_also d = []"
proof -
  have "tl_Name t \<in> set (map tl_Name tools)" using assms by simp
  then have "tl_Name t \<in> set (map fst docMap)" unfolding tool_names doc_names by auto
  then obtain d where d: "map_of docMap (tl_Name t) = Some d"
    by (metis list.set_map map_of_eq_None_iff not_None_eq)
  then have "d \<in> set (map snd docMap)" by (metis image_eqI list.set_map map_of_SomeD snd_conv)
  then show thesis using that d see_also_plain docs_no_backquote by (auto simp: Docs_def list_all_iff free_of_iff)
qed

lemma writeToolEntry_find:
  "writeToolEntry n = Ok (case List.find (\<lambda>t. tl_Name t = n) tools of None \<Rightarrow> [] | Some t \<Rightarrow> short_entry t)"
proof (cases "List.find (\<lambda>t. tl_Name t = n) tools")
  case (Some t)
  then have "t \<in> set tools" by (auto simp: find_Some_iff)
  then obtain d where "Docs t = Ok d" "see_also d = []" by (rule tool_has_docs)
  then show ?thesis using Some by (simp add: writeToolEntry_def short_entry_def)
qed (simp add: writeToolEntry_def)

lemma write_entries_concat:
  "\<forall>n. writeToolEntry n = Ok (e n) \<Longrightarrow> write_entries ns = Ok (concat (map e ns))"
  by (induction ns) auto

text \<open>One section, with \<open>e\<close> as the entry of a tool.\<close>

definition section_text :: "(string \<Rightarrow> string) \<Rightarrow> string \<times> string list \<Rightarrow> string" where
  "section_text e = (\<lambda>(title, names). ''### '' @ title @ [NL, NL] @ concat (map e names))"

lemma write_sections_concat:
  assumes "\<forall>n. writeToolEntry n = Ok (e n)"
  shows "write_sections ss = Ok (concat (map (section_text e) ss))"
proof (induction ss rule: write_sections.induct)
  case (2 title names ss)
  show ?case
    unfolding write_sections.simps write_entries_concat [OF assms] 2 bind_outcome.simps by (simp add: section_text_def)
qed simp

lemma find_tools:
  "map (\<lambda>n. List.find (\<lambda>t. tl_Name t = n) tools) (map tl_Name tools) = map Some tools"
  "List.find (\<lambda>t. tl_Name t = ''go_list_tools'') tools = None"
proof -
  have d: "distinct (map tl_Name tools)" unfolding tool_names by simp
  have "List.find (\<lambda>t. tl_Name t = tl_Name u) ts = Some u" if "u \<in> set ts" "distinct (map tl_Name ts)" for u and ts :: "tool list"
    using that by (induction ts) force+
  then show "map (\<lambda>n. List.find (\<lambda>t. tl_Name t = n) tools) (map tl_Name tools) = map Some tools"
    using d by simp
  have "''go_list_tools'' \<notin> set (map tl_Name tools)" unfolding tool_names by simp
  then show "List.find (\<lambda>t. tl_Name t = ''go_list_tools'') tools = None"
    unfolding find_None_iff by (metis image_eqI list.set_map)
qed

lemma sections_cover:
  "distinct (concat (map snd claude_sections)) \<and> set (concat (map snd claude_sections)) = set RegisterTools"
proof
  show "distinct (concat (map snd claude_sections))" by (simp add: claude_sections_def)
  have "set (concat (map snd claude_sections)) \<subseteq> set RegisterTools"
    unfolding RegisterTools_def tool_names by (simp add: claude_sections_def)
  moreover have "set RegisterTools \<subseteq> set (concat (map snd claude_sections))"
    unfolding RegisterTools_def tool_names by (simp add: claude_sections_def)
  ultimately show "set (concat (map snd claude_sections)) = set RegisterTools" by (rule subset_antisym)
qed

text \<open>The tool reference for CLAUDE.md has every registered tool, each in exactly one of its five sections,
  as one bullet with the first sentence of its description and without cross references; only \<open>go_list_tools\<close>,
  which is registered apart from the list, leaves no entry below its heading.\<close>

theorem claude_reference_complete:
  "\<exists>entry. GenerateCLAUDEToolReference = Ok (concat (map (section_text entry) claude_sections))
     \<and> map entry RegisterTools = [] # map (\<lambda>t. ''- **'' @ tl_Name t @ ''**: '' @ one_liner (tl_Description t) @ [NL, NL]) tools
     \<and> distinct (concat (map snd claude_sections)) \<and> set (concat (map snd claude_sections)) = set RegisterTools"
proof -
  define entry where "entry = (\<lambda>n. case List.find (\<lambda>t. tl_Name t = n) tools of None \<Rightarrow> [] | Some t \<Rightarrow> short_entry t)"
  have a: "GenerateCLAUDEToolReference = Ok (concat (map (section_text entry) claude_sections))"
    unfolding GenerateCLAUDEToolReference_def
    by (rule write_sections_concat) (simp add: writeToolEntry_find entry_def)
  have "map entry (map tl_Name tools) = map short_entry tools"
    using arg_cong [OF find_tools(1), of "map (\<lambda>r. case r of None \<Rightarrow> [] | Some t \<Rightarrow> short_entry t)"]
    by (simp add: entry_def comp_def)
  then have b: "map entry RegisterTools = [] # map (\<lambda>t. ''- **'' @ tl_Name t @ ''**: '' @ one_liner (tl_Description t) @ [NL, NL]) tools"
    unfolding RegisterTools_def using find_tools(2) by (simp add: entry_def short_entry_def [abs_def])
  show ?thesis by (rule exI [of _ entry]) (intro conjI a b sections_cover [THEN conjunct1] sections_cover [THEN conjunct2])
qed

section \<open>The listing\<close>

lemma categories: "map (categorizeTool \<circ> tl_Name) tools =
   [''information'', ''information'', ''information'', ''information'', ''analysis'', ''navigation'', ''navigation'', ''refactoring'',
    ''navigation'', ''information'', ''navigation'', ''navigation'', ''analysis'', ''information'', ''analysis'']"
  unfolding list.map_comp [symmetric] tool_names by (simp add: categorizeTool_def has_prefix_def)

lemma schema_keys: "map fst (getToolSchemas name) = [''input'', ''output'']"
  by (simp add: getToolSchemas_def)

lemma schemas_present: "map_of (getToolSchemas name) ''input'' \<noteq> None \<and> map_of (getToolSchemas name) ''output'' \<noteq> None"
  using schema_keys [of name] by (metis insertCI list.set(2) list.set_map map_of_eq_None_iff)

lemma tool_category: "t \<in> set tools \<Longrightarrow> categorizeTool (tl_Name t) \<in> set categoryOrder"
proof -
  assume "t \<in> set tools"
  then have "categorizeTool (tl_Name t) \<in> set (map (categorizeTool \<circ> tl_Name) tools)" by simp
  then show ?thesis unfolding categories by (auto simp: categoryOrder_def)
qed

text \<open>Grouping by a list of distinct categories that covers all of them permutes the tools.\<close>

lemma grouped_names:
  "distinct cats \<Longrightarrow> td_Category ` set docs \<subseteq> set cats \<Longrightarrow>
   mset (concat (map (category_names docs) cats)) = mset (map td_Name docs)"
proof (induction cats arbitrary: docs)
  case (Cons c cats)
  let ?rest = "filter (\<lambda>d. td_Category d \<noteq> c) docs"
  have "category_names docs k = category_names ?rest k" if "k \<in> set cats" for k
    using that Cons.prems(1) by (auto simp: category_names_def intro!: arg_cong [of _ _ "map td_Name"] filter_cong)
  then have "concat (map (category_names docs) cats) = concat (map (category_names ?rest) cats)"
    by (metis map_cong)
  moreover have "mset (concat (map (category_names ?rest) cats)) = mset (map td_Name ?rest)"
    using Cons.prems by (intro Cons.IH) auto
  moreover have "mset (map td_Name docs) = mset (category_names docs c) + mset (map td_Name ?rest)"
    unfolding category_names_def by (induction docs) auto
  ultimately show ?case by simp
qed (simp add: category_names_def)

text \<open>\<open>go_list_tools\<close> lists the registered tools of the asked category in the order of registration, never itself;
  the count is their number; a schema is present for all of them or for none, as asked for; and the summary, which goes
  through six categories, names each listed tool exactly once, under its category.\<close>

theorem list_tools_spec:
  "map td_Name (ot_Tools (handleListTools input)) =
     filter (\<lambda>n. il_CategoryFilter input = [] \<or> categorizeTool n = il_CategoryFilter input) (map tl_Name tools)
   \<and> ''go_list_tools'' \<notin> set (map td_Name (ot_Tools (handleListTools input)))
   \<and> ot_Count (handleListTools input) = length (ot_Tools (handleListTools input))
   \<and> map td_Category (ot_Tools (handleListTools input)) = map categorizeTool (map td_Name (ot_Tools (handleListTools input)))
   \<and> map (\<lambda>d. td_InputSchema d \<noteq> None) (ot_Tools (handleListTools input))
       = replicate (ot_Count (handleListTools input)) (il_IncludeInputSchema input)
   \<and> map (\<lambda>d. td_OutputSchema d \<noteq> None) (ot_Tools (handleListTools input))
       = replicate (ot_Count (handleListTools input)) (il_IncludeOutputSchema input)
   \<and> mset (concat (map (category_names (ot_Tools (handleListTools input))) categoryOrder))
       = mset (map td_Name (ot_Tools (handleListTools input)))"
proof -
  define chosen where "chosen = filter (\<lambda>t. il_CategoryFilter input = [] \<or> categorizeTool (tl_Name t) = il_CategoryFilter input) tools"
  have docs: "ot_Tools (handleListTools input) = map (tool_doc input) chosen" "ot_Count (handleListTools input) = length chosen"
    by (simp_all only: handleListTools_def Let_def OListToolsResult.simps chosen_def length_map)
  have name: "td_Name (tool_doc input t) = tl_Name t" and cat: "td_Category (tool_doc input t) = categorizeTool (tl_Name t)" for t
    by (simp_all add: tool_doc_def)
  have names: "map td_Name (ot_Tools (handleListTools input)) = map tl_Name chosen" by (simp add: docs name)
  have sub: "set chosen \<subseteq> set tools" by (auto simp: chosen_def)
  have in_schema: "(td_InputSchema (tool_doc input t) \<noteq> None) = il_IncludeInputSchema input" for t
    using schemas_present [of "tl_Name t"] by (simp add: tool_doc_def)
  have out_schema: "(td_OutputSchema (tool_doc input t) \<noteq> None) = il_IncludeOutputSchema input" for t
    using schemas_present [of "tl_Name t"] by (simp add: tool_doc_def)
  show ?thesis
  proof (intro conjI)
    show "map td_Name (ot_Tools (handleListTools input)) =
        filter (\<lambda>n. il_CategoryFilter input = [] \<or> categorizeTool n = il_CategoryFilter input) (map tl_Name tools)"
      unfolding names chosen_def filter_map by (simp add: comp_def)
    have "''go_list_tools'' \<notin> set (map tl_Name tools)" unfolding tool_names by simp
    then show "''go_list_tools'' \<notin> set (map td_Name (ot_Tools (handleListTools input)))"
      unfolding names using sub by auto
    show "mset (concat (map (category_names (ot_Tools (handleListTools input))) categoryOrder))
        = mset (map td_Name (ot_Tools (handleListTools input)))"
    proof (rule grouped_names)
      show "distinct categoryOrder" by (simp add: categoryOrder_def)
      show "td_Category ` set (ot_Tools (handleListTools input)) \<subseteq> set categoryOrder"
        using sub tool_category unfolding docs by (force simp only: cat list.set_map)
    qed
    show "map (\<lambda>d. td_InputSchema d \<noteq> None) (ot_Tools (handleListTools input))
        = replicate (ot_Count (handleListTools input)) (il_IncludeInputSchema input)"
      unfolding docs map_map comp_def in_schema by (rule map_replicate_const)
    show "map (\<lambda>d. td_OutputSchema d \<noteq> None) (ot_Tools (handleListTools input))
        = replicate (ot_Count (handleListTools input)) (il_IncludeOutputSchema input)"
      unfolding docs map_map comp_def out_schema by (rule map_replicate_const)
  qed (simp_all add: docs name cat)
qed

text \<open>No listed tool has the category \<open>meta\<close> or \<open>environment\<close>: those two headings of the summary are never written.\<close>

lemma headings_never_written:
  "category_text (ot_Tools (handleListTools input)) ''meta'' = [] \<and> category_text (ot_Tools (handleListTools input)) ''environment'' = []"
proof -
  have "categorizeTool (tl_Name t) \<notin> {''meta'', ''environment''}" if "t \<in> set tools" for t
  proof -
    have "categorizeTool (tl_Name t) \<in> set (map (categorizeTool \<circ> tl_Name) tools)" using that by simp
    then show ?thesis unfolding categories by auto
  qed
  then have "category_names (ot_Tools (handleListTools input)) c = []" if "c \<in> {''meta'', ''environment''}" for c
    using that by (auto simp: category_names_def handleListTools_def Let_def tool_doc_def filter_empty_conv)
  then show ?thesis by (simp add: category_text_def)
qed

text \<open>With the default limit and any other, a handler that fails passes its error on, and one without content is not limited.\<close>

lemma wrapped_error: "wrapped U n name (Err e) = Err e" "wrapped U n name (Ok (None, output)) = Ok (None, output)"
  by (simp_all add: wrapped_def)

lemma max_bytes_nonneg: "0 \<le> configured \<Longrightarrow> 0 \<le> max_bytes configured"
  by (simp add: max_bytes_def defaultMaxResponseBytes_def)

text \<open>Claim C40: a registered tool answers whenever its handler does: with a limit that is not negative the wrapper of
  \<open>RegisterTools\<close> never panics, passes the error of a handler and an answer without content on, keeps the output, and
  changes no content that fits.\<close>

theorem wrapped_total:
  assumes "0 \<le> configured"
  shows "(wrapped U configured name run = Panic \<longleftrightarrow> run = Panic)
    \<and> (\<forall>e. wrapped U configured name run = Err e \<longleftrightarrow> run = Err e)
    \<and> (\<forall>out. wrapped U configured name run = Ok (None, out) \<longleftrightarrow> run = Ok (None, out))
    \<and> (\<forall>cs out. run = Ok (Some cs, out) \<longrightarrow> (\<exists>cs'. wrapped U configured name run = Ok (Some cs', out)
         \<and> (estimateResultSize cs \<le> max_bytes configured \<longrightarrow> cs' = cs)))"
proof (cases run)
  case (Ok answer)
  obtain result out where a: "answer = (result, out)" by (cases answer)
  show ?thesis
  proof (cases result)
    case (Some cs)
    obtain cs' where "applyResponseLimits U (Some cs) (max_bytes configured) name = Ok (Some cs')"
      "estimateResultSize cs \<le> max_bytes configured \<longrightarrow> cs' = cs"
      using applyResponseLimits_total [OF max_bytes_nonneg [OF assms]] by blast
    then show ?thesis by (simp add: Ok a Some wrapped_def)
  qed (simp add: Ok a wrapped_def)
qed (simp_all add: wrapped_def)

lemma wrapped_total_witness:
  "\<exists>cs'. wrapped (\<lambda>_. NotAnObject) 0 ''go_search'' (Ok (Some [TextContent ''found''], ())) = Ok (Some cs', ()) \<and> cs' = [TextContent ''found'']"
proof -
  have "estimateResultSize [TextContent ''found''] \<le> max_bytes 0"
    by (simp add: estimateResultSize_def max_bytes_def defaultMaxResponseBytes_def)
  then show ?thesis
    using wrapped_total [of 0 "\<lambda>_. NotAnObject" "''go_search''" "Ok (Some [TextContent ''found''], ())"] by blast
qed

text \<open>A negative limit is accepted from a configuration file; then a text that is no JSON object makes the tool panic.\<close>

lemma negative_limit_panics:
  assumes "configured < 0" "U t = NotAnObject"
  shows "wrapped U configured name (Ok (Some [TextContent t], out)) = Panic"
proof -
  have "max_bytes configured = configured" "\<not> int (length t) \<le> configured" using assms(1) by (simp_all add: max_bytes_def)
  then show ?thesis
    using assms by (simp add: wrapped_def applyResponseLimits_def estimateResultSize_def truncateText_def hard_truncate_def)
qed

end
