(* ===== verification/Settings.thy ===== *)
theory Settings
  imports Path_Filter "HOL-Library.Multiset" "HOL-Library.AList"
begin

text \<open>
  The settings of gopls (\<open>internal/settings/settings.go\<close>): the options with their fields, the setters, \<open>setOne\<close> for one
  setting, and \<open>Set\<close>, which applies an object of settings in the order in which Go happens to iterate over it.
  Only the fields that a setting writes are kept, in the nesting of the source's structs.
\<close>

section \<open>Values\<close>

text \<open>The dynamic values a setting can have; a map is the list of its entries in the order of iteration.\<close>

datatype go_any =
    NilV
  | BoolV bool
  | IntV int
  | FloatV string
  | StrV string
  | SliceV "go_any list"
  | MapV "(string \<times> go_any) list"

datatype set_error =
    InvalidType go_any
  | InvalidElement go_any
  | InvalidField go_any string
  | InvalidMapValue go_any
  | InvalidFilter string
  | InvalidLinks go_any
  | InvalidOption string
  | LegacyAnnotation string
  | BadDuration string
  | UnexpectedSetting
  | SoftError string

fun soft :: "set_error option \<Rightarrow> bool" where
  "soft (Some (SoftError m)) = True"
| "soft _ = False"

type_synonym CounterPath = "string list"
type_synonym Duration = int

section \<open>The options\<close>

record BuildOptions =
  BuildFlags :: "string list"
  Env :: "(string \<rightharpoonup> string) option"
  DirectoryFilters :: "string list"
  TemplateExtensions :: "string list"
  ExpandWorkspaceToModule :: bool
  StandaloneTags :: "string list"
  WorkspaceFiles :: "string list"

record DocumentationOptions =
  HoverKind :: string
  LinkTarget :: string
  LinksInHover :: nat

record CompletionOptions =
  UsePlaceholders :: bool
  CompletionBudget :: Duration
  Matcher :: string
  ExperimentalPostfixCompletions :: bool
  CompleteFunctionCalls :: bool

record NavigationOptions =
  ImportShortcut :: string
  SymbolMatcher :: string
  SymbolStyle :: string
  SymbolScope :: string

record DiagnosticOptions =
  Analyses :: "string \<rightharpoonup> bool"
  Staticcheck :: bool
  StaticcheckProvided :: bool
  Annotations :: "string \<rightharpoonup> bool"
  Vulncheck :: string
  DiagnosticsDelay :: Duration
  DiagnosticsTrigger :: string
  AnalysisProgressReporting :: bool

record UIOptions =
  ui_Documentation :: DocumentationOptions
  ui_Completion :: CompletionOptions
  ui_Navigation :: NavigationOptions
  ui_Diagnostic :: DiagnosticOptions
  Hints :: "string \<rightharpoonup> bool"
  Codelenses :: "string \<rightharpoonup> bool"
  SemanticTokens :: bool
  NoSemanticString :: bool
  NoSemanticNumber :: bool
  SemanticTokenTypes :: "string \<rightharpoonup> bool"
  SemanticTokenModifiers :: "string \<rightharpoonup> bool"
  NewGoFileHeader :: bool
  RenameMovesSubpackages :: bool

record UserOptions =
  u_Build :: BuildOptions
  u_UI :: UIOptions
  Local :: string
  Gofumpt :: bool
  VerboseOutput :: bool

record InternalOptions =
  MCPTools :: "string \<rightharpoonup> bool"
  VerboseWorkDoneProgress :: bool
  CompletionDocumentation :: bool
  CompleteUnimported :: bool
  DeepCompletion :: bool
  ShowBugReports :: bool
  SubdirWatchPatterns :: string
  ReportAnalysisProgressAfter :: Duration
  TelemetryPrompt :: bool
  LinkifyShowMessage :: bool
  IncludeReplaceInWorkspace :: bool
  ZeroConfig :: bool
  PullDiagnostics :: bool

record Options =
  ImportsSource :: string
  o_User :: UserOptions
  o_Internal :: InternalOptions

text \<open>A pointer to a field is the update of the field; the embedded structs are reached through these.\<close>

definition at_user :: "(UserOptions \<Rightarrow> UserOptions) \<Rightarrow> Options \<Rightarrow> Options" where
  "at_user = o_User_update"
definition at_internal :: "(InternalOptions \<Rightarrow> InternalOptions) \<Rightarrow> Options \<Rightarrow> Options" where
  "at_internal = o_Internal_update"
definition at_build :: "(BuildOptions \<Rightarrow> BuildOptions) \<Rightarrow> Options \<Rightarrow> Options" where
  "at_build f = at_user (u_Build_update f)"
definition at_ui :: "(UIOptions \<Rightarrow> UIOptions) \<Rightarrow> Options \<Rightarrow> Options" where
  "at_ui f = at_user (u_UI_update f)"
definition at_documentation :: "(DocumentationOptions \<Rightarrow> DocumentationOptions) \<Rightarrow> Options \<Rightarrow> Options" where
  "at_documentation f = at_ui (ui_Documentation_update f)"
definition at_completion :: "(CompletionOptions \<Rightarrow> CompletionOptions) \<Rightarrow> Options \<Rightarrow> Options" where
  "at_completion f = at_ui (ui_Completion_update f)"
definition at_navigation :: "(NavigationOptions \<Rightarrow> NavigationOptions) \<Rightarrow> Options \<Rightarrow> Options" where
  "at_navigation f = at_ui (ui_Navigation_update f)"
definition at_diagnostic :: "(DiagnosticOptions \<Rightarrow> DiagnosticOptions) \<Rightarrow> Options \<Rightarrow> Options" where
  "at_diagnostic f = at_ui (ui_Diagnostic_update f)"

lemmas at_defs = at_user_def at_internal_def at_build_def at_ui_def at_documentation_def at_completion_def at_navigation_def
  at_diagnostic_def

section \<open>Setters\<close>

text \<open>A setter gives the counter paths, the error if any, and the options after it: \<open>dest\<close> is written only on success.\<close>

type_synonym applied = "CounterPath list \<times> set_error option \<times> Options"

definition store :: "(('a \<Rightarrow> 'a) \<Rightarrow> Options \<Rightarrow> Options) \<Rightarrow> (set_error, 'a) outcome \<Rightarrow> ('a \<Rightarrow> CounterPath list) \<Rightarrow> Options \<Rightarrow> applied" where
  "store dest r counts opts =
     (case r of Ok a \<Rightarrow> (counts a, None, dest (\<lambda>_. a) opts) | Err e \<Rightarrow> ([], Some e, opts) | Panic \<Rightarrow> ([], None, opts))"

definition bool_text :: "bool \<Rightarrow> string" where
  "bool_text b = (if b then ''true'' else ''false'')"

fun asBool :: "go_any \<Rightarrow> (set_error, bool) outcome" where
  "asBool (BoolV b) = Ok b"
| "asBool v = Err (InvalidType v)"

definition setBool :: "((bool \<Rightarrow> bool) \<Rightarrow> Options \<Rightarrow> Options) \<Rightarrow> go_any \<Rightarrow> Options \<Rightarrow> applied" where
  "setBool dest value = store dest (asBool value) (\<lambda>b. [[bool_text b]])"

fun asString :: "go_any \<Rightarrow> (set_error, string) outcome" where
  "asString (StrV s) = Ok s"
| "asString v = Err (InvalidType v)"

definition setString :: "((string \<Rightarrow> string) \<Rightarrow> Options \<Rightarrow> Options) \<Rightarrow> go_any \<Rightarrow> Options \<Rightarrow> applied" where
  "setString dest value = store dest (asString value) (\<lambda>_. [])"

text \<open>\<open>ParseDuration\<close> is \<open>time.ParseDuration\<close>.\<close>

definition setDuration :: "(string \<Rightarrow> Duration option) \<Rightarrow> ((Duration \<Rightarrow> Duration) \<Rightarrow> Options \<Rightarrow> Options) \<Rightarrow> go_any \<Rightarrow> Options \<Rightarrow> applied" where
  "setDuration ParseDuration dest value =
     store dest (bind_outcome (asString value) (\<lambda>str.
       case ParseDuration str of None \<Rightarrow> Err (BadDuration str) | Some d \<Rightarrow> Ok d)) (\<lambda>_. [])"

fun string_elements :: "go_any list \<Rightarrow> (set_error, string list) outcome" where
  "string_elements [] = Ok []"
| "string_elements (StrV s # vs) = bind_outcome (string_elements vs) (\<lambda>ss. Ok (s # ss))"
| "string_elements (v # vs) = Err (InvalidElement v)"

fun asStringSlice :: "go_any \<Rightarrow> (set_error, string list) outcome" where
  "asStringSlice (SliceV vs) = string_elements vs"
| "asStringSlice v = Err (InvalidType v)"

definition setStringSlice :: "((string list \<Rightarrow> string list) \<Rightarrow> Options \<Rightarrow> Options) \<Rightarrow> go_any \<Rightarrow> Options \<Rightarrow> applied" where
  "setStringSlice dest value = store dest (asStringSlice value) (\<lambda>_. [])"

fun bool_entries :: "(string \<times> go_any) list \<Rightarrow> (set_error, (string \<times> bool) list) outcome" where
  "bool_entries [] = Ok []"
| "bool_entries ((a, BoolV b) # es) = bind_outcome (bool_entries es) (\<lambda>m. Ok ((a, b) # m))"
| "bool_entries ((a, enabled) # es) = Err (InvalidField enabled a)"

text \<open>The entries of the map, in the order of iteration.\<close>

fun asBoolMap :: "go_any \<Rightarrow> (set_error, (string \<times> bool) list) outcome" where
  "asBoolMap (MapV es) = bool_entries es"
| "asBoolMap v = Err (InvalidType v)"

definition counter_paths :: "(string \<times> bool) list \<Rightarrow> CounterPath list" where
  "counter_paths m = map (\<lambda>(k, v). [k, bool_text v]) m"

definition setBoolMap :: "(((string \<rightharpoonup> bool) \<Rightarrow> (string \<rightharpoonup> bool)) \<Rightarrow> Options \<Rightarrow> Options) \<Rightarrow> go_any \<Rightarrow> Options \<Rightarrow> applied" where
  "setBoolMap dest value opts =
     (case asBoolMap value of
        Ok m \<Rightarrow> (counter_paths m, None, dest (\<lambda>_. map_of m) opts)
      | Err e \<Rightarrow> ([], Some e, opts) | Panic \<Rightarrow> ([], None, opts))"

text \<open>\<open>strings.EqualFold\<close> with a second argument in ASCII: the two runes outside ASCII that fold to a letter of it
  are the Kelvin sign and the long s.\<close>

definition fold_ascii :: "int \<Rightarrow> int" where
  "fold_ascii r = (if 65 \<le> r \<and> r \<le> 90 then r + 32 else if r = 0x212A then 107 else if r = 0x017F then 115 else r)"

fun EqualFold :: "string \<Rightarrow> string \<Rightarrow> bool" where
  "EqualFold s [] = (s = [])"
| "EqualFold s (t # ts) =
     (let (r, size) = DecodeRune s
      in s \<noteq> [] \<and> fold_ascii r = fold_ascii (byte t) \<and> EqualFold (drop size s) ts)"

definition asEnum :: "go_any \<Rightarrow> string list \<Rightarrow> (set_error, string) outcome" where
  "asEnum value options =
     bind_outcome (asString value) (\<lambda>str.
       case List.find (EqualFold str) options of Some opt \<Rightarrow> Ok opt | None \<Rightarrow> Err (InvalidOption str))"

definition setEnum :: "((string \<Rightarrow> string) \<Rightarrow> Options \<Rightarrow> Options) \<Rightarrow> go_any \<Rightarrow> string list \<Rightarrow> Options \<Rightarrow> applied" where
  "setEnum dest value options = store dest (asEnum value options) (\<lambda>enum. [[enum]])"

text \<open>\<open>setAnnotationMap\<close>: the first bad name in the order of iteration is the error, with its own message for the
  four legacy names.\<close>

definition annotation_names :: "string list" where
  "annotation_names = [''nil'', ''escape'', ''inline'', ''bounds'']"

definition legacy_annotations :: "string list" where
  "legacy_annotations = [''noEscape'', ''noNilcheck'', ''noInline'', ''noBounds'']"

fun annotation_entries :: "(string \<times> bool) list \<Rightarrow> (string \<rightharpoonup> bool) \<Rightarrow> CounterPath list \<Rightarrow>
    (set_error, (string \<rightharpoonup> bool) \<times> CounterPath list) outcome" where
  "annotation_entries [] m counters = Ok (m, counters)"
| "annotation_entries ((k, enabled) # es) m counters =
     (case asEnum (StrV k) annotation_names of
        Ok a \<Rightarrow> annotation_entries es (m(a \<mapsto> enabled)) (counters @ [[a]])
      | _ \<Rightarrow> Err (if k \<in> set legacy_annotations then LegacyAnnotation k else InvalidOption k))"

definition setAnnotationMap :: "(((string \<rightharpoonup> bool) \<Rightarrow> (string \<rightharpoonup> bool)) \<Rightarrow> Options \<Rightarrow> Options) \<Rightarrow> go_any \<Rightarrow> Options \<Rightarrow> applied" where
  "setAnnotationMap dest value opts =
     (case bind_outcome (asBoolMap value) (\<lambda>es. annotation_entries es Map.empty []) of
        Ok (m, counters) \<Rightarrow> (counters, None, dest (\<lambda>_. m) opts)
      | Err e \<Rightarrow> ([], Some e, opts) | Panic \<Rightarrow> ([], None, opts))"

section \<open>One setting\<close>

definition deprecatedError :: "string \<Rightarrow> set_error" where
  "deprecatedError replacement =
     SoftError (''this setting is deprecated'' @
       (if replacement = [] then [] else '', use '' @ [CHR 0x22] @ replacement @ [CHR 0x22] @ '' instead''))"

text \<open>The map \<open>Env\<close> is changed in place, entry by entry, until one is neither a string nor an int.\<close>

fun env_entries :: "(string \<times> go_any) list \<Rightarrow> (string \<rightharpoonup> string) \<Rightarrow> set_error option \<times> (string \<rightharpoonup> string)" where
  "env_entries [] m = (None, m)"
| "env_entries ((k, StrV s) # es) m = env_entries es (m(k \<mapsto> s))"
| "env_entries ((k, IntV i) # es) m = env_entries es (m(k \<mapsto> itoa_int i))"
| "env_entries ((k, v) # es) m = (Some (InvalidMapValue v), m)"

fun set_env :: "go_any \<Rightarrow> Options \<Rightarrow> applied" where
  "set_env (MapV es) opts =
     (let (err, m) = env_entries es (case Env (u_Build (o_User opts)) of None \<Rightarrow> Map.empty | Some m \<Rightarrow> m)
      in ([], err, at_build (Env_update (\<lambda>_. Some m)) opts))"
| "set_env v opts = ([], Some (InvalidType v), opts)"

definition set_directory_filters :: "go_any \<Rightarrow> Options \<Rightarrow> applied" where
  "set_directory_filters value =
     store (at_build \<circ> DirectoryFilters_update)
       (bind_outcome (asStringSlice value) (\<lambda>fs.
          case validate_filters fs of Ok filters \<Rightarrow> Ok filters | Err e \<Rightarrow> Err (InvalidFilter e) | Panic \<Rightarrow> Panic))
       (\<lambda>_. [])"

fun set_links :: "go_any \<Rightarrow> Options \<Rightarrow> applied" where
  "set_links (BoolV False) opts = ([], None, at_documentation (LinksInHover_update (\<lambda>_. 0)) opts)"
| "set_links (BoolV True) opts = ([], None, at_documentation (LinksInHover_update (\<lambda>_. 1)) opts)"
| "set_links (StrV s) opts =
     (if s = ''gopls'' then ([], None, at_documentation (LinksInHover_update (\<lambda>_. 2)) opts) else ([], Some (InvalidLinks (StrV s)), opts))"
| "set_links v opts = ([], Some (InvalidLinks v), opts)"

text \<open>A value that was set, with a warning.\<close>

definition with_soft :: "(Options \<Rightarrow> applied) \<Rightarrow> (Options \<Rightarrow> bool) \<Rightarrow> string \<Rightarrow> Options \<Rightarrow> applied" where
  "with_soft f warn message opts =
     (case f opts of
        (counts, None, opts') \<Rightarrow> (counts, if warn opts' then Some (SoftError message) else None, opts')
      | (counts, Some e, opts') \<Rightarrow> ([], Some e, opts'))"

definition set_codelenses :: "string \<Rightarrow> go_any \<Rightarrow> Options \<Rightarrow> applied" where
  "set_codelenses name value opts =
     (case asBoolMap value of
        Ok m \<Rightarrow>
          (let errs = (if name = ''codelens'' then [''this setting is deprecated, use '' @ [CHR 0x22] @ ''codelenses'' @ [CHR 0x22] @ '' instead''] else [])
             @ (if map_of m ''run_govulncheck'' = Some True \<and> map_of m ''vulncheck'' = Some True
                then [''The '' @ [CHR 0x27] @ ''run_govulncheck'' @ [CHR 0x27] @ '' codelens is superseded by the '' @ [CHR 0x27]
                  @ ''vulncheck'' @ [CHR 0x27] @ '' codelens. Only '' @ [CHR 0x27] @ ''vulncheck'' @ [CHR 0x27] @ '' should be set.'']
                else [])
           in (counter_paths m, if errs = [] then None else Some (SoftError (str_join [NL] errs)),
               at_ui (Codelenses_update (\<lambda>lenses. lenses ++ map_of m)) opts))
      | Err e \<Rightarrow> ([], Some e, opts) | Panic \<Rightarrow> ([], None, opts))"

fun set_template_extensions :: "go_any \<Rightarrow> Options \<Rightarrow> applied" where
  "set_template_extensions (SliceV vs) opts = setStringSlice (at_build \<circ> TemplateExtensions_update) (SliceV vs) opts"
| "set_template_extensions NilV opts = ([], None, at_build (TemplateExtensions_update (\<lambda>_. [])) opts)"
| "set_template_extensions v opts = ([], Some (InvalidType v), opts)"

definition renamed_settings :: "(string \<times> string) list" where
  "renamed_settings =
     [(''experimentalDisabledAnalyses'', ''analyses''), (''disableDeepCompletion'', ''deepCompletion''),
      (''disableFuzzyMatching'', ''fuzzyMatching''), (''wantCompletionDocumentation'', ''completionDocumentation''),
      (''wantUnimportedCompletions'', ''completeUnimported''), (''fuzzyMatching'', ''matcher''),
      (''caseSensitiveCompletion'', ''matcher''), (''experimentalDiagnosticsDelay'', ''diagnosticsDelay''),
      (''allowImplicitNetworkAccess'', []), (''memoryMode'', []), (''tempModFile'', []), (''experimentalWorkspaceModule'', []),
      (''experimentalTemplateSupport'', []), (''experimentalWatchedFileDelay'', []), (''experimentalPackageCacheKey'', []),
      (''allowModfileModifications'', []), (''experimentalUseInvalidMetadata'', []), (''newDiff'', []),
      (''wantSuggestedFixes'', []), (''noIncrementalSync'', []), (''watchFileChanges'', []), (''go-diff'', [])]"

definition setOne :: "(string \<Rightarrow> Duration option) \<Rightarrow> string \<Rightarrow> go_any \<Rightarrow> Options \<Rightarrow> applied" where
  "setOne ParseDuration name value opts =
     (if name = ''env'' then set_env value opts
      else if name = ''buildFlags'' then setStringSlice (at_build \<circ> BuildFlags_update) value opts
      else if name = ''directoryFilters'' then set_directory_filters value opts
      else if name = ''workspaceFiles'' then setStringSlice (at_build \<circ> WorkspaceFiles_update) value opts
      else if name = ''completionDocumentation'' then setBool (at_internal \<circ> CompletionDocumentation_update) value opts
      else if name = ''usePlaceholders'' then setBool (at_completion \<circ> UsePlaceholders_update) value opts
      else if name = ''deepCompletion'' then setBool (at_internal \<circ> DeepCompletion_update) value opts
      else if name = ''completeUnimported'' then setBool (at_internal \<circ> CompleteUnimported_update) value opts
      else if name = ''completionBudget'' then setDuration ParseDuration (at_completion \<circ> CompletionBudget_update) value opts
      else if name = ''importsSource'' then setEnum ImportsSource_update value [''off'', ''gopls'', ''goimports''] opts
      else if name = ''matcher'' then setEnum (at_completion \<circ> Matcher_update) value
         [''Fuzzy'', ''CaseSensitive'', ''CaseInsensitive''] opts
      else if name = ''symbolMatcher'' then setEnum (at_navigation \<circ> SymbolMatcher_update) value
         [''Fuzzy'', ''FastFuzzy'', ''CaseInsensitive'', ''CaseSensitive''] opts
      else if name = ''symbolStyle'' then setEnum (at_navigation \<circ> SymbolStyle_update) value
         [''Full'', ''Package'', ''Dynamic''] opts
      else if name = ''symbolScope'' then setEnum (at_navigation \<circ> SymbolScope_update) value
         [''workspace'', ''all''] opts
      else if name = ''hoverKind'' then setEnum (at_documentation \<circ> HoverKind_update) value
         [''NoDocumentation'', ''SingleLine'', ''SynopsisDocumentation'', ''FullDocumentation'', ''Structured''] opts
      else if name = ''linkTarget'' then setString (at_documentation \<circ> LinkTarget_update) value opts
      else if name = ''linksInHover'' then set_links value opts
      else if name = ''importShortcut'' then setEnum (at_navigation \<circ> ImportShortcut_update) value
         [''Both'', ''Link'', ''Definition''] opts
      else if name = ''analyses'' then with_soft (setBoolMap (at_diagnostic \<circ> Analyses_update) value)
         (\<lambda>o'. Analyses (ui_Diagnostic (u_UI (o_User o'))) ''fieldalignment'' = Some True)
         (''the '' @ [CHR 0x27] @ ''fieldalignment'' @ [CHR 0x27] @ '' analyzer was removed in gopls/v0.17.0; instead, hover over ''
           @ ''struct fields to see size/offset information (https://go.dev/issue/67762)'') opts
      else if name = ''hints'' then setBoolMap (at_ui \<circ> Hints_update) value opts
      else if name = ''annotations'' then setAnnotationMap (at_diagnostic \<circ> Annotations_update) value opts
      else if name = ''vulncheck'' then setEnum (at_diagnostic \<circ> Vulncheck_update) value
         [''Off'', ''Imports'', ''Prompt''] opts
      else if name = ''codelenses'' \<or> name = ''codelens'' then set_codelenses name value opts
      else if name = ''staticcheck'' then setBool (at_diagnostic \<circ> Staticcheck_update) value (at_diagnostic (StaticcheckProvided_update (\<lambda>_. True)) opts)
      else if name = ''local'' then setString (at_user \<circ> Local_update) value opts
      else if name = ''verboseOutput'' then setBool (at_user \<circ> VerboseOutput_update) value opts
      else if name = ''verboseWorkDoneProgress'' then setBool (at_internal \<circ> VerboseWorkDoneProgress_update) value opts
      else if name = ''showBugReports'' then setBool (at_internal \<circ> ShowBugReports_update) value opts
      else if name = ''gofumpt'' then setBool (at_user \<circ> Gofumpt_update) value opts
      else if name = ''completeFunctionCalls'' then setBool (at_completion \<circ> CompleteFunctionCalls_update) value opts
      else if name = ''semanticTokens'' then setBool (at_ui \<circ> SemanticTokens_update) value opts
      else if name = ''noSemanticString'' then with_soft (setBool (at_ui \<circ> NoSemanticString_update) value) (\<lambda>_. True)
         (''noSemanticString setting is deprecated, use semanticTokenTypes instead (though you can continue to apply them ''
           @ ''for the time being).'') opts
      else if name = ''noSemanticNumber'' then with_soft (setBool (at_ui \<circ> NoSemanticNumber_update) value) (\<lambda>_. True)
         (''noSemanticNumber setting is deprecated, use semanticTokenTypes instead (though you can continue to apply them ''
           @ ''for the time being).'') opts
      else if name = ''semanticTokenTypes'' then setBoolMap (at_ui \<circ> SemanticTokenTypes_update) value opts
      else if name = ''semanticTokenModifiers'' then setBoolMap (at_ui \<circ> SemanticTokenModifiers_update) value opts
      else if name = ''newGoFileHeader'' then setBool (at_ui \<circ> NewGoFileHeader_update) value opts
      else if name = ''expandWorkspaceToModule'' then setBool (at_build \<circ> ExpandWorkspaceToModule_update) value opts
      else if name = ''experimentalPostfixCompletions'' then setBool (at_completion \<circ> ExperimentalPostfixCompletions_update) value opts
      else if name = ''templateExtensions'' then set_template_extensions value opts
      else if name = ''diagnosticsDelay'' then setDuration ParseDuration (at_diagnostic \<circ> DiagnosticsDelay_update) value opts
      else if name = ''diagnosticsTrigger'' then setEnum (at_diagnostic \<circ> DiagnosticsTrigger_update) value
         [''Edit'', ''Save''] opts
      else if name = ''analysisProgressReporting'' then setBool (at_diagnostic \<circ> AnalysisProgressReporting_update) value opts
      else if name = ''standaloneTags'' then setStringSlice (at_build \<circ> StandaloneTags_update) value opts
      else if name = ''subdirWatchPatterns'' then setEnum (at_internal \<circ> SubdirWatchPatterns_update) value
         [''on'', ''off'', ''auto''] opts
      else if name = ''reportAnalysisProgressAfter'' then setDuration ParseDuration (at_internal \<circ> ReportAnalysisProgressAfter_update) value opts
      else if name = ''telemetryPrompt'' then setBool (at_internal \<circ> TelemetryPrompt_update) value opts
      else if name = ''linkifyShowMessage'' then setBool (at_internal \<circ> LinkifyShowMessage_update) value opts
      else if name = ''includeReplaceInWorkspace'' then setBool (at_internal \<circ> IncludeReplaceInWorkspace_update) value opts
      else if name = ''zeroConfig'' then setBool (at_internal \<circ> ZeroConfig_update) value opts
      else if name = ''pullDiagnostics'' then setBool (at_internal \<circ> PullDiagnostics_update) value opts
      else if name = ''mcpTools'' then setBoolMap (at_internal \<circ> MCPTools_update) value opts
      else if name = ''renameMovesSubpackages'' then setBool (at_ui \<circ> RenameMovesSubpackages_update) value opts
      else if name = ''allExperiments'' then ([], None, opts)
      else case map_of renamed_settings name of
        Some replacement \<Rightarrow> ([], Some (deprecatedError replacement), opts)
      | None \<Rightarrow> ([], Some UnexpectedSetting, opts))"

section \<open>All settings\<close>

datatype set_failure = Duplicate string | Setting string set_error | InvalidOptions go_any

definition setting_name :: "string \<Rightarrow> string" where
  "setting_name name = last (split_byte (CHR ''.'') name)"

definition applied_paths :: "string \<Rightarrow> CounterPath list \<Rightarrow> set_error option \<Rightarrow> CounterPath list" where
  "applied_paths name paths err =
     (if err = None \<or> soft err then if paths = [] then [[name, []]] else map (\<lambda>p. name # p) paths else [])"

fun set_entries :: "(string \<Rightarrow> Duration option) \<Rightarrow> string list \<Rightarrow> (string \<times> go_any) list \<Rightarrow> Options \<Rightarrow>
    CounterPath list \<times> set_failure list \<times> Options" where
  "set_entries PD seen [] opts = ([], [], opts)"
| "set_entries PD seen ((dotted, value) # es) opts =
     (let name = setting_name dotted;
          (paths, err, opts1) = setOne PD name value opts;
          (applied, errs, opts2) = set_entries PD (name # seen) es opts1
      in (applied_paths name paths err @ applied,
          (if name \<in> set seen then [Duplicate name] else [])
            @ (case err of None \<Rightarrow> [] | Some e \<Rightarrow> [Setting name e]) @ errs,
          opts2))"

text \<open>\<open>Options.Set\<close>.\<close>

fun Set :: "(string \<Rightarrow> Duration option) \<Rightarrow> go_any \<Rightarrow> Options \<Rightarrow> CounterPath list \<times> set_failure list \<times> Options" where
  "Set PD NilV opts = ([], [], opts)"
| "Set PD (MapV es) opts = set_entries PD [] es opts"
| "Set PD v opts = ([], [InvalidOptions v], opts)"

section \<open>Each setting writes one cell\<close>

text \<open>The options as cells, one for each setting; \<open>staticcheck\<close> writes two fields.\<close>

datatype cell = CB bool | CS string | CL "string list" | CM "string \<rightharpoonup> bool" | CE "(string \<rightharpoonup> string) option"
  | CN nat | CD Duration | CP bool bool

definition cells :: "Options \<Rightarrow> (string \<times> cell) list" where
  "cells opts =
     [(''env'', CE (Env (u_Build (o_User opts)))),
      (''buildFlags'', CL (BuildFlags (u_Build (o_User opts)))),
      (''directoryFilters'', CL (DirectoryFilters (u_Build (o_User opts)))),
      (''workspaceFiles'', CL (WorkspaceFiles (u_Build (o_User opts)))),
      (''completionDocumentation'', CB (CompletionDocumentation (o_Internal opts))),
      (''usePlaceholders'', CB (UsePlaceholders (ui_Completion (u_UI (o_User opts))))),
      (''deepCompletion'', CB (DeepCompletion (o_Internal opts))),
      (''completeUnimported'', CB (CompleteUnimported (o_Internal opts))),
      (''completionBudget'', CD (CompletionBudget (ui_Completion (u_UI (o_User opts))))),
      (''importsSource'', CS (ImportsSource opts)),
      (''matcher'', CS (Matcher (ui_Completion (u_UI (o_User opts))))),
      (''symbolMatcher'', CS (SymbolMatcher (ui_Navigation (u_UI (o_User opts))))),
      (''symbolStyle'', CS (SymbolStyle (ui_Navigation (u_UI (o_User opts))))),
      (''symbolScope'', CS (SymbolScope (ui_Navigation (u_UI (o_User opts))))),
      (''hoverKind'', CS (HoverKind (ui_Documentation (u_UI (o_User opts))))),
      (''linkTarget'', CS (LinkTarget (ui_Documentation (u_UI (o_User opts))))),
      (''linksInHover'', CN (LinksInHover (ui_Documentation (u_UI (o_User opts))))),
      (''importShortcut'', CS (ImportShortcut (ui_Navigation (u_UI (o_User opts))))),
      (''analyses'', CM (Analyses (ui_Diagnostic (u_UI (o_User opts))))),
      (''hints'', CM (Hints (u_UI (o_User opts)))),
      (''annotations'', CM (Annotations (ui_Diagnostic (u_UI (o_User opts))))),
      (''vulncheck'', CS (Vulncheck (ui_Diagnostic (u_UI (o_User opts))))),
      (''codelenses'', CM (Codelenses (u_UI (o_User opts)))),
      (''staticcheck'', CP (Staticcheck (ui_Diagnostic (u_UI (o_User opts)))) (StaticcheckProvided (ui_Diagnostic (u_UI (o_User opts))))),
      (''local'', CS (Local (o_User opts))),
      (''verboseOutput'', CB (VerboseOutput (o_User opts))),
      (''verboseWorkDoneProgress'', CB (VerboseWorkDoneProgress (o_Internal opts))),
      (''showBugReports'', CB (ShowBugReports (o_Internal opts))),
      (''gofumpt'', CB (Gofumpt (o_User opts))),
      (''completeFunctionCalls'', CB (CompleteFunctionCalls (ui_Completion (u_UI (o_User opts))))),
      (''semanticTokens'', CB (SemanticTokens (u_UI (o_User opts)))),
      (''noSemanticString'', CB (NoSemanticString (u_UI (o_User opts)))),
      (''noSemanticNumber'', CB (NoSemanticNumber (u_UI (o_User opts)))),
      (''semanticTokenTypes'', CM (SemanticTokenTypes (u_UI (o_User opts)))),
      (''semanticTokenModifiers'', CM (SemanticTokenModifiers (u_UI (o_User opts)))),
      (''newGoFileHeader'', CB (NewGoFileHeader (u_UI (o_User opts)))),
      (''expandWorkspaceToModule'', CB (ExpandWorkspaceToModule (u_Build (o_User opts)))),
      (''experimentalPostfixCompletions'', CB (ExperimentalPostfixCompletions (ui_Completion (u_UI (o_User opts))))),
      (''templateExtensions'', CL (TemplateExtensions (u_Build (o_User opts)))),
      (''diagnosticsDelay'', CD (DiagnosticsDelay (ui_Diagnostic (u_UI (o_User opts))))),
      (''diagnosticsTrigger'', CS (DiagnosticsTrigger (ui_Diagnostic (u_UI (o_User opts))))),
      (''analysisProgressReporting'', CB (AnalysisProgressReporting (ui_Diagnostic (u_UI (o_User opts))))),
      (''standaloneTags'', CL (StandaloneTags (u_Build (o_User opts)))),
      (''subdirWatchPatterns'', CS (SubdirWatchPatterns (o_Internal opts))),
      (''reportAnalysisProgressAfter'', CD (ReportAnalysisProgressAfter (o_Internal opts))),
      (''telemetryPrompt'', CB (TelemetryPrompt (o_Internal opts))),
      (''linkifyShowMessage'', CB (LinkifyShowMessage (o_Internal opts))),
      (''includeReplaceInWorkspace'', CB (IncludeReplaceInWorkspace (o_Internal opts))),
      (''zeroConfig'', CB (ZeroConfig (o_Internal opts))),
      (''pullDiagnostics'', CB (PullDiagnostics (o_Internal opts))),
      (''mcpTools'', CM (MCPTools (o_Internal opts))),
      (''renameMovesSubpackages'', CB (RenameMovesSubpackages (u_UI (o_User opts))))]"

definition view :: "Options \<Rightarrow> string \<rightharpoonup> cell" where
  "view opts = map_of (cells opts)"

definition writes_cell :: "string \<Rightarrow> (('a \<Rightarrow> 'a) \<Rightarrow> Options \<Rightarrow> Options) \<Rightarrow> ('a \<Rightarrow> cell) \<Rightarrow> bool" where
  "writes_cell c dest mk \<longleftrightarrow> (\<forall>a opts. cells (dest (\<lambda>_. a) opts) = AList.update c (mk a) (cells opts))"

lemma writes_cells:
  "writes_cell ''buildFlags'' (at_build \<circ> BuildFlags_update) CL"
  "writes_cell ''directoryFilters'' (at_build \<circ> DirectoryFilters_update) CL"
  "writes_cell ''workspaceFiles'' (at_build \<circ> WorkspaceFiles_update) CL"
  "writes_cell ''completionDocumentation'' (at_internal \<circ> CompletionDocumentation_update) CB"
  "writes_cell ''usePlaceholders'' (at_completion \<circ> UsePlaceholders_update) CB"
  "writes_cell ''deepCompletion'' (at_internal \<circ> DeepCompletion_update) CB"
  "writes_cell ''completeUnimported'' (at_internal \<circ> CompleteUnimported_update) CB"
  "writes_cell ''completionBudget'' (at_completion \<circ> CompletionBudget_update) CD"
  "writes_cell ''importsSource'' ImportsSource_update CS"
  "writes_cell ''matcher'' (at_completion \<circ> Matcher_update) CS"
  "writes_cell ''symbolMatcher'' (at_navigation \<circ> SymbolMatcher_update) CS"
  "writes_cell ''symbolStyle'' (at_navigation \<circ> SymbolStyle_update) CS"
  "writes_cell ''symbolScope'' (at_navigation \<circ> SymbolScope_update) CS"
  "writes_cell ''hoverKind'' (at_documentation \<circ> HoverKind_update) CS"
  "writes_cell ''linkTarget'' (at_documentation \<circ> LinkTarget_update) CS"
  "writes_cell ''importShortcut'' (at_navigation \<circ> ImportShortcut_update) CS"
  "writes_cell ''analyses'' (at_diagnostic \<circ> Analyses_update) CM"
  "writes_cell ''hints'' (at_ui \<circ> Hints_update) CM"
  "writes_cell ''annotations'' (at_diagnostic \<circ> Annotations_update) CM"
  "writes_cell ''vulncheck'' (at_diagnostic \<circ> Vulncheck_update) CS"
  "writes_cell ''local'' (at_user \<circ> Local_update) CS"
  "writes_cell ''verboseOutput'' (at_user \<circ> VerboseOutput_update) CB"
  "writes_cell ''verboseWorkDoneProgress'' (at_internal \<circ> VerboseWorkDoneProgress_update) CB"
  "writes_cell ''showBugReports'' (at_internal \<circ> ShowBugReports_update) CB"
  "writes_cell ''gofumpt'' (at_user \<circ> Gofumpt_update) CB"
  "writes_cell ''completeFunctionCalls'' (at_completion \<circ> CompleteFunctionCalls_update) CB"
  "writes_cell ''semanticTokens'' (at_ui \<circ> SemanticTokens_update) CB"
  "writes_cell ''noSemanticString'' (at_ui \<circ> NoSemanticString_update) CB"
  "writes_cell ''noSemanticNumber'' (at_ui \<circ> NoSemanticNumber_update) CB"
  "writes_cell ''semanticTokenTypes'' (at_ui \<circ> SemanticTokenTypes_update) CM"
  "writes_cell ''semanticTokenModifiers'' (at_ui \<circ> SemanticTokenModifiers_update) CM"
  "writes_cell ''newGoFileHeader'' (at_ui \<circ> NewGoFileHeader_update) CB"
  "writes_cell ''expandWorkspaceToModule'' (at_build \<circ> ExpandWorkspaceToModule_update) CB"
  "writes_cell ''experimentalPostfixCompletions'' (at_completion \<circ> ExperimentalPostfixCompletions_update) CB"
  "writes_cell ''templateExtensions'' (at_build \<circ> TemplateExtensions_update) CL"
  "writes_cell ''diagnosticsDelay'' (at_diagnostic \<circ> DiagnosticsDelay_update) CD"
  "writes_cell ''diagnosticsTrigger'' (at_diagnostic \<circ> DiagnosticsTrigger_update) CS"
  "writes_cell ''analysisProgressReporting'' (at_diagnostic \<circ> AnalysisProgressReporting_update) CB"
  "writes_cell ''standaloneTags'' (at_build \<circ> StandaloneTags_update) CL"
  "writes_cell ''subdirWatchPatterns'' (at_internal \<circ> SubdirWatchPatterns_update) CS"
  "writes_cell ''reportAnalysisProgressAfter'' (at_internal \<circ> ReportAnalysisProgressAfter_update) CD"
  "writes_cell ''telemetryPrompt'' (at_internal \<circ> TelemetryPrompt_update) CB"
  "writes_cell ''linkifyShowMessage'' (at_internal \<circ> LinkifyShowMessage_update) CB"
  "writes_cell ''includeReplaceInWorkspace'' (at_internal \<circ> IncludeReplaceInWorkspace_update) CB"
  "writes_cell ''zeroConfig'' (at_internal \<circ> ZeroConfig_update) CB"
  "writes_cell ''pullDiagnostics'' (at_internal \<circ> PullDiagnostics_update) CB"
  "writes_cell ''mcpTools'' (at_internal \<circ> MCPTools_update) CM"
  "writes_cell ''renameMovesSubpackages'' (at_ui \<circ> RenameMovesSubpackages_update) CB"
  by (simp_all add: writes_cell_def cells_def at_defs)

lemma view_writes: "writes_cell c dest mk \<Longrightarrow> view (dest (\<lambda>_. a) opts) = (view opts)(c \<mapsto> mk a)"
  by (simp add: writes_cell_def view_def update_conv')

text \<open>What a setter answers does not depend on the options, and it changes one cell, by its old content alone.\<close>

definition touches :: "string \<Rightarrow> (Options \<Rightarrow> applied) \<Rightarrow> bool" where
  "touches c f \<longleftrightarrow> (\<exists>paths err u. \<forall>opts. fst (f opts) = paths \<and> fst (snd (f opts)) = err
     \<and> view (snd (snd (f opts))) = (view opts)(c := u (view opts c)))"

lemma touchesI:
  "(\<And>opts. f opts = (paths, err, g opts)) \<Longrightarrow> (\<And>opts. view (g opts) = (view opts)(c := u (view opts c))) \<Longrightarrow> touches c f"
  unfolding touches_def by (rule exI [of _ paths], rule exI [of _ err], rule exI [of _ u]) simp

lemma touches_nothing: "touches c (\<lambda>opts. (paths, err, opts))"
  by (rule touchesI [where u = "\<lambda>x. x" and paths = paths and err = err and g = "\<lambda>x. x"]) simp_all

lemma touches_write: "writes_cell c dest mk \<Longrightarrow> touches c (\<lambda>opts. (paths, err, dest (\<lambda>_. a) opts))"
  by (rule touchesI [where u = "\<lambda>_. Some (mk a)" and paths = paths and err = err and g = "dest (\<lambda>_. a)"]) (simp_all add: view_writes)

lemma touches_same: "(\<And>opts. f opts = (paths, err, opts)) \<Longrightarrow> touches c f"
  by (rule touchesI [where u = "\<lambda>x. x" and g = "\<lambda>x. x"]) simp_all

lemma touches_if: "(P \<Longrightarrow> touches c f) \<Longrightarrow> touches c g \<Longrightarrow> touches c (\<lambda>opts. if P then f opts else g opts)"
  by (cases P) simp_all

lemma touches_store: "writes_cell c dest mk \<Longrightarrow> touches c (store dest r counts)"
  unfolding store_def [abs_def] by (cases r) (simp_all add: touches_nothing touches_write)

lemma touches_setters:
  "writes_cell c db CB \<Longrightarrow> touches c (setBool db value)"
  "writes_cell c ds CS \<Longrightarrow> touches c (setString ds value)"
  "writes_cell c ds CS \<Longrightarrow> touches c (setEnum ds value options)"
  "writes_cell c dd CD \<Longrightarrow> touches c (setDuration PD dd value)"
  "writes_cell c dl CL \<Longrightarrow> touches c (setStringSlice dl value)"
  unfolding setBool_def setString_def setEnum_def setDuration_def setStringSlice_def by (rule touches_store, assumption)+

lemma touches_maps:
  assumes "writes_cell c dm CM"
  shows "touches c (setBoolMap dm value)" "touches c (setAnnotationMap dm value)"
proof -
  show "touches c (setBoolMap dm value)"
    unfolding setBoolMap_def [abs_def] using assms by (cases "asBoolMap value") (simp_all add: touches_nothing touches_write)
  show "touches c (setAnnotationMap dm value)"
    unfolding setAnnotationMap_def [abs_def] using assms
    by (cases "bind_outcome (asBoolMap value) (\<lambda>es. annotation_entries es Map.empty [])")
      (auto simp: touches_nothing touches_write split: prod.splits)
qed

lemma touches_with_soft:
  assumes "touches c f" "\<And>o1 o2. fst (snd (f o1)) = None \<Longrightarrow> warn (snd (snd (f o1))) = warn (snd (snd (f o2)))"
  shows "touches c (with_soft f warn message)"
proof -
  obtain paths err u where t: "\<And>opts. fst (f opts) = paths" "\<And>opts. fst (snd (f opts)) = err"
    "\<And>opts. view (snd (snd (f opts))) = (view opts)(c := u (view opts c))"
    using assms(1) unfolding touches_def by blast
  have f: "f opts = (paths, err, snd (snd (f opts)))" for opts using t(1,2) [of opts] by (metis prod.collapse)
  show ?thesis
  proof (cases err)
    case None
    then obtain b where b: "\<And>opts. warn (snd (snd (f opts))) = b" using assms(2) t(2) by blast
    from None have "with_soft f warn message opts = (paths, if b then Some (SoftError message) else None, snd (snd (f opts)))" for opts
      unfolding with_soft_def by (subst f) (simp add: b)
    then show ?thesis using t(3) by (rule touchesI)
  next
    case (Some e)
    then have "with_soft f warn message opts = ([], Some e, snd (snd (f opts)))" for opts
      unfolding with_soft_def by (subst f) simp
    then show ?thesis using t(3) by (rule touchesI)
  qed
qed

lemma bool_entries_total: "bool_entries es \<noteq> Panic" "asBoolMap value \<noteq> Panic"
proof -
  show p: "bool_entries es \<noteq> Panic" for es
    by (induction es rule: bool_entries.induct) (auto, metis outcome.exhaust bind_outcome.simps outcome.distinct)
  show "asBoolMap value \<noteq> Panic" using p by (cases "value") auto
qed

text \<open>The settings that are not written by a setter alone.\<close>

lemma touches_env: "touches ''env'' (set_env value)"
proof (cases "value")
  case (MapV es)
  have err: "fst (env_entries es m) = fst (env_entries es m')" for m m'
    by (induction es m arbitrary: m' rule: env_entries.induct) auto
  let ?old = "\<lambda>x. case x of Some (CE (Some m)) \<Rightarrow> m | _ \<Rightarrow> Map.empty"
  show ?thesis
  proof (rule touchesI [where u = "\<lambda>x. Some (CE (Some (snd (env_entries es (?old x)))))"])
    fix opts
    show "set_env value opts = ([], fst (env_entries es Map.empty), snd (snd (set_env value opts)))"
      using err [of _ Map.empty] by (simp add: MapV split_beta)
    have old: "view opts ''env'' = Some (CE (Env (u_Build (o_User opts))))" by (simp add: view_def cells_def)
    have new: "cells (at_build (Env_update (\<lambda>_. e)) opts) = AList.update ''env'' (CE e) (cells opts)" for e
      by (simp add: cells_def at_defs)
    show "view (snd (snd (set_env value opts))) = (view opts)(''env'' := Some (CE (Some (snd (env_entries es (?old (view opts ''env'')))))))"
      unfolding old by (simp add: MapV split_beta view_def new update_conv' split: option.splits)
  qed
qed ((hypsubst, rule touches_same, rule set_env.simps)+)

lemma touches_links: "touches ''linksInHover'' (set_links value)"
proof -
  have w: "touches ''linksInHover'' f" if "\<And>opts. f opts = (paths, err, at_documentation (LinksInHover_update (\<lambda>_. n)) opts)"
    for f paths err n
  proof (rule touchesI [OF that])
    show "view (at_documentation (LinksInHover_update (\<lambda>_. n)) opts) = (view opts)(''linksInHover'' := (\<lambda>_. Some (CN n)) (view opts ''linksInHover''))" for opts
      by (rule view_writes [where dest = "at_documentation \<circ> LinksInHover_update" and mk = CN, simplified])
        (simp add: writes_cell_def cells_def at_defs)
  qed
  show ?thesis
  proof (cases "value")
    case (BoolV b)
    show ?thesis
    proof (cases b)
      case True
      with BoolV have v: "value = BoolV True" by simp
      show ?thesis unfolding v by (rule w) (rule set_links.simps)
    next
      case False
      with BoolV have v: "value = BoolV False" by simp
      show ?thesis unfolding v by (rule w) (rule set_links.simps)
    qed
  next
    case (StrV s)
    show ?thesis
    proof (cases "s = ''gopls''")
      case True
      have "set_links value opts = ([], None, at_documentation (LinksInHover_update (\<lambda>_. 2)) opts)" for opts
        by (simp add: StrV True)
      then show ?thesis by (rule w)
    next
      case False
      have "set_links value opts = ([], Some (InvalidLinks (StrV s)), opts)" for opts by (simp add: StrV False)
      then show ?thesis by (rule touches_same)
    qed
  qed ((hypsubst, rule touches_same, rule set_links.simps)+)
qed

lemma touches_template: "touches ''templateExtensions'' (set_template_extensions value)"
proof (cases "value")
  case NilV
  have "set_template_extensions value opts = ([], None, (at_build \<circ> TemplateExtensions_update) (\<lambda>_. []) opts)" for opts
    by (simp add: NilV)
  then have "set_template_extensions value = (\<lambda>opts. ([], None, (at_build \<circ> TemplateExtensions_update) (\<lambda>_. []) opts))" by (rule ext)
  then show ?thesis using touches_write [of "''templateExtensions''" "at_build \<circ> TemplateExtensions_update"] writes_cells by metis
next
  case (SliceV vs)
  have "set_template_extensions value = setStringSlice (at_build \<circ> TemplateExtensions_update) (SliceV vs)"
    by (rule ext) (simp add: SliceV)
  then show ?thesis by (simp add: touches_setters(5) writes_cells)
qed ((hypsubst, rule touches_same, rule set_template_extensions.simps)+)

lemma touches_filters: "touches ''directoryFilters'' (set_directory_filters value)"
  unfolding set_directory_filters_def by (rule touches_store, rule writes_cells)

lemma touches_codelenses: "touches ''codelenses'' (set_codelenses name value)"
proof (cases "asBoolMap value")
  case (Ok m)
  let ?u = "\<lambda>x. case x of Some (CM lenses) \<Rightarrow> Some (CM (lenses ++ map_of m)) | _ \<Rightarrow> None"
  have new: "cells (at_ui (Codelenses_update f) opts) = AList.update ''codelenses'' (CM (f (Codelenses (u_UI (o_User opts))))) (cells opts)"
    for f opts by (simp add: cells_def at_defs)
  have old: "view opts ''codelenses'' = Some (CM (Codelenses (u_UI (o_User opts))))" for opts by (simp add: view_def cells_def)
  have "view (at_ui (Codelenses_update (\<lambda>lenses. lenses ++ map_of m)) opts) = (view opts)(''codelenses'' := ?u (view opts ''codelenses''))" for opts
    unfolding old by (simp add: view_def new update_conv')
  moreover obtain err where "set_codelenses name value opts =
      (counter_paths m, err, at_ui (Codelenses_update (\<lambda>lenses. lenses ++ map_of m)) opts)" for opts
    by (simp add: set_codelenses_def Ok Let_def)
  ultimately show ?thesis by (intro touchesI) assumption+
qed (auto simp: set_codelenses_def [abs_def] touches_nothing)

lemma touches_staticcheck:
  "touches ''staticcheck'' (\<lambda>opts. setBool (at_diagnostic \<circ> Staticcheck_update) value
     (at_diagnostic (StaticcheckProvided_update (\<lambda>_. True)) opts))"
proof -
  have new: "cells (at_diagnostic (StaticcheckProvided_update f) opts)
      = AList.update ''staticcheck'' (CP (Staticcheck (ui_Diagnostic (u_UI (o_User opts))))
          (f (StaticcheckProvided (ui_Diagnostic (u_UI (o_User opts)))))) (cells opts)"
    "cells (at_diagnostic (Staticcheck_update g) (at_diagnostic (StaticcheckProvided_update f) opts))
      = AList.update ''staticcheck'' (CP (g (Staticcheck (ui_Diagnostic (u_UI (o_User opts)))))
          (f (StaticcheckProvided (ui_Diagnostic (u_UI (o_User opts)))))) (cells opts)" for f g opts
    by (simp_all add: cells_def at_defs)
  have old: "view opts ''staticcheck'' = Some (CP (Staticcheck (ui_Diagnostic (u_UI (o_User opts))))
      (StaticcheckProvided (ui_Diagnostic (u_UI (o_User opts)))))" for opts
    by (simp add: view_def cells_def)
  have stays: ?thesis if "asBool value = r" "(case r of Ok b \<Rightarrow> False | _ \<Rightarrow> True)" for r
  proof (rule touchesI [where u = "\<lambda>x. case x of Some (CP a _) \<Rightarrow> Some (CP a True) | _ \<Rightarrow> None"
      and g = "at_diagnostic (StaticcheckProvided_update (\<lambda>_. True))" and paths = "[]" and err = "case r of Err e \<Rightarrow> Some e | _ \<Rightarrow> None"])
    show "setBool (at_diagnostic \<circ> Staticcheck_update) value (at_diagnostic (StaticcheckProvided_update (\<lambda>_. True)) opts)
        = ([], case r of Err e \<Rightarrow> Some e | _ \<Rightarrow> None, at_diagnostic (StaticcheckProvided_update (\<lambda>_. True)) opts)" for opts
      using that by (cases r) (simp_all add: setBool_def store_def)
    show "view (at_diagnostic (StaticcheckProvided_update (\<lambda>_. True)) opts)
        = (view opts)(''staticcheck'' := (case view opts ''staticcheck'' of Some (CP a _) \<Rightarrow> Some (CP a True) | _ \<Rightarrow> None))" for opts
      unfolding old by (simp add: view_def new(1) update_conv')
  qed
  show ?thesis
  proof (cases "asBool value")
    case (Ok b)
    show ?thesis
      by (rule touchesI [where u = "\<lambda>_. Some (CP b True)" and paths = "[[bool_text b]]" and err = None])
        (simp add: Ok setBool_def store_def, simp only: comp_def view_def new(2) update_conv')
  qed (rule stays, assumption, simp)+
qed

text \<open>The cell of a setting: \<open>codelens\<close> is another name for \<open>codelenses\<close>.\<close>

definition cell_name :: "string \<Rightarrow> string" where
  "cell_name name = (if name = ''codelens'' then ''codelenses'' else name)"

lemma touches_analyses:
  "touches ''analyses'' (with_soft (setBoolMap (at_diagnostic \<circ> Analyses_update) value)
     (\<lambda>o'. Analyses (ui_Diagnostic (u_UI (o_User o'))) ''fieldalignment'' = Some True) message)"
proof (rule touches_with_soft)
  show "touches ''analyses'' (setBoolMap (at_diagnostic \<circ> Analyses_update) value)" by (rule touches_maps, rule writes_cells)
  have field: "Analyses (ui_Diagnostic (u_UI (o_User (at_diagnostic (Analyses_update f) opts)))) = f (Analyses (ui_Diagnostic (u_UI (o_User opts))))"
    for f opts by (simp add: at_defs)
  fix o1 o2
  assume "fst (snd (setBoolMap (at_diagnostic \<circ> Analyses_update) value o1)) = None"
  then show "(Analyses (ui_Diagnostic (u_UI (o_User (snd (snd (setBoolMap (at_diagnostic \<circ> Analyses_update) value o1)))))) ''fieldalignment'' = Some True)
      = (Analyses (ui_Diagnostic (u_UI (o_User (snd (snd (setBoolMap (at_diagnostic \<circ> Analyses_update) value o2)))))) ''fieldalignment'' = Some True)"
    by (cases "asBoolMap value") (simp_all add: setBoolMap_def field bool_entries_total)
qed

lemma touches_named:
  "k \<noteq> ''codelens'' \<Longrightarrow> touches k f \<Longrightarrow> touches (cell_name name) g \<Longrightarrow>
   touches (cell_name name) (\<lambda>opts. if name = k then f opts else g opts)"
  by (cases "name = k") (simp_all add: cell_name_def)

lemma touches_lenses:
  "touches ''codelenses'' f \<Longrightarrow> touches (cell_name name) g \<Longrightarrow>
   touches (cell_name name) (\<lambda>opts. if name = ''codelenses'' \<or> name = ''codelens'' then f opts else g opts)"
  by (cases "name = ''codelenses'' \<or> name = ''codelens''") (auto simp: cell_name_def)

lemma touches_unknown:
  "touches c (\<lambda>opts. case r of None \<Rightarrow> ([], Some e, opts) | Some x \<Rightarrow> ([], Some (err x), opts))"
  by (cases r) (simp_all add: touches_nothing)

lemma setOne_touches: "touches (cell_name name) (setOne PD name value)"
  unfolding setOne_def [abs_def]
  by (rule touches_lenses touches_named touches_unknown touches_nothing touches_env touches_links touches_template
      touches_filters touches_codelenses touches_staticcheck touches_analyses
    | rule touches_with_soft [OF _ refl]
    | rule touches_setters touches_maps
    | rule writes_cells
    | simp (no_asm_simp); fail)+

text \<open>No two lists of cells are those of different options.\<close>

lemma cells_inject:
  assumes "cells a = cells b"
  shows "a = b"
proof -
  note fields = assms [unfolded cells_def list.inject prod.inject cell.inject]
  have unit: "x = y" for x y :: unit by simp
  have build: "u_Build (o_User a) = u_Build (o_User b)"
    by (rule BuildOptions.equality) ((simp only: fields; fail) | rule unit)+
  have doc: "ui_Documentation (u_UI (o_User a)) = ui_Documentation (u_UI (o_User b))"
    by (rule DocumentationOptions.equality) ((simp only: fields; fail) | rule unit)+
  have comp: "ui_Completion (u_UI (o_User a)) = ui_Completion (u_UI (o_User b))"
    by (rule CompletionOptions.equality) ((simp only: fields; fail) | rule unit)+
  have nav: "ui_Navigation (u_UI (o_User a)) = ui_Navigation (u_UI (o_User b))"
    by (rule NavigationOptions.equality) ((simp only: fields; fail) | rule unit)+
  have diag: "ui_Diagnostic (u_UI (o_User a)) = ui_Diagnostic (u_UI (o_User b))"
    by (rule DiagnosticOptions.equality) ((simp only: fields; fail) | rule unit)+
  have ui: "u_UI (o_User a) = u_UI (o_User b)"
    by (rule UIOptions.equality) ((simp only: doc comp nav diag fields; fail) | rule unit)+
  have user: "o_User a = o_User b"
    by (rule UserOptions.equality) ((simp only: build ui fields; fail) | rule unit)+
  have internal: "o_Internal a = o_Internal b"
    by (rule InternalOptions.equality) ((simp only: fields; fail) | rule unit)+
  show ?thesis
    by (rule Options.equality) ((simp only: user internal fields; fail) | rule unit)+
qed

lemma same_keys:
  "map fst xs = map fst ys \<Longrightarrow> distinct (map fst xs) \<Longrightarrow> map_of xs = map_of ys \<Longrightarrow> xs = ys"
proof (induction xs arbitrary: ys)
  case (Cons p xs)
  then obtain q ys' where ys: "ys = q # ys'" by (cases ys) auto
  obtain k v w where p: "p = (k, v)" "q = (k, w)" using Cons.prems(1) by (cases p; cases q) (auto simp: ys)
  have "v = w" using Cons.prems(3) by (metis ys p map_of_Cons_code(2) option.inject)
  moreover have "map_of xs x = map_of ys' x" for x
  proof (cases "x = k")
    case True
    have "k \<notin> set (map fst xs)" "k \<notin> set (map fst ys')" using Cons.prems(1,2) by (auto simp: ys p)
    then show ?thesis using True by (metis map_of_eq_None_iff list.set_map)
  next
    case False
    then show ?thesis using fun_cong [OF Cons.prems(3), of x] by (simp add: ys p)
  qed
  ultimately show ?case using Cons.IH [of ys'] Cons.prems(1,2) by (auto simp: ys p)
qed simp

lemma cell_keys: "map fst (cells a) = map fst (cells b)" "distinct (map fst (cells a))"
  by (simp_all add: cells_def)

lemma view_inject: "view a = view b \<Longrightarrow> a = b"
  unfolding view_def using cells_inject same_keys cell_keys by blast

end
