(* ===== verification/Settings_Order.thy ===== *)
theory Settings_Order
  imports Settings
begin

text \<open>
  Go iterates over a map of settings in no fixed order.  \<open>Options.Set\<close> gives the same options for every order, except
  when two settings write one field; a setting with an error leaves the options as they were, except two of them.
\<close>

section \<open>The order of the settings\<close>

text \<open>What one setting answers and how it changes its cell.\<close>

lemma setOne_effect:
  "\<exists>paths err u. \<forall>name v opts. fst (setOne PD name v opts) = paths name v
     \<and> fst (snd (setOne PD name v opts)) = err name v
     \<and> view (snd (snd (setOne PD name v opts))) = (view opts)(cell_name name := u name v (view opts (cell_name name)))"
  using setOne_touches [of _ PD] unfolding touches_def by metis

type_synonym entry = "string \<times> go_any"

definition entry_cell :: "entry \<Rightarrow> string" where
  "entry_cell e = cell_name (setting_name (fst e))"

lemma set_entries_eq:
  fixes paths :: "string \<Rightarrow> go_any \<Rightarrow> CounterPath list" and err :: "string \<Rightarrow> go_any \<Rightarrow> set_error option"
  assumes "\<And>name v opts. fst (setOne PD name v opts) = paths name v"
    "\<And>name v opts. fst (snd (setOne PD name v opts)) = err name v"
    "\<And>name v opts. view (snd (snd (setOne PD name v opts))) = (view opts)(cell_name name := u name v (view opts (cell_name name)))"
    and "distinct (map entry_cell es)" "\<forall>e \<in> set es. setting_name (fst e) \<notin> set seen"
  shows "fst (set_entries PD seen es opts) = concat (map (\<lambda>(n, v). applied_paths (setting_name n) (paths (setting_name n) v) (err (setting_name n) v)) es)
    \<and> fst (snd (set_entries PD seen es opts)) = concat (map (\<lambda>(n, v). case err (setting_name n) v of None \<Rightarrow> []
        | Some e \<Rightarrow> [Setting (setting_name n) e]) es)
    \<and> view (snd (snd (set_entries PD seen es opts))) =
        (\<lambda>c. case map_of (map (\<lambda>e. (entry_cell e, e)) es) c of None \<Rightarrow> view opts c | Some (n, v) \<Rightarrow> u (setting_name n) v (view opts c))"
  using assms(4,5)
proof (induction es arbitrary: seen opts)
  case (Cons e es)
  obtain n v where e: "e = (n, v)" by (cases e)
  define name where "name = setting_name n"
  obtain o1 where one: "setOne PD name v opts = (paths name v, err name v, o1)" using assms(1,2) by (metis prod.collapse)
  have view1: "view o1 = (view opts)(cell_name name := u name v (view opts (cell_name name)))"
    using assms(3) [of name v opts] by (simp add: one)
  have seen': "\<forall>e' \<in> set es. setting_name (fst e') \<notin> set (name # seen)"
  proof
    fix e' assume e': "e' \<in> set es"
    then have "entry_cell e' \<noteq> entry_cell e" using Cons.prems(1) by (metis distinct.simps(2) image_eqI list.set_map list.simps(9))
    then have "setting_name (fst e') \<noteq> name" by (auto simp: entry_cell_def e name_def)
    then show "setting_name (fst e') \<notin> set (name # seen)" using Cons.prems(2) e' by simp
  qed
  have d: "distinct (map entry_cell es)" using Cons.prems(1) by simp
  note ih = Cons.IH [OF d seen', of o1]
  obtain ap er o2 where rest: "set_entries PD (name # seen) es o1 = (ap, er, o2)" by (metis prod.collapse)
  have new: "name \<notin> set seen" using Cons.prems(2) by (simp add: e name_def)
  have all: "set_entries PD seen (e # es) opts
      = (applied_paths name (paths name v) (err name v) @ ap, (case err name v of None \<Rightarrow> [] | Some x \<Rightarrow> [Setting name x]) @ er, o2)"
    unfolding e using new by (simp add: Let_def name_def [symmetric] one rest)
  have fresh: "map_of (map (\<lambda>e. (entry_cell e, e)) es) (cell_name name) = None"
    using Cons.prems(1) by (auto simp: map_of_eq_None_iff e entry_cell_def name_def image_image)
  have ec: "entry_cell e = cell_name name" by (simp add: entry_cell_def e name_def)
  have v2: "view o2 = (\<lambda>c. case map_of (map (\<lambda>e. (entry_cell e, e)) es) c of None \<Rightarrow> view o1 c
      | Some (n, v) \<Rightarrow> u (setting_name n) v (view o1 c))" using ih by (simp add: rest)
  have "view o2 c = (case map_of (map (\<lambda>e. (entry_cell e, e)) (e # es)) c of None \<Rightarrow> view opts c
      | Some (n, v) \<Rightarrow> u (setting_name n) v (view opts c))" for c
  proof (cases "c = cell_name name")
    case True
    then show ?thesis by (simp add: v2 fresh ec view1) (simp add: e name_def)
  next
    case False
    then have "view o1 c = view opts c" by (simp add: view1)
    then show ?thesis using False by (simp add: v2 ec split: option.split)
  qed
  then have "view o2 = (\<lambda>c. case map_of (map (\<lambda>e. (entry_cell e, e)) (e # es)) c of None \<Rightarrow> view opts c
      | Some (n, v) \<Rightarrow> u (setting_name n) v (view opts c))" by (rule ext)
  moreover have "ap = concat (map (\<lambda>(n, v). applied_paths (setting_name n) (paths (setting_name n) v) (err (setting_name n) v)) es)"
    "er = concat (map (\<lambda>(n, v). case err (setting_name n) v of None \<Rightarrow> [] | Some e \<Rightarrow> [Setting (setting_name n) e]) es)"
    using ih by (simp_all add: rest)
  ultimately show ?case unfolding all fst_conv snd_conv unfolding name_def e by simp
qed simp

lemma map_of_permuted:
  assumes "mset xs = mset ys" "distinct (map f xs)"
  shows "map_of (map (\<lambda>e. (f e, e)) xs) = map_of (map (\<lambda>e. (f e, e)) ys)"
proof -
  have "distinct (map f ys)" using assms by (metis distinct_count_atmost_1 mset_map set_mset_mset mset_eq_setD)
  then show ?thesis using assms by (intro iffD2 [OF map_of_inject_set]) (auto simp: comp_def dest: mset_eq_setD)
qed

lemma mset_concat_map: "mset (concat (map f xs)) = \<Sum>\<^sub># (image_mset (\<lambda>x. mset (f x)) (mset xs))"
  by (induction xs) auto

lemma set_entries_order:
  assumes "mset es = mset es'" "distinct (map entry_cell es)"
  shows "snd (snd (set_entries PD [] es opts)) = snd (snd (set_entries PD [] es' opts))
    \<and> mset (fst (set_entries PD [] es opts)) = mset (fst (set_entries PD [] es' opts))
    \<and> mset (fst (snd (set_entries PD [] es opts))) = mset (fst (snd (set_entries PD [] es' opts)))"
proof -
  have d: "distinct (map entry_cell es')"
    using assms by (metis distinct_count_atmost_1 mset_map set_mset_mset mset_eq_setD)
  obtain paths err u where e: "\<And>name v opts. fst (setOne PD name v opts) = paths name v"
    "\<And>name v opts. fst (snd (setOne PD name v opts)) = err name v"
    "\<And>name v opts. view (snd (snd (setOne PD name v opts))) = (view opts)(cell_name name := u name v (view opts (cell_name name)))"
    using setOne_effect [of PD] by blast
  note a = set_entries_eq [OF e assms(2), of "[]"] and b = set_entries_eq [OF e d, of "[]"]
  have "view (snd (snd (set_entries PD [] es opts))) = view (snd (snd (set_entries PD [] es' opts)))"
    using a b map_of_permuted [OF assms] by simp
  then have "snd (snd (set_entries PD [] es opts)) = snd (snd (set_entries PD [] es' opts))" by (rule view_inject)
  then show ?thesis using a b by (simp add: mset_concat_map assms(1))
qed

section \<open>The default options (\<open>settings/default.go\<close>)\<close>

definition DefaultOptions :: Options where
  "DefaultOptions =
     \<lparr>ImportsSource = ''gopls'',
      o_User =
        \<lparr>u_Build =
           \<lparr>BuildFlags = [], Env = None, DirectoryFilters = [''-**/node_modules''], TemplateExtensions = [],
            ExpandWorkspaceToModule = True, StandaloneTags = [''ignore''], WorkspaceFiles = []\<rparr>,
         u_UI =
           \<lparr>ui_Documentation = \<lparr>HoverKind = ''FullDocumentation'', LinkTarget = ''pkg.go.dev'', LinksInHover = 1\<rparr>,
            ui_Completion =
              \<lparr>UsePlaceholders = False, CompletionBudget = 100000000, Matcher = ''Fuzzy'',
               ExperimentalPostfixCompletions = True, CompleteFunctionCalls = True\<rparr>,
            ui_Navigation = \<lparr>ImportShortcut = ''Both'', SymbolMatcher = ''FastFuzzy'', SymbolStyle = ''Dynamic'', SymbolScope = ''all''\<rparr>,
            ui_Diagnostic =
              \<lparr>Analyses = Map.empty, Staticcheck = False, StaticcheckProvided = False,
               Annotations = map_of [(''bounds'', True), (''escape'', True), (''inline'', True), (''nil'', True)],
               Vulncheck = ''Prompt'', DiagnosticsDelay = 1000000000, DiagnosticsTrigger = ''Edit'',
               AnalysisProgressReporting = True\<rparr>,
            Hints = Map.empty,
            Codelenses = map_of [(''generate'', True), (''regenerate_cgo'', True), (''tidy'', True),
              (''upgrade_dependency'', True), (''vendor'', True), (''run_govulncheck'', True)],
            SemanticTokens = False, NoSemanticString = False, NoSemanticNumber = False,
            SemanticTokenTypes = Map.empty, SemanticTokenModifiers = Map.empty,
            NewGoFileHeader = True, RenameMovesSubpackages = False\<rparr>,
         Local = [], Gofumpt = False, VerboseOutput = False\<rparr>,
      o_Internal =
        \<lparr>MCPTools = Map.empty, VerboseWorkDoneProgress = False, CompletionDocumentation = True, CompleteUnimported = True,
         DeepCompletion = True, ShowBugReports = False, SubdirWatchPatterns = ''auto'',
         ReportAnalysisProgressAfter = 5000000000, TelemetryPrompt = False, LinkifyShowMessage = False,
         IncludeReplaceInWorkspace = False, ZeroConfig = True, PullDiagnostics = False\<rparr>\<rparr>"

text \<open>Claim C37: the result of \<open>Options.Set\<close> does not depend on the order in which Go iterates over the map of settings, as long
  as no two of them write one field (the same last segment of a dotted name, or \<open>codelens\<close> beside \<open>codelenses\<close>): the
  options are the same, and the counters and the errors the same up to their order.\<close>

theorem Set_order:
  assumes "mset es = mset es'" "distinct (map entry_cell es)"
  shows "snd (snd (Set PD (MapV es) opts)) = snd (snd (Set PD (MapV es') opts))
    \<and> mset (fst (Set PD (MapV es) opts)) = mset (fst (Set PD (MapV es') opts))
    \<and> mset (fst (snd (Set PD (MapV es) opts))) = mset (fst (snd (Set PD (MapV es') opts)))"
  using set_entries_order [OF assms] by simp

lemma Set_order_witness:
  "snd (snd (Set (\<lambda>_. None) (MapV [(''ui.codelens'', MapV [(''test'', BoolV True)]), (''env'', MapV [(''A'', FloatV ''1'')])]) DefaultOptions))
   = snd (snd (Set (\<lambda>_. None) (MapV [(''env'', MapV [(''A'', FloatV ''1'')]), (''ui.codelens'', MapV [(''test'', BoolV True)])]) DefaultOptions))"
proof -
  have d: "distinct (map entry_cell [(''ui.codelens'', MapV [(''test'', BoolV True)]), (''env'', MapV [(''A'', FloatV ''1'')])])"
    by (simp add: entry_cell_def setting_name_def cell_name_def)
  show ?thesis by (rule Set_order [OF _ d, THEN conjunct1]) simp
qed

text \<open>Two names of one field: the order of iteration decides.\<close>

lemma codelens_order_matters:
  assumes "es = [(''codelens'', MapV [(''test'', BoolV True)]), (''codelenses'', MapV [(''test'', BoolV False)])]"
  shows "Codelenses (u_UI (o_User (snd (snd (Set PD (MapV es) opts))))) ''test'' = Some False"
    and "Codelenses (u_UI (o_User (snd (snd (Set PD (MapV (rev es)) opts))))) ''test'' = Some True"
  by (simp_all add: assms setting_name_def setOne_def set_codelenses_def at_defs Let_def split_beta)

lemma dotted_order_matters:
  "LinkTarget (ui_Documentation (u_UI (o_User (snd (snd (Set PD (MapV [(''linkTarget'', StrV a), (''ui.linkTarget'', StrV b)]) opts)))))) = b"
  by (simp add: setting_name_def setOne_def setString_def store_def at_defs Let_def split_beta)

section \<open>Errors\<close>

text \<open>An error other than a warning leaves the options as they were.\<close>

definition keeps :: "(Options \<Rightarrow> applied) \<Rightarrow> bool" where
  "keeps f \<longleftrightarrow> (\<forall>opts. fst (snd (f opts)) \<noteq> None \<and> \<not> soft (fst (snd (f opts))) \<longrightarrow> snd (snd (f opts)) = opts)"

lemma keeps_named:
  "keeps f \<Longrightarrow> keeps g \<Longrightarrow> keeps (\<lambda>opts. if P then f opts else g opts)"
  by (cases P) simp_all

lemma keeps_store: "keeps (store dest r counts)"
  by (cases r) (simp_all add: keeps_def store_def)

lemma keeps_setters:
  "keeps (setBool db value)" "keeps (setString ds value)" "keeps (setEnum ds value options)"
  "keeps (setDuration PD dd value)" "keeps (setStringSlice dl value)" "keeps (set_directory_filters value)"
  unfolding setBool_def setString_def setEnum_def setDuration_def setStringSlice_def set_directory_filters_def by (rule keeps_store)+

lemma keeps_maps: "keeps (setBoolMap dm value)" "keeps (setAnnotationMap dm value)" "keeps (set_codelenses name value)"
  by (auto simp: keeps_def setBoolMap_def setAnnotationMap_def set_codelenses_def Let_def split: outcome.splits)

lemma keeps_with_soft:
  assumes "keeps f"
  shows "keeps (with_soft f warn message)"
  unfolding keeps_def
proof (intro allI impI)
  fix opts
  assume h: "fst (snd (with_soft f warn message opts)) \<noteq> None \<and> \<not> soft (fst (snd (with_soft f warn message opts)))"
  obtain c e p where f: "f opts = (c, e, p)" by (metis prod.collapse)
  show "snd (snd (with_soft f warn message opts)) = opts"
    using h assms unfolding keeps_def with_soft_def
    by (cases e) (auto simp: f split: if_splits dest: spec [of _ opts])
qed

lemma keeps_links: "keeps (set_links value)"
  unfolding keeps_def by (intro allI, rule set_links.cases [of "(value, _)"]) auto

lemma keeps_template: "keeps (set_template_extensions value)"
proof (cases "value")
  case (SliceV vs)
  have "set_template_extensions value = setStringSlice (at_build \<circ> TemplateExtensions_update) (SliceV vs)"
    by (rule ext) (simp add: SliceV)
  then show ?thesis by (simp add: keeps_setters)
qed (simp_all add: keeps_def)

lemma keeps_unknown: "keeps (\<lambda>opts. case r of None \<Rightarrow> ([], Some e, opts) | Some x \<Rightarrow> ([], Some (err x), opts))"
  "keeps (\<lambda>opts. (paths, err', opts))"
  by (auto simp: keeps_def split: option.split)

text \<open>All settings but two keep the options when their value is wrong.\<close>

lemma keeps_skip: "name \<noteq> k \<Longrightarrow> keeps g \<Longrightarrow> keeps (\<lambda>opts. if name = k then f opts else g opts)"
  by simp

lemma setOne_keeps:
  assumes "name \<noteq> ''env''" "name \<noteq> ''staticcheck''"
  shows "keeps (setOne PD name value)"
  unfolding setOne_def [abs_def]
  by (rule keeps_skip [OF assms(1)] keeps_skip [OF assms(2)] keeps_setters keeps_maps keeps_with_soft keeps_links
    keeps_template keeps_unknown keeps_named)+

text \<open>Claim C38: a setting whose value is refused leaves all options as they were, whatever it was meant to write; the
  exceptions are \<open>env\<close>, whose entries before the first bad one stay, and \<open>staticcheck\<close>, which stays marked as provided.\<close>

theorem setOne_error_keeps:
  assumes "setOne PD name value opts = (paths, Some e, opts')" "\<not> soft (Some e)" "name \<noteq> ''env''" "name \<noteq> ''staticcheck''"
  shows "opts' = opts"
  using setOne_keeps [OF assms(3,4), of PD "value"] assms(1,2) unfolding keeps_def by (metis fst_conv option.distinct(1) snd_conv)

lemma setOne_error_keeps_witness:
  "snd (snd (setOne (\<lambda>_. None) ''hoverKind'' (StrV ''Loud'') DefaultOptions)) = DefaultOptions"
proof -
  have f: "List.find (EqualFold ''Loud'') [''NoDocumentation'', ''SingleLine'', ''SynopsisDocumentation'', ''FullDocumentation'', ''Structured''] = None"
    by code_simp
  have "setOne (\<lambda>_. None) ''hoverKind'' (StrV ''Loud'') DefaultOptions = ([], Some (InvalidOption ''Loud''), DefaultOptions)"
    unfolding setOne_def by (simp add: setEnum_def asEnum_def store_def f del: List.find.simps)
  then show ?thesis using setOne_error_keeps by (metis set_error.distinct snd_conv)
qed

text \<open>The two exceptions, on what a configuration file can hold: a number of JSON is a float.\<close>

lemma env_number_of_json:
  "setOne PD ''env'' (MapV [(''GOFLAGS'', StrV ''-mod=mod''), (''CGO_ENABLED'', FloatV ''1''), (''GOOS'', StrV ''linux'')]) opts
   = ([], Some (InvalidMapValue (FloatV ''1'')), at_build (Env_update (\<lambda>_. Some
       ((case Env (u_Build (o_User opts)) of None \<Rightarrow> Map.empty | Some m \<Rightarrow> m)(''GOFLAGS'' \<mapsto> ''-mod=mod'')))) opts)"
  by (simp add: setOne_def)

lemma staticcheck_provided_by_error:
  "setOne PD ''staticcheck'' (StrV ''on'') opts
   = ([], Some (InvalidType (StrV ''on'')), at_diagnostic (StaticcheckProvided_update (\<lambda>_. True)) opts)"
  by (simp add: setOne_def setBool_def store_def)

text \<open>The replacement that the message for \<open>disableFuzzyMatching\<close> names is itself one of the renamed settings.\<close>

lemma renamed_to_renamed: "map_of renamed_settings (the (map_of renamed_settings ''disableFuzzyMatching'')) = Some ''matcher''"
  by (simp add: renamed_settings_def)

end
