(* ===== verification/Server_Start.thy ===== *)
theory Server_Start
  imports Settings_Order Tool_Registry
begin

text \<open>
  The configuration of the server (\<open>mcpbridge/core/config.go\<close>) and the decisions of \<open>Execute\<close>
  (\<open>mcpbridge/pkg/execute.go\<close>) before it serves: project directory, options of gopls, and what the watcher skips.
  Parameters stand for the operating system and for the parser of JSON texts; the decoding of a parsed text into the
  configuration is modelled.
\<close>

section \<open>Configuration\<close>

record MCPConfig =
  mc_Gopls :: "entry list"
  mc_Workdir :: string
  mc_MaxResponseBytes :: int

definition DefaultConfig :: MCPConfig where
  "DefaultConfig = \<lparr>mc_Gopls = [], mc_Workdir = [], mc_MaxResponseBytes = 32000\<rparr>"

text \<open>Decoding into \<open>any\<close>: a number is a float, and the last entry of a key counts.\<close>

fun of_json :: "json \<Rightarrow> go_any" where
  "of_json JNull = NilV"
| "of_json (JBool b) = BoolV b"
| "of_json (JNum n) = FloatV n"
| "of_json (JStr s) = StrV s"
| "of_json (JArr vs) = SliceV (map of_json vs)"
| "of_json (JObj es) = MapV (fold (\<lambda>(k, v). AList.update k v) (map (\<lambda>(k, v). (k, of_json v)) es) [])"

text \<open>A number decodes into an \<open>int\<close> when it is written as one and fits in 64 bits.\<close>

definition json_int :: "string \<Rightarrow> int option" where
  "json_int n =
     (let neg = has_prefix n ''-''; ds = (if neg then tl n else n);
          v = fold (\<lambda>d acc. 10 * acc + (byte d - 48)) ds 0; i = (if neg then - v else v)
      in if ds \<noteq> [] \<and> list_all (\<lambda>d. 48 \<le> byte d \<and> byte d \<le> 57) ds \<and> - (2 ^ 63) \<le> i \<and> i < 2 ^ 63 then Some i else None)"

text \<open>One entry of the object, with the flag that no entry had a wrong type so far; keys are matched by \<open>EqualFold\<close>,
  an unknown key is ignored, and \<open>null\<close> changes nothing but the map.\<close>

definition decode_entry :: "string \<times> json \<Rightarrow> MCPConfig \<times> bool \<Rightarrow> MCPConfig \<times> bool" where
  "decode_entry = (\<lambda>(key, v) (c, ok).
     if EqualFold key ''gopls'' then
       (case v of
          JObj es \<Rightarrow> (c\<lparr>mc_Gopls := fold (\<lambda>(k, x). AList.update k (of_json x)) es (mc_Gopls c)\<rparr>, ok)
        | JNull \<Rightarrow> (c\<lparr>mc_Gopls := []\<rparr>, ok)
        | _ \<Rightarrow> (c, False))
     else if EqualFold key ''workdir'' then
       (case v of JStr s \<Rightarrow> (c\<lparr>mc_Workdir := s\<rparr>, ok) | JNull \<Rightarrow> (c, ok) | _ \<Rightarrow> (c, False))
     else if EqualFold key ''max_response_bytes'' then
       (case v of
          JNum n \<Rightarrow> (case json_int n of Some i \<Rightarrow> (c\<lparr>mc_MaxResponseBytes := i\<rparr>, ok) | None \<Rightarrow> (c, False))
        | JNull \<Rightarrow> (c, ok)
        | _ \<Rightarrow> (c, False))
     else (c, ok))"

definition decode_config :: "json \<Rightarrow> MCPConfig \<times> bool" where
  "decode_config j =
     (let zero = \<lparr>mc_Gopls = [], mc_Workdir = [], mc_MaxResponseBytes = 0\<rparr>
      in case j of JObj es \<Rightarrow> fold decode_entry es (zero, True) | JNull \<Rightarrow> (zero, True) | _ \<Rightarrow> (zero, False))"

datatype start_error = ConfigUnreadable | ConfigInvalid | NoWorkingDirectory

definition LoadConfig :: "(string \<Rightarrow> json option) \<Rightarrow> string \<Rightarrow> (start_error, MCPConfig) outcome" where
  "LoadConfig Parse data =
     (if data = [] then Ok DefaultConfig
      else case Parse data of
        None \<Rightarrow> Err ConfigInvalid
      | Some j \<Rightarrow>
          (case decode_config j of
             (c, False) \<Rightarrow> Err ConfigInvalid
           | (c, True) \<Rightarrow> Ok (if mc_MaxResponseBytes c = 0 then c\<lparr>mc_MaxResponseBytes := 32000\<rparr> else c)))"

text \<open>A setting with an error is skipped, the others are applied; the flag says that there was none.\<close>

definition ApplyGoplsOptions :: "(string \<Rightarrow> Duration option) \<Rightarrow> MCPConfig \<Rightarrow> Options \<Rightarrow> Options \<times> bool" where
  "ApplyGoplsOptions PD c opts =
     (if mc_Gopls c = [] then (opts, True)
      else case Set PD (MapV (mc_Gopls c)) opts of (_, errs, opts') \<Rightarrow> (opts', errs = []))"

section \<open>Start\<close>

record system =
  sy_Getwd :: "string option"
  sy_ReadFile :: "string \<Rightarrow> string option"
  sy_Parse :: "string \<Rightarrow> json option"
  sy_ParseDuration :: "string \<Rightarrow> Duration option"

record flags =
  fl_Workdir :: string
  fl_Config :: string
  fl_DirectoryFilters :: string

record started =
  st_Dir :: string
  st_Config :: MCPConfig
  st_Options :: Options
  st_Skip :: "(string \<Rightarrow> bool) option"

definition project_dir :: "system \<Rightarrow> flags \<Rightarrow> (start_error, string) outcome" where
  "project_dir sys fl =
     (if fl_Workdir fl \<noteq> [] then Ok (fl_Workdir fl)
      else case sy_Getwd sys of Some d \<Rightarrow> Ok d | None \<Rightarrow> Err NoWorkingDirectory)"

definition read_config :: "system \<Rightarrow> flags \<Rightarrow> (start_error, MCPConfig) outcome" where
  "read_config sys fl =
     (if fl_Config fl = [] then Ok DefaultConfig
      else case sy_ReadFile sys (fl_Config fl) of
        None \<Rightarrow> Err ConfigUnreadable
      | Some data \<Rightarrow> LoadConfig (sy_Parse sys) data)"

text \<open>The filters of the command line replace the entry of the configuration.\<close>

definition merge_filters :: "flags \<Rightarrow> MCPConfig \<Rightarrow> MCPConfig" where
  "merge_filters fl c =
     (if fl_DirectoryFilters fl = [] then c
      else c\<lparr>mc_Gopls := AList.update ''directoryFilters'' (SliceV (map StrV (cli_filters (fl_DirectoryFilters fl)))) (mc_Gopls c)\<rparr>)"

definition Execute :: "system \<Rightarrow> flags \<Rightarrow> (start_error, started) outcome" where
  "Execute sys fl =
     bind_outcome (project_dir sys fl) (\<lambda>dir0.
     bind_outcome (read_config sys fl) (\<lambda>c0.
       let config = merge_filters fl c0;
           dir = (if mc_Workdir config \<noteq> [] then mc_Workdir config else dir0);
           options = fst (ApplyGoplsOptions (sy_ParseDuration sys) config DefaultOptions);
           filters = DirectoryFilters (u_Build (o_User options))
       in if filters = [] then Ok \<lparr>st_Dir = dir, st_Config = config, st_Options = options, st_Skip = None\<rparr>
          else case makeDirectoryFilterSkipFunc filters dir of
            Ok skip \<Rightarrow> Ok \<lparr>st_Dir = dir, st_Config = config, st_Options = options, st_Skip = Some skip\<rparr>
          | _ \<Rightarrow> Panic))"

section \<open>The filters that take effect\<close>

lemma string_elements_StrV: "string_elements (map StrV fs) = Ok fs"
  by (induction fs) auto

lemma view_filters_field: "view opts ''directoryFilters'' = Some (CL (DirectoryFilters (u_Build (o_User opts))))"
  by (simp add: view_def cells_def)

lemma cell_filters: "entry_cell (n, v) = ''directoryFilters'' \<longleftrightarrow> setting_name n = ''directoryFilters''"
  by (simp add: entry_cell_def cell_name_def)

text \<open>Of several settings that write different fields, the one for the filters alone decides what they are.\<close>

lemma filters_after_set:
  assumes "distinct (map entry_cell es)" "(n, v) \<in> set es" "setting_name n = ''directoryFilters''"
  shows "DirectoryFilters (u_Build (o_User (snd (snd (set_entries PD [] es opts)))))
    = DirectoryFilters (u_Build (o_User (snd (snd (set_directory_filters v opts)))))"
proof -
  obtain paths err u where e: "\<And>name v opts. fst (setOne PD name v opts) = paths name v"
    "\<And>name v opts. fst (snd (setOne PD name v opts)) = err name v"
    "\<And>name v opts. view (snd (snd (setOne PD name v opts))) = (view opts)(cell_name name := u name v (view opts (cell_name name)))"
    using setOne_effect [of PD] by blast
  note a = set_entries_eq [OF e assms(1), of "[]" opts]
  have "map_of (map (\<lambda>e. (entry_cell e, e)) es) ''directoryFilters'' = Some (n, v)"
  proof (rule map_of_is_SomeI)
    show "distinct (map fst (map (\<lambda>e. (entry_cell e, e)) es))" using assms(1) by (simp add: comp_def)
    show "(''directoryFilters'', n, v) \<in> set (map (\<lambda>e. (entry_cell e, e)) es)"
      using assms(2,3) cell_filters [of n v] by force
  qed
  then have "view (snd (snd (set_entries PD [] es opts))) ''directoryFilters'' = u ''directoryFilters'' v (view opts ''directoryFilters'')"
    using a assms(3) by simp
  also have "\<dots> = view (snd (snd (setOne PD ''directoryFilters'' v opts))) ''directoryFilters''"
    using e(3) [of "''directoryFilters''" v opts] by (simp add: cell_name_def)
  also have "setOne PD ''directoryFilters'' v opts = set_directory_filters v opts" by (simp add: setOne_def)
  finally show ?thesis by (simp add: view_filters_field)
qed

lemma set_directory_filters_strings:
  "DirectoryFilters (u_Build (o_User (snd (snd (set_directory_filters (SliceV (map StrV fs)) opts)))))
   = (case validate_filters fs of Ok gs \<Rightarrow> gs | _ \<Rightarrow> DirectoryFilters (u_Build (o_User opts)))"
  by (cases "validate_filters fs") (simp_all add: set_directory_filters_def string_elements_StrV store_def at_defs)

lemma Execute_Ok:
  assumes "Execute sys fl = Ok s" "read_config sys fl = Ok c"
  shows "st_Config s = merge_filters fl c"
    and "st_Options s = fst (ApplyGoplsOptions (sy_ParseDuration sys) (merge_filters fl c) DefaultOptions)"
    and "DirectoryFilters (u_Build (o_User (st_Options s))) \<noteq> [] \<Longrightarrow>
      (\<exists>skip. st_Skip s = Some skip \<and> makeDirectoryFilterSkipFunc (DirectoryFilters (u_Build (o_User (st_Options s)))) (st_Dir s) = Ok skip)"
    and "DirectoryFilters (u_Build (o_User (st_Options s))) = [] \<Longrightarrow> st_Skip s = None"
  using assms by (auto simp: Execute_def Let_def bind_outcome_Ok_iff split: if_splits outcome.splits)

text \<open>With the flag, the filters are those of the flag when all are valid, and the default otherwise: one bad filter discards
  the others and what the configuration file says.\<close>

lemma flag_filters:
  assumes "Execute sys fl = Ok s" "read_config sys fl = Ok c" "fl_DirectoryFilters fl \<noteq> []"
    and "distinct (map entry_cell (mc_Gopls (merge_filters fl c)))"
  shows "DirectoryFilters (u_Build (o_User (st_Options s)))
    = (case validate_filters (cli_filters (fl_DirectoryFilters fl)) of Ok gs \<Rightarrow> gs | _ \<Rightarrow> [''-**/node_modules''])"
proof -
  let ?v = "SliceV (map StrV (cli_filters (fl_DirectoryFilters fl)))"
  have es: "mc_Gopls (merge_filters fl c) = AList.update ''directoryFilters'' ?v (mc_Gopls c)"
    using assms(3) by (simp add: merge_filters_def)
  have ne: "mc_Gopls (merge_filters fl c) \<noteq> []" unfolding es by (cases "mc_Gopls c") auto
  have "map_of (mc_Gopls (merge_filters fl c)) ''directoryFilters'' = Some ?v" unfolding es by (simp add: update_conv')
  then have mem: "(''directoryFilters'', ?v) \<in> set (mc_Gopls (merge_filters fl c))" by (rule map_of_SomeD)
  have n: "setting_name ''directoryFilters'' = ''directoryFilters''" by (simp add: setting_name_def)
  have d: "DirectoryFilters (u_Build (o_User DefaultOptions)) = [''-**/node_modules'']" by (simp add: DefaultOptions_def)
  have "st_Options s = snd (snd (set_entries (sy_ParseDuration sys) [] (mc_Gopls (merge_filters fl c)) DefaultOptions))"
    using Execute_Ok(2) [OF assms(1,2)] ne by (simp add: ApplyGoplsOptions_def split_beta)
  then show ?thesis
    using filters_after_set [OF assms(4) mem n, of "sy_ParseDuration sys" DefaultOptions]
    unfolding set_directory_filters_strings d by simp
qed

text \<open>The directories of a tree by the names that lead to them, and those that \<open>WatchDir\<close> watches.\<close>

fun dir_at :: "fs_tree \<Rightarrow> string list \<Rightarrow> bool" where
  "dir_at t [] \<longleftrightarrow> is_dir t"
| "dir_at t (x # xs) \<longleftrightarrow> (case t of FsDir es \<Rightarrow> list_ex (\<lambda>(name, t'). name = x \<and> dir_at t' xs) es | _ \<Rightarrow> False)"

abbreviation rooted :: "string list \<Rightarrow> string" where
  "rooted xs \<equiv> SLASH # str_join [SLASH] xs"

fun all_kept :: "fs_env \<Rightarrow> string list \<Rightarrow> string list \<Rightarrow> bool" where
  "all_kept env rs [] \<longleftrightarrow> \<not> skipped_dir env (rooted rs)"
| "all_kept env rs (x # xs) \<longleftrightarrow> \<not> skipped_dir env (rooted rs) \<and> \<not> skipDir x \<and> all_kept env (rs @ [x]) xs"

lemma all_kept_iff:
  "all_kept env rs xs \<longleftrightarrow> (\<forall>x \<in> set xs. \<not> skipDir x) \<and> (\<forall>k \<le> length xs. \<not> skipped_dir env (rooted (rs @ take k xs)))"
proof (induction xs arbitrary: rs)
  case (Cons x xs)
  have "(\<forall>k \<le> Suc n. P k) \<longleftrightarrow> P 0 \<and> (\<forall>k \<le> n. P (Suc k))" for n and P :: "nat \<Rightarrow> bool"
    by (metis Suc_le_mono not0_implies_Suc zero_le)
  then show ?case by (auto simp: Cons.IH)
qed simp

lemma plain_path_append: "plain_path (xs @ ys) \<longleftrightarrow> plain_path xs \<and> plain_path ys"
  unfolding plain_path_def set_append by blast

lemma plain_path_take: "plain_path xs \<Longrightarrow> plain_path (take k xs)"
  by (metis append_take_drop_id plain_path_append)

lemma Join_rooted:
  assumes "plain_path rs" "rs \<noteq> []" "plain_path [x]"
  shows "filepath_Join (rooted rs) x = rooted (rs @ [x])"
proof -
  have "plain_path (rs @ [x])" using assms by (simp add: plain_path_def)
  then have "filepath_Clean (rooted (rs @ [x])) = rooted (rs @ [x])" using clean_rooted by (auto simp: plain_path_def)
  moreover have "rooted rs @ SLASH # x = rooted (rs @ [x])" using str_join_append [OF assms(2), of "[x]" "[SLASH]"] by simp
  ultimately show ?thesis by (simp add: filepath_Join_def)
qed

lemma dir_at_cases:
  "dir_at (FsDir es) xs \<longleftrightarrow> xs = [] \<or> (\<exists>(x, t) \<in> set es. \<exists>ys. xs = x # ys \<and> dir_at t ys)"
  "\<not> dir_at FsFile xs"
  by (cases xs; auto simp: is_dir_def list_ex_iff)+

lemma wanted_children_Union:
  "wanted_children env path es = (\<Union>(name, t) \<in> set es. wanted_dirs env (filepath_Join path name) name t)"
  by (induction es) (auto simp del: wanted_dirs.simps)

lemma wanted_dirs_iff:
  assumes "plain_path rs" "rs \<noteq> []" "\<And>xs. dir_at t xs \<Longrightarrow> plain_path xs"
  shows "p \<in> wanted_dirs env (rooted rs) name t \<longleftrightarrow>
    \<not> skipDir name \<and> (\<exists>xs. dir_at t xs \<and> p = rooted (rs @ xs) \<and> all_kept env rs xs)"
  using assms
proof (induction t arbitrary: rs name)
  case (FsDir es)
  have entry: "p \<in> wanted_dirs env (filepath_Join (rooted rs) x) x t \<longleftrightarrow>
      \<not> skipDir x \<and> (\<exists>xs. dir_at t xs \<and> p = rooted (rs @ x # xs) \<and> all_kept env (rs @ [x]) xs)"
    if e: "(x, t) \<in> set es" for x t
  proof (cases "is_dir t")
    case True
    have below: "dir_at (FsDir es) (x # xs)" if "dir_at t xs" for xs
      using e that by (auto simp: list_ex_iff)
    have x: "plain_path [x]" by (rule FsDir.prems(3) [OF below]) (simp add: True)
    have t: "plain_path xs" if "dir_at t xs" for xs
      using FsDir.prems(3) [OF below [OF that]] by (simp add: plain_path_def)
    have r: "plain_path (rs @ [x])" using FsDir.prems(1) x by (simp add: plain_path_def)
    show ?thesis
      using FsDir.IH [OF e _ r _ t, of t x] unfolding Join_rooted [OF FsDir.prems(1,2) x] by simp
  next
    case False
    then have "\<not> dir_at t xs" for xs by (cases xs; cases t) (auto simp: is_dir_def)
    then show ?thesis using False by simp
  qed
  have split: "(\<exists>xs. Q xs) \<longleftrightarrow> Q [] \<or> (\<exists>x xs. Q (x # xs))" for Q :: "string list \<Rightarrow> bool"
    by (metis list.exhaust)
  have "p \<in> wanted_children env (rooted rs) es \<longleftrightarrow>
      (\<exists>x t xs. (x, t) \<in> set es \<and> dir_at t xs \<and> p = rooted (rs @ x # xs) \<and> \<not> skipDir x \<and> all_kept env (rs @ [x]) xs)"
    unfolding wanted_children_Union using entry by fast
  then show ?case
    unfolding split [of "\<lambda>xs. dir_at (FsDir es) xs \<and> p = rooted (rs @ xs) \<and> all_kept env rs xs"]
    by (auto simp: is_dir_def list_ex_iff)
next
  case FsFile
  have "\<not> dir_at FsFile xs" for xs by (cases xs) (simp_all add: is_dir_def)
  then show ?case by (simp add: is_dir_def)
next
  case (FsFailed e)
  have "dir_at (FsFailed e) xs \<longleftrightarrow> xs = []" for xs by (cases xs) (simp_all add: is_dir_def)
  then show ?case by (auto simp: is_dir_def)
next
  case FsClosed
  have "dir_at FsClosed xs \<longleftrightarrow> xs = []" for xs by (cases xs) (simp_all add: is_dir_def)
  then show ?case by (auto simp: is_dir_def)
qed

lemma Base_rooted:
  assumes "plain_path rs" "rs \<noteq> []" shows "filepath_Base (rooted rs) = last rs"
proof -
  have e: "\<forall>x \<in> set rs. element x" using assms(1) by (simp add: plain_path_def)
  obtain ys x where xs: "rs = ys @ [x]" using assms(2) by (metis append_butlast_last_id)
  have x: "x \<noteq> []" "SLASH \<notin> set x" using e xs by (simp_all add: element_def)
  have "last (rooted rs) \<noteq> SLASH" by (rule last_join [OF e assms(2)])
  then have stripped: "rev (dropWhile (\<lambda>c. c = SLASH) (rev (rooted rs))) = rooted rs"
    by (cases "rooted rs" rule: rev_cases) auto
  have "\<exists>y. rooted rs = y @ SLASH # x"
    using str_join_append [of ys "[x]" "[SLASH]"] by (cases "ys = []") (auto simp: xs)
  then obtain y where "rooted rs = y @ SLASH # x" by blast
  then have "last_element (rooted rs) = x"
    using last_index_byte_Some [of "y @ SLASH # x" SLASH "length y"] x(2) by (simp add: last_element_def)
  then show ?thesis using x(1) xs unfolding filepath_Base_def Let_def stripped by simp
qed

text \<open>A watcher with the skip function of the rules, in a root with a readable tree.\<close>

lemma WatchDir_rules:
  assumes "\<And>xs. plain_path xs \<Longrightarrow> xs \<noteq> [] \<Longrightarrow> skip (rooted (rs @ xs)) = (\<not> last_rule rules xs)"
    and "skip (rooted rs) = (\<not> last_rule rules [''.''])" "plain_path rs" "rs \<noteq> []"
    and env: "env_skipDirFunc env = Some skip" "env_tree env (rooted rs) = Ok t" "\<And>p. watch_error env p = None"
    and tree: "\<And>xs. dir_at t xs \<Longrightarrow> plain_path xs"
  shows "\<exists>known. WatchDir env (rooted rs) [] = (Ok (), known)
    \<and> (\<forall>p. p \<in> set known \<longleftrightarrow> (\<exists>xs. dir_at t xs \<and> p = rooted (rs @ xs) \<and> (\<forall>x \<in> set (last rs # xs). \<not> skipDir x)
         \<and> last_rule rules [''.''] \<and> (\<forall>k. 0 < k \<and> k \<le> length xs \<longrightarrow> last_rule rules (take k xs))))"
proof -
  have clean: "filepath_Clean (rooted rs) = rooted rs" using clean_rooted assms(3) by (auto simp: plain_path_def)
  obtain known where w: "WatchDir env (rooted rs) [] = (Ok (), known)"
    "set known = wanted_dirs env (rooted rs) (last rs) t"
    using WatchDir_spec [of env "rooted rs" "[]", unfolded clean Base_rooted [OF assms(3,4)] Let_def] env(2,3)
    by (auto simp del: wanted_dirs.simps)
  have kept: "(\<forall>k \<le> length xs. \<not> skipped_dir env (rooted (rs @ take k xs))) \<longleftrightarrow>
      last_rule rules [''.''] \<and> (\<forall>k. 0 < k \<and> k \<le> length xs \<longrightarrow> last_rule rules (take k xs))"
    if "dir_at t xs" for xs
  proof -
    have "skipped_dir env (rooted (rs @ take k xs)) = (\<not> last_rule rules (if k = 0 then [''.''] else take k xs))"
      if "k \<le> length xs" for k
    proof (cases "k = 0")
      case False
      have "plain_path (take k xs)" using tree [OF \<open>dir_at t xs\<close>] by (rule plain_path_take)
      moreover have "take k xs \<noteq> []" using False that by (cases xs) simp_all
      ultimately have "skip (rooted (rs @ take k xs)) = (\<not> last_rule rules (take k xs))" by (rule assms(1))
      then show ?thesis using False by (simp only: skipped_dir_def env(1) option.case if_False)
    qed (simp add: skipped_dir_def env(1) assms(2))
    then have "(\<forall>k \<le> length xs. \<not> skipped_dir env (rooted (rs @ take k xs))) \<longleftrightarrow>
        (\<forall>k \<le> length xs. last_rule rules (if k = 0 then [''.''] else take k xs))" by simp
    also have "\<dots> \<longleftrightarrow> last_rule rules [''.''] \<and> (\<forall>k. 0 < k \<and> k \<le> length xs \<longrightarrow> last_rule rules (take k xs))"
      by (auto split: if_splits)
    finally show ?thesis .
  qed
  have "p \<in> set known \<longleftrightarrow> (\<exists>xs. dir_at t xs \<and> p = rooted (rs @ xs) \<and> (\<forall>x \<in> set (last rs # xs). \<not> skipDir x)
       \<and> last_rule rules [''.''] \<and> (\<forall>k. 0 < k \<and> k \<le> length xs \<longrightarrow> last_rule rules (take k xs)))" for p
  proof -
    have "p \<in> wanted_dirs env (rooted rs) (last rs) t \<longleftrightarrow>
        \<not> skipDir (last rs) \<and> (\<exists>xs. dir_at t xs \<and> p = rooted (rs @ xs) \<and> all_kept env rs xs)"
      by (rule wanted_dirs_iff [OF assms(3,4) tree])
    then show ?thesis unfolding w(2) all_kept_iff list.set(2) ball_simps using kept by blast
  qed
  then show ?thesis using w(1) by blast
qed


text \<open>A start in \<open>/w/p\<close> without configuration file.\<close>

definition plain_system :: system where
  "plain_system = \<lparr>sy_Getwd = Some ''/w/p'', sy_ReadFile = (\<lambda>_. None), sy_Parse = (\<lambda>_. None), sy_ParseDuration = (\<lambda>_. None)\<rparr>"

definition vendor_flags :: flags where
  "vendor_flags = \<lparr>fl_Workdir = [], fl_Config = [], fl_DirectoryFilters = ''-vendor,''\<rparr>"

definition project_tree :: fs_tree where
  "project_tree = FsDir [(''vendor'', FsDir [(''a'', FsDir [])]), (''web'', FsDir [(''css'', FsDir [])]), (''.git'', FsDir []), (''m.go'', FsFile)]"


text \<open>A filter with an operator that is not supported: the default filters take effect, not the other filters of the flag.\<close>

lemma one_bad_filter_discards_all:
  assumes "Execute sys fl = Ok s" "read_config sys fl = Ok c" "fl_DirectoryFilters fl = ''-vendor,-*.gen''"
    and "distinct (map entry_cell (mc_Gopls (merge_filters fl c)))"
  shows "DirectoryFilters (u_Build (o_User (st_Options s))) = [''-**/node_modules'']"
proof -
  have "\<exists>e. validate_filters (cli_filters ''-vendor,-*.gen'') = Err e"
    by (rule exI [of _ "''invalid filter -*.gen, operator * not supported. If you want to have this operator supported, consider filing an issue''"]) code_simp
  then show ?thesis using flag_filters [OF assms(1,2) _ assms(4)] assms(3) by auto
qed

text \<open>The limit of a started server is never the one of \<open>tool.go\<close>: without an own limit it is 32000, not 32 KiB.\<close>

lemma started_limit:
  "read_config sys fl = Ok c \<Longrightarrow> mc_MaxResponseBytes c \<noteq> 0 \<and> max_bytes (mc_MaxResponseBytes c) = mc_MaxResponseBytes c"
  by (auto simp: read_config_def LoadConfig_def DefaultConfig_def max_bytes_def split: if_splits option.splits bool.splits prod.splits)

text \<open>The directory of the configuration file counts more than the flag \<open>-workdir\<close>.\<close>

lemma config_workdir_wins:
  assumes "Execute sys fl = Ok s" "read_config sys fl = Ok c" "mc_Workdir c \<noteq> []"
  shows "st_Dir s = mc_Workdir c"
proof -
  have "mc_Workdir (merge_filters fl c) = mc_Workdir c" by (simp add: merge_filters_def)
  then show ?thesis
    using assms by (auto simp: Execute_def Let_def bind_outcome_Ok_iff split: if_splits outcome.splits)
qed

end
