(* ===== verification/Spec2Isabelle.thy ===== *)
theory Spec2Isabelle
  imports Graph_Update Watch_Pipeline Diff_Edits Diff_Merge Diff_Lines Diff_Unified Diff_Strings Persistent_Map Persistent_Set
    Package_Set Bloom_Filter Truncation File_Summary Response_Limiter Get_Started Package_Symbols Workspace_Analyzer
    Symbol_Detail Rename_Preview Tool_Formats Call_Hierarchy Path_Filter Tool_Registry Server_Start
begin

text \<open>
  A verification development for \<open>gopls-mcp\<close>, an MCP server over the Go language server \<open>gopls\<close>.

  \<^bold>\<open>The program.\<close>  An agent calls tools (\<open>go_list_modules\<close>, \<open>go_list_module_packages\<close>,
  \<open>go_list_package_symbols\<close>, \<open>go_get_dependency_graph\<close>, \<open>go_read_file\<close>, \<open>get_started\<close>,
  \<open>analyze_workspace\<close> and others).  A handler in \<open>gopls/mcpbridge/core\<close> finds the view of the working
  directory, asks the snapshot of gopls for package metadata, files and symbols, builds a result and its
  text, and the response limiter cuts a reply that is too long.  The metadata is an immutable graph with
  indexes, updated by \<open>Graph.Update\<close>; sets and maps of gopls are persistent treaps, sparse bit vectors and
  bloom filters; positions travel as UTF-16 columns and text changes as edits.  A file watcher feeds
  events of the file system through three goroutines to the session, which then drops stale snapshots.

  \<^bold>\<open>Theories, from the ground up.\<close>  \<open>Go_Prelude\<close>: the outcome of a Go function (\<open>Ok\<close>, \<open>Err\<close>, \<open>Panic\<close>),
  slices and package \<open>strings\<close>.  \<open>Utf8\<close>, \<open>Json\<close>, \<open>Paths\<close>: the parts of \<open>unicode/utf8\<close>,
  \<open>encoding/json\<close> and \<open>path/filepath\<close> that the code uses.  \<open>Containers\<close>: the contracts \<open>map_contract\<close>,
  \<open>set_contract\<close> and \<open>filter_contract\<close> as locales.  \<open>Dfs\<close>: depth-first search with a set of seen nodes.

  \<^item> Text: \<open>Diff_Edits\<close>, \<open>Diff_Merge\<close>, \<open>Diff_Lines\<close>, \<open>Diff_Unified\<close> are
    \<open>tools/internal/diff/{diff,merge,unified}.go\<close>; \<open>Mapper\<close> is \<open>safetoken.go\<close> and
    \<open>gopls/internal/protocol/{mapper,span,edits}.go\<close>.  Applying, merging and widening edits, the hunks of a
    unified diff run as a patch, and the way from byte offsets to UTF-16 positions and back.
  \<^item> Comparing texts: \<open>Lcs\<close> is package \<open>tools/internal/diff/lcs\<close>, the search of Myers from both ends of
    two sequences, and \<open>Diff_Strings\<close> (\<open>ndiff.go\<close>, \<open>Unified\<close>) turns its differences into edits.
    \<open>Edit_Paths\<close> is the theory of paths in the edit graph; \<open>Lcs_Chains\<close> (diagonals, their repair, the
    differences), \<open>Lcs_Search\<close> and \<open>Lcs_Back\<close> (the two halves of the search) and \<open>Lcs_Two\<close> (their
    meeting) prove it right.
  \<^item> Containers: \<open>Persistent_Map\<close> and \<open>Persistent_Set\<close> (\<open>util/persistent/{map,set}.go\<close>),
    \<open>Package_Set\<close> (\<open>cache/typerefs/packageset.go\<close> on words of 64 bits, \<open>util/moremaps\<close>) and
    \<open>Bloom_Filter\<close> (\<open>bloom/filter.go\<close>).  Each keeps an invariant and interprets a contract of \<open>Containers\<close>.
  \<^item> Package graph: \<open>Metadata_Graph\<close> (\<open>cache/metadata/{metadata,graph}.go\<close>: \<open>newGraph\<close>, its indexes and
    the traversals), \<open>Scc\<close> (Tarjan's search inside \<open>detectImportCycles\<close>, with its union-find forest, stack
    and low links) and \<open>Graph_Update\<close> (\<open>breakImportCycles\<close>, \<open>Update\<close>).
  \<^item> Handlers: \<open>Workspace\<close> (\<open>getView\<close>, \<open>viewForDir\<close>), \<open>Modules\<close>, \<open>Packages\<close>, \<open>Get_Started\<close> (the parts of
    \<open>mcpbridge/core/handlers.go\<close> for one tool each), \<open>Document_Symbols\<close> (\<open>golang/symbols.go\<close>) and
    \<open>Package_Symbols\<close> above it, \<open>Truncation\<close> and \<open>File_Summary\<close> (\<open>core/truncation.go\<close>,
    \<open>core/gopls_wrappers.go\<close>), \<open>Workspace_Analyzer\<close> (\<open>core/workspace_analyzer.go\<close>) and \<open>Response_Limiter\<close>
    (\<open>core/response_limiter.go\<close>, over JSON values).
  \<^item> Tools over symbols (\<open>core/gopls_wrappers.go\<close>): \<open>Symbol_Search\<close> is \<open>go_search\<close> with its pool of parsing
    goroutines as a transition relation and the ignore rules of \<open>cache/view.go\<close>; \<open>Symbol_Detail\<close> is
    \<open>go_get_package_symbol_detail\<close>; \<open>Rename_Preview\<close> is how \<open>golang/llm_bridge.go\<close> shows a rename: edits
    applied line by line (proved to agree with \<open>ApplyEdits\<close> of \<open>Mapper\<close>) and hunks.
  \<^item> Tools over one symbol: \<open>Resolve_Node\<close> finds the identifier that a locator describes, \<open>Symbol_Text\<close>
    makes names, signatures and summaries (both \<open>golang/llm_bridge.go\<close>), \<open>Gopls_Tools\<close> is \<open>ResolveSymbol\<close> with the
    handlers of \<open>go_definition\<close>, \<open>go_implementation\<close>, \<open>go_symbol_references\<close>, \<open>go_dryrun_rename_symbol\<close> and
    \<open>go_build_check\<close>, and \<open>Tool_Formats\<close> the formatters in \<open>core/{references,diagnostics,diff}_formatter.go\<close>.
  \<^item> Calls: \<open>Call_Hierarchy\<close> (\<open>golang/call_hierarchy.go\<close> and \<open>go_get_call_hierarchy\<close>) groups references and callees
    by the location of a function, in order, over a contract for comparisons.
  \<^item> Settings: \<open>Settings\<close> (\<open>settings/settings.go\<close>: options, setters, \<open>setOne\<close>, \<open>Set\<close>; a pointer to a field is the update
    of the field) with its view of the options as independent cells, and \<open>Settings_Order\<close> (the order of iteration, errors,
    defaults); \<open>Path_Filter\<close> (\<open>cache/filterer.go\<close>, the filter of a view in \<open>cache/view.go\<close>, validation) gives the
    directory filters a meaning on path elements; \<open>Server_Start\<close> (\<open>core/config.go\<close>, \<open>pkg/execute.go\<close>) composes them:
    which filters take effect, in gopls and in the watcher.
  \<^item> Registry: \<open>Tool_Registry\<close> (\<open>core/{server,tool,doc,generate}.go\<close>) has the table of tools, their registration behind
    the response limit, the generated references, and \<open>go_list_tools\<close>.
  \<^item> File events: \<open>File_Watcher\<close> (\<open>filewatcher/filewatcher.go\<close>: one event, one walk, \<open>WatchDir\<close>) and
    \<open>Watch_Pipeline\<close> (the goroutines of that file and of \<open>mcpbridge/watcher/watcher.go\<close>, and the server of
    \<open>mcpbridge/pkg/lsp_wrapper.go\<close>, as one transition relation).

  \<^bold>\<open>Conventions.\<close>  A Go string is a list of characters, one per byte.  A Go map whose order can be
  observed is an association list, and a theorem about a loop over it holds for every list, that is for
  every order; sets of keys are otherwise lists without repetition.  Errors and panics are values.
  An \<open>int\<close> of Go is an \<open>int\<close> or \<open>nat\<close> where its values are bounded by the size of data in memory, and a
  word where the code works on bits.  Mutated structures are passed as records; where the code shares
  a record between two maps (\<open>breakImportCycles\<close>) the model updates the one that is read afterwards.

  \<^bold>\<open>Fuel.\<close>  Recursions whose depth depends on data take fuel and return an option; the properties prove
  that the fuel the model gives is enough, so that no answer is lost.  Graph traversals use one more
  than the number of nodes they may meet (\<open>universe\<close>, \<open>node_universe\<close>), because the seen set grows with
  each level; \<open>collectDependencies\<close> two more than the number of paths; \<open>find\<close> in \<open>detectImportCycles\<close> two,
  because a node that is on the forest points to its root.  The loops that recover diagonals from labels
  in \<open>Lcs\<close> are \<open>partial_function\<close>s, and \<open>lcs_diff_spec\<close> shows that they end; the search makes as many
  rounds as the code, 50, and then settles for an answer that need not be shortest.

  \<^bold>\<open>Parameters.\<close>  Code that is not under src, or that only talks to the system, is an argument: the answers
  of the snapshot (metadata, parsed files, contents), \<open>NewView\<close>, the hash of \<open>hash/maphash\<close>, the random
  priorities of the treap, \<open>json.Unmarshal\<close> (of a text, not of its tree), \<open>time.ParseDuration\<close>, SHA-256, \<open>fmt\<close>'s \<open>%q\<close>, the file system and \<open>fsnotify\<close>, the session's
  \<open>DidModifyFiles\<close>, and the clock, which decides only when a step is taken.

  \<^bold>\<open>The properties.\<close>  Containers, edits and the package graph: functional correctness against sets, maps,
  replaced regions, reachability and strong components, with the invariants kept by every operation;
  equivalences (\<open>SetAll\<close> is \<open>Set\<close> for each entry, \<open>lineEdits\<close> changes nothing) and round trips.  Handlers:
  which inputs give which error or panic, what is listed, that every cut is within its limit and
  reported.  Settings: independence of the order of a map, errors that change nothing, filters with a meaning
  on path elements, from the command line to what the view excludes and the watcher watches.  The watcher: what one event adds, that no event is lost or reordered in any interleaving, and
  that the pipeline empties.

  \<^bold>\<open>Not modelled.\<close>  Generated code (\<open>tsprotocol.go\<close>, the manifest of the standard library, API data), the
  analyzers, refactorings, completion and most other features of gopls and of \<open>golang.org/x/tools\<close>, which
  depend on \<open>go/types\<close>, the compiler's export data or the \<open>go\<close> command; the cache (\<open>snapshot.go\<close>,
  \<open>session.go\<close>, \<open>check.go\<close>), whose answers are parameters here; transport, logging, signals and the
  other command lines; reference counts and finalizers of the persistent map; \<open>ApplyUnified\<close> and other test
  helpers.
\<close>

end
